(* ===== verification/Prelude.thy ===== *)
theory Prelude
  imports Main "HOL-Library.Word" "HOL-Library.Multiset"
begin

text \<open>
  What every component of the model of Twist's deterministic simulator shares: the words and
  identifiers, the way a failing operation is represented, and the generic facts about lists that
  the thread sets, the wait queues and the free lists use.

  \<^item> \<open>fault\<close> is what ends an operation early: \<open>Panic\<close> is a failed
    \<open>WHEELS_VERIFY\<close>, \<open>WHEELS_ASSERT\<close> or \<open>WHEELS_PANIC\<close>, which kills the process.
  \<^item> An operation that may fail returns a sum, the failure on the left; \<open>bindE\<close> sequences two.
  \<^item> \<open>swap_remove\<close> is the constant-time removal of an array slot (move the last element into it)
    which the random thread set and the allocator's free list both use.
\<close>

type_synonym tid = nat          \<comment> \<open>\<open>ThreadId\<close>, at most \<open>kMaxThreads\<close>\<close>
type_synonym addr = nat         \<comment> \<open>an address, \<open>void*\<close> or \<open>char*\<close>\<close>
type_synonym u64 = "64 word"    \<comment> \<open>\<open>uint64_t\<close> and \<open>size_t\<close> where the bits matter\<close>
type_synonym source_loc = string

named_theorems bindE_intro

section \<open>Failing operations\<close>

definition bindE :: "'e + 'a \<Rightarrow> ('a \<Rightarrow> 'e + 'b) \<Rightarrow> 'e + 'b" where
  "bindE m f = (case m of Inl e \<Rightarrow> Inl e | Inr a \<Rightarrow> f a)"

definition verify :: "bool \<Rightarrow> 'e \<Rightarrow> 'e + unit" where
  "verify b e = (if b then Inr () else Inl e)"

lemma bindE_simps [simp]:
  "bindE (Inl e) f = Inl e"
  "bindE (Inr a) f = f a"
  by (simp_all add: bindE_def)

lemma bindE_eq_Inr: "bindE m f = Inr b \<longleftrightarrow> (\<exists>a. m = Inr a \<and> f a = Inr b)"
  by (cases m) auto

lemma bindE_eq_Inl: "bindE m f = Inl e \<longleftrightarrow> m = Inl e \<or> (\<exists>a. m = Inr a \<and> f a = Inl e)"
  by (cases m) auto

lemma bindE_assoc: "bindE (bindE m f) g = bindE m (\<lambda>a. bindE (f a) g)"
  by (cases m) auto

lemma verify_simps [simp]:
  "verify True e = Inr ()"
  "verify False e = Inl e"
  by (simp_all add: verify_def)

lemma verify_eq_Inr [simp]: "verify b e = Inr u \<longleftrightarrow> b"
  by (cases b) auto

lemma verify_eq_Inl [simp]: "verify b e = Inl e' \<longleftrightarrow> \<not> b \<and> e' = e"
  by (cases b) auto

section \<open>Removing an array slot by moving the last element into it\<close>

definition swap_remove :: "nat \<Rightarrow> 'a list \<Rightarrow> 'a list" where
  "swap_remove i xs = butlast (xs[i := last xs])"

lemma length_swap_remove [simp]: "length (swap_remove i xs) = length xs - 1"
  by (simp add: swap_remove_def)

lemma mset_swap_remove:
  assumes "i < length xs"
  shows "mset (swap_remove i xs) + {# xs ! i #} = mset xs"
proof -
  have ne: "xs \<noteq> []" using assms by auto
  let ?ys = "xs[i := last xs]"
  have "mset ?ys = add_mset (last xs) (mset xs - {# xs ! i #})"
    using assms by (simp add: mset_update)
  moreover have "?ys \<noteq> []" using ne by simp
  moreover have "last ?ys = last xs"
    using assms ne by (auto simp: last_list_update)
  moreover have "mset ?ys = mset (butlast ?ys) + {# last ?ys #}"
    using \<open>?ys \<noteq> []\<close> by (metis append_butlast_last_id mset_append mset_single_iff_right)
  ultimately have "mset (butlast ?ys) = mset xs - {# xs ! i #}"
    by simp
  then show ?thesis
    using assms by (simp add: swap_remove_def)
qed

lemma mset_swap_remove_diff:
  "i < length xs \<Longrightarrow> mset (swap_remove i xs) = mset xs - {# xs ! i #}"
  using mset_swap_remove [of i xs] by (metis add_diff_cancel_right')

lemma distinct_swap_remove:
  assumes "i < length xs" and "distinct xs"
  shows "distinct (swap_remove i xs)" and "set (swap_remove i xs) = set xs - {xs ! i}"
proof -
  have m: "mset xs = add_mset (xs ! i) (mset (swap_remove i xs))"
    using mset_swap_remove [OF assms(1)] by simp
  then have "distinct (xs ! i # swap_remove i xs)"
    using assms(2) by (metis mset.simps(2) mset_eq_imp_distinct_iff)
  moreover have "set xs = insert (xs ! i) (set (swap_remove i xs))"
    using m by (metis mset.simps(2) set_mset_add_mset_insert set_mset_mset)
  ultimately show "distinct (swap_remove i xs)" "set (swap_remove i xs) = set xs - {xs ! i}"
    by auto
qed

section \<open>Searching an array\<close>

text \<open>The loop \<open>for (i = 0; i < size; ++i) if (p(a[i])) return i\<close>.\<close>

fun find_index :: "('a \<Rightarrow> bool) \<Rightarrow> 'a list \<Rightarrow> nat option" where
  "find_index p [] = None"
| "find_index p (x # xs) = (if p x then Some 0 else map_option Suc (find_index p xs))"

lemma find_index_Some:
  "find_index p xs = Some i \<Longrightarrow> i < length xs \<and> p (xs ! i) \<and> (\<forall>j < i. \<not> p (xs ! j))"
proof (induction xs arbitrary: i)
  case Nil
  then show ?case by simp
next
  case (Cons x xs)
  show ?case
  proof (cases "p x")
    case True
    with Cons.prems show ?thesis by simp
  next
    case False
    with Cons.prems obtain k where k: "find_index p xs = Some k" "i = Suc k"
      by auto
    with Cons.IH [OF k(1)] False show ?thesis
      by (auto simp: less_Suc_eq_0_disj)
  qed
qed

lemma find_index_None: "find_index p xs = None \<longleftrightarrow> (\<forall>x \<in> set xs. \<not> p x)"
  by (induction xs) auto

section \<open>Finite sets of thread identifiers\<close>

lemma card_subset_interval: "A \<subseteq> {1..n} \<Longrightarrow> card A \<le> (n :: nat)"
  using card_mono [of "{1..n}" A] by simp

lemma length_distinct_interval:
  "distinct xs \<Longrightarrow> set xs \<subseteq> {1..n} \<Longrightarrow> length xs \<le> (n :: nat)"
  by (metis card_subset_interval distinct_card)

lemma length_distinct_interval_less:
  assumes "distinct xs" and "set xs \<subseteq> {1..n}" and "x \<in> {1..n}" and "x \<notin> set xs"
  shows "length xs < (n :: nat)"
proof -
  have "distinct (x # xs)" "set (x # xs) \<subseteq> {1..n}" using assms by auto
  then have "length (x # xs) \<le> n" by (rule length_distinct_interval)
  then show ?thesis by simp
qed

end
