(* ===== verification/Sim_Types.thy ===== *)
theory Sim_Types
  imports Prelude
begin

text \<open>
  The types the simulator's parts exchange (\<open>rt/sim/system/status.hpp\<close>, \<open>call/status.hpp\<close>,
  \<open>thread/\<close>, \<open>sync/action*.hpp\<close>, \<open>sync/mo.hpp\<close>, \<open>sync/access.hpp\<close>, \<open>futex/\<close>): the enums as
  datatypes with the source's constructors, the structs as records. A \<open>Thread*\<close> is the thread's
  identifier, and the mutable \<open>Thread\<close> objects live in a table from identifiers to records.
  \<open>rep_\<close> fields hold 64-bit representations of values. Pointers to user objects that the kernel
  only passes through (the user routine, the stack, the execution context) are left out.
\<close>

section \<open>Results\<close>

datatype status =
  Ok | LibraryAssert | UnhandledException | Deadlock | MemoryLeak | MemoryDoubleFree
| InvalidMemoryAccess | DataRace | UserAbort | Pruned

text \<open>
  What ends an operation early: a panic kills the process, \<open>SysAbortEx\<close> is the exception that
  \<open>_SysAbort\<close> throws to the simulator's loop after it has set the status, and \<open>NoReturn\<close> stands
  for a loop that never ends.
\<close>

datatype fault = Panic string | SysAbortEx status | NoReturn

record result =
  res_status :: status
  res_threads :: nat
  res_iters :: nat
  res_digest :: u64

definition result_Ok :: "result \<Rightarrow> bool" where
  "result_Ok r \<longleftrightarrow> res_status r = Ok"

definition Complete :: "result \<Rightarrow> bool" where
  "Complete r \<longleftrightarrow> res_status r \<noteq> Pruned"

definition Failure :: "result \<Rightarrow> bool" where
  "Failure r \<longleftrightarrow> \<not> result_Ok r \<and> Complete r"

datatype call_status = StOk | StTimeout | StInterrupted

section \<open>Synchronisation actions\<close>

datatype memory_order = relaxed | consume | acquire | release | acq_rel | seq_cst

fun IsLoadOrder :: "memory_order \<Rightarrow> bool" where
  "IsLoadOrder relaxed = True"
| "IsLoadOrder acquire = True"
| "IsLoadOrder seq_cst = True"
| "IsLoadOrder _ = False"

fun IsAcquireOrder :: "memory_order \<Rightarrow> bool" where
  "IsAcquireOrder acquire = True"
| "IsAcquireOrder acq_rel = True"
| "IsAcquireOrder seq_cst = True"
| "IsAcquireOrder _ = False"

fun IsStoreOrder :: "memory_order \<Rightarrow> bool" where
  "IsStoreOrder relaxed = True"
| "IsStoreOrder acq_rel = True"
| "IsStoreOrder release = True"
| "IsStoreOrder seq_cst = True"
| "IsStoreOrder _ = False"

fun IsReleaseOrder :: "memory_order \<Rightarrow> bool" where
  "IsReleaseOrder release = True"
| "IsReleaseOrder acq_rel = True"
| "IsReleaseOrder seq_cst = True"
| "IsReleaseOrder _ = False"

datatype action_type =
  AtomicInit | AtomicLoad | AtomicDebugLoad | AtomicStore | AtomicRmwLoad | AtomicRmwCommit
| AtomicDestroy | AtomicThreadFence

fun IsLoad :: "action_type \<Rightarrow> bool" where
  "IsLoad AtomicLoad = True"
| "IsLoad AtomicDebugLoad = True"
| "IsLoad AtomicRmwLoad = True"
| "IsLoad _ = False"

fun IsStore :: "action_type \<Rightarrow> bool" where
  "IsStore AtomicInit = True"
| "IsStore AtomicStore = True"
| "IsStore AtomicRmwCommit = True"
| "IsStore _ = False"

fun IsRmwStep :: "action_type \<Rightarrow> bool" where
  "IsRmwStep AtomicRmwLoad = True"
| "IsRmwStep AtomicRmwCommit = True"
| "IsRmwStep _ = False"

fun IsDebug :: "action_type \<Rightarrow> bool" where
  "IsDebug AtomicDebugLoad = True"
| "IsDebug _ = False"

text \<open>\<open>struct Action\<close> of \<open>sync/action.hpp\<close>; its printing-only fields are left out.\<close>

record action =
  act_loc :: addr
  act_size :: nat
  act_type :: action_type
  act_value :: u64
  act_mo :: memory_order
  act_source_loc :: source_loc

datatype access_type = AccInit | AccRead | AccWrite | AccDestroy

definition IsRead :: "access_type \<Rightarrow> bool" where
  "IsRead a \<longleftrightarrow> a = AccRead"

definition IsWrite :: "access_type \<Rightarrow> bool" where
  "IsWrite a \<longleftrightarrow> \<not> IsRead a"

record access =
  acc_loc :: addr
  acc_type :: access_type
  acc_source_loc :: source_loc

record old_access =
  old_loc :: addr
  old_type :: access_type
  old_thread :: tid
  old_epoch :: nat
  old_source_loc :: source_loc

section \<open>Futexes\<close>

datatype futex_type =
  FtFutex | FtAtomic | FtThread | FtMutexLock | FtMutexTryLock | FtCondVar | FtWaitGroup

record waiter_context =
  wc_type :: futex_type
  wc_source_loc :: source_loc

datatype wake_type = WakeSleepTimer | WakeFutexWake | WakeFutexTimer | WakeSpurious

datatype futex_atomic_type = Uint32 | Uint64Half | Std
datatype futex_atomic_part = Whole | LowHalf | HighHalf

record futex_key =
  fk_atomic :: addr
  fk_part :: futex_atomic_part

record futex_loc =
  fl_atomic :: addr
  fl_size :: nat
  fl_part :: futex_atomic_part
  fl_type :: futex_atomic_type

definition AtomicUint32 :: "addr \<Rightarrow> futex_loc" where
  "AtomicUint32 a = \<lparr>fl_atomic = a, fl_size = 4, fl_part = Whole, fl_type = Uint32\<rparr>"

definition AtomicUint64Half :: "addr \<Rightarrow> bool \<Rightarrow> futex_loc" where
  "AtomicUint64Half a low =
     \<lparr>fl_atomic = a, fl_size = 8, fl_part = (if low then LowHalf else HighHalf),
      fl_type = Uint64Half\<rparr>"

definition StdAtomic :: "addr \<Rightarrow> nat \<Rightarrow> futex_loc" where
  "StdAtomic a sz = \<lparr>fl_atomic = a, fl_size = sz, fl_part = Whole, fl_type = Std\<rparr>"

definition FutexKey :: "futex_loc \<Rightarrow> futex_key" where
  "FutexKey l = \<lparr>fk_atomic = fl_atomic l, fk_part = fl_part l\<rparr>"

section \<open>Threads\<close>

definition kMaxThreads :: nat where
  "kMaxThreads = 16"

definition kImpossibleId :: tid where
  "kImpossibleId = 0"

datatype thread_state =
  Starting | Runnable | Running | Sleeping | LfSuspended | Parked | Terminated | Deadlocked

record thread_attrs =
  preemptive :: bool
  lock_free :: bool

text \<open>\<open>SchedulerThreadContext\<close>: four words of the scheduler's own, with no initial value.\<close>

record sched_context =
  f1 :: u64
  f2 :: u64

text \<open>A vector clock is an array of \<open>kMaxThreads\<close> epochs; cell \<open>i\<close> is thread \<open>i + 1\<close>'s.\<close>

type_synonym clock = "nat \<Rightarrow> nat"

record sync_context =
  current :: clock
  acquire_clock :: clock
  release_clock :: clock
  epoch :: nat

text \<open>
  The tracing scope of the thread's fiber, as far as the kernel looks at it: where it was opened
  and the names of its attributes.
\<close>

record scope =
  scope_loc :: source_loc
  scope_attrs :: "string list"

record thread =
  th_id :: tid
  th_parent_id :: "tid option"
  th_state :: thread_state
  th_main :: bool
  th_attrs :: thread_attrs
  th_action :: "action option"
  th_load :: u64
  th_waiter :: "waiter_context option"
  th_futex :: "futex_key option"
  th_timer :: "nat option"
  th_status :: call_status
  th_runs :: nat
  th_scope :: "scope option"
  th_sched :: sched_context
  th_sync :: sync_context

definition sync_context_Init :: "sync_context \<Rightarrow> sync_context" where
  "sync_context_Init s =
     s\<lparr>current := (\<lambda>_. 0), acquire_clock := (\<lambda>_. 0), release_clock := (\<lambda>_. 0), epoch := 0\<rparr>"

text \<open>\<open>Thread::Reset\<close>.\<close>

definition thread_Reset :: "tid \<Rightarrow> thread \<Rightarrow> thread" where
  "thread_Reset tid t =
     t\<lparr>th_id := tid,
       th_parent_id := None,
       th_scope := None,
       th_state := Starting,
       th_main := False,
       th_attrs := \<lparr>preemptive = True, lock_free = False\<rparr>,
       th_futex := None,
       th_timer := None,
       th_waiter := None,
       th_action := None,
       th_load := 0,
       th_runs := 0,
       th_sync := sync_context_Init (th_sync t)\<rparr>"

text \<open>The kernel's table of threads.\<close>

type_synonym threads = "tid \<Rightarrow> thread"

definition set_state :: "tid \<Rightarrow> thread_state \<Rightarrow> threads \<Rightarrow> threads" where
  "set_state t st ths = ths(t := (ths t)\<lparr>th_state := st\<rparr>)"

definition set_f1 :: "tid \<Rightarrow> u64 \<Rightarrow> threads \<Rightarrow> threads" where
  "set_f1 t v ths = ths(t := (ths t)\<lparr>th_sched := (th_sched (ths t))\<lparr>f1 := v\<rparr>\<rparr>)"

definition set_f2 :: "tid \<Rightarrow> u64 \<Rightarrow> threads \<Rightarrow> threads" where
  "set_f2 t v ths = ths(t := (ths t)\<lparr>th_sched := (th_sched (ths t))\<lparr>f2 := v\<rparr>\<rparr>)"

lemma set_f1_simps [simp]:
  "f1 (th_sched (set_f1 t v ths t)) = v"
  "u \<noteq> t \<Longrightarrow> set_f1 t v ths u = ths u"
  "f2 (th_sched (set_f1 t v ths u)) = f2 (th_sched (ths u))"
  "th_attrs (set_f1 t v ths u) = th_attrs (ths u)"
  "th_state (set_f1 t v ths u) = th_state (ths u)"
  "th_action (set_f1 t v ths u) = th_action (ths u)"
  "th_id (set_f1 t v ths u) = th_id (ths u)"
  by (auto simp: set_f1_def)

lemma set_f2_simps [simp]:
  "f2 (th_sched (set_f2 t v ths t)) = v"
  "u \<noteq> t \<Longrightarrow> set_f2 t v ths u = ths u"
  "f1 (th_sched (set_f2 t v ths u)) = f1 (th_sched (ths u))"
  "th_attrs (set_f2 t v ths u) = th_attrs (ths u)"
  "th_state (set_f2 t v ths u) = th_state (ths u)"
  "th_action (set_f2 t v ths u) = th_action (ths u)"
  "th_id (set_f2 t v ths u) = th_id (ths u)"
  by (auto simp: set_f2_def)

lemma set_state_simps [simp]:
  "th_state (set_state t st ths t) = st"
  "u \<noteq> t \<Longrightarrow> set_state t st ths u = ths u"
  "th_sched (set_state t st ths u) = th_sched (ths u)"
  "th_attrs (set_state t st ths u) = th_attrs (ths u)"
  "th_action (set_state t st ths u) = th_action (ths u)"
  "th_id (set_state t st ths u) = th_id (ths u)"
  by (auto simp: set_state_def)

section \<open>Parameters of the simulator\<close>

record params =
  p_tick :: int
  p_allow_detached_threads :: bool
  p_min_stack_size :: "nat option"
  p_check_stack_pointer :: bool
  p_memset_stacks :: "8 word option"
  p_zero_memory :: bool
  p_randomize_malloc :: bool
  p_memset_malloc :: "8 word option"
  p_malloc_happens_before :: bool
  p_spin_wait_yield_threshold :: nat
  p_hardware_concurrency :: nat
  p_crash_on_abort :: bool
  p_forward_stdout :: bool
  p_digest_atomic_loads :: bool
  p_allow_digest_atomic_loads :: bool
  p_verbose :: bool

text \<open>The tick is in nanoseconds.\<close>

definition default_params :: params where
  "default_params = \<lparr>p_tick = 10000, p_allow_detached_threads = True, p_min_stack_size = None,
     p_check_stack_pointer = True, p_memset_stacks = None, p_zero_memory = False, p_randomize_malloc = False,
     p_memset_malloc = None, p_malloc_happens_before = True, p_spin_wait_yield_threshold = 2,
     p_hardware_concurrency = 4, p_crash_on_abort = True, p_forward_stdout = True,
     p_digest_atomic_loads = False, p_allow_digest_atomic_loads = True, p_verbose = False\<rparr>"

end
