(* ===== verification/Timers.thy ===== *)
theory Timers
  imports Prelude "HOL-Library.Product_Lexorder"
begin

text \<open>
  The timer queue (\<open>rt/sim/system/timer/\<close>): a binary min-heap of timer pointers in a fixed array,
  1-based, ordered by deadline and then by the identifier the queue gives at insertion. Each timer
  object carries its own position in the array (\<open>meta.loc\<close>), so that a cancelled timer is found
  in constant time.

  A \<open>Timer*\<close> is a number, and the timer objects the pointers lead to are part of the state
  (\<open>store\<close>), because the heap writes their metadata.
\<close>

section \<open>The heap\<close>

type_synonym timer_ref = nat

record timer =
  tm_when :: int
  loc :: nat
  timer_id :: nat

record timer_heap =
  tree :: "nat \<Rightarrow> timer_ref"
  hsize :: nat
  store :: "timer_ref \<Rightarrow> timer"

definition kTimerLimit :: nat where
  "kTimerLimit = 256"

definition Parent :: "nat \<Rightarrow> nat" where
  "Parent i = i div 2"

definition LeftChild :: "nat \<Rightarrow> nat" where
  "LeftChild i = i * 2"

definition RightChild :: "nat \<Rightarrow> nat" where
  "RightChild i = i * 2 + 1"

definition IsRoot :: "nat \<Rightarrow> bool" where
  "IsRoot i \<longleftrightarrow> i = 1"

definition IsLeaf :: "timer_heap \<Rightarrow> nat \<Rightarrow> bool" where
  "IsLeaf h i \<longleftrightarrow> i * 2 > hsize h"

definition Less :: "timer_heap \<Rightarrow> nat \<Rightarrow> nat \<Rightarrow> bool" where
  "Less h i j \<longleftrightarrow>
     (let lhs = store h (tree h i); rhs = store h (tree h j)
      in (tm_when lhs, timer_id lhs) < (tm_when rhs, timer_id rhs))"

definition UpdateTimerMetadata :: "nat \<Rightarrow> timer_heap \<Rightarrow> timer_heap" where
  "UpdateTimerMetadata i h =
     h\<lparr>store := (store h)(tree h i := (store h (tree h i))\<lparr>loc := i\<rparr>)\<rparr>"

definition swap :: "nat \<Rightarrow> nat \<Rightarrow> timer_heap \<Rightarrow> timer_heap" where
  "swap i j h = h\<lparr>tree := (tree h)(i := tree h j, j := tree h i)\<rparr>"

function SiftUp :: "nat \<Rightarrow> timer_heap \<Rightarrow> timer_heap" where
  "SiftUp index h =
     (if \<not> IsRoot index \<and> Less h index (Parent index)
      then SiftUp (Parent index) (UpdateTimerMetadata index (swap index (Parent index) h))
      else UpdateTimerMetadata index h)"
  by pat_completeness auto
termination
proof (relation "measure fst", simp)
  fix index h
  assume "\<not> IsRoot index \<and> Less h index (Parent index)"
  then have "index \<noteq> 0" by (cases index) (auto simp: Less_def Parent_def Let_def)
  then show "((Parent index, UpdateTimerMetadata index (swap index (Parent index) h)), index, h)
               \<in> measure fst"
    by (simp add: Parent_def)
qed

text \<open>The child (or the node itself) that \<open>SiftDown\<close> picks as the smallest.\<close>

definition MinChild :: "timer_heap \<Rightarrow> nat \<Rightarrow> nat" where
  "MinChild h index =
     (let min0 = index;
          left = LeftChild index;
          right = RightChild index;
          min1 = (if left \<le> hsize h \<and> Less h left min0 then left else min0)
      in (if right \<le> hsize h \<and> Less h right min1 then right else min1))"

function SiftDown :: "nat \<Rightarrow> timer_heap \<Rightarrow> timer_heap" where
  "SiftDown index h =
     (if \<not> IsLeaf h index \<and> MinChild h index \<noteq> index
      then SiftDown (MinChild h index)
             (UpdateTimerMetadata index (swap index (MinChild h index) h))
      else UpdateTimerMetadata index h)"
  by pat_completeness auto
termination
  by (relation "measure (\<lambda>(index, h). hsize h - index)")
     (auto simp: MinChild_def Let_def LeftChild_def RightChild_def UpdateTimerMetadata_def
        swap_def IsLeaf_def split: if_splits)

declare SiftUp.simps [simp del] SiftDown.simps [simp del]

definition heap_Insert :: "timer_ref \<Rightarrow> timer_heap \<Rightarrow> string + timer_heap" where
  "heap_Insert timer h =
     (if \<not> hsize h + 1 < kTimerLimit then Inl ''Timer limit reached''
      else let s = hsize h + 1;
               h1 = h\<lparr>hsize := s, tree := (tree h)(s := timer)\<rparr>
           in Inr (SiftUp s h1))"

definition IsActive :: "timer_heap \<Rightarrow> timer_ref \<Rightarrow> bool" where
  "IsActive h timer \<longleftrightarrow> loc (store h timer) > 0"

definition heap_Remove :: "timer_ref \<Rightarrow> timer_heap \<Rightarrow> string + timer_heap" where
  "heap_Remove timer h =
     (let index = loc (store h timer)
      in if tree h index \<noteq> timer then Inl ''Invalid timer index''
         else let h1 = h\<lparr>store := (store h)(timer := (store h timer)\<lparr>loc := 0\<rparr>)\<rparr>;
                  h2 = h1\<lparr>tree := (tree h1)(index := tree h1 (hsize h1))\<rparr>;
                  h3 = h2\<lparr>hsize := hsize h2 - 1\<rparr>
              in Inr (SiftDown index h3))"

definition heap_IsEmpty :: "timer_heap \<Rightarrow> bool" where
  "heap_IsEmpty h \<longleftrightarrow> hsize h = 0"

definition ExtractMin :: "timer_heap \<Rightarrow> string + (timer_ref \<times> timer_heap)" where
  "ExtractMin h =
     (if heap_IsEmpty h then Inl ''ExtractMin on empty timer heap''
      else let min = tree h 1;
               h1 = h\<lparr>tree := (tree h)(1 := tree h (hsize h)), hsize := hsize h - 1\<rparr>;
               h2 = (if hsize h1 > 0 then SiftDown 1 h1 else h1)
           in Inr (min, h2))"

definition heap_Min :: "timer_heap \<Rightarrow> string + timer_ref" where
  "heap_Min h = (if heap_IsEmpty h then Inl ''Min on empty timer heap'' else Inr (tree h 1))"

section \<open>The queue\<close>

record timer_queue =
  timers :: timer_heap
  next_id :: nat

definition Add :: "timer_ref \<Rightarrow> timer_queue \<Rightarrow> string + timer_queue" where
  "Add timer q =
     (let n = next_id q + 1;
          h = timers q;
          h1 = h\<lparr>store := (store h)(timer := (store h timer)\<lparr>timer_id := n\<rparr>)\<rparr>
      in bindE (heap_Insert timer h1) (\<lambda>h2. Inr (q\<lparr>timers := h2, next_id := n\<rparr>)))"

definition queue_Remove :: "timer_ref \<Rightarrow> timer_queue \<Rightarrow> string + (bool \<times> timer_queue)" where
  "queue_Remove timer q =
     (if IsActive (timers q) timer
      then bindE (heap_Remove timer (timers q)) (\<lambda>h. Inr (True, q\<lparr>timers := h\<rparr>))
      else Inr (False, q))"

definition queue_IsEmpty :: "timer_queue \<Rightarrow> bool" where
  "queue_IsEmpty q = heap_IsEmpty (timers q)"

definition Poll :: "int \<Rightarrow> timer_queue \<Rightarrow> string + (timer_ref option \<times> timer_queue)" where
  "Poll now q =
     (if \<not> heap_IsEmpty (timers q) \<and> tm_when (store (timers q) (tree (timers q) 1)) \<le> now
      then bindE (ExtractMin (timers q)) (\<lambda>(m, h). Inr (Some m, q\<lparr>timers := h\<rparr>))
      else Inr (None, q))"

definition NextDeadLine :: "timer_queue \<Rightarrow> string + int" where
  "NextDeadLine q = bindE (heap_Min (timers q)) (\<lambda>m. Inr (tm_when (store (timers q) m)))"

definition queue_Reset :: "timer_queue \<Rightarrow> string + timer_queue" where
  "queue_Reset q =
     (if \<not> heap_IsEmpty (timers q) then Inl ''Non-empty timer queue'' else Inr (q\<lparr>next_id := 0\<rparr>))"

section \<open>Keys, positions and the heap order\<close>

definition keyof :: "timer_heap \<Rightarrow> timer_ref \<Rightarrow> int \<times> nat" where
  "keyof h t = (tm_when (store h t), timer_id (store h t))"

abbreviation key :: "timer_heap \<Rightarrow> nat \<Rightarrow> int \<times> nat" where
  "key h i \<equiv> keyof h (tree h i)"

definition refs :: "timer_heap \<Rightarrow> timer_ref set" where
  "refs h = tree h ` {1..hsize h}"

definition heap_order :: "timer_heap \<Rightarrow> bool" where
  "heap_order h \<longleftrightarrow> (\<forall>i \<in> {2..hsize h}. key h (i div 2) \<le> key h i)"

text \<open>All timers know their position, but for the one at position \<open>k\<close>.\<close>

definition locs_but :: "nat \<Rightarrow> timer_heap \<Rightarrow> bool" where
  "locs_but k h \<longleftrightarrow> inj_on (tree h) {1..hsize h} \<and>
     (\<forall>i \<in> {1..hsize h}. i \<noteq> k \<longrightarrow> loc (store h (tree h i)) = i)"

text \<open>The order holds except between \<open>k\<close> and its parent (its children).\<close>

definition order_up :: "nat \<Rightarrow> timer_heap \<Rightarrow> bool" where
  "order_up k h \<longleftrightarrow>
     (\<forall>i \<in> {2..hsize h}. i \<noteq> k \<longrightarrow> key h (i div 2) \<le> key h i) \<and>
     (\<forall>c \<in> {2..hsize h}. 2 \<le> k \<and> c div 2 = k \<longrightarrow> key h (k div 2) \<le> key h c)"

definition order_down :: "nat \<Rightarrow> timer_heap \<Rightarrow> bool" where
  "order_down k h \<longleftrightarrow>
     (\<forall>i \<in> {2..hsize h}. i div 2 \<noteq> k \<longrightarrow> key h (i div 2) \<le> key h i) \<and>
     (\<forall>c \<in> {2..hsize h}. 2 \<le> k \<and> c div 2 = k \<longrightarrow> key h (k div 2) \<le> key h c)"

text \<open>What a sift never changes: the timers held, their keys, and all other timers.\<close>

definition same_timers :: "timer_heap \<Rightarrow> timer_heap \<Rightarrow> bool" where
  "same_timers h h' \<longleftrightarrow> hsize h' = hsize h \<and> refs h' = refs h \<and> keyof h' = keyof h \<and>
     (\<forall>t. t \<notin> refs h \<longrightarrow> store h' t = store h t)"

definition heap_inv :: "timer_heap \<Rightarrow> bool" where
  "heap_inv h \<longleftrightarrow> locs_but 0 h \<and> heap_order h \<and> hsize h < kTimerLimit"

lemma refs_store_update [simp]: "refs (h\<lparr>store := st\<rparr>) = refs h"
  unfolding refs_def by simp

lemma Less_key: "Less h i j \<longleftrightarrow> key h i < key h j"
  by (simp add: Less_def keyof_def Let_def)

lemma same_timers_refl [simp]: "same_timers h h"
  by (simp add: same_timers_def)

lemma same_timers_trans: "same_timers h h' \<Longrightarrow> same_timers h' h'' \<Longrightarrow> same_timers h h''"
  by (auto simp: same_timers_def)

lemma keyof_Update [simp]: "keyof (UpdateTimerMetadata i h) = keyof h"
  by (rule ext) (simp add: keyof_def UpdateTimerMetadata_def)

lemma tree_Update [simp]: "tree (UpdateTimerMetadata i h) = tree h"
  by (simp add: UpdateTimerMetadata_def)

lemma hsize_Update [simp]: "hsize (UpdateTimerMetadata i h) = hsize h"
  by (simp add: UpdateTimerMetadata_def)

lemma hsize_swap [simp]: "hsize (swap i j h) = hsize h"
  by (simp add: swap_def)

lemma tree_swap: "tree (swap i j h) k = (if k = j then tree h i else if k = i then tree h j else tree h k)"
  by (simp add: swap_def)

lemma keyof_swap [simp]: "keyof (swap i j h) = keyof h"
  by (rule ext) (simp add: keyof_def swap_def)

lemma store_swap [simp]: "store (swap i j h) = store h"
  by (simp add: swap_def)

lemma refs_Update [simp]: "refs (UpdateTimerMetadata i h) = refs h"
  by (simp add: refs_def)

lemma refs_swap:
  assumes "i \<in> {1..hsize h}" and "j \<in> {1..hsize h}"
  shows "refs (swap i j h) = refs h"
proof -
  have "tree (swap i j h) ` {1..hsize h} = tree h ` {1..hsize h}"
    using assms by (force simp: tree_swap image_iff)
  then show ?thesis by (simp add: refs_def)
qed

lemma same_timers_Update:
  "i \<in> {1..hsize h} \<Longrightarrow> same_timers h (UpdateTimerMetadata i h)"
  by (auto simp: same_timers_def UpdateTimerMetadata_def keyof_def refs_def)

lemma same_timers_swap:
  "i \<in> {1..hsize h} \<Longrightarrow> j \<in> {1..hsize h} \<Longrightarrow>
     same_timers h (UpdateTimerMetadata i (swap i j h))"
  using same_timers_Update [of i "swap i j h"]
  by (rule_tac same_timers_trans [of h "swap i j h"]) (auto simp: same_timers_def refs_swap)

lemma locs_but_Update:
  assumes "locs_but k h" and "k \<in> {1..hsize h}"
  shows "locs_but 0 (UpdateTimerMetadata k h)"
proof -
  have inj: "inj_on (tree h) {1..hsize h}" using assms(1) by (simp add: locs_but_def)
  have "loc (store (UpdateTimerMetadata k h) (tree h i)) = i" if i: "i \<in> {1..hsize h}" for i
  proof (cases "i = k")
    case True
    then show ?thesis by (simp add: UpdateTimerMetadata_def)
  next
    case False
    then have "tree h i \<noteq> tree h k" using inj_onD [OF inj _ i assms(2)] by blast
    then show ?thesis
      using assms(1) False i by (simp add: UpdateTimerMetadata_def locs_but_def)
  qed
  with inj show ?thesis by (simp add: locs_but_def)
qed

lemma locs_but_swap:
  assumes l: "locs_but k h" and k: "k \<in> {1..hsize h}" and j: "j \<in> {1..hsize h}" "j \<noteq> k"
  shows "locs_but j (UpdateTimerMetadata k (swap k j h))"
proof -
  let ?h = "swap k j h"
  have inj: "inj_on (tree h) {1..hsize h}" using l by (simp add: locs_but_def)
  have inj': "inj_on (tree ?h) {1..hsize h}"
  proof (rule inj_onI)
    fix x y
    assume "x \<in> {1..hsize h}" "y \<in> {1..hsize h}" "tree ?h x = tree ?h y"
    with k j show "x = y"
      by (auto simp: tree_swap split: if_splits dest: inj_onD [OF inj])
  qed
  have "loc (store (UpdateTimerMetadata k ?h) (tree ?h i)) = i"
    if i: "i \<in> {1..hsize h}" "i \<noteq> j" for i
  proof (cases "i = k")
    case True
    then show ?thesis by (simp add: UpdateTimerMetadata_def)
  next
    case False
    then have "tree ?h i \<noteq> tree ?h k"
      using i k inj_onD [OF inj', of i k] by auto
    moreover have "tree ?h i = tree h i" using False i by (simp add: tree_swap)
    ultimately show ?thesis
      using l False i by (simp add: UpdateTimerMetadata_def locs_but_def)
  qed
  with inj' show ?thesis by (simp add: locs_but_def)
qed

section \<open>Sifting restores the order\<close>

lemma order_up_step:
  assumes o: "order_up k h" and k: "2 \<le> k" "k \<le> hsize h" and lt: "key h k < key h (k div 2)"
  shows "order_up (k div 2) (UpdateTimerMetadata k (swap k (k div 2) h))"
proof -
  let ?p = "k div 2" and ?h = "swap k (k div 2) h"
  have p: "?p \<noteq> k" "1 \<le> ?p" "?p < k" using k by auto
  have par: "key h (i div 2) \<le> key h i" if "i \<in> {2..hsize h}" "i \<noteq> k" for i
    using o that by (auto simp: order_up_def)
  have chld: "key h ?p \<le> key h c" if "c \<in> {2..hsize h}" "c div 2 = k" for c
    using o that k by (auto simp: order_up_def)
  have A: "key ?h (i div 2) \<le> key ?h i" if i: "i \<in> {2..hsize h}" "i \<noteq> ?p" for i
  proof -
    consider "i = k" | "i \<noteq> k" "i div 2 = k" | "i \<noteq> k" "i div 2 = ?p" | "i \<noteq> k" "i div 2 \<noteq> k" "i div 2 \<noteq> ?p"
      by blast
    then show ?thesis
    proof cases
      case 1
      then show ?thesis using lt p by (auto simp: tree_swap)
    next
      case 2
      then show ?thesis using chld [of i] i p by (auto simp: tree_swap)
    next
      case 3
      then have "key h ?p \<le> key h i" using par [of i] i by simp
      then show ?thesis using 3 i lt p by (simp add: tree_swap)
    next
      case 4
      then show ?thesis using par [of i] i by (simp add: tree_swap)
    qed
  qed
  have B: "key ?h (?p div 2) \<le> key ?h c" if c: "c \<in> {2..hsize h}" "2 \<le> ?p" "c div 2 = ?p" for c
  proof -
    have "?p div 2 \<noteq> ?p" "?p div 2 \<noteq> k" "?p \<in> {2..hsize h}" using c p k by auto
    then have a: "key ?h (?p div 2) \<le> key h ?p" using par [of ?p] p by (simp add: tree_swap)
    have "c \<noteq> ?p" using c by auto
    show ?thesis
    proof (cases "c = k")
      case True
      then show ?thesis using a p by (simp add: tree_swap)
    next
      case False
      then have "key h ?p \<le> key h c" using par [of c] c by simp
      then show ?thesis using a False \<open>c \<noteq> ?p\<close> by (simp add: tree_swap)
    qed
  qed
  show ?thesis using A B by (simp add: order_up_def)
qed

lemma SiftUp_correct:
  assumes "locs_but k h" and "order_up k h" and "k \<in> {1..hsize h}"
  shows "locs_but 0 (SiftUp k h) \<and> heap_order (SiftUp k h) \<and> same_timers h (SiftUp k h)"
  using assms
proof (induction k h rule: SiftUp.induct)
  case (1 k h)
  show ?case
  proof (cases "\<not> IsRoot k \<and> Less h k (Parent k)")
    case True
    let ?h = "UpdateTimerMetadata k (swap k (Parent k) h)"
    have k: "2 \<le> k" "k \<le> hsize h" using True 1 by (auto simp: IsRoot_def)
    have p: "Parent k \<in> {1..hsize h}" "Parent k \<noteq> k" using k by (auto simp: Parent_def)
    have "locs_but (Parent k) ?h" using locs_but_swap [of k h "Parent k"] 1 p by simp
    moreover have "order_up (Parent k) ?h"
      using order_up_step [of k h] 1 k True by (simp add: Less_key Parent_def)
    ultimately have "locs_but 0 (SiftUp (Parent k) ?h) \<and> heap_order (SiftUp (Parent k) ?h)
        \<and> same_timers ?h (SiftUp (Parent k) ?h)"
      using "1.IH" [OF True] p by simp
    moreover have "same_timers h ?h" using same_timers_swap 1 p by simp
    ultimately show ?thesis
      using True by (subst (1 2 3) SiftUp.simps) (auto intro: same_timers_trans)
  next
    case False
    have "heap_order h"
    proof (cases "k = 1")
      case True
      then show ?thesis using 1 by (auto simp: heap_order_def order_up_def)
    next
      case ne: False
      then have "key h (k div 2) \<le> key h k" using False by (auto simp: IsRoot_def Less_key Parent_def)
      then show ?thesis using 1 by (auto simp: heap_order_def order_up_def)
    qed
    then have "heap_order (UpdateTimerMetadata k h)" by (simp add: heap_order_def)
    with False show ?thesis
      using locs_but_Update same_timers_Update 1 by (subst (1 2 3) SiftUp.simps) auto
  qed
qed

lemma MinChild_cases:
  assumes "1 \<le> k"
  shows "MinChild h k = k \<or> MinChild h k \<in> {2..hsize h} \<and> MinChild h k div 2 = k"
    and "c \<in> {2..hsize h} \<Longrightarrow> c div 2 = k \<Longrightarrow> key h (MinChild h k) \<le> key h c"
    and "MinChild h k \<noteq> k \<Longrightarrow> key h (MinChild h k) < key h k"
proof -
  show "MinChild h k = k \<or> MinChild h k \<in> {2..hsize h} \<and> MinChild h k div 2 = k"
    using assms by (auto simp: MinChild_def LeftChild_def RightChild_def Let_def)
  show "key h (MinChild h k) \<le> key h c" if "c \<in> {2..hsize h}" "c div 2 = k"
  proof -
    have "c = k * 2 \<or> c = k * 2 + 1" using that by auto
    then show ?thesis
      using that by (auto simp: MinChild_def LeftChild_def RightChild_def Let_def Less_key)
  qed
  show "MinChild h k \<noteq> k \<Longrightarrow> key h (MinChild h k) < key h k"
    by (auto simp: MinChild_def LeftChild_def RightChild_def Let_def Less_key split: if_splits)
qed

lemma order_down_step:
  assumes o: "order_down k h" and k: "1 \<le> k" "k \<le> hsize h"
    and m: "m \<in> {2..hsize h}" "m div 2 = k" "key h m < key h k"
    and least: "\<And>c. c \<in> {2..hsize h} \<Longrightarrow> c div 2 = k \<Longrightarrow> key h m \<le> key h c"
  shows "order_down m (UpdateTimerMetadata k (swap k m h))"
proof -
  let ?h = "swap k m h"
  have ne: "m \<noteq> k" "k < m" using m k by auto
  have par: "key h (i div 2) \<le> key h i" if "i \<in> {2..hsize h}" "i div 2 \<noteq> k" for i
    using o that by (auto simp: order_down_def)
  have gp: "key h (k div 2) \<le> key h c" if "c \<in> {2..hsize h}" "2 \<le> k" "c div 2 = k" for c
    using o that by (auto simp: order_down_def)
  have A: "key ?h (i div 2) \<le> key ?h i" if i: "i \<in> {2..hsize h}" "i div 2 \<noteq> m" for i
  proof -
    consider "i = m" | "i \<noteq> m" "i div 2 = k" | "i = k" "i div 2 \<noteq> k"
      | "i \<noteq> m" "i \<noteq> k" "i div 2 \<noteq> k" using ne by fastforce
    then show ?thesis
    proof cases
      case 1
      then show ?thesis using m ne by (simp add: tree_swap)
    next
      case 2
      then show ?thesis using least [of i] i ne by (simp add: tree_swap)
    next
      case 3
      then have "k div 2 \<noteq> m" "2 \<le> k" using ne i by auto
      then show ?thesis using gp [of m] m 3 ne by (simp add: tree_swap)
    next
      case 4
      then show ?thesis using par [of i] i ne by (simp add: tree_swap)
    qed
  qed
  have B: "key ?h (m div 2) \<le> key ?h c" if c: "c \<in> {2..hsize h}" "c div 2 = m" for c
  proof -
    have "c \<noteq> m" "c \<noteq> k" using c m ne by auto
    moreover have "key h m \<le> key h c" using par [of c] c ne by simp
    ultimately show ?thesis using m ne by (simp add: tree_swap)
  qed
  show ?thesis using A B by (simp add: order_down_def)
qed

lemma SiftDown_correct:
  assumes "locs_but k h" and "order_down k h" and "k \<in> {1..hsize h}"
  shows "locs_but 0 (SiftDown k h) \<and> heap_order (SiftDown k h) \<and> same_timers h (SiftDown k h)"
  using assms
proof (induction k h rule: SiftDown.induct)
  case (1 k h)
  have k: "1 \<le> k" "k \<le> hsize h" using 1 by auto
  let ?m = "MinChild h k"
  note mc = MinChild_cases [OF k(1), where h = h]
  show ?case
  proof (cases "\<not> IsLeaf h k \<and> ?m \<noteq> k")
    case True
    let ?h = "UpdateTimerMetadata k (swap k ?m h)"
    have m: "?m \<in> {2..hsize h}" "?m div 2 = k" "?m \<in> {1..hsize h}" using mc(1) True by auto
    have "locs_but ?m ?h" using locs_but_swap [of k h ?m] 1 m True by simp
    moreover have "order_down ?m ?h"
      using order_down_step [of k h ?m] 1 k m mc True by simp
    ultimately have "locs_but 0 (SiftDown ?m ?h) \<and> heap_order (SiftDown ?m ?h)
        \<and> same_timers ?h (SiftDown ?m ?h)"
      using "1.IH" [OF True] m by simp
    moreover have "same_timers h ?h" using same_timers_swap 1 m by simp
    ultimately show ?thesis
      using True by (subst (1 2 3) SiftDown.simps) (auto intro: same_timers_trans)
  next
    case False
    have "key h k \<le> key h c" if c: "c \<in> {2..hsize h}" "c div 2 = k" for c
    proof (cases "IsLeaf h k")
      case True
      then show ?thesis using c by (auto simp: IsLeaf_def)
    next
      case nl: False
      then have "?m = k" using False by simp
      then show ?thesis using mc(2) [OF c] by simp
    qed
    then have "heap_order (UpdateTimerMetadata k h)"
      using 1 by (auto simp: heap_order_def order_down_def)
    with False show ?thesis
      using locs_but_Update same_timers_Update 1 by (subst (1 2 3) SiftDown.simps) auto
  qed
qed

section \<open>The operations on a well-formed heap\<close>

text \<open>The abstraction: the set of timers in the queue, each with its key.\<close>

text \<open>The heap without its order: every timer knows its place.\<close>

definition heap_wf :: "timer_heap \<Rightarrow> bool" where
  "heap_wf h \<longleftrightarrow> locs_but 0 h \<and> hsize h < kTimerLimit"

lemma heap_inv_wf: "heap_inv h \<Longrightarrow> heap_wf h"
  by (simp add: heap_inv_def heap_wf_def)

lemma heap_wf_inj: "heap_wf h \<Longrightarrow> inj_on (tree h) {1..hsize h}"
  by (simp add: heap_wf_def locs_but_def)

lemma heap_wf_loc: "heap_wf h \<Longrightarrow> i \<in> {1..hsize h} \<Longrightarrow> loc (store h (tree h i)) = i"
  by (auto simp: heap_wf_def locs_but_def)

lemma heap_wf_refs:
  assumes "heap_wf h" and "t \<in> refs h"
  shows "loc (store h t) \<in> {1..hsize h}" and "tree h (loc (store h t)) = t"
  using assms heap_wf_loc [OF assms(1)] by (auto simp: refs_def)

lemma heap_inv_inj: "heap_inv h \<Longrightarrow> inj_on (tree h) {1..hsize h}"
  by (simp add: heap_inv_def locs_but_def)

lemma heap_inv_loc: "heap_inv h \<Longrightarrow> i \<in> {1..hsize h} \<Longrightarrow> loc (store h (tree h i)) = i"
  by (auto simp: heap_inv_def locs_but_def)

lemma heap_inv_refs:
  assumes "heap_inv h" and "t \<in> refs h"
  shows "loc (store h t) \<in> {1..hsize h}" and "tree h (loc (store h t)) = t"
  using heap_wf_refs [OF heap_inv_wf [OF assms(1)] assms(2)] .

lemma heap_order_cong:
  assumes "hsize h' = hsize h" and "\<And>i. i \<in> {1..hsize h} \<Longrightarrow> key h' i = key h i"
  shows "heap_order h' = heap_order h"
proof -
  have "i div 2 \<in> {1..hsize h}" "i \<in> {1..hsize h}" if "i \<in> {2..hsize h}" for i
    using that by auto
  then show ?thesis unfolding heap_order_def assms(1) using assms(2) by metis
qed

lemma refs_nth: "t \<notin> refs h \<Longrightarrow> i \<in> {1..hsize h} \<Longrightarrow> tree h i \<noteq> t"
  unfolding refs_def by blast

lemma locs_but_store:
  assumes "locs_but k h" and "t \<notin> refs h"
  shows "locs_but k (h\<lparr>store := (store h)(t := x)\<rparr>)"
proof -
  have "loc (((store h)(t := x)) (tree h i)) = loc (store h (tree h i))" if "i \<in> {1..hsize h}" for i
    using refs_nth [OF assms(2) that] by simp
  then show ?thesis using assms(1) unfolding locs_but_def by simp
qed

lemma heap_root_le: "heap_order h \<Longrightarrow> i \<in> {1..hsize h} \<Longrightarrow> key h 1 \<le> key h i"
proof (induction i rule: less_induct)
  case (less i)
  show ?case
  proof (cases "i = 1")
    case True
    then show ?thesis by simp
  next
    case False
    then have "key h 1 \<le> key h (i div 2)" using less by (intro less.IH) auto
    also have "\<dots> \<le> key h i" using less.prems False by (auto simp: heap_order_def)
    finally show ?thesis .
  qed
qed

lemma heap_root_min: "heap_inv h \<Longrightarrow> t \<in> refs h \<Longrightarrow> keyof h (tree h 1) \<le> keyof h t"
  using heap_root_le by (auto simp: refs_def heap_inv_def)

lemma heap_Insert_correct:
  assumes inv: "heap_inv h" and new: "t \<notin> refs h"
  shows "heap_Insert t h = Inl ''Timer limit reached'' \<and> hsize h + 1 = kTimerLimit \<or>
     (\<exists>h'. heap_Insert t h = Inr h' \<and> heap_inv h' \<and> refs h' = insert t (refs h) \<and>
        keyof h' = keyof h \<and> (\<forall>u. u \<notin> insert t (refs h) \<longrightarrow> store h' u = store h u))"
proof (cases "hsize h + 1 < kTimerLimit")
  case False
  then show ?thesis using inv by (auto simp: heap_Insert_def heap_inv_def)
next
  case True
  let ?s = "hsize h + 1"
  let ?h = "h\<lparr>hsize := ?s, tree := (tree h)(?s := t)\<rparr>"
  have inj: "inj_on (tree h) {1..hsize h}" using inv by (rule heap_inv_inj)
  have k: "keyof ?h = keyof h" by (rule ext) (simp add: keyof_def)
  have r: "refs ?h = insert t (refs h)" by (auto simp: refs_def)
  have "inj_on ((tree h)(?s := t)) {1..hsize h}"
    by (rule inj_on_fun_updI) (use inj new in \<open>simp_all add: refs_def\<close>)
  moreover have "((tree h)(?s := t)) ` {1..hsize h} = refs h" by (auto simp: refs_def)
  ultimately have "inj_on ((tree h)(?s := t)) (insert ?s {1..hsize h})"
    using new by (simp add: inj_on_insert)
  then have "inj_on (tree ?h) {1..hsize ?h}" by (simp add: atLeastAtMostSuc_conv)
  moreover have "loc (store ?h (tree ?h i)) = i" if "i \<in> {1..hsize ?h}" "i \<noteq> ?s" for i
    using heap_inv_loc [OF inv, of i] that by auto
  ultimately have l: "locs_but ?s ?h" by (simp add: locs_but_def)
  have o: "order_up ?s ?h" using inv k by (auto simp: order_up_def heap_inv_def heap_order_def)
  have S: "locs_but 0 (SiftUp ?s ?h) \<and> heap_order (SiftUp ?s ?h) \<and> same_timers ?h (SiftUp ?s ?h)"
    using l o by (rule SiftUp_correct) simp
  then have st: "same_timers ?h (SiftUp ?s ?h)" by blast
  have "heap_Insert t h = Inr (SiftUp ?s ?h)" using True by (simp add: heap_Insert_def Let_def)
  moreover have "heap_inv (SiftUp ?s ?h)"
    using S st True by (simp add: heap_inv_def same_timers_def)
  moreover have "refs (SiftUp ?s ?h) = insert t (refs h)" "keyof (SiftUp ?s ?h) = keyof h"
    using st r k by (simp_all add: same_timers_def)
  moreover have "\<forall>u. u \<notin> insert t (refs h) \<longrightarrow> store (SiftUp ?s ?h) u = store h u"
    using st r by (simp add: same_timers_def)
  ultimately show ?thesis by blast
qed

text \<open>
  Moving the last element into slot \<open>k\<close>: the common step of \<open>Remove\<close> and \<open>ExtractMin\<close>.
\<close>

definition move_last :: "nat \<Rightarrow> timer_heap \<Rightarrow> timer_heap" where
  "move_last k h = h\<lparr>tree := (tree h)(k := tree h (hsize h)), hsize := hsize h - 1\<rparr>"

lemma move_last_locs:
  assumes inv: "heap_wf h" and k: "k \<in> {1..hsize h - 1}"
  shows "locs_but k (move_last k h)" and "refs (move_last k h) = refs h - {tree h k}"
proof -
  have inj: "inj_on (tree h) {1..hsize h}" using inv by (rule heap_wf_inj)
  let ?n = "hsize h"
  have n: "?n \<in> {1..?n}" "k \<in> {1..?n}" "k \<noteq> ?n" using k by auto
  have last_ne: "tree h x \<noteq> tree h ?n" if "x \<in> {1..?n - 1}" for x
  proof -
    have "x \<in> {1..?n}" "x \<noteq> ?n" using that by auto
    then show ?thesis using inj_onD [OF inj, of x ?n] n by blast
  qed
  have "inj_on (tree (move_last k h)) {1..?n - 1}"
  proof (rule inj_onI)
    fix x y
    assume "x \<in> {1..?n - 1}" "y \<in> {1..?n - 1}" "tree (move_last k h) x = tree (move_last k h) y"
    then show "x = y"
      using inj_onD [OF inj, of x y] last_ne [of x] last_ne [of y]
      by (auto simp: move_last_def split: if_splits)
  qed
  then show "locs_but k (move_last k h)"
    using heap_wf_loc [OF inv] by (auto simp: locs_but_def move_last_def)
  have "tree (move_last k h) ` {1..?n - 1} = tree h ` {1..?n} - {tree h k}"
  proof -
    have "{1..?n} - {k} = insert ?n ({1..?n - 1} - {k})" using k by auto
    then have "tree h ` ({1..?n} - {k}) = insert (tree h ?n) (tree h ` ({1..?n - 1} - {k}))"
      by simp
    also have "\<dots> = tree (move_last k h) ` {1..?n - 1}"
      using k by (force simp: move_last_def image_iff)
    finally show ?thesis using inj n by (simp add: inj_on_image_set_diff)
  qed
  then show "refs (move_last k h) = refs h - {tree h k}" by (simp add: refs_def move_last_def)
qed

lemma move_last_order:
  assumes inv: "heap_inv h" and k: "k \<in> {1..hsize h - 1}"
    and up: "k = 1 \<or> key h (k div 2) \<le> key h (hsize h)"
  shows "order_down k (move_last k h)"
proof -
  let ?h = "move_last k h"
  have par: "key h (i div 2) \<le> key h i" if "i \<in> {2..hsize h}" for i
    using inv that by (auto simp: heap_inv_def heap_order_def)
  have ko: "keyof ?h = keyof h" by (rule ext) (simp add: keyof_def move_last_def)
  have "key ?h (i div 2) \<le> key ?h i" if "i \<in> {2..hsize h - 1}" "i div 2 \<noteq> k" for i
    using that par [of i] up ko by (auto simp: move_last_def)
  moreover have "key ?h (k div 2) \<le> key ?h c" if "c \<in> {2..hsize h - 1}" "2 \<le> k" "c div 2 = k" for c
  proof -
    have "key h (k div 2) \<le> key h k" using par [of k] that k by auto
    also have "\<dots> \<le> key h c" using par [of c] that by auto
    moreover have "c \<noteq> k" "k div 2 \<noteq> k" using that by auto
    ultimately show ?thesis using ko by (simp add: move_last_def)
  qed
  ultimately show ?thesis by (simp add: order_down_def move_last_def)
qed

lemma ExtractMin_correct:
  assumes inv: "heap_inv h" and ne: "hsize h \<noteq> 0"
  shows "\<exists>m h'. ExtractMin h = Inr (m, h') \<and> m = tree h 1 \<and> m \<in> refs h \<and>
     heap_inv h' \<and> refs h' = refs h - {m} \<and> keyof h' = keyof h \<and>
     (\<forall>u. u \<notin> refs h' \<longrightarrow> store h' u = store h u)"
proof (cases "hsize h = 1")
  case True
  let ?h = "h\<lparr>tree := (tree h)(1 := tree h (hsize h)), hsize := hsize h - 1\<rparr>"
  have "keyof ?h = keyof h" by (rule ext) (simp add: keyof_def)
  moreover have "refs ?h = refs h - {tree h 1}" using True by (simp add: refs_def)
  moreover have "heap_inv ?h" using True by (simp add: heap_inv_def locs_but_def heap_order_def kTimerLimit_def)
  ultimately show ?thesis
    using True by (auto simp: ExtractMin_def heap_IsEmpty_def refs_def)
next
  case False
  then have k: "1 \<in> {1..hsize h - 1}" using ne by auto
  let ?h = "move_last 1 h"
  have "locs_but 0 (SiftDown 1 ?h) \<and> heap_order (SiftDown 1 ?h) \<and> same_timers ?h (SiftDown 1 ?h)"
    using move_last_locs(1) [OF heap_inv_wf [OF inv] k] move_last_order [OF inv k]
    by (intro SiftDown_correct) (use k in \<open>auto simp: move_last_def\<close>)
  moreover have "keyof ?h = keyof h" by (rule ext) (simp add: keyof_def move_last_def)
  ultimately have S: "locs_but 0 (SiftDown 1 ?h)" "heap_order (SiftDown 1 ?h)"
      "same_timers ?h (SiftDown 1 ?h)" and ko: "keyof ?h = keyof h" by simp_all
  have m: "tree h 1 \<in> refs h" using ne by (auto simp: refs_def)
  have "ExtractMin h = Inr (tree h 1, SiftDown 1 ?h)"
    using False ne by (simp add: ExtractMin_def heap_IsEmpty_def Let_def move_last_def)
  moreover have "heap_inv (SiftDown 1 ?h)"
    using S inv ne by (auto simp: heap_inv_def same_timers_def move_last_def)
  moreover have "refs (SiftDown 1 ?h) = refs h - {tree h 1}" "keyof (SiftDown 1 ?h) = keyof h"
    using S(3) ko move_last_locs(2) [OF heap_inv_wf [OF inv] k] by (simp_all add: same_timers_def)
  moreover have "\<forall>u. u \<notin> refs (SiftDown 1 ?h) \<longrightarrow> store (SiftDown 1 ?h) u = store h u"
    using S(3) by (simp add: same_timers_def move_last_def)
  ultimately show ?thesis using m by blast
qed

text \<open>
  \<open>Remove\<close> sifts the moved element down only. It keeps the heap well-formed exactly when the
  moved element (the last of the array) is not smaller than the parent of the freed slot.
\<close>

lemma heap_Remove_correct:
  assumes inv: "heap_inv h" and t: "t \<in> refs h"
    and k: "k = loc (store h t)" "k \<noteq> hsize h"
    and up: "k = 1 \<or> key h (k div 2) \<le> key h (hsize h)"
  shows "\<exists>h'. heap_Remove t h = Inr h' \<and> heap_inv h' \<and> refs h' = refs h - {t} \<and>
     keyof h' = keyof h \<and> \<not> IsActive h' t"
proof -
  have kb: "k \<in> {1..hsize h - 1}" and tk: "tree h k = t"
    using heap_inv_refs [OF inv t] k by auto
  let ?st = "(store h)(t := (store h t)\<lparr>loc := 0\<rparr>)"
  let ?g = "move_last k h"
  let ?h = "?g\<lparr>store := ?st\<rparr>"
  have ko: "keyof ?h = keyof h" by (rule ext) (simp add: keyof_def move_last_def)
  have ml: "refs ?g = refs h - {t}" using move_last_locs(2) [OF heap_inv_wf [OF inv] kb] tk by simp
  have "refs ?h = refs ?g" unfolding refs_def by simp
  then have rf: "refs ?h = refs h - {t}" using ml by (rule trans)
  have "store ?g = store h" by (simp add: move_last_def)
  then have "locs_but k ?h" using locs_but_store [OF move_last_locs(1) [OF heap_inv_wf [OF inv] kb], of t] ml by simp
  moreover have "keyof ?g = keyof h" by (rule ext) (simp add: keyof_def move_last_def)
  then have "order_down k ?h" using move_last_order [OF inv kb up] ko by (simp add: order_down_def)
  ultimately have S: "locs_but 0 (SiftDown k ?h) \<and> heap_order (SiftDown k ?h) \<and> same_timers ?h (SiftDown k ?h)"
    using kb by (intro SiftDown_correct) (auto simp: move_last_def)
  have "h\<lparr>store := ?st, tree := (tree h)(k := tree h (hsize h)), hsize := hsize h - 1\<rparr> = ?h"
    by (simp add: move_last_def)
  then have "heap_Remove t h = Inr (SiftDown k ?h)"
    using tk k(1) by (simp add: heap_Remove_def Let_def)
  moreover have "heap_inv (SiftDown k ?h)"
    using S inv by (auto simp: heap_inv_def same_timers_def move_last_def)
  moreover have "\<not> IsActive (SiftDown k ?h) t"
    using S rf by (auto simp: IsActive_def same_timers_def)
  ultimately show ?thesis using S rf ko by (auto simp: same_timers_def)
qed

text \<open>
  Removing the timer in the last slot shrinks the array around it, but then \<open>SiftDown\<close> writes the
  removed timer's position back: the timer still looks active.
\<close>

lemma heap_Remove_last:
  assumes inv: "heap_inv h" and t: "t \<in> refs h" and k: "loc (store h t) = hsize h"
  shows "\<exists>h'. heap_Remove t h = Inr h' \<and> heap_inv h' \<and> refs h' = refs h - {t} \<and>
     keyof h' = keyof h \<and> IsActive h' t"
proof -
  let ?n = "hsize h"
  have n: "?n \<in> {1..?n}" and tn: "tree h ?n = t"
    using heap_inv_refs [OF inv t] k by auto
  have inj: "inj_on (tree h) {1..?n}" using inv by (rule heap_inv_inj)
  let ?h = "h\<lparr>store := (store h)(t := (store h t)\<lparr>loc := 0\<rparr>), tree := (tree h)(?n := tree h ?n),
              hsize := ?n - 1\<rparr>"
  let ?r = "h\<lparr>hsize := ?n - 1, store := (store h)(t := (store h t)\<lparr>loc := ?n\<rparr>)\<rparr>"
  have "IsLeaf ?h ?n" using n by (simp add: IsLeaf_def)
  then have "SiftDown ?n ?h = UpdateTimerMetadata ?n ?h" by (subst SiftDown.simps) simp
  also have "(tree h)(?n := tree h ?n) = tree h" by (rule fun_upd_triv)
  then have "UpdateTimerMetadata ?n ?h = ?r" using tn by (simp add: UpdateTimerMetadata_def)
  finally have e: "heap_Remove t h = Inr ?r" using k tn by (simp add: heap_Remove_def Let_def)
  have ko: "keyof ?r = keyof h" by (rule ext) (simp add: keyof_def)
  have dec: "{1..?n} = insert ?n {1..?n - 1}" "?n \<notin> {1..?n - 1}" using n by auto
  have "tree h ` {1..?n - 1} = tree h ` {1..?n} - {t}"
    using inj tn dec by (auto dest: inj_onD)
  then have r: "refs ?r = refs h - {t}" by (simp add: refs_def)
  have "locs_but 0 (h\<lparr>hsize := ?n - 1\<rparr>)"
    using inv inj_on_subset [OF inj] by (auto simp: heap_inv_def locs_but_def)
  moreover have "t \<notin> refs (h\<lparr>hsize := ?n - 1\<rparr>)" using r by (simp add: refs_def)
  ultimately have "locs_but 0 ?r" using locs_but_store by fastforce
  moreover have "heap_order h" using inv by (simp add: heap_inv_def)
  then have "\<forall>i \<in> {2..?n - 1}. key h (i div 2) \<le> key h i"
    unfolding heap_order_def by (meson atLeastAtMost_iff diff_le_self le_trans)
  then have "heap_order ?r" unfolding heap_order_def ko by simp
  moreover have "IsActive ?r t" using n by (simp add: IsActive_def)
  moreover have "?n - 1 < kTimerLimit" using inv by (auto simp: heap_inv_def)
  ultimately have "heap_inv ?r \<and> IsActive ?r t" unfolding heap_inv_def by simp
  then show ?thesis using e r ko by blast
qed

section \<open>The operations on the queue\<close>

definition queue_inv :: "timer_queue \<Rightarrow> bool" where
  "queue_inv q \<longleftrightarrow> heap_inv (timers q) \<and> (\<forall>t \<in> refs (timers q). timer_id (store (timers q) t) \<le> next_id q)"

text \<open>The deadlines the queue holds, by timer.\<close>

definition pending :: "timer_queue \<Rightarrow> timer_ref set" where
  "pending q = refs (timers q)"

definition deadline :: "timer_queue \<Rightarrow> timer_ref \<Rightarrow> int" where
  "deadline q t = tm_when (store (timers q) t)"

lemma keyof_eqD:
  "keyof h = keyof h' \<Longrightarrow> tm_when (store h t) = tm_when (store h' t)"
  "keyof h = keyof h' \<Longrightarrow> timer_id (store h t) = timer_id (store h' t)"
  by (auto simp: keyof_def fun_eq_iff)

lemma pending_finite [simp]: "finite (pending q)"
  by (simp add: pending_def refs_def)

lemma queue_IsEmpty_pending: "queue_IsEmpty q \<longleftrightarrow> pending q = {}"
  by (auto simp: queue_IsEmpty_def heap_IsEmpty_def pending_def refs_def)

lemma Add_correct:
  assumes inv: "queue_inv q" and new: "t \<notin> pending q" and room: "hsize (timers q) + 1 < kTimerLimit"
  obtains q' where "Add t q = Inr q'" and "queue_inv q'" and "pending q' = insert t (pending q)"
    and "deadline q' = deadline q"
proof -
  let ?h = "timers q" and ?n = "next_id q + 1"
  let ?h1 = "?h\<lparr>store := (store ?h)(t := (store ?h t)\<lparr>timer_id := ?n\<rparr>)\<rparr>"
  have hinv: "heap_inv ?h" using inv by (simp add: queue_inv_def)
  have new': "tree ?h i \<noteq> t" if "i \<in> {1..hsize ?h}" for i
    using new that by (auto simp: pending_def refs_def)
  have r1: "refs ?h1 = refs ?h" by simp
  have "locs_but 0 ?h1"
    using hinv new by (intro locs_but_store) (simp_all add: heap_inv_def pending_def)
  moreover have "key ?h1 i = key ?h i" if "i \<in> {1..hsize ?h}" for i
    using new' [OF that] by (simp add: keyof_def)
  then have "heap_order ?h1 = heap_order ?h" by (intro heap_order_cong) simp_all
  then have "heap_order ?h1" using hinv by (simp add: heap_inv_def)
  ultimately have "heap_inv ?h1" using hinv by (simp add: heap_inv_def)
  then obtain h' where h': "heap_Insert t ?h1 = Inr h'" "heap_inv h'" "refs h' = insert t (refs ?h)"
      "keyof h' = keyof ?h1"
    using heap_Insert_correct [of ?h1 t] new room r1 by (auto simp: pending_def)
  let ?q = "q\<lparr>timers := h', next_id := ?n\<rparr>"
  have "Add t q = Inr ?q" using h'(1) by (simp add: Add_def Let_def)
  moreover have "timer_id (store h' u) \<le> ?n" if "u \<in> refs h'" for u
    using keyof_eqD(2) [OF h'(4), of u] inv that h'(3) by (auto simp: queue_inv_def)
  then have "queue_inv ?q" using h' by (simp add: queue_inv_def)
  moreover have "deadline ?q = deadline q"
    by (rule ext) (use keyof_eqD(1) [OF h'(4)] in \<open>simp add: deadline_def\<close>)
  ultimately show thesis using that h'(3) by (simp add: pending_def)
qed

text \<open>
  \<open>Poll\<close> returns the timer with the least deadline (the first added among equals) if it is due,
  and nothing exactly when no timer is due.
\<close>

lemma Poll_correct:
  assumes inv: "queue_inv q"
  obtains r q' where "Poll now q = Inr (r, q')" and "queue_inv q'" and "deadline q' = deadline q"
    and "next_id q' = next_id q"
    and "case r of None \<Rightarrow> q' = q \<and> (\<forall>t \<in> pending q. now < deadline q t)
       | Some m \<Rightarrow> m \<in> pending q \<and> deadline q m \<le> now \<and> pending q' = pending q - {m} \<and>
           (\<forall>t \<in> pending q. keyof (timers q) m \<le> keyof (timers q) t)"
proof -
  let ?h = "timers q"
  have hinv: "heap_inv ?h" using inv by (simp add: queue_inv_def)
  have least: "keyof ?h (tree ?h 1) \<le> keyof ?h t" if "t \<in> pending q" for t
    using heap_root_min [OF hinv] that by (simp add: pending_def)
  show thesis
  proof (cases "\<not> heap_IsEmpty ?h \<and> tm_when (store ?h (tree ?h 1)) \<le> now")
    case True
    then have "hsize ?h \<noteq> 0" by (simp add: heap_IsEmpty_def)
    then obtain m h' where e: "ExtractMin ?h = Inr (m, h')" "m = tree ?h 1" "m \<in> refs ?h"
        "heap_inv h'" "refs h' = refs ?h - {m}" "keyof h' = keyof ?h"
      using ExtractMin_correct [OF hinv] by blast
    let ?q = "q\<lparr>timers := h'\<rparr>"
    have "Poll now q = Inr (Some m, ?q)" using True e by (simp add: Poll_def)
    moreover have "queue_inv ?q"
      using inv e keyof_eqD(2) [OF e(6)] by (auto simp: queue_inv_def)
    moreover have "deadline ?q = deadline q"
      by (rule ext) (use keyof_eqD(1) [OF e(6)] in \<open>simp add: deadline_def\<close>)
    ultimately show thesis
      using that [of "Some m" ?q] True e least by (simp add: pending_def deadline_def)
  next
    case False
    have "now < deadline q t" if t: "t \<in> pending q" for t
    proof -
      have "\<not> heap_IsEmpty ?h" using t by (auto simp: heap_IsEmpty_def pending_def refs_def)
      then have "now < tm_when (store ?h (tree ?h 1))" using False by simp
      also have "\<dots> \<le> tm_when (store ?h t)"
        using least [OF t] by (auto simp: keyof_def)
      finally show ?thesis by (simp add: deadline_def)
    qed
    moreover have "Poll now q = Inr (None, q)" using False by (auto simp: Poll_def)
    ultimately show thesis using that [of None q] inv by simp
  qed
qed

text \<open>
  The loop of \<open>Simulator::PollTimers\<close>, with the alarms collected in the order they fire. Each
  turn takes a timer out, so the heap's size bounds the turns.
\<close>

fun poll_all :: "nat \<Rightarrow> int \<Rightarrow> timer_queue \<Rightarrow> string + (timer_ref list \<times> timer_queue)" where
  "poll_all 0 now q = Inl ''out of fuel''"
| "poll_all (Suc n) now q =
     bindE (Poll now q) (\<lambda>(r, q1).
       case r of None \<Rightarrow> Inr ([], q1)
       | Some m \<Rightarrow> bindE (poll_all n now q1) (\<lambda>(ms, q2). Inr (m # ms, q2)))"

declare poll_all.simps(2) [simp del]

lemma poll_all_correct:
  assumes "queue_inv q" and "card (pending q) < n"
  shows "\<exists>ms q'. poll_all n now q = Inr (ms, q') \<and> queue_inv q' \<and> distinct ms \<and>
     set ms = {t \<in> pending q. deadline q t \<le> now} \<and>
     pending q' = {t \<in> pending q. now < deadline q t} \<and> deadline q' = deadline q \<and>
     sorted (map (deadline q) ms)"
  using assms
proof (induction n arbitrary: q)
  case 0
  then show ?case by simp
next
  case (Suc n)
  from Poll_correct [OF Suc.prems(1), of now] obtain r q1 where
    P: "Poll now q = Inr (r, q1)" "queue_inv q1" "deadline q1 = deadline q"
      "case r of None \<Rightarrow> q1 = q \<and> (\<forall>t \<in> pending q. now < deadline q t)
       | Some m \<Rightarrow> m \<in> pending q \<and> deadline q m \<le> now \<and> pending q1 = pending q - {m} \<and>
           (\<forall>t \<in> pending q. keyof (timers q) m \<le> keyof (timers q) t)"
    by (rule Poll_correct [OF Suc.prems(1), of now])
  show ?case
  proof (cases r)
    case None
    then have "poll_all (Suc n) now q = Inr ([], q)" "\<forall>t \<in> pending q. now < deadline q t"
      using P by (auto simp: poll_all.simps)
    then show ?thesis using Suc.prems(1) by force
  next
    case (Some m)
    then have m: "m \<in> pending q" "deadline q m \<le> now" "pending q1 = pending q - {m}"
        "\<forall>t \<in> pending q. keyof (timers q) m \<le> keyof (timers q) t"
      using P by auto
    have le: "deadline q m \<le> deadline q t" if "t \<in> pending q" for t
      using m(4) that by (auto simp: keyof_def deadline_def)
    have "card (pending q1) < n"
      using m Suc.prems(2) card_Diff1_less [OF pending_finite m(1)] by simp
    then obtain ms q' where IH: "poll_all n now q1 = Inr (ms, q')" "queue_inv q'" "distinct ms"
        "set ms = {t \<in> pending q1. deadline q1 t \<le> now}"
        "pending q' = {t \<in> pending q1. now < deadline q1 t}" "deadline q' = deadline q1"
        "sorted (map (deadline q1) ms)"
      using Suc.IH [OF P(2)] by blast
    have dl: "deadline q1 = deadline q" by (rule P(3))
    have "poll_all (Suc n) now q = Inr (m # ms, q')" using P(1) Some IH(1) by (simp add: poll_all.simps)
    moreover have "distinct (m # ms)" using IH(3,4) m(3) by simp
    moreover have "set (m # ms) = {t \<in> pending q. deadline q t \<le> now}"
      unfolding list.set IH(4) dl m(3) using m(1,2) by blast
    moreover have "pending q' = {t \<in> pending q. now < deadline q t}"
      unfolding IH(5) dl m(3) using m(1,2) by fastforce
    moreover have "\<forall>t \<in> set ms. deadline q m \<le> deadline q t" using IH(4) le m(3) by blast
    then have "sorted (map (deadline q) (m # ms))" using IH(7) dl by simp
    moreover have "deadline q' = deadline q" using IH(6) dl by simp
    ultimately show ?thesis using IH(2) by blast
  qed
qed

section \<open>The states the simulator reaches\<close>

text \<open>A queue just constructed, over arbitrary timer objects.\<close>

definition empty_queue :: "(timer_ref \<Rightarrow> timer) \<Rightarrow> timer_queue" where
  "empty_queue st = \<lparr>timers = \<lparr>tree = (\<lambda>_. 0), hsize = 0, store = st\<rparr>, next_id = 0\<rparr>"

text \<open>
  A cancellation that keeps the order: the last timer of the array, which moves into the freed
  slot, is not due before the parent of that slot.
\<close>

definition safe_cancel :: "timer_queue \<Rightarrow> timer_ref \<Rightarrow> bool" where
  "safe_cancel q t \<longleftrightarrow>
     (let h = timers q; k = loc (store h t)
      in k = 1 \<or> key h (Parent k) \<le> key h (hsize h))"

inductive timer_reach :: "timer_queue \<Rightarrow> bool" where
  init: "timer_reach (empty_queue st)"
| add: "timer_reach q \<Longrightarrow> t \<notin> pending q \<Longrightarrow> Add t q = Inr q' \<Longrightarrow> timer_reach q'"
| poll: "timer_reach q \<Longrightarrow> Poll now q = Inr (r, q') \<Longrightarrow> timer_reach q'"
| cancel: "timer_reach q \<Longrightarrow> t \<in> pending q \<Longrightarrow> safe_cancel q t \<Longrightarrow> queue_Remove t q = Inr (b, q') \<Longrightarrow>
     timer_reach q'"

lemma empty_queue_inv: "queue_inv (empty_queue st)"
  by (simp add: queue_inv_def empty_queue_def heap_inv_def locs_but_def heap_order_def
      kTimerLimit_def refs_def)

lemma queue_Remove_correct:
  assumes inv: "queue_inv q" and t: "t \<in> pending q" and s: "safe_cancel q t"
  obtains q' where "queue_Remove t q = Inr (True, q')" and "queue_inv q'"
    and "pending q' = pending q - {t}" and "deadline q' = deadline q"
proof -
  let ?h = "timers q" and ?k = "loc (store (timers q) t)"
  have hinv: "heap_inv ?h" and tr: "t \<in> refs ?h"
    using inv t by (simp_all add: queue_inv_def pending_def)
  have act: "IsActive ?h t" using heap_inv_refs(1) [OF hinv tr] by (simp add: IsActive_def)
  have "\<exists>h'. heap_Remove t ?h = Inr h' \<and> heap_inv h' \<and> refs h' = refs ?h - {t} \<and> keyof h' = keyof ?h"
  proof (cases "?k = hsize ?h")
    case True
    then show ?thesis using heap_Remove_last [OF hinv tr] by blast
  next
    case False
    then show ?thesis
      using heap_Remove_correct [OF hinv tr refl False] s
      by (auto simp: safe_cancel_def Let_def Parent_def)
  qed
  then obtain h' where h': "heap_Remove t ?h = Inr h'" "heap_inv h'" "refs h' = refs ?h - {t}"
      "keyof h' = keyof ?h" by blast
  let ?q = "q\<lparr>timers := h'\<rparr>"
  have "queue_Remove t q = Inr (True, ?q)" using act h' by (simp add: queue_Remove_def)
  moreover have "queue_inv ?q" using inv h' keyof_eqD(2) [OF h'(4)] by (auto simp: queue_inv_def)
  moreover have "deadline ?q = deadline q"
    by (rule ext) (use keyof_eqD(1) [OF h'(4)] in \<open>simp add: deadline_def\<close>)
  ultimately show thesis using that h' by (simp add: pending_def)
qed

lemma timer_reach_inv: "timer_reach q \<Longrightarrow> queue_inv q"
proof (induction rule: timer_reach.induct)
  case (init st)
  show ?case by (rule empty_queue_inv)
next
  case (add q t q')
  have room: "hsize (timers q) + 1 < kTimerLimit"
    using add.hyps(3) by (auto simp: Add_def heap_Insert_def Let_def bindE_eq_Inr split: if_splits)
  from Add_correct [OF add.IH add.hyps(2) room] add.hyps(3) show ?case by (metis sum.inject(2))
next
  case (poll q now r q')
  from Poll_correct [OF poll.IH, of now] poll.hyps(2) show ?case by (metis sum.inject(2) prod.inject)
next
  case (cancel q t b q')
  from queue_Remove_correct [OF cancel.IH cancel.hyps(2,3)] cancel.hyps(4) show ?case
    by (metis sum.inject(2) prod.inject)
qed

section \<open>Properties\<close>


definition sample_timers :: "timer_ref \<Rightarrow> timer" where
  "sample_timers t = \<lparr>tm_when = (if t < 8 then [0, 1, 10, 2, 11, 12, 50, 4] ! t else 0), loc = 0, timer_id = 0\<rparr>"

fun add_all :: "timer_ref list \<Rightarrow> timer_queue \<Rightarrow> string + timer_queue" where
  "add_all [] q = Inr q"
| "add_all (t # ts) q = bindE (Add t q) (add_all ts)"

declare add_all.simps(2) [simp del]

lemma add_all_reach:
  assumes "queue_inv q" and "timer_reach q" and "distinct ts" and "set ts \<inter> pending q = {}"
    and "add_all ts q = Inr q'"
  shows "timer_reach q' \<and> pending q' = set ts \<union> pending q \<and> deadline q' = deadline q"
  using assms
proof (induction ts arbitrary: q)
  case Nil
  then show ?case by simp
next
  case (Cons t ts)
  then obtain q1 where q1: "Add t q = Inr q1" "add_all ts q1 = Inr q'" by (auto simp: add_all.simps bindE_eq_Inr)
  have room: "hsize (timers q) + 1 < kTimerLimit"
    using q1(1) by (auto simp: Add_def heap_Insert_def Let_def bindE_eq_Inr split: if_splits)
  have new: "t \<notin> pending q" using Cons.prems(4) by simp
  obtain q2 where "Add t q = Inr q2" "queue_inv q2" "pending q2 = insert t (pending q)" "deadline q2 = deadline q"
    by (rule Add_correct [OF Cons.prems(1) new room])
  then have i: "queue_inv q1" "pending q1 = insert t (pending q)" "deadline q1 = deadline q" using q1 by auto
  have "timer_reach q1" using timer_reach.add [OF Cons.prems(2) new q1(1)] .
  then have "timer_reach q' \<and> pending q' = set ts \<union> pending q1 \<and> deadline q' = deadline q1"
    using Cons.prems(3,4) i by (intro Cons.IH) (use q1 in auto)
  then show ?case using i by auto
qed

lemma sample_queue:
  obtains q where "add_all [1,2,3,4,5,6,7] (empty_queue sample_timers) = Inr q"
    and "timer_reach q" and "pending q = {1,2,3,4,5,6,7}" and "deadline q = (\<lambda>t. tm_when (sample_timers t))"
proof -
  have "case add_all [1,2,3,4,5,6,7] (empty_queue sample_timers) of Inl _ \<Rightarrow> False | Inr q \<Rightarrow> True"
    by code_simp
  then obtain q where q: "add_all [1,2,3,4,5,6,7] (empty_queue sample_timers) = Inr q"
    by (cases "add_all [1,2,3,4,5,6,7] (empty_queue sample_timers)") auto
  moreover have "pending (empty_queue sample_timers) = {}"
    by (simp add: pending_def refs_def empty_queue_def)
  moreover have "deadline (empty_queue sample_timers) = (\<lambda>t. tm_when (sample_timers t))"
    by (rule ext) (simp add: deadline_def empty_queue_def)
  ultimately show thesis
    using that add_all_reach [OF empty_queue_inv timer_reach.init _ _ q] by auto
qed


text \<open>
  Cancelling a timer (\<open>TimerQueue::Remove\<close>) takes exactly that timer out and keeps the queue
  in the reachable states, provided that the timer at the end of the array is not due before the
  parent of the freed slot: the heap sifts the moved timer down only.
\<close>

theorem timer_cancel_correct:
  assumes "timer_reach q" and "t \<in> pending q" and "safe_cancel q t"
  shows "\<exists>q'. queue_Remove t q = Inr (True, q') \<and> timer_reach q' \<and> pending q' = pending q - {t} \<and>
     deadline q' = deadline q"
  using queue_Remove_correct [OF timer_reach_inv [OF assms(1)] assms(2,3)]
    timer_reach.cancel [OF assms] by metis

theorem timer_cancel_correct_witness:
  "\<exists>q q'. add_all [1,2,3,4,5,6,7] (empty_queue sample_timers) = Inr q \<and>
     queue_Remove 1 q = Inr (True, q') \<and> pending q' = {2,3,4,5,6,7}"
proof -
  obtain q where q: "add_all [1,2,3,4,5,6,7] (empty_queue sample_timers) = Inr q" "timer_reach q"
      "pending q = {1,2,3,4,5,6,7}" by (rule sample_queue)
  have "case add_all [1,2,3,4,5,6,7] (empty_queue sample_timers) of Inl _ \<Rightarrow> False
     | Inr q \<Rightarrow> safe_cancel q 1" by code_simp
  then have "safe_cancel q 1" using q(1) by simp
  then obtain q' where "queue_Remove 1 q = Inr (True, q')" "pending q' = pending q - {1}"
    using timer_cancel_correct [OF q(2), of 1] q(3) by blast
  moreover have "{1,2,3,4,5,6,7} - {1} = {2,3,4,5,6,7::nat}" by auto
  ultimately show ?thesis using q(1,3) by metis
qed

text \<open>
  C40: without that proviso a cancellation breaks the queue. Seven timers are added; the one due at
  11 is cancelled; draining the queue at time 5 then fires the timers due at 1 and 2 but not the one
  due at 4, which stays pending although its deadline has passed.
\<close>

theorem timer_cancel_misses_deadline:
  "\<exists>q q1 q2. add_all [1,2,3,4,5,6,7] (empty_queue sample_timers) = Inr q \<and> timer_reach q \<and>
     4 \<in> pending q \<and> queue_Remove 4 q = Inr (True, q1) \<and>
     poll_all 8 5 q1 = Inr ([1, 3], q2) \<and> 7 \<in> pending q2 \<and> deadline q2 7 = 4 \<and> Poll 5 q2 = Inr (None, q2)"
proof -
  obtain q where q: "add_all [1,2,3,4,5,6,7] (empty_queue sample_timers) = Inr q" "timer_reach q"
      "pending q = {1,2,3,4,5,6,7}" by (rule sample_queue)
  have "case add_all [1,2,3,4,5,6,7] (empty_queue sample_timers) of Inl _ \<Rightarrow> False
     | Inr q \<Rightarrow> (case queue_Remove 4 q of Inl _ \<Rightarrow> False
       | Inr (b, q1) \<Rightarrow> b \<and> (case poll_all 8 5 q1 of Inl _ \<Rightarrow> False
         | Inr (ms, q2) \<Rightarrow> ms = [1, 3] \<and> hsize (timers q2) = 4 \<and> tree (timers q2) 2 = 7 \<and>
             tm_when (store (timers q2) 7) = 4 \<and> \<not> heap_IsEmpty (timers q2) \<and>
             \<not> tm_when (store (timers q2) (tree (timers q2) 1)) \<le> 5))"
    by code_simp
  then have F: "case queue_Remove 4 q of Inl _ \<Rightarrow> False
       | Inr (b, q1) \<Rightarrow> b \<and> (case poll_all 8 5 q1 of Inl _ \<Rightarrow> False
         | Inr (ms, q2) \<Rightarrow> ms = [1, 3] \<and> hsize (timers q2) = 4 \<and> tree (timers q2) 2 = 7 \<and>
             tm_when (store (timers q2) 7) = 4 \<and> \<not> heap_IsEmpty (timers q2) \<and>
             \<not> tm_when (store (timers q2) (tree (timers q2) 1)) \<le> 5)"
    by (simp only: q(1) sum.case)
  obtain b q1 where e1: "queue_Remove 4 q = Inr (b, q1)"
    using F by (cases "queue_Remove 4 q") (auto split: prod.splits)
  note F1 = F [unfolded e1 sum.case prod.case]
  obtain ms q2 where e2: "poll_all 8 5 q1 = Inr (ms, q2)"
    using F1 by (cases "poll_all 8 5 q1") (auto split: prod.splits)
  note F2 = F1 [unfolded e2 sum.case prod.case]
  have r: "queue_Remove 4 q = Inr (True, q1)" "poll_all 8 5 q1 = Inr ([1, 3], q2)"
      "hsize (timers q2) = 4" "tree (timers q2) 2 = 7" "tm_when (store (timers q2) 7) = 4"
      "\<not> tm_when (store (timers q2) (tree (timers q2) 1)) \<le> 5"
    using F2 e1 e2 by simp_all
  have "7 \<in> pending q2" using r(3,4) unfolding pending_def refs_def by force
  moreover have "Poll 5 q2 = Inr (None, q2)" using r(6) by (simp add: Poll_def)
  moreover have "deadline q2 7 = 4" using r(5) by (simp add: deadline_def)
  moreover have "4 \<in> pending q" using q(3) by simp
  ultimately show ?thesis using q(1,2) r(1,2) by blast
qed

text \<open>
  After the timer in the last slot of the array has been cancelled, it is out of the queue but
  its metadata still says that it is active, so that cancelling it again is not recognised as
  an error: \<open>SiftDown\<close> writes the position of the removed timer back.
\<close>

theorem cancelled_last_timer_stays_active:
  assumes "timer_reach q" and "t \<in> pending q" and "loc (store (timers q) t) = hsize (timers q)"
  shows "\<exists>q'. queue_Remove t q = Inr (True, q') \<and> t \<notin> pending q' \<and> IsActive (timers q') t"
proof -
  have hinv: "heap_inv (timers q)" and tr: "t \<in> refs (timers q)"
    using timer_reach_inv [OF assms(1)] assms(2) by (simp_all add: queue_inv_def pending_def)
  have "IsActive (timers q) t"
    using heap_inv_refs(1) [OF hinv tr] by (simp add: IsActive_def)
  then show ?thesis
    using heap_Remove_last [OF hinv tr assms(3)] by (auto simp: queue_Remove_def pending_def)
qed

theorem cancelled_last_timer_stays_active_witness:
  "\<exists>q q'. add_all [1,2,3,4,5,6,7] (empty_queue sample_timers) = Inr q \<and>
     queue_Remove 7 q = Inr (True, q') \<and> 7 \<notin> pending q' \<and> IsActive (timers q') 7"
proof -
  obtain q where q: "add_all [1,2,3,4,5,6,7] (empty_queue sample_timers) = Inr q" "timer_reach q"
      "pending q = {1,2,3,4,5,6,7}" by (rule sample_queue)
  have "case add_all [1,2,3,4,5,6,7] (empty_queue sample_timers) of Inl _ \<Rightarrow> False
     | Inr q \<Rightarrow> loc (store (timers q) 7) = hsize (timers q)" by code_simp
  then have "loc (store (timers q) 7) = hsize (timers q)" using q(1) by simp
  moreover have "7 \<in> pending q" using q(3) by simp
  ultimately show ?thesis using cancelled_last_timer_stays_active [OF q(2), of 7] q(1) by blast
qed

end
