(* ===== verification/Sim_Time.thy ===== *)
theory Sim_Time
  imports Prelude Timers "HOL-Library.Signed_Division"
begin

text \<open>
  Virtual time (\<open>rt/sim/system/ticker.hpp\<close>, \<open>time.hpp\<close>) and the identifiers of threads
  (\<open>id_allocator.hpp\<close>). Time is a counter of ticks; an instant is the number of nanoseconds since
  the start, a multiple of the length of a tick. Instants and durations are mathematical integers
  here (the code's are 64-bit signed, which virtual time does not exhaust); the counter of ticks
  is an unsigned 64-bit number and wraps.
\<close>

section \<open>The ticker\<close>

record ticker =
  ticks :: nat

definition Tick :: "nat \<Rightarrow> ticker \<Rightarrow> ticker" where
  "Tick d t = t\<lparr>ticks := (ticks t + d) mod 2 ^ 64\<rparr>"

definition ticker_Reset :: "ticker \<Rightarrow> ticker" where
  "ticker_Reset t = t\<lparr>ticks := 0\<rparr>"

definition Count :: "ticker \<Rightarrow> nat" where
  "Count t = ticks t"

section \<open>Time\<close>

text \<open>\<open>tick\<close> is the length of a tick, \<open>params.tick\<close>.\<close>

record time =
  ticker_of :: ticker
  tick :: int

definition ToDur :: "time \<Rightarrow> nat \<Rightarrow> int" where
  "ToDur tm cnt = int cnt * tick tm"

text \<open>
  The conversion to ticks rounds up: \<open>x / y + (x % y != 0)\<close>, with the truncating division
  of C++, as an unsigned 64-bit number.
\<close>

definition ToTicks :: "time \<Rightarrow> int \<Rightarrow> nat" where
  "ToTicks tm d =
     (let x = d; y = tick tm
      in nat ((x sdiv y + (if x smod y \<noteq> 0 then 1 else 0)) mod 2 ^ 64))"

definition NowTicks :: "time \<Rightarrow> nat" where
  "NowTicks tm = Count (ticker_of tm)"

definition Now :: "time \<Rightarrow> int" where
  "Now tm = ToDur tm (NowTicks tm)"

definition After :: "time \<Rightarrow> int \<Rightarrow> int" where
  "After tm delay = Now tm + delay"

definition AdvanceTo :: "int \<Rightarrow> time \<Rightarrow> string + time" where
  "AdvanceTo future tm =
     (if \<not> future \<ge> Now tm then Inl ''Time cannot move backward''
      else let f = ToTicks tm future; n = NowTicks tm
           in if \<not> f \<ge> n then Inl ''Time is broken''
              else Inr (tm\<lparr>ticker_of := Tick (f - n) (ticker_of tm)\<rparr>))"

definition time_Reset :: "time \<Rightarrow> time" where
  "time_Reset tm = tm\<lparr>ticker_of := ticker_Reset (ticker_of tm)\<rparr>"

section \<open>Thread identifiers\<close>

record id_allocator =
  next_tid :: nat

definition AllocateId :: "nat \<Rightarrow> id_allocator \<Rightarrow> string + (tid \<times> id_allocator)" where
  "AllocateId maxThreads a =
     (if \<not> next_tid a < maxThreads then Inl ''Too many threads''
      else let n = (next_tid a + 1) mod 2 ^ 8 in Inr (n, a\<lparr>next_tid := n\<rparr>))"

definition ids_Free :: "tid \<Rightarrow> id_allocator \<Rightarrow> id_allocator" where
  "ids_Free i a = a"

definition ids_Reset :: "id_allocator \<Rightarrow> id_allocator" where
  "ids_Reset a = a\<lparr>next_tid := 0\<rparr>"

section \<open>Advancing the clock\<close>

lemma ToTicks_ceiling:
  assumes "0 < tick tm" and "0 \<le> d" and "d < 2 ^ 63"
  shows "d \<le> int (ToTicks tm d) * tick tm" and "int (ToTicks tm d) * tick tm < d + tick tm"
    and "ToTicks tm d \<le> 2 ^ 63"
proof -
  let ?y = "tick tm"
  have q: "d sdiv ?y = d div ?y" "d smod ?y = d mod ?y"
    using assms by (cases "d = 0"; simp add: signed_divide_int_def signed_modulo_int_def)+
  let ?c = "d div ?y + (if d mod ?y \<noteq> 0 then 1 else 0)"
  have "d div ?y \<le> d" using assms int_div_le_self [of d ?y] by (cases "d = 0") simp_all
  then have c: "0 \<le> ?c" "?c \<le> 2 ^ 63"
    using assms by (auto simp: pos_imp_zdiv_nonneg_iff)
  then have "?c mod 2 ^ 64 = ?c" by simp
  then have t: "int (ToTicks tm d) = ?c" using c q by (simp add: ToTicks_def Let_def)
  define k where "k = d div ?y"
  define r where "r = d mod ?y"
  have d: "d = k * ?y + r" by (simp add: k_def r_def)
  have r: "0 \<le> r" "r < ?y" using assms by (simp_all add: r_def)
  have ck: "?c = k + (if r \<noteq> 0 then 1 else 0)" by (simp add: k_def r_def)
  have cy: "?c * ?y = k * ?y + (if r \<noteq> 0 then ?y else 0)"
    unfolding ck by (simp add: algebra_simps)
  have "int (ToTicks tm d) * ?y = k * ?y + (if r \<noteq> 0 then ?y else 0)"
    unfolding t by (rule cy)
  then show "d \<le> int (ToTicks tm d) * ?y" "int (ToTicks tm d) * ?y < d + ?y"
    using d r by (simp_all split: if_splits)
  have "int (ToTicks tm d) \<le> int (2 ^ 63)" using t c(2) by simp
  then show "ToTicks tm d \<le> 2 ^ 63" by (simp only: of_nat_le_iff)
qed

lemma AdvanceTo_correct:
  assumes "0 < tick tm" and "0 \<le> Now tm" and "Now tm \<le> future" and "future < 2 ^ 63"
    and "NowTicks tm < 2 ^ 64"
  obtains tm' where "AdvanceTo future tm = Inr tm'" and "tick tm' = tick tm"
    and "future \<le> Now tm'" and "Now tm' < future + tick tm" and "NowTicks tm \<le> NowTicks tm'"
proof -
  note c = ToTicks_ceiling [OF assms(1) order_trans [OF assms(2,3)] assms(4)]
  have "int (NowTicks tm) * tick tm \<le> int (ToTicks tm future) * tick tm"
    using assms(3) c(1) by (simp add: Now_def ToDur_def)
  then have le: "NowTicks tm \<le> ToTicks tm future" using assms(1) by (simp add: mult_le_cancel_right)
  let ?tm = "tm\<lparr>ticker_of := Tick (ToTicks tm future - NowTicks tm) (ticker_of tm)\<rparr>"
  have n: "NowTicks ?tm = ToTicks tm future"
    using le c(3) by (simp add: NowTicks_def Tick_def Count_def)
  have "AdvanceTo future tm = Inr ?tm" using assms(3) le by (simp add: AdvanceTo_def Let_def)
  moreover have "future \<le> Now ?tm" "Now ?tm < future + tick tm"
    using c by (simp_all add: Now_def ToDur_def n)
  ultimately show thesis using that [of ?tm] n le by simp
qed

text \<open>
  When the simulator is idle it jumps to the next deadline. The jump lands on the first tick
  at or after the deadline, never moves time backward, and makes the timer with that deadline
  due, so that the following poll fires at least one timer and the idle loop makes progress.
\<close>

theorem idle_jump_makes_progress:
  assumes "timer_reach q" and "\<not> queue_IsEmpty q" and "NextDeadLine q = Inr d"
    and "0 < tick tm" and "0 \<le> Now tm" and "Now tm \<le> d" and "d < 2 ^ 63" and "NowTicks tm < 2 ^ 64"
  shows "\<exists>tm' t q'. AdvanceTo d tm = Inr tm' \<and> Now tm \<le> Now tm' \<and> d \<le> Now tm' \<and>
     Now tm' < d + tick tm \<and> Poll (Now tm') q = Inr (Some t, q') \<and> deadline q t = d"
proof -
  obtain tm' where tm': "AdvanceTo d tm = Inr tm'" "tick tm' = tick tm" "d \<le> Now tm'"
      "Now tm' < d + tick tm" "NowTicks tm \<le> NowTicks tm'"
    by (rule AdvanceTo_correct [OF assms(4-8)])
  have ne: "\<not> heap_IsEmpty (timers q)" using assms(2) by (simp add: queue_IsEmpty_def)
  let ?m = "tree (timers q) 1"
  have d: "tm_when (store (timers q) ?m) = d"
    using assms(3) ne by (simp add: NextDeadLine_def heap_Min_def)
  then have due: "tm_when (store (timers q) ?m) \<le> Now tm'" using tm'(3) by simp
  have hinv: "heap_inv (timers q)" using timer_reach_inv [OF assms(1)] by (simp add: queue_inv_def)
  obtain h' where "ExtractMin (timers q) = Inr (?m, h')"
    using ExtractMin_correct [OF hinv] ne by (auto simp: heap_IsEmpty_def)
  then have "Poll (Now tm') q = Inr (Some ?m, q\<lparr>timers := h'\<rparr>)"
    using ne due by (simp add: Poll_def)
  moreover have "Now tm \<le> Now tm'" using tm'(3) assms(6) by simp
  ultimately show ?thesis using tm' d by (intro exI conjI) (auto simp: deadline_def)
qed

theorem idle_jump_makes_progress_witness:
  "\<exists>q tm'. add_all [1,2,3,4,5,6,7] (empty_queue sample_timers) = Inr q \<and>
     AdvanceTo 1 \<lparr>ticker_of = \<lparr>ticks = 0\<rparr>, tick = 10\<rparr> = Inr tm' \<and> Now tm' = 10"
proof -
  let ?tm = "\<lparr>ticker_of = \<lparr>ticks = 0\<rparr>, tick = 10\<rparr>"
  obtain q where q: "add_all [1,2,3,4,5,6,7] (empty_queue sample_timers) = Inr q" "timer_reach q"
    by (rule sample_queue)
  have "case add_all [1,2,3,4,5,6,7] (empty_queue sample_timers) of Inl _ \<Rightarrow> False
     | Inr q \<Rightarrow> \<not> queue_IsEmpty q \<and> NextDeadLine q = Inr 1" by code_simp
  then have "\<not> queue_IsEmpty q" "NextDeadLine q = Inr 1" using q(1) by simp_all
  moreover have "Now ?tm = 0" "NowTicks ?tm = 0"
    by (simp_all add: Now_def ToDur_def NowTicks_def Count_def)
  ultimately obtain tm' where tm': "AdvanceTo 1 ?tm = Inr tm'" "1 \<le> Now tm'" "Now tm' < 11"
    using idle_jump_makes_progress [OF q(2), of 1 ?tm] by auto
  have "case AdvanceTo 1 ?tm of Inl _ \<Rightarrow> False | Inr t \<Rightarrow> Now t = 10"
    by (simp add: AdvanceTo_def ToTicks_def Now_def ToDur_def NowTicks_def Count_def Tick_def
        signed_divide_int_def signed_modulo_int_def)
  then have "Now tm' = 10" using tm'(1) by simp
  with tm'(1) q(1) show ?thesis by blast
qed

end
