(* ===== verification/Random_Base.thy ===== *)
theory Random_Base
  imports Prelude
begin

unbundle bit_operations_syntax

text \<open>
  The random number generator of the schedulers (\<open>wheels/random/wyrand.hpp\<close>), the hash that the
  replay of a run is checked with (\<open>wheels/core/hash.hpp\<close>) and the digest of a run
  (\<open>rt/sim/system/digest.hpp\<close>). All arithmetic is on 64-bit words, the product of two of them on
  128-bit words, as in the code.
\<close>

section \<open>WyRand\<close>

record wyrand =
  wy_state :: u64

definition Seed :: "u64 \<Rightarrow> wyrand \<Rightarrow> wyrand" where
  "Seed s g = g\<lparr>wy_state := s\<rparr>"

definition wy_increment :: u64 where
  "wy_increment = 0xa0761d6478bd642f"

definition wy_next_word :: "u64 \<Rightarrow> u64 \<times> u64" where
  "wy_next_word s0 =
     (let s = s0 + 0xa0761d6478bd642f;
          t = (ucast s :: 128 word) * ucast (s XOR 0xe7037ed1a0b428db)
      in (ucast (drop_bit 64 t XOR t), s))"

definition Next :: "wyrand \<Rightarrow> u64 \<times> wyrand" where
  "Next g = (let (r, s) = wy_next_word (wy_state g) in (r, g\<lparr>wy_state := s\<rparr>))"

fun nexts :: "nat \<Rightarrow> wyrand \<Rightarrow> wyrand" where
  "nexts 0 g = g"
| "nexts (Suc n) g = nexts n (snd (Next g))"

lemma wy_state_Next: "wy_state (snd (Next g)) = wy_state g + wy_increment"
  by (simp add: Next_def wy_next_word_def Let_def wy_increment_def)

lemma wy_state_nexts: "wy_state (nexts n g) = wy_state g + of_nat n * wy_increment"
  by (induction n arbitrary: g) (simp_all add: wy_state_Next algebra_simps)

lemma wyrand_equality: "wy_state (g :: wyrand) = wy_state h \<Longrightarrow> g = h"
  by (cases g; cases h) simp

lemma wy_increment_inverse: "wy_increment * 0x939c72e4af1e62cf = 1"
  by (simp add: wy_increment_def)

lemma wy_increment_cancel: "a * wy_increment = b * wy_increment \<longleftrightarrow> a = b"
proof
  assume "a * wy_increment = b * wy_increment"
  then have "a * (wy_increment * 0x939c72e4af1e62cf) = b * (wy_increment * 0x939c72e4af1e62cf)"
    by (simp only: mult.assoc [symmetric])
  then show "a = b" by (simp add: wy_increment_inverse)
qed simp

text \<open>
  The generator has full period: from any seed, two states of its run coincide exactly when
  the numbers of steps taken differ by a multiple of \<open>2 ^ 64\<close>, so the first \<open>2 ^ 64\<close> states are
  all the states there are and none repeats.
\<close>

theorem wyrand_full_period:
  "nexts m g = nexts n g \<longleftrightarrow> m mod 2 ^ 64 = n mod 2 ^ 64"
proof -
  have "nexts m g = nexts n g \<longleftrightarrow> wy_state (nexts m g) = wy_state (nexts n g)"
    using wyrand_equality by metis
  also have "\<dots> \<longleftrightarrow> (of_nat m :: u64) * wy_increment = of_nat n * wy_increment"
    by (simp add: wy_state_nexts)
  also have "\<dots> \<longleftrightarrow> (of_nat m :: u64) = of_nat n"
    by (rule wy_increment_cancel)
  also have "\<dots> \<longleftrightarrow> m mod 2 ^ 64 = n mod 2 ^ 64"
    by (simp add: word_of_nat_eq_iff take_bit_eq_mod)
  finally show ?thesis .
qed

section \<open>Hashes\<close>

definition HashCombine :: "u64 \<Rightarrow> u64 \<Rightarrow> u64" where
  "HashCombine digest v =
     digest XOR (v + 0x9e3779b9 + push_bit 6 digest + drop_bit 2 digest)"

lemma HashCombine_eq_iff [simp]: "HashCombine d v = HashCombine d w \<longleftrightarrow> v = w"
proof -
  have self: "a XOR (a XOR b) = b" for a b :: u64
    by (simp add: bit_eq_iff bit_xor_iff)
  have "b = c" if "a XOR b = a XOR c" for a b c :: u64
    using arg_cong [OF that, of "\<lambda>x. a XOR x"] by (simp only: self)
  then have "a XOR b = a XOR c \<longleftrightarrow> b = c" for a b c :: u64 by blast
  then show ?thesis by (simp add: HashCombine_def)
qed

text \<open>\<open>HashRange\<close>: the bytes are plain \<open>char\<close>s, sign-extended by the conversion to \<open>size_t\<close>.\<close>

definition HashRange :: "u64 \<Rightarrow> 8 word list \<Rightarrow> u64" where
  "HashRange seed bytes = foldl (\<lambda>d b. HashCombine d (scast b)) seed bytes"

record digest_calculator =
  dig :: u64


definition digest_Reset :: "digest_calculator \<Rightarrow> digest_calculator" where
  "digest_Reset d = d\<lparr>dig := 0\<rparr>"

definition Feed :: "u64 \<Rightarrow> digest_calculator \<Rightarrow> digest_calculator" where
  "Feed v d = d\<lparr>dig := HashCombine (dig d) v\<rparr>"

definition digest_Load :: "u64 \<Rightarrow> digest_calculator \<Rightarrow> digest_calculator" where
  "digest_Load repr d = Feed repr d"

definition digest_Iter :: "tid \<Rightarrow> digest_calculator \<Rightarrow> digest_calculator" where
  "digest_Iter t d = Feed (of_nat t) d"

definition Digest :: "digest_calculator \<Rightarrow> u64" where
  "Digest d = dig d"

datatype digest_event = DLoad u64 | DIter tid

primrec feed_event :: "digest_event \<Rightarrow> digest_calculator \<Rightarrow> digest_calculator" where
  "feed_event (DLoad v) d = digest_Load v d"
| "feed_event (DIter t) d = digest_Iter t d"

definition event_word :: "digest_event \<Rightarrow> u64" where
  "event_word e = (case e of DLoad v \<Rightarrow> v | DIter t \<Rightarrow> of_nat t)"

definition run_digest :: "digest_event list \<Rightarrow> u64" where
  "run_digest es = Digest (fold feed_event es (digest_Reset \<lparr>dig = 0\<rparr>))"

lemma feed_event_word: "dig (feed_event e d) = HashCombine (dig d) (event_word e)"
  by (cases e) (simp_all add: digest_Load_def digest_Iter_def Feed_def event_word_def)

text \<open>
  The digest separates two runs at the first step where they diverge: after a common prefix
  of loads and iterations, one different value read or one different thread chosen gives a
  different digest.
\<close>

theorem digest_detects_divergence:
  "run_digest (es @ [e]) = run_digest (es @ [e']) \<longleftrightarrow> event_word e = event_word e'"
  by (simp add: run_digest_def Digest_def feed_event_word)

end
