(* ===== verification/Vector_Clock.thy ===== *)
theory Vector_Clock
  imports Prelude Sim_Types
begin

text \<open>
  The vector clocks of \<open>rt/sim/system/sync/clock.hpp\<close>. The operations touch only the cells of the
  threads that exist, so each takes \<open>n\<close>, the value of \<open>ThreadCount()\<close> at the call. An epoch is an
  unsigned 32-bit number. The set of events a clock stands for (\<open>events\<close>) turns joining into
  union and assignment into copying, as long as the cells beyond the threads that exist are zero
  (\<open>bounded\<close>).
\<close>

section \<open>Operations\<close>

definition clock_Init :: clock where
  "clock_Init = (\<lambda>_. 0)"

definition Get :: "clock \<Rightarrow> tid \<Rightarrow> nat" where
  "Get v tid = v (tid - 1)"

definition clock_Tick :: "nat \<Rightarrow> tid \<Rightarrow> clock \<Rightarrow> fault + clock" where
  "clock_Tick n tid v =
     (if \<not> tid \<le> n then Inl (Panic ''Too many threads'')
      else Inr (v(tid - 1 := (v (tid - 1) + 1) mod 2 ^ 32)))"

definition clock_Reset :: "nat \<Rightarrow> clock \<Rightarrow> clock" where
  "clock_Reset n v = (\<lambda>i. if i < n then 0 else v i)"

definition Assign :: "nat \<Rightarrow> clock \<Rightarrow> clock \<Rightarrow> clock" where
  "Assign n v that = (\<lambda>i. if i < n then that i else v i)"

definition Join :: "nat \<Rightarrow> clock \<Rightarrow> clock \<Rightarrow> clock" where
  "Join n v with = (\<lambda>i. if i < n then max (v i) (with i) else v i)"

section \<open>The events a clock stands for\<close>

type_synonym event = "tid \<times> nat"

definition events :: "clock \<Rightarrow> event set" where
  "events v = {(t, k). 1 \<le> t \<and> 1 \<le> k \<and> k \<le> Get v t}"

definition bounded :: "nat \<Rightarrow> clock \<Rightarrow> bool" where
  "bounded n v \<longleftrightarrow> (\<forall>i \<ge> n. v i = 0)"

lemma mem_events: "(t, k) \<in> events v \<longleftrightarrow> 1 \<le> t \<and> 1 \<le> k \<and> k \<le> Get v t"
  by (simp add: events_def)

lemma bounded_Init [simp]: "bounded n clock_Init"
  by (simp add: bounded_def clock_Init_def)

lemma bounded_mono: "bounded n v \<Longrightarrow> n \<le> m \<Longrightarrow> bounded m v"
  by (simp add: bounded_def)

lemma bounded_Assign [simp]: "bounded n v \<Longrightarrow> bounded n (Assign n v w)"
  by (simp add: bounded_def Assign_def)

lemma bounded_Join [simp]: "bounded n v \<Longrightarrow> bounded n (Join n v w)"
  by (simp add: bounded_def Join_def)

lemma Get_Join: "1 \<le> t \<Longrightarrow> t \<le> n \<Longrightarrow> Get (Join n v w) t = max (Get v t) (Get w t)"
  by (cases t) (simp_all add: Get_def Join_def)

lemma Get_Assign: "1 \<le> t \<Longrightarrow> t \<le> n \<Longrightarrow> Get (Assign n v w) t = Get w t"
  by (cases t) (simp_all add: Get_def Assign_def)

lemma Get_bounded: "bounded n v \<Longrightarrow> n < t \<Longrightarrow> Get v t = 0"
  by (cases t) (auto simp: Get_def bounded_def)

lemma events_Init [simp]: "events clock_Init = {}"
  by (auto simp: events_def Get_def clock_Init_def)

lemma events_Join [simp]:
  assumes "bounded n v" and "bounded n w"
  shows "events (Join n v w) = events v \<union> events w"
proof -
  have "Get (Join n v w) t = max (Get v t) (Get w t)" if "1 \<le> t" for t
    using assms that by (cases "t \<le> n") (auto simp: Get_Join Get_bounded [where n = n])
  then show ?thesis by (auto simp: events_def)
qed

lemma events_Assign [simp]:
  assumes "bounded n v" and "bounded n w"
  shows "events (Assign n v w) = events w"
proof -
  have "Get (Assign n v w) t = Get w t" if "1 \<le> t" for t
    using assms that by (cases "t \<le> n") (auto simp: Get_Assign Get_bounded [where n = n])
  then show ?thesis by (auto simp: events_def)
qed

lemma clock_Tick_ok:
  assumes "1 \<le> t" and "t \<le> n" and "Get v t + 1 < 2 ^ 32"
  obtains v' where "clock_Tick n t v = Inr v'" and "Get v' t = Get v t + 1"
    and "events v' = insert (t, Get v t + 1) (events v)" and "bounded n v \<Longrightarrow> bounded n v'"
proof -
  let ?v = "v(t - 1 := Get v t + 1)"
  have "(v (t - 1) + 1) mod 2 ^ 32 = Get v t + 1" using assms(3) by (simp add: Get_def)
  then have "clock_Tick n t v = Inr ?v" using assms(2) by (simp add: clock_Tick_def)
  moreover have g: "Get ?v u = (if u = t then Get v t + 1 else Get v u)" if "1 \<le> u" for u
    using that assms(1) by (auto simp: Get_def)
  then have "events ?v = insert (t, Get v t + 1) (events v)"
    using assms(1) by (auto simp: events_def split: if_splits)
  moreover have "Get ?v t = Get v t + 1" using g assms(1) by simp
  moreover have "bounded n v \<Longrightarrow> bounded n ?v" using assms by (auto simp: bounded_def)
  ultimately show thesis using that [of ?v] by blast
qed

lemma events_subset_iff:
  "events v \<subseteq> events w \<longleftrightarrow> (\<forall>t \<ge> 1. Get v t \<le> Get w t)"
proof
  assume s: "events v \<subseteq> events w"
  show "\<forall>t \<ge> 1. Get v t \<le> Get w t"
  proof (intro allI impI)
    fix t :: nat assume "1 \<le> t"
    then show "Get v t \<le> Get w t"
      using subsetD [OF s, of "(t, Get v t)"] by (cases "Get v t") (auto simp: mem_events)
  qed
qed (auto simp: events_def intro: order_trans)

end
