(* ===== verification/Memory_Model.thy ===== *)
theory Memory_Model
  imports Prelude Sim_Types Vector_Clock
begin

text \<open>
  \<open>SeqCstMemoryModel\<close> of \<open>rt/sim/system/sync/model.hpp\<close>, with the shadow state of
  \<open>atomic.hpp\<close>, \<open>non_atomic.hpp\<close> and \<open>alloc.hpp\<close>. Each operation takes \<open>n\<close>, the value of
  \<open>ThreadCount()\<close>, the synchronisation context of the acting thread, and the maps of the model,
  and returns what it changed. An invalid access aborts the iteration (\<open>invalid.cpp\<close>).
\<close>

section \<open>Shadow state\<close>

record atomic_store =
  store_clock :: clock
  store_value :: u64

record atomic_var =
  av_source_loc :: source_loc
  av_size :: nat
  last_store :: atomic_store
  av_dtor :: bool

record non_atomic_var =
  nv_source_loc :: source_loc
  last_read :: "tid \<Rightarrow> old_access option"
  last_write :: "old_access option"
  nv_dtor :: "old_access option"

record alloc =
  al_alive :: bool
  al_size :: nat
  al_thread_id :: tid
  al_source_loc :: "source_loc option"
  al_free :: clock

record memory_model =
  atomics :: "addr \<Rightarrow> atomic_var option"
  non_atomics :: "addr \<Rightarrow> non_atomic_var option"
  allocs :: "addr \<Rightarrow> alloc option"

text \<open>What \<open>try_emplace\<close> puts in the map: value-initialised objects.\<close>

definition fresh_atomic :: atomic_var where
  "fresh_atomic = \<lparr>av_source_loc = [], av_size = 0,
     last_store = \<lparr>store_clock = clock_Init, store_value = 0\<rparr>, av_dtor = False\<rparr>"

definition fresh_non_atomic :: non_atomic_var where
  "fresh_non_atomic = \<lparr>nv_source_loc = [], last_read = Map.empty, last_write = None, nv_dtor = None\<rparr>"

definition fresh_alloc :: alloc where
  "fresh_alloc = \<lparr>al_alive = False, al_size = 0, al_thread_id = 0, al_source_loc = None,
     al_free = clock_Init\<rparr>"

definition mm_Reset :: "memory_model \<Rightarrow> memory_model" where
  "mm_Reset m = m\<lparr>atomics := Map.empty, non_atomics := Map.empty, allocs := Map.empty\<rparr>"

definition AtomicCount :: "memory_model \<Rightarrow> nat" where
  "AtomicCount m = card (dom (atomics m))"

definition NonAtomicCount :: "memory_model \<Rightarrow> nat" where
  "NonAtomicCount m = card (dom (non_atomics m))"

text \<open>\<open>NonAtomicVar::Init\<close> and \<open>Log\<close>.\<close>

definition nv_Init :: "non_atomic_var \<Rightarrow> non_atomic_var" where
  "nv_Init v = v\<lparr>last_read := (\<lambda>i. if 1 \<le> i \<and> i \<le> kMaxThreads then None else last_read v i),
     last_write := None, nv_dtor := None\<rparr>"

definition Log :: "old_access \<Rightarrow> non_atomic_var \<Rightarrow> non_atomic_var" where
  "Log a v = (if IsRead (old_type a) then v\<lparr>last_read := (last_read v)(old_thread a := Some a)\<rparr>
     else v\<lparr>last_write := Some a\<rparr>)"

section \<open>Invalid accesses\<close>

definition InvalidAccess :: "fault + 'a" where
  "InvalidAccess = Inl (SysAbortEx InvalidMemoryAccess)"

definition DeadAtomicVarAccess :: "atomic_var \<Rightarrow> action \<Rightarrow> fault + 'a" where
  "DeadAtomicVarAccess v a = InvalidAccess"

definition UnknownAtomicVarAccess :: "addr \<Rightarrow> fault + 'a" where
  "UnknownAtomicVarAccess loc = InvalidAccess"

definition UnknownSharedVarAccess :: "access \<Rightarrow> fault + 'a" where
  "UnknownSharedVarAccess a = InvalidAccess"

definition InitOnLiveSharedVar :: "access \<Rightarrow> fault + 'a" where
  "InitOnLiveSharedVar a = InvalidAccess"

section \<open>Threads\<close>

definition mm_Tick :: "nat \<Rightarrow> tid \<Rightarrow> sync_context \<Rightarrow> fault + sync_context" where
  "mm_Tick n t c = bindE (clock_Tick n t (current c))
     (\<lambda>v. Inr (c\<lparr>current := v, epoch := (epoch c + 1) mod 2 ^ 32\<rparr>))"

definition mm_Spawn :: "nat \<Rightarrow> sync_context \<Rightarrow> tid \<Rightarrow> sync_context \<Rightarrow> fault + sync_context" where
  "mm_Spawn n parent child c =
     mm_Tick n child (c\<lparr>current := Assign n (current c) (current parent)\<rparr>)"

definition mm_Wake :: "nat \<Rightarrow> sync_context \<Rightarrow> tid \<Rightarrow> sync_context \<Rightarrow> fault + sync_context" where
  "mm_Wake n waker waiter c =
     mm_Tick n waiter (c\<lparr>current := Join n (current c) (release_clock waker)\<rparr>)"

section \<open>Fences\<close>

definition AtomicThreadFenceRelease :: "nat \<Rightarrow> sync_context \<Rightarrow> sync_context" where
  "AtomicThreadFenceRelease n c = c\<lparr>release_clock := Assign n (release_clock c) (current c)\<rparr>"

definition AtomicThreadFenceAcquire :: "nat \<Rightarrow> sync_context \<Rightarrow> sync_context" where
  "AtomicThreadFenceAcquire n c = c\<lparr>current := Join n (current c) (acquire_clock c)\<rparr>"

definition AtomicThreadFenceAcqRel :: "nat \<Rightarrow> sync_context \<Rightarrow> sync_context" where
  "AtomicThreadFenceAcqRel n c = AtomicThreadFenceRelease n (AtomicThreadFenceAcquire n c)"

definition mm_AtomicThreadFence :: "nat \<Rightarrow> action \<Rightarrow> sync_context \<Rightarrow> fault + sync_context" where
  "mm_AtomicThreadFence n fence c =
     (case act_mo fence of
        acquire \<Rightarrow> Inr (AtomicThreadFenceAcquire n c)
      | release \<Rightarrow> Inr (AtomicThreadFenceRelease n c)
      | acq_rel \<Rightarrow> Inr (AtomicThreadFenceAcqRel n c)
      | _ \<Rightarrow> Inl (Panic ''Fence not supported''))"

section \<open>Atomics\<close>

definition TryGetShadowAtomicVar :: "addr \<Rightarrow> memory_model \<Rightarrow> atomic_var option" where
  "TryGetShadowAtomicVar loc m = atomics m loc"

definition GetShadowAtomicVar :: "action \<Rightarrow> memory_model \<Rightarrow> fault + atomic_var" where
  "GetShadowAtomicVar a m =
     (case TryGetShadowAtomicVar (act_loc a) m of
        None \<Rightarrow> UnknownAtomicVarAccess (act_loc a)
      | Some v \<Rightarrow> if av_dtor v then DeadAtomicVarAccess v a else Inr v)"

definition put_atomic :: "addr \<Rightarrow> atomic_var \<Rightarrow> memory_model \<Rightarrow> memory_model" where
  "put_atomic loc v m = m\<lparr>atomics := (atomics m)(loc \<mapsto> v)\<rparr>"

definition mm_AtomicInit :: "action \<Rightarrow> memory_model \<Rightarrow> memory_model" where
  "mm_AtomicInit a m =
     (let v = (case atomics m (act_loc a) of None \<Rightarrow> fresh_atomic | Some v \<Rightarrow> v)
      in put_atomic (act_loc a)
           (v\<lparr>av_source_loc := act_source_loc a, av_size := act_size a,
              last_store := \<lparr>store_clock = clock_Init, store_value = act_value a\<rparr>,
              av_dtor := False\<rparr>) m)"

definition AtomicLoadRelaxed :: "nat \<Rightarrow> atomic_var \<Rightarrow> sync_context \<Rightarrow> u64 \<times> sync_context" where
  "AtomicLoadRelaxed n v c =
     (store_value (last_store v),
      c\<lparr>acquire_clock := Join n (acquire_clock c) (store_clock (last_store v))\<rparr>)"

definition AtomicStoreRelaxed :: "nat \<Rightarrow> u64 \<Rightarrow> sync_context \<Rightarrow> atomic_var \<Rightarrow> atomic_var" where
  "AtomicStoreRelaxed n val c v =
     v\<lparr>last_store := \<lparr>store_clock = Assign n (store_clock (last_store v)) (release_clock c),
        store_value = val\<rparr>\<rparr>"

definition AtomicRmwCommitRelaxed :: "nat \<Rightarrow> u64 \<Rightarrow> sync_context \<Rightarrow> atomic_var \<Rightarrow> atomic_var" where
  "AtomicRmwCommitRelaxed n val c v =
     v\<lparr>last_store := \<lparr>store_clock = Join n (store_clock (last_store v)) (release_clock c),
        store_value = val\<rparr>\<rparr>"

definition mm_AtomicLoad ::
  "nat \<Rightarrow> sync_context \<Rightarrow> action \<Rightarrow> memory_model \<Rightarrow> fault + u64 \<times> sync_context" where
  "mm_AtomicLoad n c a m =
     bindE (verify (IsLoadOrder (act_mo a)) (Panic ''Unexpected memory order for atomic load'')) (\<lambda>_.
     bindE (GetShadowAtomicVar a m) (\<lambda>v.
     let (val, c1) = AtomicLoadRelaxed n v c
     in Inr (val, if IsAcquireOrder (act_mo a) then AtomicThreadFenceAcquire n c1 else c1)))"

definition mm_AtomicDebugLoad :: "action \<Rightarrow> memory_model \<Rightarrow> fault + u64" where
  "mm_AtomicDebugLoad a m =
     bindE (GetShadowAtomicVar a m) (\<lambda>v. Inr (store_value (last_store v)))"

definition mm_AtomicStore ::
  "nat \<Rightarrow> sync_context \<Rightarrow> action \<Rightarrow> memory_model \<Rightarrow> fault + sync_context \<times> memory_model" where
  "mm_AtomicStore n c a m =
     bindE (verify (IsStoreOrder (act_mo a)) (Panic ''Unexpected memory order for atomic store'')) (\<lambda>_.
     bindE (GetShadowAtomicVar a m) (\<lambda>v.
     let c1 = (if IsReleaseOrder (act_mo a) then AtomicThreadFenceRelease n c else c)
     in Inr (c1, put_atomic (act_loc a) (AtomicStoreRelaxed n (act_value a) c1 v) m)))"

definition mm_AtomicRmwLoad ::
  "nat \<Rightarrow> sync_context \<Rightarrow> action \<Rightarrow> memory_model \<Rightarrow> fault + u64 \<times> sync_context" where
  "mm_AtomicRmwLoad n c a m =
     bindE (GetShadowAtomicVar a m) (\<lambda>v.
     let (val, c1) = AtomicLoadRelaxed n v c
     in Inr (val, if IsAcquireOrder (act_mo a) then AtomicThreadFenceAcquire n c1 else c1))"

definition mm_AtomicRmwCommit ::
  "nat \<Rightarrow> sync_context \<Rightarrow> action \<Rightarrow> memory_model \<Rightarrow> fault + sync_context \<times> memory_model" where
  "mm_AtomicRmwCommit n c a m =
     bindE (GetShadowAtomicVar a m) (\<lambda>v.
     let c1 = (if IsReleaseOrder (act_mo a) then AtomicThreadFenceRelease n c else c)
     in Inr (c1, put_atomic (act_loc a) (AtomicRmwCommitRelaxed n (act_value a) c1 v) m))"

definition mm_AtomicDestroy :: "action \<Rightarrow> memory_model \<Rightarrow> fault + action \<times> memory_model" where
  "mm_AtomicDestroy a m =
     bindE (GetShadowAtomicVar a m) (\<lambda>v.
     Inr (a\<lparr>act_source_loc := av_source_loc v\<rparr>, put_atomic (act_loc a) (v\<lparr>av_dtor := True\<rparr>) m))"

text \<open>
  \<open>Sync\<close>: the value the action returns, the context of the thread, the maps, and the action,
  whose call site the destructor fills in.
\<close>

definition Sync :: "nat \<Rightarrow> tid \<Rightarrow> sync_context \<Rightarrow> action \<Rightarrow> memory_model \<Rightarrow>
    fault + u64 \<times> sync_context \<times> memory_model \<times> action" where
  "Sync n t c0 a m =
     bindE (mm_Tick n t c0) (\<lambda>c.
     case act_type a of
       AtomicInit \<Rightarrow> Inr (0, c, mm_AtomicInit a m, a)
     | AtomicDestroy \<Rightarrow> bindE (mm_AtomicDestroy a m) (\<lambda>(a1, m1). Inr (0, c, m1, a1))
     | AtomicLoad \<Rightarrow> bindE (mm_AtomicLoad n c a m) (\<lambda>(v, c1). Inr (v, c1, m, a))
     | AtomicDebugLoad \<Rightarrow> bindE (mm_AtomicDebugLoad a m) (\<lambda>v. Inr (v, c, m, a))
     | AtomicStore \<Rightarrow> bindE (mm_AtomicStore n c a m) (\<lambda>(c1, m1). Inr (0, c1, m1, a))
     | AtomicRmwLoad \<Rightarrow> bindE (mm_AtomicRmwLoad n c a m) (\<lambda>(v, c1). Inr (v, c1, m, a))
     | AtomicRmwCommit \<Rightarrow> bindE (mm_AtomicRmwCommit n c a m) (\<lambda>(c1, m1). Inr (0, c1, m1, a))
     | AtomicThreadFence \<Rightarrow> bindE (mm_AtomicThreadFence n a c) (\<lambda>c1. Inr (0, c1, m, a)))"

section \<open>Futexes\<close>

definition FutexLoad :: "atomic_var \<Rightarrow> u64" where
  "FutexLoad v = store_value (last_store v)"

definition TryFutexAtomic :: "addr \<Rightarrow> memory_model \<Rightarrow> atomic_var option" where
  "TryFutexAtomic loc m = TryGetShadowAtomicVar loc m"

definition FutexAtomic :: "addr \<Rightarrow> memory_model \<Rightarrow> fault + atomic_var" where
  "FutexAtomic loc m =
     (case TryGetShadowAtomicVar loc m of
        None \<Rightarrow> UnknownAtomicVarAccess loc
      | Some v \<Rightarrow> if av_dtor v then UnknownAtomicVarAccess loc else Inr v)"

section \<open>Non-atomic accesses\<close>

definition Conflict :: "access_type \<Rightarrow> access_type \<Rightarrow> bool" where
  "Conflict a b \<longleftrightarrow> IsWrite a \<or> IsWrite b"

definition HappensBefore :: "old_access \<Rightarrow> sync_context \<Rightarrow> bool" where
  "HappensBefore old c \<longleftrightarrow> Get (current c) (old_thread old) \<ge> old_epoch old"

text \<open>The loop over the last reads, \<open>for (i = 1; i <= n; ++i)\<close>.\<close>

fun check_reads :: "tid list \<Rightarrow> tid \<Rightarrow> sync_context \<Rightarrow> non_atomic_var \<Rightarrow> old_access option" where
  "check_reads [] t c v = None"
| "check_reads (i # is) t c v =
     (case last_read v i of
        Some old \<Rightarrow> if i \<noteq> t \<and> \<not> HappensBefore old c then Some old else check_reads is t c v
      | None \<Rightarrow> check_reads is t c v)"

definition CheckDataRaces ::
  "nat \<Rightarrow> tid \<Rightarrow> sync_context \<Rightarrow> non_atomic_var \<Rightarrow> access \<Rightarrow> old_access option" where
  "CheckDataRaces n t c v acc =
     (let reads = (if IsWrite (acc_type acc) then check_reads [1..<n+1] t c v else None)
      in case last_write v of
           Some w \<Rightarrow> if old_thread w \<noteq> t \<and> \<not> HappensBefore w c then Some w else reads
         | None \<Rightarrow> reads)"

definition old_of :: "access \<Rightarrow> tid \<Rightarrow> sync_context \<Rightarrow> old_access" where
  "old_of a t c = \<lparr>old_loc = acc_loc a, old_type = acc_type a, old_thread = t, old_epoch = epoch c,
     old_source_loc = acc_source_loc a\<rparr>"

definition put_non_atomic :: "addr \<Rightarrow> non_atomic_var \<Rightarrow> memory_model \<Rightarrow> memory_model" where
  "put_non_atomic loc v m = m\<lparr>non_atomics := (non_atomics m)(loc \<mapsto> v)\<rparr>"

definition InitNonAtomicVar :: "nat \<Rightarrow> tid \<Rightarrow> sync_context \<Rightarrow> access \<Rightarrow> memory_model \<Rightarrow>
    fault + old_access option \<times> memory_model" where
  "InitNonAtomicVar n t c a m =
     (let fin = (\<lambda>v. put_non_atomic (acc_loc a)
                   (Log (old_of a t c) ((nv_Init v)\<lparr>nv_source_loc := acc_source_loc a\<rparr>)) m)
      in case non_atomics m (acc_loc a) of
           None \<Rightarrow> Inr (None, fin fresh_non_atomic)
         | Some v \<Rightarrow>
             if nv_dtor v = None then InitOnLiveSharedVar a
             else case CheckDataRaces n t c v a of
                    Some race \<Rightarrow> Inr (Some race, m)
                  | None \<Rightarrow> Inr (None, fin v))"

definition AccessLiveNonAtomicVar :: "nat \<Rightarrow> tid \<Rightarrow> sync_context \<Rightarrow> access \<Rightarrow> memory_model \<Rightarrow>
    fault + old_access option \<times> access \<times> memory_model" where
  "AccessLiveNonAtomicVar n t c a m =
     (case non_atomics m (acc_loc a) of
        None \<Rightarrow> UnknownSharedVarAccess a
      | Some v \<Rightarrow>
          case CheckDataRaces n t c v a of
            Some race \<Rightarrow> Inr (Some race, a, m)
          | None \<Rightarrow>
              let old = old_of a t c;
                  v1 = (if acc_type a = AccDestroy then v\<lparr>nv_dtor := Some old\<rparr> else v);
                  a1 = (if acc_type a = AccDestroy then a\<lparr>acc_source_loc := nv_source_loc v\<rparr> else a)
              in Inr (None, a1, put_non_atomic (acc_loc a) (Log old v1) m))"

definition AccessNonAtomicVar :: "nat \<Rightarrow> tid \<Rightarrow> sync_context \<Rightarrow> access \<Rightarrow> memory_model \<Rightarrow>
    fault + old_access option \<times> sync_context \<times> access \<times> memory_model" where
  "AccessNonAtomicVar n t c0 a m =
     bindE (mm_Tick n t c0) (\<lambda>c.
     if acc_type a = AccInit
     then bindE (InitNonAtomicVar n t c a m) (\<lambda>(race, m1). Inr (race, c, a, m1))
     else bindE (AccessLiveNonAtomicVar n t c a m) (\<lambda>(race, a1, m1). Inr (race, c, a1, m1)))"

section \<open>Allocations\<close>

definition GetShadowAllocation :: "addr \<Rightarrow> memory_model \<Rightarrow> alloc \<times> memory_model" where
  "GetShadowAllocation p m =
     (case allocs m p of
        Some al \<Rightarrow> (al, m)
      | None \<Rightarrow> let al = fresh_alloc\<lparr>al_free := clock_Init\<rparr>
                in (al, m\<lparr>allocs := (allocs m)(p \<mapsto> al)\<rparr>))"

definition IsRuntime :: "scope \<Rightarrow> bool" where
  "IsRuntime s \<longleftrightarrow> ''twist.rt'' \<in> set (scope_attrs s)"

definition Malloc :: "nat \<Rightarrow> tid \<Rightarrow> scope option \<Rightarrow> sync_context \<Rightarrow> addr \<Rightarrow> nat \<Rightarrow> memory_model \<Rightarrow>
    sync_context \<times> memory_model" where
  "Malloc n t sc c p sz m =
     (let (al, m1) = GetShadowAllocation p m;
          src = (case sc of Some s \<Rightarrow> if \<not> IsRuntime s then Some (scope_loc s) else None | None \<Rightarrow> None);
          al1 = al\<lparr>al_alive := True, al_size := sz, al_thread_id := t, al_source_loc := src\<rparr>
      in (c\<lparr>current := Join n (current c) (al_free al1)\<rparr>, m1\<lparr>allocs := (allocs m1)(p \<mapsto> al1)\<rparr>))"

definition Free :: "nat \<Rightarrow> sync_context \<Rightarrow> addr \<Rightarrow> memory_model \<Rightarrow> memory_model" where
  "Free n c p m =
     (let (al, m1) = GetShadowAllocation p m;
          al1 = al\<lparr>al_alive := False, al_free := Assign n (al_free al) (current c)\<rparr>
      in m1\<lparr>allocs := (allocs m1)(p \<mapsto> al1)\<rparr>)"

end
