(* ===== verification/Happens_Before.thy ===== *)
theory Happens_Before
  imports Prelude Sim_Types Vector_Clock
begin

text \<open>
  What the memory model promises, without clocks. An event is a thread with the number of its
  step; a view is a set of events. A thread has its current view, the view it has read and not yet
  acquired, and the view of its last release; an atomic carries the view of its last store, an
  allocation the view of its last release to the heap; and every location has the full log of the
  accesses made to it. \<open>hb_at\<close> gives for each event the events that happen before it or are it.
  The steps below are the rules of release and acquire fences over these sets.
\<close>

section \<open>The operations of the program that the memory model sees\<close>

datatype mem_op =
  MSpawn tid                          \<comment> \<open>the parent\<close>
| MWake tid tid                       \<comment> \<open>the waker and the waiter\<close>
| MSync tid action
| MAccess tid access
| MMalloc tid "scope option" addr nat
| MFree tid addr

primrec op_ok :: "nat \<Rightarrow> mem_op \<Rightarrow> bool" where
  "op_ok n (MSpawn p) = (1 \<le> p \<and> p \<le> n)"
| "op_ok n (MWake w v) = (1 \<le> w \<and> w \<le> n \<and> 1 \<le> v \<and> v \<le> n)"
| "op_ok n (MSync t a) = (1 \<le> t \<and> t \<le> n)"
| "op_ok n (MAccess t a) = (1 \<le> t \<and> t \<le> n)"
| "op_ok n (MMalloc t sc p sz) = (1 \<le> t \<and> t \<le> n)"
| "op_ok n (MFree t p) = (1 \<le> t \<and> t \<le> n)"

primrec new_threads :: "mem_op \<Rightarrow> nat" where
  "new_threads (MSpawn p) = 1"
| "new_threads (MWake w v) = 0"
| "new_threads (MSync t a) = 0"
| "new_threads (MAccess t a) = 0"
| "new_threads (MMalloc t sc p sz) = 0"
| "new_threads (MFree t p) = 0"

text \<open>Every operation is made by threads that exist when it is made.\<close>

fun ops_ok :: "nat \<Rightarrow> mem_op list \<Rightarrow> bool" where
  "ops_ok n [] = True"
| "ops_ok n (op # ops) = (op_ok n op \<and> ops_ok (n + new_threads op) ops)"

section \<open>The abstract machine\<close>

type_synonym view = "event set"

record hb_state =
  hb_threads :: nat
  hb_epoch :: "tid \<Rightarrow> nat"
  hb_cur :: "tid \<Rightarrow> view"
  hb_acq :: "tid \<Rightarrow> view"
  hb_rel :: "tid \<Rightarrow> view"
  hb_msg :: "addr \<Rightarrow> view"
  hb_freed :: "addr \<Rightarrow> view"
  hb_at :: "event \<Rightarrow> view"
  hb_log :: "addr \<Rightarrow> (event \<times> access_type) set"

definition hb_init :: hb_state where
  "hb_init = \<lparr>hb_threads = 1, hb_epoch = (\<lambda>_. 0), hb_cur = (\<lambda>_. {}), hb_acq = (\<lambda>_. {}),
     hb_rel = (\<lambda>_. {}), hb_msg = (\<lambda>_. {}), hb_freed = (\<lambda>_. {}), hb_at = (\<lambda>_. {}), hb_log = (\<lambda>_. {})\<rparr>"

definition hb_now :: "tid \<Rightarrow> hb_state \<Rightarrow> event" where
  "hb_now t h = (t, hb_epoch h t)"

definition hb_tick :: "tid \<Rightarrow> hb_state \<Rightarrow> hb_state" where
  "hb_tick t h =
     (let e = (t, hb_epoch h t + 1); v = insert e (hb_cur h t)
      in h\<lparr>hb_epoch := (hb_epoch h)(t := hb_epoch h t + 1), hb_cur := (hb_cur h)(t := v),
           hb_at := (hb_at h)(e := v)\<rparr>)"

definition hb_see :: "tid \<Rightarrow> view \<Rightarrow> hb_state \<Rightarrow> hb_state" where
  "hb_see t v h = h\<lparr>hb_cur := (hb_cur h)(t := hb_cur h t \<union> v)\<rparr>"

definition hb_read :: "tid \<Rightarrow> view \<Rightarrow> hb_state \<Rightarrow> hb_state" where
  "hb_read t v h = h\<lparr>hb_acq := (hb_acq h)(t := hb_acq h t \<union> v)\<rparr>"

definition hb_acquire :: "tid \<Rightarrow> hb_state \<Rightarrow> hb_state" where
  "hb_acquire t h = hb_see t (hb_acq h t) h"

definition hb_release :: "tid \<Rightarrow> hb_state \<Rightarrow> hb_state" where
  "hb_release t h = h\<lparr>hb_rel := (hb_rel h)(t := hb_cur h t)\<rparr>"

definition hb_write :: "addr \<Rightarrow> view \<Rightarrow> hb_state \<Rightarrow> hb_state" where
  "hb_write l v h = h\<lparr>hb_msg := (hb_msg h)(l := v)\<rparr>"

definition hb_give :: "addr \<Rightarrow> view \<Rightarrow> hb_state \<Rightarrow> hb_state" where
  "hb_give p v h = h\<lparr>hb_freed := (hb_freed h)(p := v)\<rparr>"

definition hb_record :: "tid \<Rightarrow> access \<Rightarrow> hb_state \<Rightarrow> hb_state" where
  "hb_record t a h =
     h\<lparr>hb_log := (hb_log h)(acc_loc a := insert (hb_now t h, acc_type a) (hb_log h (acc_loc a)))\<rparr>"

definition hb_fresh :: "tid \<Rightarrow> hb_state \<Rightarrow> hb_state" where
  "hb_fresh p h =
     (let c = hb_threads h + 1
      in h\<lparr>hb_threads := c, hb_epoch := (hb_epoch h)(c := 0), hb_cur := (hb_cur h)(c := hb_cur h p),
           hb_acq := (hb_acq h)(c := {}), hb_rel := (hb_rel h)(c := {})\<rparr>)"

definition hb_sync :: "tid \<Rightarrow> action \<Rightarrow> hb_state \<Rightarrow> hb_state" where
  "hb_sync t a h =
     (let l = act_loc a;
          rel = (\<lambda>h. if IsReleaseOrder (act_mo a) then hb_release t h else h);
          acq = (\<lambda>h. if IsAcquireOrder (act_mo a) then hb_acquire t h else h)
      in case act_type a of
           AtomicInit \<Rightarrow> hb_write l {} h
         | AtomicDestroy \<Rightarrow> h
         | AtomicDebugLoad \<Rightarrow> h
         | AtomicLoad \<Rightarrow> acq (hb_read t (hb_msg h l) h)
         | AtomicRmwLoad \<Rightarrow> acq (hb_read t (hb_msg h l) h)
         | AtomicStore \<Rightarrow> (let h1 = rel h in hb_write l (hb_rel h1 t) h1)
         | AtomicRmwCommit \<Rightarrow> (let h1 = rel h in hb_write l (hb_msg h1 l \<union> hb_rel h1 t) h1)
         | AtomicThreadFence \<Rightarrow> rel (acq h))"

primrec hb_step :: "mem_op \<Rightarrow> hb_state \<Rightarrow> hb_state" where
  "hb_step (MSpawn p) h = hb_tick (hb_threads h + 1) (hb_fresh p h)"
| "hb_step (MWake w v) h = hb_tick v (hb_see v (hb_rel h w) h)"
| "hb_step (MSync t a) h = hb_sync t a (hb_tick t h)"
| "hb_step (MAccess t a) h = hb_record t a (hb_tick t h)"
| "hb_step (MMalloc t sc p sz) h = hb_see t (hb_freed h p) h"
| "hb_step (MFree t p) h = hb_give p (hb_cur h t) h"

definition hb_run :: "mem_op list \<Rightarrow> hb_state" where
  "hb_run ops = fold hb_step ops hb_init"

text \<open>
  An access races with an earlier one of another thread on the same location when one of the two
  writes and the earlier one does not happen before it.
\<close>

definition hb_race :: "tid \<Rightarrow> access \<Rightarrow> hb_state \<Rightarrow> bool" where
  "hb_race t a h \<longleftrightarrow>
     (\<exists>(e, ty) \<in> hb_log h (acc_loc a). fst e \<noteq> t \<and> (IsWrite ty \<or> IsWrite (acc_type a)) \<and>
        e \<notin> hb_cur (hb_tick t h) t)"

section \<open>Views are closed under happens-before\<close>

definition hb_event :: "hb_state \<Rightarrow> event \<Rightarrow> bool" where
  "hb_event h e \<longleftrightarrow> 1 \<le> fst e \<and> fst e \<le> hb_threads h \<and> 1 \<le> snd e \<and> snd e \<le> hb_epoch h (fst e)"

definition view_ok :: "hb_state \<Rightarrow> view \<Rightarrow> bool" where
  "view_ok h v \<longleftrightarrow> (\<forall>e \<in> v. hb_event h e \<and> hb_at h e \<subseteq> v)"

definition hb_inv :: "hb_state \<Rightarrow> bool" where
  "hb_inv h \<longleftrightarrow>
     1 \<le> hb_threads h \<and>
     (\<forall>t. 1 \<le> t \<and> t \<le> hb_threads h \<longrightarrow>
        view_ok h (hb_cur h t) \<and> view_ok h (hb_acq h t) \<and> view_ok h (hb_rel h t) \<and>
        (\<forall>j. 1 \<le> j \<and> j \<le> hb_epoch h t \<longrightarrow> (t, j) \<in> hb_cur h t)) \<and>
     (\<forall>l. view_ok h (hb_msg h l) \<and> view_ok h (hb_freed h l)) \<and>
     (\<forall>e. hb_event h e \<longrightarrow> view_ok h (hb_at h e) \<and>
        (\<forall>j. 1 \<le> j \<and> j \<le> snd e \<longrightarrow> (fst e, j) \<in> hb_at h e)) \<and>
     (\<forall>l e ty. (e, ty) \<in> hb_log h l \<longrightarrow> hb_event h e)"

lemma hb_invD:
  assumes "hb_inv h"
  shows "1 \<le> hb_threads h"
    and "1 \<le> t \<Longrightarrow> t \<le> hb_threads h \<Longrightarrow> view_ok h (hb_cur h t)"
    and "1 \<le> t \<Longrightarrow> t \<le> hb_threads h \<Longrightarrow> view_ok h (hb_acq h t)"
    and "1 \<le> t \<Longrightarrow> t \<le> hb_threads h \<Longrightarrow> view_ok h (hb_rel h t)"
    and "1 \<le> t \<Longrightarrow> t \<le> hb_threads h \<Longrightarrow> 1 \<le> j \<Longrightarrow> j \<le> hb_epoch h t \<Longrightarrow> (t, j) \<in> hb_cur h t"
    and "view_ok h (hb_msg h l)" and "view_ok h (hb_freed h l)"
    and "hb_event h e \<Longrightarrow> view_ok h (hb_at h e)"
    and "hb_event h e \<Longrightarrow> 1 \<le> j \<Longrightarrow> j \<le> snd e \<Longrightarrow> (fst e, j) \<in> hb_at h e"
    and "(e, ty) \<in> hb_log h l \<Longrightarrow> hb_event h e"
  using assms unfolding hb_inv_def by blast+

lemma view_ok_empty [simp]: "view_ok h {}"
  by (simp add: view_ok_def)

lemma view_ok_Un [simp]: "view_ok h v \<Longrightarrow> view_ok h w \<Longrightarrow> view_ok h (v \<union> w)"
  by (auto simp: view_ok_def)

lemma hb_event_self: "hb_inv h \<Longrightarrow> hb_event h e \<Longrightarrow> e \<in> hb_at h e"
  using hb_invD(9) [of h e "snd e"] by (simp add: hb_event_def)

lemma hb_event_tick: "hb_event h e \<Longrightarrow> hb_event (hb_tick t h) e"
  by (auto simp: hb_event_def hb_tick_def Let_def)

lemma hb_tick_simps [simp]:
  "hb_threads (hb_tick t h) = hb_threads h"
  "hb_epoch (hb_tick t h) = (hb_epoch h)(t := hb_epoch h t + 1)"
  "hb_acq (hb_tick t h) = hb_acq h"
  "hb_rel (hb_tick t h) = hb_rel h"
  "hb_msg (hb_tick t h) = hb_msg h"
  "hb_freed (hb_tick t h) = hb_freed h"
  "hb_log (hb_tick t h) = hb_log h"
  "hb_cur (hb_tick t h) = (hb_cur h)(t := insert (t, hb_epoch h t + 1) (hb_cur h t))"
  "hb_at (hb_tick t h) =
     (hb_at h)((t, hb_epoch h t + 1) := insert (t, hb_epoch h t + 1) (hb_cur h t))"
  by (simp_all add: hb_tick_def Let_def)

lemma hb_event_new: "hb_event h e \<Longrightarrow> e \<noteq> (t, hb_epoch h t + 1)"
  by (auto simp: hb_event_def)

lemma view_ok_tick: "view_ok h v \<Longrightarrow> view_ok (hb_tick t h) v"
  by (auto simp: view_ok_def hb_event_tick dest: hb_event_new [where t = t] simp del: hb_tick_simps(8))

lemma view_ok_tick_new:
  assumes "hb_inv h" and "1 \<le> t" and "t \<le> hb_threads h"
  shows "view_ok (hb_tick t h) (insert (t, hb_epoch h t + 1) (hb_cur h t))"
proof -
  have "hb_event (hb_tick t h) (t, hb_epoch h t + 1)" using assms by (simp add: hb_event_def)
  moreover have "view_ok (hb_tick t h) (hb_cur h t)"
    using assms by (simp add: view_ok_tick hb_invD)
  moreover have "hb_at (hb_tick t h) (t, hb_epoch h t + 1) = insert (t, hb_epoch h t + 1) (hb_cur h t)"
    by simp
  ultimately show ?thesis unfolding view_ok_def by blast
qed

lemma hb_event_tickD: "hb_event (hb_tick t h) e \<Longrightarrow> e = (t, hb_epoch h t + 1) \<or> hb_event h e"
  by (cases e) (auto simp: hb_event_def split: if_splits)

lemma hb_inv_tick:
  assumes "hb_inv h" and "1 \<le> t" and "t \<le> hb_threads h"
  shows "hb_inv (hb_tick t h)"
proof -
  note D = hb_invD [OF assms(1)]
  have cur: "(t, j) \<in> insert (t, hb_epoch h t + 1) (hb_cur h t)" if "1 \<le> j" "j \<le> hb_epoch h t + 1" for j
    using D(5) [OF assms(2,3) that(1)] that(2) by (cases "j = hb_epoch h t + 1") auto
  have 1: "view_ok (hb_tick t h) (hb_cur (hb_tick t h) u) \<and> view_ok (hb_tick t h) (hb_acq h u) \<and>
     view_ok (hb_tick t h) (hb_rel h u)" if "1 \<le> u" "u \<le> hb_threads h" for u
    using view_ok_tick_new [OF assms] that by (auto simp: view_ok_tick D)
  have 2: "(u, j) \<in> hb_cur (hb_tick t h) u"
    if "1 \<le> u" "u \<le> hb_threads h" "1 \<le> j" "j \<le> hb_epoch (hb_tick t h) u" for u j
    using that cur D(5) by (cases "u = t") auto
  have 3: "view_ok (hb_tick t h) (hb_at (hb_tick t h) e) \<and>
     (\<forall>j. 1 \<le> j \<and> j \<le> snd e \<longrightarrow> (fst e, j) \<in> hb_at (hb_tick t h) e)"
    if "hb_event (hb_tick t h) e" for e
    using hb_event_tickD [OF that]
  proof
    assume "e = (t, hb_epoch h t + 1)"
    then show ?thesis using view_ok_tick_new [OF assms] cur by simp
  next
    assume "hb_event h e"
    then show ?thesis using hb_event_new [of h e t] by (simp add: view_ok_tick D)
  qed
  have "hb_event (hb_tick t h) e" if "(e, ty) \<in> hb_log h l" for e ty l
    using D(10) [OF that] by (rule hb_event_tick)
  then show ?thesis
    unfolding hb_inv_def using 1 2 3 D(1) by (auto simp: view_ok_tick D simp del: hb_tick_simps(8,9))
qed


text \<open>The other updates move views around without making events.\<close>

lemma same_events:
  assumes "hb_threads h' = hb_threads h" and "hb_epoch h' = hb_epoch h" and "hb_at h' = hb_at h"
  shows "hb_event h' = hb_event h" and "view_ok h' = view_ok h"
proof -
  show e: "hb_event h' = hb_event h" by (rule ext) (simp add: hb_event_def assms)
  show "view_ok h' = view_ok h" by (rule ext) (simp add: view_ok_def e assms)
qed

lemma update_simps [simp]:
  "view_ok (hb_see t v h) = view_ok h" "hb_event (hb_see t v h) = hb_event h"
  "view_ok (hb_read t v h) = view_ok h" "hb_event (hb_read t v h) = hb_event h"
  "view_ok (hb_acquire t h) = view_ok h" "hb_event (hb_acquire t h) = hb_event h"
  "view_ok (hb_release t h) = view_ok h" "hb_event (hb_release t h) = hb_event h"
  "view_ok (hb_write l v h) = view_ok h" "hb_event (hb_write l v h) = hb_event h"
  "view_ok (hb_give l v h) = view_ok h" "hb_event (hb_give l v h) = hb_event h"
  "view_ok (hb_record t a h) = view_ok h" "hb_event (hb_record t a h) = hb_event h"
  by (rule same_events; simp add: hb_see_def hb_read_def hb_acquire_def hb_release_def
      hb_write_def hb_give_def hb_record_def)+

lemma update_threads [simp]:
  "hb_threads (hb_see t v h) = hb_threads h"
  "hb_threads (hb_read t v h) = hb_threads h"
  "hb_threads (hb_acquire t h) = hb_threads h"
  "hb_threads (hb_release t h) = hb_threads h"
  "hb_threads (hb_write l v h) = hb_threads h"
  "hb_threads (hb_give l v h) = hb_threads h"
  "hb_threads (hb_record t a h) = hb_threads h"
  by (simp_all add: hb_see_def hb_read_def hb_acquire_def hb_release_def
      hb_write_def hb_give_def hb_record_def)

lemma hb_inv_updates:
  assumes "hb_inv h"
  shows "view_ok h v \<Longrightarrow> hb_inv (hb_see t v h)"
    and "view_ok h v \<Longrightarrow> hb_inv (hb_read t v h)"
    and "view_ok h v \<Longrightarrow> hb_inv (hb_write l v h)"
    and "view_ok h v \<Longrightarrow> hb_inv (hb_give l v h)"
    and "1 \<le> t \<Longrightarrow> t \<le> hb_threads h \<Longrightarrow> hb_inv (hb_release t h)"
    and "hb_event h (hb_now t h) \<Longrightarrow> hb_inv (hb_record t a h)"
proof -
  note D = hb_invD [OF assms]
  have one: "Suc 0 \<le> hb_threads h" using D(1) by simp
  show "view_ok h v \<Longrightarrow> hb_inv (hb_see t v h)"
    unfolding hb_inv_def update_simps by (auto simp: hb_see_def D one)
  show "view_ok h v \<Longrightarrow> hb_inv (hb_read t v h)"
    unfolding hb_inv_def update_simps by (auto simp: hb_read_def D one)
  show "view_ok h v \<Longrightarrow> hb_inv (hb_write l v h)"
    unfolding hb_inv_def update_simps by (auto simp: hb_write_def D one)
  show "view_ok h v \<Longrightarrow> hb_inv (hb_give l v h)"
    unfolding hb_inv_def update_simps by (auto simp: hb_give_def D one)
  show "1 \<le> t \<Longrightarrow> t \<le> hb_threads h \<Longrightarrow> hb_inv (hb_release t h)"
    unfolding hb_inv_def update_simps by (auto simp: hb_release_def D one)
  show "hb_event h (hb_now t h) \<Longrightarrow> hb_inv (hb_record t a h)"
    unfolding hb_inv_def update_simps by (auto simp: hb_record_def D one split: if_splits)
qed

lemma hb_inv_acquire: "hb_inv h \<Longrightarrow> 1 \<le> t \<Longrightarrow> t \<le> hb_threads h \<Longrightarrow> hb_inv (hb_acquire t h)"
  by (simp add: hb_acquire_def hb_inv_updates hb_invD)

lemma hb_event_fresh: "hb_event (hb_fresh p h) e \<longleftrightarrow> hb_event h e"
  by (auto simp: hb_event_def hb_fresh_def Let_def)

lemma hb_inv_fresh:
  assumes "hb_inv h" and "1 \<le> p" and "p \<le> hb_threads h"
  shows "hb_inv (hb_fresh p h)"
proof -
  note D = hb_invD [OF assms(1)]
  have v: "view_ok (hb_fresh p h) = view_ok h"
    by (rule ext) (simp add: view_ok_def hb_event_fresh, simp add: hb_fresh_def Let_def)
  show ?thesis
    unfolding hb_inv_def hb_event_fresh v using assms(2,3)
    by (auto simp: hb_fresh_def Let_def D)
qed

lemma hb_inv_sync:
  assumes "hb_inv h" and "1 \<le> t" and "t \<le> hb_threads h"
  shows "hb_inv (hb_sync t a h)"
proof -
  have rd: "hb_inv (hb_read t (hb_msg h l) h)" for l
    using assms by (simp add: hb_inv_updates hb_invD)
  have aq: "hb_inv (hb_acquire t (hb_read t (hb_msg h l) h))" for l
    using rd assms by (simp add: hb_inv_acquire)
  have rl: "hb_inv (hb_release t h)" "hb_inv (hb_release t (hb_acquire t h))"
    using assms by (simp_all add: hb_inv_updates hb_inv_acquire)
  have w: "hb_inv (hb_write l (hb_rel h' t) h')" "hb_inv (hb_write l (hb_msg h' l \<union> hb_rel h' t) h')"
    if "hb_inv h'" "hb_threads h' = hb_threads h" for h' l
    using hb_inv_updates(3) [OF that(1)] hb_invD [OF that(1)] that assms by simp_all
  show ?thesis
    using assms rd aq rl w [OF assms(1)] w [OF rl(1)]
    by (cases "act_type a"; simp add: hb_sync_def Let_def hb_inv_acquire hb_inv_updates)
qed

lemma hb_inv_step:
  assumes "hb_inv h" and "op_ok (hb_threads h) op"
  shows "hb_inv (hb_step op h)" and "hb_threads (hb_step op h) = hb_threads h + new_threads op"
proof -
  note D = hb_invD [OF assms(1)]
  show "hb_inv (hb_step op h)"
  proof (cases op)
    case (MSpawn p)
    then show ?thesis using assms hb_inv_fresh [OF assms(1), of p]
      by (simp add: hb_inv_tick hb_fresh_def Let_def)
  next
    case (MWake w v)
    then show ?thesis using assms D
      by (simp add: hb_inv_tick hb_inv_updates)
  next
    case (MSync t a)
    then show ?thesis using assms by (simp add: hb_inv_sync hb_inv_tick)
  next
    case (MAccess t a)
    then have i: "hb_inv (hb_tick t h)" using assms by (simp add: hb_inv_tick)
    have "hb_event (hb_tick t h) (hb_now t (hb_tick t h))"
      using MAccess assms by (simp add: hb_event_def hb_now_def)
    with i show ?thesis using MAccess by (simp add: hb_inv_updates)
  next
    case (MMalloc t sc p sz)
    then show ?thesis using assms D by (simp add: hb_inv_updates)
  next
    case (MFree t p)
    then show ?thesis using assms D by (simp add: hb_inv_updates)
  qed
  show "hb_threads (hb_step op h) = hb_threads h + new_threads op"
    by (cases op) (auto simp: hb_fresh_def hb_sync_def Let_def split: action_type.split)
qed

lemma hb_inv_init: "hb_inv hb_init"
  by (simp add: hb_inv_def hb_init_def hb_event_def)

lemma hb_inv_fold:
  "hb_inv h \<Longrightarrow> ops_ok (hb_threads h) ops \<Longrightarrow> hb_inv (fold hb_step ops h)"
  by (induction ops arbitrary: h) (simp_all add: hb_inv_step)

lemma hb_inv_run: "ops_ok 1 ops \<Longrightarrow> hb_inv (hb_run ops)"
  unfolding hb_run_def by (rule hb_inv_fold [OF hb_inv_init]) (simp add: hb_init_def)


section \<open>Happens-before is an order\<close>

definition hb_antisym :: "hb_state \<Rightarrow> bool" where
  "hb_antisym h \<longleftrightarrow>
     (\<forall>e e'. hb_event h e \<longrightarrow> hb_event h e' \<longrightarrow> e \<in> hb_at h e' \<longrightarrow> e' \<in> hb_at h e \<longrightarrow> e = e')"

lemma hb_antisym_tick:
  assumes "hb_antisym h" and "hb_inv h"
  shows "hb_antisym (hb_tick t h)"
  unfolding hb_antisym_def
proof (intro allI impI)
  let ?new = "(t, hb_epoch h t + 1)"
  have old: "?new \<notin> hb_at (hb_tick t h) e" if "hb_event h e" for e
    using hb_invD(8) [OF assms(2) that] hb_event_new [OF that, of t] hb_event_new [of h ?new t]
    by (auto simp: view_ok_def)
  fix e e'
  assume "hb_event (hb_tick t h) e" "hb_event (hb_tick t h) e'"
    and m: "e \<in> hb_at (hb_tick t h) e'" "e' \<in> hb_at (hb_tick t h) e"
  then consider "e = ?new" "e' = ?new" | "hb_event h e" "hb_event h e'"
    using hb_event_tickD old by metis
  then show "e = e'"
  proof cases
    case 2
    then have "e \<in> hb_at h e'" "e' \<in> hb_at h e"
      using m hb_event_new [of h e t] hb_event_new [of h e' t] by simp_all
    with 2 show ?thesis using assms(1) unfolding hb_antisym_def by blast
  qed simp
qed

lemma hb_antisym_same:
  "hb_antisym h \<Longrightarrow> hb_event h' = hb_event h \<Longrightarrow> hb_at h' = hb_at h \<Longrightarrow> hb_antisym h'"
  by (simp add: hb_antisym_def)

lemma hb_at_updates [simp]:
  "hb_at (hb_see t v h) = hb_at h" "hb_at (hb_record t a h) = hb_at h"
  "hb_at (hb_give p v h) = hb_at h" "hb_at (hb_fresh t h) = hb_at h"
  "hb_at (hb_sync t act h) = hb_at h"
  by (simp_all add: hb_see_def hb_record_def hb_give_def hb_fresh_def hb_sync_def hb_write_def
      hb_read_def hb_acquire_def hb_release_def Let_def split: action_type.split)

lemma hb_event_sync: "hb_event (hb_sync t a h) = hb_event h"
  by (rule same_events; simp add: hb_sync_def hb_see_def hb_write_def
      hb_read_def hb_acquire_def hb_release_def Let_def split: action_type.split)

lemma hb_antisym_step:
  assumes "hb_antisym h" and "hb_inv h" and "op_ok (hb_threads h) op"
  shows "hb_antisym (hb_step op h)"
proof (cases op)
  case (MSpawn p)
  have "hb_antisym (hb_fresh p h)"
    by (rule hb_antisym_same [OF assms(1)]) (auto simp: hb_event_fresh)
  then show ?thesis using MSpawn assms hb_inv_fresh [OF assms(2)] by (simp add: hb_antisym_tick)
next
  case (MWake w v)
  have "hb_antisym (hb_see v (hb_rel h w) h)" by (rule hb_antisym_same [OF assms(1)]) simp_all
  then show ?thesis using MWake assms by (simp add: hb_antisym_tick hb_inv_updates hb_invD)
next
  case (MSync t a)
  then show ?thesis using hb_antisym_same [OF hb_antisym_tick [OF assms(1,2)]]
    by (simp add: hb_event_sync)
next
  case (MAccess t a)
  then show ?thesis using hb_antisym_same [OF hb_antisym_tick [OF assms(1,2)]] by simp
next
  case (MMalloc t sc p sz)
  then show ?thesis using hb_antisym_same [OF assms(1)] by simp
next
  case (MFree t p)
  then show ?thesis using hb_antisym_same [OF assms(1)] by simp
qed

lemma hb_antisym_fold:
  "hb_antisym h \<Longrightarrow> hb_inv h \<Longrightarrow> ops_ok (hb_threads h) ops \<Longrightarrow> hb_antisym (fold hb_step ops h)"
  by (induction ops arbitrary: h) (simp_all add: hb_antisym_step hb_inv_step)

lemma hb_antisym_init: "hb_antisym hb_init"
  by (simp add: hb_antisym_def hb_init_def hb_event_def)

lemma hb_threads_init: "hb_threads hb_init = 1"
  by (simp add: hb_init_def)

lemma hb_antisym_run: "ops_ok 1 ops \<Longrightarrow> hb_antisym (hb_run ops)"
  unfolding hb_run_def by (rule hb_antisym_fold [OF hb_antisym_init hb_inv_init]) (simp add: hb_threads_init)



end
