(* ===== verification/Race_Detector.thy ===== *)
theory Race_Detector
  imports Prelude Sim_Types Vector_Clock Memory_Model Happens_Before
begin

text \<open>
  The memory model of the code, with its clocks and its last accesses, implements the sets of
  events of \<open>Happens_Before\<close>: a simulation, and from it the precision of the race detector.
\<close>

section \<open>The memory model run on a sequence of operations\<close>

text \<open>
  What the simulator does around the memory model: \<open>_SysSpawn\<close> with \<open>CreateThread\<close>, \<open>Wake\<close>,
  \<open>Sync\<close>, \<open>_SysAccessNonAtomicVar\<close>, \<open>_SysMalloc\<close>, \<open>_SysFree\<close>. The identifiers are handed out in
  order, so the new thread's is the new number of threads. A race aborts the iteration.
\<close>

record sync_sys =
  sy_threads :: nat
  sy_ctx :: "tid \<Rightarrow> sync_context"
  sy_mem :: memory_model

definition zero_context :: sync_context where
  "zero_context = \<lparr>current = clock_Init, acquire_clock = clock_Init, release_clock = clock_Init, epoch = 0\<rparr>"

definition sync_init :: sync_sys where
  "sync_init = \<lparr>sy_threads = 1, sy_ctx = (\<lambda>_. zero_context),
     sy_mem = \<lparr>atomics = Map.empty, non_atomics = Map.empty, allocs = Map.empty\<rparr>\<rparr>"

definition put_ctx :: "tid \<Rightarrow> sync_context \<Rightarrow> sync_sys \<Rightarrow> sync_sys" where
  "put_ctx t c s = s\<lparr>sy_ctx := (sy_ctx s)(t := c)\<rparr>"

definition sys_spawn :: "tid \<Rightarrow> sync_sys \<Rightarrow> fault + sync_sys" where
  "sys_spawn p s =
     (let n = sy_threads s + 1
      in if \<not> sy_threads s < kMaxThreads then Inl (Panic ''Too many threads'')
         else bindE (mm_Spawn n (sy_ctx s p) n zero_context)
                (\<lambda>c. Inr (put_ctx n c (s\<lparr>sy_threads := n\<rparr>))))"

definition sys_wake :: "tid \<Rightarrow> tid \<Rightarrow> sync_sys \<Rightarrow> fault + sync_sys" where
  "sys_wake w v s =
     bindE (mm_Wake (sy_threads s) (sy_ctx s w) v (sy_ctx s v)) (\<lambda>c. Inr (put_ctx v c s))"

definition sys_sync :: "tid \<Rightarrow> action \<Rightarrow> sync_sys \<Rightarrow> fault + u64 \<times> sync_sys" where
  "sys_sync t a s =
     bindE (Sync (sy_threads s) t (sy_ctx s t) a (sy_mem s))
       (\<lambda>(v, c, m, a1). Inr (v, put_ctx t c (s\<lparr>sy_mem := m\<rparr>)))"

definition sys_access :: "tid \<Rightarrow> access \<Rightarrow> sync_sys \<Rightarrow> fault + old_access option \<times> sync_sys" where
  "sys_access t a s =
     bindE (AccessNonAtomicVar (sy_threads s) t (sy_ctx s t) a (sy_mem s))
       (\<lambda>(race, c, a1, m). Inr (race, put_ctx t c (s\<lparr>sy_mem := m\<rparr>)))"

definition sys_malloc :: "tid \<Rightarrow> scope option \<Rightarrow> addr \<Rightarrow> nat \<Rightarrow> sync_sys \<Rightarrow> sync_sys" where
  "sys_malloc t sc p sz s =
     (let (c, m) = Malloc (sy_threads s) t sc (sy_ctx s t) p sz (sy_mem s)
      in put_ctx t c (s\<lparr>sy_mem := m\<rparr>))"

definition sys_free :: "tid \<Rightarrow> addr \<Rightarrow> sync_sys \<Rightarrow> sync_sys" where
  "sys_free t p s = s\<lparr>sy_mem := Free (sy_threads s) (sy_ctx s t) p (sy_mem s)\<rparr>"

primrec mem_step :: "mem_op \<Rightarrow> sync_sys \<Rightarrow> fault + sync_sys" where
  "mem_step (MSpawn p) s = sys_spawn p s"
| "mem_step (MWake w v) s = sys_wake w v s"
| "mem_step (MSync t a) s = bindE (sys_sync t a s) (\<lambda>(v, s1). Inr s1)"
| "mem_step (MAccess t a) s =
     bindE (sys_access t a s) (\<lambda>(race, s1).
       if race = None then Inr s1 else Inl (SysAbortEx DataRace))"
| "mem_step (MMalloc t sc p sz) s = Inr (sys_malloc t sc p sz s)"
| "mem_step (MFree t p) s = Inr (sys_free t p s)"

fun mem_run :: "mem_op list \<Rightarrow> sync_sys \<Rightarrow> fault + sync_sys" where
  "mem_run [] s = Inr s"
| "mem_run (op # ops) s = bindE (mem_step op s) (mem_run ops)"

section \<open>The simulation relation\<close>

definition clock_rel :: "nat \<Rightarrow> clock \<Rightarrow> view \<Rightarrow> bool" where
  "clock_rel n v V \<longleftrightarrow> bounded n v \<and> events v = V"

definition ctx_rel :: "nat \<Rightarrow> hb_state \<Rightarrow> tid \<Rightarrow> sync_context \<Rightarrow> bool" where
  "ctx_rel n h t c \<longleftrightarrow>
     clock_rel n (current c) (hb_cur h t) \<and> clock_rel n (acquire_clock c) (hb_acq h t) \<and>
     clock_rel n (release_clock c) (hb_rel h t) \<and> epoch c = hb_epoch h t \<and>
     Get (current c) t = hb_epoch h t"

definition access_event :: "old_access \<Rightarrow> event" where
  "access_event w = (old_thread w, old_epoch w)"

definition var_rel :: "hb_state \<Rightarrow> non_atomic_var \<Rightarrow> (event \<times> access_type) set \<Rightarrow> bool" where
  "var_rel h v L \<longleftrightarrow>
     (\<forall>w. last_write v = Some w \<longrightarrow> (access_event w, old_type w) \<in> L \<and> IsWrite (old_type w)) \<and>
     (\<forall>i r. last_read v i = Some r \<longrightarrow>
        old_thread r = i \<and> (access_event r, old_type r) \<in> L \<and> IsRead (old_type r)) \<and>
     (\<forall>(e, ty) \<in> L. (\<exists>w. last_write v = Some w \<and> e \<in> hb_at h (access_event w)) \<or>
        IsRead ty \<and> (\<exists>r. last_read v (fst e) = Some r \<and> snd e \<le> old_epoch r))"

definition mem_rel :: "nat \<Rightarrow> hb_state \<Rightarrow> memory_model \<Rightarrow> bool" where
  "mem_rel n h m \<longleftrightarrow>
     (\<forall>l v. atomics m l = Some v \<longrightarrow> clock_rel n (store_clock (last_store v)) (hb_msg h l)) \<and>
     (\<forall>p al. allocs m p = Some al \<longrightarrow> clock_rel n (al_free al) (hb_freed h p)) \<and>
     (\<forall>p. allocs m p = None \<longrightarrow> hb_freed h p = {}) \<and>
     (\<forall>l v. non_atomics m l = Some v \<longrightarrow> var_rel h v (hb_log h l)) \<and>
     (\<forall>l. non_atomics m l = None \<longrightarrow> hb_log h l = {})"

definition sync_rel :: "sync_sys \<Rightarrow> hb_state \<Rightarrow> bool" where
  "sync_rel s h \<longleftrightarrow>
     sy_threads s = hb_threads h \<and> sy_threads s \<le> kMaxThreads \<and>
     (\<forall>t. 1 \<le> t \<and> t \<le> sy_threads s \<longrightarrow> ctx_rel (sy_threads s) h t (sy_ctx s t)) \<and>
     mem_rel (sy_threads s) h (sy_mem s)"

lemma clock_rel_Init [simp]: "clock_rel n clock_Init {}"
  by (simp add: clock_rel_def)

lemma clock_rel_Join: "clock_rel n v V \<Longrightarrow> clock_rel n w W \<Longrightarrow> clock_rel n (Join n v w) (V \<union> W)"
  by (simp add: clock_rel_def)

lemma clock_rel_Assign: "clock_rel n v V \<Longrightarrow> clock_rel n w W \<Longrightarrow> clock_rel n (Assign n v w) W"
  by (simp add: clock_rel_def)

lemma clock_rel_mono: "clock_rel n v V \<Longrightarrow> n \<le> m \<Longrightarrow> clock_rel m v V"
  unfolding clock_rel_def by (blast intro: bounded_mono)

lemma ctx_rel_mono: "ctx_rel n h t c \<Longrightarrow> n \<le> m \<Longrightarrow> ctx_rel m h t c"
  unfolding ctx_rel_def by (blast intro: clock_rel_mono)

lemma mem_rel_mono: "mem_rel n h m \<Longrightarrow> n \<le> k \<Longrightarrow> mem_rel k h m"
  unfolding mem_rel_def by (blast intro: clock_rel_mono)

text \<open>A step of one thread leaves the views of the others alone.\<close>

definition frame :: "tid \<Rightarrow> hb_state \<Rightarrow> hb_state \<Rightarrow> bool" where
  "frame t h h' \<longleftrightarrow> hb_threads h' = hb_threads h \<and>
     (\<forall>u. u \<noteq> t \<longrightarrow> hb_cur h' u = hb_cur h u \<and> hb_acq h' u = hb_acq h u \<and>
        hb_rel h' u = hb_rel h u \<and> hb_epoch h' u = hb_epoch h u)"

definition local_rel :: "nat \<Rightarrow> tid \<Rightarrow> sync_context \<Rightarrow> memory_model \<Rightarrow> hb_state \<Rightarrow> bool" where
  "local_rel n t c m h \<longleftrightarrow> ctx_rel n h t c \<and> mem_rel n h m"

lemma frame_refl [simp]: "frame t h h"
  by (simp add: frame_def)

lemma frame_trans: "frame t h h' \<Longrightarrow> frame t h' h'' \<Longrightarrow> frame t h h''"
  by (simp add: frame_def)

lemma frame_updates [simp]:
  "frame t h (hb_tick t h)" "frame t h (hb_see t v h)" "frame t h (hb_read t v h)"
  "frame t h (hb_acquire t h)" "frame t h (hb_release t h)" "frame t h (hb_write l v h)"
  "frame t h (hb_give l v h)" "frame t h (hb_record u a h)"
  by (simp_all add: frame_def hb_see_def hb_read_def hb_acquire_def hb_release_def
      hb_write_def hb_give_def hb_record_def)

lemma sync_rel_local:
  assumes "sync_rel s h" and "frame t h h'" and "local_rel (sy_threads s) t c m h'"
  shows "sync_rel (put_ctx t c (s\<lparr>sy_mem := m\<rparr>)) h'"
  using assms unfolding sync_rel_def local_rel_def frame_def ctx_rel_def
  by (auto simp: put_ctx_def)

lemma sync_relD:
  assumes "sync_rel s h"
  shows "sy_threads s = hb_threads h" and "sy_threads s \<le> kMaxThreads"
    and "1 \<le> t \<Longrightarrow> t \<le> hb_threads h \<Longrightarrow> ctx_rel (hb_threads h) h t (sy_ctx s t)"
    and "mem_rel (hb_threads h) h (sy_mem s)"
  using assms by (auto simp: sync_rel_def)

section \<open>Views\<close>

lemma mem_rel_views:
  assumes "hb_msg h' = hb_msg h" and "hb_freed h' = hb_freed h" and "hb_at h' = hb_at h"
    and "hb_log h' = hb_log h"
  shows "mem_rel n h' = mem_rel n h"
  using assms by (intro ext) (simp add: mem_rel_def var_rel_def)

lemma mem_rel_updates [simp]:
  "mem_rel n (hb_see t v h) = mem_rel n h" "mem_rel n (hb_read t v h) = mem_rel n h"
  "mem_rel n (hb_acquire t h) = mem_rel n h" "mem_rel n (hb_release t h) = mem_rel n h"
  by (rule mem_rel_views; simp add: hb_see_def hb_read_def hb_acquire_def hb_release_def)+

lemma ctx_rel_see:
  "ctx_rel n h t c \<Longrightarrow> clock_rel n w V \<Longrightarrow> Get w t \<le> hb_epoch h t \<Longrightarrow> 1 \<le> t \<Longrightarrow> t \<le> n \<Longrightarrow>
     ctx_rel n (hb_see t V h) t (c\<lparr>current := Join n (current c) w\<rparr>)"
  by (simp add: ctx_rel_def hb_see_def clock_rel_Join Get_Join)

lemma ctx_rel_read:
  "ctx_rel n h t c \<Longrightarrow> clock_rel n w V \<Longrightarrow>
     ctx_rel n (hb_read t V h) t (c\<lparr>acquire_clock := Join n (acquire_clock c) w\<rparr>)"
  by (simp add: ctx_rel_def hb_read_def clock_rel_Join)

lemma ctx_rel_release: "ctx_rel n h t c \<Longrightarrow> ctx_rel n (hb_release t h) t (AtomicThreadFenceRelease n c)"
  unfolding ctx_rel_def AtomicThreadFenceRelease_def hb_release_def by (auto intro: clock_rel_Assign)

text \<open>No view knows an event of a thread that has not happened yet.\<close>

lemma view_Get:
  assumes "clock_rel n w V" and "view_ok h V" and "1 \<le> t"
  shows "Get w t \<le> hb_epoch h t"
proof (cases "Get w t")
  case (Suc k)
  then have "(t, Get w t) \<in> V" using assms(1,3) by (auto simp: clock_rel_def mem_events)
  then show ?thesis using assms(2) by (auto simp: view_ok_def hb_event_def)
qed simp

lemma ctx_rel_acquire:
  assumes "ctx_rel n h t c" and "hb_inv h" and "1 \<le> t" and "t \<le> n" and "n = hb_threads h"
  shows "ctx_rel n (hb_acquire t h) t (AtomicThreadFenceAcquire n c)"
proof -
  have "clock_rel n (acquire_clock c) (hb_acq h t)" using assms(1) by (simp add: ctx_rel_def)
  moreover have "view_ok h (hb_acq h t)" using assms by (simp add: hb_invD)
  ultimately show ?thesis
    unfolding hb_acquire_def AtomicThreadFenceAcquire_def
    using assms by (intro ctx_rel_see) (auto intro: view_Get)
qed


section \<open>The steps of the simulation\<close>

lemma var_rel_tick:
  assumes "var_rel h v L" and "\<And>e ty. (e, ty) \<in> L \<Longrightarrow> hb_event h e"
  shows "var_rel (hb_tick t h) v L"
proof -
  have "hb_at (hb_tick t h) (access_event w) = hb_at h (access_event w)" if "last_write v = Some w" for w
    using assms that hb_event_new [of h "access_event w" t] by (auto simp: var_rel_def)
  then show ?thesis using assms(1) unfolding var_rel_def by (auto simp del: hb_tick_simps(9))
qed

lemma mem_rel_tick: "mem_rel n h m \<Longrightarrow> hb_inv h \<Longrightarrow> mem_rel n (hb_tick t h) m"
  unfolding mem_rel_def by (auto intro!: var_rel_tick simp: hb_invD)

lemma tick_rel:
  assumes "ctx_rel n h t c" and "mem_rel n h m" and "hb_inv h" and "1 \<le> t" and "t \<le> n"
    and "hb_epoch h t + 1 < 2 ^ 32"
  obtains c' where "mm_Tick n t c = Inr c'" and "local_rel n t c' m (hb_tick t h)"
proof -
  have g: "Get (current c) t = hb_epoch h t" "epoch c = hb_epoch h t" "clock_rel n (current c) (hb_cur h t)"
    using assms(1) by (simp_all add: ctx_rel_def)
  obtain v where v: "clock_Tick n t (current c) = Inr v" "Get v t = hb_epoch h t + 1"
      "events v = insert (t, hb_epoch h t + 1) (events (current c))" "bounded n (current c) \<Longrightarrow> bounded n v"
    using clock_Tick_ok [OF assms(4,5), of "current c"] assms(6) g(1) by auto
  let ?c = "c\<lparr>current := v, epoch := hb_epoch h t + 1\<rparr>"
  have "mm_Tick n t c = Inr ?c" using v(1) g(2) assms(6) by (simp add: mm_Tick_def)
  moreover have "ctx_rel n (hb_tick t h) t ?c"
    using assms(1) v g(3) by (simp add: ctx_rel_def clock_rel_def)
  ultimately show thesis using that [of ?c] mem_rel_tick [OF assms(2,3)] by (simp add: local_rel_def)
qed

text \<open>Atomics.\<close>

lemma mem_rel_put_atomic:
  assumes "mem_rel n h m" and "clock_rel n (store_clock (last_store v)) V"
  shows "mem_rel n (hb_write l V h) (put_atomic l v m)"
  using assms unfolding mem_rel_def put_atomic_def hb_write_def var_rel_def by auto

lemma mem_rel_same_clock:
  assumes "mem_rel n h m" and "clock_rel n (store_clock (last_store v)) (hb_msg h l)"
  shows "mem_rel n h (put_atomic l v m)"
  using assms unfolding mem_rel_def put_atomic_def by auto

lemma ctx_rel_write [simp]: "ctx_rel n (hb_write l V h) t c = ctx_rel n h t c"
  by (simp add: ctx_rel_def hb_write_def)

lemma GetShadow_clock:
  assumes "mem_rel n h m" and "GetShadowAtomicVar a m = Inr v"
  shows "clock_rel n (store_clock (last_store v)) (hb_msg h (act_loc a))" and "atomics m (act_loc a) = Some v"
proof -
  show "atomics m (act_loc a) = Some v"
    using assms(2) by (auto simp: GetShadowAtomicVar_def TryGetShadowAtomicVar_def UnknownAtomicVarAccess_def
        DeadAtomicVarAccess_def InvalidAccess_def split: option.splits if_splits)
  then show "clock_rel n (store_clock (last_store v)) (hb_msg h (act_loc a))"
    using assms(1) by (simp add: mem_rel_def)
qed

lemma load_rel:
  assumes "local_rel n t c m h" and "hb_inv h" and "1 \<le> t" and "t \<le> n" and "n = hb_threads h"
    and "clock_rel n (store_clock (last_store v)) (hb_msg h l)"
    and "c' = (if b then AtomicThreadFenceAcquire n (snd (AtomicLoadRelaxed n v c))
               else snd (AtomicLoadRelaxed n v c))"
  shows "local_rel n t c' m (if b then hb_acquire t (hb_read t (hb_msg h l) h) else hb_read t (hb_msg h l) h)"
proof -
  let ?h = "hb_read t (hb_msg h l) h"
  have r: "ctx_rel n ?h t (snd (AtomicLoadRelaxed n v c))"
    using ctx_rel_read [OF _ assms(6)] assms(1) by (simp add: local_rel_def AtomicLoadRelaxed_def)
  have i: "hb_inv ?h" using assms(2) by (simp add: hb_inv_updates hb_invD)
  show ?thesis
    using r ctx_rel_acquire [OF r i assms(3,4)] assms(1,5,7) by (simp add: local_rel_def)
qed

lemma release_rel:
  assumes "local_rel n t c m h"
  shows "local_rel n t (if b then AtomicThreadFenceRelease n c else c) m (if b then hb_release t h else h)"
  using assms by (simp add: local_rel_def ctx_rel_release)

lemma store_rel:
  assumes "local_rel n t c m h" and "clock_rel n (store_clock (last_store v)) (hb_msg h l)"
  shows "local_rel n t c (put_atomic l (AtomicStoreRelaxed n x c v) m) (hb_write l (hb_rel h t) h)"
    and "local_rel n t c (put_atomic l (AtomicRmwCommitRelaxed n x c v) m)
           (hb_write l (hb_msg h l \<union> hb_rel h t) h)"
proof -
  have c: "clock_rel n (release_clock c) (hb_rel h t)" "ctx_rel n h t c" "mem_rel n h m"
    using assms(1) by (simp_all add: local_rel_def ctx_rel_def)
  show "local_rel n t c (put_atomic l (AtomicStoreRelaxed n x c v) m) (hb_write l (hb_rel h t) h)"
    using c assms(2) by (simp add: local_rel_def AtomicStoreRelaxed_def mem_rel_put_atomic clock_rel_Assign)
  show "local_rel n t c (put_atomic l (AtomicRmwCommitRelaxed n x c v) m)
      (hb_write l (hb_msg h l \<union> hb_rel h t) h)"
    using c assms(2) by (simp add: local_rel_def AtomicRmwCommitRelaxed_def mem_rel_put_atomic clock_rel_Join)
qed

lemma load_results:
  "mm_AtomicLoad n c a m = Inr (r, c') \<Longrightarrow> \<exists>v. GetShadowAtomicVar a m = Inr v \<and>
     c' = (if IsAcquireOrder (act_mo a) then AtomicThreadFenceAcquire n (snd (AtomicLoadRelaxed n v c))
           else snd (AtomicLoadRelaxed n v c))"
  "mm_AtomicRmwLoad n c a m = Inr (r, c') \<Longrightarrow> \<exists>v. GetShadowAtomicVar a m = Inr v \<and>
     c' = (if IsAcquireOrder (act_mo a) then AtomicThreadFenceAcquire n (snd (AtomicLoadRelaxed n v c))
           else snd (AtomicLoadRelaxed n v c))"
  by (auto simp: mm_AtomicLoad_def mm_AtomicRmwLoad_def AtomicLoadRelaxed_def bindE_eq_Inr Let_def)

lemma hb_msg_acq [simp]: "hb_msg (hb_release t h) = hb_msg h"
  by (simp add: hb_release_def)

lemma Sync_rel:
  assumes "ctx_rel n h t c0" and "mem_rel n h m" and "hb_inv h" and "1 \<le> t" and "t \<le> n"
    and "n = hb_threads h" and "hb_epoch h t + 1 < 2 ^ 32"
    and ok: "Sync n t c0 a m = Inr (r, c', m', a')"
  shows "local_rel n t c' m' (hb_sync t a (hb_tick t h))"
proof -
  obtain c where c: "mm_Tick n t c0 = Inr c" and L: "local_rel n t c m (hb_tick t h)"
    by (rule tick_rel [OF assms(1-5,7)])
  let ?h = "hb_tick t h"
  have i: "hb_inv ?h" using assms by (simp add: hb_inv_tick)
  have n: "n = hb_threads ?h" using assms(6) by simp
  have M: "mem_rel n ?h m" "ctx_rel n ?h t c" using L by (simp_all add: local_rel_def)
  note load = load_rel [OF L i assms(4,5) n]
  note G = GetShadow_clock [OF M(1)]
  note ok' = ok [unfolded Sync_def c bindE_simps]
  show ?thesis
  proof (cases "act_type a")
    case AtomicInit
    then show ?thesis using ok' M
      by (auto simp: hb_sync_def mm_AtomicInit_def Let_def local_rel_def intro!: mem_rel_put_atomic)
  next
    case AtomicLoad
    then have "mm_AtomicLoad n c a m = Inr (r, c')" and m: "m' = m" using ok' by (auto simp: bindE_eq_Inr)
    from load_results(1) [OF this(1)] m obtain v where v: "GetShadowAtomicVar a m = Inr v" "m' = m"
      "c' = (if IsAcquireOrder (act_mo a) then AtomicThreadFenceAcquire n (snd (AtomicLoadRelaxed n v c))
             else snd (AtomicLoadRelaxed n v c))"
      by blast
    show ?thesis using load [OF G(1) [OF v(1)] v(3)] v(2) AtomicLoad
      by (simp add: hb_sync_def Let_def split: if_splits)
  next
    case AtomicRmwLoad
    then have "mm_AtomicRmwLoad n c a m = Inr (r, c')" and m: "m' = m" using ok' by (auto simp: bindE_eq_Inr)
    from load_results(2) [OF this(1)] m obtain v where v: "GetShadowAtomicVar a m = Inr v" "m' = m"
      "c' = (if IsAcquireOrder (act_mo a) then AtomicThreadFenceAcquire n (snd (AtomicLoadRelaxed n v c))
             else snd (AtomicLoadRelaxed n v c))"
      by blast
    show ?thesis using load [OF G(1) [OF v(1)] v(3)] v(2) AtomicRmwLoad
      by (simp add: hb_sync_def Let_def split: if_splits)
  next
    case AtomicDebugLoad
    then show ?thesis using ok' L by (auto simp: hb_sync_def bindE_eq_Inr)
  next
    case AtomicStore
    let ?c = "if IsReleaseOrder (act_mo a) then AtomicThreadFenceRelease n c else c"
    let ?h1 = "if IsReleaseOrder (act_mo a) then hb_release t ?h else ?h"
    obtain v where v: "GetShadowAtomicVar a m = Inr v" "c' = ?c"
      "m' = put_atomic (act_loc a) (AtomicStoreRelaxed n (act_value a) ?c v) m"
      using ok' AtomicStore by (auto simp: mm_AtomicStore_def bindE_eq_Inr Let_def)
    have "hb_msg ?h1 = hb_msg ?h" by simp
    then have "clock_rel n (store_clock (last_store v)) (hb_msg ?h1 (act_loc a))" using G(1) [OF v(1)] by simp
    then show ?thesis using store_rel(1) [OF release_rel [OF L]] v(2,3) AtomicStore
      by (simp add: hb_sync_def Let_def)
  next
    case AtomicRmwCommit
    let ?c = "if IsReleaseOrder (act_mo a) then AtomicThreadFenceRelease n c else c"
    let ?h1 = "if IsReleaseOrder (act_mo a) then hb_release t ?h else ?h"
    obtain v where v: "GetShadowAtomicVar a m = Inr v" "c' = ?c"
      "m' = put_atomic (act_loc a) (AtomicRmwCommitRelaxed n (act_value a) ?c v) m"
      using ok' AtomicRmwCommit by (auto simp: mm_AtomicRmwCommit_def bindE_eq_Inr Let_def)
    have "hb_msg ?h1 = hb_msg ?h" by simp
    then have "clock_rel n (store_clock (last_store v)) (hb_msg ?h1 (act_loc a))" using G(1) [OF v(1)] by simp
    then show ?thesis using store_rel(2) [OF release_rel [OF L]] v(2,3) AtomicRmwCommit
      by (simp add: hb_sync_def Let_def)
  next
    case AtomicDestroy
    then obtain v where v: "GetShadowAtomicVar a m = Inr v" "m' = put_atomic (act_loc a) (v\<lparr>av_dtor := True\<rparr>) m"
        "c' = c"
      using ok' by (auto simp: mm_AtomicDestroy_def bindE_eq_Inr)
    then show ?thesis using M G(1) [OF v(1)] AtomicDestroy
      by (simp add: hb_sync_def local_rel_def mem_rel_same_clock)
  next
    case AtomicThreadFence
    have "ctx_rel n (hb_acquire t ?h) t (AtomicThreadFenceAcquire n c)"
      by (rule ctx_rel_acquire [OF M(2) i assms(4,5) n])
    then show ?thesis using ok' AtomicThreadFence M
      by (auto simp: hb_sync_def mm_AtomicThreadFence_def local_rel_def AtomicThreadFenceAcqRel_def
          ctx_rel_release bindE_eq_Inr split: memory_order.splits)
  qed
qed


section \<open>The check for races\<close>

lemma check_reads_iff:
  "check_reads is t c v = None \<longleftrightarrow>
     (\<forall>i \<in> set is. \<forall>r. last_read v i = Some r \<longrightarrow> i \<noteq> t \<longrightarrow> HappensBefore r c)"
  by (induction "is") (auto split: option.splits)

lemma CheckDataRaces_None:
  "CheckDataRaces n t c v a = None \<longleftrightarrow>
     (\<forall>w. last_write v = Some w \<longrightarrow> old_thread w \<noteq> t \<longrightarrow> HappensBefore w c) \<and>
     (IsWrite (acc_type a) \<longrightarrow>
        (\<forall>i r. 1 \<le> i \<longrightarrow> i \<le> n \<longrightarrow> last_read v i = Some r \<longrightarrow> i \<noteq> t \<longrightarrow> HappensBefore r c))"
  by (auto simp: CheckDataRaces_def Let_def check_reads_iff less_Suc_eq_le split: option.splits)

lemma var_relD:
  assumes "var_rel h v L"
  shows "last_write v = Some w \<Longrightarrow> (access_event w, old_type w) \<in> L"
    and "last_write v = Some w \<Longrightarrow> IsWrite (old_type w)"
    and "last_read v i = Some r \<Longrightarrow> (access_event r, old_type r) \<in> L"
    and "last_read v i = Some r \<Longrightarrow> old_thread r = i"
    and "last_read v i = Some r \<Longrightarrow> IsRead (old_type r)"
  using assms unfolding var_rel_def by blast+

lemma HappensBefore_view:
  assumes "ctx_rel n h t c" and "hb_event h (access_event w)"
  shows "HappensBefore w c \<longleftrightarrow> access_event w \<in> hb_cur h t"
proof -
  have "events (current c) = hb_cur h t" using assms(1) by (simp add: ctx_rel_def clock_rel_def)
  then show ?thesis
    using assms(2) mem_events [of "old_thread w" "old_epoch w" "current c"]
    by (auto simp: HappensBefore_def access_event_def hb_event_def)
qed

lemma race_check_precise:
  assumes C: "ctx_rel n h t c" and V: "var_rel h v L" and I: "hb_inv h"
    and L: "\<And>e ty. (e, ty) \<in> L \<Longrightarrow> hb_event h e" and t: "1 \<le> t" "t \<le> n" "n = hb_threads h"
  shows "CheckDataRaces n t c v a = None \<longleftrightarrow>
     (\<forall>(e, ty) \<in> L. IsWrite ty \<or> IsWrite (acc_type a) \<longrightarrow> e \<in> hb_cur h t)"
proof
  note vok = hb_invD(2) [OF I t(1) t(2) [unfolded t(3)]]
  assume none: "CheckDataRaces n t c v a = None"
  show "\<forall>(e, ty) \<in> L. IsWrite ty \<or> IsWrite (acc_type a) \<longrightarrow> e \<in> hb_cur h t"
  proof (intro ballI, clarify)
    fix et ej ty assume e: "((et, ej), ty) \<in> L" and conf: "IsWrite ty \<or> IsWrite (acc_type a)"
    have own: "access_event x \<in> hb_cur h t" if "hb_event h (access_event x)" "old_thread x = t" for x
      using that hb_invD(5) [OF I t(1), of "old_epoch x"] t by (simp add: hb_event_def access_event_def)
    have inV: "access_event x \<in> hb_cur h t"
      if "hb_event h (access_event x)" "old_thread x \<noteq> t \<longrightarrow> HappensBefore x c" for x
      using that own HappensBefore_view [OF C that(1)] by blast
    from V e consider (w) w where "last_write v = Some w" "(et, ej) \<in> hb_at h (access_event w)"
      | (r) r where "IsRead ty" "last_read v et = Some r" "ej \<le> old_epoch r"
      unfolding var_rel_def by fastforce
    then show "(et, ej) \<in> hb_cur h t"
    proof cases
      case w
      have "hb_event h (access_event w)" by (rule L [OF var_relD(1) [OF V w(1)]])
      moreover have "old_thread w \<noteq> t \<longrightarrow> HappensBefore w c" using none w(1) by (simp add: CheckDataRaces_None)
      ultimately show ?thesis using inV w(2) vok by (auto simp: view_ok_def)
    next
      case r
      have rt: "old_thread r = et" "hb_event h (access_event r)"
        by (rule var_relD(4) [OF V r(2)]) (rule L [OF var_relD(3) [OF V r(2)]])
      have "IsWrite (acc_type a)" using conf r(1) by (simp add: IsWrite_def)
      moreover have ev: "hb_event h (et, ej)" using e by (rule L)
      ultimately have "old_thread r \<noteq> t \<longrightarrow> HappensBefore r c"
        using none r(2) rt t by (auto simp: CheckDataRaces_None hb_event_def)
      then have "hb_at h (access_event r) \<subseteq> hb_cur h t"
        using inV [OF rt(2)] vok by (auto simp: view_ok_def)
      moreover have "(et, ej) \<in> hb_at h (access_event r)"
        using hb_invD(9) [OF I rt(2), of ej] ev r(3) rt(1) by (simp add: access_event_def hb_event_def)
      ultimately show ?thesis by blast
    qed
  qed
next
  assume all: "\<forall>(e, ty) \<in> L. IsWrite ty \<or> IsWrite (acc_type a) \<longrightarrow> e \<in> hb_cur h t"
  have hb: "HappensBefore x c" if "(access_event x, old_type x) \<in> L" "IsWrite (old_type x) \<or> IsWrite (acc_type a)" for x
    using HappensBefore_view [OF C L [OF that(1)]] all that by blast
  show "CheckDataRaces n t c v a = None"
    unfolding CheckDataRaces_None using hb var_relD [OF V] by blast
qed


lemma hb_race_tick:
  assumes "hb_inv h" and "1 \<le> t" and "t \<le> hb_threads h"
  shows "\<not> hb_race t a h \<longleftrightarrow>
     (\<forall>(e, ty) \<in> hb_log (hb_tick t h) (acc_loc a).
        IsWrite ty \<or> IsWrite (acc_type a) \<longrightarrow> e \<in> hb_cur (hb_tick t h) t)"
proof -
  have "e \<in> hb_cur (hb_tick t h) t" if "(e, ty) \<in> hb_log h (acc_loc a)" "fst e = t" for e ty
  proof -
    have "hb_event h e" using hb_invD(10) [OF assms(1) that(1)] .
    then have "(t, snd e) \<in> hb_cur h t" using hb_invD(5) [OF assms] that(2) by (auto simp: hb_event_def)
    then have "e \<in> hb_cur h t" using that(2) by (cases e) simp
    then show ?thesis by simp
  qed
  then show ?thesis unfolding hb_race_def hb_tick_simps(7) by blast
qed

text \<open>Logging a write makes every access logged before happen before the last write.\<close>

lemma var_rel_log_write:
  assumes "IsWrite ty" and e: "access_event w = e" "old_type w = ty"
    and at: "hb_at h e = V" "e \<in> V" "\<And>e' ty'. (e', ty') \<in> L \<Longrightarrow> e' \<in> V"
    and rd: "\<And>i r. last_read v i = Some r \<Longrightarrow>
               old_thread r = i \<and> (access_event r, old_type r) \<in> L \<and> IsRead (old_type r)"
  shows "var_rel h (Log w v) (insert (e, ty) L)"
proof -
  have "\<not> IsRead ty" using assms(1) by (simp add: IsWrite_def)
  then show ?thesis
    unfolding var_rel_def Log_def using assms by auto
qed

lemma var_rel_log_read:
  assumes "\<not> IsWrite ty" and e: "access_event r = (t, k)" "old_type r = ty"
    and V: "var_rel h v L" and last: "\<And>j ty'. ((t, j), ty') \<in> L \<Longrightarrow> j \<le> k"
  shows "var_rel h (Log r v) (insert ((t, k), ty) L)"
proof -
  have r: "IsRead ty" "old_thread r = t" "old_epoch r = k" using assms(1) e by (simp_all add: IsWrite_def access_event_def)
  have L: "Log r v = v\<lparr>last_read := (last_read v)(t \<mapsto> r)\<rparr>" using r e by (simp add: Log_def)
  have "(\<exists>w. last_write v = Some w \<and> x \<in> hb_at h (access_event w)) \<or>
      IsRead tx \<and> (\<exists>r'. ((last_read v)(t \<mapsto> r)) (fst x) = Some r' \<and> snd x \<le> old_epoch r')"
    if "(x, tx) \<in> insert ((t, k), ty) L" for x tx
  proof (cases "fst x = t \<and> IsRead tx")
    case True
    then have "snd x \<le> k" using that last [of "snd x" tx] by (cases x) auto
    then show ?thesis using True r by simp
  next
    case False
    then have "(x, tx) \<in> L" using that r(1) by auto
    then show ?thesis using V False unfolding var_rel_def by fastforce
  qed
  then show ?thesis
    unfolding L var_rel_def using var_relD [OF V] e r by auto
qed

lemma mem_rel_record:
  assumes "mem_rel n h m" and "var_rel h v (insert (hb_now t h, acc_type a) (hb_log h (acc_loc a)))"
  shows "mem_rel n (hb_record t a h) (put_non_atomic (acc_loc a) v m)"
  using assms unfolding mem_rel_def put_non_atomic_def hb_record_def var_rel_def by auto

lemma ctx_rel_record [simp]: "ctx_rel n (hb_record u a h) t c = ctx_rel n h t c"
  by (simp add: ctx_rel_def hb_record_def)


text \<open>The outcome of either kind of access, given the check.\<close>

lemma InitNonAtomicVar_cases:
  assumes "InitNonAtomicVar n t c a m = Inr (race, m')"
  obtains (fresh) "non_atomics m (acc_loc a) = None" and "race = None"
      and "m' = put_non_atomic (acc_loc a)
             (Log (old_of a t c) ((nv_Init fresh_non_atomic)\<lparr>nv_source_loc := acc_source_loc a\<rparr>)) m"
    | (reuse) v where "non_atomics m (acc_loc a) = Some v" and "race = CheckDataRaces n t c v a"
      and "race = None \<Longrightarrow> m' = put_non_atomic (acc_loc a)
             (Log (old_of a t c) ((nv_Init v)\<lparr>nv_source_loc := acc_source_loc a\<rparr>)) m"
  using assms by (auto simp: InitNonAtomicVar_def InitOnLiveSharedVar_def InvalidAccess_def
      split: option.splits if_splits)

lemma AccessLiveNonAtomicVar_cases:
  assumes "AccessLiveNonAtomicVar n t c a m = Inr (race, a', m')"
  obtains v where "non_atomics m (acc_loc a) = Some v" and "race = CheckDataRaces n t c v a"
    and "race = None \<Longrightarrow> m' = put_non_atomic (acc_loc a) (Log (old_of a t c)
           (if acc_type a = AccDestroy then v\<lparr>nv_dtor := Some (old_of a t c)\<rparr> else v)) m"
  using assms by (auto simp: AccessLiveNonAtomicVar_def UnknownSharedVarAccess_def InvalidAccess_def Let_def
      split: option.splits)

lemma nv_Init_reads: "last_read (nv_Init v) i = Some r \<Longrightarrow> last_read v i = Some r"
  by (simp add: nv_Init_def split: if_splits)

lemma fresh_reads [simp]: "last_read (nv_Init fresh_non_atomic) i = None"
  by (simp add: nv_Init_def fresh_non_atomic_def)

lemma nv_dtor_var_rel [simp]: "var_rel h (v\<lparr>nv_dtor := d\<rparr>) L = var_rel h v L"
  by (simp add: var_rel_def)

lemma access_rel:
  assumes "ctx_rel n h t c0" and "mem_rel n h m" and "hb_inv h" and "1 \<le> t" and "t \<le> n"
    and "n = hb_threads h" and "hb_epoch h t + 1 < 2 ^ 32"
    and ok: "AccessNonAtomicVar n t c0 a m = Inr (race, c', a', m')"
  shows "race = None \<longleftrightarrow> \<not> hb_race t a h"
    and "race = None \<Longrightarrow> local_rel n t c' m' (hb_record t a (hb_tick t h))"
proof -
  obtain c where c: "mm_Tick n t c0 = Inr c" and LR: "local_rel n t c m (hb_tick t h)"
    by (rule tick_rel [OF assms(1-5,7)])
  define h1 where "h1 = hb_tick t h"
  define L where "L = hb_log h1 (acc_loc a)"
  have i: "hb_inv h1" using assms by (simp add: h1_def hb_inv_tick)
  have n: "n = hb_threads h1" using assms(6) by (simp add: h1_def)
  have M: "mem_rel n h1 m" "ctx_rel n h1 t c" using LR by (simp_all add: local_rel_def h1_def)
  have ev: "\<And>e ty. (e, ty) \<in> L \<Longrightarrow> hb_event h1 e" using hb_invD(10) [OF i] by (simp add: L_def)
  note check = race_check_precise [OF M(2) _ i ev assms(4,5) n, where a = a]
  note race = hb_race_tick [OF assms(3,4), of a, folded h1_def L_def, unfolded assms(6) [symmetric], OF assms(5)]
  have now: "hb_now t h1 = (t, hb_epoch h t + 1)" "hb_at h1 (hb_now t h1) = hb_cur h1 t"
      "hb_now t h1 \<in> hb_cur h1 t" by (simp_all add: h1_def hb_now_def)
  have old: "access_event (old_of a t c) = hb_now t h1" "old_type (old_of a t c) = acc_type a"
    using M(2) by (simp_all add: access_event_def old_of_def hb_now_def ctx_rel_def)
  have put: "local_rel n t c (put_non_atomic (acc_loc a) v m) (hb_record t a h1)"
    if "var_rel h1 v (insert (hb_now t h1, acc_type a) L)" for v
    using mem_rel_record [OF M(1)] that M(2) by (simp add: local_rel_def L_def)
  have wr: "var_rel h1 (Log (old_of a t c) v) (insert (hb_now t h1, acc_type a) L)"
    if "IsWrite (acc_type a)" "\<not> hb_race t a h"
      "\<And>i r. last_read v i = Some r \<Longrightarrow> old_thread r = i \<and> (access_event r, old_type r) \<in> L \<and> IsRead (old_type r)" for v
    using that race by (intro var_rel_log_write [OF that(1) old now(2,3)]) auto
  have rd: "var_rel h1 (Log (old_of a t c) v) (insert (hb_now t h1, acc_type a) L)"
    if "\<not> IsWrite (acc_type a)" "var_rel h1 v L" for v
  proof -
    have "j \<le> hb_epoch h t + 1" if "((t, j), ty') \<in> L" for j ty'
      using ev [OF that] by (auto simp: hb_event_def h1_def)
    then show ?thesis
      using var_rel_log_read [OF that(1) _ old(2) that(2)] old(1) now(1) by simp
  qed
  show "race = None \<longleftrightarrow> \<not> hb_race t a h"
  and "race = None \<Longrightarrow> local_rel n t c' m' (hb_record t a (hb_tick t h))"
  proof (atomize (full), cases "acc_type a = AccInit")
    case True
    then have init: "InitNonAtomicVar n t c a m = Inr (race, m')" "c' = c"
      using ok c by (auto simp: AccessNonAtomicVar_def bindE_eq_Inr)
    have w: "IsWrite (acc_type a)" using True by (simp add: IsWrite_def IsRead_def)
    from init(1) show "(race = None) = (\<not> hb_race t a h) \<and>
        (race = None \<longrightarrow> local_rel n t c' m' (hb_record t a (hb_tick t h)))"
    proof (cases rule: InitNonAtomicVar_cases)
      case fresh
      then have "L = {}" using M(1) by (simp add: mem_rel_def L_def)
      then have "\<not> hb_race t a h" using race by simp
      then show ?thesis using fresh init(2) w
        by (auto simp: h1_def [symmetric] intro!: put wr)
    next
      case (reuse v)
      then have v: "var_rel h1 v L" using M(1) by (simp add: mem_rel_def L_def)
      have "race = None \<longleftrightarrow> \<not> hb_race t a h" using check [OF v] race reuse(2) by simp
      moreover have "local_rel n t c' m' (hb_record t a h1)" if "race = None"
        using reuse(3) [OF that] init(2) that calculation var_relD(3-5) [OF v nv_Init_reads]
        by (auto intro!: put wr w)
      ultimately show ?thesis by (simp add: h1_def)
    qed
  next
    case False
    then have live: "AccessLiveNonAtomicVar n t c a m = Inr (race, a', m')" "c' = c"
      using ok c by (auto simp: AccessNonAtomicVar_def bindE_eq_Inr)
    from live(1) show "(race = None) = (\<not> hb_race t a h) \<and>
        (race = None \<longrightarrow> local_rel n t c' m' (hb_record t a (hb_tick t h)))"
    proof (cases rule: AccessLiveNonAtomicVar_cases)
      case (1 v)
      then have v: "var_rel h1 v L" using M(1) by (simp add: mem_rel_def L_def)
      have r: "race = None \<longleftrightarrow> \<not> hb_race t a h" using check [OF v] race 1(2) by simp
      let ?v = "if acc_type a = AccDestroy then v\<lparr>nv_dtor := Some (old_of a t c)\<rparr> else v"
      have v': "var_rel h1 ?v L" using v by simp
      have "local_rel n t c' m' (hb_record t a h1)" if "race = None"
        using 1(3) [OF that] live(2) that r rd [OF _ v'] wr [of ?v] var_relD(3-5) [OF v']
        by (cases "IsWrite (acc_type a)") (simp_all add: put)
      then show ?thesis using r by (simp add: h1_def)
    qed
  qed
qed


section \<open>The memory model implements the sets of events\<close>

lemma put_ctx_mem: "put_ctx t c s = put_ctx t c (s\<lparr>sy_mem := sy_mem s\<rparr>)"
  by (simp add: put_ctx_def)

lemma zero_context_current [simp]: "current zero_context = clock_Init"
  by (simp add: zero_context_def)

lemma spawn_rel:
  assumes R: "sync_rel s h" and I: "hb_inv h" and p: "1 \<le> p" "p \<le> hb_threads h"
    and ok: "sys_spawn p s = Inr s'"
  shows "sync_rel s' (hb_step (MSpawn p) h)"
proof -
  note D = sync_relD [OF R]
  define n where "n = hb_threads h + 1"
  define h1 where "h1 = hb_fresh p h"
  define c0 where "c0 = zero_context\<lparr>current := Assign n clock_Init (current (sy_ctx s p))\<rparr>"
  have lt: "sy_threads s < kMaxThreads" using ok by (auto simp: sys_spawn_def Let_def split: if_splits)
  have P: "clock_rel (hb_threads h) (current (sy_ctx s p)) (hb_cur h p)" using D(3) [OF p] by (simp add: ctx_rel_def)
  then have P': "clock_rel n (current (sy_ctx s p)) (hb_cur h p)" by (rule clock_rel_mono) (simp add: n_def)
  have "Get (current (sy_ctx s p)) n = 0"
    using P by (intro Get_bounded [of "hb_threads h"]) (auto simp: clock_rel_def n_def)
  then have "Get (Assign n clock_Init (current (sy_ctx s p))) n = 0"
    by (subst Get_Assign) (simp_all add: n_def)
  moreover have "clock_rel n (Assign n clock_Init (current (sy_ctx s p))) (hb_cur h p)"
    by (rule clock_rel_Assign [OF clock_rel_Init P'])
  ultimately have "ctx_rel n h1 n c0"
    by (simp add: ctx_rel_def c0_def zero_context_def h1_def hb_fresh_def n_def)
  moreover have m: "mem_rel n h1 (sy_mem s)"
    using mem_rel_mono [OF D(4), of n] mem_rel_views [of h1 h]
    by (simp add: n_def h1_def hb_fresh_def Let_def)
  moreover have "hb_inv h1" unfolding h1_def by (rule hb_inv_fresh [OF I p])
  moreover have "hb_epoch h1 n + 1 < 2 ^ 32" "1 \<le> n" by (simp_all add: h1_def hb_fresh_def n_def)
  ultimately obtain c where c: "mm_Tick n n c0 = Inr c" and L: "local_rel n n c (sy_mem s) (hb_tick n h1)"
    using tick_rel [of n h1 n c0 "sy_mem s"] by blast
  have s': "s' = put_ctx n c (s\<lparr>sy_threads := n\<rparr>)"
    using ok lt c D(1) by (simp add: sys_spawn_def Let_def mm_Spawn_def c0_def n_def)
  have old: "ctx_rel n (hb_tick n h1) t (sy_ctx s t)" if "1 \<le> t" "t \<le> hb_threads h" for t
    using ctx_rel_mono [OF D(3) [OF that], of n] that by (simp add: ctx_rel_def h1_def hb_fresh_def n_def Let_def)
  have "hb_step (MSpawn p) h = hb_tick n h1" by (simp add: n_def h1_def)
  moreover have "ctx_rel n (hb_tick n h1) t (if t = n then c else sy_ctx s t)" if "1 \<le> t" "t \<le> n" for t
    using L old [of t] that by (cases "t = n") (auto simp: local_rel_def n_def)
  ultimately show ?thesis
    using L lt D(1) unfolding sync_rel_def s' put_ctx_def local_rel_def
    by (auto simp: n_def h1_def hb_fresh_def Let_def)
qed

lemma wake_rel:
  assumes R: "sync_rel s h" and I: "hb_inv h" and v: "1 \<le> v" "v \<le> hb_threads h"
    and w: "1 \<le> w" "w \<le> hb_threads h" and b: "hb_epoch h v + 1 < 2 ^ 32" and ok: "sys_wake w v s = Inr s'"
  shows "sync_rel s' (hb_step (MWake w v) h)"
proof -
  note D = sync_relD [OF R]
  let ?n = "hb_threads h"
  let ?c = "(sy_ctx s v)\<lparr>current := Join ?n (current (sy_ctx s v)) (release_clock (sy_ctx s w))\<rparr>"
  let ?h = "hb_see v (hb_rel h w) h"
  have W: "clock_rel ?n (release_clock (sy_ctx s w)) (hb_rel h w)" using D(3) [OF w] by (simp add: ctx_rel_def)
  have ok_w: "view_ok h (hb_rel h w)" using I w by (simp add: hb_invD)
  have "ctx_rel ?n ?h v ?c"
    by (rule ctx_rel_see [OF D(3) [OF v] W view_Get [OF W ok_w v(1)] v])
  moreover have "mem_rel ?n ?h (sy_mem s)" using D(4) by simp
  moreover have "hb_inv ?h" using I ok_w by (simp add: hb_inv_updates)
  moreover have "hb_epoch ?h v + 1 < 2 ^ 32" using b by (simp add: hb_see_def)
  ultimately obtain c where c: "mm_Tick ?n v ?c = Inr c" and L: "local_rel ?n v c (sy_mem s) (hb_tick v ?h)"
    using tick_rel [of ?n ?h v ?c "sy_mem s"] v by blast
  have "s' = put_ctx v c (s\<lparr>sy_mem := sy_mem s\<rparr>)"
    using ok c D(1) by (simp add: sys_wake_def mm_Wake_def)
  moreover have "frame v h (hb_tick v ?h)" by (rule frame_trans [of v h ?h]) simp_all
  ultimately show ?thesis using sync_rel_local [OF R _ L [folded D(1)]] by simp
qed

lemma malloc_rel:
  assumes R: "sync_rel s h" and I: "hb_inv h" and t: "1 \<le> t" "t \<le> hb_threads h"
  shows "sync_rel (sys_malloc t sc p sz s) (hb_step (MMalloc t sc p sz) h)"
    and "sync_rel (sys_free t p s) (hb_step (MFree t p) h)"
proof -
  note D = sync_relD [OF R]
  let ?n = "hb_threads h"
  define al where "al = fst (GetShadowAllocation p (sy_mem s))"
  have al: "clock_rel ?n (al_free al) (hb_freed h p)"
    using D(4) by (auto simp: mem_rel_def al_def GetShadowAllocation_def fresh_alloc_def Let_def split: option.splits)
  obtain c m where M: "Malloc ?n t sc (sy_ctx s t) p sz (sy_mem s) = (c, m)" by fastforce
  have c: "c = (sy_ctx s t)\<lparr>current := Join ?n (current (sy_ctx s t)) (al_free al)\<rparr>"
    using M by (auto simp: Malloc_def al_def Let_def split: prod.splits)
  obtain al1 where m: "atomics m = atomics (sy_mem s)" "non_atomics m = non_atomics (sy_mem s)"
      "allocs m = (allocs (sy_mem s))(p \<mapsto> al1)" "al_free al1 = al_free al"
    using M by (fastforce simp: Malloc_def al_def Let_def GetShadowAllocation_def split: prod.splits option.splits)
  have "mem_rel ?n h m" using D(4) al m unfolding mem_rel_def by auto
  moreover have "ctx_rel ?n (hb_see t (hb_freed h p) h) t c"
    unfolding c using I t by (intro ctx_rel_see [OF D(3) [OF t] al view_Get [OF al]]) (auto simp: hb_invD)
  ultimately have "local_rel ?n t c m (hb_see t (hb_freed h p) h)" by (simp add: local_rel_def)
  then show "sync_rel (sys_malloc t sc p sz s) (hb_step (MMalloc t sc p sz) h)"
    using sync_rel_local [OF R, of t "hb_see t (hb_freed h p) h" c m] M D(1) by (simp add: sys_malloc_def)
  let ?m = "Free ?n (sy_ctx s t) p (sy_mem s)"
  have C: "clock_rel ?n (current (sy_ctx s t)) (hb_cur h t)" using D(3) [OF t] by (simp add: ctx_rel_def)
  obtain al2 where m2: "atomics ?m = atomics (sy_mem s)" "non_atomics ?m = non_atomics (sy_mem s)"
      "allocs ?m = (allocs (sy_mem s))(p \<mapsto> al2)" "al_free al2 = Assign ?n (al_free al) (current (sy_ctx s t))"
    by (fastforce simp: Free_def al_def Let_def GetShadowAllocation_def split: prod.splits option.splits)
  have "mem_rel ?n (hb_give p (hb_cur h t) h) ?m"
    using D(4) clock_rel_Assign [OF al C] m2 unfolding mem_rel_def hb_give_def var_rel_def by auto
  then show "sync_rel (sys_free t p s) (hb_step (MFree t p) h)"
    using R unfolding sync_rel_def sys_free_def by (auto simp: hb_give_def ctx_rel_def)
qed

lemma step_sim:
  assumes R: "sync_rel s h" and I: "hb_inv h" and op: "op_ok (hb_threads h) op"
    and b: "\<And>t. hb_epoch h t + 1 < 2 ^ 32" and ok: "mem_step op s = Inr s'"
  shows "sync_rel s' (hb_step op h)"
proof -
  note D = sync_relD [OF R]
  show ?thesis
  proof (cases op)
    case (MSpawn p)
    then show ?thesis using spawn_rel [OF R I] op ok by simp
  next
    case (MWake w v)
    then show ?thesis using wake_rel [OF R I _ _ _ _ b] op ok by simp
  next
    case (MSync t a)
    then obtain r c m a' where S: "Sync (hb_threads h) t (sy_ctx s t) a (sy_mem s) = Inr (r, c, m, a')"
        and s': "s' = put_ctx t c (s\<lparr>sy_mem := m\<rparr>)"
      using ok D(1) by (auto simp: sys_sync_def bindE_eq_Inr)
    have t: "1 \<le> t" "t \<le> hb_threads h" using op MSync by simp_all
    have "frame t h (hb_sync t a (hb_tick t h))"
      using frame_trans [of t h "hb_tick t h"]
      by (auto simp: hb_sync_def Let_def frame_def hb_write_def hb_read_def hb_see_def hb_acquire_def hb_release_def
          split: action_type.split)
    then show ?thesis
      using sync_rel_local [OF R _ Sync_rel [OF D(3) [OF t] D(4) I t refl b S, folded D(1)]] MSync s' by simp
  next
    case (MAccess t a)
    then obtain race c a' m where A: "AccessNonAtomicVar (hb_threads h) t (sy_ctx s t) a (sy_mem s) = Inr (race, c, a', m)"
        and s': "s' = put_ctx t c (s\<lparr>sy_mem := m\<rparr>)" and race: "race = None"
      using ok D(1) by (auto simp: sys_access_def bindE_eq_Inr split: if_splits)
    have t: "1 \<le> t" "t \<le> hb_threads h" using op MAccess by simp_all
    have "frame t h (hb_record t a (hb_tick t h))"
      by (rule frame_trans [of t h "hb_tick t h"]) simp_all
    then show ?thesis
      using sync_rel_local [OF R _ access_rel(2) [OF D(3) [OF t] D(4) I t refl b A race, folded D(1)]] MAccess s'
      by simp
  next
    case (MMalloc t sc p sz)
    then show ?thesis using malloc_rel(1) [OF R I] op ok by auto
  next
    case (MFree t p)
    then show ?thesis using malloc_rel(2) [OF R I] op ok by auto
  qed
qed


lemma epoch_step:
  "\<forall>t. hb_epoch h t \<le> k \<Longrightarrow> hb_epoch (hb_step op h) t \<le> k + 1"
proof (cases op)
  case (MSync u a)
  assume "\<forall>t. hb_epoch h t \<le> k"
  moreover have "hb_epoch (hb_sync u a (hb_tick u h)) = hb_epoch (hb_tick u h)"
    by (simp add: hb_sync_def Let_def hb_write_def hb_read_def hb_see_def hb_acquire_def hb_release_def
        split: action_type.split)
  ultimately show ?thesis using MSync by (auto simp: le_SucI)
qed (auto simp: hb_fresh_def hb_see_def hb_record_def hb_give_def Let_def le_SucI)

lemma run_sim:
  assumes "sync_rel s h" and "hb_inv h" and "ops_ok (hb_threads h) ops" and "\<forall>t. hb_epoch h t \<le> k"
    and "k + length ops < 2 ^ 32" and "mem_run ops s = Inr s'"
  shows "sync_rel s' (fold hb_step ops h) \<and> (\<forall>t. hb_epoch (fold hb_step ops h) t \<le> k + length ops)"
  using assms
proof (induction ops arbitrary: s h k)
  case Nil
  then show ?case by simp
next
  case (Cons op ops)
  then obtain s1 where s1: "mem_step op s = Inr s1" "mem_run ops s1 = Inr s'"
    by (auto simp: bindE_eq_Inr)
  have "hb_epoch h t + 1 < 2 ^ 32" for t
    using Cons.prems(4,5) by (auto dest: spec [of _ t])
  then have R: "sync_rel s1 (hb_step op h)"
    using step_sim [OF Cons.prems(1,2) _ _ s1(1)] Cons.prems(3) by simp
  have I: "hb_inv (hb_step op h)" "ops_ok (hb_threads (hb_step op h)) ops"
    using Cons.prems(2,3) by (simp_all add: hb_inv_step)
  have "\<forall>t. hb_epoch (hb_step op h) t \<le> k + 1" using epoch_step Cons.prems(4) by blast
  from Cons.IH [OF R I this _ s1(2)] Cons.prems(5) show ?case by simp
qed

lemma Get_Init [simp]: "Get clock_Init t = 0"
  by (simp add: Get_def clock_Init_def)

lemma sync_rel_init: "sync_rel sync_init hb_init"
  by (auto simp: sync_rel_def sync_init_def hb_init_def ctx_rel_def mem_rel_def zero_context_def
      kMaxThreads_def)

lemma run_rel:
  assumes "ops_ok 1 ops" and "length ops < 2 ^ 32" and "mem_run ops sync_init = Inr s"
  shows "sync_rel s (hb_run ops)" and "hb_epoch (hb_run ops) t \<le> length ops"
  using run_sim [OF sync_rel_init hb_inv_init, of ops 0 s] assms
  by (simp_all add: hb_init_def hb_run_def)


section \<open>Sample runs\<close>

text \<open>
  Message passing: the first thread initialises the data at 8 and the flag at 16, spawns the
  second, writes the data and sets the flag; the second reads the flag and then the data.
\<close>

definition sample_action :: "action_type \<Rightarrow> u64 \<Rightarrow> memory_order \<Rightarrow> action" where
  "sample_action ty v mo = \<lparr>act_loc = 16, act_size = 4, act_type = ty, act_value = v, act_mo = mo,
     act_source_loc = []\<rparr>"

definition sample_access :: "access_type \<Rightarrow> access" where
  "sample_access ty = \<lparr>acc_loc = 8, acc_type = ty, acc_source_loc = []\<rparr>"

definition message_passing :: "memory_order \<Rightarrow> memory_order \<Rightarrow> mem_op list" where
  "message_passing st ld =
     [MAccess 1 (sample_access AccInit), MSync 1 (sample_action AtomicInit 0 relaxed), MSpawn 1,
      MAccess 1 (sample_access AccWrite), MSync 1 (sample_action AtomicStore 1 st),
      MSync 2 (sample_action AtomicLoad 0 ld)]"

definition runs :: "mem_op list \<Rightarrow> bool" where
  "runs ops = (case mem_run ops sync_init of Inl _ \<Rightarrow> False | Inr _ \<Rightarrow> True)"

lemma runsE: "runs ops \<Longrightarrow> \<exists>s. mem_run ops sync_init = Inr s"
  by (auto simp: runs_def split: sum.splits)

lemmas mem_defs =
  sys_spawn_def sys_wake_def sys_sync_def sys_access_def put_ctx_def mm_Spawn_def mm_Wake_def mm_Tick_def
  clock_Tick_def Sync_def mm_AtomicInit_def mm_AtomicLoad_def mm_AtomicStore_def
  AtomicLoadRelaxed_def AtomicStoreRelaxed_def AtomicThreadFenceAcquire_def AtomicThreadFenceRelease_def
  GetShadowAtomicVar_def TryGetShadowAtomicVar_def put_atomic_def AccessNonAtomicVar_def
  InitNonAtomicVar_def AccessLiveNonAtomicVar_def CheckDataRaces_def HappensBefore_def old_of_def
  put_non_atomic_def Log_def nv_Init_def fresh_non_atomic_def fresh_atomic_def IsRead_def IsWrite_def
  zero_context_def sync_init_def sample_action_def sample_access_def kMaxThreads_def
  Get_def Assign_def Join_def clock_Init_def

lemma sample_run:
  obtains s where "mem_run (message_passing release acquire) sync_init = Inr s" and "sy_threads s = 2"
    and "(1, 4) \<in> events (current (sy_ctx s 2))"
proof -
  have "case mem_run (message_passing release acquire) sync_init of Inl _ \<Rightarrow> False
     | Inr s \<Rightarrow> sy_threads s = 2 \<and> (1, 4) \<in> events (current (sy_ctx s 2))"
    by (simp add: message_passing_def mem_defs Let_def events_def)
  then show thesis using that by (auto split: sum.splits)
qed

lemma sample_race:
  obtains s race s' where "mem_run (message_passing relaxed relaxed) sync_init = Inr s"
    and "sy_threads s = 2" and "sys_access 2 (sample_access AccRead) s = Inr (race, s')" and "race \<noteq> None"
proof -
  have "case mem_run (message_passing relaxed relaxed) sync_init of Inl _ \<Rightarrow> False
     | Inr s \<Rightarrow> sy_threads s = 2 \<and> (case sys_access 2 (sample_access AccRead) s of Inl _ \<Rightarrow> False
         | Inr (race, s') \<Rightarrow> race \<noteq> None)"
    by (simp add: message_passing_def mem_defs Let_def)
  then show thesis using that by (auto split: sum.splits prod.splits)
qed



text \<open>
  C8: the race detector is precise. After any run without a race, it reports a race for the next
  access of a thread exactly when some earlier access to the location by another thread, one of
  the two being a write, does not happen before it; keeping the last write and the last read of
  each thread loses nothing of the full log.
\<close>

theorem race_detector_precise:
  assumes "ops_ok 1 ops" and "length ops + 1 < 2 ^ 32" and "mem_run ops sync_init = Inr s"
    and "1 \<le> t" and "t \<le> sy_threads s" and "sys_access t a s = Inr (race, s')"
  shows "race \<noteq> None \<longleftrightarrow> hb_race t a (hb_run ops)"
proof -
  have len: "length ops < 2 ^ 32" using assms(2) by simp
  note R = run_rel [OF assms(1) len assms(3)]
  note D = sync_relD [OF R(1)]
  obtain c a' m where A: "AccessNonAtomicVar (hb_threads (hb_run ops)) t (sy_ctx s t) a (sy_mem s) =
      Inr (race, c, a', m)"
    using assms(6) D(1) by (auto simp: sys_access_def bindE_eq_Inr)
  have t: "t \<le> hb_threads (hb_run ops)" using assms(5) D(1) by simp
  have b: "hb_epoch (hb_run ops) t + 1 < 2 ^ 32" using R(2) [of t] assms(2) by simp
  show ?thesis
    using access_rel(1) [OF D(3) [OF assms(4) t] D(4) hb_inv_run [OF assms(1)] assms(4) t refl b A] by blast
qed


theorem race_detector_precise_witness:
  "\<exists>s race s'. mem_run (message_passing relaxed relaxed) sync_init = Inr s \<and>
     sys_access 2 (sample_access AccRead) s = Inr (race, s') \<and> race \<noteq> None \<and>
     hb_race 2 (sample_access AccRead) (hb_run (message_passing relaxed relaxed))"
proof -
  obtain s race s' where s: "mem_run (message_passing relaxed relaxed) sync_init = Inr s"
      "sy_threads s = 2" "sys_access 2 (sample_access AccRead) s = Inr (race, s')" "race \<noteq> None"
    by (rule sample_race)
  have "ops_ok 1 (message_passing relaxed relaxed)" "length (message_passing relaxed relaxed) + 1 < 2 ^ 32"
    by (simp_all add: message_passing_def)
  from race_detector_precise [OF this s(1) _ _ s(3)] s show ?thesis by auto
qed

section \<open>Release sequences\<close>

text \<open>The operations that replace the message of an atomic: plain stores and initialisation.\<close>

definition overwrites :: "addr \<Rightarrow> mem_op \<Rightarrow> bool" where
  "overwrites l op \<longleftrightarrow> (case op of
     MSync t a \<Rightarrow> act_loc a = l \<and> (act_type a = AtomicStore \<or> act_type a = AtomicInit)
   | _ \<Rightarrow> False)"

lemma hb_msg_step:
  "\<not> overwrites l op \<Longrightarrow> hb_msg h l \<subseteq> hb_msg (hb_step op h) l"
  by (cases op) (auto simp: overwrites_def hb_fresh_def hb_see_def hb_record_def hb_give_def hb_sync_def
      hb_write_def hb_read_def hb_acquire_def hb_release_def Let_def split: action_type.splits)

lemma hb_msg_fold:
  "\<forall>op \<in> set ops. \<not> overwrites l op \<Longrightarrow> hb_msg h l \<subseteq> hb_msg (fold hb_step ops h) l"
proof (induction ops arbitrary: h)
  case (Cons op ops)
  then show ?case using hb_msg_step [of l op h] by fastforce
qed simp

lemma mem_run_append: "mem_run (xs @ ys) s = bindE (mem_run xs s) (mem_run ys)"
  by (induction xs arbitrary: s) (auto simp: bindE_def split: sum.splits)

lemma ops_ok_append:
  "ops_ok n (xs @ ys) \<longleftrightarrow> ops_ok n xs \<and> ops_ok (n + sum_list (map new_threads xs)) ys"
  by (induction xs arbitrary: n) (auto simp: add.assoc)

lemma release_store_msg:
  assumes "act_type st = AtomicStore" and "IsReleaseOrder (act_mo st)"
  shows "hb_cur h t \<subseteq> hb_msg (hb_step (MSync t st) h) (act_loc st)"
  using assms by (auto simp: hb_sync_def hb_release_def hb_write_def)

lemma acquire_load_cur:
  assumes "act_type ld = AtomicLoad \<or> act_type ld = AtomicRmwLoad" and "IsAcquireOrder (act_mo ld)"
  shows "hb_msg h (act_loc ld) \<subseteq> hb_cur (hb_step (MSync u ld) h) u"
  using assms by (auto simp: hb_sync_def hb_acquire_def hb_read_def hb_see_def Let_def)

text \<open>
  C11: a release store synchronises with every acquire load of the same atomic that reads from it
  or from the read-modify-writes, of any thread and order, that follow it (its release sequence):
  everything the storing thread had seen when it stored happens before what the loading thread
  does next. Anything may happen in between except a plain store to the atomic or its
  initialisation.
\<close>

theorem release_sequence_synchronizes:
  assumes "ops_ok 1 (ops @ [MSync t st] @ mid @ [MSync u ld])"
    and "length (ops @ [MSync t st] @ mid @ [MSync u ld]) < 2 ^ 32"
    and "mem_run ops sync_init = Inr s0"
    and "mem_run ([MSync t st] @ mid @ [MSync u ld]) s0 = Inr s"
    and "act_type st = AtomicStore" and "IsReleaseOrder (act_mo st)"
    and "act_type ld = AtomicLoad \<or> act_type ld = AtomicRmwLoad" and "IsAcquireOrder (act_mo ld)"
    and "act_loc ld = act_loc st" and "\<forall>op \<in> set mid. \<not> overwrites (act_loc st) op"
  shows "events (current (sy_ctx s0 t)) \<subseteq> events (current (sy_ctx s u))"
proof -
  let ?all = "ops @ [MSync t st] @ mid @ [MSync u ld]"
  let ?g = "hb_run ops" and ?h = "hb_run ?all"
  have run: "mem_run ?all sync_init = Inr s" using assms(3,4) by (simp add: mem_run_append)
  have ok: "ops_ok 1 ops" "length ops < 2 ^ 32" using assms(1,2) by (simp_all add: ops_ok_append)
  note R0 = sync_relD [OF run_rel(1) [OF ok assms(3)]]
  note R = sync_relD [OF run_rel(1) [OF assms(1,2) run]]
  let ?k = "hb_step (MSync t st) ?g"
  have H: "?h = hb_step (MSync u ld) (fold hb_step mid ?k)" by (simp add: hb_run_def)
  have "hb_cur ?g t \<subseteq> hb_msg (fold hb_step mid ?k) (act_loc st)"
    using release_store_msg [OF assms(5,6)] hb_msg_fold [OF assms(10), of ?k] by blast
  then have sub: "hb_cur ?g t \<subseteq> hb_cur ?h u"
    unfolding H using acquire_load_cur [OF assms(7,8), of "fold hb_step mid ?k" u] unfolding assms(9)
    by (rule subset_trans)
  have threads: "hb_threads (fold hb_step xs h) = hb_threads h + sum_list (map new_threads xs)"
    if "hb_inv h" "ops_ok (hb_threads h) xs" for xs h
    using that by (induction xs arbitrary: h) (simp_all add: hb_inv_step)
  have n0: "hb_threads ?g = 1 + sum_list (map new_threads ops)"
    using threads [OF hb_inv_init, of ops] ok(1) by (simp add: hb_run_def hb_threads_init)
  have n: "hb_threads ?h = 1 + sum_list (map new_threads ?all)"
    using threads [OF hb_inv_init, of ?all] assms(1) by (simp add: hb_run_def hb_threads_init)
  have t: "1 \<le> t" "t \<le> hb_threads ?g" and u: "1 \<le> u" "u \<le> hb_threads ?h"
    using assms(1) n0 n by (auto simp: ops_ok_append)
  show ?thesis using sub R0(3) [OF t] R(3) [OF u] by (simp add: ctx_rel_def clock_rel_def)
qed

theorem release_sequence_synchronizes_witness:
  "\<exists>s0 s. mem_run (take 4 (message_passing release acquire)) sync_init = Inr s0 \<and>
     mem_run ([MSync 1 (sample_action AtomicStore 1 release)] @ [MSync 2 (sample_action AtomicRmwCommit 2 relaxed)] @
       [MSync 2 (sample_action AtomicLoad 0 acquire)]) s0 = Inr s \<and>
     events (current (sy_ctx s0 1)) \<subseteq> events (current (sy_ctx s 2))"
proof -
  let ?ops = "take 4 (message_passing release acquire)"
  let ?st = "sample_action AtomicStore 1 release" and ?ld = "sample_action AtomicLoad 0 acquire"
  let ?mid = "[MSync 2 (sample_action AtomicRmwCommit 2 relaxed)]"
  have "case mem_run ?ops sync_init of Inl _ \<Rightarrow> False | Inr s0 \<Rightarrow>
     (case mem_run ([MSync 1 ?st] @ ?mid @ [MSync 2 ?ld]) s0 of Inl _ \<Rightarrow> False | Inr s \<Rightarrow> True)"
    by (simp add: message_passing_def mem_defs mm_AtomicRmwCommit_def AtomicRmwCommitRelaxed_def Let_def)
  then obtain s0 s where s: "mem_run ?ops sync_init = Inr s0"
      "mem_run ([MSync 1 ?st] @ ?mid @ [MSync 2 ?ld]) s0 = Inr s" by (auto split: sum.splits)
  have "ops_ok 1 (?ops @ [MSync 1 ?st] @ ?mid @ [MSync 2 ?ld])"
      "length (?ops @ [MSync 1 ?st] @ ?mid @ [MSync 2 ?ld]) < 2 ^ 32"
    by (simp_all add: message_passing_def)
  moreover have "\<forall>op \<in> set ?mid. \<not> overwrites (act_loc ?st) op"
    by (simp add: overwrites_def sample_action_def)
  ultimately have "events (current (sy_ctx s0 1)) \<subseteq> events (current (sy_ctx s 2))"
    by (intro release_sequence_synchronizes [OF _ _ s]) (simp_all add: sample_action_def)
  then show ?thesis using s by blast
qed

section \<open>Where the model departs from its comments\<close>

text \<open>
  Waking a thread does not act as a release of the waker (the comment at \<open>Wake\<close> says it
  does): the woken thread gets the view of the waker's last release fence or store, not its
  current one, so that a thread woken right after the waker's write races with it.
\<close>

theorem wake_is_not_a_release:
  "mem_run [MSpawn 1, MAccess 1 (sample_access AccInit), MWake 1 2, MAccess 2 (sample_access AccRead)]
     sync_init = Inl (SysAbortEx DataRace)"
  by (simp add: mem_defs Let_def)

text \<open>
  An access to a non-atomic variable that has been destroyed is accepted when the destructor
  happens before it: \<open>AccessLiveNonAtomicVar\<close> looks at races only and never at \<open>dtor\<close>, while the
  same access to a destroyed atomic aborts.
\<close>

theorem use_after_destroy_accepted:
  "runs [MAccess 1 (sample_access AccInit), MAccess 1 (sample_access AccDestroy),
     MAccess 1 (sample_access AccRead)] \<and>
   mem_run [MSync 1 (sample_action AtomicInit 0 relaxed), MSync 1 (sample_action AtomicDestroy 0 relaxed),
     MSync 1 (sample_action AtomicLoad 0 relaxed)] sync_init = Inl (SysAbortEx InvalidMemoryAccess)"
  by (simp add: runs_def mem_defs mm_AtomicDestroy_def DeadAtomicVarAccess_def InvalidAccess_def Let_def)

end
