(* ===== verification/Scheduler.thy ===== *)
theory Scheduler
  imports Prelude Sim_Types
begin

text \<open>
  The interface between the simulator and its schedulers: \<open>IScheduler\<close>, \<open>IRunQueue\<close> and
  \<open>IWaitQueue\<close> of \<open>rt/sim/system/scheduler/\<close>, as a record of operations over a state, with what
  the simulator relies on stated once as a locale. A scheduler owns the threads the simulator has
  handed to it and not taken back (\<open>held\<close>), some of them ready to run, and the waiters of each of
  its wait queues; a wait queue is named by its number, in the order of \<open>NewWaitQueue\<close>.
  \<open>DropWaitQueues\<close> is the destruction of the queues at the end of a simulation, which owns them.
  Operations that read or write the threads take and return the table of threads; \<open>now\<close> is
  \<open>Simulator::CurrTick()\<close>.
\<close>

section \<open>The operations\<close>

type_synonym 's step = "threads \<Rightarrow> 's \<Rightarrow> fault + threads \<times> 's"

record 's sched_ops =
  NextSchedule :: "'s \<Rightarrow> bool \<times> 's"
  Start :: "'s \<Rightarrow> fault + 's"
  Interrupt :: "u64 \<Rightarrow> tid \<Rightarrow> 's step"
  SwitchTo :: "tid \<Rightarrow> tid \<Rightarrow> 's step"
  Yield :: "tid \<Rightarrow> 's step"
  Wake :: "tid \<Rightarrow> 's step"
  Spawn :: "tid \<Rightarrow> 's step"
  Exit :: "tid \<Rightarrow> 's step"
  LockFree :: "tid \<Rightarrow> bool \<Rightarrow> 's step"
  Progress :: "tid \<Rightarrow> 's step"
  NewIter :: "'s step"
  IsIdle :: "'s \<Rightarrow> bool"
  PickNext :: "u64 \<Rightarrow> threads \<Rightarrow> 's \<Rightarrow> fault + tid \<times> threads \<times> 's"
  RemoveThread :: "tid \<Rightarrow> 's \<Rightarrow> 's"
  NewWaitQueue :: "'s \<Rightarrow> nat \<times> 's"
  DropWaitQueues :: "'s \<Rightarrow> 's"
  wq_IsEmpty :: "nat \<Rightarrow> 's \<Rightarrow> bool"
  wq_Push :: "nat \<Rightarrow> tid \<Rightarrow> 's \<Rightarrow> fault + 's"
  wq_Pop :: "nat \<Rightarrow> 's \<Rightarrow> fault + tid option \<times> 's"
  wq_PopAll :: "nat \<Rightarrow> 's \<Rightarrow> fault + tid option \<times> 's"
  wq_Remove :: "nat \<Rightarrow> tid \<Rightarrow> 's \<Rightarrow> bool \<times> 's"
  RandomNumber :: "'s \<Rightarrow> fault + u64 \<times> 's"
  RandomChoice :: "nat \<Rightarrow> 's \<Rightarrow> fault + nat \<times> 's"
  SpuriousWakeup :: "'s \<Rightarrow> fault + bool \<times> 's"
  SpuriousTryFailure :: "'s \<Rightarrow> fault + bool \<times> 's"
  IsModelChecker :: bool

section \<open>Calls as data\<close>

datatype sched_call =
  CInterrupt u64 tid | CSwitchTo tid tid | CYield tid | CWake tid | CSpawn tid | CExit tid
| CLockFree tid bool | CProgress tid | CNewIter | CPickNext u64 | CRemove tid
| CNewWaitQueue | CPush nat tid | CPop nat | CPopAll nat | CWqRemove nat tid
| CRandomNumber | CRandomChoice nat | CSpuriousWakeup | CSpuriousTryFailure

datatype sched_resp =
  RNone | RThread tid | RWaiter "tid option" | RNumber u64 | RIndex nat | RBool bool | RQueue nat

definition quiet :: "fault + threads \<times> 's \<Rightarrow> fault + sched_resp \<times> threads \<times> 's" where
  "quiet m = bindE m (\<lambda>(ths, s). Inr (RNone, ths, s))"

primrec invoke :: "'s sched_ops \<Rightarrow> sched_call \<Rightarrow> threads \<Rightarrow> 's \<Rightarrow> fault + sched_resp \<times> threads \<times> 's" where
  "invoke d (CInterrupt now t) ths s = quiet (Interrupt d now t ths s)"
| "invoke d (CSwitchTo t u) ths s = quiet (SwitchTo d t u ths s)"
| "invoke d (CYield t) ths s = quiet (Yield d t ths s)"
| "invoke d (CWake t) ths s = quiet (Wake d t ths s)"
| "invoke d (CSpawn t) ths s = quiet (Spawn d t ths s)"
| "invoke d (CExit t) ths s = quiet (Exit d t ths s)"
| "invoke d (CLockFree t b) ths s = quiet (LockFree d t b ths s)"
| "invoke d (CProgress t) ths s = quiet (Progress d t ths s)"
| "invoke d CNewIter ths s = quiet (NewIter d ths s)"
| "invoke d (CPickNext now) ths s =
     bindE (PickNext d now ths s) (\<lambda>(t, ths1, s1). Inr (RThread t, ths1, s1))"
| "invoke d (CRemove t) ths s = Inr (RNone, ths, RemoveThread d t s)"
| "invoke d CNewWaitQueue ths s = (let (q, s1) = NewWaitQueue d s in Inr (RQueue q, ths, s1))"
| "invoke d (CPush q t) ths s = bindE (wq_Push d q t s) (\<lambda>s1. Inr (RNone, ths, s1))"
| "invoke d (CPop q) ths s = bindE (wq_Pop d q s) (\<lambda>(w, s1). Inr (RWaiter w, ths, s1))"
| "invoke d (CPopAll q) ths s = bindE (wq_PopAll d q s) (\<lambda>(w, s1). Inr (RWaiter w, ths, s1))"
| "invoke d (CWqRemove q t) ths s = (let (b, s1) = wq_Remove d q t s in Inr (RBool b, ths, s1))"
| "invoke d CRandomNumber ths s = bindE (RandomNumber d s) (\<lambda>(v, s1). Inr (RNumber v, ths, s1))"
| "invoke d (CRandomChoice n) ths s = bindE (RandomChoice d n s) (\<lambda>(i, s1). Inr (RIndex i, ths, s1))"
| "invoke d CSpuriousWakeup ths s = bindE (SpuriousWakeup d s) (\<lambda>(b, s1). Inr (RBool b, ths, s1))"
| "invoke d CSpuriousTryFailure ths s =
     bindE (SpuriousTryFailure d s) (\<lambda>(b, s1). Inr (RBool b, ths, s1))"

lemma quiet_Inr [simp]:
  "quiet m = Inr (r, ths', s') \<longleftrightarrow> r = RNone \<and> m = Inr (ths', s')"
  by (cases m) (auto simp: quiet_def split: prod.splits)

text \<open>
  A run of calls, with the responses. The simulator changes the table of threads between calls, so
  each call comes with the table it is made on.
\<close>

fun sched_run :: "'s sched_ops \<Rightarrow> (sched_call \<times> threads) list \<Rightarrow> 's \<Rightarrow> fault + sched_resp list \<times> 's" where
  "sched_run d [] s = Inr ([], s)"
| "sched_run d ((c, ths) # cs) s =
     bindE (invoke d c ths s) (\<lambda>(r, ths1, s1).
     bindE (sched_run d cs s1) (\<lambda>(rs, s2). Inr (r # rs, s2)))"

section \<open>What the simulator relies on\<close>

record sched_view =
  held :: "tid set"
  waiting :: "nat \<Rightarrow> tid set"
  queues :: nat

definition empty_view :: sched_view where
  "empty_view = \<lparr>held = {}, waiting = (\<lambda>_. {}), queues = 0\<rparr>"

definition somewhere :: "sched_view \<Rightarrow> tid set" where
  "somewhere v = held v \<union> (\<Union>q. waiting v q)"

definition thread_ids :: "tid set" where
  "thread_ids = {1..kMaxThreads}"

definition small :: "tid list \<Rightarrow> bool" where
  "small xs \<longleftrightarrow> distinct xs \<and> set xs \<subseteq> thread_ids"

lemma small_Nil [simp]: "small []"
  by (simp add: small_def)

text \<open>
  The simulator's side: it hands over a thread that is nowhere else, uses the queues it has asked
  for, and takes a thread out of the queue it waits in.
\<close>

primrec call_pre :: "sched_call \<Rightarrow> sched_view \<Rightarrow> bool" where
  "call_pre (CInterrupt now t) v = (t \<in> thread_ids - somewhere v)"
| "call_pre (CSwitchTo t u) v = (t \<in> thread_ids - somewhere v)"
| "call_pre (CYield t) v = (t \<in> thread_ids - somewhere v)"
| "call_pre (CWake t) v = (t \<in> thread_ids - somewhere v)"
| "call_pre (CSpawn t) v = (t \<in> thread_ids - somewhere v)"
| "call_pre (CExit t) v = (t \<in> thread_ids - somewhere v)"
| "call_pre (CLockFree t b) v = (t \<in> thread_ids - somewhere v)"
| "call_pre (CProgress t) v = (t \<in> thread_ids - somewhere v)"
| "call_pre CNewIter v = True"
| "call_pre (CPickNext now) v = True"
| "call_pre (CRemove t) v = True"
| "call_pre CNewWaitQueue v = True"
| "call_pre (CPush q t) v = (q < queues v \<and> t \<in> thread_ids - somewhere v)"
| "call_pre (CPop q) v = (q < queues v)"
| "call_pre (CPopAll q) v = (q < queues v)"
| "call_pre (CWqRemove q t) v = (q < queues v \<and> t \<notin> held v \<and> (\<forall>q'. q' \<noteq> q \<longrightarrow> t \<notin> waiting v q'))"
| "call_pre CRandomNumber v = True"
| "call_pre (CRandomChoice n) v = (0 < n)"
| "call_pre CSpuriousWakeup v = True"
| "call_pre CSpuriousTryFailure v = True"

definition take_waiter :: "nat \<Rightarrow> sched_resp \<Rightarrow> sched_view \<Rightarrow> sched_view \<Rightarrow> bool" where
  "take_waiter q r v v' \<longleftrightarrow>
     (r = RWaiter None \<and> waiting v q = {} \<and> v' = v) \<or>
     (\<exists>t \<in> waiting v q. r = RWaiter (Some t) \<and> v' = v\<lparr>waiting := (waiting v)(q := waiting v q - {t})\<rparr>)"

text \<open>The scheduler's side: what each call returns and what it does to the threads.\<close>

primrec call_spec :: "sched_call \<Rightarrow> sched_resp \<Rightarrow> sched_view \<Rightarrow> sched_view \<Rightarrow> bool" where
  "call_spec (CInterrupt now t) r v v' = (r = RNone \<and> v' = v\<lparr>held := insert t (held v)\<rparr>)"
| "call_spec (CSwitchTo t u) r v v' = (r = RNone \<and> v' = v\<lparr>held := insert t (held v)\<rparr>)"
| "call_spec (CYield t) r v v' = (r = RNone \<and> v' = v\<lparr>held := insert t (held v)\<rparr>)"
| "call_spec (CWake t) r v v' = (r = RNone \<and> v' = v\<lparr>held := insert t (held v)\<rparr>)"
| "call_spec (CSpawn t) r v v' = (r = RNone \<and> v' = v\<lparr>held := insert t (held v)\<rparr>)"
| "call_spec (CExit t) r v v' = (r = RNone \<and> v' = v)"
| "call_spec (CLockFree t b) r v v' = (r = RNone \<and> v' = v)"
| "call_spec (CProgress t) r v v' = (r = RNone \<and> v' = v)"
| "call_spec CNewIter r v v' = (r = RNone \<and> v' = v)"
| "call_spec (CPickNext now) r v v' = (\<exists>t \<in> held v. r = RThread t \<and> v' = v\<lparr>held := held v - {t}\<rparr>)"
| "call_spec (CRemove t) r v v' = (r = RNone \<and> v' = v\<lparr>held := held v - {t}\<rparr>)"
| "call_spec CNewWaitQueue r v v' = (r = RQueue (queues v) \<and>
     v' = v\<lparr>waiting := (waiting v)(queues v := {}), queues := queues v + 1\<rparr>)"
| "call_spec (CPush q t) r v v' = (r = RNone \<and>
     v' = v\<lparr>waiting := (waiting v)(q := insert t (waiting v q))\<rparr>)"
| "call_spec (CPop q) r v v' = take_waiter q r v v'"
| "call_spec (CPopAll q) r v v' = take_waiter q r v v'"
| "call_spec (CWqRemove q t) r v v' = (r = RBool (t \<in> waiting v q) \<and>
     v' = v\<lparr>waiting := (waiting v)(q := waiting v q - {t})\<rparr>)"
| "call_spec CRandomNumber r v v' = ((\<exists>x. r = RNumber x) \<and> v' = v)"
| "call_spec (CRandomChoice n) r v v' = ((\<exists>i. r = RIndex i) \<and> v' = v)"
| "call_spec CSpuriousWakeup r v v' = ((\<exists>b. r = RBool b) \<and> v' = v)"
| "call_spec CSpuriousTryFailure r v v' = ((\<exists>b. r = RBool b) \<and> v' = v)"


text \<open>A trace of calls and responses, and the calls an execution makes when it keeps to its side.\<close>

fun trace_spec :: "(sched_call \<times> sched_resp) list \<Rightarrow> sched_view \<Rightarrow> sched_view \<Rightarrow> bool" where
  "trace_spec [] v v' = (v' = v)"
| "trace_spec ((c, r) # xs) v v' = (\<exists>w. call_spec c r v w \<and> trace_spec xs w v')"

primrec is_Remove :: "sched_call \<Rightarrow> bool" where
  "is_Remove (CInterrupt now t) = False" | "is_Remove (CSwitchTo t u) = False"
| "is_Remove (CYield t) = False" | "is_Remove (CWake t) = False" | "is_Remove (CSpawn t) = False"
| "is_Remove (CExit t) = False" | "is_Remove (CLockFree t b) = False"
| "is_Remove (CProgress t) = False" | "is_Remove CNewIter = False"
| "is_Remove (CPickNext now) = False" | "is_Remove (CRemove t) = True"
| "is_Remove CNewWaitQueue = False" | "is_Remove (CPush q t) = False"
| "is_Remove (CPop q) = False" | "is_Remove (CPopAll q) = False"
| "is_Remove (CWqRemove q t) = False" | "is_Remove CRandomNumber = False"
| "is_Remove (CRandomChoice n) = False" | "is_Remove CSpuriousWakeup = False"
| "is_Remove CSpuriousTryFailure = False"

definition is_Pick :: "sched_call \<Rightarrow> bool" where
  "is_Pick c \<longleftrightarrow> (\<exists>now. c = CPickNext now)"

text \<open>An interrupted thread may be about to continue; until the next pick no other is interrupted.\<close>

definition is_Interrupt :: "sched_call \<Rightarrow> bool" where
  "is_Interrupt c \<longleftrightarrow> (\<exists>now t. c = CInterrupt now t)"

fun disciplined :: "'s sched_ops \<Rightarrow> ('s \<Rightarrow> sched_view) \<Rightarrow> ('s \<Rightarrow> bool) \<Rightarrow> (sched_call \<times> threads) list \<Rightarrow> 's \<Rightarrow> bool"
where
  "disciplined d vw stl [] s = True"
| "disciplined d vw stl ((c, ths) # cs) s =
     (call_pre c (vw s) \<and> \<not> is_Remove c \<and> (is_Pick c \<longrightarrow> \<not> IsIdle d s) \<and> (is_Interrupt c \<longrightarrow> stl s) \<and>
      (case invoke d c ths s of Inl _ \<Rightarrow> True | Inr (r, ths1, s1) \<Rightarrow> disciplined d vw stl cs s1))"

text \<open>The calls that hand a thread to the scheduler.\<close>

fun hands :: "sched_call \<Rightarrow> tid option" where
  "hands (CInterrupt now t) = Some t"
| "hands (CSwitchTo t u) = Some t"
| "hands (CYield t) = Some t"
| "hands (CWake t) = Some t"
| "hands (CSpawn t) = Some t"
| "hands _ = None"

lemma call_spec_held:
  assumes "call_spec c r v v'" and "t \<in> held v" and "\<not> (is_Pick c \<and> r = RThread t)" and "\<not> is_Remove c"
  shows "t \<in> held v'"
  using assms by (cases c) (auto simp: is_Pick_def take_waiter_def)

lemma trace_held:
  assumes "trace_spec xs v v'" and "t \<in> held v"
    and "\<forall>(c, r) \<in> set xs. \<not> (is_Pick c \<and> r = RThread t) \<and> \<not> is_Remove c"
  shows "t \<in> held v'"
  using assms
proof (induction xs v v' rule: trace_spec.induct)
  case (2 c r xs v v')
  then obtain w where w: "call_spec c r v w" "trace_spec xs w v'" by auto
  have "t \<in> held w" using call_spec_held [OF w(1)] 2(3,4) by auto
  with 2 w show ?case by auto
qed simp

lemma call_spec_handed:
  assumes "call_spec c r v v'" and "t \<notin> held v" and "hands c \<noteq> Some t"
  shows "t \<notin> held v'"
  using assms by (cases c) (auto simp: take_waiter_def)

lemma trace_handed:
  assumes "trace_spec xs v v'" and "t \<notin> held v" and "t \<in> held v'"
  shows "\<exists>(c, r) \<in> set xs. hands c = Some t"
  using assms
proof (induction xs v v' rule: trace_spec.induct)
  case (2 c r xs v v')
  then obtain w where w: "call_spec c r v w" "trace_spec xs w v'" by auto
  show ?case
  proof (cases "t \<in> held w")
    case True
    then have "hands c = Some t" using call_spec_handed [OF w(1)] 2(3) by blast
    then show ?thesis by auto
  next
    case False
    then show ?thesis using 2 w by fastforce
  qed
qed simp

section \<open>The contract\<close>

text \<open>
  \<open>init\<close> holds between two simulations, \<open>inv\<close> within one.
\<close>

locale scheduler =
  fixes d :: "'s sched_ops"
    and inv :: "'s \<Rightarrow> bool"
    and view :: "'s \<Rightarrow> sched_view"
    and ready :: "'s \<Rightarrow> tid set"
    and settled :: "'s \<Rightarrow> bool"
    and init :: "'s \<Rightarrow> bool"
  assumes start: "init s \<Longrightarrow> Start d s = Inr s' \<Longrightarrow> inv s' \<and> settled s' \<and> view s' = empty_view"
    and drop: "inv s \<Longrightarrow> init (DropWaitQueues d s)"
    and next_init: "init s \<Longrightarrow> NextSchedule d s = (again, s') \<Longrightarrow> init s'"
    and ready_held: "inv s \<Longrightarrow> ready s \<subseteq> held (view s)"
    and idle: "inv s \<Longrightarrow> IsIdle d s \<longleftrightarrow> ready s = {}"
    and step: "inv s \<Longrightarrow> call_pre c (view s) \<Longrightarrow> \<not> is_Remove c \<Longrightarrow> is_Pick c \<longrightarrow> \<not> IsIdle d s \<Longrightarrow>
      is_Interrupt c \<longrightarrow> settled s \<Longrightarrow>
      invoke d c ths s = Inr (r, ths', s') \<Longrightarrow> inv s' \<and> call_spec c r (view s) (view s')"
    and empty: "inv s \<Longrightarrow> wq_IsEmpty d q s \<longleftrightarrow> waiting (view s) q = {}"
    and woken: "inv s \<Longrightarrow> c \<in> {CWake t, CYield t, CSpawn t} \<Longrightarrow> invoke d c ths s = Inr (r, ths', s') \<Longrightarrow>
      t \<in> ready s'"
    and aborts: "invoke d c ths s = Inl (SysAbortEx st) \<Longrightarrow> st = Pruned"
    and settle: "inv s \<Longrightarrow> is_Pick c \<or> settled s \<and> \<not> is_Interrupt c \<Longrightarrow>
      invoke d c ths s = Inr (r, ths', s') \<Longrightarrow> settled s'"
begin

text \<open>A run that keeps to the simulator's side is a trace of the abstract scheduler.\<close>

lemma run_refines:
  assumes "inv s" and "disciplined d view settled cs s" and "sched_run d cs s = Inr (rs, s')"
  shows "inv s' \<and> length rs = length cs \<and> trace_spec (zip (map fst cs) rs) (view s) (view s')"
  using assms
proof (induction cs arbitrary: s rs)
  case Nil
  then show ?case by simp
next
  case (Cons x cs)
  obtain c ths where x: "x = (c, ths)" by fastforce
  from Cons.prems(3) x obtain r ths1 s1 rs1 where i: "invoke d c ths s = Inr (r, ths1, s1)"
    and rs: "sched_run d cs s1 = Inr (rs1, s')" "rs = r # rs1"
    by (auto simp: bindE_eq_Inr)
  from Cons.prems(2) x i have pre: "call_pre c (view s)" "\<not> is_Remove c" "is_Pick c \<longrightarrow> \<not> IsIdle d s"
      "is_Interrupt c \<longrightarrow> settled s"
    and d: "disciplined d view settled cs s1" by auto
  from step [OF Cons.prems(1) pre i] have "inv s1" "call_spec c r (view s) (view s1)" by auto
  with Cons.IH [OF _ d rs(1)] rs(2) x show ?case by auto
qed

lemma run_from_start:
  assumes "init s0" and "Start d s0 = Inr s"
    and "disciplined d view settled cs s" and "sched_run d cs s = Inr (rs, s')"
  shows "length rs = length cs \<and> trace_spec (zip (map fst cs) rs) empty_view (view s') \<and>
     (IsIdle d s' \<longleftrightarrow> ready s' = {}) \<and> ready s' \<subseteq> held (view s')"
proof -
  have S: "inv s" "view s = empty_view" using start [OF assms(1,2)] by auto
  then show ?thesis using run_refines [OF S(1) assms(3,4)] idle ready_held by auto
qed

lemma run_keeps_thread:
  assumes "inv s" and "disciplined d view settled cs s" and "sched_run d cs s = Inr (rs, s')"
    and "t \<in> held (view s)" and "\<forall>i < length cs. is_Pick (fst (cs ! i)) \<longrightarrow> rs ! i \<noteq> RThread t"
  shows "t \<in> held (view s')"
proof -
  note R = run_refines [OF assms(1-3)]
  have "\<not> is_Remove c" if "(c, r) \<in> set (zip (map fst cs) rs)" for c r
    using that assms(2,3)
  proof (induction cs arbitrary: s rs)
    case (Cons x cs)
    then show ?case by (cases x) (fastforce simp: bindE_eq_Inr split: sum.splits)
  qed simp
  moreover have "\<not> (is_Pick c \<and> r = RThread t)" if "(c, r) \<in> set (zip (map fst cs) rs)" for c r
    using that assms(5) R by (auto simp: in_set_zip)
  ultimately show ?thesis using trace_held R assms(4) by blast
qed

end

locale total_scheduler = scheduler +
  assumes hand_over: "inv s \<Longrightarrow> call_pre c (view s) \<Longrightarrow>
      c \<in> {CYield t, CWake t, CSpawn t, CPush q t, CPopAll q} \<Longrightarrow> \<exists>x. invoke d c ths s = Inr x"

locale burning_scheduler = scheduler +
  assumes remove: "inv s \<Longrightarrow> settled s \<Longrightarrow> inv (RemoveThread d t s) \<and>
      view (RemoveThread d t s) = (view s)\<lparr>held := held (view s) - {t}\<rparr>"

end
