(* ===== verification/Link_Queues.thy ===== *)
theory Link_Queues
  imports Prelude Sim_Types Scheduler
begin

text \<open>
  The wait queues that the PCT, the cooperative and the depth-first schedulers keep as intrusive
  lists (\<open>WaitQueue\<close>, \<open>FifoWaitQueue\<close>). A thread has one node for all lists of the tag
  \<open>SchedulerTag\<close>: \<open>IsLinked\<close> asks whether it is in any of them, and \<open>Unlink\<close> takes it out of
  whichever that is. The lists are given by their numbers, \<open>n\<close> of them.
\<close>

definition linked :: "nat \<Rightarrow> (nat \<Rightarrow> tid list) \<Rightarrow> tid \<Rightarrow> bool" where
  "linked n w t \<longleftrightarrow> (\<exists>q \<in> {..<n}. t \<in> set (w q))"

definition unlink :: "tid \<Rightarrow> (nat \<Rightarrow> tid list) \<Rightarrow> nat \<Rightarrow> tid list" where
  "unlink t w = (\<lambda>q. remove1 t (w q))"

definition PushBack :: "nat \<Rightarrow> nat \<Rightarrow> tid \<Rightarrow> (nat \<Rightarrow> tid list) \<Rightarrow> fault + (nat \<Rightarrow> tid list)" where
  "PushBack n q t w =
     (if linked n w t then Inl (Panic ''cannot link already linked node'') else Inr (w(q := w q @ [t])))"

definition PopFront :: "nat \<Rightarrow> (nat \<Rightarrow> tid list) \<Rightarrow> tid option \<times> (nat \<Rightarrow> tid list)" where
  "PopFront q w = (case w q of [] \<Rightarrow> (None, w) | t # ts \<Rightarrow> (Some t, w(q := ts)))"

definition link_Remove :: "nat \<Rightarrow> tid \<Rightarrow> (nat \<Rightarrow> tid list) \<Rightarrow> bool \<times> (nat \<Rightarrow> tid list)" where
  "link_Remove n t w = (if linked n w t then (True, unlink t w) else (False, w))"

section \<open>Queues as sets\<close>

definition queues_ok :: "nat \<Rightarrow> (nat \<Rightarrow> tid list) \<Rightarrow> bool" where
  "queues_ok n w \<longleftrightarrow> (\<forall>q. small (w q)) \<and> (\<forall>q \<ge> n. w q = [])"

lemma linked_iff: "queues_ok n w \<Longrightarrow> linked n w t \<longleftrightarrow> (\<exists>q. t \<in> set (w q))"
  unfolding linked_def queues_ok_def by (metis empty_iff lessThan_iff list.set(1) not_le)

lemma small_append: "small xs \<Longrightarrow> t \<in> thread_ids \<Longrightarrow> t \<notin> set xs \<Longrightarrow> small (xs @ [t])"
  by (auto simp: small_def)

lemma small_remove1: "small xs \<Longrightarrow> small (remove1 t xs)"
  by (auto simp: small_def distinct_remove1 dest: notin_set_remove1 in_set_remove1 [THEN iffD1, rotated]
      set_mp [OF set_remove1_subset])

lemma set_remove1_small: "small xs \<Longrightarrow> set (remove1 t xs) = set xs - {t}"
  by (simp add: small_def set_remove1_eq)

lemma small_tl: "small (x # xs) \<Longrightarrow> small xs \<and> x \<notin> set xs"
  by (simp add: small_def)

lemma PushBack_ok:
  assumes "queues_ok n w" and "q < n" and "t \<in> thread_ids" and "\<forall>q. t \<notin> set (w q)"
  shows "PushBack n q t w = Inr (w(q := w q @ [t]))" and "queues_ok n (w(q := w q @ [t]))"
    and "(\<lambda>q'. set ((w(q := w q @ [t])) q')) = (\<lambda>q. set (w q))(q := insert t (set (w q)))"
  using assms linked_iff [OF assms(1), of t]
  by (auto simp: PushBack_def queues_ok_def small_append fun_eq_iff)

lemma PopFront_ok:
  assumes "queues_ok n w" and "q < n" and "PopFront q w = (r, w')"
  shows "queues_ok n w' \<and> ((w q = [] \<and> r = None \<and> w' = w) \<or>
     (\<exists>t \<in> set (w q). r = Some t \<and> (\<lambda>q'. set (w' q')) = (\<lambda>q. set (w q))(q := set (w q) - {t})))"
proof (cases "w q")
  case (Cons t ts)
  have "small (t # ts)" using assms(1) Cons by (metis queues_ok_def)
  moreover have "r = Some t" "w' = w(q := ts)" using assms(3) Cons by (simp_all add: PopFront_def)
  ultimately show ?thesis using assms(1,2) Cons small_tl [of t ts]
    by (auto simp: queues_ok_def fun_eq_iff)
qed (use assms in \<open>simp add: PopFront_def\<close>)

lemma link_Remove_ok:
  assumes "queues_ok n w" and "\<forall>q'. q' \<noteq> q \<longrightarrow> t \<notin> set (w q')" and "link_Remove n t w = (b, w')"
  shows "queues_ok n w' \<and> b = (t \<in> set (w q)) \<and>
     (\<lambda>q'. set (w' q')) = (\<lambda>q. set (w q))(q := set (w q) - {t})"
proof -
  have l: "linked n w t \<longleftrightarrow> t \<in> set (w q)" using linked_iff [OF assms(1), of t] assms(2) by metis
  have sr: "set (remove1 t (w q')) = set (w q') - {t}" for q'
    using assms(1) by (simp add: queues_ok_def set_remove1_small)
  show ?thesis
  proof (cases "t \<in> set (w q)")
    case True
    then have "b" "w' = unlink t w" using assms(3) l by (auto simp: link_Remove_def)
    then show ?thesis using assms(1,2) sr True
      by (auto simp: unlink_def queues_ok_def small_remove1 fun_eq_iff)
  next
    case False
    then have "w' = w" "\<not> b" using assms(3) l by (simp_all add: link_Remove_def)
    moreover have "set (w q) - {t} = set (w q)" using False by blast
    ultimately show ?thesis using assms(1) False by (simp add: fun_upd_idem)
  qed
qed

text \<open>Taking one entry out of an array by moving the later ones down.\<close>

lemma small_remove_nth:
  assumes "small q" and "i < length q"
  shows "small (take i q @ drop (Suc i) q)" and "set (take i q @ drop (Suc i) q) = set q - {q ! i}"
proof -
  have q: "q = take i q @ q ! i # drop (Suc i) q" using assms(2) by (rule id_take_nth_drop)
  have d: "distinct (take i q @ q ! i # drop (Suc i) q)" using assms(1) q by (simp add: small_def)
  have "set q = insert (q ! i) (set (take i q @ drop (Suc i) q))"
    using q by (metis Un_insert_right list.simps(15) set_append)
  moreover have "q ! i \<notin> set (take i q @ drop (Suc i) q)" using d by auto
  ultimately show s: "set (take i q @ drop (Suc i) q) = set q - {q ! i}" by blast
  have "distinct (take i q @ drop (Suc i) q)" using d by auto
  then show "small (take i q @ drop (Suc i) q)" using assms(1) s unfolding small_def by auto
qed

end
