(* ===== verification/Sched_Client.thy ===== *)
theory Sched_Client
  imports Prelude Sim_Types Scheduler
begin

text \<open>
  A simulation as the scheduler sees it. The simulator and the user program it runs are a
  deterministic client of the scheduler: all they learn from it are the results of its calls. So a
  simulation, with a bound on its length, is a finite tree of calls, branching on the responses.
  \<open>Call c ths k a\<close> makes the call \<open>c\<close> with the simulator's table of threads \<open>ths\<close>, of which only the
  scheduler's own words (\<open>Thread::sched\<close>) belong to the scheduler, and goes on with \<open>k\<close>; \<open>a\<close> is
  its outcome when the scheduler throws the simulation away (\<open>Simulator::Prune\<close>), where the
  threads that are burnt leave a scheduler that the next \<open>Start\<close> resets. \<open>Query\<close> asks whether the
  scheduler is idle, \<open>QueryEmpty\<close> whether one of its wait queues is empty.
\<close>

datatype 'r client =
  Ret 'r
| Die fault
| Call sched_call threads "sched_resp \<Rightarrow> 'r client" "status \<Rightarrow> 'r"
| Query "bool \<Rightarrow> 'r client"
| QueryEmpty nat "bool \<Rightarrow> 'r client"

text \<open>The words of the scheduler in a table of threads.\<close>

definition with_sched :: "threads \<Rightarrow> threads \<Rightarrow> threads" where
  "with_sched ths sch = (\<lambda>t. (ths t)\<lparr>th_sched := th_sched (sch t)\<rparr>)"

definition no_threads :: threads where
  "no_threads = (\<lambda>t. \<lparr>th_id = t, th_parent_id = None, th_state = Starting, th_main = False,
     th_attrs = \<lparr>preemptive = True, lock_free = False\<rparr>, th_action = None, th_load = 0, th_waiter = None,
     th_futex = None, th_timer = None, th_status = StOk, th_runs = 0, th_scope = None,
     th_sched = \<lparr>f1 = 0, f2 = 0\<rparr>,
     th_sync = \<lparr>current = (\<lambda>_. 0), acquire_clock = (\<lambda>_. 0), release_clock = (\<lambda>_. 0), epoch = 0\<rparr>\<rparr>)"

primrec run_client :: "'s sched_ops \<Rightarrow> 'r client \<Rightarrow> threads \<Rightarrow> 's \<Rightarrow> fault + 'r \<times> 's" where
  "run_client d (Ret r) sch s = Inr (r, s)"
| "run_client d (Die f) sch s = Inl f"
| "run_client d (Call c ths k a) sch s =
     (case invoke d c (with_sched ths sch) s of
        Inr (r, sch1, s1) \<Rightarrow> run_client d (k r) sch1 s1
      | Inl (SysAbortEx st) \<Rightarrow> Inr (a st, s)
      | Inl f \<Rightarrow> Inl f)"
| "run_client d (Query k) sch s = run_client d (k (IsIdle d s)) sch s"
| "run_client d (QueryEmpty q k) sch s = run_client d (k (wq_IsEmpty d q s)) sch s"

text \<open>One simulation: the scheduler is started, and at the end the wait queues are destroyed.\<close>

definition run_simulation :: "'s sched_ops \<Rightarrow> 'r client \<Rightarrow> 's \<Rightarrow> fault + 'r \<times> 's" where
  "run_simulation d p s =
     bindE (Start d s) (\<lambda>s1.
     bindE (run_client d p no_threads s1) (\<lambda>(r, s2). Inr (r, DropWaitQueues d s2)))"

text \<open>What every call leaves alone, a simulation leaves alone.\<close>

lemma run_client_keeps:
  assumes "\<And>c ths s r ths' s'. invoke d c ths s = Inr (r, ths', s') \<Longrightarrow> f s' = f s"
  shows "run_client d p sch s = Inr (r, s') \<Longrightarrow> f s' = f s"
proof (induction p arbitrary: sch s)
  case (Call c ths k a)
  show ?case
  proof (cases "invoke d c (with_sched ths sch) s")
    case (Inl e)
    then show ?thesis using Call.prems by (cases e) auto
  next
    case (Inr y)
    obtain r1 sch1 s1 where y: "y = (r1, sch1, s1)" by (cases y)
    have "run_client d (k r1) sch1 s1 = Inr (r, s')" using Call.prems Inr y by simp
    from Call.IH [OF rangeI this] show ?thesis using assms [OF Inr [unfolded y]] by simp
  qed
next
  case (Query k)
  have "run_client d (k (IsIdle d s)) sch s = Inr (r, s')" using Query.prems by simp
  then show ?case by (rule Query.IH [OF rangeI])
next
  case (QueryEmpty q k)
  have "run_client d (k (wq_IsEmpty d q s)) sch s = Inr (r, s')" using QueryEmpty.prems by simp
  then show ?case by (rule QueryEmpty.IH [OF rangeI])
qed auto

section \<open>The client's side of the contract\<close>

text \<open>
  What the simulator must keep to, for every response the contract allows: \<open>v\<close> is what the
  scheduler holds; \<open>busy\<close>: it is known not to be idle, because it just said so or because a thread
  was handed over to be run; \<open>st\<close>: no interrupted thread is waiting for the next pick. The flag \<open>x\<close> says that
  the scheduler is idle only when it holds no thread at all, \<open>b\<close> that it supports the removal of a
  thread. \<open>Q\<close> is what holds of the outcome and of what the scheduler holds in the end, \<open>A\<close> what holds of
  the outcome when the simulation is thrown away, \<open>D\<close> what the client may die of.
\<close>

definition readies :: "sched_call \<Rightarrow> bool" where
  "readies c \<longleftrightarrow> (\<exists>t. c \<in> {CWake t, CYield t, CSpawn t})"

primrec client_wp :: "('r \<Rightarrow> bool) \<Rightarrow> (fault \<Rightarrow> bool) \<Rightarrow> ('r \<Rightarrow> sched_view \<Rightarrow> bool) \<Rightarrow> bool \<Rightarrow> bool \<Rightarrow>
    'r client \<Rightarrow> sched_view \<Rightarrow> bool \<Rightarrow> bool \<Rightarrow> bool" where
  "client_wp A D Q x b (Ret r) v busy st = Q r v"
| "client_wp A D Q x b (Die f) v busy st = D f"
| "client_wp A D Q x b (Call c ths k a) v busy st =
     (call_pre c v \<and> (is_Pick c \<longrightarrow> busy) \<and> (is_Interrupt c \<longrightarrow> st) \<and> (is_Remove c \<longrightarrow> b \<and> st) \<and>
      A (a Pruned) \<and>
      (\<forall>r v'. call_spec c r v v' \<longrightarrow>
         client_wp A D Q x b (k r) v' (readies c) (is_Pick c \<or> st \<and> \<not> is_Interrupt c)))"
| "client_wp A D Q x b (Query k) v busy st =
     ((\<not> busy \<and> (x \<longrightarrow> held v = {}) \<longrightarrow> client_wp A D Q x b (k True) v False True) \<and>
      ((x \<longrightarrow> held v \<noteq> {}) \<longrightarrow> client_wp A D Q x b (k False) v True st))"
| "client_wp A D Q x b (QueryEmpty q k) v busy st = client_wp A D Q x b (k (waiting v q = {})) v busy st"

text \<open>The contract alone: a simulation ends, unless it is thrown away, with no thread in the scheduler.\<close>

definition client_ok :: "bool \<Rightarrow> bool \<Rightarrow> result client \<Rightarrow> sched_view \<Rightarrow> bool \<Rightarrow> bool \<Rightarrow> bool" where
  "client_ok x b = client_wp (\<lambda>r. res_status r = Pruned) (\<lambda>f. True) (\<lambda>r v. x \<longrightarrow> held v = {}) x b"

lemma client_ok_simps [simp]:
  "client_ok x b (Ret r) v busy st = (x \<longrightarrow> held v = {})"
  "client_ok x b (Die f) v busy st = True"
  "client_ok x b (Call c ths k a) v busy st =
     (call_pre c v \<and> (is_Pick c \<longrightarrow> busy) \<and> (is_Interrupt c \<longrightarrow> st) \<and> (is_Remove c \<longrightarrow> b \<and> st) \<and>
      res_status (a Pruned) = Pruned \<and>
      (\<forall>r v'. call_spec c r v v' \<longrightarrow>
         client_ok x b (k r) v' (readies c) (is_Pick c \<or> st \<and> \<not> is_Interrupt c)))"
  "client_ok x b (Query kb) v busy st =
     ((\<not> busy \<and> (x \<longrightarrow> held v = {}) \<longrightarrow> client_ok x b (kb True) v False True) \<and>
      ((x \<longrightarrow> held v \<noteq> {}) \<longrightarrow> client_ok x b (kb False) v True st))"
  "client_ok x b (QueryEmpty q kb) v busy st = client_ok x b (kb (waiting v q = {})) v busy st"
  by (simp_all add: client_ok_def)

text \<open>A weaker demand on the outcome.\<close>

lemma client_wp_mono:
  assumes "\<And>r. A r \<Longrightarrow> A' r" and "\<And>f. D f \<Longrightarrow> D' f" and "\<And>r v. Q r v \<Longrightarrow> Q' r v"
  shows "client_wp A D Q x b p v busy st \<Longrightarrow> client_wp A' D' Q' x b p v busy st"
  by (induction p arbitrary: v busy st) (auto simp: assms)

text \<open>Mapping the outcome of a client.\<close>

lemma client_wp_map:
  "client_wp A D Q x b (map_client f p) v busy st = client_wp (\<lambda>r. A (f r)) D (\<lambda>r. Q (f r)) x b p v busy st"
  by (induction p arbitrary: v busy st) auto

text \<open>A scheduler for such a client: exact when \<open>x\<close>, with removal when \<open>b\<close>.\<close>

locale client_scheduler = scheduler +
  fixes x :: bool and b :: bool
  assumes exact: "x \<Longrightarrow> inv s \<Longrightarrow> held (view s) \<subseteq> ready s"
    and idle_settled: "inv s \<Longrightarrow> IsIdle d s \<Longrightarrow> settled s"
    and burns: "b \<Longrightarrow> inv s \<Longrightarrow> settled s \<Longrightarrow> inv (RemoveThread d t s) \<and>
      view (RemoveThread d t s) = (view s)\<lparr>held := held (view s) - {t}\<rparr>"
begin

lemma exact_idle: "inv s \<Longrightarrow> IsIdle d s \<Longrightarrow> x \<Longrightarrow> held (view s) = {}"
  using exact idle by blast

lemma busy_held: "inv s \<Longrightarrow> \<not> IsIdle d s \<Longrightarrow> held (view s) \<noteq> {}"
  using ready_held idle by blast

text \<open>One call of a client that keeps to its side.\<close>

lemma call_step:
  assumes I: "inv s" and pre: "call_pre c (view s)" and p: "is_Pick c \<longrightarrow> \<not> IsIdle d s"
    and i: "is_Interrupt c \<longrightarrow> settled s" and rm: "is_Remove c \<longrightarrow> b \<and> settled s"
    and ok: "invoke d c ths s = Inr (r, ths', s')"
  shows "inv s' \<and> call_spec c r (view s) (view s') \<and> (readies c \<longrightarrow> \<not> IsIdle d s') \<and>
     (is_Pick c \<or> settled s \<and> \<not> is_Interrupt c \<longrightarrow> settled s')"
proof -
  have S: "inv s' \<and> call_spec c r (view s) (view s')"
  proof (cases "is_Remove c")
    case True
    then obtain t where c: "c = CRemove t" by (cases c) auto
    then have "r = RNone" "s' = RemoveThread d t s" using ok by simp_all
    then show ?thesis using burns [of s t] I rm c by auto
  next
    case False
    then show ?thesis using step [OF I pre False p i ok] by blast
  qed
  moreover have "\<not> IsIdle d s'" if "readies c"
    using that woken [OF I _ ok] idle S by (auto simp: readies_def)
  moreover have "settled s'" if "is_Pick c \<or> settled s \<and> \<not> is_Interrupt c"
    using settle [OF I that ok] .
  ultimately show ?thesis by blast
qed

text \<open>
  A client that keeps to its side keeps the invariant of the scheduler, and its outcome is as it
  promises.
\<close>

lemma run_client_wp:
  assumes "client_wp A D Q x b p (view s) busy st" and "inv s" and "busy \<longrightarrow> \<not> IsIdle d s" and "st \<longrightarrow> settled s"
    and "run_client d p sch s = Inr (r, s')"
  shows "inv s' \<and> (Q r (view s') \<or> A r)"
  using assms
proof (induction p arbitrary: s sch busy st)
  case (Call c ths k a)
  show ?case
  proof (cases "invoke d c (with_sched ths sch) s")
    case (Inl f)
    then obtain st' where "f = SysAbortEx st'" "r = a st'" "s' = s" using Call.prems(5) by (cases f) auto
    then show ?thesis using aborts Inl Call.prems(1,2) by auto
  next
    case (Inr y)
    obtain r1 sch1 s1 where y: "y = (r1, sch1, s1)" by (cases y)
    have C: "inv s1" "call_spec c r1 (view s) (view s1)" "readies c \<longrightarrow> \<not> IsIdle d s1"
        "is_Pick c \<or> settled s \<and> \<not> is_Interrupt c \<longrightarrow> settled s1"
      using call_step [OF Call.prems(2) _ _ _ _ Inr [unfolded y]] Call.prems(1,3,4) by auto
    show ?thesis
      by (rule Call.IH [of _ s1 "readies c" "is_Pick c \<or> st \<and> \<not> is_Interrupt c" sch1])
        (use C Call.prems Inr y in auto)
  qed
next
  case (Query k)
  show ?case
  proof (cases "IsIdle d s")
    case True
    show ?thesis
      by (rule Query.IH [of _ s False True sch]) (use Query.prems True exact_idle idle_settled in auto)
  next
    case False
    show ?thesis
      by (rule Query.IH [of _ s True st sch]) (use Query.prems False busy_held in auto)
  qed
next
  case (QueryEmpty q k)
  show ?case
    by (rule QueryEmpty.IH [of _ s busy st sch]) (use QueryEmpty.prems empty in auto)
qed auto

text \<open>
  When it fails, the client has died of something it may die of, or the scheduler has failed on a call
  that was in order.
\<close>

lemma run_client_fault:
  assumes "client_wp A D Q x b p (view s) busy st" and "inv s" and "busy \<longrightarrow> \<not> IsIdle d s" and "st \<longrightarrow> settled s"
    and "run_client d p sch s = Inl f"
  shows "D f \<or> (\<exists>c ths s1. inv s1 \<and> call_pre c (view s1) \<and> (is_Pick c \<longrightarrow> \<not> IsIdle d s1) \<and>
    (is_Interrupt c \<longrightarrow> settled s1) \<and> invoke d c ths s1 = Inl f \<and> (\<forall>st. f \<noteq> SysAbortEx st))"
  using assms
proof (induction p arbitrary: s sch busy st)
  case (Call c ths k a)
  show ?case
  proof (cases "invoke d c (with_sched ths sch) s")
    case (Inl g)
    then have g: "g = f" "\<forall>st. f \<noteq> SysAbortEx st" using Call.prems(5) by (cases g; auto)+
    with Inl have "invoke d c (with_sched ths sch) s = Inl f" by simp
    moreover have "call_pre c (view s)" "is_Pick c \<longrightarrow> \<not> IsIdle d s" "is_Interrupt c \<longrightarrow> settled s"
      using Call.prems(1,3,4) by auto
    ultimately show ?thesis using Call.prems(2) g(2) by blast
  next
    case (Inr y)
    obtain r1 sch1 s1 where y: "y = (r1, sch1, s1)" by (cases y)
    have C: "inv s1" "call_spec c r1 (view s) (view s1)" "readies c \<longrightarrow> \<not> IsIdle d s1"
        "is_Pick c \<or> settled s \<and> \<not> is_Interrupt c \<longrightarrow> settled s1"
      using call_step [OF Call.prems(2) _ _ _ _ Inr [unfolded y]] Call.prems(1,3,4) by auto
    show ?thesis
      by (rule Call.IH [of _ s1 "readies c" "is_Pick c \<or> st \<and> \<not> is_Interrupt c" sch1])
        (use C Call.prems Inr y in auto)
  qed
next
  case (Query k)
  show ?case
  proof (cases "IsIdle d s")
    case True
    show ?thesis
      by (rule Query.IH [of _ s False True sch]) (use Query.prems True exact_idle idle_settled in auto)
  next
    case False
    show ?thesis
      by (rule Query.IH [of _ s True st sch]) (use Query.prems False busy_held in auto)
  qed
next
  case (QueryEmpty q k)
  show ?case
    by (rule QueryEmpty.IH [of _ s busy st sch]) (use QueryEmpty.prems empty in auto)
qed auto

lemma run_client_inv:
  assumes "client_ok x b p (view s) busy st" and "inv s" and "busy \<longrightarrow> \<not> IsIdle d s" and "st \<longrightarrow> settled s"
    and "run_client d p sch s = Inr (r, s')"
  shows "inv s' \<and> (res_status r \<noteq> Pruned \<longrightarrow> x \<longrightarrow> held (view s') = {})"
  using run_client_wp [OF assms(1) [unfolded client_ok_def] assms(2-5)] by blast

end

end
