(* ===== verification/Replay.thy ===== *)
theory Replay
  imports Prelude Sim_Types Scheduler Sched_Client
begin

text \<open>
  Recording and replaying a simulation (\<open>rt/sim/scheduler/replay/\<close>). The recorder wraps a scheduler
  and writes down every decision it makes: the threads picked and woken, the random numbers and
  choices, the spurious events. The replay scheduler keeps sets of threads only and takes each
  decision from the recorded schedule; a decision of another kind than the one asked for, an unknown
  thread or the end of the schedule is a panic. Recording does not change what the simulation sees,
  and replaying what was recorded, with the same simulation, leads to the same result.
\<close>

section \<open>Schedules\<close>

datatype decision =
  DPickNext tid | DWakeOne "tid option" | DWakeAll "tid option" | DRandomNumber u64
| DRandomChoice nat | DSpuriousWakeup bool | DSpuriousTryFailure bool

type_synonym decisions = "decision list"

section \<open>The recorder\<close>

record 's recorder =
  underlying :: 's
  recorded :: decisions

definition new_recorder :: "'s \<Rightarrow> 's recorder" where
  "new_recorder s = \<lparr>underlying = s, recorded = []\<rparr>"

definition record_decision :: "decision \<Rightarrow> 's recorder \<Rightarrow> 's recorder" where
  "record_decision x s = s\<lparr>recorded := recorded s @ [x]\<rparr>"

definition forward :: "'s step \<Rightarrow> 's recorder step" where
  "forward f ths s = bindE (f ths (underlying s)) (\<lambda>(ths1, u). Inr (ths1, s\<lparr>underlying := u\<rparr>))"

definition rec_NextSchedule :: "'s recorder \<Rightarrow> bool \<times> 's recorder" where
  "rec_NextSchedule s = (False, s)"

definition rec_Start :: "'s sched_ops \<Rightarrow> 's recorder \<Rightarrow> fault + 's recorder" where
  "rec_Start d s = bindE (Start d (underlying s)) (\<lambda>u. Inr (s\<lparr>underlying := u\<rparr>))"

definition rec_PickNext ::
  "'s sched_ops \<Rightarrow> u64 \<Rightarrow> threads \<Rightarrow> 's recorder \<Rightarrow> fault + tid \<times> threads \<times> 's recorder" where
  "rec_PickNext d now ths s =
     bindE (PickNext d now ths (underlying s)) (\<lambda>(next, ths1, u).
     Inr (next, ths1, record_decision (DPickNext next) (s\<lparr>underlying := u\<rparr>)))"

definition rec_Remove :: "'s sched_ops \<Rightarrow> tid \<Rightarrow> 's recorder \<Rightarrow> 's recorder" where
  "rec_Remove d t s = s\<lparr>underlying := RemoveThread d t (underlying s)\<rparr>"

definition rec_NewWaitQueue :: "'s sched_ops \<Rightarrow> 's recorder \<Rightarrow> nat \<times> 's recorder" where
  "rec_NewWaitQueue d s = (let (q, u) = NewWaitQueue d (underlying s) in (q, s\<lparr>underlying := u\<rparr>))"

definition rec_DropWaitQueues :: "'s sched_ops \<Rightarrow> 's recorder \<Rightarrow> 's recorder" where
  "rec_DropWaitQueues d s = s\<lparr>underlying := DropWaitQueues d (underlying s)\<rparr>"

definition rec_wq_Push :: "'s sched_ops \<Rightarrow> nat \<Rightarrow> tid \<Rightarrow> 's recorder \<Rightarrow> fault + 's recorder" where
  "rec_wq_Push d q t s = bindE (wq_Push d q t (underlying s)) (\<lambda>u. Inr (s\<lparr>underlying := u\<rparr>))"

definition rec_wq_Pop :: "'s sched_ops \<Rightarrow> nat \<Rightarrow> 's recorder \<Rightarrow> fault + tid option \<times> 's recorder" where
  "rec_wq_Pop d q s =
     bindE (wq_Pop d q (underlying s)) (\<lambda>(w, u).
     Inr (w, record_decision (DWakeOne w) (s\<lparr>underlying := u\<rparr>)))"

definition rec_wq_PopAll :: "'s sched_ops \<Rightarrow> nat \<Rightarrow> 's recorder \<Rightarrow> fault + tid option \<times> 's recorder" where
  "rec_wq_PopAll d q s =
     bindE (wq_PopAll d q (underlying s)) (\<lambda>(w, u).
     Inr (w, record_decision (DWakeAll w) (s\<lparr>underlying := u\<rparr>)))"

definition rec_wq_Remove :: "'s sched_ops \<Rightarrow> nat \<Rightarrow> tid \<Rightarrow> 's recorder \<Rightarrow> bool \<times> 's recorder" where
  "rec_wq_Remove d q t s = (let (b, u) = wq_Remove d q t (underlying s) in (b, s\<lparr>underlying := u\<rparr>))"

definition rec_RandomNumber :: "'s sched_ops \<Rightarrow> 's recorder \<Rightarrow> fault + u64 \<times> 's recorder" where
  "rec_RandomNumber d s =
     bindE (RandomNumber d (underlying s)) (\<lambda>(v, u).
     Inr (v, record_decision (DRandomNumber v) (s\<lparr>underlying := u\<rparr>)))"

definition rec_RandomChoice :: "'s sched_ops \<Rightarrow> nat \<Rightarrow> 's recorder \<Rightarrow> fault + nat \<times> 's recorder" where
  "rec_RandomChoice d alts s =
     bindE (RandomChoice d alts (underlying s)) (\<lambda>(i, u).
     Inr (i, record_decision (DRandomChoice i) (s\<lparr>underlying := u\<rparr>)))"

definition rec_SpuriousWakeup :: "'s sched_ops \<Rightarrow> 's recorder \<Rightarrow> fault + bool \<times> 's recorder" where
  "rec_SpuriousWakeup d s =
     bindE (SpuriousWakeup d (underlying s)) (\<lambda>(b, u).
     Inr (b, record_decision (DSpuriousWakeup b) (s\<lparr>underlying := u\<rparr>)))"

definition rec_SpuriousTryFailure :: "'s sched_ops \<Rightarrow> 's recorder \<Rightarrow> fault + bool \<times> 's recorder" where
  "rec_SpuriousTryFailure d s =
     bindE (SpuriousTryFailure d (underlying s)) (\<lambda>(b, u).
     Inr (b, record_decision (DSpuriousTryFailure b) (s\<lparr>underlying := u\<rparr>)))"

text \<open>\<open>IsModelChecker\<close> is not forwarded.\<close>

definition recorder_ops :: "'s sched_ops \<Rightarrow> 's recorder sched_ops" where
  "recorder_ops d = \<lparr>NextSchedule = rec_NextSchedule, Start = rec_Start d,
     Interrupt = (\<lambda>now t. forward (Interrupt d now t)), SwitchTo = (\<lambda>t u. forward (SwitchTo d t u)),
     Yield = (\<lambda>t. forward (Yield d t)), Wake = (\<lambda>t. forward (Wake d t)),
     Spawn = (\<lambda>t. forward (Spawn d t)), Exit = (\<lambda>t. forward (Exit d t)),
     LockFree = (\<lambda>t flag. forward (LockFree d t flag)), Progress = (\<lambda>t. forward (Progress d t)),
     NewIter = forward (NewIter d), IsIdle = (\<lambda>s. IsIdle d (underlying s)), PickNext = rec_PickNext d,
     RemoveThread = rec_Remove d, NewWaitQueue = rec_NewWaitQueue d, DropWaitQueues = rec_DropWaitQueues d,
     wq_IsEmpty = (\<lambda>q s. wq_IsEmpty d q (underlying s)), wq_Push = rec_wq_Push d, wq_Pop = rec_wq_Pop d,
     wq_PopAll = rec_wq_PopAll d, wq_Remove = rec_wq_Remove d, RandomNumber = rec_RandomNumber d,
     RandomChoice = rec_RandomChoice d, SpuriousWakeup = rec_SpuriousWakeup d,
     SpuriousTryFailure = rec_SpuriousTryFailure d, IsModelChecker = False\<rparr>"

section \<open>The replay scheduler\<close>

record replay_sched =
  rp_schedule :: decisions
  rp_next :: nat
  rp_run_set :: "tid set"
  rp_queues :: nat
  rp_wait :: "nat \<Rightarrow> tid set"

definition new_replay :: "decisions \<Rightarrow> replay_sched" where
  "new_replay sch = \<lparr>rp_schedule = sch, rp_next = 0, rp_run_set = {}, rp_queues = 0, rp_wait = (\<lambda>_. {})\<rparr>"

text \<open>\<open>Next<T>\<close>; the kind of decision that is expected is told by a projection.\<close>

definition next_decision :: "(decision \<Rightarrow> 'a option) \<Rightarrow> replay_sched \<Rightarrow> fault + 'a \<times> replay_sched" where
  "next_decision get s =
     bindE (verify (rp_next s < length (rp_schedule s)) (Panic ''Unexpected schedule length'')) (\<lambda>_.
     case get (rp_schedule s ! rp_next s) of
       None \<Rightarrow> Inl (Panic ''Decision type mismatch'')
     | Some a \<Rightarrow> Inr (a, s\<lparr>rp_next := rp_next s + 1\<rparr>))"

fun get_PickNext where "get_PickNext (DPickNext t) = Some t" | "get_PickNext _ = None"
fun get_WakeOne where "get_WakeOne (DWakeOne w) = Some w" | "get_WakeOne _ = None"
fun get_WakeAll where "get_WakeAll (DWakeAll w) = Some w" | "get_WakeAll _ = None"
fun get_RandomNumber where "get_RandomNumber (DRandomNumber v) = Some v" | "get_RandomNumber _ = None"
fun get_RandomChoice where "get_RandomChoice (DRandomChoice i) = Some i" | "get_RandomChoice _ = None"
fun get_SpuriousWakeup where
  "get_SpuriousWakeup (DSpuriousWakeup b) = Some b" | "get_SpuriousWakeup _ = None"
fun get_SpuriousTryFailure where
  "get_SpuriousTryFailure (DSpuriousTryFailure b) = Some b" | "get_SpuriousTryFailure _ = None"

definition emplace :: "tid \<Rightarrow> replay_sched step" where
  "emplace t ths s = Inr (ths, s\<lparr>rp_run_set := insert t (rp_run_set s)\<rparr>)"

definition rp_nop :: "replay_sched step" where
  "rp_nop ths s = Inr (ths, s)"

definition rp_PickNext :: "u64 \<Rightarrow> threads \<Rightarrow> replay_sched \<Rightarrow> fault + tid \<times> threads \<times> replay_sched" where
  "rp_PickNext now ths s =
     bindE (next_decision get_PickNext s) (\<lambda>(t, s1).
     bindE (verify (t \<in> rp_run_set s1) (Panic ''Next thread not found in run queue'')) (\<lambda>_.
     Inr (t, ths, s1\<lparr>rp_run_set := rp_run_set s1 - {t}\<rparr>)))"

definition rp_Remove :: "tid \<Rightarrow> replay_sched \<Rightarrow> replay_sched" where
  "rp_Remove t s = s\<lparr>rp_run_set := rp_run_set s - {t}\<rparr>"

definition rp_NewWaitQueue :: "replay_sched \<Rightarrow> nat \<times> replay_sched" where
  "rp_NewWaitQueue s =
     (rp_queues s, s\<lparr>rp_wait := (rp_wait s)(rp_queues s := {}), rp_queues := rp_queues s + 1\<rparr>)"

definition rp_DropWaitQueues :: "replay_sched \<Rightarrow> replay_sched" where
  "rp_DropWaitQueues s = s\<lparr>rp_wait := (\<lambda>_. {}), rp_queues := 0\<rparr>"

definition rp_wq_Push :: "nat \<Rightarrow> tid \<Rightarrow> replay_sched \<Rightarrow> fault + replay_sched" where
  "rp_wq_Push q t s = Inr (s\<lparr>rp_wait := (rp_wait s)(q := insert t (rp_wait s q))\<rparr>)"

definition PopById :: "nat \<Rightarrow> tid \<Rightarrow> replay_sched \<Rightarrow> fault + tid \<times> replay_sched" where
  "PopById q t s =
     bindE (verify (t \<in> rp_wait s q) (Panic ''Fiber not found in wait queue'')) (\<lambda>_.
     Inr (t, s\<lparr>rp_wait := (rp_wait s)(q := rp_wait s q - {t})\<rparr>))"

definition pop_recorded :: "nat \<Rightarrow> tid option \<times> replay_sched \<Rightarrow> fault + tid option \<times> replay_sched" where
  "pop_recorded q = (\<lambda>(w, s). case w of
       None \<Rightarrow> Inr (None, s)
     | Some t \<Rightarrow> bindE (PopById q t s) (\<lambda>(t, s1). Inr (Some t, s1)))"

definition rp_WakeOne :: "nat \<Rightarrow> replay_sched \<Rightarrow> fault + tid option \<times> replay_sched" where
  "rp_WakeOne q s = bindE (next_decision get_WakeOne s) (pop_recorded q)"

definition rp_WakeAll :: "nat \<Rightarrow> replay_sched \<Rightarrow> fault + tid option \<times> replay_sched" where
  "rp_WakeAll q s = bindE (next_decision get_WakeAll s) (pop_recorded q)"

definition rp_wq_Remove :: "nat \<Rightarrow> tid \<Rightarrow> replay_sched \<Rightarrow> bool \<times> replay_sched" where
  "rp_wq_Remove q t s =
     (t \<in> rp_wait s q, s\<lparr>rp_wait := (rp_wait s)(q := rp_wait s q - {t})\<rparr>)"

definition rp_RandomChoice :: "nat \<Rightarrow> replay_sched \<Rightarrow> fault + nat \<times> replay_sched" where
  "rp_RandomChoice alts s =
     bindE (next_decision get_RandomChoice s) (\<lambda>(i, s1).
     bindE (verify (i < alts) (Panic ''Alts mismatch'')) (\<lambda>_. Inr (i, s1)))"

definition replay_ops :: "replay_sched sched_ops" where
  "replay_ops = \<lparr>NextSchedule = (\<lambda>s. (False, s)), Start = Inr, Interrupt = (\<lambda>now t. emplace t),
     SwitchTo = (\<lambda>t u. emplace t), Yield = emplace, Wake = emplace, Spawn = emplace, Exit = (\<lambda>t. rp_nop),
     LockFree = (\<lambda>t flag. rp_nop), Progress = (\<lambda>t. rp_nop), NewIter = rp_nop,
     IsIdle = (\<lambda>s. rp_run_set s = {}), PickNext = rp_PickNext, RemoveThread = rp_Remove,
     NewWaitQueue = rp_NewWaitQueue, DropWaitQueues = rp_DropWaitQueues, wq_IsEmpty = (\<lambda>q s. rp_wait s q = {}),
     wq_Push = rp_wq_Push, wq_Pop = rp_WakeOne, wq_PopAll = rp_WakeAll, wq_Remove = rp_wq_Remove,
     RandomNumber = next_decision get_RandomNumber, RandomChoice = rp_RandomChoice,
     SpuriousWakeup = next_decision get_SpuriousWakeup,
     SpuriousTryFailure = next_decision get_SpuriousTryFailure, IsModelChecker = False\<rparr>"


section \<open>What is recorded for a call\<close>

definition decisions_of :: "sched_call \<Rightarrow> sched_resp \<Rightarrow> decisions" where
  "decisions_of c r = (case c of
       CPickNext now \<Rightarrow> (case r of RThread t \<Rightarrow> [DPickNext t] | _ \<Rightarrow> [])
     | CPop q \<Rightarrow> (case r of RWaiter w \<Rightarrow> [DWakeOne w] | _ \<Rightarrow> [])
     | CPopAll q \<Rightarrow> (case r of RWaiter w \<Rightarrow> [DWakeAll w] | _ \<Rightarrow> [])
     | CRandomNumber \<Rightarrow> (case r of RNumber v \<Rightarrow> [DRandomNumber v] | _ \<Rightarrow> [])
     | CRandomChoice n \<Rightarrow> (case r of RIndex i \<Rightarrow> [DRandomChoice i] | _ \<Rightarrow> [])
     | CSpuriousWakeup \<Rightarrow> (case r of RBool b \<Rightarrow> [DSpuriousWakeup b] | _ \<Rightarrow> [])
     | CSpuriousTryFailure \<Rightarrow> (case r of RBool b \<Rightarrow> [DSpuriousTryFailure b] | _ \<Rightarrow> [])
     | _ \<Rightarrow> [])"

lemma decisions_of_simps [simp]:
  "decisions_of (CInterrupt now t) r = []" "decisions_of (CSwitchTo t u) r = []" "decisions_of (CYield t) r = []"
  "decisions_of (CWake t) r = []" "decisions_of (CSpawn t) r = []" "decisions_of (CExit t) r = []"
  "decisions_of (CLockFree t f) r = []" "decisions_of (CProgress t) r = []" "decisions_of CNewIter r = []"
  "decisions_of (CPickNext now) (RThread t) = [DPickNext t]" "decisions_of (CRemove t) r = []"
  "decisions_of CNewWaitQueue r = []" "decisions_of (CPush q t) r = []"
  "decisions_of (CPop q) (RWaiter w) = [DWakeOne w]" "decisions_of (CPopAll q) (RWaiter w) = [DWakeAll w]"
  "decisions_of (CWqRemove q t) r = []" "decisions_of CRandomNumber (RNumber v) = [DRandomNumber v]"
  "decisions_of (CRandomChoice n) (RIndex i) = [DRandomChoice i]"
  "decisions_of CSpuriousWakeup (RBool b) = [DSpuriousWakeup b]"
  "decisions_of CSpuriousTryFailure (RBool b) = [DSpuriousTryFailure b]"
  by (simp_all add: decisions_of_def)

lemma recorder_invoke:
  "invoke (recorder_ops d) c ths u =
     (case invoke d c ths (underlying u) of Inl f \<Rightarrow> Inl f
      | Inr (r, ths1, s1) \<Rightarrow> Inr (r, ths1, u\<lparr>underlying := s1, recorded := recorded u @ decisions_of c r\<rparr>))"
  by (cases c) (auto simp: recorder_ops_def forward_def quiet_def bindE_def rec_PickNext_def rec_Remove_def
      rec_NewWaitQueue_def rec_wq_Push_def rec_wq_Pop_def rec_wq_PopAll_def rec_wq_Remove_def
      rec_RandomNumber_def rec_RandomChoice_def rec_SpuriousWakeup_def rec_SpuriousTryFailure_def
      record_decision_def split: sum.splits prod.splits)

definition forget :: "fault + 'r \<times> 's recorder \<Rightarrow> fault + 'r \<times> 's" where
  "forget m = bindE m (\<lambda>(r, u). Inr (r, underlying u))"

lemma forget_simps [simp]:
  "forget (Inl f) = Inl f" "forget (Inr (r, u)) = Inr (r, underlying u)"
  by (simp_all add: forget_def)

lemma recorder_run:
  "forget (run_client (recorder_ops d) p sch u) = run_client d p sch (underlying u)"
proof (induction p arbitrary: sch u)
  case (Call c ths k a)
  show ?case
  proof (cases "invoke d c (with_sched ths sch) (underlying u)")
    case (Inl f)
    then show ?thesis by (cases f) (simp_all add: recorder_invoke)
  next
    case (Inr y)
    obtain r sch1 s1 where y: "y = (r, sch1, s1)" by (cases y)
    have "forget (run_client (recorder_ops d) (k r) sch1 (u\<lparr>underlying := s1, recorded := recorded u @ decisions_of c r\<rparr>))
        = run_client d (k r) sch1 s1"
      using Call.IH [of "k r" sch1] by simp
    then show ?thesis using Inr y by (simp add: recorder_invoke)
  qed
qed (auto simp: recorder_ops_def)

section \<open>Replaying a call\<close>

definition remaining :: "replay_sched \<Rightarrow> decisions" where
  "remaining s = drop (rp_next s) (rp_schedule s)"

definition follows :: "sched_view \<Rightarrow> replay_sched \<Rightarrow> bool" where
  "follows v s \<longleftrightarrow> rp_run_set s = held v \<and> rp_wait s = waiting v \<and> rp_queues s = queues v"

lemma next_decision_Cons:
  assumes "remaining s = x # xs" and "get x = Some a"
  shows "next_decision get s = Inr (a, s\<lparr>rp_next := rp_next s + 1\<rparr>)"
    and "remaining (s\<lparr>rp_next := rp_next s + 1\<rparr>) = xs"
proof -
  have l: "rp_next s < length (rp_schedule s)" using assms(1) unfolding remaining_def
    by (metis drop_eq_Nil leI list.distinct(1))
  then have "rp_schedule s ! rp_next s = x" "drop (Suc (rp_next s)) (rp_schedule s) = xs"
    using assms(1) unfolding remaining_def by (auto simp: Cons_nth_drop_Suc [symmetric])
  then show "next_decision get s = Inr (a, s\<lparr>rp_next := rp_next s + 1\<rparr>)"
    and "remaining (s\<lparr>rp_next := rp_next s + 1\<rparr>) = xs"
    using assms(2) l by (simp_all add: next_decision_def remaining_def)
qed

lemma remaining_simps [simp]:
  "remaining (s\<lparr>rp_run_set := X\<rparr>) = remaining s" "remaining (s\<lparr>rp_wait := W\<rparr>) = remaining s"
  "remaining (s\<lparr>rp_queues := n\<rparr>) = remaining s"
  by (simp_all add: remaining_def)

lemma pop_recorded_ok:
  assumes t: "take_waiter q r v v'" and f: "follows v s"
  shows "\<exists>w s'. r = RWaiter w \<and> pop_recorded q (w, s) = Inr (w, s') \<and> follows v' s' \<and> remaining s' = remaining s"
  using assms by (auto simp: take_waiter_def pop_recorded_def PopById_def follows_def)

definition choice_in_range :: "sched_call \<Rightarrow> sched_resp \<Rightarrow> bool" where
  "choice_in_range c r \<longleftrightarrow> (\<forall>n i. c = CRandomChoice n \<longrightarrow> r = RIndex i \<longrightarrow> i < n)"

lemma replay_invoke:
  assumes spec: "call_spec c r v v'" and f: "follows v s" and rem: "remaining s = decisions_of c r @ tail"
    and rng: "choice_in_range c r"
  shows "\<exists>s'. invoke replay_ops c ths s = Inr (r, ths, s') \<and> follows v' s' \<and> remaining s' = tail"
proof (cases c)
  case (CPickNext now)
  then obtain t where t: "t \<in> held v" "r = RThread t" "v' = v\<lparr>held := held v - {t}\<rparr>" using spec by auto
  have "remaining s = DPickNext t # tail" using rem CPickNext t(2) by simp
  note n = next_decision_Cons [OF this, of get_PickNext t]
  then show ?thesis using CPickNext t f by (auto simp: replay_ops_def rp_PickNext_def follows_def)
next
  case (CPop q)
  then have t: "take_waiter q r v v'" using spec by simp
  obtain w where w: "r = RWaiter w" using t by (auto simp: take_waiter_def)
  have "remaining s = DWakeOne w # tail" using rem CPop w by simp
  note n = next_decision_Cons [OF this, of get_WakeOne w]
  have "follows v (s\<lparr>rp_next := rp_next s + 1\<rparr>)" using f by (simp add: follows_def)
  from pop_recorded_ok [OF t this] show ?thesis using n w CPop by (auto simp: replay_ops_def rp_WakeOne_def)
next
  case (CPopAll q)
  then have t: "take_waiter q r v v'" using spec by simp
  obtain w where w: "r = RWaiter w" using t by (auto simp: take_waiter_def)
  have "remaining s = DWakeAll w # tail" using rem CPopAll w by simp
  note n = next_decision_Cons [OF this, of get_WakeAll w]
  have "follows v (s\<lparr>rp_next := rp_next s + 1\<rparr>)" using f by (simp add: follows_def)
  from pop_recorded_ok [OF t this] show ?thesis using n w CPopAll by (auto simp: replay_ops_def rp_WakeAll_def)
next
  case CRandomNumber
  then obtain y where y: "r = RNumber y" "v' = v" using spec by auto
  have "remaining s = DRandomNumber y # tail" using rem CRandomNumber y by simp
  note n = next_decision_Cons [OF this, of get_RandomNumber y]
  then show ?thesis using CRandomNumber y f by (auto simp: replay_ops_def follows_def)
next
  case (CRandomChoice m)
  then obtain i where y: "r = RIndex i" "v' = v" "i < m" using spec rng by (auto simp: choice_in_range_def)
  have "remaining s = DRandomChoice i # tail" using rem CRandomChoice y by simp
  note n = next_decision_Cons [OF this, of get_RandomChoice i]
  then show ?thesis using CRandomChoice y f by (auto simp: replay_ops_def rp_RandomChoice_def follows_def)
next
  case CSpuriousWakeup
  then obtain y where y: "r = RBool y" "v' = v" using spec by auto
  have "remaining s = DSpuriousWakeup y # tail" using rem CSpuriousWakeup y by simp
  note n = next_decision_Cons [OF this, of get_SpuriousWakeup y]
  then show ?thesis using CSpuriousWakeup y f by (auto simp: replay_ops_def follows_def)
next
  case CSpuriousTryFailure
  then obtain y where y: "r = RBool y" "v' = v" using spec by auto
  have "remaining s = DSpuriousTryFailure y # tail" using rem CSpuriousTryFailure y by simp
  note n = next_decision_Cons [OF this, of get_SpuriousTryFailure y]
  then show ?thesis using CSpuriousTryFailure y f by (auto simp: replay_ops_def follows_def)
qed (use spec f rem in \<open>auto simp: replay_ops_def emplace_def rp_nop_def rp_Remove_def rp_NewWaitQueue_def
      rp_wq_Push_def rp_wq_Remove_def follows_def\<close>)

section \<open>The round trip\<close>

text \<open>The choices a scheduler makes in a simulation are among the alternatives.\<close>

primrec in_range :: "'s sched_ops \<Rightarrow> 'r client \<Rightarrow> threads \<Rightarrow> 's \<Rightarrow> bool" where
  "in_range d (Ret r) sch s = True"
| "in_range d (Die f) sch s = True"
| "in_range d (Call c ths k a) sch s =
     (case invoke d c (with_sched ths sch) s of Inl f \<Rightarrow> True
      | Inr (r, sch1, s1) \<Rightarrow> choice_in_range c r \<and> in_range d (k r) sch1 s1)"
| "in_range d (Query k) sch s = in_range d (k (IsIdle d s)) sch s"
| "in_range d (QueryEmpty q k) sch s = in_range d (k (wq_IsEmpty d q s)) sch s"

lemma in_range_always:
  assumes "\<And>n ths s i ths' s'. invoke d (CRandomChoice n) ths s = Inr (RIndex i, ths', s') \<Longrightarrow> i < n"
  shows "in_range d p sch s"
proof (induction p arbitrary: sch s)
  case (Call c ths k a)
  have "choice_in_range c r" if "invoke d c (with_sched ths sch) s = Inr (r, sch1, s1)" for sch s r sch1 s1
    using that assms by (auto simp: choice_in_range_def)
  then show ?case using Call.IH by (auto split: sum.splits)
qed auto

context client_scheduler
begin

lemma replay_run:
  assumes "x" and "client_ok x b p (view (underlying u)) busy st" and "inv (underlying u)"
    and "busy \<longrightarrow> \<not> IsIdle d (underlying u)" and "st \<longrightarrow> settled (underlying u)"
    and "in_range d p sch (underlying u)"
    and "run_client (recorder_ops d) p sch u = Inr (r, u')" and "res_status r \<noteq> Pruned"
  shows "\<exists>ds. recorded u' = recorded u @ ds \<and>
     (\<forall>rp tail sch2. follows (view (underlying u)) rp \<longrightarrow> remaining rp = ds @ tail \<longrightarrow>
        (\<exists>rp'. run_client replay_ops p sch2 rp = Inr (r, rp') \<and> follows (view (underlying u')) rp' \<and>
           remaining rp' = tail))"
  using assms(2-8)
proof (induction p arbitrary: u sch busy st)
  case (Ret r')
  then show ?case by auto
next
  case (Die f)
  then show ?case by simp
next
  case (Call c ths k a)
  let ?s = "underlying u"
  have ok: "\<exists>r1 sch1 s1. invoke d c (with_sched ths sch) ?s = Inr (r1, sch1, s1)"
  proof (cases "invoke d c (with_sched ths sch) ?s")
    case (Inl f)
    then obtain st' where f: "f = SysAbortEx st'" "r = a st'" using Call.prems(6)
      by (cases f) (auto simp: recorder_invoke)
    then show ?thesis using aborts Inl Call.prems(1,7) by auto
  qed auto
  then obtain r1 sch1 s1 where y: "invoke d c (with_sched ths sch) ?s = Inr (r1, sch1, s1)" by blast
  have pre: "call_pre c (view ?s)" "is_Pick c \<longrightarrow> \<not> IsIdle d ?s" "is_Interrupt c \<longrightarrow> settled ?s"
      "is_Remove c \<longrightarrow> b \<and> settled ?s"
    using Call.prems(1,3,4) by auto
  have C: "inv s1" "call_spec c r1 (view ?s) (view s1)" "readies c \<longrightarrow> \<not> IsIdle d s1"
      "is_Pick c \<or> settled ?s \<and> \<not> is_Interrupt c \<longrightarrow> settled s1"
    using call_step [OF Call.prems(2) pre y] by auto
  let ?u1 = "u\<lparr>underlying := s1, recorded := recorded u @ decisions_of c r1\<rparr>"
  have rng: "choice_in_range c r1" "in_range d (k r1) sch1 s1" using Call.prems(5) y by auto
  have run: "run_client (recorder_ops d) (k r1) sch1 ?u1 = Inr (r, u')"
    using Call.prems(6) y by (simp add: recorder_invoke)
  have "\<exists>ds. recorded u' = recorded ?u1 @ ds \<and>
     (\<forall>rp tail sch2. follows (view s1) rp \<longrightarrow> remaining rp = ds @ tail \<longrightarrow>
        (\<exists>rp'. run_client replay_ops (k r1) sch2 rp = Inr (r, rp') \<and> follows (view (underlying u')) rp' \<and>
           remaining rp' = tail))"
    using Call.IH [of "k r1" ?u1 "readies c" "is_Pick c \<or> st \<and> \<not> is_Interrupt c" sch1] C rng(2) run
      Call.prems(1,4,7) by auto
  then obtain ds where ds: "recorded u' = recorded u @ decisions_of c r1 @ ds"
    and re: "\<And>rp tail sch2. follows (view s1) rp \<Longrightarrow> remaining rp = ds @ tail \<Longrightarrow>
        \<exists>rp'. run_client replay_ops (k r1) sch2 rp = Inr (r, rp') \<and> follows (view (underlying u')) rp' \<and>
           remaining rp' = tail" by auto
  have "\<exists>rp'. run_client replay_ops (Call c ths k a) sch2 rp = Inr (r, rp') \<and>
      follows (view (underlying u')) rp' \<and> remaining rp' = tail"
    if f: "follows (view ?s) rp" and rem: "remaining rp = (decisions_of c r1 @ ds) @ tail" for rp tail sch2
  proof -
    have "remaining rp = decisions_of c r1 @ ds @ tail" using rem by simp
    from replay_invoke [OF C(2) f this rng(1), of "with_sched ths sch2"]
    obtain rp1 where 1: "invoke replay_ops c (with_sched ths sch2) rp = Inr (r1, with_sched ths sch2, rp1)"
      "follows (view s1) rp1" "remaining rp1 = ds @ tail" by blast
    then show ?thesis using re [OF 1(2,3), of "with_sched ths sch2"] by simp
  qed
  then show ?case using ds by blast
next
  case (Query k)
  have idle: "IsIdle d (underlying u) \<longleftrightarrow> held (view (underlying u)) = {}"
    using exact_idle [OF Query.prems(2)] busy_held [OF Query.prems(2)] assms(1) by blast
  have e: "IsIdle (recorder_ops d) u = IsIdle d (underlying u)" by (simp add: recorder_ops_def)
  have "\<exists>ds. recorded u' = recorded u @ ds \<and>
     (\<forall>rp tail sch2. follows (view (underlying u)) rp \<longrightarrow> remaining rp = ds @ tail \<longrightarrow>
        (\<exists>rp'. run_client replay_ops (k (IsIdle d (underlying u))) sch2 rp = Inr (r, rp') \<and>
           follows (view (underlying u')) rp' \<and> remaining rp' = tail))"
    using Query.IH [of "k (IsIdle d (underlying u))" u "\<not> IsIdle d (underlying u)" "st \<or> IsIdle d (underlying u)" sch]
      Query.prems e idle idle_settled
    by (cases "IsIdle d (underlying u)") auto
  moreover have "IsIdle replay_ops rp = IsIdle d (underlying u)" if "follows (view (underlying u)) rp" for rp
    using that idle by (simp add: replay_ops_def follows_def)
  ultimately show ?case by auto
next
  case (QueryEmpty q k)
  have e: "wq_IsEmpty d q (underlying u) \<longleftrightarrow> waiting (view (underlying u)) q = {}"
    using empty QueryEmpty.prems(2) by blast
  have "wq_IsEmpty replay_ops q rp = wq_IsEmpty d q (underlying u)" if "follows (view (underlying u)) rp" for rp
    using that e by (simp add: replay_ops_def follows_def)
  moreover have "\<exists>ds. recorded u' = recorded u @ ds \<and>
     (\<forall>rp tail sch2. follows (view (underlying u)) rp \<longrightarrow> remaining rp = ds @ tail \<longrightarrow>
        (\<exists>rp'. run_client replay_ops (k (wq_IsEmpty d q (underlying u))) sch2 rp = Inr (r, rp') \<and>
           follows (view (underlying u')) rp' \<and> remaining rp' = tail))"
    using QueryEmpty.IH [of "k (wq_IsEmpty d q (underlying u))" u busy st sch] QueryEmpty.prems e
    by (auto simp: recorder_ops_def)
  ultimately show ?case by auto
qed

text \<open>A whole simulation: recorded with the same result, and replayed to the same result.\<close>

lemma replay_simulation:
  assumes "x" and "init s" and st: "Start d s = Inr s1" and ok: "client_ok x b p empty_view False True"
    and "in_range d p no_threads s1" and run: "run_client d p no_threads s1 = Inr (r, s2)"
    and np: "res_status r \<noteq> Pruned"
  shows "\<exists>u rp. run_simulation (recorder_ops d) p (new_recorder s) = Inr (r, u) \<and>
     underlying u = DropWaitQueues d s2 \<and>
     run_simulation replay_ops p (new_replay (recorded u)) = Inr (r, rp) \<and> rp_run_set rp = {} \<and> remaining rp = []"
proof -
  have S: "inv s1" "settled s1" "view s1 = empty_view" using start [OF assms(2,3)] by auto
  let ?u = "\<lparr>underlying = s1, recorded = []\<rparr>"
  have "forget (run_client (recorder_ops d) p no_threads ?u) = Inr (r, s2)"
    using recorder_run [of d p no_threads ?u] run by simp
  then obtain u1 where u1: "run_client (recorder_ops d) p no_threads ?u = Inr (r, u1)" "underlying u1 = s2"
    by (cases "run_client (recorder_ops d) p no_threads ?u") auto
  from replay_run [OF assms(1) _ _ _ _ _ u1(1) np, of False True] obtain ds where
    ds: "recorded u1 = ds" and re: "\<And>rp tail sch2. follows empty_view rp \<Longrightarrow> remaining rp = ds @ tail \<Longrightarrow>
        \<exists>rp'. run_client replay_ops p sch2 rp = Inr (r, rp') \<and> follows (view s2) rp' \<and> remaining rp' = tail"
    using S ok assms(5) u1(2) by auto
  have "follows empty_view (new_replay ds)" "remaining (new_replay ds) = ds @ []"
    by (simp_all add: follows_def new_replay_def empty_view_def remaining_def)
  from re [OF this, of no_threads] obtain rp where rp: "run_client replay_ops p no_threads (new_replay ds) = Inr (r, rp)"
    "follows (view s2) rp" "remaining rp = []" by blast
  have "held (view s2) = {}" using run_client_inv [of p s1 False True no_threads r s2] S ok run np assms(1) by simp
  then have "rp_run_set rp = {}" using rp(2) by (simp add: follows_def)
  moreover have "run_simulation (recorder_ops d) p (new_recorder s) = Inr (r, u1\<lparr>underlying := DropWaitQueues d s2\<rparr>)"
    using st u1 by (simp add: run_simulation_def recorder_ops_def rec_Start_def new_recorder_def rec_DropWaitQueues_def)
  moreover have "run_simulation replay_ops p (new_replay ds) = Inr (r, rp\<lparr>rp_wait := \<lambda>_. {}, rp_queues := 0\<rparr>)"
    using rp(1) by (simp add: run_simulation_def replay_ops_def rp_DropWaitQueues_def)
  ultimately show ?thesis using rp(3) ds
    by (intro exI [of _ "u1\<lparr>underlying := DropWaitQueues d s2\<rparr>"] exI [of _ "rp\<lparr>rp_wait := \<lambda>_. {}, rp_queues := 0\<rparr>"]) simp
qed

text \<open>The same for a scheduler whose random choices are always among the alternatives.\<close>

lemma replay_any:
  assumes "x" and "init s" and ok: "client_ok x b p empty_view False True"
    and choice: "\<And>n ths s i ths' s'. invoke d (CRandomChoice n) ths s = Inr (RIndex i, ths', s') \<Longrightarrow> i < n"
    and run: "run_simulation d p s = Inr (r, s')" and np: "res_status r \<noteq> Pruned"
  shows "\<exists>u rp. run_simulation (recorder_ops d) p (new_recorder s) = Inr (r, u) \<and> underlying u = s' \<and>
     run_simulation replay_ops p (new_replay (recorded u)) = Inr (r, rp) \<and> rp_run_set rp = {} \<and> remaining rp = []"
proof -
  obtain s1 s2 where R: "Start d s = Inr s1" "run_client d p no_threads s1 = Inr (r, s2)" "s' = DropWaitQueues d s2"
    using run by (auto simp: run_simulation_def bindE_eq_Inr)
  have "in_range d p no_threads s1" by (rule in_range_always) (rule choice)
  from replay_simulation [OF assms(1,2) R(1) ok this R(2) np] show ?thesis using R(3) by blast
qed

end

section \<open>A sample simulation\<close>

text \<open>Two threads race: the simulation fails when the second one is picked first.\<close>

definition race_result :: "status \<Rightarrow> result" where
  "race_result st = \<lparr>res_status = st, res_threads = 2, res_iters = 2, res_digest = 5\<rparr>"

definition racers :: "result client" where
  "racers =
     Call (CSpawn 1) no_threads (\<lambda>_.
     Call (CSpawn 2) no_threads (\<lambda>_.
     Call (CPickNext 0) no_threads (\<lambda>r.
     Query (\<lambda>idle. if idle then Ret (race_result Ok)
       else Call (CPickNext 1) no_threads (\<lambda>_. Ret (race_result (if r = RThread 2 then Deadlock else Ok)))
              race_result)) race_result) race_result) race_result"

lemma racers_ok: "client_ok True b racers empty_view False True"
  by (auto simp: racers_def empty_view_def thread_ids_def somewhere_def race_result_def readies_def kMaxThreads_def
      is_Pick_def is_Interrupt_def)

lemma racers_in_range: "in_range d racers sch s"
  by (simp add: racers_def choice_in_range_def split: sum.split)

end
