(* ===== verification/Random_Scheduler.thy ===== *)
theory Random_Scheduler
  imports Prelude Sim_Types Random_Base Scheduler Sched_Client Replay
begin

text \<open>
  The random scheduler (\<open>rt/sim/scheduler/random/\<close>). A \<open>ThreadSet\<close> is the list of its occupied
  slots. The wait queues the scheduler has made live in its state, since \<open>Pop\<close> draws from the
  scheduler's generator. Dereferencing a null thread and dividing by zero are panics.
\<close>

section \<open>Thread sets\<close>

definition IsFull :: "tid list \<Rightarrow> bool" where
  "IsFull xs \<longleftrightarrow> length xs = kMaxThreads"

definition set_Push :: "tid \<Rightarrow> tid list \<Rightarrow> fault + tid list" where
  "set_Push t xs = (if IsFull xs then Inl (Panic ''Twist thread limit reached'') else Inr (xs @ [t]))"

definition set_PopAll :: "tid list \<Rightarrow> tid option \<times> tid list" where
  "set_PopAll xs = (if xs = [] then (None, xs) else (Some (last xs), butlast xs))"

definition PopRandom :: "u64 \<Rightarrow> tid list \<Rightarrow> tid option \<times> tid list" where
  "PopRandom r xs =
     (if xs = [] then (None, xs)
      else let index = unat r mod length xs in (Some (xs ! index), swap_remove index xs))"

definition set_Remove :: "tid \<Rightarrow> tid list \<Rightarrow> bool \<times> tid list" where
  "set_Remove t xs = (case find_index (\<lambda>x. x = t) xs of
       None \<Rightarrow> (False, xs) | Some i \<Rightarrow> (True, swap_remove i xs))"

section \<open>State\<close>

record rational =
  num :: u64
  denom :: u64

record random_params =
  rp_seed :: u64
  rp_max_runs :: "nat option"
  rp_spurious_wakeups :: rational
  rp_spurious_failures :: rational
  rp_time_slice :: nat
  rp_lock_free :: bool
  rp_lf_progress_streak_to_resume :: nat
  rp_lf_suspended_threads_limit :: nat

definition default_random_params :: "u64 \<Rightarrow> random_params" where
  "default_random_params s = \<lparr>rp_seed = s, rp_max_runs = None,
     rp_spurious_wakeups = \<lparr>num = 1, denom = 7\<rparr>, rp_spurious_failures = \<lparr>num = 1, denom = 7\<rparr>,
     rp_time_slice = 15, rp_lock_free = True, rp_lf_progress_streak_to_resume = 4,
     rp_lf_suspended_threads_limit = 1\<rparr>"

record random_sched =
  rs_params :: random_params
  rs_seed :: u64
  rs_random :: wyrand
  rs_runs :: nat
  rs_run_queue :: "tid list"
  rs_next :: "tid option"
  rs_lf_thread_count :: nat
  rs_lf_progress_streak :: nat
  rs_suspended :: "tid list"
  rs_preempt_count :: nat
  rs_queues :: nat
  rs_wait :: "nat \<Rightarrow> tid list"

definition new_random_sched :: "random_params \<Rightarrow> random_sched" where
  "new_random_sched p = \<lparr>rs_params = p, rs_seed = rp_seed p, rs_random = \<lparr>wy_state = rp_seed p\<rparr>,
     rs_runs = 0, rs_run_queue = [], rs_next = None, rs_lf_thread_count = 0,
     rs_lf_progress_streak = 0, rs_suspended = [], rs_preempt_count = 0, rs_queues = 0,
     rs_wait = (\<lambda>_. [])\<rparr>"

text \<open>One draw from the generator.\<close>

definition draw :: "random_sched \<Rightarrow> u64 \<times> random_sched" where
  "draw s = (let (r, g) = Next (rs_random s) in (r, s\<lparr>rs_random := g\<rparr>))"

definition rnd_push :: "tid \<Rightarrow> random_sched \<Rightarrow> fault + random_sched" where
  "rnd_push t s = bindE (set_Push t (rs_run_queue s)) (\<lambda>q. Inr (s\<lparr>rs_run_queue := q\<rparr>))"

section \<open>Runs\<close>

definition rnd_NextSchedule :: "random_sched \<Rightarrow> bool \<times> random_sched" where
  "rnd_NextSchedule s =
     (case rp_max_runs (rs_params s) of
        Some m \<Rightarrow>
          let s1 = s\<lparr>rs_runs := rs_runs s + 1\<rparr>
          in if rs_runs s1 > m then (False, s1)
             else (True, s1\<lparr>rs_seed := HashCombine (rs_seed s1) (of_nat (rs_runs s1))\<rparr>)
      | None \<Rightarrow> (True, s\<lparr>rs_seed := HashCombine (rs_seed s) (of_nat (rs_runs s))\<rparr>))"

definition rnd_Start :: "random_sched \<Rightarrow> fault + random_sched" where
  "rnd_Start s = Inr (s\<lparr>rs_random := Seed (rs_seed s) (rs_random s), rs_preempt_count := 0,
     rs_lf_thread_count := 0, rs_lf_progress_streak := 0, rs_suspended := [], rs_run_queue := [],
     rs_next := None\<rparr>)"

section \<open>Lock-freedom\<close>

definition LfResume1 :: "tid \<Rightarrow> random_sched step" where
  "LfResume1 t ths s =
     (if \<not> lock_free (th_attrs (ths t)) then Inl (Panic ''assert'')
      else bindE (rnd_push t s) (\<lambda>s1. Inr (set_state t Runnable ths, s1)))"

definition LfResume :: "random_sched step" where
  "LfResume ths s =
     (if rs_suspended s = [] then Inr (ths, s)
      else let (r, s1) = draw s
           in case PopRandom r (rs_suspended s1) of
                (Some t, rest) \<Rightarrow> LfResume1 t ths (s1\<lparr>rs_suspended := rest\<rparr>)
              | (None, rest) \<Rightarrow> Inl (Panic ''null thread''))"

definition LfEnter :: "tid \<Rightarrow> random_sched step" where
  "LfEnter t ths s = Inr (ths, s\<lparr>rs_lf_thread_count := rs_lf_thread_count s + 1\<rparr>)"

definition LfExit :: "tid \<Rightarrow> random_sched step" where
  "LfExit t ths s =
     (if \<not> rs_lf_thread_count s > 0 then Inl (Panic ''assert'')
      else LfResume ths (s\<lparr>rs_lf_thread_count := rs_lf_thread_count s - 1\<rparr>))"

fun LfIsPotentialSuspensionPoint :: "action_type \<Rightarrow> bool" where
  "LfIsPotentialSuspensionPoint AtomicRmwLoad = True"
| "LfIsPotentialSuspensionPoint AtomicStore = True"
| "LfIsPotentialSuspensionPoint _ = False"

definition ToLfSuspend :: "tid \<Rightarrow> threads \<Rightarrow> random_sched \<Rightarrow> fault + bool \<times> random_sched" where
  "ToLfSuspend t ths s =
     (if \<not> rp_lock_free (rs_params s) then Inr (False, s)
      else if \<not> lock_free (th_attrs (ths t)) \<or> \<not> preemptive (th_attrs (ths t)) then Inr (False, s)
      else if f2 (th_sched (ths t)) = 1 then Inr (False, s)
      else case th_action (ths t) of
        None \<Rightarrow> Inl (Panic ''assert'')
      | Some a \<Rightarrow>
          if \<not> LfIsPotentialSuspensionPoint (act_type a) then Inr (False, s)
          else if length (rs_suspended s) \<ge> rp_lf_suspended_threads_limit (rs_params s) then Inr (False, s)
          else if 1 + length (rs_suspended s) \<ge> rs_lf_thread_count s then Inr (False, s)
          else let (r, s1) = draw s in Inr (r mod 7 = 0, s1))"

definition LfSuspend :: "tid \<Rightarrow> random_sched step" where
  "LfSuspend t ths s =
     bindE (set_Push t (rs_suspended s)) (\<lambda>q.
     Inr (set_f2 t 1 (set_state t LfSuspended ths), s\<lparr>rs_suspended := q\<rparr>))"

definition LfProgress :: "tid \<Rightarrow> random_sched step" where
  "LfProgress t ths s =
     (let ths1 = set_f2 t 0 ths;
          s1 = s\<lparr>rs_lf_progress_streak := rs_lf_progress_streak s + 1\<rparr>
      in if rs_lf_progress_streak s1 \<ge> rp_lf_progress_streak_to_resume (rs_params s1)
         then bindE (LfResume ths1 s1) (\<lambda>(ths2, s2). Inr (ths2, s2\<lparr>rs_lf_progress_streak := 0\<rparr>))
         else Inr (ths1, s1))"

section \<open>Preemption\<close>

definition ToPreempt :: "u64 \<Rightarrow> tid \<Rightarrow> threads \<Rightarrow> bool" where
  "ToPreempt now t ths =
     (if \<not> preemptive (th_attrs (ths t)) then False else now \<ge> f1 (th_sched (ths t)))"

definition rnd_Preempt :: "tid \<Rightarrow> random_sched \<Rightarrow> fault + random_sched" where
  "rnd_Preempt t s =
     bindE (rnd_push t s) (\<lambda>s1. Inr (s1\<lparr>rs_preempt_count := rs_preempt_count s1 + 1\<rparr>))"

definition rnd_Interrupt :: "u64 \<Rightarrow> tid \<Rightarrow> random_sched step" where
  "rnd_Interrupt now t ths s =
     (if ToPreempt now t ths then bindE (rnd_Preempt t s) (\<lambda>s1. Inr (ths, s1))
      else bindE (ToLfSuspend t ths s) (\<lambda>(suspend, s1).
        if suspend then LfSuspend t ths s1 else Inr (ths, s1\<lparr>rs_next := Some t\<rparr>)))"

section \<open>The rest of the interface\<close>

definition rnd_SwitchTo :: "tid \<Rightarrow> tid \<Rightarrow> random_sched step" where
  "rnd_SwitchTo t u ths s = Inl (Panic ''SwitchTo not supported by RandomScheduler'')"

definition rnd_Yield :: "tid \<Rightarrow> random_sched step" where
  "rnd_Yield t ths s = bindE (rnd_push t s) (\<lambda>s1. Inr (ths, s1))"

definition rnd_Wake :: "tid \<Rightarrow> random_sched step" where
  "rnd_Wake t ths s = bindE (rnd_push t s) (\<lambda>s1. Inr (ths, s1))"

definition rnd_Spawn :: "tid \<Rightarrow> random_sched step" where
  "rnd_Spawn t ths s = bindE (rnd_push t s) (\<lambda>s1. Inr (set_f2 t 0 (set_f1 t 0 ths), s1))"

definition rnd_Exit :: "tid \<Rightarrow> random_sched step" where
  "rnd_Exit t ths s = (if lock_free (th_attrs (ths t)) then Inl (Panic ''assert'') else Inr (ths, s))"

definition rnd_LockFree :: "tid \<Rightarrow> bool \<Rightarrow> random_sched step" where
  "rnd_LockFree t flag ths s =
     (if lock_free (th_attrs (ths t)) \<noteq> flag then Inl (Panic ''assert'')
      else if flag then LfEnter t ths s else LfExit t ths s)"

definition rnd_Progress :: "tid \<Rightarrow> random_sched step" where
  "rnd_Progress t ths s = (if lock_free (th_attrs (ths t)) then LfProgress t ths s else Inr (ths, s))"

definition rnd_NewIter :: "random_sched step" where
  "rnd_NewIter ths s = Inr (ths, s)"

definition rnd_IsIdle :: "random_sched \<Rightarrow> bool" where
  "rnd_IsIdle s \<longleftrightarrow> rs_run_queue s = [] \<and> rs_next s = None"

definition RandomTimeSliceInTicks :: "random_sched \<Rightarrow> fault + u64 \<times> random_sched" where
  "RandomTimeSliceInTicks s =
     (if rp_time_slice (rs_params s) = 0 then Inl (Panic ''division by zero'')
      else let (r, s1) = draw s in Inr (of_nat (unat r mod rp_time_slice (rs_params s)), s1))"

definition PickNextFromRunQueue :: "u64 \<Rightarrow> threads \<Rightarrow> random_sched \<Rightarrow> fault + tid \<times> threads \<times> random_sched" where
  "PickNextFromRunQueue now ths s =
     (let (r, s1) = draw s
      in case PopRandom r (rs_run_queue s1) of
           (None, rest) \<Rightarrow> Inl (Panic ''null thread'')
         | (Some t, rest) \<Rightarrow>
             bindE (RandomTimeSliceInTicks (s1\<lparr>rs_run_queue := rest\<rparr>)) (\<lambda>(slice, s2).
             Inr (t, set_f1 t (now + slice) ths, s2)))"

definition rnd_PickNext :: "u64 \<Rightarrow> threads \<Rightarrow> random_sched \<Rightarrow> fault + tid \<times> threads \<times> random_sched" where
  "rnd_PickNext now ths s =
     (case rs_next s of
        Some t \<Rightarrow> Inr (t, ths, s\<lparr>rs_next := None\<rparr>)
      | None \<Rightarrow> PickNextFromRunQueue now ths s)"

definition rnd_Remove :: "tid \<Rightarrow> random_sched \<Rightarrow> random_sched" where
  "rnd_Remove t s = s\<lparr>rs_run_queue := snd (set_Remove t (rs_run_queue s)),
     rs_suspended := snd (set_Remove t (rs_suspended s))\<rparr>"

definition rnd_RandomNumber :: "random_sched \<Rightarrow> fault + u64 \<times> random_sched" where
  "rnd_RandomNumber s = Inr (draw s)"

definition rnd_RandomChoice :: "nat \<Rightarrow> random_sched \<Rightarrow> fault + nat \<times> random_sched" where
  "rnd_RandomChoice alts s =
     (if alts = 0 then Inl (Panic ''division by zero'')
      else let (r, s1) = draw s in Inr (unat r mod alts, s1))"

definition Spurious :: "rational \<Rightarrow> random_sched \<Rightarrow> fault + bool \<times> random_sched" where
  "Spurious p s =
     (if denom p = 0 then Inl (Panic ''division by zero'')
      else let (r, s1) = draw s in Inr (r mod denom p < num p, s1))"

definition rnd_SpuriousWakeup :: "random_sched \<Rightarrow> fault + bool \<times> random_sched" where
  "rnd_SpuriousWakeup s = Spurious (rp_spurious_wakeups (rs_params s)) s"

definition rnd_SpuriousTryFailure :: "random_sched \<Rightarrow> fault + bool \<times> random_sched" where
  "rnd_SpuriousTryFailure s = Spurious (rp_spurious_failures (rs_params s)) s"

section \<open>Wait queues\<close>

definition rnd_NewWaitQueue :: "random_sched \<Rightarrow> nat \<times> random_sched" where
  "rnd_NewWaitQueue s = (rs_queues s,
     s\<lparr>rs_wait := (rs_wait s)(rs_queues s := []), rs_queues := rs_queues s + 1\<rparr>)"

definition rnd_DropWaitQueues :: "random_sched \<Rightarrow> random_sched" where
  "rnd_DropWaitQueues s = s\<lparr>rs_wait := (\<lambda>_. []), rs_queues := 0\<rparr>"

definition rnd_wq_IsEmpty :: "nat \<Rightarrow> random_sched \<Rightarrow> bool" where
  "rnd_wq_IsEmpty q s \<longleftrightarrow> rs_wait s q = []"

definition put_wait :: "nat \<Rightarrow> tid list \<Rightarrow> random_sched \<Rightarrow> random_sched" where
  "put_wait q xs s = s\<lparr>rs_wait := (rs_wait s)(q := xs)\<rparr>"

definition rnd_wq_Push :: "nat \<Rightarrow> tid \<Rightarrow> random_sched \<Rightarrow> fault + random_sched" where
  "rnd_wq_Push q t s = bindE (set_Push t (rs_wait s q)) (\<lambda>xs. Inr (put_wait q xs s))"

definition rnd_wq_Pop :: "nat \<Rightarrow> random_sched \<Rightarrow> fault + tid option \<times> random_sched" where
  "rnd_wq_Pop q s =
     bindE (rnd_RandomNumber s) (\<lambda>(r, s1).
     let (w, xs) = PopRandom r (rs_wait s1 q) in Inr (w, put_wait q xs s1))"

definition rnd_wq_PopAll :: "nat \<Rightarrow> random_sched \<Rightarrow> fault + tid option \<times> random_sched" where
  "rnd_wq_PopAll q s = (let (w, xs) = set_PopAll (rs_wait s q) in Inr (w, put_wait q xs s))"

definition rnd_wq_Remove :: "nat \<Rightarrow> tid \<Rightarrow> random_sched \<Rightarrow> bool \<times> random_sched" where
  "rnd_wq_Remove q t s = (let (b, xs) = set_Remove t (rs_wait s q) in (b, put_wait q xs s))"

definition random_ops :: "random_sched sched_ops" where
  "random_ops = \<lparr>NextSchedule = rnd_NextSchedule, Start = rnd_Start, Interrupt = rnd_Interrupt,
     SwitchTo = rnd_SwitchTo, Yield = rnd_Yield, Wake = rnd_Wake, Spawn = rnd_Spawn, Exit = rnd_Exit,
     LockFree = rnd_LockFree, Progress = rnd_Progress, NewIter = rnd_NewIter, IsIdle = rnd_IsIdle,
     PickNext = rnd_PickNext, RemoveThread = rnd_Remove, NewWaitQueue = rnd_NewWaitQueue, DropWaitQueues = rnd_DropWaitQueues,
     wq_IsEmpty = rnd_wq_IsEmpty, wq_Push = rnd_wq_Push, wq_Pop = rnd_wq_Pop,
     wq_PopAll = rnd_wq_PopAll, wq_Remove = rnd_wq_Remove, RandomNumber = rnd_RandomNumber,
     RandomChoice = rnd_RandomChoice, SpuriousWakeup = rnd_SpuriousWakeup,
     SpuriousTryFailure = rnd_SpuriousTryFailure, IsModelChecker = False\<rparr>"


section \<open>Thread sets as sets\<close>

lemma small_not_full: "small xs \<Longrightarrow> t \<in> thread_ids \<Longrightarrow> t \<notin> set xs \<Longrightarrow> \<not> IsFull xs"
  unfolding small_def thread_ids_def IsFull_def
  using length_distinct_interval_less [of xs kMaxThreads t] by auto

lemma set_Push_small:
  assumes "small xs" and "t \<in> thread_ids" and "t \<notin> set xs"
  shows "set_Push t xs = Inr (xs @ [t])" and "small (xs @ [t])"
  using assms small_not_full [OF assms] by (auto simp: set_Push_def small_def)

lemma small_swap_remove:
  assumes "small xs" and "i < length xs"
  shows "small (swap_remove i xs)" and "set (swap_remove i xs) = set xs - {xs ! i}"
  using assms distinct_swap_remove [of i xs] by (auto simp: small_def)

lemma PopRandom_small:
  assumes "small xs" and "PopRandom r xs = (w, ys)"
  shows "(xs = [] \<and> w = None \<and> ys = []) \<or> (\<exists>t \<in> set xs. w = Some t \<and> small ys \<and> set ys = set xs - {t})"
proof (cases "xs = []")
  case False
  let ?i = "unat r mod length xs"
  have i: "?i < length xs" using False by simp
  have "w = Some (xs ! ?i)" "ys = swap_remove ?i xs" using assms(2) False by (auto simp: PopRandom_def Let_def)
  then show ?thesis using small_swap_remove [OF assms(1) i] i by auto
qed (use assms in \<open>auto simp: PopRandom_def\<close>)

lemma set_PopAll_small:
  assumes "small xs" and "set_PopAll xs = (w, ys)"
  shows "(xs = [] \<and> w = None \<and> ys = []) \<or> (\<exists>t \<in> set xs. w = Some t \<and> small ys \<and> set ys = set xs - {t})"
proof (cases "xs = []")
  case False
  then obtain zs z where "xs = zs @ [z]" by (metis append_butlast_last_id)
  then show ?thesis using assms by (auto simp: set_PopAll_def small_def)
qed (use assms in \<open>auto simp: set_PopAll_def\<close>)

lemma set_Remove_small:
  assumes "small xs" and "set_Remove t xs = (b, ys)"
  shows "b = (t \<in> set xs)" and "small ys" and "set ys = set xs - {t}"
proof -
  have "b = (t \<in> set xs) \<and> small ys \<and> set ys = set xs - {t}"
  proof (cases "find_index (\<lambda>x. x = t) xs")
    case None
    then have "t \<notin> set xs" by (auto simp: find_index_None)
    then show ?thesis using assms None by (auto simp: set_Remove_def)
  next
    case (Some i)
    then have i: "i < length xs" "xs ! i = t" using find_index_Some [OF Some] by auto
    then have "t \<in> set xs" by auto
    then show ?thesis using assms Some small_swap_remove [OF assms(1) i(1)] i(2)
      by (auto simp: set_Remove_def)
  qed
  then show "b = (t \<in> set xs)" "small ys" "set ys = set xs - {t}" by auto
qed

section \<open>The contract\<close>

definition rnd_init :: "random_sched \<Rightarrow> bool" where
  "rnd_init s \<longleftrightarrow> rs_queues s = 0 \<and> rs_wait s = (\<lambda>_. [])"

definition rnd_inv :: "random_sched \<Rightarrow> bool" where
  "rnd_inv s \<longleftrightarrow> small (rs_run_queue s) \<and> small (rs_suspended s) \<and>
     (\<forall>t. rs_next s = Some t \<longrightarrow>
        t \<in> thread_ids \<and> t \<notin> set (rs_run_queue s) \<and> t \<notin> set (rs_suspended s)) \<and>
     set (rs_run_queue s) \<inter> set (rs_suspended s) = {} \<and>
     (\<forall>q. small (rs_wait s q)) \<and> (\<forall>q \<ge> rs_queues s. rs_wait s q = [])"

definition rnd_ready :: "random_sched \<Rightarrow> tid set" where
  "rnd_ready s = set (rs_run_queue s) \<union> set_option (rs_next s)"

definition rnd_view :: "random_sched \<Rightarrow> sched_view" where
  "rnd_view s = \<lparr>held = rnd_ready s \<union> set (rs_suspended s), waiting = (\<lambda>q. set (rs_wait s q)),
     queues = rs_queues s\<rparr>"

lemma rnd_push_small:
  assumes "rnd_inv s" and "t \<in> thread_ids" and "t \<notin> held (rnd_view s)"
  shows "rnd_push t s = Inr (s\<lparr>rs_run_queue := rs_run_queue s @ [t]\<rparr>)"
    and "rnd_inv (s\<lparr>rs_run_queue := rs_run_queue s @ [t]\<rparr>)"
    and "rnd_view (s\<lparr>rs_run_queue := rs_run_queue s @ [t]\<rparr>) = (rnd_view s)\<lparr>held := insert t (held (rnd_view s))\<rparr>"
  using assms set_Push_small [of "rs_run_queue s" t]
  by (auto simp: rnd_push_def rnd_inv_def rnd_view_def rnd_ready_def split: option.splits)

text \<open>Fields the contract does not see.\<close>

lemma rnd_ghost [simp]:
  "rnd_inv (s\<lparr>rs_random := g\<rparr>) = rnd_inv s" "rnd_view (s\<lparr>rs_random := g\<rparr>) = rnd_view s"
  "rnd_inv (s\<lparr>rs_lf_thread_count := n\<rparr>) = rnd_inv s" "rnd_view (s\<lparr>rs_lf_thread_count := n\<rparr>) = rnd_view s"
  "rnd_inv (s\<lparr>rs_lf_progress_streak := n\<rparr>) = rnd_inv s" "rnd_view (s\<lparr>rs_lf_progress_streak := n\<rparr>) = rnd_view s"
  "rnd_inv (s\<lparr>rs_preempt_count := n\<rparr>) = rnd_inv s" "rnd_view (s\<lparr>rs_preempt_count := n\<rparr>) = rnd_view s"
  by (simp_all add: rnd_inv_def rnd_view_def rnd_ready_def)

lemma draw_ghost:
  assumes "draw s = (r, s')"
  shows "rnd_inv s' = rnd_inv s" and "rnd_view s' = rnd_view s" and "rs_run_queue s' = rs_run_queue s"
    and "rs_suspended s' = rs_suspended s" and "rs_next s' = rs_next s" and "rs_wait s' = rs_wait s"
  using assms by (auto simp: draw_def split: prod.splits)


lemma LfResume1_ok:
  assumes "LfResume1 t ths s = Inr (ths', s')" and "rnd_inv s" and "t \<in> thread_ids" and "t \<notin> held (rnd_view s)"
  shows "rnd_inv s'" and "rnd_view s' = (rnd_view s)\<lparr>held := insert t (held (rnd_view s))\<rparr>"
  using assms rnd_push_small [OF assms(2-4)] by (auto simp: LfResume1_def split: if_splits)

lemma LfResume_ok:
  assumes "LfResume ths s = Inr (ths', s')" and I: "rnd_inv s"
  shows "rnd_inv s' \<and> rnd_view s' = rnd_view s"
proof (cases "rs_suspended s = []")
  case True
  then show ?thesis using assms by (simp add: LfResume_def)
next
  case False
  obtain r s1 where d: "draw s = (r, s1)" by fastforce
  note g = draw_ghost [OF d]
  obtain w rest where p: "PopRandom r (rs_suspended s1) = (w, rest)" by fastforce
  have small: "small (rs_suspended s1)" using I g(1) by (simp add: rnd_inv_def)
  from PopRandom_small [OF this p] False g(4) obtain t where
    t: "t \<in> set (rs_suspended s1)" "w = Some t" "small rest" "set rest = set (rs_suspended s1) - {t}" by auto
  let ?s = "s1\<lparr>rs_suspended := rest\<rparr>"
  have r: "LfResume1 t ths ?s = Inr (ths', s')" using assms(1) False d p t(2) by (simp add: LfResume_def)
  have I1: "rnd_inv s1" using I g(1) by simp
  then have "rnd_inv ?s" "t \<notin> held (rnd_view ?s)" "t \<in> thread_ids"
    using t by (auto simp: rnd_inv_def rnd_view_def rnd_ready_def small_def)
  from LfResume1_ok [OF r this(1,3,2)]
  have "rnd_inv s'" "rnd_view s' = (rnd_view ?s)\<lparr>held := insert t (held (rnd_view ?s))\<rparr>" by auto
  moreover have "(rnd_view ?s)\<lparr>held := insert t (held (rnd_view ?s))\<rparr> = rnd_view s1"
    using t I1 by (auto simp: rnd_view_def rnd_ready_def)
  ultimately show ?thesis using g(2) by simp
qed

lemma ToLfSuspend_ok:
  assumes "ToLfSuspend t ths s = Inr (b, s')"
  shows "rnd_inv s' = rnd_inv s" and "rnd_view s' = rnd_view s" and "rs_suspended s' = rs_suspended s"
    and "rs_next s' = rs_next s" and "rs_run_queue s' = rs_run_queue s"
  using assms draw_ghost [of s] by (auto simp: ToLfSuspend_def split: if_splits option.splits prod.splits)

text \<open>A thread only arrives when no other is about to continue.\<close>

lemma rnd_Interrupt_ok:
  assumes ok: "rnd_Interrupt now t ths s = Inr (ths', s')" and I: "rnd_inv s" "rs_next s = None"
    and t: "t \<in> thread_ids" "t \<notin> held (rnd_view s)"
  shows "rnd_inv s' \<and> rnd_view s' = (rnd_view s)\<lparr>held := insert t (held (rnd_view s))\<rparr>"
proof (cases "ToPreempt now t ths")
  case True
  then show ?thesis
    using ok rnd_push_small [OF I(1) t] by (auto simp: rnd_Interrupt_def rnd_Preempt_def)
next
  case False
  then obtain b s1 where b: "ToLfSuspend t ths s = Inr (b, s1)"
    and r: "if b then LfSuspend t ths s1 = Inr (ths', s') else s' = s1\<lparr>rs_next := Some t\<rparr>"
    using ok by (cases "ToLfSuspend t ths s") (auto simp: rnd_Interrupt_def split: prod.splits if_splits)
  note g = ToLfSuspend_ok [OF b]
  have small: "small (rs_suspended s)" using I(1) by (simp add: rnd_inv_def)
  have nin: "t \<notin> set (rs_suspended s)" "t \<notin> set (rs_run_queue s)" using t(2) by (auto simp: rnd_view_def rnd_ready_def)
  note P = set_Push_small [OF small t(1) nin(1)]
  have I1: "rnd_inv s1" "rnd_view s1 = rnd_view s" using g I by simp_all
  show ?thesis
  proof (cases b)
    case True
    then have s': "s' = s1\<lparr>rs_suspended := rs_suspended s @ [t]\<rparr>" using r P g(3) by (auto simp: LfSuspend_def)
    have "rnd_inv s'" using I1(1) P(2) nin g I(2) unfolding s' rnd_inv_def by auto
    moreover have "rnd_view s' = (rnd_view s1)\<lparr>held := insert t (held (rnd_view s1))\<rparr>"
      unfolding s' using g(3) by (auto simp: rnd_view_def rnd_ready_def)
    ultimately show ?thesis using I1(2) by simp
  next
    case False
    then have s': "s' = s1\<lparr>rs_next := Some t\<rparr>" using r by simp
    have "rnd_inv s'" using I1(1) t(1) nin g unfolding s' rnd_inv_def by auto
    moreover have "rnd_view s' = (rnd_view s1)\<lparr>held := insert t (held (rnd_view s1))\<rparr>"
      unfolding s' using g(4) I(2) by (auto simp: rnd_view_def rnd_ready_def)
    ultimately show ?thesis using I1(2) by simp
  qed
qed


lemma rnd_LockFree_ok:
  assumes "rnd_LockFree t b ths s = Inr (ths', s')" and "rnd_inv s"
  shows "rnd_inv s' \<and> rnd_view s' = rnd_view s"
proof -
  let ?s = "s\<lparr>rs_lf_thread_count := rs_lf_thread_count s - 1\<rparr>"
  have "rnd_inv ?s" using assms(2) by simp
  from LfResume_ok [OF _ this] have "rnd_inv s' \<and> rnd_view s' = rnd_view s"
    if "LfResume ths ?s = Inr (ths', s')" using that by simp
  then show ?thesis using assms by (auto simp: rnd_LockFree_def LfEnter_def LfExit_def split: if_splits)
qed

lemma rnd_Progress_ok:
  assumes "rnd_Progress t ths s = Inr (ths', s')" and I: "rnd_inv s"
  shows "rnd_inv s' \<and> rnd_view s' = rnd_view s"
proof -
  let ?ths = "set_f2 t 0 ths" and ?s = "s\<lparr>rs_lf_progress_streak := Suc (rs_lf_progress_streak s)\<rparr>"
  have "rnd_inv ?s" using I by simp
  from LfResume_ok [OF _ this, of ?ths] have r: "rnd_inv s2 \<and> rnd_view s2 = rnd_view s"
    if "LfResume ?ths ?s = Inr (ths2, s2)" for ths2 s2 using that by simp
  show ?thesis using assms(1) I
    by (auto simp: rnd_Progress_def LfProgress_def Let_def bindE_eq_Inr dest!: r split: if_splits)
qed

lemma rnd_PickNext_ok:
  assumes "rnd_PickNext now ths s = Inr (t, ths', s')" and I: "rnd_inv s"
  shows "rnd_inv s' \<and> t \<in> held (rnd_view s) \<and> rnd_view s' = (rnd_view s)\<lparr>held := held (rnd_view s) - {t}\<rparr> \<and>
    rs_next s' = None"
proof (cases "rs_next s")
  case (Some u)
  then have s': "t = u" "s' = s\<lparr>rs_next := None\<rparr>" using assms by (auto simp: rnd_PickNext_def)
  then show ?thesis using I Some by (auto simp: rnd_inv_def rnd_view_def rnd_ready_def)
next
  case None
  then have P: "PickNextFromRunQueue now ths s = Inr (t, ths', s')" using assms(1) by (simp add: rnd_PickNext_def)
  obtain r s1 where d: "draw s = (r, s1)" by fastforce
  note g = draw_ghost [OF d]
  obtain w rest where p: "PopRandom r (rs_run_queue s1) = (w, rest)" by fastforce
  from P d p obtain slice where w: "w = Some t"
    and sl: "RandomTimeSliceInTicks (s1\<lparr>rs_run_queue := rest\<rparr>) = Inr (slice, s')"
    by (cases w) (auto simp: PickNextFromRunQueue_def bindE_eq_Inr)
  have I1: "rnd_inv s1" using I g(1) by simp
  then have "small (rs_run_queue s1)" by (simp add: rnd_inv_def)
  from PopRandom_small [OF this p] w
  have t: "t \<in> set (rs_run_queue s1)" "small rest" "set rest = set (rs_run_queue s1) - {t}" by auto
  let ?s = "s1\<lparr>rs_run_queue := rest\<rparr>"
  obtain r2 s2 where d2: "draw ?s = (r2, s2)" by fastforce
  have s': "s' = s2" using sl d2 by (auto simp: RandomTimeSliceInTicks_def split: if_splits)
  note g2 = draw_ghost [OF d2]
  have "rnd_inv ?s" using I1 t by (auto simp: rnd_inv_def)
  moreover have "t \<notin> set (rs_suspended s1)" "rs_next s1 = None" using I1 t None g(5) by (auto simp: rnd_inv_def)
  then have "rnd_view ?s = (rnd_view s1)\<lparr>held := held (rnd_view s1) - {t}\<rparr>" "t \<in> held (rnd_view s1)"
    using t by (auto simp: rnd_view_def rnd_ready_def)
  ultimately show ?thesis using s' g g2 None by simp
qed

text \<open>Wait queues.\<close>

lemma put_wait_ok:
  assumes "rnd_inv s" and "small xs" and "q < rs_queues s"
  shows "rnd_inv (put_wait q xs s)" and "rnd_view (put_wait q xs s) =
    (rnd_view s)\<lparr>waiting := (waiting (rnd_view s))(q := set xs)\<rparr>"
  using assms by (auto simp: put_wait_def rnd_inv_def rnd_view_def rnd_ready_def fun_eq_iff)

lemma rnd_view_wait [simp]:
  "waiting (rnd_view s) q = set (rs_wait s q)" "queues (rnd_view s) = rs_queues s"
  by (simp_all add: rnd_view_def)

lemma view_same [simp]: "v\<lparr>waiting := (waiting v)(q := waiting v q)\<rparr> = v"
  by simp

lemma take_waiter_put:
  assumes I: "rnd_inv s" and q: "q < rs_queues s"
    and w: "(rs_wait s q = [] \<and> w = None \<and> ys = []) \<or>
      (\<exists>t \<in> set (rs_wait s q). w = Some t \<and> small ys \<and> set ys = set (rs_wait s q) - {t})"
  shows "rnd_inv (put_wait q ys s) \<and> take_waiter q (RWaiter w) (rnd_view s) (rnd_view (put_wait q ys s))"
  using w
proof (elim disjE bexE conjE)
  assume e: "rs_wait s q = []" "w = None" "ys = []"
  then have "put_wait q ys s = s" by (simp add: put_wait_def fun_upd_idem)
  then show ?thesis using I e by (simp add: take_waiter_def)
next
  fix t assume t: "t \<in> set (rs_wait s q)" "w = Some t" "small ys" "set ys = set (rs_wait s q) - {t}"
  then show ?thesis using put_wait_ok [OF I t(3) q] by (auto simp: take_waiter_def)
qed

lemma rnd_wq_ok:
  assumes I: "rnd_inv s" and q: "q < rs_queues s"
  shows "t \<in> thread_ids \<Longrightarrow> t \<notin> set (rs_wait s q) \<Longrightarrow> rnd_wq_Push q t s = Inr s' \<Longrightarrow>
      rnd_inv s' \<and> rnd_view s' = (rnd_view s)\<lparr>waiting := (waiting (rnd_view s))(q := insert t (set (rs_wait s q)))\<rparr>"
    and "rnd_wq_Pop q s = Inr (w, s') \<Longrightarrow> rnd_inv s' \<and> take_waiter q (RWaiter w) (rnd_view s) (rnd_view s')"
    and "rnd_wq_PopAll q s = Inr (w, s') \<Longrightarrow> rnd_inv s' \<and> take_waiter q (RWaiter w) (rnd_view s) (rnd_view s')"
    and "rnd_wq_Remove q t s = (b, s') \<Longrightarrow> rnd_inv s' \<and> b = (t \<in> set (rs_wait s q)) \<and>
      rnd_view s' = (rnd_view s)\<lparr>waiting := (waiting (rnd_view s))(q := set (rs_wait s q) - {t})\<rparr>"
proof -
  have small: "small (rs_wait s q)" using I by (simp add: rnd_inv_def)
  show "t \<in> thread_ids \<Longrightarrow> t \<notin> set (rs_wait s q) \<Longrightarrow> rnd_wq_Push q t s = Inr s' \<Longrightarrow>
      rnd_inv s' \<and> rnd_view s' = (rnd_view s)\<lparr>waiting := (waiting (rnd_view s))(q := insert t (set (rs_wait s q)))\<rparr>"
    using set_Push_small [OF small] put_wait_ok [OF I _ q] by (auto simp: rnd_wq_Push_def)
  show "rnd_wq_PopAll q s = Inr (w, s') \<Longrightarrow> rnd_inv s' \<and> take_waiter q (RWaiter w) (rnd_view s) (rnd_view s')"
    using take_waiter_put [OF I q set_PopAll_small [OF small]] by (auto simp: rnd_wq_PopAll_def split: prod.splits)
  show "rnd_wq_Remove q t s = (b, s') \<Longrightarrow> rnd_inv s' \<and> b = (t \<in> set (rs_wait s q)) \<and>
      rnd_view s' = (rnd_view s)\<lparr>waiting := (waiting (rnd_view s))(q := set (rs_wait s q) - {t})\<rparr>"
    using set_Remove_small [OF small] put_wait_ok [OF I _ q] by (auto simp: rnd_wq_Remove_def split: prod.splits)
  obtain r s1 where d: "draw s = (r, s1)" by fastforce
  note g = draw_ghost [OF d]
  have q1: "q < rs_queues s1" using d q by (auto simp: draw_def split: prod.splits)
  have I1: "rnd_inv s1" and small1: "small (rs_wait s1 q)" using I small g by simp_all
  show "rnd_wq_Pop q s = Inr (w, s') \<Longrightarrow> rnd_inv s' \<and> take_waiter q (RWaiter w) (rnd_view s) (rnd_view s')"
    using take_waiter_put [OF I1 q1 PopRandom_small [OF small1, of r]] g(2) d
    by (auto simp: rnd_wq_Pop_def rnd_RandomNumber_def split: prod.splits)
qed


definition rnd_settled :: "random_sched \<Rightarrow> bool" where
  "rnd_settled s \<longleftrightarrow> rs_next s = None"

lemma draw_ok: "rnd_inv s \<Longrightarrow> draw s = (r, s') \<Longrightarrow> rnd_inv s' \<and> rnd_view s' = rnd_view s"
  using draw_ghost by blast

lemma rnd_step:
  assumes I: "rnd_inv s" and pre: "call_pre c (rnd_view s)" and "\<not> is_Remove c"
    and int: "is_Interrupt c \<longrightarrow> rnd_settled s" and ok: "invoke random_ops c ths s = Inr (r, ths', s')"
  shows "rnd_inv s' \<and> call_spec c r (rnd_view s) (rnd_view s')"
proof (cases c)
  case (CInterrupt now t)
  then show ?thesis using rnd_Interrupt_ok [of now t ths s] I pre int ok
    by (auto simp: random_ops_def somewhere_def is_Interrupt_def rnd_settled_def)
next
  case (CYield t)
  then show ?thesis using rnd_push_small [OF I, of t] pre ok
    by (auto simp: random_ops_def somewhere_def rnd_Yield_def)
next
  case (CWake t)
  then show ?thesis using rnd_push_small [OF I, of t] pre ok
    by (auto simp: random_ops_def somewhere_def rnd_Wake_def)
next
  case (CSpawn t)
  then show ?thesis using rnd_push_small [OF I, of t] pre ok
    by (auto simp: random_ops_def somewhere_def rnd_Spawn_def)
next
  case (CPickNext now)
  then show ?thesis using rnd_PickNext_ok [OF _ I] ok by (auto simp: random_ops_def bindE_eq_Inr)
next
  case CNewWaitQueue
  have "rs_wait s (rs_queues s) = []" using I by (simp add: rnd_inv_def)
  then show ?thesis using CNewWaitQueue I ok
    by (auto simp: random_ops_def rnd_NewWaitQueue_def rnd_inv_def rnd_view_def rnd_ready_def fun_eq_iff)
next
  case (CPush q t)
  then show ?thesis using rnd_wq_ok(1) [OF I, of q t] pre ok
    by (auto simp: random_ops_def somewhere_def bindE_eq_Inr)
next
  case (CPop q)
  then show ?thesis using rnd_wq_ok(2) [OF I, of q] pre ok by (auto simp: random_ops_def bindE_eq_Inr)
next
  case (CPopAll q)
  then show ?thesis using rnd_wq_ok(3) [OF I, of q] pre ok by (auto simp: random_ops_def bindE_eq_Inr)
next
  case (CWqRemove q t)
  then show ?thesis using rnd_wq_ok(4) [OF I, of q t] pre ok by (auto simp: random_ops_def split: prod.splits)
next
  case (CRandomChoice n)
  then show ?thesis using I ok draw_ok [OF I]
    by (auto simp: random_ops_def rnd_RandomChoice_def bindE_eq_Inr split: if_splits prod.splits)
next
  case (CLockFree t b)
  then show ?thesis using rnd_LockFree_ok [OF _ I] ok by (auto simp: random_ops_def)
next
  case (CProgress t)
  then show ?thesis using rnd_Progress_ok [OF _ I] ok by (auto simp: random_ops_def)
qed (use I assms(3) ok draw_ok [OF I] in
    \<open>auto simp: random_ops_def rnd_SwitchTo_def rnd_Exit_def rnd_NewIter_def rnd_RandomNumber_def
      rnd_SpuriousWakeup_def rnd_SpuriousTryFailure_def Spurious_def bindE_eq_Inr
      split: if_splits prod.splits\<close>)


lemma rnd_next_same:
  "rnd_push t s = Inr s1 \<Longrightarrow> rs_next s1 = rs_next s"
  "LfResume ths s = Inr (ths', s') \<Longrightarrow> rs_next s' = rs_next s"
proof -
  show p: "rnd_push t s = Inr s1 \<Longrightarrow> rs_next s1 = rs_next s" for t s s1
    by (auto simp: rnd_push_def bindE_eq_Inr)
  show "LfResume ths s = Inr (ths', s') \<Longrightarrow> rs_next s' = rs_next s"
    by (auto simp: LfResume_def LfResume1_def bindE_eq_Inr draw_def dest!: p
        split: if_splits prod.splits option.splits)
qed

lemma rnd_settle:
  assumes "rnd_inv s" and c: "is_Pick c \<or> rnd_settled s \<and> \<not> is_Interrupt c"
    and ok: "invoke random_ops c ths s = Inr (r, ths', s')"
  shows "rnd_settled s'"
proof (cases c)
  case (CPickNext now)
  then show ?thesis using rnd_PickNext_ok [OF _ assms(1)] ok
    by (auto simp: random_ops_def bindE_eq_Inr rnd_settled_def)
next
  case (CLockFree t b)
  then show ?thesis using c ok
    by (auto simp: random_ops_def rnd_settled_def rnd_LockFree_def LfEnter_def LfExit_def is_Pick_def
        dest!: rnd_next_same split: if_splits)
next
  case (CProgress t)
  then show ?thesis using c ok
    by (auto simp: random_ops_def rnd_settled_def rnd_Progress_def LfProgress_def is_Pick_def Let_def
        bindE_eq_Inr dest!: rnd_next_same split: if_splits)
qed (use c ok in \<open>auto simp: random_ops_def rnd_settled_def is_Pick_def is_Interrupt_def rnd_SwitchTo_def
      rnd_Yield_def rnd_Wake_def rnd_Spawn_def rnd_Exit_def rnd_NewIter_def rnd_Remove_def rnd_NewWaitQueue_def
      rnd_wq_Push_def rnd_wq_Pop_def rnd_wq_PopAll_def rnd_wq_Remove_def put_wait_def rnd_RandomNumber_def
      rnd_RandomChoice_def rnd_SpuriousWakeup_def rnd_SpuriousTryFailure_def Spurious_def draw_def Let_def
      bindE_eq_Inr dest!: rnd_next_same split: if_splits prod.splits\<close>)

lemma rnd_hand_over:
  assumes I: "rnd_inv s" and pre: "call_pre c (rnd_view s)"
    and c: "c \<in> {CYield t, CWake t, CSpawn t, CPush q t, CPopAll q}"
  shows "\<exists>x. invoke random_ops c ths s = Inr x"
proof -
  have small: "small (rs_wait s q)" using I by (simp add: rnd_inv_def)
  have "t \<notin> set (rs_wait s q)" if "t \<notin> somewhere (rnd_view s)" using that by (auto simp: somewhere_def)
  then show ?thesis
    using c pre rnd_push_small [OF I, of t] set_Push_small [OF small, of t]
    by (auto simp: random_ops_def somewhere_def rnd_Yield_def rnd_Wake_def rnd_Spawn_def rnd_wq_Push_def
        rnd_wq_PopAll_def quiet_def split: prod.splits)
qed

lemma rnd_remove:
  assumes I: "rnd_inv s" and "rnd_settled s"
  shows "rnd_inv (rnd_Remove t s)" and "rnd_view (rnd_Remove t s) = (rnd_view s)\<lparr>held := held (rnd_view s) - {t}\<rparr>"
proof -
  obtain b1 xs where x: "set_Remove t (rs_run_queue s) = (b1, xs)" by fastforce
  obtain b2 ys where y: "set_Remove t (rs_suspended s) = (b2, ys)" by fastforce
  have "small (rs_run_queue s)" "small (rs_suspended s)" using I by (simp_all add: rnd_inv_def)
  note X = set_Remove_small [OF this(1) x] and Y = set_Remove_small [OF this(2) y]
  show "rnd_inv (rnd_Remove t s)" using I X Y assms(2) unfolding rnd_inv_def rnd_Remove_def rnd_settled_def
    by (auto simp: x y)
  show "rnd_view (rnd_Remove t s) = (rnd_view s)\<lparr>held := held (rnd_view s) - {t}\<rparr>"
    using X Y assms(2) by (auto simp: rnd_view_def rnd_ready_def rnd_Remove_def x y rnd_settled_def)
qed

lemma rnd_empty: "wq_IsEmpty random_ops q s \<longleftrightarrow> waiting (rnd_view s) q = {}"
  by (simp add: random_ops_def rnd_wq_IsEmpty_def rnd_view_def)

lemma rnd_woken:
  assumes "c \<in> {CWake t, CYield t, CSpawn t}" and "invoke random_ops c ths s = Inr (r, ths', s')"
  shows "t \<in> rnd_ready s'"
  using assms by (auto simp: random_ops_def rnd_Wake_def rnd_Yield_def rnd_Spawn_def rnd_push_def
      set_Push_def rnd_ready_def bindE_eq_Inr split: if_splits)

lemma set_Push_no_abort [simp]: "set_Push t xs \<noteq> Inl (SysAbortEx st)"
  by (simp add: set_Push_def)

lemma rnd_push_no_abort [simp]: "rnd_push t s \<noteq> Inl (SysAbortEx st)"
  by (simp add: rnd_push_def bindE_eq_Inl)

lemma LfResume_no_abort [simp]: "LfResume ths s \<noteq> Inl (SysAbortEx st)"
  by (auto simp: LfResume_def LfResume1_def bindE_eq_Inl Let_def split: prod.splits option.splits)

lemma rnd_aborts: "invoke random_ops c ths s \<noteq> Inl (SysAbortEx st)"
proof (cases c)
  case (CInterrupt now t)
  then show ?thesis
    by (auto simp: random_ops_def quiet_def rnd_Interrupt_def rnd_Preempt_def ToLfSuspend_def LfSuspend_def
        bindE_eq_Inl Let_def split: if_splits option.splits prod.splits)
next
  case (CPickNext now)
  then show ?thesis
    by (auto simp: random_ops_def rnd_PickNext_def PickNextFromRunQueue_def RandomTimeSliceInTicks_def
        bindE_eq_Inl Let_def split: if_splits option.splits prod.splits)
qed (auto simp: random_ops_def quiet_def rnd_SwitchTo_def rnd_Yield_def rnd_Wake_def rnd_Spawn_def rnd_Exit_def
    rnd_LockFree_def LfEnter_def LfExit_def rnd_Progress_def LfProgress_def rnd_NewIter_def rnd_wq_Push_def
    rnd_wq_Pop_def rnd_wq_PopAll_def rnd_RandomNumber_def rnd_RandomChoice_def rnd_SpuriousWakeup_def
    rnd_SpuriousTryFailure_def Spurious_def bindE_eq_Inl Let_def split: if_splits prod.splits)

interpretation rnd: scheduler random_ops rnd_inv rnd_view rnd_ready rnd_settled rnd_init
proof
  fix s s'
  assume "rnd_init s" "Start random_ops s = Inr s'"
  then show "rnd_inv s' \<and> rnd_settled s' \<and> rnd_view s' = empty_view"
    by (auto simp: random_ops_def rnd_init_def rnd_Start_def rnd_inv_def rnd_settled_def rnd_view_def rnd_ready_def empty_view_def)
next
  fix s show "rnd_init (DropWaitQueues random_ops s)" by (simp add: random_ops_def rnd_DropWaitQueues_def rnd_init_def)
next
  fix s again s'
  assume "rnd_init s" "NextSchedule random_ops s = (again, s')"
  then show "rnd_init s'"
    by (auto simp: random_ops_def rnd_init_def rnd_NextSchedule_def Let_def split: option.splits if_splits prod.splits)
next
  fix s show "rnd_ready s \<subseteq> held (rnd_view s)" by (simp add: rnd_view_def)
next
  fix s show "IsIdle random_ops s = (rnd_ready s = {})"
    by (cases "rs_next s") (auto simp: random_ops_def rnd_IsIdle_def rnd_ready_def)
next
  fix s c ths r ths' s'
  assume "rnd_inv s" "call_pre c (rnd_view s)" "\<not> is_Remove c" "is_Interrupt c \<longrightarrow> rnd_settled s"
    "invoke random_ops c ths s = Inr (r, ths', s')"
  then show "rnd_inv s' \<and> call_spec c r (rnd_view s) (rnd_view s')" by (rule rnd_step)
next
  fix q s show "wq_IsEmpty random_ops q s \<longleftrightarrow> waiting (rnd_view s) q = {}" by (rule rnd_empty)
next
  fix c t ths s r ths' s'
  assume "c \<in> {CWake t, CYield t, CSpawn t}" "invoke random_ops c ths s = Inr (r, ths', s')"
  then show "t \<in> rnd_ready s'" by (rule rnd_woken)
next
  fix c ths s st
  assume "invoke random_ops c ths s = Inl (SysAbortEx st)"
  then show "st = Pruned" using rnd_aborts by blast
next
  fix s c ths r ths' s'
  assume "rnd_inv s" "is_Pick c \<or> rnd_settled s \<and> \<not> is_Interrupt c"
    "invoke random_ops c ths s = Inr (r, ths', s')"
  then show "rnd_settled s'" by (rule rnd_settle)
qed

interpretation rnd_total: total_scheduler random_ops rnd_inv rnd_view rnd_ready rnd_settled rnd_init
  by unfold_locales (rule rnd_hand_over)

interpretation rnd_burning: burning_scheduler random_ops rnd_inv rnd_view rnd_ready rnd_settled rnd_init
  by unfold_locales (auto simp: random_ops_def rnd_remove)

interpretation rnd_client: client_scheduler random_ops rnd_inv rnd_view rnd_ready rnd_settled rnd_init False True
  by unfold_locales (auto simp: random_ops_def rnd_remove rnd_IsIdle_def rnd_settled_def)

text \<open>Without the lock-free mode no thread is ever suspended, and the scheduler is exact.\<close>

definition rnd_plain :: "random_sched \<Rightarrow> bool" where
  "rnd_plain s \<longleftrightarrow> \<not> rp_lock_free (rs_params s) \<and> rs_suspended s = []"

lemma rnd_push_plain: "rnd_push t s = Inr s' \<Longrightarrow> rnd_plain s' = rnd_plain s"
  by (auto simp: rnd_push_def rnd_plain_def bindE_eq_Inr)

lemma draw_plain: "draw s = (r, s') \<Longrightarrow> rnd_plain s' = rnd_plain s"
  by (auto simp: draw_def rnd_plain_def split: prod.splits)

lemma rnd_step_plain:
  assumes "invoke random_ops c ths s = Inr (r, ths', s')" and p: "rnd_plain s"
  shows "rnd_plain s'"
proof (cases c)
  case (CInterrupt now t)
  then have "rnd_Interrupt now t ths s = Inr (ths', s')" using assms(1) by (simp add: random_ops_def)
  then show ?thesis using p
    by (auto simp: rnd_Interrupt_def rnd_Preempt_def ToLfSuspend_def rnd_plain_def bindE_eq_Inr
        dest!: rnd_push_plain split: if_splits)
next
  case (CPickNext now)
  then obtain t where "rnd_PickNext now ths s = Inr (t, ths', s')"
    using assms(1) by (auto simp: random_ops_def bindE_eq_Inr)
  then show ?thesis using p
    by (auto simp: rnd_PickNext_def PickNextFromRunQueue_def RandomTimeSliceInTicks_def draw_def rnd_plain_def
        bindE_eq_Inr Let_def split: option.splits prod.splits if_splits)
qed (use assms in \<open>auto simp: random_ops_def rnd_SwitchTo_def rnd_Yield_def rnd_Wake_def rnd_Spawn_def rnd_Exit_def
    rnd_LockFree_def LfEnter_def LfExit_def LfResume_def rnd_Progress_def LfProgress_def rnd_NewIter_def
    rnd_Remove_def set_Remove_def rnd_NewWaitQueue_def rnd_wq_Push_def rnd_wq_Pop_def rnd_wq_PopAll_def rnd_wq_Remove_def put_wait_def
    rnd_RandomNumber_def rnd_RandomChoice_def rnd_SpuriousWakeup_def rnd_SpuriousTryFailure_def Spurious_def
    draw_def rnd_push_def rnd_plain_def find_index_None bindE_eq_Inr Let_def
    split: if_splits prod.splits option.splits\<close>)

interpretation rnd_plain: client_scheduler random_ops "\<lambda>s. rnd_inv s \<and> rnd_plain s" rnd_view rnd_ready rnd_settled
  "\<lambda>s. rnd_init s \<and> \<not> rp_lock_free (rs_params s)" True True
proof
  fix s s'
  assume "rnd_init s \<and> \<not> rp_lock_free (rs_params s)" "Start random_ops s = Inr s'"
  then show "(rnd_inv s' \<and> rnd_plain s') \<and> rnd_settled s' \<and> rnd_view s' = empty_view"
    using rnd.start [of s s'] by (auto simp: random_ops_def rnd_Start_def rnd_plain_def)
next
  fix s assume "rnd_inv s \<and> rnd_plain s"
  then show "rnd_init (DropWaitQueues random_ops s) \<and> \<not> rp_lock_free (rs_params (DropWaitQueues random_ops s))"
    by (simp add: random_ops_def rnd_DropWaitQueues_def rnd_init_def rnd_plain_def)
next
  fix s again s'
  assume "rnd_init s \<and> \<not> rp_lock_free (rs_params s)" "NextSchedule random_ops s = (again, s')"
  then show "rnd_init s' \<and> \<not> rp_lock_free (rs_params s')"
    by (auto simp: random_ops_def rnd_init_def rnd_NextSchedule_def Let_def split: option.splits if_splits)
next
  fix s assume "rnd_inv s \<and> rnd_plain s"
  then show "rnd_ready s \<subseteq> held (rnd_view s)" and "(IsIdle random_ops s) = (rnd_ready s = {})"
    by (simp_all add: rnd.ready_held rnd.idle)
next
  fix s c ths r ths' s'
  assume "rnd_inv s \<and> rnd_plain s" "call_pre c (rnd_view s)" "\<not> is_Remove c" "is_Interrupt c \<longrightarrow> rnd_settled s"
    "invoke random_ops c ths s = Inr (r, ths', s')"
  then show "(rnd_inv s' \<and> rnd_plain s') \<and> call_spec c r (rnd_view s) (rnd_view s')"
    using rnd_step [of s c ths r ths' s'] rnd_step_plain [of c ths s r ths' s'] by blast
next
  fix q s show "wq_IsEmpty random_ops q s \<longleftrightarrow> waiting (rnd_view s) q = {}" by (rule rnd_empty)
next
  fix c t ths s r ths' s'
  assume "c \<in> {CWake t, CYield t, CSpawn t}" "invoke random_ops c ths s = Inr (r, ths', s')"
  then show "t \<in> rnd_ready s'" by (rule rnd_woken)
next
  fix c ths s st
  assume "invoke random_ops c ths s = Inl (SysAbortEx st)"
  then show "st = Pruned" using rnd_aborts by blast
next
  fix s c ths r ths' s'
  assume "rnd_inv s \<and> rnd_plain s" "is_Pick c \<or> rnd_settled s \<and> \<not> is_Interrupt c"
    "invoke random_ops c ths s = Inr (r, ths', s')"
  then show "rnd_settled s'" using rnd_settle by blast
next
  fix s assume "rnd_inv s \<and> rnd_plain s"
  then show "held (rnd_view s) \<subseteq> rnd_ready s" by (simp add: rnd_view_def rnd_plain_def)
next
  fix s t assume "rnd_inv s \<and> rnd_plain s" "rnd_settled s"
  then show "(rnd_inv (RemoveThread random_ops t s) \<and> rnd_plain (RemoveThread random_ops t s)) \<and>
     rnd_view (RemoveThread random_ops t s) = (rnd_view s)\<lparr>held := held (rnd_view s) - {t}\<rparr>"
    using rnd_remove [of s t] by (auto simp: random_ops_def rnd_plain_def rnd_Remove_def set_Remove_def find_index_None)
next
  fix s assume "rnd_inv s \<and> rnd_plain s" "IsIdle random_ops s"
  then show "rnd_settled s" by (simp add: random_ops_def rnd_IsIdle_def rnd_settled_def)
qed

lemma rnd_choice: "invoke random_ops (CRandomChoice n) ths s = Inr (RIndex i, ths', s') \<Longrightarrow> i < n"
  by (auto simp: random_ops_def rnd_RandomChoice_def bindE_eq_Inr Let_def split: if_splits prod.splits)


section \<open>Properties\<close>


lemma rnd_PickNext_only:
  assumes "rs_run_queue s = [t]" and "rs_next s = None" and "rp_time_slice (rs_params s) \<noteq> 0"
  obtains sl g where "rnd_PickNext now ths s = Inr (t, set_f1 t sl ths, s\<lparr>rs_random := g, rs_run_queue := []\<rparr>)"
proof -
  obtain r g where g: "Next (rs_random s) = (r, g)" by fastforce
  obtain r2 g2 where g2: "Next g = (r2, g2)" by fastforce
  have "PopRandom r [t] = (Some t, [])" by (simp add: PopRandom_def swap_remove_def)
  then have "rnd_PickNext now ths s = Inr (t, set_f1 t (now + of_nat (unat r2 mod rp_time_slice (rs_params s))) ths,
      s\<lparr>rs_random := g2, rs_run_queue := []\<rparr>)"
    using assms g g2 by (simp add: rnd_PickNext_def PickNextFromRunQueue_def draw_def RandomTimeSliceInTicks_def)
  then show thesis by (rule that)
qed

definition some_threads :: threads where
  "some_threads t = \<lparr>th_id = t, th_parent_id = None, th_state = Running, th_main = False,
     th_attrs = \<lparr>preemptive = True, lock_free = False\<rparr>, th_action = None, th_load = 0, th_waiter = None,
     th_futex = None, th_timer = None, th_status = StOk, th_runs = 0, th_scope = None,
     th_sched = \<lparr>f1 = 0, f2 = 0\<rparr>, th_sync = \<lparr>current = (\<lambda>_. 0), acquire_clock = (\<lambda>_. 0),
       release_clock = (\<lambda>_. 0), epoch = 0\<rparr>\<rparr>"



definition lf_threads :: threads where
  "lf_threads t = (some_threads t)\<lparr>th_attrs := \<lparr>preemptive = True, lock_free = True\<rparr>,
     th_action := Some \<lparr>act_loc = 16, act_size = 4, act_type = AtomicStore, act_value = 1, act_mo = seq_cst,
       act_source_loc = []\<rparr>,
     th_sched := \<lparr>f1 = 100, f2 = 0\<rparr>\<rparr>"



section \<open>Recording and replaying\<close>

text \<open>
  C37: a simulation under the random scheduler without lock-free suspension can be recorded and replayed. Recording
  it leads to the same result and leaves the scheduler in the same state; and the simulation with the
  replay scheduler on the recorded decisions leads to the same result again, uses up every decision
  and leaves no thread in the run queue. The simulation is any deterministic client that keeps to the
  scheduler's contract and is not pruned.
\<close>

theorem random_record_replay:
  assumes "client_ok True True p empty_view False True" and "rs_queues s = 0" and "rs_wait s = (\<lambda>_. [])"
    and "\<not> rp_lock_free (rs_params s)"
    and "run_simulation random_ops p s = Inr (r, s')" and "res_status r \<noteq> Pruned"
  shows "\<exists>u rp. run_simulation (recorder_ops random_ops) p (new_recorder s) = Inr (r, u) \<and> underlying u = s' \<and>
     run_simulation replay_ops p (new_replay (recorded u)) = Inr (r, rp) \<and> rp_run_set rp = {} \<and> remaining rp = []"
  by (rule rnd_plain.replay_any [OF TrueI _ assms(1) rnd_choice assms(5,6)])
    (use assms in \<open>simp_all add: rnd_init_def\<close>)

definition plain_random_params :: random_params where
  "plain_random_params = (default_random_params 0)\<lparr>rp_lock_free := False\<rparr>"

lemma random_races:
  "\<exists>r s'. run_simulation random_ops racers (new_random_sched plain_random_params) = Inr (r, s') \<and>
     res_status r \<noteq> Pruned"
proof -
  have pick: "\<exists>u q. PopRandom r [1, 2] = (Some u, [q])" for r
  proof (cases "unat r mod 2 = 0")
    case True
    then have m: "unat r mod Suc (Suc 0) = 0" by (simp add: numeral_2_eq_2)
    show ?thesis by (simp add: PopRandom_def swap_remove_def Let_def m)
  next
    case False
    then have m: "unat r mod Suc (Suc 0) = 1" using mod_less_divisor [of "Suc (Suc 0)" "unat r"]
      unfolding numeral_2_eq_2 by linarith
    show ?thesis by (simp add: PopRandom_def swap_remove_def Let_def m)
  qed
  have pick1: "PopRandom r [q] = (Some q, [])" for r and q :: tid by (simp add: PopRandom_def swap_remove_def)
  obtain r1 g1 where g1: "Next (Seed 0 \<lparr>wy_state = 0\<rparr>) = (r1, g1)" by fastforce
  obtain r2 g2 where g2: "Next g1 = (r2, g2)" by fastforce
  obtain r3 g3 where g3: "Next g2 = (r3, g3)" by fastforce
  obtain r4 g4 where g4: "Next g3 = (r4, g4)" by fastforce
  obtain u q where p: "PopRandom r1 [Suc 0, 2] = (Some u, [q])" using pick [of r1] by auto
  show ?thesis
    using p pick1 g1 g2 g3 g4
    by (simp add: run_simulation_def racers_def random_ops_def rnd_Start_def new_random_sched_def quiet_def
      rnd_Spawn_def rnd_push_def set_Push_def IsFull_def kMaxThreads_def rnd_PickNext_def PickNextFromRunQueue_def
      RandomTimeSliceInTicks_def rnd_IsIdle_def Let_def rnd_DropWaitQueues_def race_result_def draw_def
      plain_random_params_def default_random_params_def verify_def)
qed

theorem random_record_replay_witness:
  "\<exists>r s' u rp. run_simulation random_ops racers (new_random_sched plain_random_params) = Inr (r, s') \<and>
     run_simulation (recorder_ops random_ops) racers (new_recorder (new_random_sched plain_random_params)) = Inr (r, u) \<and>
     run_simulation replay_ops racers (new_replay (recorded u)) = Inr (r, rp) \<and> remaining rp = []"
proof -
  obtain r s' where "run_simulation random_ops racers (new_random_sched plain_random_params) = Inr (r, s') \<and> res_status r \<noteq> Pruned"
    using random_races by blast
  then show ?thesis
    using random_record_replay [OF racers_ok, of "(new_random_sched plain_random_params)"] by (auto simp: new_random_sched_def plain_random_params_def)
qed

end
