(* ===== verification/Pct_Scheduler.thy ===== *)
theory Pct_Scheduler
  imports Prelude Sim_Types Random_Base Scheduler Sched_Client Link_Queues Replay
begin

text \<open>
  The PCT scheduler (\<open>rt/sim/scheduler/pct/\<close>): threads have priorities, the ready thread of the
  highest priority runs, and at random steps, the change points, the running thread falls below all
  others. A priority is a 32-bit signed number kept in the word \<open>f1\<close> of the thread's scheduler
  context. The run queue is a \<open>std::priority_queue\<close>: the list of its entries, from which the top,
  an entry no other exceeds, is taken; the first such when several are.
\<close>

section \<open>Priorities\<close>

definition GetPriority :: "threads \<Rightarrow> tid \<Rightarrow> int" where
  "GetPriority ths t = sint (ucast (f1 (th_sched (ths t))) :: 32 word)"

definition SetPriority :: "tid \<Rightarrow> int \<Rightarrow> threads \<Rightarrow> threads" where
  "SetPriority t p ths = set_f1 t (word_of_int p) ths"

section \<open>The run queue\<close>

text \<open>The position of an entry of maximal priority.\<close>

fun top_index :: "threads \<Rightarrow> tid list \<Rightarrow> nat" where
  "top_index ths [] = 0"
| "top_index ths [t] = 0"
| "top_index ths (t # ts) =
     (let i = top_index ths ts in if GetPriority ths t < GetPriority ths (ts ! i) then Suc i else 0)"

definition run_Push :: "tid \<Rightarrow> tid list \<Rightarrow> tid list" where
  "run_Push t q = q @ [t]"

definition PopMaxPriority :: "threads \<Rightarrow> tid list \<Rightarrow> fault + tid \<times> tid list" where
  "PopMaxPriority ths q =
     (if q = [] then Inl (Panic ''top of an empty queue'')
      else let i = top_index ths q in Inr (q ! i, take i q @ drop (Suc i) q))"

definition MaxPriority :: "threads \<Rightarrow> tid list \<Rightarrow> fault + int" where
  "MaxPriority ths q =
     (if q = [] then Inl (Panic ''Empty run queue'') else Inr (GetPriority ths (q ! top_index ths q)))"

text \<open>Removal is left to be done.\<close>

definition run_Remove :: "tid \<Rightarrow> tid list \<Rightarrow> tid list" where
  "run_Remove t q = q"

section \<open>State\<close>

record pct_params =
  pp_depth :: nat
  pp_seed :: u64
  pp_max_runs :: "nat option"

record pct_sched =
  ps_params :: pct_params
  ps_seed :: u64
  ps_runs :: nat
  est_threads :: nat
  est_steps :: nat
  init_prior :: "int list"
  next_prior :: int
  change_points :: "nat list"
  next_change_point :: nat
  ps_random :: wyrand
  ps_run_queue :: "tid list"
  ps_active :: "tid option"
  ps_iter :: nat
  ps_queues :: nat
  ps_wait :: "nat \<Rightarrow> tid list"

text \<open>\<open>seed_\<close> has no initialiser: its first value is whatever the memory holds.\<close>

definition new_pct_sched :: "u64 \<Rightarrow> pct_params \<Rightarrow> pct_sched" where
  "new_pct_sched garbage p = \<lparr>ps_params = p, ps_seed = garbage, ps_runs = 0, est_threads = 1,
     est_steps = 7, init_prior = [], next_prior = 0, change_points = [], next_change_point = 0,
     ps_random = \<lparr>wy_state = 42\<rparr>, ps_run_queue = [], ps_active = None, ps_iter = 0, ps_queues = 0,
     ps_wait = (\<lambda>_. [])\<rparr>"

definition pct_draw :: "pct_sched \<Rightarrow> u64 \<times> pct_sched" where
  "pct_draw s = (let (r, g) = Next (ps_random s) in (r, s\<lparr>ps_random := g\<rparr>))"

section \<open>The plan of a run\<close>

text \<open>The shuffle of \<open>GenerateInitPriorities\<close>, from position \<open>i\<close> down to 2.\<close>

fun shuffle :: "nat \<Rightarrow> wyrand \<Rightarrow> int list \<Rightarrow> int list \<times> wyrand" where
  "shuffle 0 g xs = (xs, g)"
| "shuffle (Suc 0) g xs = (xs, g)"
| "shuffle (Suc (Suc k)) g xs =
     (let i = Suc (Suc k); (r, g1) = Next g; j = 1 + unat r mod i
      in shuffle (Suc k) g1 (xs[i := xs ! j, j := xs ! i]))"

definition GenerateInitPriorities :: "nat \<Rightarrow> pct_sched \<Rightarrow> pct_sched" where
  "GenerateInitPriorities n s =
     (let (xs, g) = shuffle n (ps_random s) (map int [0..<n+1])
      in s\<lparr>init_prior := xs, ps_random := g, next_prior := 0\<rparr>)"

text \<open>The loop that fills the set of change points; a set is its sorted list.\<close>

partial_function (option) gen_points :: "nat \<Rightarrow> nat \<Rightarrow> wyrand \<Rightarrow> nat list \<Rightarrow> (nat list \<times> wyrand) option" where
  "gen_points n len g pts =
     (if length pts < n
      then let (r, g1) = Next g; iter = 1 + unat r mod len
           in gen_points n len g1 (if iter \<in> set pts then pts else insort iter pts)
      else Some (pts, g))"

definition size_max :: nat where
  "size_max = 2 ^ 64 - 1"

definition GenerateChangePoints :: "nat \<Rightarrow> nat \<Rightarrow> pct_sched \<Rightarrow> fault + pct_sched" where
  "GenerateChangePoints len depth s =
     (let n = (if depth = 0 then size_max else depth - 1)
      in case gen_points n len (ps_random s) [] of
           None \<Rightarrow> Inl NoReturn
         | Some (pts, g) \<Rightarrow> Inr (s\<lparr>change_points := pts @ [size_max], ps_random := g\<rparr>))"

definition NextPriority :: "pct_sched \<Rightarrow> int \<times> pct_sched" where
  "NextPriority s = (next_prior s, s\<lparr>next_prior := next_prior s - 1\<rparr>)"

definition pct_Reset :: "nat \<Rightarrow> nat \<Rightarrow> nat \<Rightarrow> pct_sched \<Rightarrow> fault + pct_sched" where
  "pct_Reset n len depth s =
     bindE (GenerateChangePoints len depth (GenerateInitPriorities n s)) (\<lambda>s1.
     Inr (s1\<lparr>next_change_point := 0, ps_iter := 0\<rparr>))"

section \<open>Runs\<close>

definition pct_NextSchedule :: "pct_sched \<Rightarrow> bool \<times> pct_sched" where
  "pct_NextSchedule s =
     (if (case pp_max_runs (ps_params s) of None \<Rightarrow> False | Some m \<Rightarrow> ps_runs s + 1 \<ge> m) then (False, s)
      else let n = ps_runs s + 1
           in (True, s\<lparr>ps_runs := n, ps_seed := HashCombine (ps_seed s) (of_nat n)\<rparr>))"

definition pct_Start :: "pct_sched \<Rightarrow> fault + pct_sched" where
  "pct_Start s =
     bindE (pct_Reset (est_threads s) (est_steps s) (pp_depth (ps_params s))
              (s\<lparr>ps_random := Seed (ps_seed s) (ps_random s)\<rparr>)) (\<lambda>s1.
     let s2 = s1\<lparr>ps_active := None\<rparr>
     in bindE (verify (ps_run_queue s2 = []) (Panic ''Inconsistent state'')) (\<lambda>_. Inr s2))"

section \<open>Scheduling\<close>

definition pct_Interrupt :: "u64 \<Rightarrow> tid \<Rightarrow> pct_sched step" where
  "pct_Interrupt now t ths s = Inr (ths, s\<lparr>ps_active := Some t\<rparr>)"

definition pct_SwitchTo :: "tid \<Rightarrow> tid \<Rightarrow> pct_sched step" where
  "pct_SwitchTo t u ths s = Inl (Panic ''SwitchTo not supported by PctScheduler'')"

definition pct_Yield :: "tid \<Rightarrow> pct_sched step" where
  "pct_Yield t ths s =
     (let (p, s1) = NextPriority s
      in Inr (SetPriority t p ths, s1\<lparr>ps_run_queue := run_Push t (ps_run_queue s1)\<rparr>))"

definition pct_Wake :: "tid \<Rightarrow> pct_sched step" where
  "pct_Wake t ths s = Inr (ths, s\<lparr>ps_run_queue := run_Push t (ps_run_queue s)\<rparr>)"

definition pct_Spawn :: "tid \<Rightarrow> pct_sched step" where
  "pct_Spawn t ths s =
     (let (p, s1) =
        (if th_id (ths t) < length (init_prior s) then (init_prior s ! th_id (ths t), s)
         else NextPriority (s\<lparr>est_threads := max (est_threads s) (th_id (ths t))\<rparr>))
      in Inr (SetPriority t p ths, s1\<lparr>ps_run_queue := run_Push t (ps_run_queue s1)\<rparr>))"

definition pct_Exit :: "tid \<Rightarrow> pct_sched step" where
  "pct_Exit t ths s = Inr (ths, s)"

definition pct_LockFree :: "tid \<Rightarrow> bool \<Rightarrow> pct_sched step" where
  "pct_LockFree t b ths s = Inr (ths, s)"

definition pct_Progress :: "tid \<Rightarrow> pct_sched step" where
  "pct_Progress t ths s = Inr (ths, s)"

definition pct_NewIter :: "pct_sched step" where
  "pct_NewIter ths s = Inr (ths, s)"

definition pct_IsIdle :: "pct_sched \<Rightarrow> bool" where
  "pct_IsIdle s \<longleftrightarrow> ps_run_queue s = [] \<and> ps_active s = None"

text \<open>The loop that skips the change points already passed; the guard stops it.\<close>

function skip_points :: "nat \<Rightarrow> nat list \<Rightarrow> nat \<Rightarrow> fault + nat" where
  "skip_points iter pts i =
     (if i \<ge> length pts then Inl (Panic ''index out of bounds'')
      else if iter > pts ! i then skip_points iter pts (i + 1) else Inr i)"
  by auto
termination by (relation "measure (\<lambda>(iter, pts, i). length pts - i)") auto

declare skip_points.simps [simp del]

definition pct_Preempt :: "tid \<Rightarrow> threads \<Rightarrow> pct_sched \<Rightarrow> fault + bool \<times> threads \<times> pct_sched" where
  "pct_Preempt t ths s =
     (if \<not> preemptive (th_attrs (ths t)) then Inr (False, ths, s)
      else bindE (skip_points (ps_iter s) (change_points s) (next_change_point s)) (\<lambda>i.
        let s1 = s\<lparr>next_change_point := i\<rparr>
        in if ps_iter s1 = change_points s1 ! i
           then let (p, s2) = NextPriority s1 in Inr (True, SetPriority t p ths, s2)
           else if ps_run_queue s1 = [] then Inr (False, ths, s1)
           else bindE (MaxPriority ths (ps_run_queue s1)) (\<lambda>m.
             Inr (GetPriority ths t < m, ths, s1))))"

definition pct_Pop :: "threads \<Rightarrow> pct_sched \<Rightarrow> fault + tid \<times> threads \<times> pct_sched" where
  "pct_Pop ths s =
     bindE (PopMaxPriority ths (ps_run_queue s)) (\<lambda>(t, q). Inr (t, ths, s\<lparr>ps_run_queue := q\<rparr>))"

definition pct_PickNext :: "u64 \<Rightarrow> threads \<Rightarrow> pct_sched \<Rightarrow> fault + tid \<times> threads \<times> pct_sched" where
  "pct_PickNext now ths s0 =
     (let active = ps_active s0;
          s1 = s0\<lparr>ps_active := None, ps_iter := ps_iter s0 + 1\<rparr>;
          s = s1\<lparr>est_steps := max (est_steps s1) (ps_iter s1)\<rparr>
      in case active of
           None \<Rightarrow> pct_Pop ths s
         | Some t \<Rightarrow>
             bindE (pct_Preempt t ths s) (\<lambda>(p, ths1, s1).
             if \<not> p then Inr (t, ths1, s1)
             else pct_Pop ths1 (s1\<lparr>ps_run_queue := run_Push t (ps_run_queue s1)\<rparr>)))"

definition pct_Remove :: "tid \<Rightarrow> pct_sched \<Rightarrow> pct_sched" where
  "pct_Remove t s = s\<lparr>ps_run_queue := run_Remove t (ps_run_queue s)\<rparr>"

definition pct_RandomNumber :: "pct_sched \<Rightarrow> fault + u64 \<times> pct_sched" where
  "pct_RandomNumber s = Inr (pct_draw s)"

definition pct_RandomChoice :: "nat \<Rightarrow> pct_sched \<Rightarrow> fault + nat \<times> pct_sched" where
  "pct_RandomChoice alts s =
     (if alts = 0 then Inl (Panic ''division by zero'')
      else let (r, s1) = pct_draw s in Inr (unat r mod alts, s1))"

definition pct_SpuriousWakeup :: "pct_sched \<Rightarrow> fault + bool \<times> pct_sched" where
  "pct_SpuriousWakeup s = Inr (False, s)"

definition pct_SpuriousTryFailure :: "pct_sched \<Rightarrow> fault + bool \<times> pct_sched" where
  "pct_SpuriousTryFailure s = Inr (False, s)"

section \<open>Wait queues\<close>

definition pct_NewWaitQueue :: "pct_sched \<Rightarrow> nat \<times> pct_sched" where
  "pct_NewWaitQueue s = (ps_queues s,
     s\<lparr>ps_wait := (ps_wait s)(ps_queues s := []), ps_queues := ps_queues s + 1\<rparr>)"

definition pct_DropWaitQueues :: "pct_sched \<Rightarrow> pct_sched" where
  "pct_DropWaitQueues s = s\<lparr>ps_wait := (\<lambda>_. []), ps_queues := 0\<rparr>"

definition pct_wq_IsEmpty :: "nat \<Rightarrow> pct_sched \<Rightarrow> bool" where
  "pct_wq_IsEmpty q s \<longleftrightarrow> ps_wait s q = []"

definition pct_wq_Push :: "nat \<Rightarrow> tid \<Rightarrow> pct_sched \<Rightarrow> fault + pct_sched" where
  "pct_wq_Push q t s = bindE (PushBack (ps_queues s) q t (ps_wait s)) (\<lambda>w. Inr (s\<lparr>ps_wait := w\<rparr>))"

definition pct_wq_Pop :: "nat \<Rightarrow> pct_sched \<Rightarrow> fault + tid option \<times> pct_sched" where
  "pct_wq_Pop q s = (let (r, w) = PopFront q (ps_wait s) in Inr (r, s\<lparr>ps_wait := w\<rparr>))"

definition pct_wq_PopAll :: "nat \<Rightarrow> pct_sched \<Rightarrow> fault + tid option \<times> pct_sched" where
  "pct_wq_PopAll q s = pct_wq_Pop q s"

definition pct_wq_Remove :: "nat \<Rightarrow> tid \<Rightarrow> pct_sched \<Rightarrow> bool \<times> pct_sched" where
  "pct_wq_Remove q t s = (let (b, w) = link_Remove (ps_queues s) t (ps_wait s) in (b, s\<lparr>ps_wait := w\<rparr>))"

definition pct_ops :: "pct_sched sched_ops" where
  "pct_ops = \<lparr>NextSchedule = pct_NextSchedule, Start = pct_Start, Interrupt = pct_Interrupt,
     SwitchTo = pct_SwitchTo, Yield = pct_Yield, Wake = pct_Wake, Spawn = pct_Spawn, Exit = pct_Exit,
     LockFree = pct_LockFree, Progress = pct_Progress, NewIter = pct_NewIter, IsIdle = pct_IsIdle,
     PickNext = pct_PickNext, RemoveThread = pct_Remove, NewWaitQueue = pct_NewWaitQueue, DropWaitQueues = pct_DropWaitQueues,
     wq_IsEmpty = pct_wq_IsEmpty, wq_Push = pct_wq_Push, wq_Pop = pct_wq_Pop,
     wq_PopAll = pct_wq_PopAll, wq_Remove = pct_wq_Remove, RandomNumber = pct_RandomNumber,
     RandomChoice = pct_RandomChoice, SpuriousWakeup = pct_SpuriousWakeup,
     SpuriousTryFailure = pct_SpuriousTryFailure, IsModelChecker = False\<rparr>"


section \<open>The run queue\<close>

lemma top_index_max:
  "q \<noteq> [] \<Longrightarrow> top_index ths q < length q \<and>
     (\<forall>t \<in> set q. GetPriority ths t \<le> GetPriority ths (q ! top_index ths q))"
proof (induction ths q rule: top_index.induct)
  case (3 ths t u ts)
  let ?i = "top_index ths (u # ts)"
  have IH: "?i < length (u # ts)" "\<forall>v \<in> set (u # ts). GetPriority ths v \<le> GetPriority ths ((u # ts) ! ?i)"
    using 3 by auto
  show ?case
  proof (cases "GetPriority ths t < GetPriority ths ((u # ts) ! ?i)")
    case True
    then have "top_index ths (t # u # ts) = Suc ?i" by (simp add: Let_def)
    then show ?thesis using IH True by auto
  next
    case False
    then have "top_index ths (t # u # ts) = 0" by (simp add: Let_def)
    then show ?thesis using IH False by (auto simp del: top_index.simps intro: order_trans)
  qed
qed simp_all

lemma PopMaxPriority_ok:
  assumes "small q" and "PopMaxPriority ths q = Inr (t, q')"
  shows "t \<in> set q" and "small q'" and "set q' = set q - {t}"
    and "\<forall>u \<in> set q. GetPriority ths u \<le> GetPriority ths t"
proof -
  have "q \<noteq> []" using assms(2) by (auto simp: PopMaxPriority_def)
  note T = top_index_max [OF this, of ths]
  have t: "t = q ! top_index ths q" "q' = take (top_index ths q) q @ drop (Suc (top_index ths q)) q"
    using assms(2) \<open>q \<noteq> []\<close> by (auto simp: PopMaxPriority_def Let_def)
  show "t \<in> set q" "\<forall>u \<in> set q. GetPriority ths u \<le> GetPriority ths t" using T t(1) by auto
  show "small q'" "set q' = set q - {t}" using small_remove_nth [OF assms(1)] T t by auto
qed

section \<open>The contract\<close>

definition pct_ready :: "pct_sched \<Rightarrow> tid set" where
  "pct_ready s = set (ps_run_queue s) \<union> set_option (ps_active s)"

definition pct_view :: "pct_sched \<Rightarrow> sched_view" where
  "pct_view s = \<lparr>held = pct_ready s, waiting = (\<lambda>q. set (ps_wait s q)), queues = ps_queues s\<rparr>"

definition pct_init :: "pct_sched \<Rightarrow> bool" where
  "pct_init s \<longleftrightarrow> ps_queues s = 0 \<and> ps_wait s = (\<lambda>_. [])"

definition pct_inv :: "pct_sched \<Rightarrow> bool" where
  "pct_inv s \<longleftrightarrow> small (ps_run_queue s) \<and> queues_ok (ps_queues s) (ps_wait s) \<and>
     (\<forall>t. ps_active s = Some t \<longrightarrow> t \<in> thread_ids \<and> t \<notin> set (ps_run_queue s))"

definition pct_settled :: "pct_sched \<Rightarrow> bool" where
  "pct_settled s \<longleftrightarrow> ps_active s = None"

text \<open>Two states that differ in what the contract does not see.\<close>

definition same_threads :: "pct_sched \<Rightarrow> pct_sched \<Rightarrow> bool" where
  "same_threads s s' \<longleftrightarrow> ps_run_queue s' = ps_run_queue s \<and> ps_active s' = ps_active s \<and>
     ps_queues s' = ps_queues s \<and> ps_wait s' = ps_wait s"

lemma same_threads_inv: "same_threads s s' \<Longrightarrow> pct_inv s' = pct_inv s \<and> pct_view s' = pct_view s"
  by (simp add: same_threads_def pct_inv_def pct_view_def pct_ready_def)

lemma NextPriority_same: "NextPriority s = (p, s') \<Longrightarrow> same_threads s s'"
  by (auto simp: NextPriority_def same_threads_def)

lemma pct_Preempt_same: "pct_Preempt t ths s = Inr (b, ths', s') \<Longrightarrow> same_threads s s'"
  by (auto simp: pct_Preempt_def NextPriority_def same_threads_def bindE_eq_Inr Let_def split: if_splits)

lemma pct_Preempt_False:
  assumes "pct_Preempt u ths s = Inr (False, ths', s')" and "preemptive (th_attrs (ths u))"
  shows "ths' = ths \<and> (\<forall>v \<in> set (ps_run_queue s). GetPriority ths v \<le> GetPriority ths u)"
proof (cases "ps_run_queue s = []")
  case True
  then show ?thesis using assms
    by (auto simp: pct_Preempt_def NextPriority_def bindE_eq_Inr Let_def split: if_splits)
next
  case False
  have "ths' = ths \<and> \<not> GetPriority ths u < GetPriority ths (ps_run_queue s ! top_index ths (ps_run_queue s))"
    using assms False
    by (auto simp: pct_Preempt_def NextPriority_def MaxPriority_def bindE_eq_Inr Let_def split: if_splits)
  then show ?thesis using top_index_max [OF False, of ths] by fastforce
qed

lemma pct_push_ok:
  assumes "pct_inv s" and "same_threads s s1" and "t \<in> thread_ids" and "t \<notin> held (pct_view s)"
  shows "pct_inv (s1\<lparr>ps_run_queue := run_Push t (ps_run_queue s1)\<rparr>) \<and>
     pct_view (s1\<lparr>ps_run_queue := run_Push t (ps_run_queue s1)\<rparr>) =
       (pct_view s)\<lparr>held := insert t (held (pct_view s))\<rparr>"
  using assms by (auto simp: pct_inv_def pct_view_def pct_ready_def same_threads_def run_Push_def small_append)

lemma pct_Pop_ok:
  assumes "pct_Pop ths s = Inr (t, ths', s')" and "pct_inv s" and "ps_active s = None"
  shows "pct_inv s' \<and> t \<in> held (pct_view s) \<and> pct_view s' = (pct_view s)\<lparr>held := held (pct_view s) - {t}\<rparr> \<and>
     ps_active s' = None \<and> ths' = ths \<and> (\<forall>u \<in> set (ps_run_queue s). GetPriority ths u \<le> GetPriority ths t) \<and>
     set (ps_run_queue s') \<subseteq> set (ps_run_queue s)"
proof -
  obtain q where q: "PopMaxPriority ths (ps_run_queue s) = Inr (t, q)" "s' = s\<lparr>ps_run_queue := q\<rparr>" "ths' = ths"
    using assms(1) by (auto simp: pct_Pop_def bindE_eq_Inr)
  have "small (ps_run_queue s)" using assms(2) by (simp add: pct_inv_def)
  note P = PopMaxPriority_ok [OF this q(1)]
  show ?thesis using P q assms(2,3) by (auto simp: pct_inv_def pct_view_def pct_ready_def)
qed

lemma pct_PickNext_ok:
  assumes ok: "pct_PickNext now ths s = Inr (t, ths', s')" and I: "pct_inv s"
  shows "pct_inv s' \<and> t \<in> held (pct_view s) \<and> pct_view s' = (pct_view s)\<lparr>held := held (pct_view s) - {t}\<rparr> \<and>
     ps_active s' = None \<and>
     ((\<forall>u. ps_active s = Some u \<longrightarrow> preemptive (th_attrs (ths u))) \<longrightarrow>
        (\<forall>u \<in> set (ps_run_queue s'). GetPriority ths' u \<le> GetPriority ths' t))"
proof -
  define s1 where "s1 = s\<lparr>ps_active := None, ps_iter := ps_iter s + 1,
    est_steps := max (est_steps s) (ps_iter s + 1)\<rparr>"
  have I1: "pct_inv s1" "ps_active s1 = None" "ps_run_queue s1 = ps_run_queue s"
    using I by (simp_all add: pct_inv_def s1_def)
  show ?thesis
  proof (cases "ps_active s")
    case None
    then have "pct_Pop ths s1 = Inr (t, ths', s')" using ok by (simp add: pct_PickNext_def s1_def)
    moreover have "pct_view s1 = pct_view s" using None by (simp add: pct_view_def pct_ready_def s1_def)
    ultimately show ?thesis using pct_Pop_ok [OF _ I1(1,2)] by fastforce
  next
    case (Some u)
    have u: "u \<in> thread_ids" "u \<notin> set (ps_run_queue s)" using I Some by (auto simp: pct_inv_def)
    have v1: "held (pct_view s) = insert u (held (pct_view s1))" "waiting (pct_view s1) = waiting (pct_view s)"
      "queues (pct_view s1) = queues (pct_view s)" "u \<notin> held (pct_view s1)"
      using Some u by (auto simp: pct_view_def pct_ready_def s1_def)
    obtain p ths1 s2 where P: "pct_Preempt u ths s1 = Inr (p, ths1, s2)"
      and r: "if \<not> p then (t, ths', s') = (u, ths1, s2)
              else pct_Pop ths1 (s2\<lparr>ps_run_queue := run_Push u (ps_run_queue s2)\<rparr>) = Inr (t, ths', s')"
      using ok Some unfolding pct_PickNext_def s1_def by (auto simp: bindE_eq_Inr Let_def split: if_splits)
    have same: "same_threads s1 s2" by (rule pct_Preempt_same [OF P])
    show ?thesis
    proof (cases p)
      case True
      let ?s = "s2\<lparr>ps_run_queue := run_Push u (ps_run_queue s2)\<rparr>"
      have "pct_inv ?s \<and> pct_view ?s = (pct_view s1)\<lparr>held := insert u (held (pct_view s1))\<rparr>"
        by (rule pct_push_ok [OF I1(1) same u(1) v1(4)])
      moreover have "ps_active ?s = None" using same I1(2) by (simp add: same_threads_def)
      ultimately show ?thesis using pct_Pop_ok [of ths1 ?s t ths' s'] r True v1 by fastforce
    next
      case False
      then have e: "t = u" "ths' = ths1" "s' = s2" using r by simp_all
      have "pct_inv s2" "pct_view s2 = pct_view s1" using same_threads_inv [OF same] I1 by simp_all
      moreover have "pct_view s1 = (pct_view s)\<lparr>held := held (pct_view s) - {u}\<rparr>" using v1 by simp
      moreover have "\<forall>v \<in> set (ps_run_queue s2). GetPriority ths1 v \<le> GetPriority ths1 u"
        if "preemptive (th_attrs (ths u))"
        using pct_Preempt_False [of u ths s1 ths1 s2] P that False same by (simp add: same_threads_def)
      moreover have "u \<in> held (pct_view s)" using v1(1) by simp
      ultimately show ?thesis using e Some same I1(2) by (simp add: same_threads_def)
    qed
  qed
qed


lemma pct_wait_ok:
  assumes "pct_inv s" and "queues_ok (ps_queues s) w"
  shows "pct_inv (s\<lparr>ps_wait := w\<rparr>)" and "pct_view (s\<lparr>ps_wait := w\<rparr>) = (pct_view s)\<lparr>waiting := (\<lambda>q. set (w q))\<rparr>"
  using assms by (auto simp: pct_inv_def pct_view_def pct_ready_def)

lemma pct_view_simps [simp]:
  "waiting (pct_view s) = (\<lambda>q. set (ps_wait s q))" "queues (pct_view s) = ps_queues s"
  by (simp_all add: pct_view_def)

lemma pct_view_wait_triv [simp]: "(pct_view s)\<lparr>waiting := \<lambda>q. set (ps_wait s q)\<rparr> = pct_view s"
  by (simp add: pct_view_def)

lemma pct_wq_Pop_ok:
  assumes I: "pct_inv s" and q: "q < ps_queues s" and ok: "pct_wq_Pop q s = Inr (r, s')"
  shows "pct_inv s' \<and> take_waiter q (RWaiter r) (pct_view s) (pct_view s')"
proof -
  obtain w where w: "PopFront q (ps_wait s) = (r, w)" "s' = s\<lparr>ps_wait := w\<rparr>"
    using ok by (auto simp: pct_wq_Pop_def split: prod.splits)
  have "queues_ok (ps_queues s) (ps_wait s)" using I by (simp add: pct_inv_def)
  note P = PopFront_ok [OF this q w(1)]
  then show ?thesis using pct_wait_ok [OF I, of w] w(2)
    by (auto simp: take_waiter_def)
qed

lemma pct_step:
  assumes I: "pct_inv s" and pre: "call_pre c (pct_view s)" and nr: "\<not> is_Remove c"
    and int: "is_Interrupt c \<longrightarrow> pct_settled s" and ok: "invoke pct_ops c ths s = Inr (r, ths', s')"
  shows "pct_inv s' \<and> call_spec c r (pct_view s) (pct_view s')"
proof -
  have Q: "queues_ok (ps_queues s) (ps_wait s)" using I by (simp add: pct_inv_def)
  show ?thesis
  proof (cases c)
    case (CInterrupt now t)
    then show ?thesis using I pre int ok
      by (auto simp: pct_ops_def pct_Interrupt_def is_Interrupt_def pct_settled_def somewhere_def pct_inv_def
          pct_view_def pct_ready_def)
  next
    case (CYield t)
    then show ?thesis using pct_push_ok [OF I NextPriority_same [of s]] pre ok
      by (auto simp: pct_ops_def pct_Yield_def somewhere_def split: prod.splits)
  next
    case (CWake t)
    have "same_threads s s" by (simp add: same_threads_def)
    with CWake show ?thesis using pct_push_ok [OF I, of s t] pre ok
      by (auto simp: pct_ops_def pct_Wake_def somewhere_def)
  next
    case (CSpawn t)
    have "same_threads s s1"
      if "(if th_id (ths t) < length (init_prior s) then (init_prior s ! th_id (ths t), s)
         else NextPriority (s\<lparr>est_threads := max (est_threads s) (th_id (ths t))\<rparr>)) = (p, s1)" for p s1
      using that by (auto simp: NextPriority_def same_threads_def split: if_splits)
    from pct_push_ok [OF I this] CSpawn show ?thesis using pre ok
      by (auto simp: pct_ops_def pct_Spawn_def somewhere_def split: prod.splits simp del: if_split_asm)
  next
    case (CPickNext now)
    then show ?thesis using pct_PickNext_ok [OF _ I] ok by (auto simp: pct_ops_def bindE_eq_Inr)
  next
    case CNewWaitQueue
    then show ?thesis using I ok Q
      by (auto simp: pct_ops_def pct_NewWaitQueue_def pct_inv_def pct_view_def pct_ready_def queues_ok_def fun_eq_iff)
  next
    case (CPush q t)
    have "\<forall>q. t \<notin> set (ps_wait s q)" "t \<in> thread_ids" "q < ps_queues s" using pre CPush by (auto simp: somewhere_def)
    note P = PushBack_ok [OF Q this(3,2,1)]
    then show ?thesis using CPush ok pct_wait_ok [OF I P(2)] P(3)
      by (simp add: pct_ops_def pct_wq_Push_def)
  next
    case (CPop q)
    then show ?thesis using pct_wq_Pop_ok [OF I, of q] pre ok by (auto simp: pct_ops_def bindE_eq_Inr)
  next
    case (CPopAll q)
    then show ?thesis using pct_wq_Pop_ok [OF I, of q] pre ok
      by (auto simp: pct_ops_def pct_wq_PopAll_def bindE_eq_Inr)
  next
    case (CWqRemove q t)
    obtain b w where w: "link_Remove (ps_queues s) t (ps_wait s) = (b, w)" by fastforce
    have "\<forall>q'. q' \<noteq> q \<longrightarrow> t \<notin> set (ps_wait s q')" using pre CWqRemove by simp
    note R = link_Remove_ok [OF Q this w]
    then show ?thesis using CWqRemove ok w pct_wait_ok [OF I, of w]
      by (auto simp: pct_ops_def pct_wq_Remove_def)
  qed (use I nr ok pre in \<open>auto simp: pct_ops_def pct_SwitchTo_def pct_Exit_def pct_LockFree_def pct_Progress_def
      pct_NewIter_def pct_RandomNumber_def pct_RandomChoice_def pct_SpuriousWakeup_def
      pct_SpuriousTryFailure_def pct_draw_def pct_inv_def pct_view_def pct_ready_def bindE_eq_Inr
      split: if_splits prod.splits\<close>)
qed

lemma pct_settle:
  assumes "pct_inv s" and c: "is_Pick c \<or> pct_settled s \<and> \<not> is_Interrupt c"
    and ok: "invoke pct_ops c ths s = Inr (r, ths', s')"
  shows "pct_settled s'"
proof (cases c)
  case (CPickNext now)
  then show ?thesis using pct_PickNext_ok [OF _ assms(1)] ok
    by (auto simp: pct_ops_def bindE_eq_Inr pct_settled_def)
qed (use c ok in \<open>auto simp: pct_ops_def pct_settled_def is_Pick_def is_Interrupt_def pct_SwitchTo_def
      pct_Yield_def pct_Wake_def pct_Spawn_def NextPriority_def pct_Exit_def pct_LockFree_def pct_Progress_def
      pct_NewIter_def pct_Remove_def pct_NewWaitQueue_def pct_wq_Push_def pct_wq_Pop_def pct_wq_PopAll_def
      pct_wq_Remove_def pct_RandomNumber_def pct_RandomChoice_def pct_SpuriousWakeup_def
      pct_SpuriousTryFailure_def pct_draw_def Let_def bindE_eq_Inr split: if_splits prod.splits\<close>)

lemma pct_Start_fields:
  assumes "pct_Start s = Inr s'"
  shows "ps_run_queue s' = []" "ps_active s' = None" "ps_wait s' = ps_wait s" "ps_queues s' = ps_queues s"
  using assms by (auto simp: pct_Start_def pct_Reset_def GenerateChangePoints_def GenerateInitPriorities_def
      bindE_eq_Inr Let_def split: option.splits prod.splits if_splits)

lemma pct_empty: "wq_IsEmpty pct_ops q s \<longleftrightarrow> waiting (pct_view s) q = {}"
  by (simp add: pct_ops_def pct_wq_IsEmpty_def pct_view_def)

lemma pct_woken:
  assumes "c \<in> {CWake t, CYield t, CSpawn t}" and "invoke pct_ops c ths s = Inr (r, ths', s')"
  shows "t \<in> pct_ready s'"
  using assms by (auto simp: pct_ops_def pct_Wake_def pct_Yield_def pct_Spawn_def NextPriority_def
      run_Push_def pct_ready_def Let_def split: if_splits prod.splits)

lemma skip_points_no_abort [simp]: "skip_points i pts j \<noteq> Inl (SysAbortEx st)"
  by (induction i pts j rule: skip_points.induct) (subst skip_points.simps, auto)

lemma pct_aborts: "invoke pct_ops c ths s \<noteq> Inl (SysAbortEx st)"
proof (cases c)
  case (CPickNext now)
  then show ?thesis
    by (auto simp: pct_ops_def pct_PickNext_def pct_Preempt_def pct_Pop_def PopMaxPriority_def MaxPriority_def
        NextPriority_def bindE_eq_Inl Let_def split: if_splits option.splits prod.splits)
qed (auto simp: pct_ops_def quiet_def pct_Interrupt_def pct_SwitchTo_def pct_Yield_def pct_Wake_def pct_Spawn_def
    pct_Exit_def pct_LockFree_def pct_Progress_def pct_NewIter_def pct_wq_Push_def PushBack_def pct_wq_Pop_def
    pct_wq_PopAll_def pct_RandomNumber_def pct_RandomChoice_def pct_SpuriousWakeup_def
    pct_SpuriousTryFailure_def bindE_eq_Inl Let_def split: if_splits prod.splits)

interpretation pct: scheduler pct_ops pct_inv pct_view pct_ready pct_settled pct_init
proof
  fix s s'
  assume w: "pct_init s" and "Start pct_ops s = Inr s'"
  then have s': "pct_Start s = Inr s'" by (simp add: pct_ops_def)
  show "pct_inv s' \<and> pct_settled s' \<and> pct_view s' = empty_view"
    using pct_Start_fields [OF s'] w
    by (simp add: pct_init_def pct_inv_def pct_view_def pct_ready_def pct_settled_def queues_ok_def empty_view_def)
next
  fix s show "pct_init (DropWaitQueues pct_ops s)" by (simp add: pct_ops_def pct_DropWaitQueues_def pct_init_def)
next
  fix s again s'
  assume "pct_init s" "NextSchedule pct_ops s = (again, s')"
  then show "pct_init s'"
    by (auto simp: pct_ops_def pct_init_def pct_NextSchedule_def Let_def split: option.splits if_splits prod.splits)
next
  fix s show "pct_ready s \<subseteq> held (pct_view s)" by (simp add: pct_view_def)
next
  fix s show "IsIdle pct_ops s = (pct_ready s = {})"
    by (cases "ps_active s") (auto simp: pct_ops_def pct_IsIdle_def pct_ready_def)
qed (rule pct_step pct_empty pct_woken FalseE [OF notE [OF pct_aborts]] pct_settle; assumption)+

interpretation pct_client: client_scheduler pct_ops pct_inv pct_view pct_ready pct_settled pct_init True False
  by unfold_locales (auto simp: pct_view_def pct_ops_def pct_IsIdle_def pct_settled_def)

lemma pct_choice: "invoke pct_ops (CRandomChoice n) ths s = Inr (RIndex i, ths', s') \<Longrightarrow> i < n"
  by (auto simp: pct_ops_def pct_RandomChoice_def bindE_eq_Inr Let_def split: if_splits prod.splits)

interpretation pct_total: total_scheduler pct_ops pct_inv pct_view pct_ready pct_settled pct_init
proof
  fix s c t q ths
  assume I: "pct_inv s" and pre: "call_pre c (pct_view s)" and c: "c \<in> {CYield t, CWake t, CSpawn t, CPush q t, CPopAll q}"
  have Q: "queues_ok (ps_queues s) (ps_wait s)" using I by (simp add: pct_inv_def)
  have "\<forall>q. t \<notin> set (ps_wait s q)" if "t \<notin> somewhere (pct_view s)" using that by (auto simp: somewhere_def)
  then show "\<exists>x. invoke pct_ops c ths s = Inr x"
    using c pre PushBack_ok(1) [OF Q, of q t]
    by (auto simp: pct_ops_def quiet_def pct_Yield_def pct_Wake_def pct_Spawn_def pct_wq_Push_def
        pct_wq_PopAll_def pct_wq_Pop_def NextPriority_def Let_def split: prod.splits)
qed


section \<open>The plan of a run\<close>

lemma mset_swap_update:
  "i < length xs \<Longrightarrow> j < length xs \<Longrightarrow> mset (xs[i := xs ! j, j := xs ! i]) = mset xs"
  by (metis mset_swap)

lemma shuffle_perm:
  assumes "n < length xs"
  shows "mset (fst (shuffle n g xs)) = mset xs \<and> fst (shuffle n g xs) ! 0 = xs ! 0 \<and>
     length (fst (shuffle n g xs)) = length xs"
  using assms
proof (induction n g xs rule: shuffle.induct)
  case (3 k g xs)
  obtain r g1 where n: "Next g = (r, g1)" by fastforce
  let ?i = "Suc (Suc k)" and ?j = "1 + unat r mod Suc (Suc k)"
  let ?ys = "xs[?i := xs ! ?j, ?j := xs ! ?i]"
  have j: "?j < length xs" "?i < length xs" using 3(2) mod_less_divisor [of "Suc (Suc k)" "unat r"] by linarith+
  have IH: "mset (fst (shuffle (Suc k) g1 ?ys)) = mset ?ys \<and> fst (shuffle (Suc k) g1 ?ys) ! 0 = ?ys ! 0 \<and>
      length (fst (shuffle (Suc k) g1 ?ys)) = length ?ys"
    by (rule 3(1) [OF _ n [symmetric]]) (use 3(2) in simp_all)
  have "mset ?ys = mset xs" by (rule mset_swap_update [OF j(2,1)])
  moreover have "shuffle ?i g xs = shuffle (Suc k) g1 ?ys" using n by (simp add: Let_def)
  ultimately show ?case using IH by simp
qed simp_all

lemma gen_points_result:
  assumes "gen_points n len g pts = Some y"
  shows "0 < len \<longrightarrow> sorted pts \<longrightarrow> distinct pts \<longrightarrow> set pts \<subseteq> {1..len} \<longrightarrow> length pts \<le> n \<longrightarrow>
     sorted (fst y) \<and> distinct (fst y) \<and> set (fst y) \<subseteq> {1..len} \<and> length (fst y) = n"
proof (rule gen_points.raw_induct [OF _ assms], intro impI)
  fix gen :: "nat \<Rightarrow> nat \<Rightarrow> wyrand \<Rightarrow> nat list \<Rightarrow> (nat list \<times> wyrand) option" and n len g pts y
  assume IH: "\<And>n len g pts y. gen n len g pts = Some y \<Longrightarrow> 0 < len \<longrightarrow> sorted pts \<longrightarrow> distinct pts \<longrightarrow>
      set pts \<subseteq> {1..len} \<longrightarrow> length pts \<le> n \<longrightarrow>
      sorted (fst y) \<and> distinct (fst y) \<and> set (fst y) \<subseteq> {1..len} \<and> length (fst y) = n"
    and ok: "(if length pts < n
      then let (r, g1) = Next g; iter = 1 + unat r mod len
           in gen n len g1 (if iter \<in> set pts then pts else insort iter pts)
      else Some (pts, g)) = Some y"
    and p: "0 < len" "sorted pts" "distinct pts" "set pts \<subseteq> {1..len}" "length pts \<le> n"
  show "sorted (fst y) \<and> distinct (fst y) \<and> set (fst y) \<subseteq> {1..len} \<and> length (fst y) = n"
  proof (cases "length pts < n")
    case False
    then show ?thesis using ok p by auto
  next
    case True
    obtain r g1 where d: "Next g = (r, g1)" by fastforce
    let ?it = "1 + unat r mod len"
    let ?p = "if ?it \<in> set pts then pts else insort ?it pts"
    have e: "gen n len g1 ?p = Some y" using ok True d by (simp add: Let_def split: if_splits)
    have "?it \<in> {1..len}" using mod_less_divisor [OF p(1), of "unat r"] by auto
    then have "sorted ?p" "distinct ?p" "set ?p \<subseteq> {1..len}" "length ?p \<le> n"
      using p True by (auto simp: sorted_insort distinct_insort set_insort_key)
    then show ?thesis using IH [OF e] p(1) by blast
  qed
qed

text \<open>
  C35: the plan of a PCT run. The initial priorities of the threads are a permutation of
  \<open>1, ..., n\<close>, so all different and above the priorities handed out later, and the change points are
  \<open>depth - 1\<close> different steps among the first \<open>len\<close>, in order, followed by the guard.
\<close>

theorem pct_plan:
  assumes "pct_Reset n len depth s = Inr s'" and "0 < len" and "0 < depth"
  shows "mset (tl (init_prior s')) = mset (map int [1..<n+1]) \<and> length (init_prior s') = n + 1 \<and>
     next_prior s' = 0 \<and>
     (\<exists>pts. change_points s' = pts @ [size_max] \<and> length pts = depth - 1 \<and> sorted pts \<and> distinct pts \<and>
        set pts \<subseteq> {1..len})"
proof -
  let ?xs = "map int [0..<n+1]"
  obtain ys g where sh: "shuffle n (ps_random s) ?xs = (ys, g)" by fastforce
  note S = shuffle_perm [of n ?xs "ps_random s", unfolded sh]
  obtain pts g2 where P: "gen_points (depth - 1) len g [] = Some (pts, g2)"
    and s': "init_prior s' = ys" "next_prior s' = 0" "change_points s' = pts @ [size_max]"
    using assms(1,3) sh by (auto simp: pct_Reset_def GenerateInitPriorities_def GenerateChangePoints_def
        bindE_eq_Inr Let_def split: option.splits)
  have ne: "?xs = 0 # map int [1..<n+1]" by (simp add: upt_conv_Cons del: upt_Suc)
  have L: "length ys = n + 1" "ys ! 0 = 0" "mset ys = mset ?xs" using S by (simp_all add: nth_append)
  then have "ys = 0 # tl ys" by (cases ys) auto
  then have "add_mset 0 (mset (tl ys)) = mset ?xs" using L(3) by (metis mset.simps(2))
  then have "mset (tl ys) = mset (map int [1..<n+1])" unfolding ne by simp
  then show ?thesis using s' L(1) assms(2) gen_points_result [OF P] by auto
qed

theorem pct_plan_witness:
  "\<exists>s'. pct_Reset 3 7 2 (new_pct_sched 0 \<lparr>pp_depth = 2, pp_seed = 42, pp_max_runs = None\<rparr>) = Inr s' \<and>
     mset (tl (init_prior s')) = {#1, 2, 3#} \<and> length (change_points s') = 2"
proof -
  let ?s = "new_pct_sched 0 \<lparr>pp_depth = 2, pp_seed = 42, pp_max_runs = None\<rparr>"
  have one: "\<exists>pts g'. gen_points (Suc 0) 7 g [] = Some (pts, g')" for g
    by (cases "Next g") (simp add: gen_points.simps Let_def)
  have "\<exists>s'. pct_Reset 3 7 2 ?s = Inr s'"
    using one [of "ps_random (GenerateInitPriorities 3 ?s)"]
    by (auto simp: pct_Reset_def GenerateChangePoints_def)
  then obtain s' where s': "pct_Reset 3 7 2 ?s = Inr s'" by blast
  have e: "map int [1..<3 + 1] = [1, 2, 3]" by code_simp
  from pct_plan [OF s'] have "mset (tl (init_prior s')) = {#1, 2, 3#}" "length (change_points s') = 2"
    unfolding e by auto
  then show ?thesis using s' by blast
qed

text \<open>
  C36: the generation of change points never returns when it is asked for more of them than there
  are steps: with a depth above \<open>len + 1\<close>, where \<open>len\<close> is the estimate of the length of the run
  (seven for the first run), or with depth zero, the start of the run does not return.
\<close>

theorem pct_change_points_never_return:
  assumes "0 < len" and "len < 2 ^ 64 - 1" and "len + 1 < depth \<or> depth = 0"
  shows "GenerateChangePoints len depth s = Inl NoReturn"
proof -
  let ?n = "if depth = 0 then size_max else depth - 1"
  have "len < ?n" using assms(2,3) by (auto simp: size_max_def)
  have "gen_points ?n len (ps_random s) [] = None"
  proof (rule ccontr)
    assume "gen_points ?n len (ps_random s) [] \<noteq> None"
    then obtain y where "gen_points ?n len (ps_random s) [] = Some y" by auto
    from gen_points_result [OF this] assms(1)
    have y: "distinct (fst y)" "set (fst y) \<subseteq> {1..len}" "length (fst y) = ?n" by auto
    have "?n \<le> len" using length_distinct_interval [OF y(1,2)] y(3) by simp
    then show False using \<open>len < ?n\<close> by simp
  qed
  then show ?thesis by (simp add: GenerateChangePoints_def)
qed

theorem pct_change_points_never_return_witness:
  "GenerateChangePoints 7 9 (new_pct_sched 0 \<lparr>pp_depth = 9, pp_seed = 42, pp_max_runs = None\<rparr>) = Inl NoReturn"
  by (rule pct_change_points_never_return) simp_all


section \<open>Properties\<close>

text \<open>
  C34: PCT runs the thread of the highest priority. When the thread that was interrupted, if any,
  may be preempted, the thread picked has a priority at least that of every thread left in the run
  queue; and the pick is one of the threads the scheduler held, which alone leaves it.
\<close>

theorem pct_runs_highest_priority:
  assumes "pct_inv s" and "\<forall>u. ps_active s = Some u \<longrightarrow> preemptive (th_attrs (ths u))"
    and "pct_PickNext now ths s = Inr (t, ths', s')"
  shows "(\<forall>u \<in> set (ps_run_queue s'). GetPriority ths' u \<le> GetPriority ths' t) \<and>
     t \<in> pct_ready s \<and> pct_ready s' = pct_ready s - {t}"
  using pct_PickNext_ok [OF assms(3,1)] assms(2) by (auto simp: pct_view_def)

definition pct_sample_threads :: threads where
  "pct_sample_threads t = \<lparr>th_id = t, th_parent_id = None, th_state = Runnable, th_main = False,
     th_attrs = \<lparr>preemptive = True, lock_free = False\<rparr>, th_action = None, th_load = 0, th_waiter = None,
     th_futex = None, th_timer = None, th_status = StOk, th_runs = 0, th_scope = None,
     th_sched = \<lparr>f1 = (if t = 1 then 0xFFFFFFFFFFFFFFFE else of_nat t), f2 = 0\<rparr>,
     th_sync = \<lparr>current = (\<lambda>_. 0), acquire_clock = (\<lambda>_. 0), release_clock = (\<lambda>_. 0), epoch = 0\<rparr>\<rparr>"

text \<open>Thread 1, at priority -2, is interrupted with 2 and 3 in the queue.\<close>

theorem pct_runs_highest_priority_witness:
  "\<exists>s ths' s'. ps_active s = Some 1 \<and> pct_PickNext 7 pct_sample_threads s = Inr (3, ths', s') \<and>
     (\<forall>u \<in> {1, 2}. GetPriority ths' u \<le> GetPriority ths' 3)"
proof -
  let ?s = "(new_pct_sched 0 \<lparr>pp_depth = 1, pp_seed = 42, pp_max_runs = None\<rparr>)
    \<lparr>change_points := [size_max], ps_active := Some 1, ps_run_queue := [2, 3]\<rparr>"
  have "case pct_PickNext 7 pct_sample_threads ?s of Inl _ \<Rightarrow> False
     | Inr (t, ths', s') \<Rightarrow> t = 3 \<and> ps_run_queue s' = [2, 1]"
    by (simp add: pct_PickNext_def pct_Preempt_def skip_points.simps new_pct_sched_def size_max_def
        pct_sample_threads_def MaxPriority_def GetPriority_def pct_Pop_def PopMaxPriority_def run_Push_def Let_def)
  then obtain ths' s' where r: "pct_PickNext 7 pct_sample_threads ?s = Inr (3, ths', s')" "ps_run_queue s' = [2, 1]"
    by (auto split: sum.splits prod.splits)
  have "pct_inv ?s"
    by (auto simp: pct_inv_def new_pct_sched_def queues_ok_def small_def thread_ids_def kMaxThreads_def)
  moreover have "\<forall>u. ps_active ?s = Some u \<longrightarrow> preemptive (th_attrs (pct_sample_threads u))"
    by (simp add: pct_sample_threads_def)
  ultimately have "\<forall>u \<in> {1, 2}. GetPriority ths' u \<le> GetPriority ths' 3"
    using pct_runs_highest_priority [OF _ _ r(1)] r(2) by auto
  moreover have "ps_active ?s = Some 1" by simp
  ultimately show ?thesis using r(1) by blast
qed

text \<open>
  Removing a thread does nothing, so that a run that burns a thread in the run queue leaves it
  there and the scheduler cannot start its next run: \<open>Start\<close> panics, or does not return.
\<close>

theorem pct_burn_breaks_next_start:
  assumes "t \<in> set (ps_run_queue s)"
  shows "t \<in> set (ps_run_queue (pct_Remove t s)) \<and> \<not> pct_IsIdle (pct_Remove t s) \<and>
     pct_Start (pct_Remove t s) \<in> {Inl (Panic ''Inconsistent state''), Inl NoReturn}"
  using assms
  by (auto simp: pct_Remove_def run_Remove_def pct_IsIdle_def pct_Start_def pct_Reset_def GenerateChangePoints_def
      GenerateInitPriorities_def Let_def verify_def split: option.splits prod.splits)

theorem pct_burn_breaks_next_start_witness:
  "\<exists>s. ps_run_queue s = [2] \<and> \<not> pct_IsIdle (pct_Remove 2 s) \<and>
     pct_Start (pct_Remove 2 s) \<in> {Inl (Panic ''Inconsistent state''), Inl NoReturn}"
proof -
  let ?s = "(new_pct_sched 0 \<lparr>pp_depth = 1, pp_seed = 42, pp_max_runs = None\<rparr>)\<lparr>ps_run_queue := [2]\<rparr>"
  have "ps_run_queue ?s = [2]" by simp
  moreover have "\<not> pct_IsIdle (pct_Remove 2 ?s) \<and>
     pct_Start (pct_Remove 2 ?s) \<in> {Inl (Panic ''Inconsistent state''), Inl NoReturn}"
    using pct_burn_breaks_next_start [of 2 ?s] by simp
  ultimately show ?thesis by blast
qed

section \<open>Recording and replaying\<close>

text \<open>
  A simulation under the PCT scheduler can be recorded and replayed. Recording
  it leads to the same result and leaves the scheduler in the same state; and the simulation with the
  replay scheduler on the recorded decisions leads to the same result again, uses up every decision
  and leaves no thread in the run queue. The simulation is any deterministic client that keeps to the
  scheduler's contract and is not pruned.
\<close>

theorem pct_record_replay:
  assumes "client_ok True False p empty_view False True" and "ps_queues s = 0" and "ps_wait s = (\<lambda>_. [])"
    and "run_simulation pct_ops p s = Inr (r, s')" and "res_status r \<noteq> Pruned"
  shows "\<exists>u rp. run_simulation (recorder_ops pct_ops) p (new_recorder s) = Inr (r, u) \<and> underlying u = s' \<and>
     run_simulation replay_ops p (new_replay (recorded u)) = Inr (r, rp) \<and> rp_run_set rp = {} \<and> remaining rp = []"
  by (rule pct_client.replay_any [OF TrueI _ assms(1) pct_choice assms(4,5)])
    (use assms in \<open>simp_all add: pct_init_def\<close>)

definition pct_race_params :: pct_params where
  "pct_race_params = \<lparr>pp_depth = 1, pp_seed = 0, pp_max_runs = None\<rparr>"

lemma pct_races:
  "\<exists>r s'. run_simulation pct_ops racers (new_pct_sched 0 pct_race_params) = Inr (r, s') \<and> res_status r \<noteq> Pruned"
  by (simp add: run_simulation_def racers_def pct_ops_def pct_Start_def new_pct_sched_def quiet_def pct_Reset_def
      GenerateInitPriorities_def GenerateChangePoints_def gen_points.simps pct_race_params_def pct_Spawn_def
      NextPriority_def run_Push_def pct_PickNext_def pct_Pop_def PopMaxPriority_def pct_IsIdle_def Let_def
      pct_DropWaitQueues_def race_result_def verify_def SetPriority_def GetPriority_def with_sched_def no_threads_def
      upt_conv_Cons numeral_2_eq_2)

theorem pct_record_replay_witness:
  "\<exists>r s' u rp. run_simulation pct_ops racers (new_pct_sched 0 pct_race_params) = Inr (r, s') \<and>
     run_simulation (recorder_ops pct_ops) racers (new_recorder (new_pct_sched 0 pct_race_params)) = Inr (r, u) \<and>
     run_simulation replay_ops racers (new_replay (recorded u)) = Inr (r, rp) \<and> remaining rp = []"
proof -
  obtain r s' where "run_simulation pct_ops racers (new_pct_sched 0 pct_race_params) = Inr (r, s') \<and> res_status r \<noteq> Pruned"
    using pct_races by blast
  then show ?thesis
    using pct_record_replay [OF racers_ok, of "(new_pct_sched 0 pct_race_params)"] by (auto simp: new_pct_sched_def)
qed

end
