(* ===== verification/Coop_Scheduler.thy ===== *)
theory Coop_Scheduler
  imports Prelude Sim_Types Random_Base Scheduler Sched_Client Link_Queues Replay
begin

text \<open>
  The cooperative scheduler (\<open>rt/sim/scheduler/coop/\<close>): a first-in first-out run queue whose
  interrupted thread goes back to the front. The run queue and the wait queues are intrusive lists
  over the same node of a thread, so \<open>IsLinked\<close> and \<open>Unlink\<close> see all of them.
\<close>

section \<open>State\<close>

record coop_sched =
  cs_seed :: u64
  cs_random :: wyrand
  cs_run_queue :: "tid list"
  cs_next :: "tid option"
  cs_queues :: nat
  cs_wait :: "nat \<Rightarrow> tid list"

definition new_coop_sched :: "u64 \<Rightarrow> coop_sched" where
  "new_coop_sched s = \<lparr>cs_seed = s, cs_random = \<lparr>wy_state = s\<rparr>, cs_run_queue = [], cs_next = None,
     cs_queues = 0, cs_wait = (\<lambda>_. [])\<rparr>"

definition coop_linked :: "coop_sched \<Rightarrow> tid \<Rightarrow> bool" where
  "coop_linked s t \<longleftrightarrow> t \<in> set (cs_run_queue s) \<or> linked (cs_queues s) (cs_wait s) t"

definition coop_unlink :: "tid \<Rightarrow> coop_sched \<Rightarrow> coop_sched" where
  "coop_unlink t s = s\<lparr>cs_run_queue := remove1 t (cs_run_queue s), cs_wait := unlink t (cs_wait s)\<rparr>"

definition coop_push :: "(tid list \<Rightarrow> tid list) \<Rightarrow> tid \<Rightarrow> coop_sched \<Rightarrow> fault + coop_sched" where
  "coop_push f t s =
     (if coop_linked s t then Inl (Panic ''cannot link already linked node'')
      else Inr (s\<lparr>cs_run_queue := f (cs_run_queue s)\<rparr>))"

definition coop_PushBack :: "tid \<Rightarrow> coop_sched \<Rightarrow> fault + coop_sched" where
  "coop_PushBack t s = coop_push (\<lambda>q. q @ [t]) t s"

definition coop_PushFront :: "tid \<Rightarrow> coop_sched \<Rightarrow> fault + coop_sched" where
  "coop_PushFront t s = coop_push (\<lambda>q. t # q) t s"

section \<open>Scheduling\<close>

definition coop_NextSchedule :: "coop_sched \<Rightarrow> bool \<times> coop_sched" where
  "coop_NextSchedule s = (False, s)"

definition coop_Start :: "coop_sched \<Rightarrow> fault + coop_sched" where
  "coop_Start s =
     (let s1 = s\<lparr>cs_next := None\<rparr>
      in bindE (verify (cs_run_queue s1 = []) (Panic ''Inconsistent state'')) (\<lambda>_. Inr s1))"

definition coop_Interrupt :: "u64 \<Rightarrow> tid \<Rightarrow> coop_sched step" where
  "coop_Interrupt now t ths s = bindE (coop_PushFront t s) (\<lambda>s1. Inr (ths, s1))"

definition coop_SwitchTo :: "tid \<Rightarrow> tid \<Rightarrow> coop_sched step" where
  "coop_SwitchTo t u ths s = bindE (coop_PushBack t s) (\<lambda>s1. Inr (ths, s1\<lparr>cs_next := Some u\<rparr>))"

definition coop_Yield :: "tid \<Rightarrow> coop_sched step" where
  "coop_Yield t ths s = bindE (coop_PushBack t s) (\<lambda>s1. Inr (ths, s1))"

definition coop_Wake :: "tid \<Rightarrow> coop_sched step" where
  "coop_Wake t ths s = bindE (coop_PushBack t s) (\<lambda>s1. Inr (ths, s1))"

definition coop_Spawn :: "tid \<Rightarrow> coop_sched step" where
  "coop_Spawn t ths s = bindE (coop_PushBack t s) (\<lambda>s1. Inr (ths, s1))"

definition coop_Exit :: "tid \<Rightarrow> coop_sched step" where
  "coop_Exit t ths s = Inr (ths, s)"

definition coop_LockFree :: "tid \<Rightarrow> bool \<Rightarrow> coop_sched step" where
  "coop_LockFree t b ths s = Inr (ths, s)"

definition coop_Progress :: "tid \<Rightarrow> coop_sched step" where
  "coop_Progress t ths s = Inr (ths, s)"

definition coop_NewIter :: "coop_sched step" where
  "coop_NewIter ths s = Inr (ths, s)"

definition coop_IsIdle :: "coop_sched \<Rightarrow> bool" where
  "coop_IsIdle s \<longleftrightarrow> cs_run_queue s = []"

definition PickFront :: "coop_sched \<Rightarrow> fault + tid \<times> coop_sched" where
  "PickFront s = (case cs_run_queue s of
       [] \<Rightarrow> Inl (Panic ''null thread'')
     | t # q \<Rightarrow> Inr (t, s\<lparr>cs_run_queue := q\<rparr>))"

definition TryPick :: "tid \<Rightarrow> coop_sched \<Rightarrow> (tid \<times> coop_sched) option" where
  "TryPick i s = (if i \<in> set (cs_run_queue s) then Some (i, coop_unlink i s) else None)"

definition coop_PickNext :: "u64 \<Rightarrow> threads \<Rightarrow> coop_sched \<Rightarrow> fault + tid \<times> threads \<times> coop_sched" where
  "coop_PickNext now ths s =
     (case cs_next s of
        Some i \<Rightarrow>
          (case TryPick i (s\<lparr>cs_next := None\<rparr>) of
             Some (t, s1) \<Rightarrow> Inr (t, ths, s1)
           | None \<Rightarrow> Inl (Panic ''Cannot find target thread for SwitchTo''))
      | None \<Rightarrow> bindE (PickFront s) (\<lambda>(t, s1). Inr (t, ths, s1)))"

definition coop_Remove :: "tid \<Rightarrow> coop_sched \<Rightarrow> coop_sched" where
  "coop_Remove t s = (if coop_linked s t then coop_unlink t s else s)"

definition coop_draw :: "coop_sched \<Rightarrow> u64 \<times> coop_sched" where
  "coop_draw s = (let (r, g) = Next (cs_random s) in (r, s\<lparr>cs_random := g\<rparr>))"

definition coop_RandomNumber :: "coop_sched \<Rightarrow> fault + u64 \<times> coop_sched" where
  "coop_RandomNumber s = Inr (coop_draw s)"

definition coop_RandomChoice :: "nat \<Rightarrow> coop_sched \<Rightarrow> fault + nat \<times> coop_sched" where
  "coop_RandomChoice alts s =
     (if alts = 0 then Inl (Panic ''division by zero'')
      else let (r, s1) = coop_draw s in Inr (unat r mod alts, s1))"

definition coop_SpuriousWakeup :: "coop_sched \<Rightarrow> fault + bool \<times> coop_sched" where
  "coop_SpuriousWakeup s = Inr (False, s)"

definition coop_SpuriousTryFailure :: "coop_sched \<Rightarrow> fault + bool \<times> coop_sched" where
  "coop_SpuriousTryFailure s = Inr (False, s)"

section \<open>Wait queues\<close>

definition coop_NewWaitQueue :: "coop_sched \<Rightarrow> nat \<times> coop_sched" where
  "coop_NewWaitQueue s = (cs_queues s,
     s\<lparr>cs_wait := (cs_wait s)(cs_queues s := []), cs_queues := cs_queues s + 1\<rparr>)"

definition coop_DropWaitQueues :: "coop_sched \<Rightarrow> coop_sched" where
  "coop_DropWaitQueues s = s\<lparr>cs_wait := (\<lambda>_. []), cs_queues := 0\<rparr>"

definition coop_wq_IsEmpty :: "nat \<Rightarrow> coop_sched \<Rightarrow> bool" where
  "coop_wq_IsEmpty q s \<longleftrightarrow> cs_wait s q = []"

definition coop_wq_Push :: "nat \<Rightarrow> tid \<Rightarrow> coop_sched \<Rightarrow> fault + coop_sched" where
  "coop_wq_Push q t s =
     (if coop_linked s t then Inl (Panic ''cannot link already linked node'')
      else Inr (s\<lparr>cs_wait := (cs_wait s)(q := cs_wait s q @ [t])\<rparr>))"

definition coop_wq_Pop :: "nat \<Rightarrow> coop_sched \<Rightarrow> fault + tid option \<times> coop_sched" where
  "coop_wq_Pop q s = (let (r, w) = PopFront q (cs_wait s) in Inr (r, s\<lparr>cs_wait := w\<rparr>))"

definition coop_wq_PopAll :: "nat \<Rightarrow> coop_sched \<Rightarrow> fault + tid option \<times> coop_sched" where
  "coop_wq_PopAll q s = coop_wq_Pop q s"

definition coop_wq_Remove :: "nat \<Rightarrow> tid \<Rightarrow> coop_sched \<Rightarrow> bool \<times> coop_sched" where
  "coop_wq_Remove q t s = (if coop_linked s t then (True, coop_unlink t s) else (False, s))"

definition coop_ops :: "coop_sched sched_ops" where
  "coop_ops = \<lparr>NextSchedule = coop_NextSchedule, Start = coop_Start, Interrupt = coop_Interrupt,
     SwitchTo = coop_SwitchTo, Yield = coop_Yield, Wake = coop_Wake, Spawn = coop_Spawn, Exit = coop_Exit,
     LockFree = coop_LockFree, Progress = coop_Progress, NewIter = coop_NewIter, IsIdle = coop_IsIdle,
     PickNext = coop_PickNext, RemoveThread = coop_Remove, NewWaitQueue = coop_NewWaitQueue, DropWaitQueues = coop_DropWaitQueues,
     wq_IsEmpty = coop_wq_IsEmpty, wq_Push = coop_wq_Push, wq_Pop = coop_wq_Pop,
     wq_PopAll = coop_wq_PopAll, wq_Remove = coop_wq_Remove, RandomNumber = coop_RandomNumber,
     RandomChoice = coop_RandomChoice, SpuriousWakeup = coop_SpuriousWakeup,
     SpuriousTryFailure = coop_SpuriousTryFailure, IsModelChecker = False\<rparr>"

section \<open>The contract\<close>

definition coop_ready :: "coop_sched \<Rightarrow> tid set" where
  "coop_ready s = set (cs_run_queue s)"

definition coop_view :: "coop_sched \<Rightarrow> sched_view" where
  "coop_view s = \<lparr>held = coop_ready s, waiting = (\<lambda>q. set (cs_wait s q)), queues = cs_queues s\<rparr>"

text \<open>One node per thread: the lists are disjoint.\<close>

definition coop_init :: "coop_sched \<Rightarrow> bool" where
  "coop_init s \<longleftrightarrow> cs_queues s = 0 \<and> cs_wait s = (\<lambda>_. [])"

definition coop_inv :: "coop_sched \<Rightarrow> bool" where
  "coop_inv s \<longleftrightarrow> small (cs_run_queue s) \<and> queues_ok (cs_queues s) (cs_wait s) \<and>
     (\<forall>q. set (cs_run_queue s) \<inter> set (cs_wait s q) = {})"

definition coop_settled :: "coop_sched \<Rightarrow> bool" where
  "coop_settled s \<longleftrightarrow> True"

lemma coop_view_simps [simp]:
  "held (coop_view s) = set (cs_run_queue s)" "waiting (coop_view s) = (\<lambda>q. set (cs_wait s q))"
  "queues (coop_view s) = cs_queues s"
  by (simp_all add: coop_view_def coop_ready_def)

lemma coop_next_ghost [simp]:
  "coop_inv (x\<lparr>cs_next := y\<rparr>) = coop_inv x" "coop_view (x\<lparr>cs_next := y\<rparr>) = coop_view x"
  "coop_inv (x\<lparr>cs_random := g\<rparr>) = coop_inv x" "coop_view (x\<lparr>cs_random := g\<rparr>) = coop_view x"
  by (simp_all add: coop_inv_def coop_view_def coop_ready_def)

lemma coop_linked_iff: "coop_inv s \<Longrightarrow> coop_linked s t \<longleftrightarrow> t \<in> somewhere (coop_view s)"
  by (auto simp: coop_linked_def coop_inv_def linked_iff somewhere_def)

lemma coop_push_ok:
  assumes "coop_inv s" and "t \<in> thread_ids" and "t \<notin> somewhere (coop_view s)"
    and "\<And>q. set (f q) = insert t (set q)" and "\<And>q. distinct q \<Longrightarrow> t \<notin> set q \<Longrightarrow> distinct (f q)"
  shows "coop_push f t s = Inr (s\<lparr>cs_run_queue := f (cs_run_queue s)\<rparr>)"
    and "coop_inv (s\<lparr>cs_run_queue := f (cs_run_queue s)\<rparr>)"
    and "coop_view (s\<lparr>cs_run_queue := f (cs_run_queue s)\<rparr>) =
      (coop_view s)\<lparr>held := insert t (held (coop_view s))\<rparr>"
  using assms coop_linked_iff [OF assms(1), of t]
  by (auto simp: coop_push_def coop_inv_def small_def somewhere_def coop_view_def coop_ready_def)

lemma coop_push_both:
  assumes "coop_inv s" and "t \<in> thread_ids" and "t \<notin> somewhere (coop_view s)"
  shows "\<exists>s'. coop_PushBack t s = Inr s' \<and> coop_inv s' \<and> coop_view s' = (coop_view s)\<lparr>held := insert t (held (coop_view s))\<rparr>"
    and "\<exists>s'. coop_PushFront t s = Inr s' \<and> coop_inv s' \<and> coop_view s' = (coop_view s)\<lparr>held := insert t (held (coop_view s))\<rparr>"
  using coop_push_ok [OF assms, of "\<lambda>q. q @ [t]"] coop_push_ok [OF assms, of "\<lambda>q. t # q"]
  by (simp_all add: coop_PushBack_def coop_PushFront_def)

lemma coop_unlink_ok:
  assumes "coop_inv s"
  shows "coop_inv (coop_unlink t s)" and "set (cs_run_queue (coop_unlink t s)) = set (cs_run_queue s) - {t}"
    and "set (cs_wait (coop_unlink t s) q) = set (cs_wait s q) - {t}" and "cs_queues (coop_unlink t s) = cs_queues s"
proof -
  have r: "set (remove1 t (cs_run_queue s)) = set (cs_run_queue s) - {t}"
    using assms by (simp add: coop_inv_def set_remove1_small)
  have w: "set (remove1 t (cs_wait s q)) = set (cs_wait s q) - {t}" for q
    using assms by (simp add: coop_inv_def queues_ok_def set_remove1_small)
  show "set (cs_run_queue (coop_unlink t s)) = set (cs_run_queue s) - {t}"
    "set (cs_wait (coop_unlink t s) q) = set (cs_wait s q) - {t}" "cs_queues (coop_unlink t s) = cs_queues s"
    using r w by (simp_all add: coop_unlink_def unlink_def)
  have "queues_ok (cs_queues s) (unlink t (cs_wait s))"
    using assms by (auto simp: coop_inv_def queues_ok_def unlink_def small_remove1)
  then show "coop_inv (coop_unlink t s)"
    using assms r w by (auto simp: coop_inv_def coop_unlink_def unlink_def small_remove1)
qed


lemma coop_PickNext_ok:
  assumes "coop_PickNext now ths s = Inr (t, ths', s')" and I: "coop_inv s"
  shows "coop_inv s' \<and> t \<in> held (coop_view s) \<and> coop_view s' = (coop_view s)\<lparr>held := held (coop_view s) - {t}\<rparr>"
proof (cases "cs_next s")
  case None
  then obtain q where q: "cs_run_queue s = t # q" "s' = s\<lparr>cs_run_queue := q\<rparr>"
    using assms(1) by (auto simp: coop_PickNext_def PickFront_def split: list.splits)
  then have "small q" "t \<notin> set q" using I small_tl [of t q] by (auto simp: coop_inv_def)
  then show ?thesis using q I by (auto simp: coop_inv_def coop_view_def coop_ready_def)
next
  case (Some u)
  let ?s = "s\<lparr>cs_next := None\<rparr>"
  have I': "coop_inv ?s" using I by (simp add: coop_inv_def)
  have r: "t = u" "t \<in> set (cs_run_queue s)" "s' = coop_unlink t ?s"
    using assms(1) Some by (auto simp: coop_PickNext_def TryPick_def split: option.splits if_splits)
  then have "t \<notin> set (cs_wait s q)" for q using I by (auto simp: coop_inv_def)
  then have w: "set (cs_wait s q) - {t} = set (cs_wait s q)" for q by simp
  show ?thesis using r coop_unlink_ok [OF I', of t] w
    by (simp add: coop_view_def coop_ready_def)
qed

lemma coop_wq_ok:
  assumes I: "coop_inv s" and q: "q < cs_queues s"
  shows "t \<in> thread_ids \<Longrightarrow> t \<notin> somewhere (coop_view s) \<Longrightarrow> \<exists>s'. coop_wq_Push q t s = Inr s' \<and> coop_inv s' \<and>
      coop_view s' = (coop_view s)\<lparr>waiting := (waiting (coop_view s))(q := insert t (set (cs_wait s q)))\<rparr>"
    and "coop_wq_Pop q s = Inr (r, s') \<Longrightarrow> coop_inv s' \<and> take_waiter q (RWaiter r) (coop_view s) (coop_view s')"
    and "t \<notin> set (cs_run_queue s) \<Longrightarrow> \<forall>q'. q' \<noteq> q \<longrightarrow> t \<notin> set (cs_wait s q') \<Longrightarrow> coop_wq_Remove q t s = (b, s') \<Longrightarrow>
      coop_inv s' \<and> b = (t \<in> set (cs_wait s q)) \<and>
      coop_view s' = (coop_view s)\<lparr>waiting := (waiting (coop_view s))(q := set (cs_wait s q) - {t})\<rparr>"
proof -
  have Q: "queues_ok (cs_queues s) (cs_wait s)" using I by (simp add: coop_inv_def)
  show "\<exists>s'. coop_wq_Push q t s = Inr s' \<and> coop_inv s' \<and>
      coop_view s' = (coop_view s)\<lparr>waiting := (waiting (coop_view s))(q := insert t (set (cs_wait s q)))\<rparr>"
    if "t \<in> thread_ids" "t \<notin> somewhere (coop_view s)"
    using that I q PushBack_ok(2,3) [OF Q q, of t] coop_linked_iff [OF I, of t]
    by (auto simp: coop_wq_Push_def coop_inv_def somewhere_def coop_view_def coop_ready_def)
  show "coop_inv s' \<and> take_waiter q (RWaiter r) (coop_view s) (coop_view s')" if ok: "coop_wq_Pop q s = Inr (r, s')"
  proof -
    obtain w where w: "PopFront q (cs_wait s) = (r, w)" "s' = s\<lparr>cs_wait := w\<rparr>"
      using ok by (auto simp: coop_wq_Pop_def split: prod.splits)
    from PopFront_ok [OF Q q w(1)] have Qw: "queues_ok (cs_queues s) w" and
      P: "(cs_wait s q = [] \<and> r = None \<and> w = cs_wait s) \<or>
        (\<exists>t \<in> set (cs_wait s q). r = Some t \<and> (\<lambda>q'. set (w q')) = (\<lambda>q. set (cs_wait s q))(q := set (cs_wait s q) - {t}))"
      by auto
    have sub: "set (w q') \<subseteq> set (cs_wait s q')" for q'
      using P by (auto dest: fun_cong [where x = q'] split: if_splits)
    then have "coop_inv s'" using I Qw w(2) by (fastforce simp: coop_inv_def)
    then show ?thesis using P w(2) by (auto simp: take_waiter_def coop_view_def coop_ready_def)
  qed
  show "coop_inv s' \<and> b = (t \<in> set (cs_wait s q)) \<and>
      coop_view s' = (coop_view s)\<lparr>waiting := (waiting (coop_view s))(q := set (cs_wait s q) - {t})\<rparr>"
    if "t \<notin> set (cs_run_queue s)" "\<forall>q'. q' \<noteq> q \<longrightarrow> t \<notin> set (cs_wait s q')" "coop_wq_Remove q t s = (b, s')"
  proof -
    have l: "coop_linked s t \<longleftrightarrow> t \<in> set (cs_wait s q)" using coop_linked_iff [OF I, of t] that(1,2) by (auto simp: somewhere_def)
    note U = coop_unlink_ok [OF I, of t]
    have f: "(\<lambda>q'. set (cs_wait s q') - {t}) = (\<lambda>q'. set (cs_wait s q'))(q := set (cs_wait s q) - {t})"
      by (rule ext) (use that(2) in auto)
    have r: "set (cs_run_queue s) - {t} = set (cs_run_queue s)" using that(1) by simp
    show ?thesis
    proof (cases "coop_linked s t")
      case True
      then have "b" "s' = coop_unlink t s" using that(3) by (simp_all add: coop_wq_Remove_def)
      then show ?thesis using U l True f r by (simp add: coop_view_def coop_ready_def)
    next
      case False
      then have "\<not> b" "s' = s" using that(3) by (simp_all add: coop_wq_Remove_def)
      moreover have "set (cs_wait s q) - {t} = set (cs_wait s q)" using False l by simp
      ultimately show ?thesis using I l False by (simp add: coop_view_def fun_upd_idem)
    qed
  qed
qed

lemma coop_step:
  assumes I: "coop_inv s" and pre: "call_pre c (coop_view s)" and nr: "\<not> is_Remove c"
    and ok: "invoke coop_ops c ths s = Inr (r, ths', s')"
  shows "coop_inv s' \<and> call_spec c r (coop_view s) (coop_view s')"
proof (cases c)
  case (CInterrupt now t)
  then show ?thesis using coop_push_both(2) [OF I, of t] pre ok by (auto simp: coop_ops_def coop_Interrupt_def)
next
  case (CSwitchTo t u)
  then show ?thesis using coop_push_both(1) [OF I, of t] pre ok
    by (auto simp: coop_ops_def coop_SwitchTo_def)
next
  case (CYield t)
  then show ?thesis using coop_push_both(1) [OF I, of t] pre ok by (auto simp: coop_ops_def coop_Yield_def)
next
  case (CWake t)
  then show ?thesis using coop_push_both(1) [OF I, of t] pre ok by (auto simp: coop_ops_def coop_Wake_def)
next
  case (CSpawn t)
  then show ?thesis using coop_push_both(1) [OF I, of t] pre ok by (auto simp: coop_ops_def coop_Spawn_def)
next
  case (CPickNext now)
  then show ?thesis using coop_PickNext_ok [OF _ I] ok by (auto simp: coop_ops_def bindE_eq_Inr)
next
  case CNewWaitQueue
  have w: "cs_wait s (cs_queues s) = []" using I by (simp add: coop_inv_def queues_ok_def)
  then have e: "(cs_wait s)(cs_queues s := []) = cs_wait s" by (rule fun_upd_idem)
  have "coop_inv (s\<lparr>cs_queues := Suc (cs_queues s)\<rparr>)" using I by (simp add: coop_inv_def queues_ok_def)
  then show ?thesis using CNewWaitQueue ok w
    by (auto simp: coop_ops_def coop_NewWaitQueue_def e coop_view_def coop_ready_def fun_upd_idem)
next
  case (CPush q t)
  then show ?thesis using coop_wq_ok(1) [OF I, of q t] pre ok by (auto simp: coop_ops_def)
next
  case (CPop q)
  then show ?thesis using coop_wq_ok(2) [OF I, of q] pre ok by (auto simp: coop_ops_def bindE_eq_Inr)
next
  case (CPopAll q)
  then show ?thesis using coop_wq_ok(2) [OF I, of q] pre ok
    by (auto simp: coop_ops_def coop_wq_PopAll_def bindE_eq_Inr)
next
  case (CWqRemove q t)
  then show ?thesis using coop_wq_ok(3) [OF I, of q t] pre ok by (auto simp: coop_ops_def split: prod.splits)
qed (use I nr ok pre in \<open>auto simp: coop_ops_def coop_Exit_def coop_LockFree_def coop_Progress_def
      coop_NewIter_def coop_RandomNumber_def coop_RandomChoice_def coop_SpuriousWakeup_def
      coop_SpuriousTryFailure_def coop_draw_def bindE_eq_Inr
      split: if_splits prod.splits\<close>)

lemma coop_empty: "wq_IsEmpty coop_ops q s \<longleftrightarrow> waiting (coop_view s) q = {}"
  by (simp add: coop_ops_def coop_wq_IsEmpty_def coop_view_def)

lemma coop_woken:
  assumes "c \<in> {CWake t, CYield t, CSpawn t}" and "invoke coop_ops c ths s = Inr (r, ths', s')"
  shows "t \<in> coop_ready s'"
  using assms by (auto simp: coop_ops_def coop_Wake_def coop_Yield_def coop_Spawn_def coop_PushBack_def
      coop_push_def coop_ready_def bindE_eq_Inr split: if_splits)

lemma coop_aborts: "invoke coop_ops c ths s \<noteq> Inl (SysAbortEx st)"
  by (cases c) (auto simp: coop_ops_def quiet_def coop_Interrupt_def coop_SwitchTo_def coop_Yield_def coop_Wake_def
      coop_Spawn_def coop_Exit_def coop_LockFree_def coop_Progress_def coop_NewIter_def coop_PushBack_def
      coop_PushFront_def coop_push_def coop_PickNext_def PickFront_def coop_wq_Push_def coop_wq_Pop_def
      coop_wq_PopAll_def coop_RandomNumber_def coop_RandomChoice_def coop_SpuriousWakeup_def
      coop_SpuriousTryFailure_def bindE_eq_Inl Let_def split: if_splits prod.splits option.splits list.splits)

interpretation coop: scheduler coop_ops coop_inv coop_view coop_ready coop_settled coop_init
proof
  fix s s'
  assume "coop_init s" "Start coop_ops s = Inr s'"
  then show "coop_inv s' \<and> coop_settled s' \<and> coop_view s' = empty_view"
    by (auto simp: coop_ops_def coop_init_def coop_Start_def bindE_eq_Inr Let_def coop_inv_def coop_settled_def coop_view_def coop_ready_def queues_ok_def empty_view_def)
next
  fix s show "coop_init (DropWaitQueues coop_ops s)" by (simp add: coop_ops_def coop_DropWaitQueues_def coop_init_def)
next
  fix s again s'
  assume "coop_init s" "NextSchedule coop_ops s = (again, s')"
  then show "coop_init s'"
    by (auto simp: coop_ops_def coop_init_def coop_NextSchedule_def split: option.splits if_splits prod.splits)
next
  fix s show "coop_ready s \<subseteq> held (coop_view s)" by (simp add: coop_ready_def)
next
  fix s show "IsIdle coop_ops s = (coop_ready s = {})" by (simp add: coop_ops_def coop_IsIdle_def coop_ready_def)
next
  fix s' show "coop_settled s'" by (simp add: coop_settled_def)
qed (rule coop_step coop_empty coop_woken FalseE [OF notE [OF coop_aborts]]; assumption)+

interpretation coop_client: client_scheduler coop_ops coop_inv coop_view coop_ready coop_settled coop_init True False
  by unfold_locales (auto simp: coop_view_def coop_ready_def coop_settled_def)

lemma coop_choice: "invoke coop_ops (CRandomChoice n) ths s = Inr (RIndex i, ths', s') \<Longrightarrow> i < n"
  by (auto simp: coop_ops_def coop_RandomChoice_def bindE_eq_Inr Let_def split: if_splits prod.splits)

interpretation coop_total: total_scheduler coop_ops coop_inv coop_view coop_ready coop_settled coop_init
proof
  fix s c t q ths
  assume I: "coop_inv s" and pre: "call_pre c (coop_view s)" and c: "c \<in> {CYield t, CWake t, CSpawn t, CPush q t, CPopAll q}"
  then show "\<exists>x. invoke coop_ops c ths s = Inr x"
    using coop_push_both(1) [OF I, of t] coop_wq_ok(1) [OF I, of q t]
    by (auto simp: coop_ops_def quiet_def coop_Yield_def coop_Wake_def coop_Spawn_def
        coop_wq_PopAll_def coop_wq_Pop_def split: prod.splits)
qed


section \<open>Properties\<close>

text \<open>
  Under the cooperative scheduler a thread runs until it gives up the processor itself. From a
  state where no switch is pending, interrupting the running thread and picking the next one gives
  the same thread back and the same state, while after a yield every thread that was in the run queue
  is picked before it: the queue is first-in first-out.
\<close>

theorem coop_no_preemption:
  assumes "coop_inv s" and "t \<in> thread_ids" and "t \<notin> somewhere (coop_view s)" and "cs_next s = None"
  shows "(\<exists>s1. coop_Interrupt now t ths s = Inr (ths, s1) \<and> coop_PickNext now ths s1 = Inr (t, ths, s)) \<and>
     (\<exists>s1. coop_Yield t ths s = Inr (ths, s1) \<and> cs_run_queue s1 = cs_run_queue s @ [t] \<and>
        (\<forall>u q. cs_run_queue s = u # q \<longrightarrow>
           (\<exists>s2. coop_PickNext now ths s1 = Inr (u, ths, s2) \<and> cs_run_queue s2 = q @ [t])))"
  using assms coop_linked_iff [OF assms(1), of t]
  by (auto simp: coop_Interrupt_def coop_PushFront_def coop_push_def coop_PickNext_def PickFront_def
      coop_Yield_def coop_PushBack_def)

definition coop_sample :: coop_sched where
  "coop_sample = (new_coop_sched 1)\<lparr>cs_run_queue := [2, 3], cs_queues := 1, cs_wait := (\<lambda>_. [])(0 := [4])\<rparr>"

lemma coop_sample_inv: "coop_inv coop_sample" "cs_next coop_sample = None"
    "1 \<in> thread_ids" "1 \<notin> somewhere (coop_view coop_sample)"
  by (auto simp: coop_inv_def coop_sample_def new_coop_sched_def queues_ok_def small_def thread_ids_def
      kMaxThreads_def somewhere_def coop_view_def coop_ready_def)

theorem coop_no_preemption_witness:
  "\<exists>s1 ths. coop_Interrupt 0 1 ths coop_sample = Inr (ths, s1) \<and>
     coop_PickNext 0 ths s1 = Inr (1, ths, coop_sample)"
  using coop_no_preemption [OF coop_sample_inv(1,3,4,2), of 0] by blast

text \<open>
  Burning a parked thread breaks under the cooperative scheduler. \<open>Remove\<close>, meant for the run
  queue, unlinks the thread from the wait queue it is in, since both are lists over the same node;
  the removal from the wait queue that \<open>Burn\<close> makes next does not find it any more, and the
  futex's queue panics on that answer.
\<close>

theorem coop_burn_loses_waiter:
  assumes "coop_inv s" and "q < cs_queues s" and "t \<in> set (cs_wait s q)"
    and "\<forall>q'. q' \<noteq> q \<longrightarrow> t \<notin> set (cs_wait s q')"
  shows "t \<notin> set (cs_wait (coop_Remove t s) q) \<and>
     coop_wq_Remove q t (coop_Remove t s) = (False, coop_Remove t s)"
proof -
  have l: "coop_linked s t" using coop_linked_iff [OF assms(1), of t] assms(3) by (auto simp: somewhere_def)
  note U = coop_unlink_ok [OF assms(1), of t]
  have "\<not> coop_linked (coop_unlink t s) t"
    using coop_linked_iff [OF U(1), of t] U(2,3) by (auto simp: somewhere_def)
  then show ?thesis using l U(3) by (simp add: coop_Remove_def coop_wq_Remove_def)
qed

theorem coop_burn_loses_waiter_witness:
  "4 \<in> set (cs_wait coop_sample 0) \<and> coop_wq_Remove 0 4 (coop_Remove 4 coop_sample) = (False, coop_Remove 4 coop_sample)"
proof -
  have "0 < cs_queues coop_sample" "4 \<in> set (cs_wait coop_sample 0)"
    "\<forall>q'. q' \<noteq> 0 \<longrightarrow> 4 \<notin> set (cs_wait coop_sample q')"
    by (auto simp: coop_sample_def)
  with coop_burn_loses_waiter [OF coop_sample_inv(1) this] show ?thesis by blast
qed

section \<open>Recording and replaying\<close>

text \<open>
  A simulation under the cooperative scheduler can be recorded and replayed. Recording
  it leads to the same result and leaves the scheduler in the same state; and the simulation with the
  replay scheduler on the recorded decisions leads to the same result again, uses up every decision
  and leaves no thread in the run queue. The simulation is any deterministic client that keeps to the
  scheduler's contract and is not pruned.
\<close>

theorem coop_record_replay:
  assumes "client_ok True False p empty_view False True" and "cs_queues s = 0" and "cs_wait s = (\<lambda>_. [])"
    and "run_simulation coop_ops p s = Inr (r, s')" and "res_status r \<noteq> Pruned"
  shows "\<exists>u rp. run_simulation (recorder_ops coop_ops) p (new_recorder s) = Inr (r, u) \<and> underlying u = s' \<and>
     run_simulation replay_ops p (new_replay (recorded u)) = Inr (r, rp) \<and> rp_run_set rp = {} \<and> remaining rp = []"
  by (rule coop_client.replay_any [OF TrueI _ assms(1) coop_choice assms(4,5)])
    (use assms in \<open>simp_all add: coop_init_def\<close>)

lemma coop_races:
  "\<exists>r s'. run_simulation coop_ops racers (new_coop_sched 1) = Inr (r, s') \<and> res_status r \<noteq> Pruned"
  by (simp add: run_simulation_def racers_def coop_ops_def coop_Start_def new_coop_sched_def verify_def quiet_def
      coop_Spawn_def coop_PushBack_def coop_push_def coop_linked_def linked_def coop_PickNext_def PickFront_def
      coop_IsIdle_def Let_def coop_DropWaitQueues_def race_result_def)

theorem coop_record_replay_witness:
  "\<exists>r s' u rp. run_simulation coop_ops racers (new_coop_sched 1) = Inr (r, s') \<and>
     run_simulation (recorder_ops coop_ops) racers (new_recorder (new_coop_sched 1)) = Inr (r, u) \<and>
     run_simulation replay_ops racers (new_replay (recorded u)) = Inr (r, rp) \<and> remaining rp = []"
proof -
  obtain r s' where "run_simulation coop_ops racers (new_coop_sched 1) = Inr (r, s') \<and> res_status r \<noteq> Pruned"
    using coop_races by blast
  then show ?thesis
    using coop_record_replay [OF racers_ok, of "(new_coop_sched 1)"] by (auto simp: new_coop_sched_def)
qed

end
