(* ===== verification/Dfs_Scheduler.thy ===== *)
theory Dfs_Scheduler
  imports Prelude Sim_Types Scheduler Sched_Client Link_Queues Replay
begin

text \<open>
  The depth-first scheduler (\<open>rt/sim/scheduler/dfs/\<close>), the model checker: every decision of a run is
  an index into a list of alternatives, the indices of a run are its schedule, and the next run takes
  the next schedule in lexicographic order. A sorted list of threads is kept by identifier. The wait
  queues are sorted lists whose wake-ups branch, or, without \<open>wake_order\<close>, intrusive first-in
  first-out lists. An index out of bounds is a panic. Pruning a run throws out of the scheduler; nothing it has changed in the same call
  survives the next \<open>Start\<close>.
\<close>

section \<open>Schedules\<close>

datatype branch_type =
  BPickNext | BWakeOne | BPreempt | BRandomChoice | BSpuriousWakeup | BSpuriousTryFailure

record branch =
  br_type :: branch_type
  alts :: nat
  index :: nat

function Backtrack :: "branch list \<Rightarrow> bool \<times> branch list" where
  "Backtrack s =
     (if s = [] then (False, s)
      else let l = last s
           in if index l + 1 = alts l then Backtrack (butlast s)
              else (True, butlast s @ [l\<lparr>index := index l + 1\<rparr>]))"
  by auto
termination by (relation "measure length") auto

declare Backtrack.simps [simp del]

section \<open>Sorted lists\<close>

function sl_Push :: "tid \<Rightarrow> tid list \<Rightarrow> tid list" where
  "sl_Push t xs =
     (if xs \<noteq> [] \<and> last xs > t then sl_Push t (butlast xs) @ [last xs] else xs @ [t])"
  by auto
termination by (relation "measure (\<lambda>(t, xs). length xs)") auto

declare sl_Push.simps [simp del]

definition sl_Pop :: "nat \<Rightarrow> tid list \<Rightarrow> tid \<times> tid list" where
  "sl_Pop i xs = (xs ! i, take i xs @ drop (Suc i) xs)"

definition sl_PopLast :: "tid list \<Rightarrow> tid option \<times> tid list" where
  "sl_PopLast xs = (if xs = [] then (None, xs) else (Some (last xs), butlast xs))"

definition sl_Remove :: "tid \<Rightarrow> tid list \<Rightarrow> bool \<times> tid list" where
  "sl_Remove t xs = (case find_index (\<lambda>x. x = t) xs of
       None \<Rightarrow> (False, xs) | Some i \<Rightarrow> (True, snd (sl_Pop i xs)))"

section \<open>State\<close>

record dfs_params =
  dp_max_preemptions :: "nat option"
  dp_max_steps :: "nat option"
  dp_force_preempt_after_steps :: "nat option"
  dp_wake_order :: bool
  dp_spurious_wakeups :: bool
  dp_spurious_failures :: bool

record dfs_sched =
  ds_params :: dfs_params
  ds_schedule :: "branch list"
  ds_branch_index :: nat
  ds_run_queue :: "tid list"
  ds_active :: "tid option"
  ds_preempts :: nat
  ds_steps :: nat
  ds_queues :: nat
  ds_wait :: "nat \<Rightarrow> tid list"

definition new_dfs_sched :: "dfs_params \<Rightarrow> dfs_sched" where
  "new_dfs_sched p = \<lparr>ds_params = p, ds_schedule = [], ds_branch_index = 0, ds_run_queue = [],
     ds_active = None, ds_preempts = 0, ds_steps = 0, ds_queues = 0, ds_wait = (\<lambda>_. [])\<rparr>"

definition dfs_NextSchedule :: "dfs_sched \<Rightarrow> bool \<times> dfs_sched" where
  "dfs_NextSchedule s = (let (more, sch) = Backtrack (ds_schedule s) in (more, s\<lparr>ds_schedule := sch\<rparr>))"

definition dfs_Start :: "dfs_sched \<Rightarrow> fault + dfs_sched" where
  "dfs_Start s = Inr (s\<lparr>ds_branch_index := 0, ds_preempts := 0, ds_steps := 0, ds_run_queue := [],
     ds_active := None\<rparr>)"

section \<open>Decisions\<close>

definition Choose :: "nat \<Rightarrow> branch_type \<Rightarrow> dfs_sched \<Rightarrow> fault + nat \<times> dfs_sched" where
  "Choose n ty s0 =
     (let branch = ds_branch_index s0; s = s0\<lparr>ds_branch_index := ds_branch_index s0 + 1\<rparr>
      in if branch < length (ds_schedule s)
         then bindE (verify (br_type (ds_schedule s ! branch) = ty) (Panic ''Unexpected branch type'')) (\<lambda>_.
              Inr (index (ds_schedule s ! branch), s))
         else Inr (0, s\<lparr>ds_schedule := ds_schedule s @ [\<lparr>br_type = ty, alts = n, index = 0\<rparr>]\<rparr>))"

definition Either :: "branch_type \<Rightarrow> dfs_sched \<Rightarrow> fault + bool \<times> dfs_sched" where
  "Either ty s = bindE (Choose 2 ty s) (\<lambda>(i, s1). Inr (i = 1, s1))"

definition Pick :: "tid list \<Rightarrow> branch_type \<Rightarrow> dfs_sched \<Rightarrow> fault + tid option \<times> tid list \<times> dfs_sched" where
  "Pick xs ty s =
     (if xs = [] then Inr (None, xs, s)
      else if length xs = 1 then (let (t, ys) = sl_Pop 0 xs in Inr (Some t, ys, s))
      else bindE (Choose (length xs) ty s) (\<lambda>(i, s1).
        if \<not> i < length xs then Inl (Panic ''index out of bounds'')
        else let (t, ys) = sl_Pop i xs in Inr (Some t, ys, s1)))"

definition Prune :: "fault + 'a" where
  "Prune = Inl (SysAbortEx Pruned)"

section \<open>Steps and preemption\<close>

definition AddStep :: "tid option \<Rightarrow> dfs_sched step" where
  "AddStep running ths s =
     (let s1 = s\<lparr>ds_steps := ds_steps s + 1\<rparr>
      in if (case dp_max_steps (ds_params s1) of None \<Rightarrow> False | Some m \<Rightarrow> ds_steps s1 > m) then Prune
         else Inr (case running of None \<Rightarrow> ths | Some t \<Rightarrow> set_f1 t (f1 (th_sched (ths t)) + 1) ths, s1))"

definition ResetSteps :: "tid \<Rightarrow> threads \<Rightarrow> threads" where
  "ResetSteps t ths = set_f1 t 0 ths"

definition ForcedPreempt :: "tid \<Rightarrow> threads \<Rightarrow> dfs_sched \<Rightarrow> bool" where
  "ForcedPreempt t ths s =
     (case dp_force_preempt_after_steps (ds_params s) of
        None \<Rightarrow> False | Some m \<Rightarrow> unat (f1 (th_sched (ths t))) \<ge> m)"

definition MaxPreemptsReached :: "dfs_sched \<Rightarrow> bool" where
  "MaxPreemptsReached s =
     (case dp_max_preemptions (ds_params s) of None \<Rightarrow> False | Some m \<Rightarrow> ds_preempts s \<ge> m)"

definition dfs_Preempt :: "tid \<Rightarrow> threads \<Rightarrow> dfs_sched \<Rightarrow> fault + bool \<times> dfs_sched" where
  "dfs_Preempt t ths s =
     (if \<not> preemptive (th_attrs (ths t)) then Inr (False, s)
      else if ds_run_queue s = [] then Inr (False, s)
      else if ForcedPreempt t ths s
      then (if MaxPreemptsReached s then Prune else Inr (True, s))
      else if MaxPreemptsReached s then Inr (False, s)
      else Either BPreempt s)"

definition dfs_pick :: "tid option \<Rightarrow> threads \<Rightarrow> dfs_sched \<Rightarrow> fault + tid \<times> threads \<times> dfs_sched" where
  "dfs_pick preempted ths s =
     bindE (Pick (ds_run_queue s) BPickNext s) (\<lambda>(next, q, s1).
     let s2 = s1\<lparr>ds_run_queue := q\<rparr>;
         s3 = (case preempted of None \<Rightarrow> s2
               | Some t \<Rightarrow> s2\<lparr>ds_preempts := ds_preempts s2 + 1, ds_run_queue := sl_Push t (ds_run_queue s2)\<rparr>)
     in case next of
          None \<Rightarrow> Inl (Panic ''null thread'')
        | Some t \<Rightarrow> Inr (t, ResetSteps t ths, s3))"

definition dfs_PickNext :: "u64 \<Rightarrow> threads \<Rightarrow> dfs_sched \<Rightarrow> fault + tid \<times> threads \<times> dfs_sched" where
  "dfs_PickNext now ths0 s0 =
     (let active = ds_active s0
      in bindE (AddStep active ths0 (s0\<lparr>ds_active := None\<rparr>)) (\<lambda>(ths, s).
         case active of
           None \<Rightarrow> dfs_pick None ths s
         | Some t \<Rightarrow> bindE (dfs_Preempt t ths s) (\<lambda>(p, s1).
             if p then dfs_pick (Some t) ths s1 else Inr (t, ths, s1))))"

section \<open>The rest of the interface\<close>

definition dfs_push :: "tid \<Rightarrow> dfs_sched \<Rightarrow> dfs_sched" where
  "dfs_push t s = s\<lparr>ds_run_queue := sl_Push t (ds_run_queue s)\<rparr>"

definition dfs_Interrupt :: "u64 \<Rightarrow> tid \<Rightarrow> dfs_sched step" where
  "dfs_Interrupt now t ths s = Inr (ths, s\<lparr>ds_active := Some t\<rparr>)"

definition dfs_SwitchTo :: "tid \<Rightarrow> tid \<Rightarrow> dfs_sched step" where
  "dfs_SwitchTo t u ths s = Inl (Panic ''SwitchTo not supported by DfsScheduler'')"

definition dfs_Yield :: "tid \<Rightarrow> dfs_sched step" where
  "dfs_Yield t ths s = Inr (ths, dfs_push t s)"

definition dfs_Wake :: "tid \<Rightarrow> dfs_sched step" where
  "dfs_Wake t ths s = Inr (ths, dfs_push t s)"

definition dfs_Spawn :: "tid \<Rightarrow> dfs_sched step" where
  "dfs_Spawn t ths s = Inr (ths, dfs_push t s)"

definition dfs_Exit :: "tid \<Rightarrow> dfs_sched step" where
  "dfs_Exit t ths s = AddStep (Some t) ths s"

definition dfs_LockFree :: "tid \<Rightarrow> bool \<Rightarrow> dfs_sched step" where
  "dfs_LockFree t b ths s = Inr (ths, s)"

definition dfs_Progress :: "tid \<Rightarrow> dfs_sched step" where
  "dfs_Progress t ths s = Inr (ths, s)"

definition dfs_NewIter :: "dfs_sched step" where
  "dfs_NewIter ths s = Inr (ths, s)"

definition dfs_IsIdle :: "dfs_sched \<Rightarrow> bool" where
  "dfs_IsIdle s \<longleftrightarrow> ds_run_queue s = [] \<and> ds_active s = None"

definition dfs_Remove :: "tid \<Rightarrow> dfs_sched \<Rightarrow> dfs_sched" where
  "dfs_Remove t s = s\<lparr>ds_run_queue := snd (sl_Remove t (ds_run_queue s))\<rparr>"

definition dfs_RandomNumber :: "dfs_sched \<Rightarrow> fault + u64 \<times> dfs_sched" where
  "dfs_RandomNumber s = Inl (Panic ''RandomNumber not supported'')"

definition dfs_RandomChoice :: "nat \<Rightarrow> dfs_sched \<Rightarrow> fault + nat \<times> dfs_sched" where
  "dfs_RandomChoice n s = Choose n BRandomChoice s"

definition dfs_SpuriousWakeup :: "dfs_sched \<Rightarrow> fault + bool \<times> dfs_sched" where
  "dfs_SpuriousWakeup s =
     (if dp_spurious_wakeups (ds_params s) then Either BSpuriousWakeup s else Inr (False, s))"

definition dfs_SpuriousTryFailure :: "dfs_sched \<Rightarrow> fault + bool \<times> dfs_sched" where
  "dfs_SpuriousTryFailure s =
     (if dp_spurious_failures (ds_params s) then Either BSpuriousTryFailure s else Inr (False, s))"

section \<open>Wait queues\<close>

definition dfs_NewWaitQueue :: "dfs_sched \<Rightarrow> nat \<times> dfs_sched" where
  "dfs_NewWaitQueue s = (ds_queues s,
     s\<lparr>ds_wait := (ds_wait s)(ds_queues s := []), ds_queues := ds_queues s + 1\<rparr>)"

definition dfs_DropWaitQueues :: "dfs_sched \<Rightarrow> dfs_sched" where
  "dfs_DropWaitQueues s = s\<lparr>ds_wait := (\<lambda>_. []), ds_queues := 0\<rparr>"

definition dfs_wq_IsEmpty :: "nat \<Rightarrow> dfs_sched \<Rightarrow> bool" where
  "dfs_wq_IsEmpty q s \<longleftrightarrow> ds_wait s q = []"

definition dfs_wq_Push :: "nat \<Rightarrow> tid \<Rightarrow> dfs_sched \<Rightarrow> fault + dfs_sched" where
  "dfs_wq_Push q t s =
     (if dp_wake_order (ds_params s) then Inr (s\<lparr>ds_wait := (ds_wait s)(q := sl_Push t (ds_wait s q))\<rparr>)
      else bindE (PushBack (ds_queues s) q t (ds_wait s)) (\<lambda>w. Inr (s\<lparr>ds_wait := w\<rparr>)))"

definition PickWaiter :: "nat \<Rightarrow> dfs_sched \<Rightarrow> fault + tid option \<times> dfs_sched" where
  "PickWaiter q s =
     bindE (Pick (ds_wait s q) BWakeOne s) (\<lambda>(r, xs, s1). Inr (r, s1\<lparr>ds_wait := (ds_wait s1)(q := xs)\<rparr>))"

definition fifo_Pop :: "nat \<Rightarrow> dfs_sched \<Rightarrow> tid option \<times> dfs_sched" where
  "fifo_Pop q s = (let (r, w) = PopFront q (ds_wait s) in (r, s\<lparr>ds_wait := w\<rparr>))"

definition dfs_wq_Pop :: "nat \<Rightarrow> dfs_sched \<Rightarrow> fault + tid option \<times> dfs_sched" where
  "dfs_wq_Pop q s = (if dp_wake_order (ds_params s) then PickWaiter q s else Inr (fifo_Pop q s))"

definition dfs_wq_PopAll :: "nat \<Rightarrow> dfs_sched \<Rightarrow> fault + tid option \<times> dfs_sched" where
  "dfs_wq_PopAll q s =
     (if dp_wake_order (ds_params s)
      then (let (r, xs) = sl_PopLast (ds_wait s q) in Inr (r, s\<lparr>ds_wait := (ds_wait s)(q := xs)\<rparr>))
      else Inr (fifo_Pop q s))"

definition dfs_wq_Remove :: "nat \<Rightarrow> tid \<Rightarrow> dfs_sched \<Rightarrow> bool \<times> dfs_sched" where
  "dfs_wq_Remove q t s =
     (if dp_wake_order (ds_params s)
      then (let (b, xs) = sl_Remove t (ds_wait s q) in (b, s\<lparr>ds_wait := (ds_wait s)(q := xs)\<rparr>))
      else (let (b, w) = link_Remove (ds_queues s) t (ds_wait s) in (b, s\<lparr>ds_wait := w\<rparr>)))"

definition dfs_ops :: "dfs_sched sched_ops" where
  "dfs_ops = \<lparr>NextSchedule = dfs_NextSchedule, Start = dfs_Start, Interrupt = dfs_Interrupt,
     SwitchTo = dfs_SwitchTo, Yield = dfs_Yield, Wake = dfs_Wake, Spawn = dfs_Spawn, Exit = dfs_Exit,
     LockFree = dfs_LockFree, Progress = dfs_Progress, NewIter = dfs_NewIter, IsIdle = dfs_IsIdle,
     PickNext = dfs_PickNext, RemoveThread = dfs_Remove, NewWaitQueue = dfs_NewWaitQueue, DropWaitQueues = dfs_DropWaitQueues,
     wq_IsEmpty = dfs_wq_IsEmpty, wq_Push = dfs_wq_Push, wq_Pop = dfs_wq_Pop,
     wq_PopAll = dfs_wq_PopAll, wq_Remove = dfs_wq_Remove, RandomNumber = dfs_RandomNumber,
     RandomChoice = dfs_RandomChoice, SpuriousWakeup = dfs_SpuriousWakeup,
     SpuriousTryFailure = dfs_SpuriousTryFailure, IsModelChecker = True\<rparr>"


section \<open>Sorted lists as sets\<close>

lemma sl_Push_set:
  "set (sl_Push t xs) = insert t (set xs)" "distinct xs \<Longrightarrow> t \<notin> set xs \<Longrightarrow> distinct (sl_Push t xs)"
proof (induction t xs rule: sl_Push.induct)
  case (1 t xs)
  {
    case 1
    show ?case
    proof (cases "xs \<noteq> [] \<and> last xs > t")
      case True
      then have "set xs = insert (last xs) (set (butlast xs))"
        by (metis append_butlast_last_id empty_set list.simps(15) set_append sup_commute insert_is_Un)
      then show ?thesis using True "1.IH"(1) by (subst sl_Push.simps) auto
    next
      case False
      then show ?thesis by (subst sl_Push.simps) auto
    qed
  next
    case 2
    show ?case
    proof (cases "xs \<noteq> [] \<and> last xs > t")
      case True
      then obtain ys y where xs: "xs = ys @ [y]" by (metis append_butlast_last_id)
      have "sl_Push t xs = sl_Push t ys @ [y]" using True xs by (subst sl_Push.simps) simp
      moreover have "distinct (sl_Push t ys)" "set (sl_Push t ys) = insert t (set ys)"
        using "1.IH" True 2 xs by auto
      ultimately show ?thesis using 2 xs by auto
    next
      case False
      then show ?thesis using 2 by (subst sl_Push.simps) auto
    qed
  }
qed

lemma sl_Push_small: "small xs \<Longrightarrow> t \<in> thread_ids \<Longrightarrow> t \<notin> set xs \<Longrightarrow> small (sl_Push t xs)"
  by (simp add: small_def sl_Push_set)

lemma sl_Push_insort: "sorted xs \<Longrightarrow> t \<notin> set xs \<Longrightarrow> sl_Push t xs = insort t xs"
proof (induction xs rule: rev_induct)
  case Nil
  then show ?case by (subst sl_Push.simps) simp
next
  case (snoc y ys)
  have s: "sorted ys" "\<forall>z \<in> set ys. z \<le> y" "t \<noteq> y" "t \<notin> set ys" using snoc.prems by (auto simp: sorted_append)
  show ?case
  proof (cases "t < y")
    case True
    have "sl_Push t (ys @ [y]) = sl_Push t ys @ [y]" using True by (subst sl_Push.simps) simp
    also have "\<dots> = insort t ys @ [y]" using snoc.IH s by simp
    also have "\<dots> = insort t (ys @ [y])" using True s(1,2) by (induction ys) auto
    finally show ?thesis .
  next
    case False
    have "sl_Push t (ys @ [y]) = ys @ [y] @ [t]" using False s(3) by (subst sl_Push.simps) simp
    moreover have "\<forall>z \<in> set (ys @ [y]). z < t" using False s by force
    then have "insort t (ys @ [y]) = (ys @ [y]) @ [t]" by (induction ys) auto
    ultimately show ?thesis by simp
  qed
qed

lemma sl_Pop_small:
  assumes "small xs" and "i < length xs" and "sl_Pop i xs = (t, ys)"
  shows "t \<in> set xs" and "small ys" and "set ys = set xs - {t}"
proof -
  have "t = xs ! i" "ys = take i xs @ drop (Suc i) xs" using assms(3) by (simp_all add: sl_Pop_def)
  then show "t \<in> set xs" "small ys" "set ys = set xs - {t}"
    using small_remove_nth [OF assms(1,2)] assms(2) by auto
qed

lemma sl_PopLast_small:
  assumes "small xs" and "sl_PopLast xs = (w, ys)"
  shows "(xs = [] \<and> w = None \<and> ys = []) \<or> (\<exists>t \<in> set xs. w = Some t \<and> small ys \<and> set ys = set xs - {t})"
proof (cases "xs = []")
  case False
  then obtain zs z where "xs = zs @ [z]" by (metis append_butlast_last_id)
  then show ?thesis using assms by (auto simp: sl_PopLast_def small_def)
qed (use assms in \<open>auto simp: sl_PopLast_def\<close>)

lemma sl_Remove_small:
  assumes "small xs" and "sl_Remove t xs = (b, ys)"
  shows "b = (t \<in> set xs)" and "small ys" and "set ys = set xs - {t}"
proof -
  have "b = (t \<in> set xs) \<and> small ys \<and> set ys = set xs - {t}"
  proof (cases "find_index (\<lambda>x. x = t) xs")
    case None
    then have "t \<notin> set xs" by (auto simp: find_index_None)
    then show ?thesis using assms None by (auto simp: sl_Remove_def)
  next
    case (Some i)
    then have i: "i < length xs" "xs ! i = t" using find_index_Some [OF Some] by auto
    obtain u zs where p: "sl_Pop i xs = (u, zs)" by fastforce
    have "u = t" "b" "ys = zs" using assms(2) Some p i by (auto simp: sl_Remove_def sl_Pop_def)
    then show ?thesis using sl_Pop_small [OF assms(1) i(1) p] by auto
  qed
  then show "b = (t \<in> set xs)" "small ys" "set ys = set xs - {t}" by auto
qed

section \<open>The contract\<close>

definition dfs_ready :: "dfs_sched \<Rightarrow> tid set" where
  "dfs_ready s = set (ds_run_queue s) \<union> set_option (ds_active s)"

definition dfs_view :: "dfs_sched \<Rightarrow> sched_view" where
  "dfs_view s = \<lparr>held = dfs_ready s, waiting = (\<lambda>q. set (ds_wait s q)), queues = ds_queues s\<rparr>"

definition dfs_init :: "dfs_sched \<Rightarrow> bool" where
  "dfs_init s \<longleftrightarrow> ds_queues s = 0 \<and> ds_wait s = (\<lambda>_. [])"

definition dfs_inv :: "dfs_sched \<Rightarrow> bool" where
  "dfs_inv s \<longleftrightarrow> small (ds_run_queue s) \<and> queues_ok (ds_queues s) (ds_wait s) \<and>
     (\<forall>t. ds_active s = Some t \<longrightarrow> t \<in> thread_ids \<and> t \<notin> set (ds_run_queue s))"

definition dfs_settled :: "dfs_sched \<Rightarrow> bool" where
  "dfs_settled s \<longleftrightarrow> ds_active s = None"

text \<open>A decision touches the schedule only.\<close>

definition dfs_same :: "dfs_sched \<Rightarrow> dfs_sched \<Rightarrow> bool" where
  "dfs_same s s' \<longleftrightarrow> ds_params s' = ds_params s \<and> ds_run_queue s' = ds_run_queue s \<and>
     ds_active s' = ds_active s \<and> ds_preempts s' = ds_preempts s \<and>
     ds_queues s' = ds_queues s \<and> ds_wait s' = ds_wait s"

lemma dfs_same_inv: "dfs_same s s' \<Longrightarrow> dfs_inv s' = dfs_inv s \<and> dfs_view s' = dfs_view s"
  by (simp add: dfs_same_def dfs_inv_def dfs_view_def dfs_ready_def)

lemma dfs_same_refl [simp]: "dfs_same s s"
  by (simp add: dfs_same_def)

lemma Choose_same: "Choose n ty s = Inr (i, s') \<Longrightarrow> dfs_same s s'"
  by (auto simp: Choose_def dfs_same_def Let_def bindE_eq_Inr split: if_splits)

lemma Either_same: "Either ty s = Inr (b, s') \<Longrightarrow> dfs_same s s'"
  by (auto simp: Either_def bindE_eq_Inr dest: Choose_same)

lemma Pick_ok:
  assumes "Pick xs ty s = Inr (r, ys, s')" and "small xs"
  shows "dfs_same s s' \<and> ((xs = [] \<and> r = None \<and> ys = []) \<or>
     (\<exists>t \<in> set xs. r = Some t \<and> small ys \<and> set ys = set xs - {t}))"
proof (cases "xs = []")
  case True
  then show ?thesis using assms by (simp add: Pick_def dfs_same_def)
next
  case False
  obtain i t where i: "i < length xs" "sl_Pop i xs = (t, ys)" "r = Some t" "dfs_same s s'"
  proof (cases "length xs = 1")
    case True
    then show ?thesis using assms(1) False that [of 0] by (auto simp: Pick_def dfs_same_def split: prod.splits)
  next
    case nl: False
    then show ?thesis using assms(1) False that Choose_same
      by (auto simp: Pick_def bindE_eq_Inr split: prod.splits if_splits)
  qed
  then show ?thesis using sl_Pop_small [OF assms(2) i(1,2)] by auto
qed

lemma dfs_push_ok:
  assumes "dfs_inv s" and "t \<in> thread_ids" and "t \<notin> held (dfs_view s)"
  shows "dfs_inv (dfs_push t s) \<and> dfs_view (dfs_push t s) = (dfs_view s)\<lparr>held := insert t (held (dfs_view s))\<rparr>"
  using assms by (auto simp: dfs_push_def dfs_inv_def dfs_view_def dfs_ready_def sl_Push_small sl_Push_set)

lemma AddStep_ok:
  assumes "AddStep r ths s = Inr (ths', s')"
  shows "dfs_same s s'"
  using assms by (auto simp: AddStep_def dfs_same_def Prune_def Let_def split: if_splits option.splits)

lemma dfs_Preempt_same: "dfs_Preempt t ths s = Inr (b, s') \<Longrightarrow> dfs_same s s'"
  by (auto simp: dfs_Preempt_def Prune_def split: if_splits dest: Either_same)

lemma dfs_pick_ok:
  assumes ok: "dfs_pick p ths s = Inr (t, ths', s')" and I: "dfs_inv s" and a: "ds_active s = None"
    and p: "\<And>u. p = Some u \<Longrightarrow> u \<in> thread_ids \<and> u \<notin> set (ds_run_queue s)"
  shows "dfs_inv s' \<and> ds_active s' = None \<and> t \<in> set (ds_run_queue s) \<and>
     dfs_view s' = (dfs_view s)\<lparr>held := (set (ds_run_queue s) - {t}) \<union> set_option p\<rparr>"
proof -
  obtain r q s1 where P: "Pick (ds_run_queue s) BPickNext s = Inr (r, q, s1)"
    using ok by (auto simp: dfs_pick_def bindE_eq_Inr)
  have "small (ds_run_queue s)" using I by (simp add: dfs_inv_def)
  note K = Pick_ok [OF P this]
  have r: "r = Some t"
    using ok P by (cases r) (simp_all add: dfs_pick_def Let_def)
  then have t: "t \<in> set (ds_run_queue s)" "small q" "set q = set (ds_run_queue s) - {t}" "dfs_same s s1"
    using K by auto
  have s': "s' = (case p of None \<Rightarrow> s1\<lparr>ds_run_queue := q\<rparr> | Some u \<Rightarrow> s1\<lparr>ds_preempts := ds_preempts s1 + 1, ds_run_queue := sl_Push u q\<rparr>)"
    using ok P r by (cases p) (auto simp: dfs_pick_def Let_def)
  have I1: "dfs_inv s1" "ds_active s1 = None" "ds_queues s1 = ds_queues s" "ds_wait s1 = ds_wait s"
    using dfs_same_inv [OF t(4)] I a t(4) by (simp_all add: dfs_same_def)
  show ?thesis
  proof (cases p)
    case None
    then show ?thesis using t I1 s' by (auto simp: dfs_inv_def dfs_view_def dfs_ready_def)
  next
    case (Some u)
    then have "u \<in> thread_ids" "u \<notin> set q" using p t(3) by auto
    then show ?thesis using Some t I1 s' sl_Push_small [OF t(2)] sl_Push_set [where t = u and xs = q]
      by (auto simp: dfs_inv_def dfs_view_def dfs_ready_def)
  qed
qed


lemma dfs_PickNext_ok:
  assumes ok: "dfs_PickNext now ths s = Inr (t, ths', s')" and I: "dfs_inv s"
  shows "dfs_inv s' \<and> t \<in> held (dfs_view s) \<and> dfs_view s' = (dfs_view s)\<lparr>held := held (dfs_view s) - {t}\<rparr> \<and>
     ds_active s' = None"
proof -
  let ?s0 = "s\<lparr>ds_active := None\<rparr>"
  obtain ths1 s1 where A: "AddStep (ds_active s) ths ?s0 = Inr (ths1, s1)"
    and r: "case ds_active s of None \<Rightarrow> dfs_pick None ths1 s1 = Inr (t, ths', s')
            | Some u \<Rightarrow> bindE (dfs_Preempt u ths1 s1) (\<lambda>(p, s2). if p then dfs_pick (Some u) ths1 s2
                 else Inr (u, ths1, s2)) = Inr (t, ths', s')"
    using ok by (cases "ds_active s") (auto simp: dfs_PickNext_def Let_def bindE_eq_Inr)
  have same: "dfs_same ?s0 s1" by (rule AddStep_ok [OF A])
  have I0: "dfs_inv ?s0" using I by (simp add: dfs_inv_def)
  have I1: "dfs_inv s1" "dfs_view s1 = dfs_view ?s0" "ds_active s1 = None" "ds_run_queue s1 = ds_run_queue s"
    using dfs_same_inv [OF same] I0 same by (simp_all add: dfs_same_def)
  have q: "waiting (dfs_view ?s0) = waiting (dfs_view s)" "queues (dfs_view ?s0) = queues (dfs_view s)"
    by (simp_all add: dfs_view_def)
  show ?thesis
  proof (cases "ds_active s")
    case None
    have "(dfs_view ?s0)\<lparr>held := X\<rparr> = (dfs_view s)\<lparr>held := X\<rparr>" for X by (simp add: dfs_view_def)
    moreover have "held (dfs_view s) = set (ds_run_queue s)" using None by (simp add: dfs_view_def dfs_ready_def)
    ultimately show ?thesis using dfs_pick_ok [of None ths1 s1 t ths' s'] r None I1 by simp
  next
    case (Some u)
    have u: "u \<in> thread_ids" "u \<notin> set (ds_run_queue s)" using I Some by (auto simp: dfs_inv_def)
    have h: "held (dfs_view s) = insert u (set (ds_run_queue s))" using Some by (simp add: dfs_view_def dfs_ready_def)
    obtain p s2 where P: "dfs_Preempt u ths1 s1 = Inr (p, s2)"
      and r2: "if p then dfs_pick (Some u) ths1 s2 = Inr (t, ths', s') else t = u \<and> s' = s2"
      using r Some by (cases "dfs_Preempt u ths1 s1") (auto split: prod.splits if_splits)
    note same2 = dfs_Preempt_same [OF P]
    have I2: "dfs_inv s2" "dfs_view s2 = dfs_view ?s0" "ds_active s2 = None" "ds_run_queue s2 = ds_run_queue s"
      using dfs_same_inv [OF same2] I1 same2 by (simp_all add: dfs_same_def)
    show ?thesis
    proof (cases p)
      case True
      then have D: "dfs_pick (Some u) ths1 s2 = Inr (t, ths', s')" using r2 by simp
      have "dfs_inv s' \<and> ds_active s' = None \<and> t \<in> set (ds_run_queue s2) \<and>
         dfs_view s' = (dfs_view s2)\<lparr>held := (set (ds_run_queue s2) - {t}) \<union> set_option (Some u)\<rparr>"
        by (rule dfs_pick_ok [OF D I2(1,3)]) (use u I2(4) in auto)
      moreover have "(set (ds_run_queue s) - {t}) \<union> {u} = insert u (set (ds_run_queue s)) - {t}"
        if "t \<in> set (ds_run_queue s)" using that u(2) by auto
      ultimately show ?thesis using I2(2,4) h q by (auto simp: dfs_view_def)
    next
      case False
      then have "t = u" "s' = s2" using r2 by simp_all
      moreover have "insert u (set (ds_run_queue s)) - {u} = set (ds_run_queue s)" using u(2) by auto
      ultimately show ?thesis using I2 h q by (simp add: dfs_view_def dfs_ready_def)
    qed
  qed
qed

lemma dfs_view_simps [simp]:
  "waiting (dfs_view s) = (\<lambda>q. set (ds_wait s q))" "queues (dfs_view s) = ds_queues s"
  by (simp_all add: dfs_view_def)

lemma dfs_wait_ok:
  assumes "dfs_inv s" and "queues_ok (ds_queues s) w"
  shows "dfs_inv (s\<lparr>ds_wait := w\<rparr>)" and "dfs_view (s\<lparr>ds_wait := w\<rparr>) = (dfs_view s)\<lparr>waiting := (\<lambda>q. set (w q))\<rparr>"
  using assms by (auto simp: dfs_inv_def dfs_view_def dfs_ready_def)

lemma dfs_put_ok:
  assumes "dfs_inv s" and "q < ds_queues s" and "small xs"
  shows "dfs_inv (s\<lparr>ds_wait := (ds_wait s)(q := xs)\<rparr>)"
    and "dfs_view (s\<lparr>ds_wait := (ds_wait s)(q := xs)\<rparr>) = (dfs_view s)\<lparr>waiting := (waiting (dfs_view s))(q := set xs)\<rparr>"
proof -
  have Q: "queues_ok (ds_queues s) ((ds_wait s)(q := xs))" using assms by (auto simp: dfs_inv_def queues_ok_def)
  have e: "(\<lambda>q'. set (((ds_wait s)(q := xs)) q')) = (\<lambda>q. set (ds_wait s q))(q := set xs)"
    by (rule ext) simp
  show "dfs_inv (s\<lparr>ds_wait := (ds_wait s)(q := xs)\<rparr>)" using dfs_wait_ok(1) [OF assms(1) Q] .
  show "dfs_view (s\<lparr>ds_wait := (ds_wait s)(q := xs)\<rparr>) = (dfs_view s)\<lparr>waiting := (waiting (dfs_view s))(q := set xs)\<rparr>"
    using dfs_wait_ok(2) [OF assms(1) Q] e by simp
qed

lemma dfs_take:
  assumes I: "dfs_inv s" and q: "q < ds_queues s"
    and w: "(ds_wait s q = [] \<and> w = None \<and> ys = []) \<or>
      (\<exists>t \<in> set (ds_wait s q). w = Some t \<and> small ys \<and> set ys = set (ds_wait s q) - {t})"
  shows "dfs_inv (s\<lparr>ds_wait := (ds_wait s)(q := ys)\<rparr>) \<and>
     take_waiter q (RWaiter w) (dfs_view s) (dfs_view (s\<lparr>ds_wait := (ds_wait s)(q := ys)\<rparr>))"
  using w
proof (elim disjE bexE conjE)
  assume e: "ds_wait s q = []" "w = None" "ys = []"
  then have "(ds_wait s)(q := ys) = ds_wait s" by (simp add: fun_upd_idem)
  then show ?thesis using I e by (simp add: take_waiter_def)
next
  fix t assume t: "t \<in> set (ds_wait s q)" "w = Some t" "small ys" "set ys = set (ds_wait s q) - {t}"
  then show ?thesis using dfs_put_ok [OF I q t(3)] by (auto simp: take_waiter_def)
qed

lemma fifo_Pop_ok:
  assumes I: "dfs_inv s" and q: "q < ds_queues s" and ok: "fifo_Pop q s = (r, s')"
  shows "dfs_inv s' \<and> take_waiter q (RWaiter r) (dfs_view s) (dfs_view s')"
proof -
  obtain w where w: "PopFront q (ds_wait s) = (r, w)" "s' = s\<lparr>ds_wait := w\<rparr>"
    using ok by (auto simp: fifo_Pop_def split: prod.splits)
  have "queues_ok (ds_queues s) (ds_wait s)" using I by (simp add: dfs_inv_def)
  note P = PopFront_ok [OF this q w(1)]
  have e: "(dfs_view s)\<lparr>waiting := \<lambda>q. set (ds_wait s q)\<rparr> = dfs_view s" by (simp add: dfs_view_def)
  show ?thesis using P dfs_wait_ok [OF I, of w] w(2) e by (auto simp: take_waiter_def)
qed


lemma dfs_wq_ok:
  assumes I: "dfs_inv s" and q: "q < ds_queues s"
  shows "t \<in> thread_ids \<Longrightarrow> t \<notin> somewhere (dfs_view s) \<Longrightarrow> \<exists>s'. dfs_wq_Push q t s = Inr s' \<and> dfs_inv s' \<and>
      dfs_view s' = (dfs_view s)\<lparr>waiting := (waiting (dfs_view s))(q := insert t (set (ds_wait s q)))\<rparr>"
    and "dfs_wq_Pop q s = Inr (r, s') \<Longrightarrow> dfs_inv s' \<and> take_waiter q (RWaiter r) (dfs_view s) (dfs_view s')"
    and "dfs_wq_PopAll q s = Inr (r, s') \<Longrightarrow> dfs_inv s' \<and> take_waiter q (RWaiter r) (dfs_view s) (dfs_view s')"
    and "\<forall>q'. q' \<noteq> q \<longrightarrow> t \<notin> set (ds_wait s q') \<Longrightarrow> dfs_wq_Remove q t s = (b, s') \<Longrightarrow>
      dfs_inv s' \<and> b = (t \<in> set (ds_wait s q)) \<and>
      dfs_view s' = (dfs_view s)\<lparr>waiting := (waiting (dfs_view s))(q := set (ds_wait s q) - {t})\<rparr>"
proof -
  have Q: "queues_ok (ds_queues s) (ds_wait s)" using I by (simp add: dfs_inv_def)
  have small: "small (ds_wait s q)" using Q by (simp add: queues_ok_def)
  show "\<exists>s'. dfs_wq_Push q t s = Inr s' \<and> dfs_inv s' \<and>
      dfs_view s' = (dfs_view s)\<lparr>waiting := (waiting (dfs_view s))(q := insert t (set (ds_wait s q)))\<rparr>"
    if t: "t \<in> thread_ids" "t \<notin> somewhere (dfs_view s)"
  proof -
    have n: "\<forall>q. t \<notin> set (ds_wait s q)" using t(2) by (auto simp: somewhere_def)
    note P = PushBack_ok [OF Q q t(1) n]
    have "small (sl_Push t (ds_wait s q))" using sl_Push_small [OF small t(1)] n by simp
    then show ?thesis using dfs_put_ok [OF I q] dfs_wait_ok [OF I P(2)] P(1,3)
      by (auto simp: dfs_wq_Push_def sl_Push_set)
  qed
  show "dfs_inv s' \<and> take_waiter q (RWaiter r) (dfs_view s) (dfs_view s')" if ok: "dfs_wq_PopAll q s = Inr (r, s')"
    using ok dfs_take [OF I q sl_PopLast_small [OF small]] fifo_Pop_ok [OF I q]
    by (auto simp: dfs_wq_PopAll_def split: if_splits prod.splits)
  show "dfs_inv s' \<and> take_waiter q (RWaiter r) (dfs_view s) (dfs_view s')" if ok: "dfs_wq_Pop q s = Inr (r, s')"
  proof (cases "dp_wake_order (ds_params s)")
    case False
    then show ?thesis using ok fifo_Pop_ok [OF I q] by (auto simp: dfs_wq_Pop_def)
  next
    case True
    then obtain xs s1 where P: "Pick (ds_wait s q) BWakeOne s = Inr (r, xs, s1)"
      and s': "s' = s1\<lparr>ds_wait := (ds_wait s1)(q := xs)\<rparr>"
      using ok by (auto simp: dfs_wq_Pop_def PickWaiter_def bindE_eq_Inr)
    from Pick_ok [OF P small] have S: "dfs_same s s1" and w: "(ds_wait s q = [] \<and> r = None \<and> xs = []) \<or>
      (\<exists>t \<in> set (ds_wait s q). r = Some t \<and> small xs \<and> set xs = set (ds_wait s q) - {t})" by auto
    have e: "dfs_inv s1" "dfs_view s1 = dfs_view s" "ds_queues s1 = ds_queues s" "ds_wait s1 = ds_wait s"
      using dfs_same_inv [OF S] I S by (simp_all add: dfs_same_def)
    have "q < ds_queues s1" using q e(3) by simp
    from dfs_take [OF e(1) this, unfolded e(4), OF w] show ?thesis using s' e by simp
  qed
  show "dfs_inv s' \<and> b = (t \<in> set (ds_wait s q)) \<and>
      dfs_view s' = (dfs_view s)\<lparr>waiting := (waiting (dfs_view s))(q := set (ds_wait s q) - {t})\<rparr>"
    if "\<forall>q'. q' \<noteq> q \<longrightarrow> t \<notin> set (ds_wait s q')" "dfs_wq_Remove q t s = (b, s')"
    using that sl_Remove_small [OF small] dfs_put_ok [OF I q] link_Remove_ok [OF Q that(1)] dfs_wait_ok [OF I]
    by (auto simp: dfs_wq_Remove_def split: if_splits prod.splits)
qed

lemma dfs_step:
  assumes I: "dfs_inv s" and pre: "call_pre c (dfs_view s)" and nr: "\<not> is_Remove c"
    and int: "is_Interrupt c \<longrightarrow> dfs_settled s" and ok: "invoke dfs_ops c ths s = Inr (r, ths', s')"
  shows "dfs_inv s' \<and> call_spec c r (dfs_view s) (dfs_view s')"
proof (cases c)
  case (CInterrupt now t)
  then show ?thesis using I pre int ok
    by (auto simp: dfs_ops_def dfs_Interrupt_def is_Interrupt_def dfs_settled_def somewhere_def dfs_inv_def
        dfs_view_def dfs_ready_def)
next
  case (CYield t)
  then show ?thesis using dfs_push_ok [OF I, of t] pre ok by (auto simp: dfs_ops_def dfs_Yield_def somewhere_def)
next
  case (CWake t)
  then show ?thesis using dfs_push_ok [OF I, of t] pre ok by (auto simp: dfs_ops_def dfs_Wake_def somewhere_def)
next
  case (CSpawn t)
  then show ?thesis using dfs_push_ok [OF I, of t] pre ok by (auto simp: dfs_ops_def dfs_Spawn_def somewhere_def)
next
  case (CExit t)
  then have "dfs_same s s'" "r = RNone" using AddStep_ok ok by (auto simp: dfs_ops_def dfs_Exit_def)
  then show ?thesis using CExit I dfs_same_inv by simp
next
  case (CPickNext now)
  then show ?thesis using dfs_PickNext_ok [OF _ I] ok by (auto simp: dfs_ops_def bindE_eq_Inr)
next
  case CNewWaitQueue
  have w: "ds_wait s (ds_queues s) = []" using I by (simp add: dfs_inv_def queues_ok_def)
  then have e: "(ds_wait s)(ds_queues s := []) = ds_wait s" by (rule fun_upd_idem)
  have "dfs_inv (s\<lparr>ds_queues := Suc (ds_queues s)\<rparr>)" using I by (simp add: dfs_inv_def queues_ok_def)
  then show ?thesis using CNewWaitQueue ok w
    by (auto simp: dfs_ops_def dfs_NewWaitQueue_def e dfs_view_def dfs_ready_def fun_upd_idem)
next
  case (CPush q t)
  then show ?thesis using dfs_wq_ok(1) [OF I, of q t] pre ok by (auto simp: dfs_ops_def)
next
  case (CPop q)
  then show ?thesis using dfs_wq_ok(2) [OF I, of q] pre ok by (auto simp: dfs_ops_def bindE_eq_Inr)
next
  case (CPopAll q)
  then show ?thesis using dfs_wq_ok(3) [OF I, of q] pre ok by (auto simp: dfs_ops_def bindE_eq_Inr)
next
  case (CWqRemove q t)
  then show ?thesis using dfs_wq_ok(4) [OF I, of q t] pre ok by (auto simp: dfs_ops_def split: prod.splits)
next
  case (CRandomChoice n)
  then obtain i where "dfs_RandomChoice n s = Inr (i, s')" "r = RIndex i"
    using ok by (auto simp: dfs_ops_def bindE_eq_Inr)
  then show ?thesis using CRandomChoice dfs_same_inv [OF Choose_same] I by (auto simp: dfs_RandomChoice_def)
next
  case CSpuriousWakeup
  then show ?thesis using ok I dfs_same_inv [OF Either_same]
    by (auto simp: dfs_ops_def dfs_SpuriousWakeup_def bindE_eq_Inr split: if_splits)
next
  case CSpuriousTryFailure
  then show ?thesis using ok I dfs_same_inv [OF Either_same]
    by (auto simp: dfs_ops_def dfs_SpuriousTryFailure_def bindE_eq_Inr split: if_splits)
qed (use I nr ok pre in \<open>auto simp: dfs_ops_def dfs_SwitchTo_def dfs_LockFree_def dfs_Progress_def
      dfs_NewIter_def dfs_RandomNumber_def bindE_eq_Inr split: if_splits prod.splits\<close>)

lemma dfs_same_active: "dfs_same s s' \<Longrightarrow> ds_active s' = ds_active s"
  by (simp add: dfs_same_def)

lemma PickWaiter_active: "PickWaiter q s = Inr (r, s') \<Longrightarrow> ds_active s' = ds_active s"
  using Choose_same by (auto simp: PickWaiter_def Pick_def bindE_eq_Inr split: if_splits prod.splits
      dest!: Choose_same dfs_same_active)

lemma dfs_settle:
  assumes "dfs_inv s" and c: "is_Pick c \<or> dfs_settled s \<and> \<not> is_Interrupt c"
    and ok: "invoke dfs_ops c ths s = Inr (r, ths', s')"
  shows "dfs_settled s'"
proof (cases c)
  case (CPickNext now)
  then show ?thesis using dfs_PickNext_ok [OF _ assms(1)] ok
    by (auto simp: dfs_ops_def bindE_eq_Inr dfs_settled_def)
next
  case (CPop q)
  then show ?thesis using c ok PickWaiter_active [of q s]
    by (auto simp: dfs_ops_def dfs_settled_def is_Pick_def dfs_wq_Pop_def fifo_Pop_def bindE_eq_Inr
        split: if_splits prod.splits)
next
  case (CExit t)
  then show ?thesis using c ok dfs_same_active [OF AddStep_ok]
    by (auto simp: dfs_ops_def dfs_Exit_def dfs_settled_def is_Pick_def)
qed (use c ok in \<open>auto simp: dfs_ops_def dfs_settled_def is_Pick_def is_Interrupt_def dfs_SwitchTo_def
      dfs_Yield_def dfs_Wake_def dfs_Spawn_def dfs_push_def dfs_LockFree_def dfs_Progress_def
      dfs_NewIter_def dfs_Remove_def dfs_NewWaitQueue_def dfs_wq_Push_def dfs_wq_PopAll_def fifo_Pop_def
      dfs_wq_Remove_def dfs_RandomNumber_def dfs_RandomChoice_def dfs_SpuriousWakeup_def
      dfs_SpuriousTryFailure_def Let_def bindE_eq_Inr dest!: Choose_same Either_same dfs_same_active
      split: if_splits prod.splits\<close>)

lemma dfs_empty: "wq_IsEmpty dfs_ops q s \<longleftrightarrow> waiting (dfs_view s) q = {}"
  by (simp add: dfs_ops_def dfs_wq_IsEmpty_def)

lemma dfs_woken:
  assumes "c \<in> {CWake t, CYield t, CSpawn t}" and "invoke dfs_ops c ths s = Inr (r, ths', s')"
  shows "t \<in> dfs_ready s'"
  using assms by (auto simp: dfs_ops_def dfs_Wake_def dfs_Yield_def dfs_Spawn_def dfs_push_def dfs_ready_def
      sl_Push_set)

lemma Choose_no_abort [simp]: "Choose n ty s \<noteq> Inl (SysAbortEx st)"
  by (auto simp: Choose_def Let_def bindE_eq_Inl)

lemma Either_no_abort [simp]: "Either ty s \<noteq> Inl (SysAbortEx st)"
  by (auto simp: Either_def bindE_eq_Inl)

lemma Pick_no_abort [simp]: "Pick xs ty s \<noteq> Inl (SysAbortEx st)"
  by (auto simp: Pick_def bindE_eq_Inl Let_def split: prod.splits if_splits)

text \<open>A run is aborted at a step or at a pick only, and only to prune it.\<close>

lemma dfs_pick_no_abort [simp]: "dfs_pick p ths s \<noteq> Inl (SysAbortEx st)"
  by (auto simp: dfs_pick_def bindE_eq_Inl Let_def split: option.splits)

lemma dfs_aborts:
  assumes "invoke dfs_ops c ths s = Inl (SysAbortEx st)"
  shows "st = Pruned"
proof (cases c)
  case (CPickNext now)
  then show ?thesis using assms
    by (auto simp: dfs_ops_def dfs_PickNext_def AddStep_def dfs_Preempt_def Prune_def bindE_eq_Inl Let_def
        split: if_splits option.splits)
next
  case (CExit t)
  then show ?thesis using assms
    by (auto simp: dfs_ops_def quiet_def dfs_Exit_def AddStep_def Prune_def bindE_eq_Inl Let_def split: if_splits)
qed (use assms in \<open>auto simp: dfs_ops_def quiet_def dfs_Interrupt_def dfs_SwitchTo_def dfs_Yield_def dfs_Wake_def
    dfs_Spawn_def dfs_LockFree_def dfs_Progress_def dfs_NewIter_def dfs_wq_Push_def PushBack_def dfs_wq_Pop_def
    PickWaiter_def dfs_wq_PopAll_def dfs_RandomNumber_def dfs_RandomChoice_def dfs_SpuriousWakeup_def
    dfs_SpuriousTryFailure_def bindE_eq_Inl Let_def split: if_splits prod.splits\<close>)

interpretation dfs: scheduler dfs_ops dfs_inv dfs_view dfs_ready dfs_settled dfs_init
proof
  fix s s'
  assume "dfs_init s" "Start dfs_ops s = Inr s'"
  then show "dfs_inv s' \<and> dfs_settled s' \<and> dfs_view s' = empty_view"
    by (auto simp: dfs_ops_def dfs_init_def dfs_Start_def dfs_inv_def dfs_settled_def dfs_view_def dfs_ready_def queues_ok_def empty_view_def)
next
  fix s show "dfs_init (DropWaitQueues dfs_ops s)" by (simp add: dfs_ops_def dfs_DropWaitQueues_def dfs_init_def)
next
  fix s again s'
  assume "dfs_init s" "NextSchedule dfs_ops s = (again, s')"
  then show "dfs_init s'"
    by (auto simp: dfs_ops_def dfs_init_def dfs_NextSchedule_def Let_def split: option.splits if_splits prod.splits)
next
  fix s show "dfs_ready s \<subseteq> held (dfs_view s)" by (simp add: dfs_view_def)
next
  fix s show "IsIdle dfs_ops s = (dfs_ready s = {})"
    by (cases "ds_active s") (auto simp: dfs_ops_def dfs_IsIdle_def dfs_ready_def)
qed (rule dfs_step dfs_empty dfs_woken dfs_aborts dfs_settle; assumption)+

interpretation dfs_total: total_scheduler dfs_ops dfs_inv dfs_view dfs_ready dfs_settled dfs_init
proof
  fix s c t q ths
  assume I: "dfs_inv s" and pre: "call_pre c (dfs_view s)" and c: "c \<in> {CYield t, CWake t, CSpawn t, CPush q t, CPopAll q}"
  have "\<exists>s'. dfs_wq_Push q t s = Inr s'" if "c = CPush q t" using dfs_wq_ok(1) [OF I, of q t] pre that by auto
  then show "\<exists>x. invoke dfs_ops c ths s = Inr x"
    using c by (auto simp: dfs_ops_def quiet_def dfs_Yield_def dfs_Wake_def dfs_Spawn_def dfs_wq_PopAll_def
        split: prod.splits)
qed

interpretation dfs_burning: burning_scheduler dfs_ops dfs_inv dfs_view dfs_ready dfs_settled dfs_init
proof
  fix s t
  assume I: "dfs_inv s" and "dfs_settled s"
  then have a: "ds_active s = None" and m: "small (ds_run_queue s)" by (auto simp: dfs_settled_def dfs_inv_def)
  obtain b ys where r: "sl_Remove t (ds_run_queue s) = (b, ys)" by fastforce
  show "dfs_inv (RemoveThread dfs_ops t s) \<and>
      dfs_view (RemoveThread dfs_ops t s) = (dfs_view s)\<lparr>held := held (dfs_view s) - {t}\<rparr>"
    using I a r sl_Remove_small [OF m r] by (simp add: dfs_ops_def dfs_Remove_def dfs_inv_def dfs_view_def dfs_ready_def)
qed

interpretation dfs_client: client_scheduler dfs_ops dfs_inv dfs_view dfs_ready dfs_settled dfs_init True True
  proof
  fix s assume "dfs_inv s" "IsIdle dfs_ops s"
  then show "dfs_settled s" by (simp add: dfs_ops_def dfs_IsIdle_def dfs_settled_def)
qed (auto simp: dfs_view_def dfs_burning.remove [simplified dfs_view_def])

end
