(* ===== verification/Dfs_Faults.thy ===== *)
theory Dfs_Faults
  imports Dfs_Scheduler
begin

text \<open>
  What a call of the depth-first scheduler that is in order may fail with: the recorded schedule does not
  fit the program, which then does not behave as when it was recorded, or the program asks for what the
  scheduler does not support.
\<close>

definition dfs_faults :: "fault set" where
  "dfs_faults = Panic ` {''Unexpected branch type'', ''index out of bounds'', ''SwitchTo not supported by DfsScheduler'',
     ''RandomNumber not supported''}"

lemma Choose_faults: "Choose n ty s = Inl f \<Longrightarrow> f \<in> dfs_faults"
  by (auto simp: Choose_def Let_def bindE_eq_Inl dfs_faults_def verify_def split: if_splits)

lemma Either_faults: "Either ty s = Inl f \<Longrightarrow> f \<in> dfs_faults"
  by (auto simp: Either_def bindE_eq_Inl dest: Choose_faults)

lemma Pick_faults:
  assumes "Pick xs ty s = Inl f"
  shows "f \<in> dfs_faults"
proof (cases "Choose (length xs) ty s")
  case (Inl g)
  then show ?thesis using assms Choose_faults [OF Inl] by (auto simp: Pick_def Let_def split: if_splits prod.splits)
next
  case (Inr y)
  then show ?thesis using assms by (cases y) (auto simp: Pick_def Let_def dfs_faults_def split: if_splits prod.splits)
qed

lemma Pick_some:
  assumes "Pick xs ty s = Inr (r, ys, s')" and "xs \<noteq> []"
  shows "r \<noteq> None"
proof (cases "Choose (length xs) ty s")
  case (Inl g)
  then show ?thesis using assms by (auto simp: Pick_def Let_def split: if_splits prod.splits)
next
  case (Inr y)
  then show ?thesis using assms by (cases y) (auto simp: Pick_def Let_def split: if_splits prod.splits)
qed

lemma dfs_pick_faults:
  assumes "dfs_pick p ths s = Inl f" and "ds_run_queue s \<noteq> []"
  shows "f \<in> dfs_faults"
proof (cases "Pick (ds_run_queue s) BPickNext s")
  case (Inl g)
  then show ?thesis using assms(1) Pick_faults [OF Inl] by (simp add: dfs_pick_def)
next
  case (Inr y)
  obtain r q s1 where y: "y = (r, q, s1)" by (cases y)
  from Pick_some [OF Inr [unfolded y] assms(2)] show ?thesis using assms(1) Inr y by (auto simp: dfs_pick_def Let_def)
qed

lemma AddStep_cases:
  obtains "AddStep r ths s = Inl (SysAbortEx Pruned)"
  | ths1 s1 where "AddStep r ths s = Inr (ths1, s1)" and "ds_run_queue s1 = ds_run_queue s"
proof (cases "AddStep r ths s")
  case (Inl g)
  then have "g = SysAbortEx Pruned" by (auto simp: AddStep_def Let_def Prune_def split: if_splits)
  then show ?thesis using Inl that(1) by simp
next
  case (Inr y)
  then have "ds_run_queue (snd y) = ds_run_queue s" by (auto simp: AddStep_def Let_def Prune_def split: if_splits)
  then show ?thesis using Inr that(2) [of "fst y" "snd y"] by simp
qed

lemma dfs_Preempt_faults:
  assumes "dfs_Preempt t ths s = Inl f" and "\<forall>st. f \<noteq> SysAbortEx st"
  shows "f \<in> dfs_faults"
  using assms by (auto simp: dfs_Preempt_def Prune_def dest: Either_faults split: if_splits)

lemma Either_queue: "Either ty s = Inr (b, s') \<Longrightarrow> ds_run_queue s' = ds_run_queue s"
  by (auto simp: Either_def Choose_def Let_def bindE_eq_Inr split: if_splits)

lemma dfs_Preempt_queue:
  assumes "dfs_Preempt t ths s = Inr (True, s')"
  shows "ds_run_queue s' \<noteq> []"
  using assms by (auto simp: dfs_Preempt_def Prune_def dest: Either_queue split: if_splits)

lemma dfs_PickNext_faults:
  assumes f: "dfs_PickNext now ths s = Inl f" and i: "\<not> dfs_IsIdle s" and "\<forall>st. f \<noteq> SysAbortEx st"
  shows "f \<in> dfs_faults"
proof (cases rule: AddStep_cases [of "ds_active s" ths "s\<lparr>ds_active := None\<rparr>"])
  case 1
  then show ?thesis using f assms(3) by (auto simp: dfs_PickNext_def Let_def)
next
  case (2 ths1 s1)
  show ?thesis
  proof (cases "ds_active s")
    case None
    then show ?thesis using f i 2 dfs_pick_faults [of None ths1 s1 f] by (simp add: dfs_PickNext_def Let_def dfs_IsIdle_def)
  next
    case (Some t)
    show ?thesis
    proof (cases "dfs_Preempt t ths1 s1")
      case (Inl g)
      then show ?thesis using f 2 Some dfs_Preempt_faults [OF Inl] assms(3) by (simp add: dfs_PickNext_def Let_def)
    next
      case (Inr y)
      obtain p s2 where y: "y = (p, s2)" by (cases y)
      have "p" using f 2 Some Inr y by (cases p) (simp_all add: dfs_PickNext_def Let_def)
      then show ?thesis
        using f 2 Some Inr y dfs_pick_faults [of "Some t" ths1 s2 f] dfs_Preempt_queue [of t ths1 s1 s2]
        by (simp add: dfs_PickNext_def Let_def)
    qed
  qed
qed

lemma dfs_wait_faults: "dfs_wq_Pop q s = Inl f \<Longrightarrow> f \<in> dfs_faults" "dfs_wq_PopAll q s = Inl f \<Longrightarrow> f \<in> dfs_faults"
  by (auto simp: dfs_wq_Pop_def dfs_wq_PopAll_def PickWaiter_def bindE_eq_Inl Let_def dest: Pick_faults split: prod.splits if_splits)

lemma dfs_call_faults:
  assumes "invoke dfs_ops c ths s = Inl f" and "dfs_inv s" and "call_pre c (dfs_view s)" and "is_Pick c \<longrightarrow> \<not> IsIdle dfs_ops s"
    and "\<forall>st. f \<noteq> SysAbortEx st"
  shows "f \<in> dfs_faults"
proof (cases c)
  case (CPickNext now)
  then show ?thesis using assms dfs_PickNext_faults [of now ths s f] by (auto simp: dfs_ops_def bindE_eq_Inl is_Pick_def)
next
  case (CExit t)
  then show ?thesis
    using assms by (cases rule: AddStep_cases [of "Some t" ths s]) (auto simp: dfs_ops_def quiet_def dfs_Exit_def)
next
  case (CPush q t)
  then show ?thesis using assms dfs_wq_ok(1) [OF assms(2), of q t] by (auto simp: dfs_ops_def bindE_eq_Inl)
next
  case (CPop q)
  then show ?thesis using assms by (auto simp: dfs_ops_def bindE_eq_Inl dest: dfs_wait_faults)
next
  case (CPopAll q)
  then show ?thesis using assms by (auto simp: dfs_ops_def bindE_eq_Inl dest: dfs_wait_faults)
next
  case (CRandomChoice n)
  then show ?thesis using assms by (auto simp: dfs_ops_def dfs_RandomChoice_def bindE_eq_Inl dest: Choose_faults)
next
  case CSpuriousWakeup
  then show ?thesis
    using assms by (auto simp: dfs_ops_def dfs_SpuriousWakeup_def bindE_eq_Inl dest: Either_faults split: if_splits)
next
  case CSpuriousTryFailure
  then show ?thesis
    using assms by (auto simp: dfs_ops_def dfs_SpuriousTryFailure_def bindE_eq_Inl dest: Either_faults split: if_splits)
qed (use assms in \<open>auto simp: dfs_ops_def quiet_def dfs_Interrupt_def dfs_SwitchTo_def dfs_Yield_def dfs_Wake_def
    dfs_Spawn_def dfs_LockFree_def dfs_Progress_def dfs_NewIter_def dfs_RandomNumber_def Let_def dfs_faults_def
    split: prod.splits\<close>)

end
