(* ===== verification/Sim_State.thy ===== *)
theory Sim_State
  imports Prelude Sim_Types Timers Sim_Time Random_Base Memory_Model Scheduler Sched_Client "HOL-Library.AList"
begin

text \<open>
  The state of the simulator (the members of \<open>Simulator\<close>, \<open>rt/sim/system/simulator.hpp\<close>) and the
  way its code is written down. The simulator runs on top of a scheduler and under user code, and
  both are parameters. The scheduler answers calls, so that a piece of the simulator's code is a
  client of the scheduler in the sense of \<open>Sched_Client\<close>; it is written in continuation-passing
  style, with one continuation for its result and one for the exception \<open>SysAbortEx\<close>. The user
  code is a deterministic function: it takes a thread from the answer to its last system call to its
  next system call, on a state of its own (the memory of the program under test).
\<close>

section \<open>Futexes\<close>

text \<open>
  \<open>WaitQueue\<close> of \<open>futex/wait_queue.hpp\<close>: a single waiter, or a queue of the scheduler once there
  have been two.
\<close>

record wait_queue =
  wq_waiters :: "nat option"
  wq_singleton :: "tid option"

definition new_wait_queue :: wait_queue where
  "new_wait_queue = \<lparr>wq_waiters = None, wq_singleton = None\<rparr>"

section \<open>System calls\<close>

text \<open>
  What a user thread asks for. \<open>Sys_Spawn r\<close> starts the user routine \<open>r\<close>; a timed wait carries its
  deadline; \<open>Sys_Malloc\<close> and \<open>Sys_Free\<close> come after the user's heap has done its part.
  \<open>Sys_Now\<close>, \<open>Sys_GetId\<close>, \<open>Sys_SetPreemptive\<close> and a choice of one are answered without a switch of
  context in the code; here every answer is an answer to a call.
\<close>

datatype syscall =
  Sys_Noop
| Sys_Spawn nat
| Sys_GetId
| Sys_Detach tid
| Sys_Yield
| Sys_SwitchTo tid
| Sys_SleepFor int
| Sys_SleepUntil int
| Sys_Now
| Sys_Sync action
| Sys_AccessNonAtomicVar access
| Sys_FutexWait futex_loc u64 "int option" waiter_context
| Sys_FutexWake futex_loc nat
| Sys_Malloc addr nat
| Sys_Free addr
| Sys_RandomNumber
| Sys_RandomChoice nat
| Sys_SpuriousTryFailure
| Sys_Write int string
| Sys_Abort status
| Sys_SetPreemptive bool
| Sys_SetLockFree bool
| Sys_SchedHintProgress
| Sys_SchedHintNewIter
| Sys_ThreadEnter
| Sys_ThreadExit
| Sys_RegisterFiber
| Sys_SwitchToFiber nat

text \<open>What a handler leaves in the locals of the caller.\<close>

datatype reply =
  NoReply | Routine nat | ReplyId tid | ReplyTime int | ReplyNumber u64 | ReplyIndex nat | ReplyBool bool
| ReplyFiber nat

text \<open>
  The user code: given the thread that runs, the status and the load of its thread object (what
  \<open>SystemCall\<close> and \<open>SysSync\<close> return), and the reply of the handler, it comes to its next system call.
  \<open>u_fixed_mapping\<close> says whether the build and the environment put its memory at a fixed address
  (\<open>StaticMemoryMapper\<close>).
\<close>

record 'u user =
  u_init :: "params \<Rightarrow> 'u"
  u_fixed_mapping :: bool
  u_run :: "tid \<Rightarrow> call_status \<Rightarrow> u64 \<Rightarrow> reply \<Rightarrow> 'u \<Rightarrow> syscall \<times> 'u"

section \<open>The simulator\<close>

text \<open>
  Timers live on the stacks of the threads that wait; the timer of thread \<open>t\<close> is the timer \<open>t\<close> of the
  queue, and \<open>sm_alarm\<close> tells which of the two classes of timers it belongs to (\<open>SleepTimer\<close>,
  \<open>FutexTimer\<close>). The heap and the output are kept as far as the simulator looks at them. The map of the
  futexes is the list of its entries.
\<close>

record 'u simulator =
  sm_params :: params
  sm_user :: "'u user"
  sm_memory :: 'u
  sm_time :: time
  sm_ids :: id_allocator
  sm_digest :: digest_calculator
  sm_digest_atomic_loads :: bool
  sm_alive :: "tid list"
  sm_threads :: threads
  sm_replies :: "tid \<Rightarrow> reply"
  sm_fibers :: "tid \<Rightarrow> nat"
  sm_burnt_threads :: nat
  sm_iter :: nat
  sm_last_checkpoint :: nat
  sm_model :: memory_model
  sm_futex :: "(futex_key \<times> wait_queue) list"
  sm_next_fiber_id :: nat
  sm_timer_queue :: timer_queue
  sm_alarm :: "timer_ref \<Rightarrow> wake_type"
  sm_step_index :: nat
  sm_done :: bool
  sm_stdout :: string
  sm_stderr :: string
  sm_status :: "status option"
  sm_futex_wait_count :: nat
  sm_futex_wake_count :: nat
  sm_yield_count :: nat
  sm_thread_count :: nat
  sm_alloc_count :: nat
  sm_free_count :: nat

section \<open>Code of the simulator\<close>

type_synonym ('u, 'a) sim =
  "'u simulator \<Rightarrow> ('a \<Rightarrow> 'u simulator \<Rightarrow> 'u simulator client) \<Rightarrow> ('u simulator \<Rightarrow> 'u simulator client) \<Rightarrow>
     'u simulator client"

definition ret :: "'a \<Rightarrow> ('u, 'a) sim" where
  "ret a = (\<lambda>s k h. k a s)"

definition andThen :: "('u, 'a) sim \<Rightarrow> ('a \<Rightarrow> ('u, 'b) sim) \<Rightarrow> ('u, 'b) sim" where
  "andThen m f = (\<lambda>s k h. m s (\<lambda>a s1. f a s1 k h) h)"

definition get :: "('u simulator \<Rightarrow> 'a) \<Rightarrow> ('u, 'a) sim" where
  "get f = (\<lambda>s k h. k (f s) s)"

definition modify :: "('u simulator \<Rightarrow> 'u simulator) \<Rightarrow> ('u, unit) sim" where
  "modify f = (\<lambda>s k h. k () (f s))"

definition panic :: "string \<Rightarrow> ('u, 'a) sim" where
  "panic msg = (\<lambda>s k h. Die (Panic msg))"

definition check :: "bool \<Rightarrow> string \<Rightarrow> ('u, unit) sim" where
  "check b msg = (if b then ret () else panic msg)"

definition no_return :: "('u, 'a) sim" where
  "no_return = (\<lambda>s k h. Die NoReturn)"

text \<open>\<open>_SysAbort\<close>: the status is set and the exception thrown.\<close>

definition SysAbort :: "status \<Rightarrow> ('u, 'a) sim" where
  "SysAbort st = (\<lambda>s k h. h (s\<lparr>sm_status := Some st\<rparr>))"

text \<open>\<open>try { m } catch (SysAbortEx) { r }\<close>\<close>

definition try_catch :: "('u, 'a) sim \<Rightarrow> ('u, 'a) sim \<Rightarrow> ('u, 'a) sim" where
  "try_catch m r = (\<lambda>s k h. m s k (\<lambda>s1. r s1 k h))"

text \<open>An operation of a component, which may fail.\<close>

definition lift :: "fault + 'a \<Rightarrow> ('u, 'a) sim" where
  "lift m = (case m of Inr a \<Rightarrow> ret a | Inl (SysAbortEx st) \<Rightarrow> SysAbort st
     | Inl (Panic msg) \<Rightarrow> panic msg | Inl NoReturn \<Rightarrow> no_return)"

definition lift_msg :: "string + 'a \<Rightarrow> ('u, 'a) sim" where
  "lift_msg m = (case m of Inr a \<Rightarrow> ret a | Inl msg \<Rightarrow> panic msg)"

text \<open>
  A call of the scheduler. When the scheduler aborts the simulation (\<open>Simulator::Prune\<close>), the simulator's
  state with the status is the outcome.
\<close>

definition sched :: "sched_call \<Rightarrow> ('u, sched_resp) sim" where
  "sched c = (\<lambda>s k h. Call c (sm_threads s) (\<lambda>r. k r s) (\<lambda>st. s\<lparr>sm_status := Some st\<rparr>))"

definition sched_do :: "sched_call \<Rightarrow> ('u, unit) sim" where
  "sched_do c = andThen (sched c) (\<lambda>_. ret ())"

definition sched_waiter :: "sched_call \<Rightarrow> ('u, tid option) sim" where
  "sched_waiter c = andThen (sched c) (\<lambda>r. case r of RWaiter w \<Rightarrow> ret w | _ \<Rightarrow> panic ''response'')"

definition sched_thread :: "sched_call \<Rightarrow> ('u, tid) sim" where
  "sched_thread c = andThen (sched c) (\<lambda>r. case r of RThread t \<Rightarrow> ret t | _ \<Rightarrow> panic ''response'')"

definition sched_bool :: "sched_call \<Rightarrow> ('u, bool) sim" where
  "sched_bool c = andThen (sched c) (\<lambda>r. case r of RBool b \<Rightarrow> ret b | _ \<Rightarrow> panic ''response'')"

definition sched_number :: "sched_call \<Rightarrow> ('u, u64) sim" where
  "sched_number c = andThen (sched c) (\<lambda>r. case r of RNumber v \<Rightarrow> ret v | _ \<Rightarrow> panic ''response'')"

definition sched_index :: "sched_call \<Rightarrow> ('u, nat) sim" where
  "sched_index c = andThen (sched c) (\<lambda>r. case r of RIndex i \<Rightarrow> ret i | _ \<Rightarrow> panic ''response'')"

definition sched_queue :: "sched_call \<Rightarrow> ('u, nat) sim" where
  "sched_queue c = andThen (sched c) (\<lambda>r. case r of RQueue q \<Rightarrow> ret q | _ \<Rightarrow> panic ''response'')"

text \<open>The questions to the run queue and to a wait queue.\<close>

definition run_queue_idle :: "('u, bool) sim" where
  "run_queue_idle = (\<lambda>s k h. Query (\<lambda>b. k b s))"

definition sched_queue_empty :: "nat \<Rightarrow> ('u, bool) sim" where
  "sched_queue_empty q = (\<lambda>s k h. QueryEmpty q (\<lambda>b. k b s))"

text \<open>A thread object.\<close>

definition on_thread :: "tid \<Rightarrow> (thread \<Rightarrow> thread) \<Rightarrow> 'u simulator \<Rightarrow> 'u simulator" where
  "on_thread t f s = s\<lparr>sm_threads := (sm_threads s)(t := f (sm_threads s t))\<rparr>"

definition set_thread :: "tid \<Rightarrow> (thread \<Rightarrow> thread) \<Rightarrow> ('u, unit) sim" where
  "set_thread t f = modify (on_thread t f)"

definition get_thread :: "tid \<Rightarrow> (thread \<Rightarrow> 'a) \<Rightarrow> ('u, 'a) sim" where
  "get_thread t f = get (\<lambda>s. f (sm_threads s t))"

definition reply_to :: "tid \<Rightarrow> reply \<Rightarrow> ('u, unit) sim" where
  "reply_to t r = modify (\<lambda>s. s\<lparr>sm_replies := (sm_replies s)(t := r)\<rparr>)"

text \<open>A loop over a list.\<close>

primrec for_each :: "'a list \<Rightarrow> ('a \<Rightarrow> ('u, unit) sim) \<Rightarrow> ('u, unit) sim" where
  "for_each [] f = ret ()"
| "for_each (x # xs) f = andThen (f x) (\<lambda>_. for_each xs f)"

end
