(* ===== verification/Futex.thy ===== *)
theory Futex
  imports Prelude Sim_Types Memory_Model Sim_State
begin

text \<open>
  Futexes (\<open>rt/sim/system/futex/\<close>): the wait queue of a futex, which holds its first waiter itself and
  moves to a queue of the scheduler when a second one comes (\<open>wait_queue.hpp\<close>, \<open>wait_queue.cpp\<close>), and
  the value of a futex, which may be one half of a 64-bit atomic (\<open>get_value.cpp\<close>).
\<close>

section \<open>A single waiter\<close>

definition singleton_IsEmpty :: "tid option \<Rightarrow> bool" where
  "singleton_IsEmpty w \<longleftrightarrow> w = None"

definition TryPush :: "tid \<Rightarrow> tid option \<Rightarrow> bool \<times> tid option" where
  "TryPush t w = (if w = None then (True, Some t) else (False, w))"

definition TryPop :: "tid option \<Rightarrow> tid option \<times> tid option" where
  "TryPop w = (w, None)"

definition singleton_Pop :: "tid option \<Rightarrow> string + tid \<times> tid option" where
  "singleton_Pop w = (case w of
       None \<Rightarrow> Inl ''SingletonWaitQueue is empty''
     | Some t \<Rightarrow> Inr (t, None))"

text \<open>The waiter is taken out even when it is another one.\<close>

definition singleton_Remove :: "tid \<Rightarrow> tid option \<Rightarrow> bool \<times> tid option" where
  "singleton_Remove t w = (w = Some t, None)"

section \<open>The wait queue\<close>

definition wait_queue_Push :: "tid \<Rightarrow> wait_queue \<Rightarrow> ('u, wait_queue) sim" where
  "wait_queue_Push t w =
     (case wq_waiters w of
        Some q \<Rightarrow> andThen (sched_do (CPush q t)) (\<lambda>_. ret w)
      | None \<Rightarrow>
          (case TryPush t (wq_singleton w) of
             (True, single) \<Rightarrow> ret (w\<lparr>wq_singleton := single\<rparr>)
           | (False, single) \<Rightarrow>
               andThen (sched_queue CNewWaitQueue) (\<lambda>q.
               andThen (lift_msg (singleton_Pop single)) (\<lambda>(u, single1).
               andThen (sched_do (CPush q u)) (\<lambda>_.
               andThen (sched_do (CPush q t)) (\<lambda>_.
               ret (w\<lparr>wq_waiters := Some q, wq_singleton := single1\<rparr>)))))))"

definition wait_queue_Pop :: "wait_queue \<Rightarrow> ('u, tid option \<times> wait_queue) sim" where
  "wait_queue_Pop w =
     (case wq_waiters w of
        Some q \<Rightarrow> andThen (sched_waiter (CPop q)) (\<lambda>t. ret (t, w))
      | None \<Rightarrow> (let (t, single) = TryPop (wq_singleton w) in ret (t, w\<lparr>wq_singleton := single\<rparr>)))"

definition wait_queue_PopAll :: "wait_queue \<Rightarrow> ('u, tid option \<times> wait_queue) sim" where
  "wait_queue_PopAll w =
     (case wq_waiters w of
        Some q \<Rightarrow> andThen (sched_waiter (CPopAll q)) (\<lambda>t. ret (t, w))
      | None \<Rightarrow> (let (t, single) = TryPop (wq_singleton w) in ret (t, w\<lparr>wq_singleton := single\<rparr>)))"

definition wait_queue_IsEmpty :: "wait_queue \<Rightarrow> ('u, bool) sim" where
  "wait_queue_IsEmpty w =
     (case wq_waiters w of
        Some q \<Rightarrow> sched_queue_empty q
      | None \<Rightarrow> ret (singleton_IsEmpty (wq_singleton w)))"

definition wait_queue_Remove :: "tid \<Rightarrow> wait_queue \<Rightarrow> ('u, wait_queue) sim" where
  "wait_queue_Remove t w =
     andThen (case wq_waiters w of
        Some q \<Rightarrow> andThen (sched_bool (CWqRemove q t)) (\<lambda>removed. ret (removed, w))
      | None \<Rightarrow> (let (removed, single) = singleton_Remove t (wq_singleton w)
                 in ret (removed, w\<lparr>wq_singleton := single\<rparr>))) (\<lambda>(removed, w1).
     andThen (check removed ''Waiter not found in WaitQueue'') (\<lambda>_. ret w1))"

definition wait_queue_destroy :: "wait_queue \<Rightarrow> ('u, unit) sim" where
  "wait_queue_destroy w =
     andThen (wait_queue_IsEmpty w) (\<lambda>empty. check empty ''Destroying non-empty wait queue'')"

section \<open>The value of a futex\<close>

definition GetLowHalf :: "u64 \<Rightarrow> u64" where
  "GetLowHalf v = v AND 0xFFFFFFFF"

definition GetHighHalf :: "u64 \<Rightarrow> u64" where
  "GetHighHalf v = drop_bit 32 v AND 0xFFFFFFFF"

definition GetFutexValue :: "atomic_var \<Rightarrow> u64 \<Rightarrow> futex_loc \<Rightarrow> string + u64" where
  "GetFutexValue a atomic_value l =
     (case fl_type l of
        Uint32 \<Rightarrow> bindE (verify (av_size a = fl_size l) ''Atomic size mismatch'') (\<lambda>_. Inr atomic_value)
      | Uint64Half \<Rightarrow>
          bindE (verify (av_size a = 8) ''Unsupported atomic size'') (\<lambda>_.
          bindE (verify (av_size a = fl_size l) ''Atomic size mismatch'') (\<lambda>_.
          case fl_part l of
            LowHalf \<Rightarrow> Inr (GetLowHalf atomic_value)
          | HighHalf \<Rightarrow> Inr (GetHighHalf atomic_value)
          | Whole \<Rightarrow> Inl ''Unexpected futex location''))
      | Std \<Rightarrow> Inr atomic_value)"

text \<open>
  The two halves of a 64-bit atomic that a futex may wait on are 32-bit values, and no bit of the value
  is lost: the high half times 2 to the 32 plus the low half is the value.
\<close>

theorem futex_halves:
  "unat (GetLowHalf v) < 2 ^ 32 \<and> unat (GetHighHalf v) < 2 ^ 32 \<and>
   unat v = unat (GetHighHalf v) * 2 ^ 32 + unat (GetLowHalf v)"
proof -
  have m: "(0xFFFFFFFF :: u64) = mask 32" by (simp add: mask_eq_exp_minus_1)
  have lo: "unat (GetLowHalf v) = unat v mod 2 ^ 32"
    unfolding GetLowHalf_def m by (simp only: take_bit_eq_mask [symmetric] unsigned_take_bit_eq take_bit_nat_def)
  have "unat v < 2 ^ 64" using unsigned_less [of v] by simp
  then have q: "unat v div 2 ^ 32 < 2 ^ 32" by (simp add: less_mult_imp_div_less)
  have "unat (drop_bit 32 v) = unat v div 2 ^ 32" by (simp add: unat_drop_bit_eq drop_bit_nat_def)
  then have hi: "unat (GetHighHalf v) = unat v div 2 ^ 32"
    unfolding GetHighHalf_def m using q
    by (simp only: take_bit_eq_mask [symmetric] unsigned_take_bit_eq take_bit_nat_def mod_less)
  show ?thesis
  proof (intro conjI)
    show "unat (GetLowHalf v) < 2 ^ 32" unfolding lo by simp
    show "unat (GetHighHalf v) < 2 ^ 32" unfolding hi by (rule q)
    show "unat v = unat (GetHighHalf v) * 2 ^ 32 + unat (GetLowHalf v)" unfolding lo hi by simp
  qed
qed

end
