(* ===== verification/Simulator.thy ===== *)
theory Simulator
  imports Prelude Sim_Types Timers Sim_Time Random_Base Memory_Model Scheduler Sched_Client Sim_State Futex
begin

text \<open>
  The simulator (\<open>rt/sim/system/simulator.cpp\<close>): its loop, the handlers of the system calls, waiting and
  waking, timers, virtual time, the detection of deadlocks, and the life of threads. It is the
  build with isolated user memory, where a simulation that aborts is burnt. The scheduler has been
  started before the code here runs (\<open>run_simulation\<close>). Logging, debugging, stacks and the texts of the
  reports are left out.
\<close>

section \<open>Threads\<close>

definition ThreadCount :: "'u simulator \<Rightarrow> nat" where
  "ThreadCount s = sm_thread_count s"

definition CreateThread :: "nat \<Rightarrow> ('u, tid) sim" where
  "CreateThread routine =
     andThen (modify (\<lambda>s. s\<lparr>sm_thread_count := sm_thread_count s + 1\<rparr>)) (\<lambda>_.
     andThen (get sm_ids) (\<lambda>ids.
     andThen (lift_msg (AllocateId kMaxThreads ids)) (\<lambda>(t, ids1).
     andThen (modify (\<lambda>s. s\<lparr>sm_ids := ids1\<rparr>)) (\<lambda>_.
     andThen (set_thread t (\<lambda>th. (thread_Reset t th)\<lparr>th_status := StOk\<rparr>)) (\<lambda>_.
     andThen (reply_to t (Routine routine)) (\<lambda>_.
     andThen (modify (\<lambda>s. s\<lparr>sm_alive := sm_alive s @ [t]\<rparr>)) (\<lambda>_.
     ret t)))))))"

definition DestroyThread :: "tid \<Rightarrow> ('u, unit) sim" where
  "DestroyThread t = modify (\<lambda>s. s\<lparr>sm_alive := remove1 t (sm_alive s), sm_ids := ids_Free t (sm_ids s)\<rparr>)"

section \<open>Timers\<close>

text \<open>A new timer object, on the stack of the thread that goes to sleep.\<close>

definition make_timer :: "timer_ref \<Rightarrow> int \<Rightarrow> wake_type \<Rightarrow> ('u, unit) sim" where
  "make_timer r until alarm =
     modify (\<lambda>s. let q = sm_timer_queue s; h = timers q
       in s\<lparr>sm_timer_queue := q\<lparr>timers := h\<lparr>store := (store h)(r := \<lparr>tm_when = until, loc = 0, timer_id = 0\<rparr>)\<rparr>\<rparr>,
            sm_alarm := (sm_alarm s)(r := alarm)\<rparr>)"

definition AddTimer :: "timer_ref \<Rightarrow> ('u, unit) sim" where
  "AddTimer r =
     andThen (get sm_timer_queue) (\<lambda>q.
     andThen (lift_msg (Add r q)) (\<lambda>q1.
     modify (\<lambda>s. s\<lparr>sm_timer_queue := q1\<rparr>)))"

definition remove_timer :: "timer_ref \<Rightarrow> ('u, bool) sim" where
  "remove_timer r =
     andThen (get sm_timer_queue) (\<lambda>q.
     andThen (lift_msg (queue_Remove r q)) (\<lambda>(removed, q1).
     andThen (modify (\<lambda>s. s\<lparr>sm_timer_queue := q1\<rparr>)) (\<lambda>_.
     ret removed)))"

definition CancelTimer :: "timer_ref \<Rightarrow> ('u, unit) sim" where
  "CancelTimer r = andThen (remove_timer r) (\<lambda>removed. check removed ''Timer not found'')"

definition reset_timers :: "('u, unit) sim" where
  "reset_timers =
     andThen (get sm_timer_queue) (\<lambda>q.
     andThen (lift_msg (queue_Reset q)) (\<lambda>q1.
     modify (\<lambda>s. s\<lparr>sm_timer_queue := q1\<rparr>)))"

section \<open>Futexes\<close>

text \<open>\<open>futex_[key]\<close> makes the futex when there is none.\<close>

definition GetFutex :: "futex_key \<Rightarrow> ('u, wait_queue) sim" where
  "GetFutex fk =
     andThen (get (\<lambda>s. map_of (sm_futex s) fk)) (\<lambda>f.
     case f of
       Some w \<Rightarrow> ret w
     | None \<Rightarrow> andThen (modify (\<lambda>s. s\<lparr>sm_futex := AList.update fk new_wait_queue (sm_futex s)\<rparr>)) (\<lambda>_.
               ret new_wait_queue))"

definition put_futex :: "futex_key \<Rightarrow> wait_queue \<Rightarrow> ('u, unit) sim" where
  "put_futex fk w = modify (\<lambda>s. s\<lparr>sm_futex := AList.update fk w (sm_futex s)\<rparr>)"

definition futex_Remove :: "futex_key \<Rightarrow> tid \<Rightarrow> ('u, unit) sim" where
  "futex_Remove fk t =
     andThen (GetFutex fk) (\<lambda>w.
     andThen (wait_queue_Remove t w) (\<lambda>w1. put_futex fk w1))"

section \<open>Waking\<close>

definition ScheduleWaiter :: "tid \<Rightarrow> call_status \<Rightarrow> ('u, unit) sim" where
  "ScheduleWaiter t st =
     andThen (set_thread t (\<lambda>th. th\<lparr>th_status := st\<rparr>)) (\<lambda>_. sched_do (CWake t))"

definition model_Wake :: "tid \<Rightarrow> tid \<Rightarrow> ('u, unit) sim" where
  "model_Wake waker t =
     andThen (get (\<lambda>s. mm_Wake (ThreadCount s) (th_sync (sm_threads s waker)) t (th_sync (sm_threads s t)))) (\<lambda>r.
     andThen (lift r) (\<lambda>c.
     set_thread t (\<lambda>th. th\<lparr>th_sync := c\<rparr>)))"

text \<open>The waker is null when a timer wakes the thread.\<close>

definition Wake :: "tid option \<Rightarrow> tid \<Rightarrow> wake_type \<Rightarrow> ('u, unit) sim" where
  "Wake waker t wake =
     andThen (get_thread t th_state) (\<lambda>state.
     andThen (check (state = Parked \<or> state = Sleeping) ''Unexpected thread state'') (\<lambda>_.
     andThen (get_thread t th_timer) (\<lambda>timer.
     andThen (get_thread t th_futex) (\<lambda>futex.
     andThen (case wake of
        WakeSleepTimer \<Rightarrow> ret StOk
      | WakeFutexWake \<Rightarrow>
          andThen (case waker of None \<Rightarrow> panic ''null thread'' | Some u \<Rightarrow> model_Wake u t) (\<lambda>_.
          andThen (case timer of None \<Rightarrow> ret () | Some r \<Rightarrow> CancelTimer r) (\<lambda>_. ret StOk))
      | WakeFutexTimer \<Rightarrow>
          andThen (case futex of None \<Rightarrow> panic ''null futex'' | Some fk \<Rightarrow> futex_Remove fk t) (\<lambda>_. ret StTimeout)
      | WakeSpurious \<Rightarrow>
          andThen (case futex of None \<Rightarrow> ret () | Some fk \<Rightarrow> futex_Remove fk t) (\<lambda>_.
          andThen (case timer of None \<Rightarrow> ret () | Some r \<Rightarrow> CancelTimer r) (\<lambda>_. ret StInterrupted))) (\<lambda>status.
     andThen (set_thread t (\<lambda>th. th\<lparr>th_state := Runnable, th_futex := None, th_timer := None, th_waiter := None\<rparr>)) (\<lambda>_.
     ScheduleWaiter t status))))))"

text \<open>\<open>SleepTimer::Alarm\<close> and \<open>FutexTimer::Alarm\<close>.\<close>

definition Alarm :: "timer_ref \<Rightarrow> ('u, unit) sim" where
  "Alarm r = andThen (get (\<lambda>s. sm_alarm s r)) (\<lambda>wake. Wake None r wake)"

primrec poll_loop :: "nat \<Rightarrow> int \<Rightarrow> bool \<Rightarrow> ('u, bool) sim" where
  "poll_loop 0 now progress = no_return"
| "poll_loop (Suc n) now progress =
     andThen (get sm_timer_queue) (\<lambda>q.
     andThen (lift_msg (Poll now q)) (\<lambda>(timer, q1).
     andThen (modify (\<lambda>s. s\<lparr>sm_timer_queue := q1\<rparr>)) (\<lambda>_.
     case timer of
       None \<Rightarrow> ret progress
     | Some r \<Rightarrow> andThen (Alarm r) (\<lambda>_. poll_loop n now True))))"

text \<open>An alarm adds no timer, so the loop is over after as many turns as there are timers, and one.\<close>

definition PollTimers :: "('u, bool) sim" where
  "PollTimers =
     andThen (get (\<lambda>s. Now (sm_time s))) (\<lambda>now.
     andThen (get (\<lambda>s. hsize (timers (sm_timer_queue s)))) (\<lambda>n.
     poll_loop (n + 1) now False))"

section \<open>Burning\<close>

definition BurnThread :: "tid \<Rightarrow> ('u, unit) sim" where
  "BurnThread t =
     andThen (sched_do (CRemove t)) (\<lambda>_.
     andThen (get_thread t th_timer) (\<lambda>timer.
     andThen (case timer of None \<Rightarrow> ret () | Some r \<Rightarrow> andThen (remove_timer r) (\<lambda>_. ret ())) (\<lambda>_.
     andThen (get_thread t th_futex) (\<lambda>futex.
     andThen (case futex of None \<Rightarrow> ret () | Some fk \<Rightarrow> futex_Remove fk t) (\<lambda>_.
     andThen (modify (\<lambda>s. s\<lparr>sm_burnt_threads := sm_burnt_threads s + 1\<rparr>)) (\<lambda>_.
     DestroyThread t))))))"

definition reset_model :: "('u, unit) sim" where
  "reset_model = modify (\<lambda>s. s\<lparr>sm_model := mm_Reset (sm_model s)\<rparr>)"

definition Burn :: "('u, unit) sim" where
  "Burn =
     andThen (get sm_alive) (\<lambda>alive.
     andThen (for_each alive BurnThread) (\<lambda>_.
     andThen reset_timers (\<lambda>_.
     andThen reset_model (\<lambda>_.
     modify (\<lambda>s. s\<lparr>sm_done := True\<rparr>)))))"

definition BurnDetachedThreads :: "('u, unit) sim" where
  "BurnDetachedThreads =
     andThen (get (\<lambda>s. filter (\<lambda>t. \<not> th_main (sm_threads s t) \<and> th_parent_id (sm_threads s t) = None) (sm_alive s)))
       (\<lambda>detached. for_each detached BurnThread)"

section \<open>The end of the main thread\<close>

definition CheckMemory :: "('u, unit) sim" where
  "CheckMemory =
     andThen (get (\<lambda>s. 0 < sm_burnt_threads s)) (\<lambda>burnt.
     if burnt then ret ()
     else andThen (get (\<lambda>s. sm_alloc_count s \<noteq> sm_free_count s)) (\<lambda>leaks.
       if leaks then SysAbort MemoryLeak else ret ()))"

definition MainCompleted :: "('u, unit) sim" where
  "MainCompleted =
     andThen (get (\<lambda>s. p_allow_detached_threads (sm_params s))) (\<lambda>detached.
     andThen (if detached then BurnDetachedThreads else ret ()) (\<lambda>_.
     andThen (get (\<lambda>s. sm_alive s = [])) (\<lambda>none.
     andThen (check none ''There are alive threads after main completion'') (\<lambda>_.
     andThen CheckMemory (\<lambda>_.
     modify (\<lambda>s. s\<lparr>sm_status := Some Ok\<rparr>))))))"

section \<open>System calls\<close>

text \<open>A handler says whether the caller goes on at once.\<close>

definition SysSpawn :: "tid \<Rightarrow> nat \<Rightarrow> ('u, bool) sim" where
  "SysSpawn parent routine =
     andThen (CreateThread routine) (\<lambda>child.
     andThen (set_thread child (\<lambda>th. th\<lparr>th_parent_id := Some parent\<rparr>)) (\<lambda>_.
     andThen (get (\<lambda>s. mm_Spawn (ThreadCount s) (th_sync (sm_threads s parent)) child (th_sync (sm_threads s child)))) (\<lambda>r.
     andThen (lift r) (\<lambda>c.
     andThen (set_thread child (\<lambda>th. th\<lparr>th_sync := c\<rparr>)) (\<lambda>_.
     andThen (sched_do (CSpawn child)) (\<lambda>_.
     andThen (reply_to parent (ReplyId child)) (\<lambda>_.
     ret True)))))))"

definition SysDetach :: "tid \<Rightarrow> ('u, bool) sim" where
  "SysDetach t =
     andThen (get sm_alive) (\<lambda>alive.
     andThen (if t \<in> set alive then set_thread t (\<lambda>th. th\<lparr>th_parent_id := None\<rparr>) else ret ()) (\<lambda>_.
     ret True))"

definition SysYield :: "tid \<Rightarrow> ('u, bool) sim" where
  "SysYield t =
     andThen (modify (\<lambda>s. s\<lparr>sm_yield_count := sm_yield_count s + 1\<rparr>)) (\<lambda>_.
     andThen (sched_do (CYield t)) (\<lambda>_.
     ret False))"

definition SysSwitchTo :: "tid \<Rightarrow> tid \<Rightarrow> ('u, bool) sim" where
  "SysSwitchTo t target =
     andThen (get_thread t th_attrs) (\<lambda>attrs.
     andThen (check (preemptive attrs) ''SwitchTo is not supported in non-preemptive mode'') (\<lambda>_.
     andThen (sched_do (CSwitchTo t target)) (\<lambda>_.
     ret False)))"

definition SysSleepUntil :: "tid \<Rightarrow> int \<Rightarrow> ('u, bool) sim" where
  "SysSleepUntil t until =
     andThen (make_timer t until WakeSleepTimer) (\<lambda>_.
     andThen (AddTimer t) (\<lambda>_.
     andThen (set_thread t (\<lambda>th. th\<lparr>th_state := Sleeping, th_futex := None, th_timer := Some t, th_waiter := None\<rparr>)) (\<lambda>_.
     ret False)))"

definition SysSleepFor :: "tid \<Rightarrow> int \<Rightarrow> ('u, bool) sim" where
  "SysSleepFor t delay = andThen (get (\<lambda>s. After (sm_time s) delay)) (\<lambda>until. SysSleepUntil t until)"

definition SysSync :: "tid \<Rightarrow> action \<Rightarrow> ('u, bool) sim" where
  "SysSync t action =
     andThen (set_thread t (\<lambda>th. th\<lparr>th_action := Some action\<rparr>)) (\<lambda>_.
     andThen (get (\<lambda>s. of_nat (NowTicks (sm_time s)))) (\<lambda>now.
     andThen (sched_do (CInterrupt now t)) (\<lambda>_.
     ret False)))"

definition SysAccessNonAtomicVar :: "tid \<Rightarrow> access \<Rightarrow> ('u, bool) sim" where
  "SysAccessNonAtomicVar t access =
     andThen (get (\<lambda>s. AccessNonAtomicVar (ThreadCount s) t (th_sync (sm_threads s t)) access (sm_model s))) (\<lambda>r.
     andThen (lift r) (\<lambda>(race, c, access1, m).
     andThen (set_thread t (\<lambda>th. th\<lparr>th_sync := c\<rparr>)) (\<lambda>_.
     andThen (modify (\<lambda>s. s\<lparr>sm_model := m\<rparr>)) (\<lambda>_.
     if race \<noteq> None then SysAbort DataRace else ret True))))"

definition VulnerableToSpuriousWakeup :: "waiter_context \<Rightarrow> bool" where
  "VulnerableToSpuriousWakeup c \<longleftrightarrow> wc_type c \<in> {FtFutex, FtAtomic, FtCondVar, FtMutexTryLock}"

text \<open>The last part of \<open>_SysFutexWait\<close>: the caller parks.\<close>

definition park :: "tid \<Rightarrow> futex_key \<Rightarrow> int option \<Rightarrow> waiter_context \<Rightarrow> ('u, unit) sim" where
  "park t fk until ctx =
     andThen (GetFutex fk) (\<lambda>w.
     andThen (wait_queue_Push t w) (\<lambda>w1.
     andThen (put_futex fk w1) (\<lambda>_.
     andThen (case until of None \<Rightarrow> ret () | Some d \<Rightarrow> AddTimer t) (\<lambda>_.
     set_thread t (\<lambda>th. th\<lparr>th_state := Parked, th_futex := Some fk,
       th_timer := map_option (\<lambda>_. t) until, th_waiter := Some ctx\<rparr>)))))"

definition SysFutexWait :: "tid \<Rightarrow> futex_loc \<Rightarrow> u64 \<Rightarrow> int option \<Rightarrow> waiter_context \<Rightarrow> ('u, bool) sim" where
  "SysFutexWait t l old until ctx =
     andThen (case until of None \<Rightarrow> ret () | Some d \<Rightarrow> make_timer t d WakeFutexTimer) (\<lambda>_.
     andThen (modify (\<lambda>s. s\<lparr>sm_futex_wait_count := sm_futex_wait_count s + 1\<rparr>)) (\<lambda>_.
     andThen (if VulnerableToSpuriousWakeup ctx then sched_bool CSpuriousWakeup else ret False) (\<lambda>wakeup.
     if wakeup then andThen (ScheduleWaiter t StInterrupted) (\<lambda>_. ret False)
     else
       andThen (get (\<lambda>s. FutexAtomic (fl_atomic l) (sm_model s))) (\<lambda>r.
       andThen (lift r) (\<lambda>atomic.
       andThen (lift_msg (GetFutexValue atomic (FutexLoad atomic) l)) (\<lambda>value.
       if value \<noteq> old then andThen (ScheduleWaiter t StOk) (\<lambda>_. ret False)
       else andThen (park t (FutexKey l) until ctx) (\<lambda>_. ret False)))))))"

text \<open>The loop of waking all the waiters; each turn takes one out of the queue.\<close>

primrec wake_all :: "nat \<Rightarrow> tid \<Rightarrow> futex_key \<Rightarrow> ('u, unit) sim" where
  "wake_all 0 waker fk = no_return"
| "wake_all (Suc n) waker fk =
     andThen (GetFutex fk) (\<lambda>w.
     andThen (wait_queue_PopAll w) (\<lambda>(waiter, w1).
     andThen (put_futex fk w1) (\<lambda>_.
     case waiter of
       None \<Rightarrow> ret ()
     | Some t \<Rightarrow> andThen (Wake (Some waker) t WakeFutexWake) (\<lambda>_. wake_all n waker fk))))"

text \<open>There are at most as many waiters as threads: \<open>kMaxThreads + 1\<close> turns are enough.\<close>

definition SysFutexWake :: "tid \<Rightarrow> futex_loc \<Rightarrow> nat \<Rightarrow> ('u, bool) sim" where
  "SysFutexWake waker l n =
     andThen (GetFutex (FutexKey l)) (\<lambda>w.
     andThen (if n = 1 then
          andThen (wait_queue_Pop w) (\<lambda>(waiter, w1).
          andThen (put_futex (FutexKey l) w1) (\<lambda>_.
          case waiter of None \<Rightarrow> ret () | Some t \<Rightarrow> Wake (Some waker) t WakeFutexWake))
        else if n = 0 then wake_all (kMaxThreads + 1) waker (FutexKey l)
        else panic ''count value not supported'') (\<lambda>_.
     andThen (modify (\<lambda>s. s\<lparr>sm_futex_wake_count := sm_futex_wake_count s + 1\<rparr>)) (\<lambda>_.
     ret True)))"

definition SysMalloc :: "tid \<Rightarrow> addr \<Rightarrow> nat \<Rightarrow> ('u, bool) sim" where
  "SysMalloc t p n =
     andThen (modify (\<lambda>s. s\<lparr>sm_alloc_count := sm_alloc_count s + 1\<rparr>)) (\<lambda>_.
     andThen (get (\<lambda>s. p_malloc_happens_before (sm_params s))) (\<lambda>hb.
     andThen (if hb
        then modify (\<lambda>s. let th = sm_threads s t; (c, m) = Malloc (ThreadCount s) t (th_scope th) (th_sync th) p n (sm_model s)
               in on_thread t (\<lambda>th. th\<lparr>th_sync := c\<rparr>) (s\<lparr>sm_model := m\<rparr>))
        else ret ()) (\<lambda>_.
     ret True)))"

definition SysFree :: "tid \<Rightarrow> addr \<Rightarrow> ('u, bool) sim" where
  "SysFree t p =
     andThen (modify (\<lambda>s. s\<lparr>sm_free_count := sm_free_count s + (if p = 0 then 0 else 1)\<rparr>)) (\<lambda>_.
     andThen (get (\<lambda>s. p_malloc_happens_before (sm_params s))) (\<lambda>hb.
     andThen (if hb
        then modify (\<lambda>s. s\<lparr>sm_model := Free (ThreadCount s) (th_sync (sm_threads s t)) p (sm_model s)\<rparr>)
        else ret ()) (\<lambda>_.
     ret True)))"

definition SysRandomNumber :: "tid \<Rightarrow> ('u, bool) sim" where
  "SysRandomNumber t =
     andThen (sched_number CRandomNumber) (\<lambda>v. andThen (reply_to t (ReplyNumber v)) (\<lambda>_. ret True))"

definition SysRandomChoice :: "tid \<Rightarrow> nat \<Rightarrow> ('u, bool) sim" where
  "SysRandomChoice t alts =
     andThen (check (0 < alts) ''alts == 0'') (\<lambda>_.
     if alts = 1 then andThen (reply_to t (ReplyIndex 0)) (\<lambda>_. ret True)
     else andThen (sched_index (CRandomChoice alts)) (\<lambda>i. andThen (reply_to t (ReplyIndex i)) (\<lambda>_. ret True)))"

definition SysSpuriousTryFailure :: "tid \<Rightarrow> ('u, bool) sim" where
  "SysSpuriousTryFailure t =
     andThen (sched_bool CSpuriousTryFailure) (\<lambda>b. andThen (reply_to t (ReplyBool b)) (\<lambda>_. ret True))"

definition SysWrite :: "int \<Rightarrow> string \<Rightarrow> ('u, bool) sim" where
  "SysWrite fd buf =
     (if fd = 1 then andThen (modify (\<lambda>s. s\<lparr>sm_stdout := sm_stdout s @ buf\<rparr>)) (\<lambda>_. ret True)
      else if fd = 2 then andThen (modify (\<lambda>s. s\<lparr>sm_stderr := sm_stderr s @ buf\<rparr>)) (\<lambda>_. ret True)
      else panic ''Cannot write to fd'')"

definition SysSetThreadAttrPreemptive :: "tid \<Rightarrow> bool \<Rightarrow> ('u, bool) sim" where
  "SysSetThreadAttrPreemptive t on =
     andThen (get_thread t th_attrs) (\<lambda>attrs.
     andThen (set_thread t (\<lambda>th. th\<lparr>th_attrs := attrs\<lparr>preemptive := on\<rparr>\<rparr>)) (\<lambda>_.
     andThen (reply_to t (ReplyBool (preemptive attrs))) (\<lambda>_.
     ret True)))"

definition SysSetThreadAttrLockFree :: "tid \<Rightarrow> bool \<Rightarrow> ('u, bool) sim" where
  "SysSetThreadAttrLockFree t on =
     andThen (get_thread t th_attrs) (\<lambda>attrs.
     andThen (set_thread t (\<lambda>th. th\<lparr>th_attrs := attrs\<lparr>lock_free := on\<rparr>\<rparr>)) (\<lambda>_.
     andThen (sched_do (CLockFree t on)) (\<lambda>_.
     andThen (reply_to t (ReplyBool (lock_free attrs))) (\<lambda>_.
     ret True))))"

definition SysSchedHintProgress :: "tid \<Rightarrow> ('u, bool) sim" where
  "SysSchedHintProgress t = andThen (sched_do (CProgress t)) (\<lambda>_. ret True)"

definition SysSchedHintNewIter :: "('u, bool) sim" where
  "SysSchedHintNewIter =
     andThen (modify (\<lambda>s. s\<lparr>sm_last_checkpoint := sm_iter s\<rparr>)) (\<lambda>_.
     andThen (sched_do CNewIter) (\<lambda>_. ret True))"

definition NextFiberId :: "('u, nat) sim" where
  "NextFiberId =
     andThen (modify (\<lambda>s. s\<lparr>sm_next_fiber_id := sm_next_fiber_id s + 1\<rparr>)) (\<lambda>_. get sm_next_fiber_id)"

definition SysThreadEnter :: "tid \<Rightarrow> ('u, bool) sim" where
  "SysThreadEnter t =
     andThen NextFiberId (\<lambda>i.
     andThen (modify (\<lambda>s. s\<lparr>sm_fibers := (sm_fibers s)(t := i)\<rparr>)) (\<lambda>_. ret True))"

definition SysThreadExit :: "tid \<Rightarrow> ('u, bool) sim" where
  "SysThreadExit t =
     andThen (sched_do (CExit t)) (\<lambda>_.
     andThen (get_thread t th_main) (\<lambda>main.
     andThen (DestroyThread t) (\<lambda>_.
     andThen (if main then MainCompleted else ret ()) (\<lambda>_.
     ret False))))"

definition SysRegisterFiber :: "tid \<Rightarrow> ('u, bool) sim" where
  "SysRegisterFiber t = andThen NextFiberId (\<lambda>i. andThen (reply_to t (ReplyFiber i)) (\<lambda>_. ret True))"

definition SysSwitchToFiber :: "tid \<Rightarrow> nat \<Rightarrow> ('u, bool) sim" where
  "SysSwitchToFiber t target =
     andThen (get (\<lambda>s. sm_fibers s t)) (\<lambda>from.
     andThen (check (from \<noteq> target) ''Invalid assist::SwitchToFiber: target fiber coincides with the current fiber'') (\<lambda>_.
     andThen (modify (\<lambda>s. s\<lparr>sm_fibers := (sm_fibers s)(t := target)\<rparr>)) (\<lambda>_.
     andThen (reply_to t (ReplyFiber from)) (\<lambda>_.
     ret True))))"

definition call_handler :: "tid \<Rightarrow> syscall \<Rightarrow> ('u, bool) sim" where
  "call_handler t c =
     (case c of
        Sys_Noop \<Rightarrow> ret True
      | Sys_Spawn r \<Rightarrow> SysSpawn t r
      | Sys_GetId \<Rightarrow> andThen (reply_to t (ReplyId t)) (\<lambda>_. ret True)
      | Sys_Detach u \<Rightarrow> SysDetach u
      | Sys_Yield \<Rightarrow> SysYield t
      | Sys_SwitchTo u \<Rightarrow> SysSwitchTo t u
      | Sys_SleepFor d \<Rightarrow> SysSleepFor t d
      | Sys_SleepUntil d \<Rightarrow> SysSleepUntil t d
      | Sys_Now \<Rightarrow> andThen (get (\<lambda>s. Now (sm_time s))) (\<lambda>now. andThen (reply_to t (ReplyTime now)) (\<lambda>_. ret True))
      | Sys_Sync a \<Rightarrow> SysSync t a
      | Sys_AccessNonAtomicVar a \<Rightarrow> SysAccessNonAtomicVar t a
      | Sys_FutexWait l old d ctx \<Rightarrow> SysFutexWait t l old d ctx
      | Sys_FutexWake l n \<Rightarrow> SysFutexWake t l n
      | Sys_Malloc p n \<Rightarrow> SysMalloc t p n
      | Sys_Free p \<Rightarrow> SysFree t p
      | Sys_RandomNumber \<Rightarrow> SysRandomNumber t
      | Sys_RandomChoice n \<Rightarrow> SysRandomChoice t n
      | Sys_SpuriousTryFailure \<Rightarrow> SysSpuriousTryFailure t
      | Sys_Write fd buf \<Rightarrow> SysWrite fd buf
      | Sys_Abort st \<Rightarrow> SysAbort st
      | Sys_SetPreemptive on \<Rightarrow> SysSetThreadAttrPreemptive t on
      | Sys_SetLockFree on \<Rightarrow> SysSetThreadAttrLockFree t on
      | Sys_SchedHintProgress \<Rightarrow> SysSchedHintProgress t
      | Sys_SchedHintNewIter \<Rightarrow> SysSchedHintNewIter
      | Sys_ThreadEnter \<Rightarrow> SysThreadEnter t
      | Sys_ThreadExit \<Rightarrow> SysThreadExit t
      | Sys_RegisterFiber \<Rightarrow> SysRegisterFiber t
      | Sys_SwitchToFiber i \<Rightarrow> SysSwitchToFiber t i)"

definition HandleSystemCall :: "tid \<Rightarrow> syscall \<Rightarrow> ('u, bool) sim" where
  "HandleSystemCall t c =
     andThen (call_handler t c) (\<lambda>resume.
     if resume then andThen (set_thread t (\<lambda>th. th\<lparr>th_status := StOk\<rparr>)) (\<lambda>_. ret True)
     else ret False)"

section \<open>Iterations\<close>

text \<open>The thread runs in user space to its next system call.\<close>

definition RunThread :: "tid \<Rightarrow> ('u, syscall) sim" where
  "RunThread t =
     andThen (set_thread t (\<lambda>th. th\<lparr>th_state := Running, th_runs := th_runs th + 1\<rparr>)) (\<lambda>_.
     andThen (modify (\<lambda>s. s\<lparr>sm_step_index := sm_step_index s + 1\<rparr>)) (\<lambda>_.
     andThen (get (\<lambda>s. u_run (sm_user s) t (th_status (sm_threads s t)) (th_load (sm_threads s t)) (sm_replies s t) (sm_memory s)))
       (\<lambda>(c, mem).
     andThen (modify (\<lambda>s. s\<lparr>sm_memory := mem, sm_replies := (sm_replies s)(t := NoReply)\<rparr>)) (\<lambda>_.
     ret c))))"

fun IsDigestableLoad :: "action_type \<Rightarrow> bool" where
  "IsDigestableLoad AtomicLoad = True"
| "IsDigestableLoad AtomicRmwLoad = True"
| "IsDigestableLoad _ = False"

definition DigestAtomicLoad :: "u64 \<Rightarrow> ('u, unit) sim" where
  "DigestAtomicLoad repr =
     modify (\<lambda>s. if sm_digest_atomic_loads s then s\<lparr>sm_digest := digest_Load repr (sm_digest s)\<rparr> else s)"

definition sim_Sync :: "tid \<Rightarrow> action \<Rightarrow> ('u, u64) sim" where
  "sim_Sync t action =
     andThen (get (\<lambda>s. Sync (ThreadCount s) t (th_sync (sm_threads s t)) action (sm_model s))) (\<lambda>r.
     andThen (lift r) (\<lambda>(v, c, m, action1).
     andThen (set_thread t (\<lambda>th. th\<lparr>th_sync := c\<rparr>)) (\<lambda>_.
     andThen (modify (\<lambda>s. s\<lparr>sm_model := m\<rparr>)) (\<lambda>_.
     andThen (if IsDigestableLoad (act_type action) then DigestAtomicLoad v else ret ()) (\<lambda>_.
     ret v)))))"

definition CompleteSync :: "tid \<Rightarrow> ('u, unit) sim" where
  "CompleteSync t =
     andThen (get_thread t th_action) (\<lambda>action.
     andThen (set_thread t (\<lambda>th. th\<lparr>th_action := None\<rparr>)) (\<lambda>_.
     case action of
       None \<Rightarrow> ret ()
     | Some a \<Rightarrow> andThen (sim_Sync t a) (\<lambda>v. set_thread t (\<lambda>th. th\<lparr>th_load := v\<rparr>))))"

text \<open>The thread is resumed as long as the handlers say so, at most \<open>n\<close> times.\<close>

primrec run_slice :: "nat \<Rightarrow> tid \<Rightarrow> ('u, unit) sim" where
  "run_slice 0 t = no_return"
| "run_slice (Suc n) t =
     andThen (RunThread t) (\<lambda>c.
     andThen (HandleSystemCall t c) (\<lambda>resume.
     if resume then run_slice n t else ret ()))"

definition IterThread :: "nat \<Rightarrow> tid \<Rightarrow> ('u, unit) sim" where
  "IterThread n t =
     andThen (modify (\<lambda>s. s\<lparr>sm_digest := digest_Iter t (sm_digest s)\<rparr>)) (\<lambda>_.
     andThen (CompleteSync t) (\<lambda>_.
     run_slice n t))"

section \<open>Deadlocks\<close>

definition IsDeadlock :: "('u, bool) sim" where
  "IsDeadlock =
     andThen run_queue_idle (\<lambda>idle.
     get (\<lambda>s. idle \<and> queue_IsEmpty (sm_timer_queue s) \<and> sm_alive s \<noteq> []))"

text \<open>A parked thread is resumed to report where it is blocked, and never again; the report is left out.\<close>

definition ReportDeadlock :: "('u, unit) sim" where
  "ReportDeadlock =
     andThen (get sm_alive) (\<lambda>alive.
     for_each alive (\<lambda>t.
       andThen (get_thread t th_state) (\<lambda>state.
       if state = Parked then set_thread t (\<lambda>th. th\<lparr>th_state := Deadlocked\<rparr>)
       else if state = LfSuspended then ret () else no_return)))"

definition CheckDeadlock :: "('u, unit) sim" where
  "CheckDeadlock =
     andThen IsDeadlock (\<lambda>deadlock.
     if deadlock then
       andThen (get (\<lambda>s. \<forall>t \<in> set (sm_alive s). th_state (sm_threads s t) = Parked \<or> th_state (sm_threads s t) = LfSuspended)) (\<lambda>ok.
       andThen (check ok ''Internal error'') (\<lambda>_.
       andThen ReportDeadlock (\<lambda>_.
       SysAbort Deadlock)))
     else ret ())"

section \<open>The loop\<close>

definition Maintenance :: "('u, unit) sim" where
  "Maintenance =
     andThen (get (\<lambda>s. queue_IsEmpty (sm_timer_queue s))) (\<lambda>none.
     andThen (if none then ret () else andThen PollTimers (\<lambda>_. ret ())) (\<lambda>_.
     andThen IsDeadlock (\<lambda>_. ret ())))"

definition Iter :: "nat \<Rightarrow> ('u, unit) sim" where
  "Iter n =
     andThen (modify (\<lambda>s. s\<lparr>sm_iter := sm_iter s + 1\<rparr>)) (\<lambda>_.
     andThen (modify (\<lambda>s. s\<lparr>sm_time := (sm_time s)\<lparr>ticker_of := Tick 1 (ticker_of (sm_time s))\<rparr>\<rparr>)) (\<lambda>_.
     andThen (get (\<lambda>s. sm_iter s mod 8 = 0)) (\<lambda>maintain.
     andThen (if maintain then Maintenance else ret ()) (\<lambda>_.
     andThen (get (\<lambda>s. of_nat (NowTicks (sm_time s)))) (\<lambda>now.
     andThen (sched_thread (CPickNext now)) (\<lambda>next.
     IterThread n next))))))"

definition Idle :: "('u, bool) sim" where
  "Idle =
     andThen CheckDeadlock (\<lambda>_.
     andThen (get (\<lambda>s. queue_IsEmpty (sm_timer_queue s))) (\<lambda>none.
     if none then ret False
     else
       andThen PollTimers (\<lambda>progress.
       if progress then ret True
       else
         andThen (get sm_timer_queue) (\<lambda>q.
         andThen (lift_msg (NextDeadLine q)) (\<lambda>until.
         andThen (get (\<lambda>s. AdvanceTo until (sm_time s))) (\<lambda>r.
         andThen (lift_msg r) (\<lambda>tm.
         andThen (modify (\<lambda>s. s\<lparr>sm_time := tm\<rparr>)) (\<lambda>_.
         andThen PollTimers (\<lambda>_.
         ret True)))))))))"

text \<open>
  The two nested loops of \<open>RunLoop\<close>: iterations while there is a thread to run and a budget, then
  \<open>Idle\<close>. The first argument bounds the turns of both together.
\<close>

primrec run_loop :: "nat \<Rightarrow> nat \<Rightarrow> ('u, unit) sim" where
  "run_loop 0 budget = no_return"
| "run_loop (Suc n) budget =
     andThen run_queue_idle (\<lambda>idle.
     if \<not> idle \<and> 0 < budget then andThen (Iter n) (\<lambda>_. run_loop n (budget - 1))
     else if 0 < budget then andThen Idle (\<lambda>again. if again then run_loop n budget else ret ())
     else ret ())"

definition RunLoop :: "nat \<Rightarrow> nat \<Rightarrow> ('u, unit) sim" where
  "RunLoop n budget =
     andThen (get sm_done) (\<lambda>finished.
     if finished then ret () else try_catch (run_loop n budget) Burn)"

definition StopLoop :: "('u, unit) sim" where
  "StopLoop =
     andThen run_queue_idle (\<lambda>idle.
     andThen (check idle ''Broken scheduler'') (\<lambda>_.
     andThen (get (\<lambda>s. queue_IsEmpty (sm_timer_queue s))) (\<lambda>none.
     andThen (check none ''Broken scheduler'') (\<lambda>_.
     andThen (modify (\<lambda>s. s\<lparr>sm_done := True\<rparr>)) (\<lambda>_.
     andThen reset_model (\<lambda>_.
     andThen (get sm_futex) (\<lambda>fs.
     andThen (for_each fs (\<lambda>(fk, w). wait_queue_destroy w)) (\<lambda>_.
     modify (\<lambda>s. s\<lparr>sm_futex := []\<rparr>)))))))))"

section \<open>Runs\<close>

definition SpawnMainThread :: "nat \<Rightarrow> ('u, unit) sim" where
  "SpawnMainThread main =
     andThen (CreateThread main) (\<lambda>t.
     andThen (set_thread t (\<lambda>th. th\<lparr>th_main := True\<rparr>)) (\<lambda>_.
     sched_do (CSpawn t)))"

definition UnlimitedIterBudget :: nat where
  "UnlimitedIterBudget = 2 ^ 64 - 1"

definition DeterministicMemory :: "'u user \<Rightarrow> bool" where
  "DeterministicMemory u = u_fixed_mapping u"

definition DigestAtomicLoads :: "'u user \<Rightarrow> params \<Rightarrow> bool" where
  "DigestAtomicLoads u p \<longleftrightarrow> p_digest_atomic_loads p \<or> p_allow_digest_atomic_loads p \<and> DeterministicMemory u"

text \<open>A simulator after \<open>Init\<close>, with user code and parameters.\<close>

definition Init :: "'u user \<Rightarrow> params \<Rightarrow> 'u simulator" where
  "Init u p = \<lparr>sm_params = p, sm_user = u, sm_memory = u_init u p,
     sm_time = \<lparr>ticker_of = \<lparr>ticks = 0\<rparr>, tick = p_tick p\<rparr>, sm_ids = \<lparr>next_tid = 0\<rparr>,
     sm_digest = digest_Reset \<lparr>dig = 0\<rparr>, sm_digest_atomic_loads = DigestAtomicLoads u p,
     sm_alive = [], sm_threads = no_threads, sm_replies = (\<lambda>_. NoReply), sm_fibers = (\<lambda>_. 0), sm_burnt_threads = 0,
     sm_iter = 0, sm_last_checkpoint = 0,
     sm_model = \<lparr>atomics = Map.empty, non_atomics = Map.empty, allocs = Map.empty\<rparr>, sm_futex = [],
     sm_next_fiber_id = 0,
     sm_timer_queue = empty_queue (\<lambda>_. \<lparr>tm_when = 0, loc = 0, timer_id = 0\<rparr>),
     sm_alarm = (\<lambda>_. WakeSleepTimer), sm_step_index = 0, sm_done = False, sm_stdout = [], sm_stderr = [],
     sm_status = None, sm_futex_wait_count = 0, sm_futex_wake_count = 0, sm_yield_count = 0, sm_thread_count = 0,
     sm_alloc_count = 0, sm_free_count = 0\<rparr>"

text \<open>\<open>Run\<close> without the result: the outcome is the final state of the simulator.\<close>

definition Run :: "nat \<Rightarrow> ('u, unit) sim" where
  "Run n =
     andThen (SpawnMainThread 0) (\<lambda>_.
     andThen (RunLoop n UnlimitedIterBudget) (\<lambda>_.
     StopLoop))"

text \<open>\<open>Start\<close>, \<open>RunFor\<close> and \<open>Burn\<close>, as the determinism check uses them.\<close>

definition RunFor :: "nat \<Rightarrow> nat \<Rightarrow> ('u, unit) sim" where
  "RunFor n iters =
     andThen (SpawnMainThread 0) (\<lambda>_.
     andThen (RunLoop n iters) (\<lambda>_.
     Burn))"

text \<open>The client of the scheduler, and the result of its outcome.\<close>

definition client_of :: "('u, unit) sim \<Rightarrow> 'u simulator \<Rightarrow> 'u simulator client" where
  "client_of m s = m s (\<lambda>_ s1. Ret s1) (\<lambda>s1. Die (Panic ''uncaught exception''))"

definition make_result :: "'u simulator \<Rightarrow> result" where
  "make_result s = \<lparr>res_status = the (sm_status s), res_threads = sm_thread_count s,
     res_iters = sm_iter s, res_digest = Digest (sm_digest s)\<rparr>"

definition simulation :: "nat \<Rightarrow> 'u user \<Rightarrow> params \<Rightarrow> result client" where
  "simulation n u p = map_client make_result (client_of (Run n) (Init u p))"

end
