(* ===== verification/Decision_Tree.thy ===== *)
theory Decision_Tree
  imports Prelude Dfs_Scheduler
begin

text \<open>
  The decision tree of a deterministic computation that asks the depth-first scheduler: a leaf is
  an outcome, a fork a call of \<open>Choose\<close> with its kind and number of alternatives. \<open>walk\<close> is what
  \<open>Choose\<close> makes of the tree with a schedule and a position in it. The lemmas relate a run from a
  schedule, and \<open>Backtrack\<close> after it, to the leaves of the tree in lexicographic order: a run with a
  schedule that fits the tree visits the first leaf at or after it, and backtracking gives the
  schedule of the leaves that remain.
\<close>

datatype 'a dtree = Leaf 'a | Fork branch_type nat "nat \<Rightarrow> 'a dtree"

primrec leaves :: "'a dtree \<Rightarrow> 'a list" where
  "leaves (Leaf a) = [a]"
| "leaves (Fork ty n k) = concat (map (\<lambda>i. leaves (k i)) [0..<n])"

primrec forks_ok :: "'a dtree \<Rightarrow> bool" where
  "forks_ok (Leaf a) = True"
| "forks_ok (Fork ty n k) = (0 < n \<and> (\<forall>i. forks_ok (k i)))"

primrec walk :: "'a dtree \<Rightarrow> branch list \<Rightarrow> nat \<Rightarrow> fault + 'a \<times> branch list \<times> nat" where
  "walk (Leaf a) sch i = Inr (a, sch, i)"
| "walk (Fork ty n k) sch i =
     (if i < length sch
      then if br_type (sch ! i) = ty then walk (k (index (sch ! i))) sch (i + 1)
           else Inl (Panic ''Unexpected branch type'')
      else walk (k 0) (sch @ [\<lparr>br_type = ty, alts = n, index = 0\<rparr>]) (i + 1))"

section \<open>A run along a schedule\<close>

text \<open>\<open>fits t bs\<close>: the schedule is one of the tree, as far as it goes; \<open>full t bs\<close>: to a leaf.\<close>

primrec fits :: "'a dtree \<Rightarrow> branch list \<Rightarrow> bool" where
  "fits (Leaf a) bs = (bs = [])"
| "fits (Fork ty n k) bs = (case bs of [] \<Rightarrow> True
     | b # bs' \<Rightarrow> br_type b = ty \<and> alts b = n \<and> index b < n \<and> fits (k (index b)) bs')"

primrec full :: "'a dtree \<Rightarrow> branch list \<Rightarrow> bool" where
  "full (Leaf a) bs = (bs = [])"
| "full (Fork ty n k) bs = (case bs of [] \<Rightarrow> False
     | b # bs' \<Rightarrow> br_type b = ty \<and> alts b = n \<and> index b < n \<and> full (k (index b)) bs')"

text \<open>The leaf a run rest_at the schedule reaches and its path.\<close>

primrec visit :: "'a dtree \<Rightarrow> branch list \<Rightarrow> 'a \<times> branch list" where
  "visit (Leaf a) bs = (a, [])"
| "visit (Fork ty n k) bs = (case bs of
       [] \<Rightarrow> (let (a, p) = visit (k 0) [] in (a, \<lparr>br_type = ty, alts = n, index = 0\<rparr> # p))
     | b # bs' \<Rightarrow> (let (a, p) = visit (k (index b)) bs' in (a, b # p)))"

lemma full_fits: "full t bs \<Longrightarrow> fits t bs"
  by (induction t arbitrary: bs) (auto split: list.splits)

lemma fits_Nil [simp]: "fits t []"
  by (cases t) auto

lemma visit_ok:
  "forks_ok t \<Longrightarrow> fits t bs \<Longrightarrow> visit t bs = (a, p) \<Longrightarrow> full t p \<and> visit t p = (a, p)"
proof (induction t arbitrary: bs p)
  case (Fork ty n k)
  show ?case
  proof (cases bs)
    case Nil
    obtain q where q: "visit (k 0) [] = (a, q)" "p = \<lparr>br_type = ty, alts = n, index = 0\<rparr> # q"
      using Fork.prems(3) Nil by (auto split: prod.splits)
    then show ?thesis using Fork.IH [of "k 0" "[]" q] Fork.prems(1) by simp
  next
    case (Cons b bs')
    obtain q where q: "visit (k (index b)) bs' = (a, q)" "p = b # q"
      using Fork.prems(3) Cons by (auto split: prod.splits)
    then show ?thesis using Fork.IH [of "k (index b)" bs' q] Fork.prems(1,2) Cons by simp
  qed
qed simp

lemma walk_visit:
  "fits t (drop i sch) \<Longrightarrow> i \<le> length sch \<Longrightarrow> visit t (drop i sch) = (a, p) \<Longrightarrow>
     walk t sch i = Inr (a, take i sch @ p, i + length p)"
proof (induction t arbitrary: sch i p)
  case (Leaf x)
  then show ?case by auto
next
  case (Fork ty n k)
  show ?case
  proof (cases "i < length sch")
    case True
    let ?b = "sch ! i"
    have d: "drop i sch = ?b # drop (Suc i) sch" using True by (simp add: Cons_nth_drop_Suc)
    obtain q where q: "visit (k (index ?b)) (drop (Suc i) sch) = (a, q)" "p = ?b # q"
      using Fork.prems(3) d by (auto split: prod.splits)
    have "walk (k (index ?b)) sch (Suc i) = Inr (a, take (Suc i) sch @ q, Suc i + length q)"
      using Fork.IH [of "k (index ?b)" "Suc i" sch q] Fork.prems(1) d True q(1) by auto
    then show ?thesis using True q(2) Fork.prems(1) d by (simp add: take_Suc_conv_app_nth)
  next
    case False
    then have i: "i = length sch" using Fork.prems(2) by simp
    let ?b = "\<lparr>br_type = ty, alts = n, index = 0\<rparr>"
    obtain q where q: "visit (k 0) [] = (a, q)" "p = ?b # q" using Fork.prems(3) i by (auto split: prod.splits)
    have "walk (k 0) (sch @ [?b]) (Suc i) = Inr (a, take (Suc i) (sch @ [?b]) @ q, Suc i + length q)"
      using Fork.IH [of "k 0" "Suc i" "sch @ [?b]" q] q(1) i by simp
    then show ?thesis using i q(2) by simp
  qed
qed

section \<open>The leaves that remain\<close>

text \<open>Leaves at or after a schedule that fits, and after a full one.\<close>

primrec rest_at :: "'a dtree \<Rightarrow> branch list \<Rightarrow> 'a list" where
  "rest_at (Leaf a) bs = [a]"
| "rest_at (Fork ty n k) bs = (case bs of
       [] \<Rightarrow> concat (map (\<lambda>i. leaves (k i)) [0..<n])
     | b # bs' \<Rightarrow> rest_at (k (index b)) bs' @ concat (map (\<lambda>i. leaves (k i)) [index b + 1..<n]))"

primrec rest_after :: "'a dtree \<Rightarrow> branch list \<Rightarrow> 'a list" where
  "rest_after (Leaf a) bs = []"
| "rest_after (Fork ty n k) bs = (case bs of
       [] \<Rightarrow> []
     | b # bs' \<Rightarrow> rest_after (k (index b)) bs' @ concat (map (\<lambda>i. leaves (k i)) [index b + 1..<n]))"

lemma rest_at_Nil [simp]: "rest_at t [] = leaves t"
  by (cases t) auto

lemma rest_at_visit:
  "forks_ok t \<Longrightarrow> fits t bs \<Longrightarrow> visit t bs = (a, p) \<Longrightarrow> rest_at t bs = a # rest_after t p"
proof (induction t arbitrary: bs p)
  case (Fork ty n k)
  show ?case
  proof (cases bs)
    case Nil
    obtain q where q: "visit (k 0) [] = (a, q)" "p = \<lparr>br_type = ty, alts = n, index = 0\<rparr> # q"
      using Fork.prems(3) Nil by (auto split: prod.splits)
    have "leaves (k 0) = a # rest_after (k 0) q"
      using Fork.IH [of "k 0" "[]" q] Fork.prems(1) q(1) by simp
    moreover have "[0..<n] = 0 # [1..<n]" using Fork.prems(1) by (simp add: upt_conv_Cons)
    ultimately show ?thesis using Nil q(2) by simp
  next
    case (Cons b bs')
    obtain q where q: "visit (k (index b)) bs' = (a, q)" "p = b # q"
      using Fork.prems(3) Cons by (auto split: prod.splits)
    have "rest_at (k (index b)) bs' = a # rest_after (k (index b)) q"
      using Fork.IH [of "k (index b)" bs' q] Fork.prems(1,2) q(1) Cons by simp
    then show ?thesis using Cons q(2) by simp
  qed
qed simp

text \<open>Backtracking from the front.\<close>

lemma Backtrack_Nil [simp]: "Backtrack [] = (False, [])"
  by (subst Backtrack.simps) simp

lemma Backtrack_snoc:
  "Backtrack (bs @ [l]) = (if index l + 1 = alts l then Backtrack bs else (True, bs @ [l\<lparr>index := index l + 1\<rparr>]))"
  by (subst Backtrack.simps) (simp add: Let_def)

lemma Backtrack_Cons:
  "Backtrack (b # bs) = (case Backtrack bs of
       (True, bs') \<Rightarrow> (True, b # bs')
     | (False, _) \<Rightarrow> if index b + 1 = alts b then (False, []) else (True, [b\<lparr>index := index b + 1\<rparr>]))"
proof (induction bs rule: rev_induct)
  case Nil
  show ?case using Backtrack_snoc [of "[]" b] by simp
next
  case (snoc l bs)
  show ?case using snoc Backtrack_snoc [of bs l] Backtrack_snoc [of "b # bs" l] by simp
qed

lemma Backtrack_after:
  assumes "full t p"
  shows "case Backtrack p of
     (True, bs) \<Rightarrow> fits t bs \<and> rest_at t bs = rest_after t p | (False, _) \<Rightarrow> rest_after t p = []"
  using assms
proof (induction t arbitrary: p)
  case (Fork ty n k)
  obtain b q where p: "p = b # q" and b: "br_type b = ty" "alts b = n" "index b < n" "full (k (index b)) q"
    using Fork.prems by (cases p) auto
  note IH = Fork.IH [of "k (index b)" q, OF _ b(4)]
  show ?case
  proof (cases "Backtrack q")
    case (Pair again bs)
    show ?thesis
    proof (cases again)
      case True
      then show ?thesis using IH Pair p b by (simp add: Backtrack_Cons)
    next
      case False
      then have nil: "rest_after (k (index b)) q = []" using IH Pair by simp
      have u: "[index b + 1..<n] = (index b + 1) # [index b + 2..<n]" if "index b + 1 \<noteq> n"
        using that b(3) by (simp add: upt_conv_Cons)
      show ?thesis
      proof (cases "index b + 1 = n")
        case True
        then show ?thesis using False Pair p b nil by (auto simp: Backtrack_Cons)
      next
        case ne: False
        then have "Backtrack p = (True, [b\<lparr>index := index b + 1\<rparr>])"
          using False Pair p b(2) by (simp add: Backtrack_Cons)
        then show ?thesis using p b nil u [OF ne] ne by simp
      qed
    qed
  qed
qed simp

text \<open>One round of the exploration.\<close>

lemma explore_round:
  assumes "forks_ok t" and "fits t bs"
  shows "\<exists>a p. walk t bs 0 = Inr (a, p, length p) \<and> full t p \<and> visit t p = (a, p) \<and> rest_at t bs = a # rest_after t p \<and>
     (case Backtrack p of (True, bs') \<Rightarrow> fits t bs' \<and> rest_at t bs' = rest_after t p | (False, _) \<Rightarrow> rest_after t p = [])"
proof -
  obtain a p where v: "visit t bs = (a, p)" by fastforce
  note f = visit_ok [OF assms v]
  have "walk t bs 0 = Inr (a, p, length p)" using walk_visit [of t 0 bs a p] assms v by simp
  moreover note Backtrack_after [OF conjunct1 [OF f]]
  ultimately show ?thesis using f rest_at_visit [OF assms v]
    by (intro exI [of _ a] exI [of _ p]) (simp only: simp_thms)
qed

end
