(* ===== verification/Dfs_Decisions.thy ===== *)
theory Dfs_Decisions
  imports Prelude Sim_Types Scheduler Sched_Client Replay Dfs_Scheduler Decision_Tree
begin

text \<open>
  Under the depth-first scheduler a simulation is a walk of a decision tree: what any operation of
  the scheduler does, and so what a whole simulation does, depends on the schedule through
  \<open>Choose\<close> only. The tree depends on the simulation and on the rest of the scheduler's state, which
  \<open>Start\<close> resets; so every run of one exploration walks the same tree.
\<close>

section \<open>The schedule and the rest\<close>

definition plug :: "branch list \<Rightarrow> nat \<Rightarrow> dfs_sched \<Rightarrow> dfs_sched" where
  "plug sch i s = s\<lparr>ds_schedule := sch, ds_branch_index := i\<rparr>"

lemma plug_simps [simp]:
  "ds_params (plug sch i s) = ds_params s" "ds_run_queue (plug sch i s) = ds_run_queue s"
  "ds_active (plug sch i s) = ds_active s" "ds_preempts (plug sch i s) = ds_preempts s"
  "ds_steps (plug sch i s) = ds_steps s" "ds_queues (plug sch i s) = ds_queues s"
  "ds_wait (plug sch i s) = ds_wait s" "ds_schedule (plug sch i s) = sch"
  "ds_branch_index (plug sch i s) = i" "plug sch i (plug sch' i' s) = plug sch i s"
  by (simp_all add: plug_def)

lemma plug_update [simp]:
  "(plug sch i s)\<lparr>ds_run_queue := q\<rparr> = plug sch i (s\<lparr>ds_run_queue := q\<rparr>)"
  "(plug sch i s)\<lparr>ds_active := a\<rparr> = plug sch i (s\<lparr>ds_active := a\<rparr>)"
  "(plug sch i s)\<lparr>ds_preempts := m\<rparr> = plug sch i (s\<lparr>ds_preempts := m\<rparr>)"
  "(plug sch i s)\<lparr>ds_steps := m\<rparr> = plug sch i (s\<lparr>ds_steps := m\<rparr>)"
  "(plug sch i s)\<lparr>ds_queues := m\<rparr> = plug sch i (s\<lparr>ds_queues := m\<rparr>)"
  "(plug sch i s)\<lparr>ds_wait := w\<rparr> = plug sch i (s\<lparr>ds_wait := w\<rparr>)"
  "(plug sch i s)\<lparr>ds_schedule := sch'\<rparr> = plug sch' i s"
  "(plug sch i s)\<lparr>ds_branch_index := i'\<rparr> = plug sch i' s"
  by (cases s; simp add: plug_def)+

section \<open>Computations driven by a decision tree\<close>

definition finish :: "fault + (fault + 'a \<times> dfs_sched) \<times> branch list \<times> nat \<Rightarrow> fault + 'a \<times> dfs_sched" where
  "finish m = bindE m (\<lambda>(leaf, sch, i). bindE leaf (\<lambda>(a, c). Inr (a, plug sch i c)))"

definition drives :: "(fault + 'a \<times> dfs_sched) dtree \<Rightarrow> (dfs_sched \<Rightarrow> fault + 'a \<times> dfs_sched) \<Rightarrow> dfs_sched \<Rightarrow> bool" where
  "drives t f s \<longleftrightarrow> forks_ok t \<and> (\<forall>sch i. f (plug sch i s) = finish (walk t sch i))"

definition driven :: "(dfs_sched \<Rightarrow> fault + 'a \<times> dfs_sched) \<Rightarrow> dfs_sched \<Rightarrow> bool" where
  "driven f s \<longleftrightarrow> (\<exists>t. drives t f s)"

lemma finish_simps [simp]:
  "finish (Inl f) = Inl f" "finish (Inr (Inl f, sch, i)) = Inl f"
  "finish (Inr (Inr (a, c), sch, i)) = Inr (a, plug sch i c)"
  by (simp_all add: finish_def)

lemma driven_cong: "(\<And>sch i. f (plug sch i s) = g (plug sch i c)) \<Longrightarrow> driven g c \<Longrightarrow> driven f s"
  by (simp add: driven_def drives_def)

lemma driven_ret: "(\<And>sch i. f (plug sch i s) = Inr (a, plug sch i c)) \<Longrightarrow> driven f s"
  unfolding driven_def drives_def by (rule exI [of _ "Leaf (Inr (a, c))"]) simp

lemma driven_fail: "(\<And>sch i. f (plug sch i s) = Inl e) \<Longrightarrow> driven f s"
  unfolding driven_def drives_def by (rule exI [of _ "Leaf (Inl e)"]) simp

text \<open>A tree whose leaves are replaced by trees.\<close>

primrec graft :: "('a \<Rightarrow> 'b dtree) \<Rightarrow> 'a dtree \<Rightarrow> 'b dtree" where
  "graft h (Leaf a) = h a"
| "graft h (Fork ty n k) = Fork ty n (\<lambda>i. graft h (k i))"

lemma forks_ok_graft: "forks_ok t \<Longrightarrow> (\<And>a. forks_ok (h a)) \<Longrightarrow> forks_ok (graft h t)"
  by (induction t) auto

lemma walk_graft: "walk (graft h t) sch i = bindE (walk t sch i) (\<lambda>(a, sch1, i1). walk (h a) sch1 i1)"
  by (induction t arbitrary: sch i) auto

definition go_on :: "('a \<Rightarrow> dfs_sched \<Rightarrow> (fault + 'b \<times> dfs_sched) dtree) \<Rightarrow> fault + 'a \<times> dfs_sched \<Rightarrow>
    (fault + 'b \<times> dfs_sched) dtree" where
  "go_on u leaf = (case leaf of Inl e \<Rightarrow> Leaf (Inl e) | Inr (a, c) \<Rightarrow> u a c)"

lemma go_on_simps [simp]: "go_on u (Inl e) = Leaf (Inl e)" "go_on u (Inr (a, c)) = u a c"
  by (simp_all add: go_on_def)

lemma drives_bind:
  assumes t: "drives t f s" and u: "\<And>a c. drives (u a c) (g a) c"
  shows "drives (graft (go_on u) t) (\<lambda>s. bindE (f s) (\<lambda>(a, s1). g a s1)) s"
proof -
  have f: "f (plug sch i s) = finish (walk t sch i)" for sch i using t by (simp add: drives_def)
  have ok: "forks_ok (graft (go_on u) t)"
    by (rule forks_ok_graft) (use t u in \<open>auto simp: go_on_def drives_def split: sum.splits prod.splits\<close>)
  have "bindE (f (plug sch i s)) (\<lambda>(a, s1). g a s1) = finish (walk (graft (go_on u) t) sch i)" for sch i
  proof (cases "walk t sch i")
    case (Inl e)
    then show ?thesis by (simp add: f walk_graft)
  next
    case (Inr y)
    obtain leaf sch1 i1 where y: "y = (leaf, sch1, i1)" by (cases y)
    show ?thesis
    proof (cases leaf)
      case (Inl e)
      then show ?thesis using Inr y by (simp add: f walk_graft)
    next
      case lr: (Inr ac)
      obtain a c where ac: "ac = (a, c)" by (cases ac)
      have "g a (plug sch1 i1 c) = finish (walk (u a c) sch1 i1)" using u by (simp add: drives_def)
      then show ?thesis using Inr y lr ac by (simp add: f walk_graft)
    qed
  qed
  then show ?thesis unfolding drives_def using ok by blast
qed

lemma driven_bind:
  assumes f: "driven f s" and g: "\<And>a c. driven (g a) c"
  shows "driven (\<lambda>s. bindE (f s) (\<lambda>(a, s1). g a s1)) s"
proof -
  obtain t where t: "drives t f s" using f by (auto simp: driven_def)
  have "\<forall>a c. \<exists>u. drives u (g a) c" using g by (simp add: driven_def)
  then obtain u where u: "\<And>a c. drives (u a c) (g a) c" by metis
  show ?thesis unfolding driven_def using drives_bind [where g = g and u = u, OF t u] by blast
qed

section \<open>The operations of the scheduler\<close>

lemma Choose_driven: "0 < n \<Longrightarrow> driven (Choose n ty) s"
proof -
  assume n: "0 < n"
  let ?t = "Fork ty n (\<lambda>i. Leaf (Inr (i, s)))"
  have "Choose n ty (plug sch i s) = finish (walk ?t sch i)" for sch i
    by (simp add: Choose_def Let_def)
  then show ?thesis unfolding driven_def drives_def using n by (intro exI [of _ ?t]) simp
qed

text \<open>A choice, and then something that does not look at the schedule.\<close>


lemma Either_driven: "driven (Either ty) s"
  unfolding Either_def by (rule driven_bind [OF Choose_driven]) (auto intro: driven_ret)

text \<open>Results that are triples.\<close>

definition driven3 :: "(dfs_sched \<Rightarrow> fault + 'a \<times> 'b \<times> dfs_sched) \<Rightarrow> dfs_sched \<Rightarrow> bool" where
  "driven3 f s \<longleftrightarrow> driven (\<lambda>s. bindE (f s) (\<lambda>(a, b, c). Inr ((a, b), c))) s"

lemma driven3_bind:
  assumes "driven3 f s" and "\<And>a b c. driven (g a b) c"
  shows "driven (\<lambda>s. bindE (f s) (\<lambda>(a, b, s1). g a b s1)) s"
proof -
  have "driven (\<lambda>s. bindE (bindE (f s) (\<lambda>(a, b, c). Inr ((a, b), c))) (\<lambda>(ab, s1). g (fst ab) (snd ab) s1)) s"
    using assms by (intro driven_bind) (simp_all add: driven3_def)
  moreover have "bindE (bindE (f s) (\<lambda>(a, b, c). Inr ((a, b), c))) (\<lambda>(ab, s1). g (fst ab) (snd ab) s1)
      = bindE (f s) (\<lambda>(a, b, s1). g a b s1)" for s
    by (cases "f s") (auto split: prod.splits)
  ultimately show ?thesis by simp
qed

lemma driven3_bind3:
  assumes "driven3 f s" and "\<And>a b c. driven3 (g a b) c"
  shows "driven3 (\<lambda>s. bindE (f s) (\<lambda>(a, b, s1). g a b s1)) s"
proof -
  have "driven (\<lambda>s. bindE (f s) (\<lambda>(a, b, s1). bindE (g a b s1) (\<lambda>(a, b, c). Inr ((a, b), c)))) s"
    by (rule driven3_bind [OF assms(1)]) (use assms(2) in \<open>simp add: driven3_def\<close>)
  moreover have "bindE (bindE (f s) (\<lambda>(a, b, s1). g a b s1)) (\<lambda>(a, b, c). Inr ((a, b), c))
      = bindE (f s) (\<lambda>(a, b, s1). bindE (g a b s1) (\<lambda>(a, b, c). Inr ((a, b), c)))" for s
    by (cases "f s") auto
  ultimately show ?thesis by (simp add: driven3_def)
qed

lemma driven_bind3:
  assumes "driven f s" and "\<And>a c. driven3 (g a) c"
  shows "driven3 (\<lambda>s. bindE (f s) (\<lambda>(a, s1). g a s1)) s"
proof -
  have "driven (\<lambda>s. bindE (f s) (\<lambda>(a, s1). bindE (g a s1) (\<lambda>(a, b, c). Inr ((a, b), c)))) s"
    by (rule driven_bind [OF assms(1)]) (use assms(2) in \<open>simp add: driven3_def\<close>)
  moreover have "bindE (bindE (f s) (\<lambda>(a, s1). g a s1)) (\<lambda>(a, b, c). Inr ((a, b), c))
      = bindE (f s) (\<lambda>(a, s1). bindE (g a s1) (\<lambda>(a, b, c). Inr ((a, b), c)))" for s
    by (cases "f s") auto
  ultimately show ?thesis by (simp add: driven3_def)
qed

lemma driven3_ret: "(\<And>sch i. f (plug sch i s) = Inr (a, b, plug sch i c)) \<Longrightarrow> driven3 f s"
  unfolding driven3_def by (rule driven_ret) simp

lemma driven3_fail: "(\<And>sch i. f (plug sch i s) = Inl e) \<Longrightarrow> driven3 f s"
  unfolding driven3_def by (rule driven_fail) simp

lemma driven3_cong:
  assumes "\<And>sch i. f (plug sch i s) = g (plug sch i c)" and "driven3 g c"
  shows "driven3 f s"
  using assms(2) unfolding driven3_def by (rule driven_cong [rotated]) (simp add: assms(1))

lemma Pick_driven: "driven3 (Pick xs ty) s"
proof -
  consider "xs = []" | "length xs = 1" | "1 < length xs" by (cases xs) auto
  then show ?thesis
  proof cases
    case 1
    then show ?thesis by (intro driven3_ret) (simp add: Pick_def)
  next
    case 2
    then have "xs \<noteq> []" by auto
    then show ?thesis using 2
      by (intro driven3_ret [where a = "Some (fst (sl_Pop 0 xs))" and b = "snd (sl_Pop 0 xs)"])
        (simp add: Pick_def split: prod.splits)
  next
    case 3
    then have ne: "xs \<noteq> []" by auto
    have g: "driven3 (\<lambda>s1. if \<not> i < length xs then Inl (Panic ''index out of bounds'')
        else let (t, ys) = sl_Pop i xs in Inr (Some t, ys, s1)) c" for i c
      by (cases "i < length xs"; cases "sl_Pop i xs") (auto intro: driven3_fail driven3_ret)
    have "driven3 (\<lambda>s. bindE (Choose (length xs) ty s) (\<lambda>(i, s1).
        if \<not> i < length xs then Inl (Panic ''index out of bounds'')
        else let (t, ys) = sl_Pop i xs in Inr (Some t, ys, s1))) s"
      by (rule driven_bind3 [OF Choose_driven g]) (use ne in simp)
    then show ?thesis by (rule driven3_cong [rotated]) (use 3 ne in \<open>auto simp: Pick_def\<close>)
  qed
qed

lemma AddStep_plug:
  "AddStep r ths (plug sch i s) =
     (case AddStep r ths s of Inl e \<Rightarrow> Inl e | Inr (ths1, c) \<Rightarrow> Inr (ths1, plug sch i c))"
  by (auto simp: AddStep_def Prune_def Let_def split: option.splits)

lemma AddStep_driven: "driven (AddStep r ths) s"
proof (cases "AddStep r ths s")
  case (Inl e)
  then show ?thesis by (intro driven_fail) (simp add: AddStep_plug)
next
  case (Inr y)
  then show ?thesis by (cases y) (auto intro!: driven_ret simp: AddStep_plug)
qed

lemma dfs_Preempt_driven: "driven (dfs_Preempt t ths) s"
proof -
  let ?e = "preemptive (th_attrs (ths t)) \<and> ds_run_queue s \<noteq> [] \<and> \<not> ForcedPreempt t ths s \<and> \<not> MaxPreemptsReached s"
  have p: "ForcedPreempt t ths (plug sch i s) = ForcedPreempt t ths s" "MaxPreemptsReached (plug sch i s) = MaxPreemptsReached s"
    for sch i by (simp_all add: ForcedPreempt_def MaxPreemptsReached_def split: option.splits)
  show ?thesis
  proof (cases ?e)
    case True
    then show ?thesis by (intro driven_cong [OF _ Either_driven [of BPreempt]]) (simp add: dfs_Preempt_def p)
  next
    case False
    show ?thesis
    proof (cases "preemptive (th_attrs (ths t)) \<and> ds_run_queue s \<noteq> [] \<and> ForcedPreempt t ths s \<and> MaxPreemptsReached s")
      case True
      then show ?thesis by (intro driven_fail) (simp add: dfs_Preempt_def p Prune_def)
    next
      case nf: False
      show ?thesis by (rule driven_ret [where a = "preemptive (th_attrs (ths t)) \<and> ds_run_queue s \<noteq> [] \<and> ForcedPreempt t ths s"])
          (use False nf in \<open>auto simp: dfs_Preempt_def p\<close>)
    qed
  qed
qed

lemma dfs_pick_driven: "driven3 (dfs_pick p ths) s"
proof -
  let ?g = "\<lambda>next q s1. let s2 = s1\<lparr>ds_run_queue := q\<rparr>;
         s3 = (case p of None \<Rightarrow> s2
               | Some t \<Rightarrow> s2\<lparr>ds_preempts := ds_preempts s2 + 1, ds_run_queue := sl_Push t (ds_run_queue s2)\<rparr>)
     in case next of
          None \<Rightarrow> Inl (Panic ''null thread'')
        | Some t \<Rightarrow> Inr (t, ResetSteps t ths, s3)"
  have "driven3 (?g next q) c" for "next" q c
  proof (cases "next")
    case None
    then show ?thesis by (intro driven3_fail) (simp add: Let_def)
  next
    case (Some t)
    then show ?thesis by (cases p) (auto simp: Let_def intro!: driven3_ret)
  qed
  then have "driven3 (\<lambda>s. bindE (Pick xs BPickNext s) (\<lambda>(next, q, s1). ?g next q s1)) s" for xs
    by (rule driven3_bind3 [OF Pick_driven])
  from this [of "ds_run_queue s"] show ?thesis
    by (rule driven3_cong [rotated]) (simp add: dfs_pick_def)
qed

lemma dfs_PickNext_driven: "driven3 (dfs_PickNext now ths0) s"
proof -
  let ?k = "\<lambda>active ths s. case active of
           None \<Rightarrow> dfs_pick None ths s
         | Some t \<Rightarrow> bindE (dfs_Preempt t ths s) (\<lambda>(p, s1).
             if p then dfs_pick (Some t) ths s1 else Inr (t, ths, s1))"
  have "driven3 (?k active ths) c" for active ths c
  proof (cases active)
    case None
    then show ?thesis using dfs_pick_driven by simp
  next
    case (Some t)
    have "driven3 (\<lambda>s1. if p then dfs_pick (Some t) ths s1 else Inr (t, ths, s1)) c" for p c
      using dfs_pick_driven by (cases p) (auto intro: driven3_ret)
    then have "driven3 (\<lambda>s. bindE (dfs_Preempt t ths s) (\<lambda>(p, s1).
             if p then dfs_pick (Some t) ths s1 else Inr (t, ths, s1))) c" by (rule driven_bind3 [OF dfs_Preempt_driven])
    then show ?thesis using Some by simp
  qed
  then have "driven3 (\<lambda>s. bindE (AddStep a ths0 s) (\<lambda>(ths, s1). ?k a ths s1)) c" for a c
    by (rule driven_bind3 [OF AddStep_driven])
  from this [of "ds_active s" "s\<lparr>ds_active := None\<rparr>"] show ?thesis
    by (rule driven3_cong [rotated]) (simp add: dfs_PickNext_def Let_def)
qed

section \<open>Calls\<close>

text \<open>A call that does not look at the schedule.\<close>

definition plug_result ::
  "branch list \<Rightarrow> nat \<Rightarrow> fault + 'a \<times> 'b \<times> dfs_sched \<Rightarrow> fault + 'a \<times> 'b \<times> dfs_sched" where
  "plug_result sch i m = bindE m (\<lambda>(a, b, c). Inr (a, b, plug sch i c))"

lemma plug_result_simps [simp]:
  "plug_result sch i (Inl e) = Inl e" "plug_result sch i (Inr (a, b, c)) = Inr (a, b, plug sch i c)"
  by (simp_all add: plug_result_def)

lemma driven3_pure:
  assumes "\<And>sch i. f (plug sch i s) = plug_result sch i (f s)"
  shows "driven3 f s"
proof (cases "f s")
  case (Inl e)
  then show ?thesis using assms by (intro driven3_fail) simp
next
  case (Inr y)
  then show ?thesis using assms by (cases y) (auto intro: driven3_ret)
qed

lemma PickWaiter_driven: "driven (PickWaiter q) s"
proof -
  have "driven (\<lambda>s1. Inr (r, s1\<lparr>ds_wait := (ds_wait s1)(q := ys)\<rparr>)) c" for r ys c by (rule driven_ret) simp
  then have "driven (\<lambda>s. bindE (Pick xs BWakeOne s) (\<lambda>(r, ys, s1). Inr (r, s1\<lparr>ds_wait := (ds_wait s1)(q := ys)\<rparr>))) s" for xs
    by (rule driven3_bind [OF Pick_driven])
  from this [of "ds_wait s q"] show ?thesis by (rule driven_cong [rotated]) (simp add: PickWaiter_def)
qed

lemma driven_map:
  assumes "driven f s"
  shows "driven3 (\<lambda>s. bindE (f s) (\<lambda>(a, s1). Inr (g a, ths, s1))) s"
  by (rule driven_bind3 [OF assms]) (rule driven3_ret, simp)

lemma invoke_driven:
  assumes "\<forall>n. c = CRandomChoice n \<longrightarrow> 0 < n"
  shows "driven3 (invoke dfs_ops c ths) s"
proof (cases c)
  case (CExit t)
  have "driven3 (\<lambda>s1. Inr (RNone, a, s1)) c" for a c by (rule driven3_ret) simp
  then have "driven3 (\<lambda>s. bindE (AddStep (Some t) ths s) (\<lambda>(a, s1). Inr (RNone, a, s1))) s"
    by (rule driven_bind3 [OF AddStep_driven])
  then show ?thesis by (rule driven3_cong [rotated]) (simp add: CExit dfs_ops_def dfs_Exit_def quiet_def)
next
  case (CPickNext now)
  have "driven3 (\<lambda>s1. Inr (RThread t, a, s1)) c" for t a c by (rule driven3_ret) simp
  then have "driven3 (\<lambda>s. bindE (dfs_PickNext now ths s) (\<lambda>(t, a, s1). Inr (RThread t, a, s1))) s"
    by (rule driven3_bind3 [OF dfs_PickNext_driven])
  then show ?thesis by (rule driven3_cong [rotated]) (simp add: CPickNext dfs_ops_def)
next
  case (CPop q)
  show ?thesis
  proof (cases "dp_wake_order (ds_params s)")
    case True
    have "driven3 (\<lambda>s. bindE (PickWaiter q s) (\<lambda>(w, s1). Inr (RWaiter w, ths, s1))) s"
      by (rule driven_map [OF PickWaiter_driven])
    then show ?thesis by (rule driven3_cong [rotated]) (use True in \<open>simp add: CPop dfs_ops_def dfs_wq_Pop_def\<close>)
  next
    case False
    then show ?thesis
      by (intro driven3_pure) (auto simp: CPop dfs_ops_def dfs_wq_Pop_def fifo_Pop_def split: prod.splits)
  qed
next
  case (CRandomChoice n)
  then have "driven3 (\<lambda>s. bindE (Choose n BRandomChoice s) (\<lambda>(w, s1). Inr (RIndex w, ths, s1))) s"
    using assms by (intro driven_map Choose_driven) simp
  then show ?thesis by (rule driven3_cong [rotated]) (simp add: CRandomChoice dfs_ops_def dfs_RandomChoice_def)
next
  case CSpuriousWakeup
  show ?thesis
  proof (cases "dp_spurious_wakeups (ds_params s)")
    case True
    have "driven3 (\<lambda>s. bindE (Either BSpuriousWakeup s) (\<lambda>(w, s1). Inr (RBool w, ths, s1))) s"
      by (rule driven_map [OF Either_driven])
    then show ?thesis
      by (rule driven3_cong [rotated]) (use True in \<open>simp add: CSpuriousWakeup dfs_ops_def dfs_SpuriousWakeup_def\<close>)
  next
    case False
    then show ?thesis by (intro driven3_pure) (simp add: CSpuriousWakeup dfs_ops_def dfs_SpuriousWakeup_def)
  qed
next
  case CSpuriousTryFailure
  show ?thesis
  proof (cases "dp_spurious_failures (ds_params s)")
    case True
    have "driven3 (\<lambda>s. bindE (Either BSpuriousTryFailure s) (\<lambda>(w, s1). Inr (RBool w, ths, s1))) s"
      by (rule driven_map [OF Either_driven])
    then show ?thesis
      by (rule driven3_cong [rotated]) (use True in \<open>simp add: CSpuriousTryFailure dfs_ops_def dfs_SpuriousTryFailure_def\<close>)
  next
    case False
    then show ?thesis by (intro driven3_pure) (simp add: CSpuriousTryFailure dfs_ops_def dfs_SpuriousTryFailure_def)
  qed
qed (auto intro!: driven3_pure simp: dfs_ops_def quiet_def dfs_Interrupt_def dfs_SwitchTo_def dfs_Yield_def
    dfs_Wake_def dfs_Spawn_def dfs_push_def dfs_LockFree_def dfs_Progress_def dfs_NewIter_def dfs_Remove_def
    dfs_NewWaitQueue_def dfs_wq_Push_def dfs_wq_PopAll_def fifo_Pop_def dfs_wq_Remove_def dfs_RandomNumber_def
    PushBack_def Let_def split: prod.splits)

text \<open>Whether a call is pruned does not depend on the schedule.\<close>

lemma abort_plug:
  "invoke dfs_ops c ths (plug sch i s) = Inl (SysAbortEx st) \<longleftrightarrow> invoke dfs_ops c ths s = Inl (SysAbortEx st)"
proof (cases c)
  case (CPickNext now)
  have p: "ForcedPreempt t ths (plug sch i s) = ForcedPreempt t ths s" "MaxPreemptsReached (plug sch i s) = MaxPreemptsReached s"
    for t ths sch i s by (simp_all add: ForcedPreempt_def MaxPreemptsReached_def split: option.splits)
  have q: "dfs_Preempt t ths1 (plug sch i c) = Inl (SysAbortEx st) \<longleftrightarrow> dfs_Preempt t ths1 c = Inl (SysAbortEx st)"
    for t ths1 c by (simp add: dfs_Preempt_def p Prune_def)
  have e: "dfs_PickNext now ths s = Inl (SysAbortEx st) \<longleftrightarrow>
      AddStep (ds_active s) ths (s\<lparr>ds_active := None\<rparr>) = Inl (SysAbortEx st) \<or>
      (\<exists>t ths1 c. ds_active s = Some t \<and> AddStep (ds_active s) ths (s\<lparr>ds_active := None\<rparr>) = Inr (ths1, c) \<and>
         dfs_Preempt t ths1 c = Inl (SysAbortEx st))" for s
    by (cases "ds_active s") (auto simp: dfs_PickNext_def Let_def bindE_eq_Inl)
  have a: "AddStep r ths (plug sch i c) = Inl (SysAbortEx st) \<longleftrightarrow> AddStep r ths c = Inl (SysAbortEx st)" for r c
    by (auto simp: AddStep_plug split: sum.splits)
  have b: "AddStep r ths (plug sch i c) = Inr (ths1, c1) \<longleftrightarrow> (\<exists>c2. AddStep r ths c = Inr (ths1, c2) \<and> c1 = plug sch i c2)" for r c ths1 c1
    by (auto simp: AddStep_plug split: sum.splits)
  have "dfs_PickNext now ths (plug sch i s) = Inl (SysAbortEx st) \<longleftrightarrow> dfs_PickNext now ths s = Inl (SysAbortEx st)"
    unfolding e by (auto simp: a b q)
  then show ?thesis using CPickNext by (simp add: dfs_ops_def bindE_eq_Inl split: prod.splits)
next
  case (CExit t)
  then show ?thesis by (auto simp: dfs_ops_def dfs_Exit_def quiet_def AddStep_plug bindE_eq_Inl split: sum.splits)
qed (auto simp: dfs_ops_def quiet_def dfs_Interrupt_def dfs_SwitchTo_def dfs_Yield_def dfs_Wake_def
    dfs_Spawn_def dfs_LockFree_def dfs_Progress_def dfs_NewIter_def dfs_wq_Push_def PushBack_def dfs_wq_Pop_def
    PickWaiter_def dfs_wq_PopAll_def dfs_RandomNumber_def dfs_RandomChoice_def dfs_SpuriousWakeup_def
    dfs_SpuriousTryFailure_def bindE_eq_Inl Let_def split: if_splits prod.splits)

section \<open>Simulations\<close>

text \<open>A client that asks for a random choice has alternatives.\<close>

primrec choices_ok :: "'r client \<Rightarrow> bool" where
  "choices_ok (Ret r) = True"
| "choices_ok (Die f) = True"
| "choices_ok (Call c ths k a) = ((\<forall>n. c = CRandomChoice n \<longrightarrow> 0 < n) \<and> (\<forall>r. choices_ok (k r)))"
| "choices_ok (Query k) = (\<forall>b. choices_ok (k b))"
| "choices_ok (QueryEmpty q k) = (\<forall>b. choices_ok (k b))"

text \<open>
  Along a schedule that fits the tree, the random choices of a simulation are among the
  alternatives.
\<close>

definition shaped :: "sched_call \<Rightarrow> threads \<Rightarrow> dfs_sched \<Rightarrow> fault + (sched_resp \<times> threads) \<times> dfs_sched" where
  "shaped c ths s = bindE (invoke dfs_ops c ths s) (\<lambda>(a, b, c). Inr ((a, b), c))"

lemma fits_graft:
  assumes "fits (graft h t) (drop i bs)" and "i \<le> length bs"
  shows "\<exists>a bs1 i1. walk t bs i = Inr (a, bs1, i1) \<and> i1 \<le> length bs1 \<and> fits (h a) (drop i1 bs1)"
  using assms
proof (induction t arbitrary: i bs)
  case (Leaf a)
  then show ?case by auto
next
  case (Fork ty n k)
  show ?case
  proof (cases "i < length bs")
    case True
    have "drop i bs = bs ! i # drop (Suc i) bs" using True by (simp add: Cons_nth_drop_Suc)
    then have "br_type (bs ! i) = ty" "fits (graft h (k (index (bs ! i)))) (drop (Suc i) bs)" using Fork.prems(1) by simp_all
    then show ?thesis using Fork.IH [of "k (index (bs ! i))" "Suc i" bs] True by simp
  next
    case False
    then have "i = length bs" using Fork.prems(2) by simp
    then show ?thesis using Fork.IH [of "k 0" "Suc i" "bs @ [\<lparr>br_type = ty, alts = n, index = 0\<rparr>]"] by simp
  qed
qed

lemma shaped_drives:
  assumes n: "\<forall>n. c = CRandomChoice n \<longrightarrow> 0 < n"
  shows "\<exists>t. drives t (shaped c ths) s \<and>
     (\<forall>(h :: _ \<Rightarrow> 'c dtree) bs i r ths' s'. fits (graft h t) (drop i bs) \<longrightarrow> i \<le> length bs \<longrightarrow>
        shaped c ths (plug bs i s) = Inr ((r, ths'), s') \<longrightarrow> choice_in_range c r)"
proof (cases "\<exists>n. c = CRandomChoice n")
  case False
  have "driven (shaped c ths) s" using invoke_driven [OF n, of ths s] unfolding driven3_def shaped_def .
  then show ?thesis using False by (auto simp: driven_def choice_in_range_def)
next
  case True
  then obtain n where c: "c = CRandomChoice n" and p: "0 < n" using n by blast
  let ?t = "Fork BRandomChoice n (\<lambda>j. Leaf (Inr ((RIndex j, ths), s)))"
  have e: "shaped c ths (plug bs i s) = finish (walk ?t bs i)" for bs i
    by (simp add: c shaped_def dfs_ops_def dfs_RandomChoice_def Choose_def Let_def)
  have "choice_in_range c r"
    if f: "fits (graft h ?t) (drop i bs)" "i \<le> length bs" "shaped c ths (plug bs i s) = Inr ((r, ths'), s')"
    for h :: "_ \<Rightarrow> 'c dtree" and bs i r ths' s'
  proof (cases "i < length bs")
    case True
    then have "drop i bs = bs ! i # drop (Suc i) bs" by (simp add: Cons_nth_drop_Suc)
    moreover have "finish (walk ?t bs i) = Inr ((r, ths'), s')" using f(3) e by simp
    ultimately show ?thesis using f(1) True by (auto simp: choice_in_range_def c split: if_splits)
  next
    case False
    moreover have "finish (walk ?t bs i) = Inr ((r, ths'), s')" using f(3) e by simp
    ultimately show ?thesis using p by (auto simp: choice_in_range_def c)
  qed
  moreover have "drives ?t (shaped c ths) s" using e p by (simp add: drives_def)
  ultimately show ?thesis by (intro exI [of _ ?t]) blast
qed

definition conforms :: "(fault + 'r \<times> dfs_sched) dtree \<Rightarrow> 'r client \<Rightarrow> threads \<Rightarrow> dfs_sched \<Rightarrow> bool" where
  "conforms t p sch s \<longleftrightarrow> drives t (run_client dfs_ops p sch) s \<and>
     (\<forall>bs i. i \<le> length bs \<longrightarrow> fits t (drop i bs) \<longrightarrow> in_range dfs_ops p sch (plug bs i s))"

lemma conforms_Call:
  assumes IH: "\<And>r sch s. \<exists>t. conforms t (k r) sch s" and n: "\<forall>n. c = CRandomChoice n \<longrightarrow> 0 < n"
  shows "\<exists>t. conforms t (Call c ths k a) sch s"
proof (cases "\<exists>st. invoke dfs_ops c (with_sched ths sch) s = Inl (SysAbortEx st)")
  case True
  then obtain st where "invoke dfs_ops c (with_sched ths sch) s = Inl (SysAbortEx st)" by blast
  then have "invoke dfs_ops c (with_sched ths sch) (plug bs i s) = Inl (SysAbortEx st)" for bs i
    by (simp add: abort_plug)
  then have "conforms (Leaf (Inr (a st, s))) (Call c ths k a) sch s" by (simp add: conforms_def drives_def)
  then show ?thesis by blast
next
  case False
  have "\<forall>ra c1. \<exists>t. conforms t (k (fst ra)) (snd ra) c1" using IH by blast
  then obtain u where u: "\<And>ra c1. conforms (u ra c1) (k (fst ra)) (snd ra) c1" by metis
  obtain t where t: "drives t (shaped c (with_sched ths sch)) s"
    and rng: "\<And>(h :: _ \<Rightarrow> (fault + 'a \<times> dfs_sched) dtree) bs i r ths' s'. fits (graft h t) (drop i bs) \<Longrightarrow> i \<le> length bs \<Longrightarrow>
        shaped c (with_sched ths sch) (plug bs i s) = Inr ((r, ths'), s') \<Longrightarrow> choice_in_range c r"
    using shaped_drives [OF n, of "with_sched ths sch" s] by metis
  let ?g = "\<lambda>ra s1. run_client dfs_ops (k (fst ra)) (snd ra) s1"
  let ?t = "graft (go_on u) t"
  have D: "drives ?t (\<lambda>s. bindE (shaped c (with_sched ths sch) s) (\<lambda>(ra, s1). ?g ra s1)) s"
    using u by (intro drives_bind [OF t]) (simp add: conforms_def)
  have na: "invoke dfs_ops c (with_sched ths sch) (plug bs i s) \<noteq> Inl (SysAbortEx st)" for bs i st
    using False by (simp add: abort_plug)
  have e: "run_client dfs_ops (Call c ths k a) sch (plug bs i s) =
      bindE (shaped c (with_sched ths sch) (plug bs i s)) (\<lambda>(ra, s1). ?g ra s1)" for bs i
    using na [of bs i] by (cases "invoke dfs_ops c (with_sched ths sch) (plug bs i s)") (auto simp: shaped_def split: fault.splits)
  have "in_range dfs_ops (Call c ths k a) sch (plug bs i s)" if f: "i \<le> length bs" "fits ?t (drop i bs)" for bs i
  proof (cases "invoke dfs_ops c (with_sched ths sch) (plug bs i s)")
    case (Inl e)
    then show ?thesis by simp
  next
    case (Inr y)
    obtain r sch1 s1 where y: "y = (r, sch1, s1)" by (cases y)
    then have sh: "shaped c (with_sched ths sch) (plug bs i s) = Inr ((r, sch1), s1)" using Inr by (simp add: shaped_def)
    obtain leaf bs1 i1 where w: "walk t bs i = Inr (leaf, bs1, i1)" "i1 \<le> length bs1" "fits (go_on u leaf) (drop i1 bs1)"
      using fits_graft [OF f(2,1)] by blast
    have "finish (walk t bs i) = Inr ((r, sch1), s1)" using t sh by (simp add: drives_def)
    then obtain c1 where leaf: "leaf = Inr ((r, sch1), c1)" "s1 = plug bs1 i1 c1"
      using w(1) by (cases leaf) (auto simp: finish_def bindE_eq_Inr)
    have "in_range dfs_ops (k r) sch1 s1" using u [of "(r, sch1)" c1] w leaf by (simp add: conforms_def)
    then show ?thesis using Inr y rng [OF f(2,1) sh] by simp
  qed
  then have "conforms ?t (Call c ths k a) sch s"
    using D e unfolding conforms_def drives_def by simp
  then show ?thesis by blast
qed

lemma run_client_conforms: "choices_ok p \<Longrightarrow> \<exists>t. conforms t p sch s"
proof (induction p arbitrary: sch s)
  case (Ret r)
  have "conforms (Leaf (Inr (r, s))) (Ret r) sch s" by (simp add: conforms_def drives_def)
  then show ?case by blast
next
  case (Die f)
  have "conforms (Leaf (Inl f)) (Die f) sch s" by (simp add: conforms_def drives_def)
  then show ?case by blast
next
  case (Call c ths k a)
  then show ?case by (intro conforms_Call) auto
next
  case (Query k)
  have i: "IsIdle dfs_ops (plug bs i s) = IsIdle dfs_ops s" for bs i by (simp add: dfs_ops_def dfs_IsIdle_def)
  obtain t where "conforms t (k (IsIdle dfs_ops s)) sch s"
    using Query.IH [of "k (IsIdle dfs_ops s)" sch s] Query.prems by auto
  then have "conforms t (Query k) sch s" by (simp add: conforms_def drives_def i)
  then show ?case by blast
next
  case (QueryEmpty q k)
  have i: "wq_IsEmpty dfs_ops q (plug bs i s) = wq_IsEmpty dfs_ops q s" for bs i by (simp add: dfs_ops_def dfs_wq_IsEmpty_def)
  obtain t where "conforms t (k (wq_IsEmpty dfs_ops q s)) sch s"
    using QueryEmpty.IH [of "k (wq_IsEmpty dfs_ops q s)" sch s] QueryEmpty.prems by auto
  then have "conforms t (QueryEmpty q k) sch s" by (simp add: conforms_def drives_def i)
  then show ?case by blast
qed

end
