(* ===== verification/Explore.thy ===== *)
theory Explore
  imports Prelude Sim_Types Scheduler Sched_Client Random_Scheduler Replay
begin

text \<open>
  The exploration of a program (\<open>mod/sim/sim.cpp\<close>, \<open>mod/sim/explore.hpp\<close>, \<open>mod/sim/det.hpp\<close>): the
  check that its simulation is deterministic, the loop over the schedules of a scheduler, and the
  recording and replaying of the failing run. The program with the simulator that runs it is a
  parameter: for the simulator's parameters, a client of the scheduler, for a whole run
  (\<open>Simulator::Run\<close>) and for a bounded one (\<open>Start\<close>, \<open>RunFor\<close>, \<open>Burn\<close>).
\<close>

record program =
  prog_run :: "params \<Rightarrow> result client"
  prog_run_for :: "params \<Rightarrow> nat \<Rightarrow> result client"

section \<open>Determinism check\<close>

definition kMemsetByte :: "8 word list" where
  "kMemsetByte = [1, 0xFF, 0xAB]"

definition DetCheckSim :: "params \<Rightarrow> program \<Rightarrow> nat \<Rightarrow> fault + u64" where
  "DetCheckSim params main index =
     (let params1 = params\<lparr>p_memset_stacks := Some (kMemsetByte ! (index mod 3))\<rparr>
      in bindE (run_simulation random_ops (prog_run_for main params1 1024)
                  (new_random_sched (default_random_params 0))) (\<lambda>(r, _). Inr (res_digest r)))"

definition DetCheck :: "params \<Rightarrow> program \<Rightarrow> fault + bool" where
  "DetCheck params main =
     (let params1 = params\<lparr>p_digest_atomic_loads := True, p_crash_on_abort := False, p_forward_stdout := False\<rparr>
      in bindE (DetCheckSim params1 main 0) (\<lambda>d1.
         bindE (DetCheckSim params1 main 1) (\<lambda>d2.
         if d1 \<noteq> d2 then Inr False
         else bindE (DetCheckSim params1 main 2) (\<lambda>d3. Inr (d3 = d1)))))"

section \<open>Recording\<close>

text \<open>The recorded run must have the digest, and so must its replay, after which no thread is left.\<close>

definition Record :: "'s sched_ops \<Rightarrow> params \<Rightarrow> program \<Rightarrow> u64 \<Rightarrow> 's \<Rightarrow> fault + decisions \<times> 's" where
  "Record d params main digest s =
     bindE (run_simulation (recorder_ops d) (prog_run main params) (new_recorder s)) (\<lambda>(result, u).
     bindE (verify (res_digest result = digest) (Panic ''Digest mismatch for recorder'')) (\<lambda>_.
     let schedule = recorded u in
     bindE (run_simulation replay_ops (prog_run main params) (new_replay schedule)) (\<lambda>(replay_result, rp).
     bindE (verify (res_digest replay_result = digest) (Panic ''Digest mismatch for replay'')) (\<lambda>_.
     bindE (verify (rp_run_set rp = {}) (Panic ''Non-empty run queue'')) (\<lambda>_.
     Inr (recorded u, underlying u))))))"

section \<open>Exploration\<close>

record found =
  fd_schedule :: decisions
  fd_result :: result

record explore_result =
  er_found :: "found option"
  er_sims :: nat

partial_function (option) explore_loop ::
  "'s sched_ops \<Rightarrow> params \<Rightarrow> program \<Rightarrow> nat \<Rightarrow> 's \<Rightarrow> (fault + explore_result) option"
where
  "explore_loop d params main n s =
     (case run_simulation d (prog_run main params) s of
        Inl f \<Rightarrow> Some (Inl f)
      | Inr (result, s1) \<Rightarrow>
          let sims = n + 1
          in if Failure result
             then Some (bindE (Record d params main (res_digest result) s1) (\<lambda>(replay_schedule, s2).
               Inr \<lparr>er_found = Some \<lparr>fd_schedule = replay_schedule, fd_result = result\<rparr>, er_sims = sims\<rparr>))
             else let (again, s2) = NextSchedule d s1
                  in if again then explore_loop d params main sims s2
                     else Some (Inr \<lparr>er_found = None, er_sims = sims\<rparr>))"

definition Explore :: "'s sched_ops \<Rightarrow> params \<Rightarrow> program \<Rightarrow> 's \<Rightarrow> (fault + explore_result) option" where
  "Explore d params main s =
     (case DetCheck params main of
        Inl f \<Rightarrow> Some (Inl f)
      | Inr False \<Rightarrow> Some (Inl (Panic ''Simulation is not deterministic''))
      | Inr True \<Rightarrow>
          explore_loop d (params\<lparr>p_forward_stdout := False, p_crash_on_abort := False\<rparr>) main 0 s)"

section \<open>The number of simulations\<close>

lemma LfResume_runs: "LfResume ths s = Inr (ths', s') \<Longrightarrow> rs_runs s' = rs_runs s \<and> rs_params s' = rs_params s"
  by (auto simp: LfResume_def LfResume1_def rnd_push_def draw_def bindE_eq_Inr Let_def
      split: if_splits prod.splits option.splits)

lemma rnd_step_runs:
  assumes "invoke random_ops c ths s = Inr (r, ths', s')"
  shows "rs_runs s' = rs_runs s \<and> rs_params s' = rs_params s"
proof (cases c)
  case (CInterrupt now t)
  then have "rnd_Interrupt now t ths s = Inr (ths', s')" using assms by (simp add: random_ops_def)
  then show ?thesis
    by (auto simp: rnd_Interrupt_def rnd_Preempt_def rnd_push_def ToLfSuspend_def LfSuspend_def draw_def bindE_eq_Inr
        Let_def split: if_splits option.splits prod.splits)
next
  case (CPickNext now)
  then obtain t where "rnd_PickNext now ths s = Inr (t, ths', s')" using assms by (auto simp: random_ops_def bindE_eq_Inr)
  then show ?thesis
    by (auto simp: rnd_PickNext_def PickNextFromRunQueue_def RandomTimeSliceInTicks_def draw_def
        bindE_eq_Inr Let_def split: option.splits prod.splits if_splits)
next
  case (CLockFree t b)
  then show ?thesis using assms
    by (auto simp: random_ops_def rnd_LockFree_def LfEnter_def LfExit_def bindE_eq_Inr dest!: LfResume_runs split: if_splits)
next
  case (CProgress t)
  then show ?thesis using assms
    by (auto simp: random_ops_def rnd_Progress_def LfProgress_def Let_def bindE_eq_Inr dest!: LfResume_runs split: if_splits)
qed (use assms in \<open>auto simp: random_ops_def rnd_SwitchTo_def rnd_Yield_def rnd_Wake_def rnd_Spawn_def rnd_Exit_def
    rnd_NewIter_def rnd_push_def
    rnd_Remove_def set_Remove_def rnd_NewWaitQueue_def rnd_wq_Push_def rnd_wq_Pop_def rnd_wq_PopAll_def rnd_wq_Remove_def put_wait_def
    rnd_RandomNumber_def rnd_RandomChoice_def rnd_SpuriousWakeup_def rnd_SpuriousTryFailure_def Spurious_def
    draw_def bindE_eq_Inr Let_def
    split: if_splits prod.splits option.splits\<close>)

lemma rnd_simulation_runs:
  assumes "run_simulation random_ops p s = Inr (r, s')"
  shows "rs_runs s' = rs_runs s" and "rs_params s' = rs_params s" and "rnd_init s'"
proof -
  obtain s1 s2 where R: "rnd_Start s = Inr s1" "run_client random_ops p no_threads s1 = Inr (r, s2)"
    "s' = rnd_DropWaitQueues s2"
    using assms by (auto simp: run_simulation_def bindE_eq_Inr random_ops_def)
  have "(rs_runs s2, rs_params s2) = (rs_runs s1, rs_params s1)"
    by (rule run_client_keeps [of random_ops "\<lambda>s. (rs_runs s, rs_params s)", OF _ R(2)]) (simp add: rnd_step_runs)
  then show "rs_runs s' = rs_runs s" and "rs_params s' = rs_params s" and "rnd_init s'"
    using R(1,3) by (auto simp: rnd_Start_def rnd_DropWaitQueues_def rnd_init_def)
qed

lemma explore_loop_random:
  assumes never: "\<And>s. rnd_init s \<Longrightarrow> rs_params s = ps \<Longrightarrow>
      \<exists>r s'. run_simulation random_ops (prog_run main params) s = Inr (r, s') \<and> \<not> Failure r"
    and m: "rp_max_runs ps = Some m"
  shows "rnd_init s \<Longrightarrow> rs_params s = ps \<Longrightarrow> rs_runs s \<le> m \<Longrightarrow>
     explore_loop random_ops params main n s = Some (Inr \<lparr>er_found = None, er_sims = n + (m - rs_runs s) + 1\<rparr>)"
proof (induction "m - rs_runs s" arbitrary: s n rule: less_induct)
  case less
  obtain r s1 where R: "run_simulation random_ops (prog_run main params) s = Inr (r, s1)" "\<not> Failure r"
    using never [OF less.prems(1,2)] by blast
  note K = rnd_simulation_runs [OF R(1)]
  have nx: "NextSchedule random_ops s1 = (if rs_runs s + 1 > m then (False, s1\<lparr>rs_runs := rs_runs s + 1\<rparr>)
      else (True, s1\<lparr>rs_runs := rs_runs s + 1, rs_seed := HashCombine (rs_seed s1) (of_nat (rs_runs s + 1))\<rparr>))"
    using K less.prems(2) m by (simp add: random_ops_def rnd_NextSchedule_def Let_def)
  show ?case
  proof (cases "rs_runs s = m")
    case True
    then show ?thesis using R nx by (subst explore_loop.simps) (simp add: Let_def)
  next
    case False
    let ?s2 = "s1\<lparr>rs_runs := rs_runs s + 1, rs_seed := HashCombine (rs_seed s1) (of_nat (rs_runs s + 1))\<rparr>"
    have "rnd_init ?s2" "rs_params ?s2 = ps" "m - rs_runs ?s2 < m - rs_runs s" "rs_runs ?s2 \<le> m"
      using K less.prems False by (auto simp: rnd_init_def)
    from less.hyps [OF this(3,1,2,4), of "n + 1"]
    have "explore_loop random_ops params main (n + 1) ?s2 =
        Some (Inr \<lparr>er_found = None, er_sims = n + 1 + (m - (rs_runs s + 1)) + 1\<rparr>)" by simp
    moreover have "n + 1 + (m - (rs_runs s + 1)) + 1 = n + (m - rs_runs s) + 1" using False less.prems(3) by arith
    moreover have "\<not> rs_runs s + 1 > m" using False less.prems(3) by simp
    ultimately show ?thesis using R nx by (subst explore_loop.simps) (simp add: Let_def del: One_nat_def)
  qed
qed

text \<open>
  Exploration with the random scheduler, on a deterministic program that never fails, ends and
  runs one simulation more than the parameter \<open>max_runs\<close>, which is documented as the number of
  simulations to run.
\<close>

theorem random_exploration_runs:
  assumes "DetCheck params main = Inr True" and "rp_max_runs ps = Some m"
    and "\<And>s. rnd_init s \<Longrightarrow> rs_params s = ps \<Longrightarrow> \<exists>r s'. run_simulation random_ops
       (prog_run main (params\<lparr>p_forward_stdout := False, p_crash_on_abort := False\<rparr>)) s = Inr (r, s') \<and> \<not> Failure r"
  shows "Explore random_ops params main (new_random_sched ps) = Some (Inr \<lparr>er_found = None, er_sims = m + 1\<rparr>)"
proof -
  have "rnd_init (new_random_sched ps)" "rs_params (new_random_sched ps) = ps" "rs_runs (new_random_sched ps) = 0"
    by (simp_all add: new_random_sched_def rnd_init_def)
  then show ?thesis using explore_loop_random [OF assms(3,2), of "new_random_sched ps" 0] assms(1)
    by (simp add: Explore_def)
qed

theorem random_exploration_runs_witness:
  "Explore random_ops default_params \<lparr>prog_run = (\<lambda>_. Ret (race_result Ok)), prog_run_for = (\<lambda>_ _. Ret (race_result Ok))\<rparr>
     (new_random_sched ((default_random_params 0)\<lparr>rp_max_runs := Some 10\<rparr>)) =
   Some (Inr \<lparr>er_found = None, er_sims = 11\<rparr>)"
proof -
  let ?main = "\<lparr>prog_run = (\<lambda>_. Ret (race_result Ok)), prog_run_for = (\<lambda>_ _. Ret (race_result Ok))\<rparr>"
  have "DetCheck default_params ?main = Inr True"
    by (simp add: DetCheck_def DetCheckSim_def run_simulation_def random_ops_def rnd_Start_def)
  moreover have "rp_max_runs ((default_random_params 0)\<lparr>rp_max_runs := Some 10\<rparr>) = Some 10" by simp
  ultimately show ?thesis
    using random_exploration_runs [of default_params ?main "(default_random_params 0)\<lparr>rp_max_runs := Some 10\<rparr>" 10]
    by (simp add: run_simulation_def random_ops_def rnd_Start_def race_result_def Failure_def result_Ok_def)
qed

end
