(* ===== verification/Dfs_Explore.thy ===== *)
theory Dfs_Explore
  imports Prelude Sim_Types Scheduler Sched_Client Replay Dfs_Scheduler Decision_Tree Dfs_Decisions Explore
begin

text \<open>
  Exploration with the depth-first scheduler is exhaustive: it ends, and it visits every complete
  schedule of the simulation once, until one fails; the recorded schedule of the failing run
  reproduces it.
\<close>

section \<open>Schedules\<close>

text \<open>
  A run from a schedule, and the schedules the scheduler can make: each entry is of the kind and
  has the alternatives that the run along the entries before it asks for next, and its index is one
  of them. A complete schedule is one the run does not extend.
\<close>

definition dfs_run :: "result client \<Rightarrow> dfs_params \<Rightarrow> branch list \<Rightarrow> fault + result \<times> dfs_sched" where
  "dfs_run p ps sch = run_simulation dfs_ops p ((new_dfs_sched ps)\<lparr>ds_schedule := sch\<rparr>)"

definition next_entry :: "result client \<Rightarrow> dfs_params \<Rightarrow> branch list \<Rightarrow> branch option" where
  "next_entry p ps sch = (case dfs_run p ps sch of Inl _ \<Rightarrow> None
     | Inr (r, s) \<Rightarrow> if length sch < length (ds_schedule s) then Some (ds_schedule s ! length sch) else None)"

definition legal :: "result client \<Rightarrow> dfs_params \<Rightarrow> branch list \<Rightarrow> bool" where
  "legal p ps sch \<longleftrightarrow> (\<forall>i < length sch. index (sch ! i) < alts (sch ! i) \<and>
     (\<exists>b. next_entry p ps (take i sch) = Some b \<and> br_type b = br_type (sch ! i) \<and> alts b = alts (sch ! i)))"

definition complete_schedule :: "result client \<Rightarrow> dfs_params \<Rightarrow> branch list \<Rightarrow> bool" where
  "complete_schedule p ps sch \<longleftrightarrow> legal p ps sch \<and> next_entry p ps sch = None"

section \<open>Paths of a tree\<close>

primrec paths :: "'a dtree \<Rightarrow> branch list list" where
  "paths (Leaf a) = [[]]"
| "paths (Fork ty n k) =
     concat (map (\<lambda>i. map ((#) \<lparr>br_type = ty, alts = n, index = i\<rparr>) (paths (k i))) [0..<n])"

lemma paths_full: "set (paths t) = {bs. full t bs}"
proof (induction t)
  case (Fork ty n k)
  have "full (Fork ty n k) bs \<longleftrightarrow> (\<exists>i < n. \<exists>q. full (k i) q \<and> bs = \<lparr>br_type = ty, alts = n, index = i\<rparr> # q)" for bs
  proof (cases bs)
    case (Cons b q)
    then show ?thesis by (cases b) auto
  qed simp
  moreover have "set (paths (k i)) = {bs. full (k i) bs}" for i using Fork.IH by simp
  ultimately show ?case by (auto simp: image_iff)
qed auto

lemma paths_distinct: "distinct (paths t) \<and> length (paths t) = length (leaves t)"
proof (induction t)
  case (Fork ty n k)
  let ?f = "\<lambda>i. map ((#) \<lparr>br_type = ty, alts = n, index = i\<rparr>) (paths (k i))"
  have IH: "distinct (paths (k i))" "length (paths (k i)) = length (leaves (k i))" for i
    using Fork.IH [of "k i"] by auto
  have "distinct (concat (map ?f [0..<m]))" for m
    by (induction m) (auto simp: distinct_map IH)
  moreover have "length (concat (map ?f [0..<m])) = length (concat (map (\<lambda>i. leaves (k i)) [0..<m]))" for m
    by (induction m) (simp_all add: IH)
  ultimately show ?case by simp
qed simp

lemma card_full: "card {bs. full t bs} = length (leaves t)"
  using paths_full [of t] paths_distinct [of t] by (metis distinct_card)

lemma visit_leaves: "full t p \<Longrightarrow> fst (visit t p) \<in> set (leaves t)"
proof (induction t arbitrary: p)
  case (Fork ty n k)
  then obtain b q where "p = b # q" "index b < n" "full (k (index b)) q" by (cases p) auto
  then show ?case using Fork.IH [of "k (index b)" q] by (force split: prod.splits)
qed simp

lemma leaves_visited: "a \<in> set (leaves t) \<Longrightarrow> \<exists>p. full t p \<and> fst (visit t p) = a"
proof (induction t)
  case (Fork ty n k)
  then obtain i where i: "i < n" "a \<in> set (leaves (k i))" by auto
  then obtain q where "full (k i) q" "fst (visit (k i) q) = a" using Fork.IH [of "k i"] by auto
  then show ?case using i by (intro exI [of _ "\<lparr>br_type = ty, alts = n, index = i\<rparr> # q"]) (auto split: prod.splits)
qed simp

lemma fits_extend:
  "fits t bs \<Longrightarrow> visit t bs = (a, p) \<Longrightarrow> length bs < length p \<Longrightarrow>
     fits t (bs @ [b]) \<longleftrightarrow> br_type b = br_type (p ! length bs) \<and> alts b = alts (p ! length bs) \<and> index b < alts b"
proof (induction t arbitrary: bs p)
  case (Fork ty n k)
  show ?case
  proof (cases bs)
    case Nil
    then show ?thesis using Fork.prems(2) by (auto split: prod.splits)
  next
    case (Cons c cs)
    obtain q where "visit (k (index c)) cs = (a, q)" "p = c # q"
      using Fork.prems(2) Cons by (auto split: prod.splits)
    then show ?thesis using Fork.IH [of "k (index c)" cs q] Fork.prems Cons by simp
  qed
qed auto

lemma fits_length: "fits t bs \<Longrightarrow> visit t bs = (a, p) \<Longrightarrow> length bs \<le> length p \<and> take (length bs) p = bs"
proof (induction t arbitrary: bs p)
  case (Fork ty n k)
  show ?case
  proof (cases bs)
    case (Cons c cs)
    obtain q where "visit (k (index c)) cs = (a, q)" "p = c # q"
      using Fork.prems(2) Cons by (auto split: prod.splits)
    then show ?thesis using Fork.IH [of "k (index c)" cs q] Fork.prems Cons by simp
  qed simp
qed simp

lemma fits_take: "fits t bs \<Longrightarrow> fits t (take i bs)"
proof (induction t arbitrary: bs i)
  case (Fork ty n k)
  then show ?case by (cases bs; cases i) auto
qed simp

lemma visit_of_full: "full t p \<Longrightarrow> snd (visit t p) = p"
proof (induction t arbitrary: p)
  case (Fork ty n k)
  then obtain b q where "p = b # q" "full (k (index b)) q" by (cases p) auto
  then show ?case using Fork.IH [of "k (index b)" q] by (auto split: prod.splits)
qed simp

lemma full_no_more: "full t bs \<Longrightarrow> \<not> fits t (bs @ [b])"
proof (induction t arbitrary: bs)
  case (Fork ty n k)
  then show ?case by (cases bs) auto
qed simp

section \<open>The runs of an exploration\<close>

lemma same_params: "dfs_same s s' \<Longrightarrow> ds_params s' = ds_params s"
  by (simp add: dfs_same_def)

lemma Pick_params: "Pick xs ty s = Inr (r, ys, s') \<Longrightarrow> ds_params s' = ds_params s"
  by (auto simp: Pick_def bindE_eq_Inr Let_def split: if_splits prod.splits dest: Choose_same [THEN same_params])

lemma dfs_pick_params:
  assumes "dfs_pick p ths s = Inr (t, ths', s')"
  shows "ds_params s' = ds_params s"
proof -
  obtain r q s1 where P: "Pick (ds_run_queue s) BPickNext s = Inr (r, q, s1)"
    using assms by (auto simp: dfs_pick_def bindE_eq_Inr)
  then have "ds_params s' = ds_params s1" using assms
    by (auto simp: dfs_pick_def Let_def split: option.splits)
  then show ?thesis using Pick_params [OF P] by simp
qed

lemma dfs_PickNext_params:
  assumes "dfs_PickNext now ths s = Inr (t, ths', s')"
  shows "ds_params s' = ds_params s"
proof -
  obtain ths1 s1 where A: "AddStep (ds_active s) ths (s\<lparr>ds_active := None\<rparr>) = Inr (ths1, s1)"
    using assms by (auto simp: dfs_PickNext_def Let_def bindE_eq_Inr)
  note a = AddStep_ok [OF A, THEN same_params]
  show ?thesis
  proof (cases "ds_active s")
    case None
    then show ?thesis using assms A a dfs_pick_params by (simp add: dfs_PickNext_def Let_def)
  next
    case (Some u)
    obtain b s2 where P: "dfs_Preempt u ths1 s1 = Inr (b, s2)" using assms A Some
      by (auto simp: dfs_PickNext_def Let_def bindE_eq_Inr)
    then have "ds_params s' = ds_params s2" using assms A Some dfs_pick_params
      by (cases b) (auto simp: dfs_PickNext_def Let_def)
    then show ?thesis using a dfs_Preempt_same [OF P, THEN same_params] by simp
  qed
qed

lemma invoke_params:
  assumes "invoke dfs_ops c ths s = Inr (r, ths', s')"
  shows "ds_params s' = ds_params s"
proof (cases c)
  case (CPickNext now)
  then show ?thesis using assms dfs_PickNext_params by (auto simp: dfs_ops_def bindE_eq_Inr)
next
  case (CPop q)
  then show ?thesis using assms
    by (auto simp: dfs_ops_def dfs_wq_Pop_def PickWaiter_def fifo_Pop_def bindE_eq_Inr
        split: if_splits prod.splits dest: Pick_params)
next
  case (CExit t)
  then show ?thesis using assms by (auto simp: dfs_ops_def dfs_Exit_def dest: AddStep_ok [THEN same_params])
qed (use assms in \<open>auto simp: dfs_ops_def dfs_Interrupt_def dfs_SwitchTo_def dfs_Yield_def dfs_Wake_def dfs_Spawn_def
      dfs_push_def dfs_LockFree_def dfs_Progress_def dfs_NewIter_def dfs_Remove_def dfs_NewWaitQueue_def
      dfs_wq_Push_def dfs_wq_PopAll_def fifo_Pop_def dfs_wq_Remove_def dfs_RandomNumber_def dfs_RandomChoice_def
      dfs_SpuriousWakeup_def dfs_SpuriousTryFailure_def Let_def bindE_eq_Inr split: if_splits prod.splits
      dest: Choose_same [THEN same_params] Either_same [THEN same_params]\<close>)

lemma run_client_params: "run_client dfs_ops p sch s = Inr (r, s') \<Longrightarrow> ds_params s' = ds_params s"
  by (rule run_client_keeps [of dfs_ops ds_params]) (rule invoke_params)

text \<open>A state between two runs, with the parameters \<open>ps\<close> and the schedule \<open>bs\<close>.\<close>

definition between :: "dfs_params \<Rightarrow> branch list \<Rightarrow> dfs_sched \<Rightarrow> bool" where
  "between ps bs s \<longleftrightarrow> dfs_init s \<and> ds_params s = ps \<and> ds_schedule s = bs"

lemma between_start:
  assumes "between ps bs s"
  shows "Start dfs_ops s = Inr (plug bs 0 (new_dfs_sched ps))"
  using assms by (cases s) (simp add: between_def dfs_init_def dfs_ops_def dfs_Start_def plug_def new_dfs_sched_def)

lemma between_new: "between ps bs ((new_dfs_sched ps)\<lparr>ds_schedule := bs\<rparr>)"
  by (simp add: between_def dfs_init_def new_dfs_sched_def)

lemma between_run:
  assumes b: "between ps bs s" and c: "conforms t p no_threads (new_dfs_sched ps)" and f: "fits t bs"
    and v: "visit t bs = (leaf, path)"
  shows "case leaf of
     Inl e \<Rightarrow> run_simulation dfs_ops p s = Inl e
   | Inr (r, c) \<Rightarrow> run_client dfs_ops p no_threads (plug bs 0 (new_dfs_sched ps)) = Inr (r, plug path (length path) c) \<and>
       (\<exists>s'. run_simulation dfs_ops p s = Inr (r, s') \<and> between ps path s' \<and>
          s' = dfs_DropWaitQueues (plug path (length path) c))"
proof -
  have d: "drives t (run_client dfs_ops p no_threads) (new_dfs_sched ps)" using c by (simp add: conforms_def)
  have "walk t bs 0 = Inr (leaf, path, length path)" using walk_visit [of t 0 bs leaf path] f v by simp
  then have R: "run_client dfs_ops p no_threads (plug bs 0 (new_dfs_sched ps)) = finish (Inr (leaf, path, length path))"
    using d by (simp add: drives_def)
  show ?thesis
  proof (cases leaf)
    case (Inl e)
    then show ?thesis using R between_start [OF b] by (simp add: run_simulation_def)
  next
    case (Inr y)
    obtain r c where y: "y = (r, c)" by (cases y)
    have run: "run_client dfs_ops p no_threads (plug bs 0 (new_dfs_sched ps)) = Inr (r, plug path (length path) c)"
      using R Inr y by simp
    then have "ds_params c = ps" using run_client_params [OF run] by (simp add: new_dfs_sched_def)
    then have "between ps path (dfs_DropWaitQueues (plug path (length path) c))"
      by (simp add: between_def dfs_init_def dfs_DropWaitQueues_def)
    then show ?thesis using run Inr y between_start [OF b] by (simp add: run_simulation_def dfs_ops_def)
  qed
qed

section \<open>Schedules and the tree\<close>

lemma legal_snoc:
  "legal p ps (sch @ [b]) \<longleftrightarrow> legal p ps sch \<and> index b < alts b \<and>
     (\<exists>c. next_entry p ps sch = Some c \<and> br_type c = br_type b \<and> alts c = alts b)"
proof -
  let ?P = "\<lambda>bs i. index (bs ! i) < alts (bs ! i) \<and> (\<exists>c. next_entry p ps (take i bs) = Some c \<and>
      br_type c = br_type (bs ! i) \<and> alts c = alts (bs ! i))"
  have "?P (sch @ [b]) i \<longleftrightarrow> ?P sch i" if "i < length sch" for i using that by (simp add: nth_append)
  moreover have "(\<forall>i < length (sch @ [b]). ?P (sch @ [b]) i) \<longleftrightarrow>
      (\<forall>i < length sch. ?P (sch @ [b]) i) \<and> ?P (sch @ [b]) (length sch)"
    unfolding length_append_singleton All_less_Suc by (rule conj_commute)
  moreover have "?P (sch @ [b]) (length sch) \<longleftrightarrow> index b < alts b \<and>
      (\<exists>c. next_entry p ps sch = Some c \<and> br_type c = br_type b \<and> alts c = alts b)" by simp
  ultimately show ?thesis unfolding legal_def by blast
qed

text \<open>The simulation never dies along a schedule the scheduler can make.\<close>

definition never_dies :: "result client \<Rightarrow> dfs_params \<Rightarrow> bool" where
  "never_dies p ps \<longleftrightarrow> (\<forall>sch. legal p ps sch \<longrightarrow> (\<exists>r s. dfs_run p ps sch = Inr (r, s)))"

lemma next_entry_visit:
  assumes "conforms t p no_threads (new_dfs_sched ps)" and "fits t sch" and "visit t sch = (Inr (r, c), path)"
  shows "next_entry p ps sch = (if length sch < length path then Some (path ! length sch) else None)"
  using between_run [OF between_new assms] by (auto simp: next_entry_def dfs_run_def between_def)

lemma legal_fits:
  assumes c: "conforms t p no_threads (new_dfs_sched ps)" and nd: "never_dies p ps"
  shows "legal p ps sch \<longleftrightarrow> fits t sch"
proof (induction sch rule: rev_induct)
  case Nil
  then show ?case by (simp add: legal_def)
next
  case (snoc b sch)
  show ?case
  proof (cases "fits t sch")
    case False
    then have "\<not> fits t (sch @ [b])" using fits_take [of t "sch @ [b]" "length sch"] by auto
    then show ?thesis using False snoc by (simp add: legal_snoc)
  next
    case True
    obtain leaf path where v: "visit t sch = (leaf, path)" by fastforce
    obtain r s where "dfs_run p ps sch = Inr (r, s)" using nd True snoc by (auto simp: never_dies_def)
    then obtain r c' where leaf: "leaf = Inr (r, c')"
      using between_run [OF between_new c True v] by (cases leaf) (auto simp: dfs_run_def)
    note e = next_entry_visit [OF c True v [unfolded leaf]]
    have ok: "forks_ok t" using c by (simp add: conforms_def drives_def)
    show ?thesis
    proof (cases "length sch < length path")
      case l: True
      have E: "next_entry p ps sch = Some (path ! length sch)" using e l by simp
      have "legal p ps sch" using snoc True by simp
      then show ?thesis unfolding legal_snoc E fits_extend [OF True v l] option.inject by metis
    next
      case False
      have "length sch \<le> length path" "take (length sch) path = sch" using fits_length [OF True v] by blast+
      then have "path = sch" using False take_all [of path "length sch"] by (simp only: not_less)
      then have "full t sch" using visit_ok [OF ok True v] by blast
      then have "\<not> fits t (sch @ [b])" by (rule full_no_more)
      moreover have "\<not> legal p ps (sch @ [b])" using e False unfolding legal_snoc by simp
      ultimately show ?thesis by simp
    qed
  qed
qed

lemma complete_full:
  assumes c: "conforms t p no_threads (new_dfs_sched ps)" and nd: "never_dies p ps"
  shows "complete_schedule p ps sch \<longleftrightarrow> full t sch"
proof (cases "fits t sch")
  case False
  then show ?thesis using legal_fits [OF assms] full_fits by (auto simp: complete_schedule_def)
next
  case True
  obtain leaf path where v: "visit t sch = (leaf, path)" by fastforce
  obtain r s where "dfs_run p ps sch = Inr (r, s)" using nd True legal_fits [OF assms] by (auto simp: never_dies_def)
  then obtain r c' where leaf: "leaf = Inr (r, c')"
    using between_run [OF between_new c True v] by (cases leaf) (auto simp: dfs_run_def)
  have ok: "forks_ok t" using c by (simp add: conforms_def drives_def)
  have L: "length sch \<le> length path" "take (length sch) path = sch" using fits_length [OF True v] by blast+
  have "length sch < length path \<longleftrightarrow> path \<noteq> sch"
  proof
    assume "path \<noteq> sch"
    then show "length sch < length path" using L take_all [of path "length sch"] by (metis not_less)
  qed auto
  moreover have "path = sch \<longleftrightarrow> full t sch" using visit_ok [OF ok True v] visit_of_full [of t sch] v by fastforce
  ultimately show ?thesis using next_entry_visit [OF c True v [unfolded leaf]] legal_fits [OF assms] True
    by (auto simp: complete_schedule_def)
qed

section \<open>The loop\<close>

text \<open>What the loop returns when the leaves \<open>ls\<close> of the tree \<open>t\<close> remain, after \<open>n\<close> simulations.\<close>

definition reproduces :: "result client \<Rightarrow> found \<Rightarrow> bool" where
  "reproduces p f \<longleftrightarrow> (\<exists>rp. run_simulation replay_ops p (new_replay (fd_schedule f)) = Inr (fd_result f, rp) \<and>
     rp_run_set rp = {} \<and> remaining rp = [])"

definition explored :: "result client \<Rightarrow> (fault + result \<times> dfs_sched) dtree \<Rightarrow> (fault + result \<times> dfs_sched) list \<Rightarrow>
    nat \<Rightarrow> explore_result \<Rightarrow> bool" where
  "explored p t ls n res \<longleftrightarrow> (case er_found res of
       None \<Rightarrow> (\<forall>r c. Inr (r, c) \<in> set ls \<longrightarrow> \<not> Failure r) \<and> er_sims res = n + length ls
     | Some f \<Rightarrow> Failure (fd_result f) \<and> er_sims res \<le> n + length ls \<and>
         (\<exists>path c. full t path \<and> visit t path = (Inr (fd_result f, c), path)) \<and> reproduces p f)"

lemma explored_Cons:
  "\<not> Failure r \<Longrightarrow> explored p t ls (n + 1) res \<Longrightarrow> explored p t (Inr (r, c) # ls) n res"
  by (auto simp: explored_def split: option.splits)

lemma record_between:
  assumes c: "conforms t p no_threads (new_dfs_sched ps)" and ok: "client_ok True True p empty_view False True"
    and p: "p = prog_run main params" and f: "full t path" and v: "visit t path = (Inr (r, c'), path)"
    and b: "between ps path s" and np: "res_status r \<noteq> Pruned"
  shows "\<exists>sch s'. Record dfs_ops params main (res_digest r) s = Inr (sch, s') \<and>
     reproduces p \<lparr>fd_schedule = sch, fd_result = r\<rparr>"
proof -
  have fit: "fits t path" using f by (rule full_fits)
  have run: "run_client dfs_ops p no_threads (plug path 0 (new_dfs_sched ps)) = Inr (r, plug path (length path) c')"
    using between_run [OF b c fit v] by simp
  have "in_range dfs_ops p no_threads (plug path 0 (new_dfs_sched ps))"
    using c fit unfolding conforms_def by (metis drop0 le0)
  moreover have "dfs_init s" using b by (simp add: between_def)
  ultimately obtain u rp where R: "run_simulation (recorder_ops dfs_ops) p (new_recorder s) = Inr (r, u)"
    "run_simulation replay_ops p (new_replay (recorded u)) = Inr (r, rp)" "rp_run_set rp = {}" "remaining rp = []"
    using dfs_client.replay_simulation [OF TrueI _ between_start [OF b] ok _ run np] by blast
  have "Record dfs_ops params main (res_digest r) s = Inr (recorded u, underlying u)"
    using R p by (simp add: Record_def Let_def verify_def)
  then show ?thesis using R by (intro exI [of _ "recorded u"] exI [of _ "underlying u"]) (auto simp: reproduces_def)
qed

lemma explore_loop_dfs:
  assumes c: "conforms t p no_threads (new_dfs_sched ps)" and ok: "client_ok True True p empty_view False True"
    and p: "p = prog_run main params" and nd: "\<And>l. l \<in> set (leaves t) \<Longrightarrow> \<exists>r c. l = Inr (r, c)"
  shows "fits t bs \<Longrightarrow> between ps bs s \<Longrightarrow>
    \<exists>res. explore_loop dfs_ops params main n s = Some (Inr res) \<and> explored p t (rest_at t bs) n res"
proof (induction "length (rest_at t bs)" arbitrary: bs s n rule: less_induct)
  case less
  have fok: "forks_ok t" using c by (simp add: conforms_def drives_def)
  from explore_round [OF fok less.prems(1)] obtain leaf path where
    wk: "walk t bs 0 = Inr (leaf, path, length path)" and w: "full t path" "visit t path = (leaf, path)"
      "rest_at t bs = leaf # rest_after t path"
    and bt: "case Backtrack path of (True, bs') \<Rightarrow> fits t bs' \<and> rest_at t bs' = rest_after t path
       | (False, _) \<Rightarrow> rest_after t path = []"
    by (elim exE conjE) (rule that)
  have v: "visit t bs = (leaf, path)"
  proof -
    obtain a q where a: "visit t bs = (a, q)" by fastforce
    then have "walk t bs 0 = Inr (a, q, length q)" using walk_visit [of t 0 bs a q] less.prems(1) by simp
    then show ?thesis using wk a by simp
  qed
  have "leaf \<in> set (leaves t)" using visit_leaves [OF w(1)] w(2) by simp
  then obtain r c' where leaf: "leaf = Inr (r, c')" using nd by blast
  obtain s1 where s1: "run_simulation dfs_ops p s = Inr (r, s1)" "between ps path s1"
    using between_run [OF less.prems(2) c less.prems(1) v] leaf by auto
  show ?case
  proof (cases "Failure r")
    case True
    then have "res_status r \<noteq> Pruned" by (simp add: Failure_def Complete_def)
    from record_between [OF c ok p w(1) _ s1(2) this] w(2) leaf obtain sch s' where
      R: "Record dfs_ops params main (res_digest r) s1 = Inr (sch, s')"
         "reproduces p \<lparr>fd_schedule = sch, fd_result = r\<rparr>" by blast
    have "explore_loop dfs_ops params main n s =
        Some (Inr \<lparr>er_found = Some \<lparr>fd_schedule = sch, fd_result = r\<rparr>, er_sims = n + 1\<rparr>)"
      using s1 R(1) True p by (subst explore_loop.simps) (simp add: Let_def)
    then show ?thesis using True R(2) w leaf by (auto simp: explored_def)
  next
    case F: False
    have nx: "NextSchedule dfs_ops s1 = (fst (Backtrack path), s1\<lparr>ds_schedule := snd (Backtrack path)\<rparr>)"
      using s1(2) by (simp add: dfs_ops_def dfs_NextSchedule_def between_def split: prod.splits)
    have step: "explore_loop dfs_ops params main n s =
        (if fst (Backtrack path) then explore_loop dfs_ops params main (n + 1) (s1\<lparr>ds_schedule := snd (Backtrack path)\<rparr>)
         else Some (Inr \<lparr>er_found = None, er_sims = n + 1\<rparr>))"
      using s1 F p nx by (subst explore_loop.simps) (simp add: Let_def)
    show ?thesis
    proof (cases "Backtrack path")
      case (Pair again bs')
      show ?thesis
      proof (cases again)
        case True
        then have B: "fits t bs'" "rest_at t bs' = rest_after t path" using bt Pair by auto
        have "between ps bs' (s1\<lparr>ds_schedule := bs'\<rparr>)" using s1(2) by (simp add: between_def dfs_init_def)
        then obtain res where "explore_loop dfs_ops params main (n + 1) (s1\<lparr>ds_schedule := bs'\<rparr>) = Some (Inr res)"
            "explored p t (rest_at t bs') (n + 1) res"
          using less.hyps [of bs' "s1\<lparr>ds_schedule := bs'\<rparr>" "n + 1"] B w(3) by auto
        then show ?thesis using step Pair True B(2) w(3) leaf explored_Cons [OF F] by auto
      next
        case False
        then show ?thesis using step Pair bt w(3) leaf F by (auto simp: explored_def)
      qed
    qed
  qed
qed

section \<open>Exhaustive exploration\<close>

lemma leaves_of_runs:
  assumes c: "conforms t p no_threads (new_dfs_sched ps)" and nd: "never_dies p ps"
  shows "l \<in> set (leaves t) \<Longrightarrow> \<exists>r c. l = Inr (r, c)"
    and "Inr (r, c') \<in> set (leaves t) \<longleftrightarrow> (\<exists>sch s. full t sch \<and> visit t sch = (Inr (r, c'), sch))"
    and "full t sch \<Longrightarrow> visit t sch = (Inr (r, c'), sch) \<Longrightarrow> \<exists>s. dfs_run p ps sch = Inr (r, s)"
proof -
  have run: "\<exists>s. dfs_run p ps sch = Inr (r, s)" if "full t sch" "visit t sch = (Inr (r, c'), sch)" for sch r c'
    using between_run [OF between_new c full_fits [OF that(1)] that(2)] by (auto simp: dfs_run_def)
  show "full t sch \<Longrightarrow> visit t sch = (Inr (r, c'), sch) \<Longrightarrow> \<exists>s. dfs_run p ps sch = Inr (r, s)" by (rule run)
  have at: "\<exists>sch. full t sch \<and> visit t sch = (l, sch)" if l: "l \<in> set (leaves t)" for l
  proof -
    obtain sch where s: "full t sch" "fst (visit t sch) = l" using leaves_visited [OF l] by blast
    then show ?thesis using visit_of_full [OF s(1)] by (metis prod.collapse)
  qed
  show "Inr (r, c') \<in> set (leaves t) \<longleftrightarrow> (\<exists>sch s. full t sch \<and> visit t sch = (Inr (r, c'), sch))"
    using at visit_leaves by fastforce
  assume l: "l \<in> set (leaves t)"
  obtain sch where s: "full t sch" "visit t sch = (l, sch)" using at [OF l] by blast
  obtain r1 s1 where "dfs_run p ps sch = Inr (r1, s1)"
    using nd legal_fits [OF assms] full_fits [OF s(1)] by (auto simp: never_dies_def)
  then show "\<exists>r c. l = Inr (r, c)"
    using between_run [OF between_new c full_fits [OF s(1)] s(2)] by (cases l) (auto simp: dfs_run_def)
qed


text \<open>The two racing threads: the schedule that picks the second one first fails.\<close>

definition racing :: program where
  "racing = \<lparr>prog_run = (\<lambda>_. racers), prog_run_for = (\<lambda>_ _. Ret (race_result Ok))\<rparr>"

definition no_limits :: dfs_params where
  "no_limits = \<lparr>dp_max_preemptions = None, dp_max_steps = None, dp_force_preempt_after_steps = None,
     dp_wake_order = False, dp_spurious_wakeups = False, dp_spurious_failures = False\<rparr>"

lemmas racers_run = dfs_run_def run_simulation_def dfs_ops_def dfs_Start_def racers_def dfs_Spawn_def dfs_push_def
  dfs_PickNext_def AddStep_def new_dfs_sched_def no_limits_def dfs_pick_def Pick_def Choose_def
  dfs_IsIdle_def verify_def Let_def dfs_DropWaitQueues_def quiet_def sl_Pop_def sl_Push.simps ResetSteps_def

lemma racers_first: "\<exists>s. dfs_run racers no_limits [] = Inr (race_result Ok, s) \<and>
    ds_schedule s = [\<lparr>br_type = BPickNext, alts = 2, index = 0\<rparr>]"
  by (simp add: racers_run)

lemma racers_then:
  assumes "br_type b = BPickNext" and "index b < 2"
  shows "\<exists>s. dfs_run racers no_limits (b # sch) =
      Inr (race_result (if index b = 1 then Deadlock else Ok), s) \<and> ds_schedule s = b # sch"
proof -
  have "index b = 0 \<or> index b = 1" using assms(2) by auto
  then show ?thesis
  proof
    assume "index b = 0"
    then show ?thesis using assms(1) by (simp add: racers_run)
  next
    assume "index b = 1"
    then show ?thesis using assms(1) by (simp add: racers_run)
  qed
qed

lemma racers_legal:
  assumes "legal racers no_limits sch"
  shows "\<exists>st s. dfs_run racers no_limits sch = Inr (race_result st, s) \<and> st \<in> {Ok, Deadlock}"
proof (cases sch)
  case Nil
  then show ?thesis using racers_first by auto
next
  case (Cons b q)
  have "legal racers no_limits [b]" using assms unfolding Cons legal_def by (auto dest: spec [of _ 0])
  then have "br_type b = BPickNext \<and> index b < 2"
    using racers_first legal_snoc [of racers no_limits "[]" b] by (auto simp: next_entry_def)
  then obtain s where "dfs_run racers no_limits sch = Inr (race_result (if index b = 1 then Deadlock else Ok), s)"
    using racers_then [of b q] Cons by blast
  then show ?thesis by (intro exI conjI) (assumption, simp)
qed

lemma racers_never_die: "never_dies racers no_limits"
  using racers_legal by (fastforce simp: never_dies_def)


section \<open>Preemption bound\<close>

lemma Pick_preempts: "Pick xs ty s = Inr (r, ys, s') \<Longrightarrow> ds_preempts s' = ds_preempts s"
  by (auto simp: Pick_def bindE_eq_Inr Let_def dfs_same_def split: if_splits prod.splits dest: Choose_same)

lemma dfs_Preempt_below:
  assumes "dfs_Preempt t ths s = Inr (True, s')" and "dp_max_preemptions (ds_params s) = Some m"
  shows "ds_preempts s < m"
  using assms by (auto simp: dfs_Preempt_def MaxPreemptsReached_def Prune_def split: if_splits)

lemma dfs_PickNext_preempts:
  assumes P: "dfs_PickNext now ths s = Inr (t, ths', s')" and m: "dp_max_preemptions (ds_params s) = Some m"
    and le: "ds_preempts s \<le> m"
  shows "ds_preempts s' \<le> m"
proof -
  obtain ths1 s1 where A: "AddStep (ds_active s) ths (s\<lparr>ds_active := None\<rparr>) = Inr (ths1, s1)"
    using P by (auto simp: dfs_PickNext_def Let_def bindE_eq_Inr)
  have a: "ds_preempts s1 = ds_preempts s" "ds_params s1 = ds_params s" using AddStep_ok [OF A] by (simp_all add: dfs_same_def)
  have pick: "ds_preempts s' = ds_preempts s2 + (if p = None then 0 else 1)" if "dfs_pick p ths1 s2 = Inr (t, ths', s')" for p s2
    using that Pick_preempts by (fastforce simp: dfs_pick_def Let_def bindE_eq_Inr split: option.splits)
  show ?thesis
  proof (cases "ds_active s")
    case None
    then show ?thesis using P A a le pick by (simp add: dfs_PickNext_def Let_def)
  next
    case (Some u)
    obtain b s2 where B: "dfs_Preempt u ths1 s1 = Inr (b, s2)" using P A Some
      by (auto simp: dfs_PickNext_def Let_def bindE_eq_Inr)
    have same: "ds_preempts s2 = ds_preempts s1" using dfs_Preempt_same [OF B] by (simp add: dfs_same_def)
    show ?thesis
    proof (cases b)
      case True
      then have "ds_preempts s1 < m" using dfs_Preempt_below [of u ths1 s1 s2 m] B a(2) m by simp
      moreover have "dfs_pick (Some u) ths1 s2 = Inr (t, ths', s')" using P A Some B True
        by (simp add: dfs_PickNext_def Let_def)
      ultimately show ?thesis using pick same by fastforce
    next
      case False
      then show ?thesis using P A Some B a same le by (simp add: dfs_PickNext_def Let_def)
    qed
  qed
qed

lemma invoke_preempts:
  assumes "invoke dfs_ops c ths s = Inr (r, ths', s')" and "dp_max_preemptions (ds_params s) = Some m" and "ds_preempts s \<le> m"
  shows "ds_preempts s' \<le> m"
proof (cases c)
  case (CPickNext now)
  then show ?thesis using assms dfs_PickNext_preempts by (auto simp: dfs_ops_def bindE_eq_Inr)
next
  case (CPop q)
  then show ?thesis using assms
    by (auto simp: dfs_ops_def dfs_wq_Pop_def PickWaiter_def fifo_Pop_def bindE_eq_Inr
        split: if_splits prod.splits dest: Pick_preempts)
next
  case (CExit t)
  then show ?thesis using assms by (auto simp: dfs_ops_def dfs_Exit_def dfs_same_def dest: AddStep_ok)
qed (use assms in \<open>auto simp: dfs_ops_def dfs_Interrupt_def dfs_SwitchTo_def dfs_Yield_def dfs_Wake_def dfs_Spawn_def
      dfs_push_def dfs_LockFree_def dfs_Progress_def dfs_NewIter_def dfs_Remove_def dfs_NewWaitQueue_def
      dfs_wq_Push_def dfs_wq_PopAll_def fifo_Pop_def dfs_wq_Remove_def dfs_RandomNumber_def dfs_RandomChoice_def
      dfs_SpuriousWakeup_def dfs_SpuriousTryFailure_def dfs_same_def Let_def bindE_eq_Inr split: if_splits prod.splits
      dest: Choose_same Either_same\<close>)



end
