(* ===== verification/Timer_Places.thy ===== *)
theory Timer_Places
  imports Timers
begin

text \<open>
  What the timer queue keeps even when its order is broken: every timer knows its place, so that
  adding, cancelling and polling work on the set of pending timers, whatever the deadlines. The
  simulator relies on this much after a cancellation (\<open>timer_cancel_misses_deadline\<close>).
\<close>

section \<open>Sifting\<close>

lemma SiftUp_places:
  assumes "locs_but k h" and "k \<in> {1..hsize h}"
  shows "locs_but 0 (SiftUp k h) \<and> same_timers h (SiftUp k h)"
  using assms
proof (induction k h rule: SiftUp.induct)
  case (1 k h)
  show ?case
  proof (cases "\<not> IsRoot k \<and> Less h k (Parent k)")
    case True
    let ?h = "UpdateTimerMetadata k (swap k (Parent k) h)"
    have k: "2 \<le> k" "k \<le> hsize h" using True 1 by (auto simp: IsRoot_def)
    have p: "Parent k \<in> {1..hsize h}" "Parent k \<noteq> k" using k by (auto simp: Parent_def)
    have "locs_but (Parent k) ?h" using locs_but_swap [of k h "Parent k"] 1 p by simp
    then have "locs_but 0 (SiftUp (Parent k) ?h) \<and> same_timers ?h (SiftUp (Parent k) ?h)"
      using "1.IH" [OF True] p by simp
    moreover have "same_timers h ?h" using same_timers_swap 1 p by simp
    ultimately show ?thesis
      using True by (subst (1 2) SiftUp.simps) (auto intro: same_timers_trans)
  next
    case False
    then show ?thesis
      using locs_but_Update same_timers_Update 1 by (subst (1 2) SiftUp.simps) auto
  qed
qed

lemma SiftDown_places:
  assumes "locs_but k h" and "k \<in> {1..hsize h}"
  shows "locs_but 0 (SiftDown k h) \<and> same_timers h (SiftDown k h)"
  using assms
proof (induction k h rule: SiftDown.induct)
  case (1 k h)
  have k: "1 \<le> k" "k \<le> hsize h" using 1 by auto
  let ?m = "MinChild h k"
  show ?case
  proof (cases "\<not> IsLeaf h k \<and> ?m \<noteq> k")
    case True
    let ?h = "UpdateTimerMetadata k (swap k ?m h)"
    have m: "?m \<in> {1..hsize h}" using MinChild_cases(1) [OF k(1), where h = h] True by auto
    have "locs_but ?m ?h" using locs_but_swap [of k h ?m] 1 m True by simp
    then have "locs_but 0 (SiftDown ?m ?h) \<and> same_timers ?h (SiftDown ?m ?h)"
      using "1.IH" [OF True] m by simp
    moreover have "same_timers h ?h" using same_timers_swap 1 m by simp
    ultimately show ?thesis
      using True by (subst (1 2) SiftDown.simps) (auto intro: same_timers_trans)
  next
    case False
    then show ?thesis
      using locs_but_Update same_timers_Update 1 by (subst (1 2) SiftDown.simps) auto
  qed
qed

section \<open>The heap\<close>

lemma heap_Insert_places:
  assumes wf: "heap_wf h" and new: "t \<notin> refs h" and room: "hsize h + 1 < kTimerLimit"
  shows "\<exists>h'. heap_Insert t h = Inr h' \<and> heap_wf h' \<and> refs h' = insert t (refs h)"
proof -
  let ?s = "hsize h + 1"
  let ?h = "h\<lparr>hsize := ?s, tree := (tree h)(?s := t)\<rparr>"
  have r: "refs ?h = insert t (refs h)" by (auto simp: refs_def)
  have "inj_on ((tree h)(?s := t)) {1..hsize h}"
    by (rule inj_on_fun_updI) (use heap_wf_inj [OF wf] new in \<open>simp_all add: refs_def\<close>)
  moreover have "((tree h)(?s := t)) ` {1..hsize h} = refs h" by (auto simp: refs_def)
  ultimately have "inj_on ((tree h)(?s := t)) (insert ?s {1..hsize h})"
    using new by (simp add: inj_on_insert)
  then have "inj_on (tree ?h) {1..hsize ?h}" by (simp add: atLeastAtMostSuc_conv)
  moreover have "loc (store ?h (tree ?h i)) = i" if "i \<in> {1..hsize ?h}" "i \<noteq> ?s" for i
    using heap_wf_loc [OF wf, of i] that by auto
  ultimately have "locs_but ?s ?h" by (simp add: locs_but_def)
  then have S: "locs_but 0 (SiftUp ?s ?h) \<and> same_timers ?h (SiftUp ?s ?h)" by (rule SiftUp_places) simp
  have "heap_Insert t h = Inr (SiftUp ?s ?h)" using room by (simp add: heap_Insert_def Let_def)
  moreover have "heap_wf (SiftUp ?s ?h)" "refs (SiftUp ?s ?h) = insert t (refs h)"
    using S r room by (simp_all add: heap_wf_def same_timers_def)
  ultimately show ?thesis by blast
qed

lemma SiftDown_move_last:
  assumes wf: "heap_wf h" and k: "k \<in> {1..hsize h - 1}" and l: "locs_but k g"
    and g: "hsize g = hsize h - 1" "refs g = refs h - {tree h k}"
  shows "heap_wf (SiftDown k g) \<and> refs (SiftDown k g) = refs h - {tree h k}"
proof -
  have kg: "k \<in> {1..hsize g}" using k g(1) by simp
  have S: "locs_but 0 (SiftDown k g)" "hsize (SiftDown k g) = hsize h - 1" "refs (SiftDown k g) = refs g"
    using SiftDown_places [OF l kg] g(1) by (simp_all add: same_timers_def)
  have "hsize h - 1 < kTimerLimit" using wf unfolding heap_wf_def by linarith
  then show ?thesis unfolding heap_wf_def S(2,3) g(2) using S(1) by blast
qed

lemma ExtractMin_places:
  assumes wf: "heap_wf h" and ne: "hsize h \<noteq> 0"
  shows "\<exists>h'. ExtractMin h = Inr (tree h 1, h') \<and> tree h 1 \<in> refs h \<and> heap_wf h' \<and>
     refs h' = refs h - {tree h 1}"
proof (cases "hsize h = 1")
  case True
  then show ?thesis
    by (auto simp: ExtractMin_def heap_IsEmpty_def refs_def heap_wf_def locs_but_def kTimerLimit_def)
next
  case False
  then have k: "1 \<in> {1..hsize h - 1}" using ne by auto
  let ?h = "move_last 1 h"
  have m: "tree h 1 \<in> refs h" using ne by (auto simp: refs_def)
  have S: "heap_wf (SiftDown 1 ?h) \<and> refs (SiftDown 1 ?h) = refs h - {tree h 1}"
    using move_last_locs [OF wf k] by (intro SiftDown_move_last [OF wf k]) (simp_all add: move_last_def)
  have "ExtractMin h = Inr (tree h 1, SiftDown 1 ?h)"
    using False ne by (simp add: ExtractMin_def heap_IsEmpty_def Let_def move_last_def)
  then show ?thesis using S m by blast
qed

lemma heap_Remove_places:
  assumes wf: "heap_wf h" and t: "t \<in> refs h"
  shows "\<exists>h'. heap_Remove t h = Inr h' \<and> heap_wf h' \<and> refs h' = refs h - {t}"
proof -
  let ?n = "hsize h" and ?k = "loc (store h t)"
  let ?st = "(store h)(t := (store h t)\<lparr>loc := 0\<rparr>)"
  have kb: "?k \<in> {1..?n}" and tk: "tree h ?k = t" using heap_wf_refs [OF wf t] by auto
  let ?h = "move_last ?k h\<lparr>store := ?st\<rparr>"
  have "h\<lparr>store := ?st, tree := (tree h)(?k := tree h (hsize h)), hsize := hsize h - 1\<rparr> = ?h"
    by (simp add: move_last_def)
  then have e: "heap_Remove t h = Inr (SiftDown ?k ?h)" using tk by (simp add: heap_Remove_def Let_def)
  show ?thesis
  proof (cases "?k = ?n")
    case False
    then have k: "?k \<in> {1..?n - 1}" using kb by auto
    have r: "refs (move_last ?k h) = refs h - {tree h ?k}" using move_last_locs(2) [OF wf k] .
    have s: "store (move_last ?k h) = store h" by (simp add: move_last_def)
    have "locs_but ?k ?h"
      using locs_but_store [OF move_last_locs(1) [OF wf k], of t] r tk s by simp
    moreover have "refs ?h = refs h - {tree h ?k}" using r by simp
    ultimately have "heap_wf (SiftDown ?k ?h) \<and> refs (SiftDown ?k ?h) = refs h - {tree h ?k}"
      by (intro SiftDown_move_last [OF wf k]) (simp_all add: move_last_def)
    then show ?thesis using e tk by auto
  next
    case True
    let ?r = "h\<lparr>hsize := ?n - 1, store := (store h)(t := (store h t)\<lparr>loc := ?n\<rparr>)\<rparr>"
    have "IsLeaf ?h ?n" using True kb by (simp add: IsLeaf_def move_last_def)
    then have "SiftDown ?k ?h = UpdateTimerMetadata ?n ?h" unfolding True by (subst SiftDown.simps) simp
    also have "\<dots> = ?r"
    proof -
      have "tree h ?n = t" using tk True by simp
      then have "(tree h)(?n := t) = tree h" by (rule fun_upd_idem)
      then show ?thesis using tk True by (simp add: UpdateTimerMetadata_def move_last_def)
    qed
    finally have e': "heap_Remove t h = Inr ?r" using e by simp
    have inj: "inj_on (tree h) {1..?n}" using wf by (rule heap_wf_inj)
    have dec: "{1..?n} = insert ?n {1..?n - 1}" "?n \<notin> {1..?n - 1}" using kb by auto
    then have "tree h ` {1..?n - 1} = tree h ` {1..?n} - {t}"
      using inj tk True by (auto dest: inj_onD)
    then have r: "refs ?r = refs h - {t}" by (simp add: refs_def)
    have "locs_but 0 (h\<lparr>hsize := ?n - 1\<rparr>)"
      using wf inj_on_subset [OF inj] by (auto simp: heap_wf_def locs_but_def)
    moreover have "t \<notin> refs (h\<lparr>hsize := ?n - 1\<rparr>)" using r by (simp add: refs_def)
    ultimately have "locs_but 0 ?r" using locs_but_store by fastforce
    then have "heap_wf ?r" using wf by (auto simp: heap_wf_def)
    then show ?thesis using e' r by blast
  qed
qed

section \<open>The queue\<close>

definition queue_wf :: "timer_queue \<Rightarrow> bool" where
  "queue_wf q \<longleftrightarrow> heap_wf (timers q)"

lemma queue_inv_wf: "queue_inv q \<Longrightarrow> queue_wf q"
  by (simp add: queue_inv_def queue_wf_def heap_inv_wf)

lemma pending_size:
  assumes "queue_wf q"
  shows "hsize (timers q) = card (pending q)"
  using card_image [OF heap_wf_inj [of "timers q"]] assms by (simp add: queue_wf_def pending_def refs_def)

lemma Add_places:
  assumes "queue_wf q" and "t \<notin> pending q" and "card (pending q) + 1 < kTimerLimit"
  shows "\<exists>q'. Add t q = Inr q' \<and> queue_wf q' \<and> pending q' = insert t (pending q)"
proof -
  let ?h = "timers q" and ?n = "next_id q + 1"
  let ?h1 = "?h\<lparr>store := (store ?h)(t := (store ?h t)\<lparr>timer_id := ?n\<rparr>)\<rparr>"
  have "heap_wf ?h1"
    using assms(1,2) by (auto simp: queue_wf_def heap_wf_def pending_def intro: locs_but_store)
  then obtain h' where "heap_Insert t ?h1 = Inr h'" "heap_wf h'" "refs h' = insert t (refs ?h)"
    using heap_Insert_places [of ?h1 t] assms pending_size [OF assms(1)] by (auto simp: pending_def)
  then show ?thesis by (simp add: Add_def Let_def queue_wf_def pending_def)
qed

lemma queue_Remove_places:
  assumes "queue_wf q" and "t \<in> pending q"
  shows "\<exists>q'. queue_Remove t q = Inr (True, q') \<and> queue_wf q' \<and> pending q' = pending q - {t}"
proof -
  let ?h = "timers q"
  have wf: "heap_wf ?h" and t: "t \<in> refs ?h" using assms by (simp_all add: queue_wf_def pending_def)
  obtain h' where "heap_Remove t ?h = Inr h'" "heap_wf h'" "refs h' = refs ?h - {t}"
    using heap_Remove_places [OF wf t] by blast
  moreover have "IsActive ?h t" using heap_wf_refs(1) [OF wf t] by (simp add: IsActive_def)
  ultimately show ?thesis by (simp add: queue_Remove_def queue_wf_def pending_def)
qed

lemma Poll_places:
  assumes "queue_wf q"
  obtains (some) t q' where "Poll now q = Inr (Some t, q')" and "t \<in> pending q" and "queue_wf q'"
      and "pending q' = pending q - {t}"
    | (none) "Poll now q = Inr (None, q)" and "pending q \<noteq> {} \<Longrightarrow> \<exists>d. NextDeadLine q = Inr d \<and> now < d"
proof (cases "\<not> heap_IsEmpty (timers q) \<and> tm_when (store (timers q) (tree (timers q) 1)) \<le> now")
  case True
  then have "hsize (timers q) \<noteq> 0" by (simp add: heap_IsEmpty_def)
  then obtain h' where h': "ExtractMin (timers q) = Inr (tree (timers q) 1, h')"
      "tree (timers q) 1 \<in> refs (timers q)" "heap_wf h'" "refs h' = refs (timers q) - {tree (timers q) 1}"
    using ExtractMin_places [of "timers q"] assms by (auto simp: queue_wf_def)
  show thesis
    by (rule some [of "tree (timers q) 1" "q\<lparr>timers := h'\<rparr>"])
      (use True h' in \<open>simp_all add: Poll_def queue_wf_def pending_def\<close>)
next
  case False
  show thesis
    by (rule none) (use False in \<open>auto simp: Poll_def NextDeadLine_def heap_Min_def heap_IsEmpty_def pending_def refs_def\<close>)
qed

text \<open>A new timer object for a timer that is not pending.\<close>

lemma set_timer_places:
  assumes "queue_wf q" and "t \<notin> pending q"
  shows "queue_wf (q\<lparr>timers := (timers q)\<lparr>store := (store (timers q))(t := x)\<rparr>\<rparr>) \<and>
    pending (q\<lparr>timers := (timers q)\<lparr>store := (store (timers q))(t := x)\<rparr>\<rparr>) = pending q"
  using assms by (auto simp: queue_wf_def heap_wf_def pending_def intro: locs_but_store)

lemma queue_Reset_places:
  "pending q = {} \<Longrightarrow> queue_wf q \<Longrightarrow> \<exists>q'. queue_Reset q = Inr q' \<and> queue_wf q' \<and> pending q' = {}"
  by (auto simp: queue_Reset_def heap_IsEmpty_def pending_def refs_def queue_wf_def)

end
