(* ===== verification/Sim_Rules.thy ===== *)
theory Sim_Rules
  imports Sim_State Sched_Client
begin

text \<open>
  A logic for the code of the simulator: the rules by which a piece of code, run on a state of the
  simulator and a view of the scheduler, keeps to the simulator's side of the scheduler's contract
  and comes to a given condition, normally or with the exception \<open>SysAbortEx\<close>. The faults that the
  program under test may cause are listed; all others are excluded.
\<close>

section \<open>Faults\<close>

definition user_messages :: "string set" where
  "user_messages = {''Too many threads'', ''SwitchTo is not supported in non-preemptive mode'', ''alts == 0'',
     ''Cannot write to fd'', ''count value not supported'', ''Atomic size mismatch'', ''Unsupported atomic size'',
     ''Unexpected futex location'', ''Fence not supported'', ''Unexpected memory order for atomic load'',
     ''Unexpected memory order for atomic store'', ''There are alive threads after main completion'',
     ''Invalid assist::SwitchToFiber: target fiber coincides with the current fiber'', ''Time is broken''}"

text \<open>
  The panics a program provokes by misuse, and the end of the bound on the length of a simulation.
\<close>

fun user_fault :: "fault \<Rightarrow> bool" where
  "user_fault (Panic m) = (m \<in> user_messages)"
| "user_fault NoReturn = True"
| "user_fault (SysAbortEx st) = False"

section \<open>Conditions\<close>

text \<open>
  A condition speaks of the state of the simulator, what the scheduler holds, whether it is known
  not to be idle, and whether no interrupted thread is waiting for the next pick.
\<close>

type_synonym 'u condition = "'u simulator \<Rightarrow> sched_view \<Rightarrow> bool \<Rightarrow> bool \<Rightarrow> bool"

definition run_ok :: "('u simulator \<Rightarrow> sched_view \<Rightarrow> bool) \<Rightarrow> 'u simulator client \<Rightarrow> sched_view \<Rightarrow> bool \<Rightarrow> bool \<Rightarrow> bool" where
  "run_ok Q = client_wp (\<lambda>s. sm_status s = Some Pruned) user_fault Q True True"

definition wps :: "('u, 'a) sim \<Rightarrow> 'u simulator \<Rightarrow> sched_view \<Rightarrow> bool \<Rightarrow> bool \<Rightarrow>
    ('a \<Rightarrow> 'u condition) \<Rightarrow> 'u condition \<Rightarrow> bool" where
  "wps m s v b t K H \<longleftrightarrow> (\<forall>Q k h.
     (\<forall>a s' v' b' t'. K a s' v' b' t' \<longrightarrow> run_ok Q (k a s') v' b' t') \<longrightarrow>
     (\<forall>s' v' b' t'. H s' v' b' t' \<longrightarrow> run_ok Q (h s') v' b' t') \<longrightarrow> run_ok Q (m s k h) v b t)"

lemma wpsI:
  assumes "\<And>Q k h. (\<And>a s' v' b' t'. K a s' v' b' t' \<Longrightarrow> run_ok Q (k a s') v' b' t') \<Longrightarrow>
     (\<And>s' v' b' t'. H s' v' b' t' \<Longrightarrow> run_ok Q (h s') v' b' t') \<Longrightarrow> run_ok Q (m s k h) v b t"
  shows "wps m s v b t K H"
  using assms by (simp add: wps_def)

lemma wpsD:
  assumes "wps m s v b t K H"
    and "\<And>a s' v' b' t'. K a s' v' b' t' \<Longrightarrow> run_ok Q (k a s') v' b' t'"
    and "\<And>s' v' b' t'. H s' v' b' t' \<Longrightarrow> run_ok Q (h s') v' b' t'"
  shows "run_ok Q (m s k h) v b t"
  using assms by (simp add: wps_def)

text \<open>Weakening.\<close>

lemma wps_conseq:
  assumes "wps m s v b t K H"
    and "\<And>a s' v' b' t'. K a s' v' b' t' \<Longrightarrow> K' a s' v' b' t'"
    and "\<And>s' v' b' t'. H s' v' b' t' \<Longrightarrow> H' s' v' b' t'"
  shows "wps m s v b t K' H'"
  by (rule wpsI) (blast intro: wpsD [OF assms(1)] assms(2,3))

section \<open>Rules\<close>

named_theorems wps_rules

lemma wps_ret [wps_rules]: "K a s v b t \<Longrightarrow> wps (ret a) s v b t K H"
  by (rule wpsI) (simp add: ret_def)

lemma wps_andThen [wps_rules]:
  fixes m :: "('u, 'a) sim" and f :: "'a \<Rightarrow> ('u, 'b) sim"
  assumes "wps m s v b t (\<lambda>a s' v' b' t'. wps (f a) s' v' b' t' K H) H"
  shows "wps (andThen m f) s v b t K H"
proof (rule wpsI)
  fix Q and k :: "'b \<Rightarrow> 'u simulator \<Rightarrow> 'u simulator client" and h
  assume K: "\<And>a s' v' b' t'. K a s' v' b' t' \<Longrightarrow> run_ok Q (k a s') v' b' t'"
    and H: "\<And>s' v' b' t'. H s' v' b' t' \<Longrightarrow> run_ok Q (h s') v' b' t'"
  show "run_ok Q (andThen m f s k h) v b t"
    unfolding andThen_def by (rule wpsD [OF assms _ H], rule wpsD [OF _ K H])
qed

lemma wps_get [wps_rules]: "K (f s) s v b t \<Longrightarrow> wps (get f) s v b t K H"
  by (rule wpsI) (simp add: get_def)

lemma wps_modify [wps_rules]: "K () (f s) v b t \<Longrightarrow> wps (modify f) s v b t K H"
  by (rule wpsI) (simp add: modify_def)

lemma wps_panic: "msg \<in> user_messages \<Longrightarrow> wps (panic msg) s v b t K H"
  by (rule wpsI) (simp add: panic_def run_ok_def)

lemma wps_check:
  "(c \<Longrightarrow> K () s v b t) \<Longrightarrow> (\<not> c \<Longrightarrow> msg \<in> user_messages) \<Longrightarrow> wps (check c msg) s v b t K H"
  by (auto simp: check_def intro: wps_ret wps_panic)

lemma wps_no_return [wps_rules]: "wps no_return s v b t K H"
  by (rule wpsI) (simp add: no_return_def run_ok_def)

lemma wps_SysAbort [wps_rules]: "H (s\<lparr>sm_status := Some st\<rparr>) v b t \<Longrightarrow> wps (SysAbort st) s v b t K H"
  by (rule wpsI) (simp add: SysAbort_def)

lemma wps_try_catch:
  fixes m :: "('u, 'a) sim"
  assumes "wps m s v b t K (\<lambda>s' v' b' t'. wps r s' v' b' t' K H)"
  shows "wps (try_catch m r) s v b t K H"
proof (rule wpsI)
  fix Q and k :: "'a \<Rightarrow> 'u simulator \<Rightarrow> 'u simulator client" and h
  assume K: "\<And>a s' v' b' t'. K a s' v' b' t' \<Longrightarrow> run_ok Q (k a s') v' b' t'"
    and H: "\<And>s' v' b' t'. H s' v' b' t' \<Longrightarrow> run_ok Q (h s') v' b' t'"
  show "run_ok Q (try_catch m r s k h) v b t"
    unfolding try_catch_def by (rule wpsD [OF assms K], assumption, rule wpsD [OF _ K H])
qed

lemma wps_lift:
  assumes "\<And>a. m = Inr a \<Longrightarrow> K a s v b t"
    and "\<And>st. m = Inl (SysAbortEx st) \<Longrightarrow> H (s\<lparr>sm_status := Some st\<rparr>) v b t"
    and "\<And>msg. m = Inl (Panic msg) \<Longrightarrow> msg \<in> user_messages"
  shows "wps (lift m) s v b t K H"
proof (cases m)
  case (Inl f)
  then show ?thesis using assms(2,3)
    by (cases f) (simp_all add: lift_def wps_SysAbort wps_panic wps_no_return)
next
  case (Inr a)
  then show ?thesis using assms(1) by (simp add: lift_def wps_ret)
qed

lemma wps_lift_msg:
  assumes "\<And>a. m = Inr a \<Longrightarrow> K a s v b t" and "\<And>msg. m = Inl msg \<Longrightarrow> msg \<in> user_messages"
  shows "wps (lift_msg m) s v b t K H"
  using assms by (cases m) (simp_all add: lift_msg_def wps_ret wps_panic)

lemma wps_if [wps_rules]:
  "(c \<Longrightarrow> wps m s v b t K H) \<Longrightarrow> (\<not> c \<Longrightarrow> wps m' s v b t K H) \<Longrightarrow>
     wps (if c then m else m') s v b t K H"
  by simp

lemma wps_option [wps_rules]:
  "(o1 = None \<Longrightarrow> wps m s v b t K H) \<Longrightarrow> (\<And>x. o1 = Some x \<Longrightarrow> wps (f x) s v b t K H) \<Longrightarrow>
     wps (case o1 of None \<Rightarrow> m | Some x \<Rightarrow> f x) s v b t K H"
  by (cases o1) simp_all

lemma wps_prod [wps_rules]:
  "(\<And>x y. p = (x, y) \<Longrightarrow> wps (f x y) s v b t K H) \<Longrightarrow> wps (case p of (x, y) \<Rightarrow> f x y) s v b t K H"
  by (cases p) simp

section \<open>Calls of the scheduler\<close>

lemma wps_sched:
  assumes "call_pre c v" and "is_Pick c \<Longrightarrow> b" and "is_Interrupt c \<or> is_Remove c \<Longrightarrow> t"
    and "\<And>r v'. call_spec c r v v' \<Longrightarrow> K r s v' (readies c) (is_Pick c \<or> t \<and> \<not> is_Interrupt c)"
  shows "wps (sched c) s v b t K H"
  using assms by (intro wpsI) (auto simp: sched_def run_ok_def)

lemma wps_idle:
  assumes "\<not> b \<Longrightarrow> held v = {} \<Longrightarrow> K True s v False True" and "held v \<noteq> {} \<Longrightarrow> K False s v True t"
  shows "wps run_queue_idle s v b t K H"
  using assms by (intro wpsI) (auto simp: run_queue_idle_def run_ok_def)

lemma wps_queue_empty [wps_rules]:
  "K (waiting v q = {}) s v b t \<Longrightarrow> wps (sched_queue_empty q) s v b t K H"
  by (rule wpsI) (simp add: sched_queue_empty_def run_ok_def)

text \<open>The calls that do not tell of the scheduler's threads.\<close>

lemma readies_simps [simp]:
  "readies (CWake u)" "readies (CYield u)" "readies (CSpawn u)"
  "\<not> readies (CInterrupt now u)" "\<not> readies (CSwitchTo u w)" "\<not> readies (CExit u)" "\<not> readies (CLockFree u on)"
  "\<not> readies (CProgress u)" "\<not> readies CNewIter" "\<not> readies (CPickNext now)" "\<not> readies (CRemove u)"
  "\<not> readies CNewWaitQueue" "\<not> readies (CPush q u)" "\<not> readies (CPop q)" "\<not> readies (CPopAll q)"
  "\<not> readies (CWqRemove q u)" "\<not> readies CRandomNumber" "\<not> readies (CRandomChoice n)"
  "\<not> readies CSpuriousWakeup" "\<not> readies CSpuriousTryFailure"
  by (auto simp: readies_def)

lemma is_Pick_simps [simp]:
  "is_Pick (CPickNext now)" "\<not> is_Pick (CInterrupt now u)" "\<not> is_Pick (CSwitchTo u w)" "\<not> is_Pick (CYield u)"
  "\<not> is_Pick (CWake u)" "\<not> is_Pick (CSpawn u)" "\<not> is_Pick (CExit u)" "\<not> is_Pick (CLockFree u on)"
  "\<not> is_Pick (CProgress u)" "\<not> is_Pick CNewIter" "\<not> is_Pick (CRemove u)"
  "\<not> is_Pick CNewWaitQueue" "\<not> is_Pick (CPush q u)" "\<not> is_Pick (CPop q)" "\<not> is_Pick (CPopAll q)"
  "\<not> is_Pick (CWqRemove q u)" "\<not> is_Pick CRandomNumber" "\<not> is_Pick (CRandomChoice n)"
  "\<not> is_Pick CSpuriousWakeup" "\<not> is_Pick CSpuriousTryFailure"
  by (auto simp: is_Pick_def)

lemma is_Interrupt_simps [simp]:
  "is_Interrupt (CInterrupt now u)" "\<not> is_Interrupt (CPickNext now)" "\<not> is_Interrupt (CSwitchTo u w)"
  "\<not> is_Interrupt (CYield u)" "\<not> is_Interrupt (CWake u)" "\<not> is_Interrupt (CSpawn u)" "\<not> is_Interrupt (CExit u)"
  "\<not> is_Interrupt (CLockFree u on)" "\<not> is_Interrupt (CProgress u)" "\<not> is_Interrupt CNewIter" "\<not> is_Interrupt (CRemove u)"
  "\<not> is_Interrupt CNewWaitQueue" "\<not> is_Interrupt (CPush q u)" "\<not> is_Interrupt (CPop q)" "\<not> is_Interrupt (CPopAll q)"
  "\<not> is_Interrupt (CWqRemove q u)" "\<not> is_Interrupt CRandomNumber" "\<not> is_Interrupt (CRandomChoice n)"
  "\<not> is_Interrupt CSpuriousWakeup" "\<not> is_Interrupt CSpuriousTryFailure"
  by (auto simp: is_Interrupt_def)

lemma wps_sched_do:
  assumes "call_pre c v" and "is_Pick c \<Longrightarrow> b" and "is_Interrupt c \<or> is_Remove c \<Longrightarrow> t"
    and "\<And>r v'. call_spec c r v v' \<Longrightarrow> K () s v' (readies c) (is_Pick c \<or> t \<and> \<not> is_Interrupt c)"
  shows "wps (sched_do c) s v b t K H"
  unfolding sched_do_def by (intro wps_rules wps_sched) (use assms in auto)

text \<open>A call that hands a thread over.\<close>

lemma wps_hand:
  assumes "hands c = Some u" and "u \<in> thread_ids - somewhere v" and "is_Interrupt c \<Longrightarrow> t"
    and "\<And>b' t'. (readies c \<longrightarrow> b') \<Longrightarrow> (t \<and> \<not> is_Interrupt c \<longrightarrow> t') \<Longrightarrow> K () s (v\<lparr>held := insert u (held v)\<rparr>) b' t'"
  shows "wps (sched_do c) s v b t K H"
  by (rule wps_sched_do) (use assms in \<open>cases c; simp add: is_Pick_def\<close>)+

text \<open>A call that leaves the threads where they are.\<close>

lemma wps_sched_keep:
  assumes "c = CExit u \<and> u \<in> thread_ids - somewhere v \<or> c = CLockFree u on \<and> u \<in> thread_ids - somewhere v \<or>
      c = CProgress u \<and> u \<in> thread_ids - somewhere v \<or> c = CNewIter"
    and "K () s v False t"
  shows "wps (sched_do c) s v b t K H"
  by (rule wps_sched_do) (use assms in auto)

lemma wps_answers:
  "(\<And>x. K x s v False t) \<Longrightarrow> wps (sched_number CRandomNumber) s v b t K H"
  "0 < n \<Longrightarrow> (\<And>i. K1 i s v False t) \<Longrightarrow> wps (sched_index (CRandomChoice n)) s v b t K1 H"
  "(\<And>y. K2 y s v False t) \<Longrightarrow> wps (sched_bool CSpuriousWakeup) s v b t K2 H"
  "(\<And>y. K2 y s v False t) \<Longrightarrow> wps (sched_bool CSpuriousTryFailure) s v b t K2 H"
  unfolding sched_number_def sched_index_def sched_bool_def
  by (rule wps_andThen, rule wps_sched; (clarsimp; rule wps_ret)?; simp)+

lemma wps_pick:
  assumes "b" and "\<And>u. u \<in> held v \<Longrightarrow> K u s (v\<lparr>held := held v - {u}\<rparr>) False True"
  shows "wps (sched_thread (CPickNext now)) s v b t K H"
  unfolding sched_thread_def
  by (rule wps_andThen, rule wps_sched; (clarsimp; rule wps_ret)?; simp add: assms)

lemma wps_remove:
  assumes "t" and "K () s (v\<lparr>held := held v - {u}\<rparr>) False True"
  shows "wps (sched_do (CRemove u)) s v b t K H"
  by (rule wps_sched_do) (use assms in auto)

section \<open>Loops\<close>

text \<open>A condition on the rest of the list that each turn keeps.\<close>

lemma wps_for_each:
  assumes "I xs s v b t"
    and "\<And>x ys s v b t. I (x # ys) s v b t \<Longrightarrow> wps (f x) s v b t (\<lambda>_. I ys) H"
    and "\<And>s v b t. I [] s v b t \<Longrightarrow> K () s v b t"
  shows "wps (for_each xs f) s v b t K H"
  using assms(1)
proof (induction xs arbitrary: s v b t)
  case Nil
  then show ?case by (auto intro: wps_ret assms(3))
next
  case (Cons x xs)
  show ?case
    by (simp, rule wps_andThen, rule wps_conseq [OF assms(2) [OF Cons.prems]]) (auto intro: Cons.IH)
qed

end
