(* ===== verification/Futex_Queues.thy ===== *)
theory Futex_Queues
  imports Sim_State Sim_Rules Futex
begin

text \<open>
  The wait queues of the futexes against the contract of the scheduler: the map \<open>W\<close> says which futex
  a thread is parked on; \<open>futex_linked\<close> relates it to the futexes and to what the scheduler's queues hold. The
  operations of a wait queue move one thread in or out.
\<close>

section \<open>Futexes and the queues of the scheduler\<close>

definition wq_members :: "wait_queue \<Rightarrow> sched_view \<Rightarrow> tid set" where
  "wq_members w v = (case wq_waiters w of Some q \<Rightarrow> waiting v q | None \<Rightarrow> set_option (wq_singleton w))"

text \<open>The futexes hold the threads of \<open>W\<close>, each queue of the scheduler belongs to one futex.\<close>

definition futex_linked :: "(futex_key \<Rightarrow> wait_queue option) \<Rightarrow> sched_view \<Rightarrow> (tid \<Rightarrow> futex_key option) \<Rightarrow> bool" where
  "futex_linked fs v W \<longleftrightarrow>
     (\<forall>fk. {u. W u = Some fk} = (case fs fk of None \<Rightarrow> {} | Some w \<Rightarrow> wq_members w v)) \<and>
     (\<forall>fk w q. fs fk = Some w \<longrightarrow> wq_waiters w = Some q \<longrightarrow> q < queues v) \<and>
     (\<forall>fk fk' w w' q. fs fk = Some w \<longrightarrow> fs fk' = Some w' \<longrightarrow> wq_waiters w = Some q \<longrightarrow> wq_waiters w' = Some q \<longrightarrow>
        fk = fk') \<and>
     (\<forall>q. waiting v q \<noteq> {} \<longrightarrow> (\<exists>fk w. fs fk = Some w \<and> wq_waiters w = Some q))"

lemma linked_eq:
  assumes "futex_linked fs v W"
  shows "{u. W u = Some fk} = (case fs fk of None \<Rightarrow> {} | Some w \<Rightarrow> wq_members w v)"
  using assms unfolding futex_linked_def by (elim conjE allE)

lemma linkedI:
  assumes "\<And>fk. {u. W u = Some fk} = (case fs fk of None \<Rightarrow> {} | Some w \<Rightarrow> wq_members w v)"
    and "\<And>fk w q. fs fk = Some w \<Longrightarrow> wq_waiters w = Some q \<Longrightarrow> q < queues v"
    and "\<And>fk fk' w w' q. fs fk = Some w \<Longrightarrow> fs fk' = Some w' \<Longrightarrow> wq_waiters w = Some q \<Longrightarrow> wq_waiters w' = Some q \<Longrightarrow>
        fk = fk'"
    and "\<And>q. waiting v q \<noteq> {} \<Longrightarrow> \<exists>fk w. fs fk = Some w \<and> wq_waiters w = Some q"
  shows "futex_linked fs v W"
  unfolding futex_linked_def
  by (intro conjI allI impI) (rule assms(1), erule (1) assms(2), erule (3) assms(3), erule assms(4))

lemma linked_members:
  "futex_linked fs v W \<Longrightarrow> fs fk = Some w \<Longrightarrow> wq_members w v = {u. W u = Some fk}"
  using linked_eq [of fs v W fk] by (simp only: option.case)

lemma linked_none:
  assumes L: "futex_linked fs v W" and n: "fs fk = None"
  shows "W u \<noteq> Some fk"
proof
  assume "W u = Some fk"
  then have "u \<in> {u. W u = Some fk}" by (rule CollectI)
  also have "{u. W u = Some fk} = (case fs fk of None \<Rightarrow> {} | Some w \<Rightarrow> wq_members w v)" using L by (rule linked_eq)
  also have "\<dots> = {}" unfolding n by (rule option.case(1))
  finally show False by (rule emptyE)
qed

lemma linked_owned: "futex_linked fs v W \<Longrightarrow> waiting v q \<noteq> {} \<Longrightarrow> \<exists>fk w. fs fk = Some w \<and> wq_waiters w = Some q"
  unfolding futex_linked_def by blast

lemma linked_some: "futex_linked fs v W \<Longrightarrow> W u = Some fk \<Longrightarrow> \<exists>w. fs fk = Some w \<and> u \<in> wq_members w v"
proof (cases "fs fk")
  case None
  assume "futex_linked fs v W" "W u = Some fk"
  then show ?thesis using linked_none None by blast
next
  case (Some w)
  assume L: "futex_linked fs v W" and u: "W u = Some fk"
  have "u \<in> {u. W u = Some fk}" using u by (rule CollectI)
  then have "u \<in> wq_members w v" unfolding linked_members [OF L Some] .
  then show ?thesis using Some by blast
qed

lemma linked_queue: "futex_linked fs v W \<Longrightarrow> fs fk = Some w \<Longrightarrow> wq_waiters w = Some q \<Longrightarrow> q < queues v"
  unfolding futex_linked_def by blast

lemma linked_owner:
  "futex_linked fs v W \<Longrightarrow> fs fk = Some w \<Longrightarrow> fs fk' = Some w' \<Longrightarrow> wq_waiters w = Some q \<Longrightarrow> wq_waiters w' = Some q \<Longrightarrow>
     fk = fk'"
  unfolding futex_linked_def by blast

lemma linked_waiting:
  assumes "futex_linked fs v W" and "u \<in> waiting v q"
  shows "\<exists>fk w. fs fk = Some w \<and> wq_waiters w = Some q \<and> W u = Some fk"
proof -
  obtain fk w where w: "fs fk = Some w" "wq_waiters w = Some q"
    using linked_owned [OF assms(1)] assms(2) by blast
  have "u \<in> wq_members w v" using w assms(2) by (simp add: wq_members_def)
  then show ?thesis using linked_members [OF assms(1) w(1)] w by blast
qed

lemma linked_somewhere: "futex_linked fs v W \<Longrightarrow> somewhere v \<subseteq> held v \<union> dom W"
  using linked_waiting by (fastforce simp: somewhere_def)

text \<open>Looking a futex up makes it, without waiters.\<close>

lemma linked_new: "futex_linked fs v W \<Longrightarrow> fs fk = None \<Longrightarrow> futex_linked (fs(fk \<mapsto> new_wait_queue)) v W"
proof -
  assume L: "futex_linked fs v W" and n: "fs fk = None"
  let ?fs = "fs(fk \<mapsto> new_wait_queue)"
  have old: "fs fk' = Some w" if "?fs fk' = Some w" "wq_waiters w = Some q" for fk' w q
    using that by (auto simp: new_wait_queue_def split: if_splits)
  show "futex_linked ?fs v W"
  proof (rule linkedI)
    fix fk'
    show "{u. W u = Some fk'} = (case ?fs fk' of None \<Rightarrow> {} | Some w \<Rightarrow> wq_members w v)"
      using linked_eq [OF L, of fk'] n by (simp add: new_wait_queue_def wq_members_def)
  next
    fix q
    assume "waiting v q \<noteq> {}"
    then obtain fk' w where "fs fk' = Some w" "wq_waiters w = Some q" using linked_owned [OF L] by blast
    moreover from this n have "fk' \<noteq> fk" by auto
    ultimately show "\<exists>fk' w. ?fs fk' = Some w \<and> wq_waiters w = Some q" by auto
  qed (use old linked_queue [OF L] linked_owner [OF L] in \<open>blast+\<close>)
qed

text \<open>One futex and its queue change.\<close>

lemma linked_update:
  assumes L: "futex_linked fs v W" and w: "fs fk = Some w"
    and own: "\<And>q. wq_waiters w' = Some q \<Longrightarrow> q < queues v' \<and> (wq_waiters w = Some q \<or> queues v \<le> q)"
    and grow: "queues v \<le> queues v'" and keep: "wq_waiters w \<noteq> None \<Longrightarrow> wq_waiters w' = wq_waiters w"
    and rest: "\<And>q. wq_waiters w' \<noteq> Some q \<Longrightarrow> waiting v' q = waiting v q"
    and W: "{u. W' u = Some fk} = wq_members w' v'" "\<And>fk'. fk' \<noteq> fk \<Longrightarrow> {u. W' u = Some fk'} = {u. W u = Some fk'}"
  shows "futex_linked (fs(fk \<mapsto> w')) v' W'"
proof -
  have other: "wq_waiters w' \<noteq> Some q" if "fs fk' = Some w2" "wq_waiters w2 = Some q" "fk' \<noteq> fk" for fk' w2 q
  proof
    assume "wq_waiters w' = Some q"
    then have "wq_waiters w = Some q \<or> queues v \<le> q" using own by blast
    then show False using linked_owner [OF L that(1) w that(2)] linked_queue [OF L that(1,2)] that(3) by auto
  qed
  have same: "wq_members w2 v' = wq_members w2 v" if "fs fk' = Some w2" "fk' \<noteq> fk" for fk' w2
    using other [OF that(1) _ that(2)] rest by (auto simp: wq_members_def split: option.split)
  show ?thesis
  proof (rule linkedI)
    fix fk'
    show "{u. W' u = Some fk'} = (case (fs(fk \<mapsto> w')) fk' of None \<Rightarrow> {} | Some w \<Rightarrow> wq_members w v')"
    proof (cases "fk' = fk")
      case False
      then have "{u. W' u = Some fk'} = (case fs fk' of None \<Rightarrow> {} | Some w \<Rightarrow> wq_members w v)"
        using W(2) linked_eq [OF L, of fk'] by simp
      then show ?thesis using False same [of fk'] by (cases "fs fk'") simp_all
    qed (simp add: W(1))
  next
    fix fk' w2 q
    assume w2: "(fs(fk \<mapsto> w')) fk' = Some w2" "wq_waiters w2 = Some q"
    show "q < queues v'"
    proof (cases "fk' = fk")
      case True
      then show ?thesis using w2 own by auto
    next
      case False
      then have "q < queues v" using w2 linked_queue [OF L, of fk' w2 q] by simp
      then show ?thesis using grow by simp
    qed
  next
    fix fk1 fk2 w1 w2 q
    assume a: "(fs(fk \<mapsto> w')) fk1 = Some w1" "(fs(fk \<mapsto> w')) fk2 = Some w2"
      "wq_waiters w1 = Some q" "wq_waiters w2 = Some q"
    then show "fk1 = fk2"
      using other [of fk1 w1 q] other [of fk2 w2 q] linked_owner [OF L, of fk1 w1 fk2 w2 q]
      by (cases "fk1 = fk"; cases "fk2 = fk") simp_all
  next
    fix q
    assume ne: "waiting v' q \<noteq> {}"
    show "\<exists>fk' w2. (fs(fk \<mapsto> w')) fk' = Some w2 \<and> wq_waiters w2 = Some q"
    proof (cases "wq_waiters w' = Some q")
      case False
      then have "waiting v q \<noteq> {}" using ne rest by simp
      then obtain fk' w2 where f: "fs fk' = Some w2" "wq_waiters w2 = Some q" using linked_owned [OF L] by blast
      then have "fk' \<noteq> fk" using keep w False by auto
      then show ?thesis using f by auto
    qed auto
  qed
qed

section \<open>The code of the wait queues\<close>

text \<open>A thread that is nowhere is pushed, and waits.\<close>

lemma wps_push:
  assumes L: "futex_linked fs v W" and w: "fs fk = Some w" and u: "W u = None" "u \<in> thread_ids" "u \<notin> held v"
    and D: "held v \<inter> dom W = {}" "dom W \<subseteq> thread_ids"
    and K: "\<And>w' v' b'. futex_linked (fs(fk \<mapsto> w')) v' (W(u \<mapsto> fk)) \<Longrightarrow> held v' = held v \<Longrightarrow> K w' s v' b' t"
  shows "wps (wait_queue_Push u w) s v b t K H"
proof -
  have un: "u \<in> thread_ids - somewhere v" using linked_somewhere [OF L] u by blast
  have W': "{x. (W(u \<mapsto> fk)) x = Some fk} = insert u (wq_members w v)"
      "{x. (W(u \<mapsto> fk)) x = Some fk'} = {x. W x = Some fk'}" if "fk' \<noteq> fk" for fk'
    using linked_members [OF L w] u(1) that by auto
  show ?thesis
  proof (cases "wq_waiters w")
    case (Some q)
    let ?v = "v\<lparr>waiting := (waiting v)(q := insert u (waiting v q))\<rparr>"
    have q: "q < queues v" using linked_queue [OF L w Some] .
    have m: "wq_members w ?v = insert u (wq_members w v)" using Some by (simp add: wq_members_def)
    have "futex_linked (fs(fk \<mapsto> w)) ?v (W(u \<mapsto> fk))"
    proof (rule linked_update [OF L w])
      show "{x. (W(u \<mapsto> fk)) x = Some fk} = wq_members w ?v" unfolding m using linked_members [OF L w] u(1) by auto
    qed (use Some q u(1) in auto)
    then show ?thesis
      unfolding wait_queue_Push_def Some using q un
      by (auto intro!: wps_rules wps_sched_do K)
  next
    case None
    show ?thesis
    proof (cases "wq_singleton w")
      case sNone: None
      have "futex_linked (fs(fk \<mapsto> w\<lparr>wq_singleton := Some u\<rparr>)) v (W(u \<mapsto> fk))"
      proof (rule linked_update [OF L w])
        show "{x. (W(u \<mapsto> fk)) x = Some fk} = wq_members (w\<lparr>wq_singleton := Some u\<rparr>) v"
          using linked_members [OF L w] None sNone u(1) by (auto simp: wq_members_def)
      qed (use None u(1) in auto)
      then show ?thesis
        unfolding wait_queue_Push_def None sNone by (auto simp: TryPush_def intro!: wps_rules K)
    next
      case (Some y)
      let ?q = "queues v" and ?w = "w\<lparr>wq_waiters := Some (queues v), wq_singleton := None\<rparr>"
      let ?v1 = "v\<lparr>waiting := (waiting v)(?q := {}), queues := ?q + 1\<rparr>"
      let ?v2 = "?v1\<lparr>waiting := (waiting ?v1)(?q := insert y (waiting ?v1 ?q))\<rparr>"
      let ?v3 = "?v2\<lparr>waiting := (waiting ?v2)(?q := insert u (waiting ?v2 ?q))\<rparr>"
      have wy: "wq_members w v = {y}" using None Some by (simp add: wq_members_def)
      then have Wy: "W y = Some fk" using linked_members [OF L w] by auto
      then have yu: "y \<noteq> u" using u(1) by auto
      have yt: "y \<in> thread_ids" "y \<notin> held v" using D Wy by blast+
      have yw: "y \<notin> waiting v q" for q
      proof
        assume "y \<in> waiting v q"
        then obtain fk' w' where "fs fk' = Some w'" "wq_waiters w' = Some q" "W y = Some fk'"
          using linked_waiting [OF L] by blast
        then show False using Wy w None by auto
      qed
      have uw: "u \<notin> waiting v q" for q using un by (auto simp: somewhere_def)
      have qe: "waiting v ?q = {}"
      proof (rule ccontr)
        assume "waiting v ?q \<noteq> {}"
        then obtain x where "x \<in> waiting v ?q" by blast
        then show False using linked_waiting [OF L] linked_queue [OF L] by blast
      qed
      have "futex_linked (fs(fk \<mapsto> ?w)) ?v3 (W(u \<mapsto> fk))"
      proof (rule linked_update [OF L w])
        show "{x. (W(u \<mapsto> fk)) x = Some fk} = wq_members ?w ?v3"
          using linked_members [OF L w] wy u(1) by (auto simp: wq_members_def)
      qed (use None u(1) in auto)
      moreover have "y \<in> thread_ids - somewhere ?v1" "u \<in> thread_ids - somewhere ?v2"
        using yt yw uw u yu by (auto simp: somewhere_def)
      ultimately show ?thesis
        unfolding wait_queue_Push_def None Some sched_queue_def
        by (auto simp: TryPush_def singleton_Pop_def lift_msg_def intro!: wps_rules wps_sched wps_sched_do K)
    qed
  qed
qed

text \<open>A waiter is taken out, unless there is none.\<close>

lemma linked_take:
  assumes L: "futex_linked fs v W" and w: "fs fk = Some w" and y: "W y = Some fk"
  shows "wq_waiters w = Some q \<Longrightarrow>
      futex_linked (fs(fk \<mapsto> w)) (v\<lparr>waiting := (waiting v)(q := waiting v q - {y})\<rparr>) (W(y := None))"
    and "wq_waiters w = None \<Longrightarrow> futex_linked (fs(fk \<mapsto> w\<lparr>wq_singleton := None\<rparr>)) v (W(y := None))"
proof -
  have m: "{x. (W(y := None)) x = Some fk} = wq_members w v - {y}" using linked_members [OF L w] by auto
  have o: "{x. (W(y := None)) x = Some fk'} = {x. W x = Some fk'}" if "fk' \<noteq> fk" for fk' using y that by auto
  show "futex_linked (fs(fk \<mapsto> w)) (v\<lparr>waiting := (waiting v)(q := waiting v q - {y})\<rparr>) (W(y := None))"
    if q: "wq_waiters w = Some q"
  proof (rule linked_update [OF L w])
    show "{x. (W(y := None)) x = Some fk} = wq_members w (v\<lparr>waiting := (waiting v)(q := waiting v q - {y})\<rparr>)"
      unfolding m using q by (simp add: wq_members_def)
  qed (use q linked_queue [OF L w] o in auto)
  show "futex_linked (fs(fk \<mapsto> w\<lparr>wq_singleton := None\<rparr>)) v (W(y := None))" if n: "wq_waiters w = None"
  proof (rule linked_update [OF L w])
    have "y \<in> wq_members w v" using y linked_members [OF L w] by blast
    then show "{x. (W(y := None)) x = Some fk} = wq_members (w\<lparr>wq_singleton := None\<rparr>) v"
      unfolding m using n by (auto simp: wq_members_def)
  qed (use n o in auto)
qed

lemma take_one:
  assumes L: "futex_linked fs v W" and w: "fs fk = Some w" and q: "wq_waiters w = Some q" and "take_waiter q r v v'"
  shows "r = RWaiter None \<and> {u. W u = Some fk} = {} \<and> v' = v \<or>
    (\<exists>y. r = RWaiter (Some y) \<and> W y = Some fk \<and> futex_linked (fs(fk \<mapsto> w)) v' (W(y := None)) \<and> held v' = held v)"
proof -
  have m: "{u. W u = Some fk} = waiting v q" using linked_members [OF L w] q by (simp add: wq_members_def)
  consider "r = RWaiter None" "waiting v q = {}" "v' = v"
    | y where "y \<in> waiting v q" "r = RWaiter (Some y)" "v' = v\<lparr>waiting := (waiting v)(q := waiting v q - {y})\<rparr>"
    using assms(4) unfolding take_waiter_def by blast
  then show ?thesis
  proof cases
    case 1
    then show ?thesis using m by simp
  next
    case 2
    then have y: "W y = Some fk" using m by blast
    show ?thesis using linked_take(1) [OF L w y q] 2 y by simp
  qed
qed

lemma wps_pop:
  assumes L: "futex_linked fs v W" and w: "fs fk = Some w"
    and some: "\<And>y w' v' b'. W y = Some fk \<Longrightarrow> futex_linked (fs(fk \<mapsto> w')) v' (W(y := None)) \<Longrightarrow> held v' = held v \<Longrightarrow>
        K (Some y, w') s v' b' t"
    and none: "\<And>b'. {u. W u = Some fk} = {} \<Longrightarrow> K (None, w) s v b' t"
  shows "wps (wait_queue_Pop w) s v b t K H" and "wps (wait_queue_PopAll w) s v b t K H"
proof -
  have one: "wps (case r of RWaiter y \<Rightarrow> ret y | _ \<Rightarrow> panic ''response'') s v' b' t (\<lambda>y s v b t. wps (ret (y, w)) s v b t K H) H"
    if "wq_waiters w = Some q" "take_waiter q r v v'" for q r v' b'
    using take_one [OF L w that] some none by (auto intro!: wps_rules)
  have single: "wps (let (y, single) = TryPop (wq_singleton w) in ret (y, w\<lparr>wq_singleton := single\<rparr>)) s v b t K H"
    if n: "wq_waiters w = None"
  proof (cases "wq_singleton w")
    case None
    then have e: "w\<lparr>wq_singleton := None\<rparr> = w" by simp
    have "{u. W u = Some fk} = {}" using linked_members [OF L w] n None by (simp add: wq_members_def)
    then show ?thesis unfolding TryPop_def Let_def prod.case None e by (intro wps_ret none)
  next
    case (Some y)
    then have "W y = Some fk" using linked_members [OF L w] n by (auto simp: wq_members_def)
    then show ?thesis using Some some [OF _ linked_take(2) [OF L w _ n]] by (simp add: TryPop_def wps_ret)
  qed
  show "wps (wait_queue_Pop w) s v b t K H" "wps (wait_queue_PopAll w) s v b t K H"
    using single linked_queue [OF L w]
    by (auto simp: wait_queue_Pop_def wait_queue_PopAll_def sched_waiter_def split: option.splits
        intro!: wps_andThen wps_sched one)
qed

text \<open>A given waiter is taken out.\<close>

lemma wps_wq_remove:
  assumes L: "futex_linked fs v W" and w: "fs fk = Some w" and y: "W y = Some fk" "y \<notin> held v"
    and K: "\<And>w' v' b'. futex_linked (fs(fk \<mapsto> w')) v' (W(y := None)) \<Longrightarrow> held v' = held v \<Longrightarrow> K w' s v' b' t"
  shows "wps (wait_queue_Remove y w) s v b t K H"
proof (cases "wq_waiters w")
  case (Some q)
  have "y \<in> waiting v q" using linked_members [OF L w] Some y(1) by (auto simp: wq_members_def)
  moreover have "y \<notin> waiting v q'" if "q' \<noteq> q" for q'
  proof
    assume "y \<in> waiting v q'"
    then obtain fk' w' where "fs fk' = Some w'" "wq_waiters w' = Some q'" "W y = Some fk'"
      using linked_waiting [OF L] by blast
    then show False using y(1) w Some that by auto
  qed
  ultimately show ?thesis
    unfolding wait_queue_Remove_def Some sched_bool_def using linked_queue [OF L w Some] y(2)
    by (auto intro!: wps_rules wps_sched wps_check K linked_take(1) [OF L w y(1) Some])
next
  case None
  have "y \<in> wq_members w v" using linked_members [OF L w] y(1) by blast
  then have "wq_singleton w = Some y" using None by (simp add: wq_members_def)
  then show ?thesis
    unfolding wait_queue_Remove_def None
    by (auto simp: singleton_Remove_def intro!: wps_rules wps_check K linked_take(2) [OF L w y(1) None])
qed

lemma wps_wq_destroy:
  assumes "futex_linked fs v W" and "fs fk = Some w" and "{u. W u = Some fk} = {}" and "K () s v b t"
  shows "wps (wait_queue_destroy w) s v b t K H"
  using linked_members [OF assms(1,2)] assms(3,4)
  by (auto simp: wait_queue_destroy_def wait_queue_IsEmpty_def wq_members_def singleton_IsEmpty_def
      intro!: wps_rules wps_check split: option.splits)

end
