(* ===== verification/Sim_Inv.thy ===== *)
theory Sim_Inv
  imports Simulator Sim_Rules Timer_Places Futex_Queues
begin

text \<open>
  The invariant of the simulator. Two maps say where the threads that wait are: \<open>W\<close> the futex a
  thread is parked on, \<open>T\<close> the threads with a pending timer; \<open>C\<close> are the threads in the hands of the
  simulator, of which \<open>F\<close> are being changed, so that the fields of their objects are not to be
  trusted. All other threads that are alive are held by the scheduler.
\<close>

section \<open>The invariant\<close>

definition ids_ok :: "tid list \<Rightarrow> nat \<Rightarrow> bool" where
  "ids_ok xs n \<longleftrightarrow> distinct xs \<and> set xs \<subseteq> {1..n} \<and> n \<le> kMaxThreads"

definition places :: "tid set \<Rightarrow> tid set \<Rightarrow> (tid \<Rightarrow> futex_key option) \<Rightarrow> tid set \<Rightarrow> tid set \<Rightarrow> tid set \<Rightarrow> bool" where
  "places A h W T C F \<longleftrightarrow> h \<union> dom W \<union> T \<union> C = A \<and> h \<inter> (dom W \<union> T \<union> C) = {} \<and> F \<subseteq> C \<and>
     (\<forall>u \<in> C - F. W u = None \<and> u \<notin> T)"

definition fields :: "threads \<Rightarrow> (tid \<Rightarrow> futex_key option) \<Rightarrow> tid set \<Rightarrow> tid set \<Rightarrow> bool" where
  "fields ths W T B \<longleftrightarrow> (\<forall>u \<in> B. th_futex (ths u) = W u \<and> th_timer (ths u) = (if u \<in> T then Some u else None))"

text \<open>The state of a thread and the class of its timer say what it waits for.\<close>

definition asleep :: "threads \<Rightarrow> (timer_ref \<Rightarrow> wake_type) \<Rightarrow> (tid \<Rightarrow> futex_key option) \<Rightarrow> tid set \<Rightarrow> tid set \<Rightarrow> bool" where
  "asleep ths alarm W T B \<longleftrightarrow> (\<forall>u \<in> B.
     (W u \<noteq> None \<longrightarrow> th_state (ths u) = Parked \<and> (u \<in> T \<longrightarrow> alarm u = WakeFutexTimer)) \<and>
     (W u = None \<and> u \<in> T \<longrightarrow> th_state (ths u) = Sleeping \<and> alarm u = WakeSleepTimer))"

definition base :: "'u simulator \<Rightarrow> sched_view \<Rightarrow> (tid \<Rightarrow> futex_key option) \<Rightarrow> tid set \<Rightarrow> tid set \<Rightarrow> tid set \<Rightarrow> bool" where
  "base s v W T C F \<longleftrightarrow> ids_ok (sm_alive s) (next_tid (sm_ids s)) \<and> places (set (sm_alive s)) (held v) W T C F \<and>
     fields (sm_threads s) W T (set (sm_alive s) - F) \<and>
     futex_linked (map_of (sm_futex s)) v W \<and> distinct (map fst (sm_futex s)) \<and>
     queue_wf (sm_timer_queue s) \<and> pending (sm_timer_queue s) = T"

text \<open>Until the status is set, the main thread is alive.\<close>

definition main_ok :: "'u simulator \<Rightarrow> bool" where
  "main_ok s \<longleftrightarrow> (sm_status s = None \<longrightarrow> (\<exists>u \<in> set (sm_alive s). th_main (sm_threads s u)))"

definition sim_ok :: "tid set \<Rightarrow> 'u simulator \<Rightarrow> sched_view \<Rightarrow> bool" where
  "sim_ok C s v \<longleftrightarrow> (\<exists>W T. base s v W T C {} \<and>
     asleep (sm_threads s) (sm_alarm s) W T (set (sm_alive s)) \<and> main_ok s)"

text \<open>What is enough to burn the threads.\<close>

definition burnable :: "'u simulator \<Rightarrow> sched_view \<Rightarrow> bool" where
  "burnable s v \<longleftrightarrow> (\<exists>W T C. base s v W T C {})"

lemma sim_ok_burnable: "sim_ok C s v \<Longrightarrow> burnable s v"
  unfolding sim_ok_def burnable_def by blast

section \<open>Changes that do not matter\<close>

lemma base_other [simp]:
  "base (s\<lparr>sm_params := x1\<rparr>) v W T C F = base s v W T C F"
  "base (s\<lparr>sm_memory := x2\<rparr>) v W T C F = base s v W T C F"
  "base (s\<lparr>sm_time := x3\<rparr>) v W T C F = base s v W T C F"
  "base (s\<lparr>sm_digest := x4\<rparr>) v W T C F = base s v W T C F"
  "base (s\<lparr>sm_replies := x5\<rparr>) v W T C F = base s v W T C F"
  "base (s\<lparr>sm_fibers := x6\<rparr>) v W T C F = base s v W T C F"
  "base (s\<lparr>sm_burnt_threads := x7\<rparr>) v W T C F = base s v W T C F"
  "base (s\<lparr>sm_iter := x8\<rparr>) v W T C F = base s v W T C F"
  "base (s\<lparr>sm_last_checkpoint := x9\<rparr>) v W T C F = base s v W T C F"
  "base (s\<lparr>sm_model := x10\<rparr>) v W T C F = base s v W T C F"
  "base (s\<lparr>sm_next_fiber_id := x11\<rparr>) v W T C F = base s v W T C F"
  "base (s\<lparr>sm_alarm := x12\<rparr>) v W T C F = base s v W T C F"
  "base (s\<lparr>sm_step_index := x13\<rparr>) v W T C F = base s v W T C F"
  "base (s\<lparr>sm_done := x14\<rparr>) v W T C F = base s v W T C F"
  "base (s\<lparr>sm_stdout := x15\<rparr>) v W T C F = base s v W T C F"
  "base (s\<lparr>sm_stderr := x16\<rparr>) v W T C F = base s v W T C F"
  "base (s\<lparr>sm_status := x17\<rparr>) v W T C F = base s v W T C F"
  "base (s\<lparr>sm_futex_wait_count := x18\<rparr>) v W T C F = base s v W T C F"
  "base (s\<lparr>sm_futex_wake_count := x19\<rparr>) v W T C F = base s v W T C F"
  "base (s\<lparr>sm_yield_count := x20\<rparr>) v W T C F = base s v W T C F"
  "base (s\<lparr>sm_thread_count := x21\<rparr>) v W T C F = base s v W T C F"
  "base (s\<lparr>sm_alloc_count := x22\<rparr>) v W T C F = base s v W T C F"
  "base (s\<lparr>sm_free_count := x23\<rparr>) v W T C F = base s v W T C F"
  by (simp_all add: base_def)

lemma sim_ok_other [simp]:
  "sim_ok C (s\<lparr>sm_params := x1\<rparr>) v = sim_ok C s v"
  "sim_ok C (s\<lparr>sm_memory := x2\<rparr>) v = sim_ok C s v"
  "sim_ok C (s\<lparr>sm_time := x3\<rparr>) v = sim_ok C s v"
  "sim_ok C (s\<lparr>sm_digest := x4\<rparr>) v = sim_ok C s v"
  "sim_ok C (s\<lparr>sm_replies := x5\<rparr>) v = sim_ok C s v"
  "sim_ok C (s\<lparr>sm_fibers := x6\<rparr>) v = sim_ok C s v"
  "sim_ok C (s\<lparr>sm_burnt_threads := x7\<rparr>) v = sim_ok C s v"
  "sim_ok C (s\<lparr>sm_iter := x8\<rparr>) v = sim_ok C s v"
  "sim_ok C (s\<lparr>sm_last_checkpoint := x9\<rparr>) v = sim_ok C s v"
  "sim_ok C (s\<lparr>sm_model := x10\<rparr>) v = sim_ok C s v"
  "sim_ok C (s\<lparr>sm_next_fiber_id := x11\<rparr>) v = sim_ok C s v"
  "sim_ok C (s\<lparr>sm_step_index := x13\<rparr>) v = sim_ok C s v"
  "sim_ok C (s\<lparr>sm_done := x14\<rparr>) v = sim_ok C s v"
  "sim_ok C (s\<lparr>sm_stdout := x15\<rparr>) v = sim_ok C s v"
  "sim_ok C (s\<lparr>sm_stderr := x16\<rparr>) v = sim_ok C s v"
  "sim_ok C (s\<lparr>sm_futex_wait_count := x18\<rparr>) v = sim_ok C s v"
  "sim_ok C (s\<lparr>sm_futex_wake_count := x19\<rparr>) v = sim_ok C s v"
  "sim_ok C (s\<lparr>sm_yield_count := x20\<rparr>) v = sim_ok C s v"
  "sim_ok C (s\<lparr>sm_thread_count := x21\<rparr>) v = sim_ok C s v"
  "sim_ok C (s\<lparr>sm_alloc_count := x22\<rparr>) v = sim_ok C s v"
  "sim_ok C (s\<lparr>sm_free_count := x23\<rparr>) v = sim_ok C s v"
  by (simp_all add: sim_ok_def main_ok_def)

lemma burnable_status [simp]: "burnable (s\<lparr>sm_status := x\<rparr>) v = burnable s v"
  by (simp add: burnable_def)

lemma on_thread_simps [simp]:
  "sm_alive (on_thread u f s) = sm_alive s" "sm_status (on_thread u f s) = sm_status s"
  "sm_ids (on_thread u f s) = sm_ids s" "sm_futex (on_thread u f s) = sm_futex s"
  "sm_timer_queue (on_thread u f s) = sm_timer_queue s" "sm_alarm (on_thread u f s) = sm_alarm s"
  "sm_threads (on_thread u f s) x = (if x = u then f (sm_threads s u) else sm_threads s x)"
  "sm_model (on_thread u f s) = sm_model s" "sm_time (on_thread u f s) = sm_time s"
  "sm_iter (on_thread u f s) = sm_iter s" "sm_thread_count (on_thread u f s) = sm_thread_count s"
  by (simp_all add: on_thread_def)

lemma base_on_thread:
  assumes "base s v W T C F"
    and "u \<in> F \<or> th_futex (f (sm_threads s u)) = th_futex (sm_threads s u) \<and>
      th_timer (f (sm_threads s u)) = th_timer (sm_threads s u)"
  shows "base (on_thread u f s) v W T C F"
  using assms unfolding base_def fields_def by auto

text \<open>A thread in the hands of the simulator changes in all but the fields of waiting.\<close>

lemma sim_ok_on_thread:
  assumes "sim_ok C s v"
    and f: "th_futex (f (sm_threads s u)) = th_futex (sm_threads s u)"
      "th_timer (f (sm_threads s u)) = th_timer (sm_threads s u)"
      "th_main (f (sm_threads s u)) = th_main (sm_threads s u)"
      "u \<in> C \<or> th_state (f (sm_threads s u)) = th_state (sm_threads s u)"
  shows "sim_ok C (on_thread u f s) v"
proof -
  obtain W T where B: "base s v W T C {}" and A: "asleep (sm_threads s) (sm_alarm s) W T (set (sm_alive s))"
    and M: "main_ok s" using assms(1) unfolding sim_ok_def by blast
  have B': "base (on_thread u f s) v W T C {}" using B by (rule base_on_thread) (use f in simp)
  have "W u = None \<and> u \<notin> T" if "u \<in> C" using B that unfolding base_def places_def by blast
  then have "asleep (sm_threads (on_thread u f s)) (sm_alarm s) W T (set (sm_alive s))"
    using A f(4) unfolding asleep_def by auto
  moreover have "main_ok (on_thread u f s)"
    using M f(3) by (auto simp: main_ok_def)
  ultimately show ?thesis using B' unfolding sim_ok_def by auto
qed

section \<open>Places\<close>

lemma base_alive: "base s v W T C F \<Longrightarrow> held v \<union> dom W \<union> T \<union> C = set (sm_alive s)"
  by (simp add: base_def places_def)

lemma base_ids: "base s v W T C F \<Longrightarrow> set (sm_alive s) \<subseteq> thread_ids"
  by (auto simp: base_def ids_ok_def thread_ids_def)

lemma base_linked: "base s v W T C F \<Longrightarrow> futex_linked (map_of (sm_futex s)) v W"
  by (simp add: base_def)

lemma base_held: "base s v W T C F \<Longrightarrow> held v \<inter> (dom W \<union> T \<union> C) = {}"
  by (simp add: base_def places_def)

lemma base_free: "base s v W T C F \<Longrightarrow> u \<in> C - F \<Longrightarrow> W u = None \<and> u \<notin> T"
  by (simp add: base_def places_def)

lemma base_field:
  "base s v W T C F \<Longrightarrow> u \<in> set (sm_alive s) - F \<Longrightarrow>
     th_futex (sm_threads s u) = W u \<and> th_timer (sm_threads s u) = (if u \<in> T then Some u else None)"
  by (simp add: base_def fields_def)

lemma base_card: "base s v W T C F \<Longrightarrow> card T \<le> kMaxThreads"
  using card_mono [of thread_ids T] base_ids [of s v W T C F] base_alive [of s v W T C F]
  by (fastforce simp: thread_ids_def)

text \<open>A thread in hand is nowhere else.\<close>

lemma base_nowhere:
  assumes "base s v W T C F" and "u \<in> C - F"
  shows "u \<in> thread_ids - somewhere v"
proof -
  have "u \<in> set (sm_alive s)" "u \<notin> held v" using base_alive [OF assms(1)] base_held [OF assms(1)] assms(2) by blast+
  then show ?thesis
    using base_ids [OF assms(1)] base_free [OF assms] linked_somewhere [OF base_linked [OF assms(1)]] by blast
qed

lemma sim_ok_nowhere: "sim_ok C s v \<Longrightarrow> u \<in> C \<Longrightarrow> u \<in> thread_ids - somewhere v"
  unfolding sim_ok_def using base_nowhere by fastforce

text \<open>Threads are marked as being changed, and settled again.\<close>

lemma base_mark: "base s v W T C F \<Longrightarrow> u \<in> C \<Longrightarrow> base s v W T C (insert u F)"
  unfolding base_def places_def fields_def by auto

lemma base_settle:
  assumes "base s v W T C F" and "th_futex (sm_threads s u) = W u"
    and "th_timer (sm_threads s u) = (if u \<in> T then Some u else None)"
  shows "W u = None \<and> u \<notin> T \<Longrightarrow> base s v W T C (F - {u})"
    and "W u \<noteq> None \<or> u \<in> T \<Longrightarrow> base s v W T (C - {u}) (F - {u})"
proof -
  show "base s v W T C (F - {u})" if "W u = None \<and> u \<notin> T"
    using assms that unfolding base_def places_def fields_def by auto
  show "base s v W T (C - {u}) (F - {u})" if "W u \<noteq> None \<or> u \<in> T"
    using assms that unfolding base_def places_def fields_def by auto
qed

text \<open>Threads go to the scheduler and come from it.\<close>

lemma wq_members_held [simp]: "wq_members w (v\<lparr>held := h\<rparr>) = wq_members w v"
  by (simp add: wq_members_def split: option.split)

lemma linked_held [simp]: "futex_linked fs (v\<lparr>held := h\<rparr>) W = futex_linked fs v W"
  unfolding futex_linked_def by (simp cong: option.case_cong)

lemma base_hand: "base s v W T C F \<Longrightarrow> u \<in> C - F \<Longrightarrow> base s (v\<lparr>held := insert u (held v)\<rparr>) W T (C - {u}) F"
  unfolding base_def places_def by auto

lemma base_pick: "base s v W T C F \<Longrightarrow> u \<in> held v \<Longrightarrow> base s (v\<lparr>held := held v - {u}\<rparr>) W T (insert u C) F"
  unfolding base_def places_def by auto

lemma base_remove:
  assumes "base s v W T C F"
  shows "base s (v\<lparr>held := held v - {u}\<rparr>) W T (if u \<in> held v then insert u C else C) F"
proof (cases "u \<in> held v")
  case True
  then show ?thesis using base_pick [OF assms True] by simp
next
  case False
  then have "v\<lparr>held := held v - {u}\<rparr> = v" by simp
  then show ?thesis using assms False by simp
qed

lemma sim_ok_hand: "sim_ok C s v \<Longrightarrow> u \<in> C \<Longrightarrow> sim_ok (C - {u}) s (v\<lparr>held := insert u (held v)\<rparr>)"
  unfolding sim_ok_def using base_hand by fastforce

lemma sim_ok_pick: "sim_ok C s v \<Longrightarrow> u \<in> held v \<Longrightarrow> sim_ok (insert u C) s (v\<lparr>held := held v - {u}\<rparr>)"
  unfolding sim_ok_def using base_pick by blast

section \<open>Futexes\<close>

text \<open>A futex that is looked up exists.\<close>

lemma wps_GetFutex:
  assumes B: "base s v W T C F"
    and K: "\<And>fs w. map_of fs fk = Some w \<Longrightarrow> base (s\<lparr>sm_futex := fs\<rparr>) v W T C F \<Longrightarrow> K w (s\<lparr>sm_futex := fs\<rparr>) v b t"
  shows "wps (GetFutex fk) s v b t K H"
proof (cases "map_of (sm_futex s) fk")
  case None
  let ?fs = "AList.update fk new_wait_queue (sm_futex s)"
  have "futex_linked ((map_of (sm_futex s))(fk \<mapsto> new_wait_queue)) v W" using linked_new [OF base_linked [OF B] None] .
  then have "base (s\<lparr>sm_futex := ?fs\<rparr>) v W T C F" using B by (simp add: base_def update_conv' distinct_update)
  moreover have "map_of ?fs fk = Some new_wait_queue" by (simp add: update_conv')
  ultimately show ?thesis
    unfolding GetFutex_def using None by (intro wps_rules) (simp_all add: K)
next
  case (Some w)
  then show ?thesis unfolding GetFutex_def using K [OF Some] B by (intro wps_rules) simp_all
qed

lemma base_put_futex:
  assumes "base s v W T C F" and "futex_linked ((map_of (sm_futex s))(fk \<mapsto> w)) v' W'"
    and "places (set (sm_alive s)) (held v') W' T C' F'" and "fields (sm_threads s) W' T (set (sm_alive s) - F')"
  shows "base (s\<lparr>sm_futex := AList.update fk w (sm_futex s)\<rparr>) v' W' T C' F'"
  using assms by (simp add: base_def update_conv' distinct_update)

text \<open>A parked thread is taken out of its futex.\<close>

lemma base_unpark:
  assumes B: "base s v W T C F" and y: "W y = Some fk"
    and L: "futex_linked ((map_of (sm_futex s))(fk \<mapsto> w)) v' (W(y := None))" and h: "held v' = held v"
  shows "base (s\<lparr>sm_futex := AList.update fk w (sm_futex s)\<rparr>) v' (W(y := None)) T (insert y C) (insert y F)"
proof (rule base_put_futex [OF B L])
  have "y \<in> dom W" using y by blast
  then show "places (set (sm_alive s)) (held v') (W(y := None)) T (insert y C) (insert y F)"
    using B unfolding h base_def places_def by auto
  show "fields (sm_threads s) (W(y := None)) T (set (sm_alive s) - insert y F)"
    using B by (auto simp: base_def fields_def)
qed

lemma wps_futex_Remove:
  assumes B: "base s v W T C F" and y: "W y = Some fk"
    and K: "\<And>fs v' b'. base (s\<lparr>sm_futex := fs\<rparr>) v' (W(y := None)) T (insert y C) (insert y F) \<Longrightarrow> held v' = held v \<Longrightarrow>
        K () (s\<lparr>sm_futex := fs\<rparr>) v' b' t"
  shows "wps (futex_Remove fk y) s v b t K H"
  unfolding futex_Remove_def put_futex_def
proof (intro wps_andThen wps_GetFutex [OF B])
  fix fs w
  assume w: "map_of fs fk = Some w" and B1: "base (s\<lparr>sm_futex := fs\<rparr>) v W T C F"
  have yh: "y \<notin> held v" using base_held [OF B] y by blast
  have L: "futex_linked (map_of fs) v W" using base_linked [OF B1] by simp
  show "wps (wait_queue_Remove y w) (s\<lparr>sm_futex := fs\<rparr>) v b t
     (\<lambda>w1 s' v' b' t'. wps (modify (\<lambda>s. s\<lparr>sm_futex := AList.update fk w1 (sm_futex s)\<rparr>)) s' v' b' t' K H) H"
  proof (rule wps_wq_remove [OF L w y yh], rule wps_modify)
    fix w' v' and b' :: bool
    assume L': "futex_linked ((map_of fs)(fk \<mapsto> w')) v' (W(y := None))" and h: "held v' = held v"
    then have "base (s\<lparr>sm_futex := AList.update fk w' fs\<rparr>) v' (W(y := None)) T (insert y C) (insert y F)"
      using base_unpark [OF B1 y, of w' v'] by simp
    then show "K () ((s\<lparr>sm_futex := fs\<rparr>)\<lparr>sm_futex := AList.update fk w' (sm_futex (s\<lparr>sm_futex := fs\<rparr>))\<rparr>) v' b' t"
      using K [OF _ h] by simp
  qed
qed

section \<open>Timers\<close>

lemma base_timer_gone:
  assumes "base s v W T C F" and "u \<in> T" and "queue_wf q" and "pending q = T - {u}"
  shows "base (s\<lparr>sm_timer_queue := q\<rparr>) v W (T - {u}) (insert u C) (insert u F)"
proof -
  have "places (set (sm_alive s)) (held v) W T C F" using assms(1) by (simp add: base_def)
  then have "places (set (sm_alive s)) (held v) W (T - {u}) (insert u C) (insert u F)"
    using assms(2) unfolding places_def by blast
  moreover have "fields (sm_threads s) W (T - {u}) (set (sm_alive s) - insert u F)"
    using assms(1) by (simp add: base_def fields_def)
  ultimately show ?thesis using assms(1,3,4) by (simp add: base_def)
qed

lemma wps_CancelTimer:
  assumes B: "base s v W T C F" and u: "u \<in> T"
    and K: "\<And>q. base (s\<lparr>sm_timer_queue := q\<rparr>) v W (T - {u}) (insert u C) (insert u F) \<Longrightarrow>
        K () (s\<lparr>sm_timer_queue := q\<rparr>) v b t"
  shows "wps (CancelTimer u) s v b t K H" and "wps (remove_timer u) s v b t (\<lambda>_. K ()) H"
proof -
  have p: "pending (sm_timer_queue s) = T" and wf: "queue_wf (sm_timer_queue s)" "u \<in> pending (sm_timer_queue s)"
    using B u by (simp_all add: base_def)
  then obtain q where q: "queue_Remove u (sm_timer_queue s) = Inr (True, q)" "queue_wf q" "pending q = T - {u}"
    using queue_Remove_places [OF wf] unfolding p by blast
  then have "K () (s\<lparr>sm_timer_queue := q\<rparr>) v b t" using K base_timer_gone [OF B u] by blast
  then show "wps (CancelTimer u) s v b t K H" "wps (remove_timer u) s v b t (\<lambda>_. K ()) H"
    unfolding CancelTimer_def remove_timer_def by (auto simp: q(1) intro!: wps_rules wps_lift_msg wps_check)
qed

lemma wps_AddTimer:
  assumes B: "base s v W T C F" and u: "u \<in> F" "u \<notin> T"
    and K: "\<And>q. base (s\<lparr>sm_timer_queue := q\<rparr>) v W (insert u T) C F \<Longrightarrow> K () (s\<lparr>sm_timer_queue := q\<rparr>) v b t"
  shows "wps (AddTimer u) s v b t K H"
proof -
  have p: "pending (sm_timer_queue s) = T" and wf: "queue_wf (sm_timer_queue s)" "u \<notin> pending (sm_timer_queue s)"
      "card (pending (sm_timer_queue s)) + 1 < kTimerLimit"
    using B u base_card [OF B] by (simp_all add: base_def kTimerLimit_def kMaxThreads_def)
  then obtain q where q: "Add u (sm_timer_queue s) = Inr q" "queue_wf q" "pending q = insert u T"
    using Add_places [OF wf] unfolding p by blast
  have "places (set (sm_alive s)) (held v) W T C F" using B by (simp add: base_def)
  then have "places (set (sm_alive s)) (held v) W (insert u T) C F" using u(1) unfolding places_def by blast
  moreover have "fields (sm_threads s) W (insert u T) (set (sm_alive s) - F)"
    using B u by (auto simp: base_def fields_def)
  ultimately have "base (s\<lparr>sm_timer_queue := q\<rparr>) v W (insert u T) C F" using B q by (simp add: base_def)
  then show ?thesis unfolding AddTimer_def by (auto simp: q(1) intro!: wps_rules wps_lift_msg K)
qed

end
