(* ===== verification/Sim_Wake.thy ===== *)
theory Sim_Wake
  imports Sim_Inv
begin

text \<open>
  Waiting and waking keep the invariant of the simulator: parking on a futex, going to sleep, and
  waking by another thread or by a timer.
\<close>

section \<open>Waking\<close>

text \<open>
  The thread \<open>u\<close> is being woken: it has been taken out of the queue of its futex by another thread,
  or out of the timers.
\<close>

definition waking :: "tid \<Rightarrow> wake_type \<Rightarrow> tid set \<Rightarrow> 'u simulator \<Rightarrow> sched_view \<Rightarrow> bool" where
  "waking u wk C s v \<longleftrightarrow> (\<exists>W T. base s v W T (insert u C) {u} \<and> u \<notin> C \<and>
     asleep (sm_threads s) (sm_alarm s) W T (set (sm_alive s) - {u}) \<and> main_ok s \<and>
     (th_state (sm_threads s u) = Parked \<or> th_state (sm_threads s u) = Sleeping) \<and>
     (case wk of
        WakeSleepTimer \<Rightarrow> W u = None \<and> u \<notin> T
      | WakeFutexTimer \<Rightarrow> u \<notin> T \<and> W u \<noteq> None \<and> th_futex (sm_threads s u) = W u
      | WakeFutexWake \<Rightarrow> W u = None \<and> th_timer (sm_threads s u) = (if u \<in> T then Some u else None)
      | WakeSpurious \<Rightarrow> False))"

text \<open>What waking leaves alone.\<close>

definition woken :: "tid \<Rightarrow> 'u simulator \<Rightarrow> 'u simulator \<Rightarrow> bool" where
  "woken u s s' \<longleftrightarrow> sm_alive s' = sm_alive s \<and> sm_time s' = sm_time s \<and>
     (\<forall>x. x \<noteq> u \<longrightarrow> sm_threads s' x = sm_threads s x) \<and> th_futex (sm_threads s' u) = None"

text \<open>The last part of \<open>Wake\<close>: the thread's object is reset, and the thread goes to the scheduler.\<close>

definition resume_waiter :: "tid \<Rightarrow> call_status \<Rightarrow> ('u, unit) sim" where
  "resume_waiter u st =
     andThen (set_thread u (\<lambda>th. th\<lparr>th_state := Runnable, th_futex := None, th_timer := None, th_waiter := None\<rparr>)) (\<lambda>_.
     ScheduleWaiter u st)"

lemma wps_resume_waiter:
  assumes B: "base s v W T (insert u C) {u}" and u: "u \<notin> C" "W u = None" "u \<notin> T"
    and A: "asleep (sm_threads s) (sm_alarm s) W T (set (sm_alive s) - {u})" and M: "main_ok s"
    and K: "\<And>s'. sim_ok C s' (v\<lparr>held := insert u (held v)\<rparr>) \<Longrightarrow> woken u s s' \<Longrightarrow>
       sm_timer_queue s' = sm_timer_queue s \<Longrightarrow> K () s' (v\<lparr>held := insert u (held v)\<rparr>) True t"
  shows "wps (resume_waiter u st) s v b t K H"
proof -
  let ?s = "on_thread u (\<lambda>th. th\<lparr>th_status := st\<rparr>) (on_thread u (\<lambda>th. th\<lparr>th_state := Runnable, th_futex := None,
      th_timer := None, th_waiter := None\<rparr>) s)"
  have "base ?s v W T (insert u C) {u}" using B by (intro base_on_thread) simp_all
  from base_settle(1) [OF this, of u] have B1: "base ?s v W T (insert u C) {}" using u by simp
  then have B2: "base ?s (v\<lparr>held := insert u (held v)\<rparr>) W T C {}"
    using base_hand [OF B1, of u] u(1) by simp
  have "asleep (sm_threads ?s) (sm_alarm ?s) W T (set (sm_alive ?s))" using A u by (auto simp: asleep_def)
  moreover have "main_ok ?s" using M by (auto simp: main_ok_def)
  ultimately have S: "sim_ok C ?s (v\<lparr>held := insert u (held v)\<rparr>)" using B2 unfolding sim_ok_def by blast
  have "K () ?s (v\<lparr>held := insert u (held v)\<rparr>) b' t'" if "b'" "t' = t" for b' t'
    using K [OF S] that by (simp add: woken_def)
  then show ?thesis
    unfolding resume_waiter_def ScheduleWaiter_def set_thread_def using base_nowhere [OF B1, of u]
    by (intro wps_rules wps_sched_do) simp_all
qed

lemma mm_Tick_fault: "mm_Tick n u c = Inl f \<Longrightarrow> f = Panic ''Too many threads''"
  by (auto simp: mm_Tick_def clock_Tick_def bindE_eq_Inl split: if_splits)

lemma wps_model_Wake:
  assumes "\<And>c. K () (on_thread u (\<lambda>th. th\<lparr>th_sync := c\<rparr>) s) v b t"
  shows "wps (model_Wake waker u) s v b t K H"
  unfolding model_Wake_def set_thread_def
  by (intro wps_rules wps_lift assms) (auto simp: mm_Wake_def user_messages_def dest!: mm_Tick_fault)

lemma wps_Wake:
  assumes wk: "waking u wk C s v" and waker: "wk = WakeFutexWake \<Longrightarrow> waker \<noteq> None"
    and K: "\<And>s' v'. sim_ok C s' v' \<Longrightarrow> woken u s s' \<Longrightarrow> (wk \<noteq> WakeFutexWake \<Longrightarrow> sm_timer_queue s' = sm_timer_queue s) \<Longrightarrow>
       held v' = insert u (held v) \<Longrightarrow> K () s' v' True t"
  shows "wps (Wake waker u wk) s v b t K H"
proof -
  obtain W T where B: "base s v W T (insert u C) {u}" and u: "u \<notin> C"
    and A: "asleep (sm_threads s) (sm_alarm s) W T (set (sm_alive s) - {u})" and M: "main_ok s"
    and st: "th_state (sm_threads s u) = Parked \<or> th_state (sm_threads s u) = Sleeping"
    and c: "case wk of
        WakeSleepTimer \<Rightarrow> W u = None \<and> u \<notin> T
      | WakeFutexTimer \<Rightarrow> u \<notin> T \<and> W u \<noteq> None \<and> th_futex (sm_threads s u) = W u
      | WakeFutexWake \<Rightarrow> W u = None \<and> th_timer (sm_threads s u) = (if u \<in> T then Some u else None)
      | WakeSpurious \<Rightarrow> False"
    using wk unfolding waking_def by blast
  show ?thesis
  proof (cases wk)
    case WakeSleepTimer
    then show ?thesis
      unfolding Wake_def resume_waiter_def [symmetric] get_thread_def using c st
      by (auto intro!: wps_rules wps_check wps_resume_waiter [OF B u _ _ A M] K)
  next
    case WakeFutexTimer
    then obtain fk where fk: "W u = Some fk" "th_futex (sm_threads s u) = Some fk" "u \<notin> T" using c by auto
    have "wps (futex_Remove fk u) s v b t (\<lambda>_ s' v' b' t'. wps (ret StTimeout) s' v' b' t'
        (\<lambda>st s' v' b' t'. wps (resume_waiter u st) s' v' b' t' K H) H) H"
    proof (rule wps_futex_Remove [OF B fk(1)], rule wps_ret)
      fix fs v' b'
      assume B': "base (s\<lparr>sm_futex := fs\<rparr>) v' (W(u := None)) T (insert u (insert u C)) (insert u {u})" and h: "held v' = held v"
      show "wps (resume_waiter u StTimeout) (s\<lparr>sm_futex := fs\<rparr>) v' b' t K H"
      proof (rule wps_resume_waiter [of _ _ "W(u := None)" T u C])
        fix s'
        assume "sim_ok C s' (v'\<lparr>held := insert u (held v')\<rparr>)" "woken u (s\<lparr>sm_futex := fs\<rparr>) s'"
          "sm_timer_queue s' = sm_timer_queue (s\<lparr>sm_futex := fs\<rparr>)"
        then show "K () s' (v'\<lparr>held := insert u (held v')\<rparr>) True t"
          using K h by (simp add: woken_def)
      qed (use B' u fk(3) A M in \<open>simp_all add: asleep_def main_ok_def\<close>)
    qed
    then show ?thesis
      unfolding Wake_def resume_waiter_def [symmetric] get_thread_def using st WakeFutexTimer fk(2)
      by (auto intro!: wps_rules wps_check)
  next
    case WakeFutexWake
    then obtain w where w: "waker = Some w" using waker by blast
    have Wu: "W u = None" and tm: "th_timer (sm_threads s u) = (if u \<in> T then Some u else None)"
      using c WakeFutexWake by simp_all
    have fin: "wps (resume_waiter u StOk) s2 v b t K H"
      if B2: "base s2 v W T2 (insert u C) {u}" "T2 = T - {u}"
        and s2: "s2 = (on_thread u (\<lambda>th. th\<lparr>th_sync := y\<rparr>) s)\<lparr>sm_timer_queue := q\<rparr>" for s2 T2 q y
    proof (rule wps_resume_waiter [OF B2(1) u Wu])
      show "asleep (sm_threads s2) (sm_alarm s2) W T2 (set (sm_alive s2) - {u})"
        using A B2(2) s2 by (auto simp: asleep_def)
      show "main_ok s2" using M s2 by (auto simp: main_ok_def)
    qed (use B2 s2 WakeFutexWake in \<open>auto intro!: K simp: woken_def\<close>)
    have cancel: "wps (case th_timer (sm_threads s u) of None \<Rightarrow> ret () | Some r \<Rightarrow> CancelTimer r) (on_thread u (\<lambda>th. th\<lparr>th_sync := y\<rparr>) s) v b t
       (\<lambda>_ s' v' b' t'. wps (ret StOk) s' v' b' t' (\<lambda>st s' v' b' t'. wps (resume_waiter u st) s' v' b' t' K H) H) H" for y
    proof -
      have B1: "base (on_thread u (\<lambda>th. th\<lparr>th_sync := y\<rparr>) s) v W T (insert u C) {u}" using B by (intro base_on_thread) simp_all
      show ?thesis
      proof (cases "u \<in> T")
        case True
        have "wps (CancelTimer u) (on_thread u (\<lambda>th. th\<lparr>th_sync := y\<rparr>) s) v b t
           (\<lambda>_ s' v' b' t'. wps (ret StOk) s' v' b' t' (\<lambda>st s' v' b' t'. wps (resume_waiter u st) s' v' b' t' K H) H) H"
          by (rule wps_CancelTimer(1) [OF B1 True], rule wps_ret, rule fin [OF _ refl refl]) simp
        then show ?thesis using tm True by simp
      next
        case False
        then have "wps (resume_waiter u StOk) (on_thread u (\<lambda>th. th\<lparr>th_sync := y\<rparr>) s) v b t K H"
          using fin [of "on_thread u (\<lambda>th. th\<lparr>th_sync := y\<rparr>) s" "T - {u}" "sm_timer_queue s" y] B1
          by (simp add: on_thread_def)
        then show ?thesis using tm False by (simp add: wps_ret)
      qed
    qed
    show ?thesis
      unfolding Wake_def resume_waiter_def [symmetric] get_thread_def WakeFutexWake w using st cancel
      by (auto intro!: wps_rules(2,3) wps_check wps_model_Wake)
  next
    case WakeSpurious
    then show ?thesis using c by simp
  qed
qed

section \<open>Timers\<close>

lemma base_not_in_hand: "base s v W T C {} \<Longrightarrow> u \<in> dom W \<union> T \<Longrightarrow> u \<notin> C"
  using base_free [of s v W T C "{}" u] by auto

lemma timer_waking:
  assumes B: "base s v W T C {}" and A: "asleep (sm_threads s) (sm_alarm s) W T (set (sm_alive s))"
    and M: "main_ok s" and u: "u \<in> T" and q: "queue_wf q" "pending q = T - {u}"
  shows "waking u (sm_alarm s u) C (s\<lparr>sm_timer_queue := q\<rparr>) v"
proof -
  have B1: "base (s\<lparr>sm_timer_queue := q\<rparr>) v W (T - {u}) (insert u C) {u}" using base_timer_gone [OF B u q] .
  have uA: "u \<in> set (sm_alive s)" using base_alive [OF B] u by blast
  have "u \<notin> C" using base_not_in_hand [OF B] u by blast
  moreover have "asleep (sm_threads s) (sm_alarm s) W (T - {u}) (set (sm_alive s) - {u})"
    using A unfolding asleep_def by blast
  moreover have "th_futex (sm_threads s u) = W u" using base_field [OF B] uA by simp
  ultimately show ?thesis
    unfolding waking_def using B1 M A uA u
    by (intro exI [of _ W] exI [of _ "T - {u}"]) (cases "W u"; auto simp: asleep_def main_ok_def)
qed

lemma wps_Alarm:
  assumes B: "base s v W T C {}" and A: "asleep (sm_threads s) (sm_alarm s) W T (set (sm_alive s))"
    and M: "main_ok s" and u: "u \<in> T" and q: "queue_wf q" "pending q = T - {u}"
    and K: "\<And>s' v'. sim_ok C s' v' \<Longrightarrow> sm_timer_queue s' = q \<Longrightarrow> woken u s s' \<Longrightarrow> held v' = insert u (held v) \<Longrightarrow>
       K () s' v' True t"
  shows "wps (Alarm u) (s\<lparr>sm_timer_queue := q\<rparr>) v b t K H"
proof -
  have w: "waking u (sm_alarm s u) C (s\<lparr>sm_timer_queue := q\<rparr>) v" using timer_waking [OF B A M u q] .
  have a: "sm_alarm s u \<noteq> WakeFutexWake" using A base_alive [OF B] u unfolding asleep_def by (cases "W u") auto
  show ?thesis
    unfolding Alarm_def
    by (rule wps_andThen, rule wps_get, simp, rule wps_Wake [OF w]) (use a in \<open>auto intro!: K simp: woken_def\<close>)
qed

text \<open>An alarm leaves the other timers alone, so that the loop ends.\<close>

lemma wps_poll_loop:
  fixes K :: "bool \<Rightarrow> 'u condition"
  assumes "sim_ok C s v" and "card (pending (sm_timer_queue s)) < n"
    and "\<And>r s' v' b'. sim_ok C s' v' \<Longrightarrow> (b \<longrightarrow> b') \<Longrightarrow> sm_time s' = sm_time s \<Longrightarrow> held v \<subseteq> held v' \<Longrightarrow>
      (\<not> r \<longrightarrow> s' = s \<and> v' = v \<and> b' = b \<and>
         (pending (sm_timer_queue s) \<noteq> {} \<longrightarrow> (\<exists>d. NextDeadLine (sm_timer_queue s) = Inr d \<and> now < d))) \<Longrightarrow>
      K (progress \<or> r) s' v' b' t"
  shows "wps (poll_loop n now progress) s v b t K H"
  using assms
proof (induction n arbitrary: s v b progress)
  case 0
  then show ?case by simp
next
  case (Suc n)
  obtain W T where B: "base s v W T C {}" and A: "asleep (sm_threads s) (sm_alarm s) W T (set (sm_alive s))"
    and M: "main_ok s" using Suc.prems(1) unfolding sim_ok_def by blast
  have wf: "queue_wf (sm_timer_queue s)" and p: "pending (sm_timer_queue s) = T" using B by (simp_all add: base_def)
  show ?case
  proof (rule Poll_places [OF wf, of now])
    fix u q
    assume some: "Poll now (sm_timer_queue s) = Inr (Some u, q)" "u \<in> pending (sm_timer_queue s)" "queue_wf q"
      "pending q = pending (sm_timer_queue s) - {u}"
    have u: "u \<in> T" and q: "queue_wf q" "pending q = T - {u}" using some p by simp_all
    have "wps (Alarm u) (s\<lparr>sm_timer_queue := q\<rparr>) v b t (\<lambda>_ s' v' b' t'. wps (poll_loop n now True) s' v' b' t' K H) H"
    proof (rule wps_Alarm [OF B A M u q])
      fix s' v'
      assume S: "sim_ok C s' v'" "sm_timer_queue s' = q" "woken u s s'" "held v' = insert u (held v)"
      have "finite T" using B by (auto simp: base_def)
      then have "card (T - {u}) < card T" using u by (intro card_Diff1_less)
      then have "card (pending (sm_timer_queue s')) < n" using Suc.prems(2) unfolding S(2) q(2) p by simp
      then show "wps (poll_loop n now True) s' v' True t K H"
      proof (rule Suc.IH [OF S(1)])
        fix r and s2 :: "'u simulator" and v2 b2
        assume "sim_ok C s2 v2" "True \<longrightarrow> b2" "sm_time s2 = sm_time s'" "held v' \<subseteq> held v2"
        then show "K (True \<or> r) s2 v2 b2 t"
          using Suc.prems(3) [of s2 v2 b2 True] S by (simp add: woken_def)
      qed
    qed
    then show ?thesis using some(1) by (auto intro!: wps_rules wps_lift_msg)
  next
    assume none: "Poll now (sm_timer_queue s) = Inr (None, sm_timer_queue s)"
      "pending (sm_timer_queue s) \<noteq> {} \<Longrightarrow> \<exists>d. NextDeadLine (sm_timer_queue s) = Inr d \<and> now < d"
    have "K progress s v b t" using Suc.prems(3) [of s v b False] Suc.prems(1) none(2) by simp
    then show ?thesis using none(1) by (auto intro!: wps_rules wps_lift_msg)
  qed
qed

lemma wps_PollTimers:
  assumes S: "sim_ok C s v"
    and K: "\<And>r s' v' b'. sim_ok C s' v' \<Longrightarrow> (b \<longrightarrow> b') \<Longrightarrow> sm_time s' = sm_time s \<Longrightarrow> held v \<subseteq> held v' \<Longrightarrow>
      (\<not> r \<longrightarrow> s' = s \<and> v' = v \<and> b' = b \<and>
         (pending (sm_timer_queue s) \<noteq> {} \<longrightarrow> (\<exists>d. NextDeadLine (sm_timer_queue s) = Inr d \<and> Now (sm_time s) < d))) \<Longrightarrow>
      K r s' v' b' t"
  shows "wps PollTimers s v b t K H"
proof -
  have "queue_wf (sm_timer_queue s)" using S by (auto simp: sim_ok_def base_def)
  then show ?thesis
    unfolding PollTimers_def
    by (intro wps_rules wps_poll_loop [OF S]) (use K in \<open>auto simp: pending_size\<close>)
qed

section \<open>Waking the waiters of a futex\<close>

text \<open>The threads parked on a futex, by their objects, and what waking some of them does.\<close>

definition parked_on :: "futex_key \<Rightarrow> 'u simulator \<Rightarrow> tid set" where
  "parked_on fk s = {u \<in> set (sm_alive s). th_futex (sm_threads s u) = Some fk}"

definition all_woken :: "tid set \<Rightarrow> 'u simulator \<Rightarrow> sched_view \<Rightarrow> 'u simulator \<Rightarrow> sched_view \<Rightarrow> bool" where
  "all_woken us s v s' v' \<longleftrightarrow> sm_alive s' = sm_alive s \<and> held v' = held v \<union> us \<and>
     (\<forall>x \<in> us. th_futex (sm_threads s' x) = None) \<and> (\<forall>x. x \<notin> us \<longrightarrow> sm_threads s' x = sm_threads s x)"

lemma all_woken_none: "sm_alive s' = sm_alive s \<Longrightarrow> sm_threads s' = sm_threads s \<Longrightarrow> all_woken {} s v s' v"
  by (simp add: all_woken_def)

lemma all_woken_count [simp]: "all_woken us s v (s'\<lparr>sm_futex_wake_count := x\<rparr>) v' = all_woken us s v s' v'"
  by (simp add: all_woken_def)

lemma all_woken_one:
  "woken u s1 s' \<Longrightarrow> sm_alive s1 = sm_alive s \<Longrightarrow> sm_threads s1 = sm_threads s \<Longrightarrow> held v' = insert u (held v) \<Longrightarrow>
     all_woken {u} s v s' v'"
  by (simp add: all_woken_def woken_def)

lemma all_woken_trans:
  assumes "all_woken {u} s v s1 v1" and "all_woken us s1 v1 s' v'" and "u \<notin> us"
  shows "all_woken (insert u us) s v s' v'"
  using assms unfolding all_woken_def by auto

lemma all_woken_parked: "all_woken us s v s' v' \<Longrightarrow> parked_on fk s' = parked_on fk s - us"
proof (rule set_eqI)
  fix x
  assume "all_woken us s v s' v'"
  then show "x \<in> parked_on fk s' \<longleftrightarrow> x \<in> parked_on fk s - us"
    by (cases "x \<in> us") (simp_all add: all_woken_def parked_on_def)
qed

lemma parked_bound:
  assumes "sim_ok C s v"
  shows "card (parked_on fk s) \<le> kMaxThreads"
proof -
  obtain W T where "base s v W T C {}" using assms unfolding sim_ok_def by blast
  from base_ids [OF this] have "parked_on fk s \<subseteq> thread_ids" by (auto simp: parked_on_def)
  then show ?thesis using card_mono [of thread_ids "parked_on fk s"] by (simp add: thread_ids_def)
qed

lemma wps_take_waiter:
  assumes S: "base s v W T C {}" "asleep (sm_threads s) (sm_alarm s) W T (set (sm_alive s))" "main_ok s"
    and w: "map_of (sm_futex s) fk = Some w" and pop: "pop \<in> {wait_queue_Pop, wait_queue_PopAll}"
    and none: "\<And>s' b'. sim_ok C s' v \<Longrightarrow> sm_alive s' = sm_alive s \<Longrightarrow> sm_threads s' = sm_threads s \<Longrightarrow>
       parked_on fk s = {} \<Longrightarrow> wps m s' v b' t K H"
    and some: "\<And>u s' v' b'. waking u WakeFutexWake C s' v' \<Longrightarrow> sm_alive s' = sm_alive s \<Longrightarrow> sm_threads s' = sm_threads s \<Longrightarrow>
       u \<in> parked_on fk s \<Longrightarrow> held v' = held v \<Longrightarrow> wps (f u) s' v' b' t K H"
  shows "wps (andThen (pop w) (\<lambda>(waiter, w1). andThen (put_futex fk w1) (\<lambda>_.
     case waiter of None \<Rightarrow> m | Some u \<Rightarrow> f u))) s v b t K H"
proof -
  note B = S(1) and A = S(2) and M = S(3)
  have "wps (pop w) s v b t (\<lambda>(waiter, w1) s' v' b' t'. wps (andThen (put_futex fk w1) (\<lambda>_.
     case waiter of None \<Rightarrow> m | Some u \<Rightarrow> f u)) s' v' b' t' K H) H"
  proof -
    let ?K = "\<lambda>(waiter, w1) s' v' b' t'. wps (andThen (put_futex fk w1) (\<lambda>_.
     case waiter of None \<Rightarrow> m | Some u \<Rightarrow> f u)) s' v' b' t' K H"
    have 1: "?K (Some u, w') s v' b' t"
      if u: "W u = Some fk" and L: "futex_linked ((map_of (sm_futex s))(fk \<mapsto> w')) v' (W(u := None))" and h: "held v' = held v"
      for u w' v' b'
    proof -
      let ?s = "s\<lparr>sm_futex := AList.update fk w' (sm_futex s)\<rparr>"
      have B1: "base ?s v' (W(u := None)) T (insert u C) {u}" using base_unpark [OF B u L h] .
      have uA: "u \<in> set (sm_alive s)" using base_alive [OF B] u by blast
      have F: "th_futex (sm_threads s u) = Some fk" "th_timer (sm_threads s u) = (if u \<in> T then Some u else None)"
        using base_field [OF B, of u] uA u by simp_all
      have "u \<notin> C" using base_not_in_hand [OF B] u by blast
      moreover have "asleep (sm_threads ?s) (sm_alarm ?s) (W(u := None)) T (set (sm_alive ?s) - {u})"
        using A unfolding asleep_def by auto
      moreover have "th_state (sm_threads s u) = Parked" using A uA u unfolding asleep_def by simp
      ultimately have "waking u WakeFutexWake C ?s v'"
        unfolding waking_def using B1 M F(2)
        by (intro exI [of _ "W(u := None)"] exI [of _ T]) (simp add: main_ok_def)
      then have "wps (f u) ?s v' b' t K H" by (rule some) (use uA F h in \<open>simp_all add: parked_on_def\<close>)
      then show ?thesis unfolding put_futex_def by (auto intro!: wps_rules)
    qed
    have 2: "?K (None, w) s v b' t" if none_on: "{u. W u = Some fk} = {}" for b'
    proof -
      have e: "parked_on fk s = {}" using base_field [OF B] none_on by (auto simp: parked_on_def)
      let ?s = "s\<lparr>sm_futex := AList.update fk w (sm_futex s)\<rparr>"
      have "(map_of (sm_futex s))(fk \<mapsto> w) = map_of (sm_futex s)" using w by (rule fun_upd_idem)
      then have "futex_linked ((map_of (sm_futex s))(fk \<mapsto> w)) v W" using base_linked [OF B] by (simp only:)
      then have "base ?s v W T C {}" using B by (intro base_put_futex [OF B]) (simp_all add: base_def)
      then have "sim_ok C ?s v" unfolding sim_ok_def using A M by (auto simp: main_ok_def)
      then have "wps m ?s v b' t K H" by (rule none) (simp_all add: e)
      then show ?thesis unfolding put_futex_def by (auto intro!: wps_rules)
    qed
    have "wps (wait_queue_Pop w) s v b t ?K H" by (rule wps_pop(1) [OF base_linked [OF B] w]) (rule 1, assumption+, rule 2, assumption)
    moreover have "wps (wait_queue_PopAll w) s v b t ?K H" by (rule wps_pop(2) [OF base_linked [OF B] w]) (rule 1, assumption+, rule 2, assumption)
    ultimately show ?thesis using pop by (elim insertE emptyE) (simp_all only:)
  qed
  then show ?thesis by (intro wps_andThen) (simp add: case_prod_unfold)
qed

lemma wps_wake_all:
  fixes K :: "unit \<Rightarrow> 'u condition"
  assumes "sim_ok C s v" and "card (parked_on fk s) < n"
    and K: "\<And>s' v' b'. sim_ok C s' v' \<Longrightarrow> all_woken (parked_on fk s) s v s' v' \<Longrightarrow> K () s' v' b' t"
  shows "wps (wake_all n waker fk) s v b t K H"
  using assms
proof (induction n arbitrary: s v b)
  case 0
  then show ?case by simp
next
  case (Suc n)
  obtain W T where B: "base s v W T C {}" and A: "asleep (sm_threads s) (sm_alarm s) W T (set (sm_alive s))"
    and M: "main_ok s" using Suc.prems(1) unfolding sim_ok_def by blast
  show ?case
    unfolding wake_all.simps
  proof (rule wps_andThen, rule wps_GetFutex [OF B])
    fix fs w
    let ?s = "s\<lparr>sm_futex := fs\<rparr>"
    assume w: "map_of fs fk = Some w" and B1: "base ?s v W T C {}"
    show "wps (andThen (wait_queue_PopAll w) (\<lambda>(waiter, w1). andThen (put_futex fk w1) (\<lambda>_. case waiter of
        None \<Rightarrow> ret () | Some u \<Rightarrow> andThen (Wake (Some waker) u WakeFutexWake) (\<lambda>_. wake_all n waker fk)))) ?s v b t K H"
    proof (rule wps_take_waiter [OF B1])
      fix u and s' :: "'u simulator" and v' b'
      assume k: "waking u WakeFutexWake C s' v'" and s': "sm_alive s' = sm_alive ?s" "sm_threads s' = sm_threads ?s"
        and "u \<in> parked_on fk ?s" and h: "held v' = held v"
      then have u: "u \<in> parked_on fk s" by (simp add: parked_on_def)
      show "wps (andThen (Wake (Some waker) u WakeFutexWake) (\<lambda>_. wake_all n waker fk)) s' v' b' t K H"
      proof (rule wps_andThen, rule wps_Wake [OF k])
        fix s1 :: "'u simulator" and v1
        assume S1: "sim_ok C s1 v1" and "woken u s' s1" "held v1 = insert u (held v')"
        then have W1: "all_woken {u} s v s1 v1" using s' h by (intro all_woken_one [where ?s1.0 = s']) simp_all
        note ps = all_woken_parked [OF W1, of fk]
        have "finite (parked_on fk s)" by (simp add: parked_on_def)
        then have "card (parked_on fk s - {u}) < card (parked_on fk s)" using u by (intro card_Diff1_less)
        then have c: "card (parked_on fk s1) < n" using Suc.prems(2) ps by simp
        have i: "insert u (parked_on fk s - {u}) = parked_on fk s" using u by blast
        show "wps (wake_all n waker fk) s1 v1 True t K H"
        proof (rule Suc.IH [OF S1 c])
          fix s2 :: "'u simulator" and v2 b2
          assume "sim_ok C s2 v2" and "all_woken (parked_on fk s1) s1 v1 s2 v2"
          then show "K () s2 v2 b2 t" using Suc.prems(3) all_woken_trans [OF W1, of "parked_on fk s - {u}"] ps i by simp
        qed
      qed simp
    next
      fix s' :: "'u simulator" and b'
      assume S': "sim_ok C s' v" "sm_alive s' = sm_alive ?s" "sm_threads s' = sm_threads ?s" and "parked_on fk ?s = {}"
      then have e: "parked_on fk s = {}" by (simp add: parked_on_def)
      then show "wps (ret ()) s' v b' t K H"
        using S' Suc.prems(3) all_woken_none [of s' s v] by (auto intro!: wps_ret)
    qed (use w A M in \<open>auto simp: main_ok_def\<close>)
  qed
qed

text \<open>One waiter is woken, if there is one, or all of them.\<close>

definition futex_woken :: "futex_key \<Rightarrow> nat \<Rightarrow> 'u simulator \<Rightarrow> sched_view \<Rightarrow> 'u simulator \<Rightarrow> sched_view \<Rightarrow> bool" where
  "futex_woken fk n s v s' v' \<longleftrightarrow> (\<exists>us \<subseteq> parked_on fk s. all_woken us s v s' v' \<and>
     (if n = 1 then card us \<le> 1 \<and> (us = {} \<longrightarrow> parked_on fk s = {}) else us = parked_on fk s))"

lemma wps_futex_wake:
  fixes s :: "'u simulator" and K :: "bool \<Rightarrow> 'u condition"
  assumes S: "sim_ok C s v"
    and K: "\<And>s' v' b'. sim_ok C s' v' \<Longrightarrow> futex_woken (FutexKey l) n s v s' v' \<Longrightarrow> K True s' v' b' t"
  shows "wps (SysFutexWake waker l n) s v b t K H"
proof -
  obtain W T where B: "base s v W T C {}" and A: "asleep (sm_threads s) (sm_alarm s) W T (set (sm_alive s))"
    and M: "main_ok s" using S unfolding sim_ok_def by blast
  show ?thesis
    unfolding SysFutexWake_def
  proof (rule wps_andThen, rule wps_GetFutex [OF B])
    fix fs w
    let ?s = "s\<lparr>sm_futex := fs\<rparr>" and ?fk = "FutexKey l"
    let ?K = "\<lambda>_ s' v' b' t'. wps (andThen (modify (\<lambda>s. s\<lparr>sm_futex_wake_count := sm_futex_wake_count s + 1\<rparr>)) (\<lambda>_. ret True))
       s' v' b' t' K H"
    assume w: "map_of fs ?fk = Some w" and B1: "base ?s v W T C {}"
    have M1: "main_ok ?s" and A1: "asleep (sm_threads ?s) (sm_alarm ?s) W T (set (sm_alive ?s))"
      using M A by (simp_all add: main_ok_def)
    have S1: "sim_ok C ?s v" unfolding sim_ok_def using B1 A1 M1 by blast
    have fin: "?K () s' v' b' t" if "sim_ok C s' v'" "futex_woken ?fk n s v s' v'" for s' v' b'
      by (intro wps_rules K) (use that in \<open>simp_all add: futex_woken_def\<close>)
    have p: "parked_on ?fk ?s = parked_on ?fk s" by (simp add: parked_on_def)
    have aw: "all_woken us ?s v s' v' = all_woken us s v s' v'" for us s' v' by (simp add: all_woken_def)
    have one: "wps (andThen (wait_queue_Pop w) (\<lambda>(waiter, w1). andThen (put_futex ?fk w1) (\<lambda>_. case waiter of
        None \<Rightarrow> ret () | Some u \<Rightarrow> Wake (Some waker) u WakeFutexWake))) ?s v b t ?K H" if n: "n = 1"
    proof (rule wps_take_waiter [OF B1 A1 M1])
      fix s' :: "'u simulator" and b'
      assume S': "sim_ok C s' v" "sm_alive s' = sm_alive ?s" "sm_threads s' = sm_threads ?s" and "parked_on ?fk ?s = {}"
      then have "futex_woken ?fk n s v s' v"
        unfolding futex_woken_def using n p by (intro exI [of _ "{}"]) (simp add: all_woken_none)
      then show "wps (ret ()) s' v b' t ?K H" by - (rule wps_ret, rule fin [OF S'(1)])
    next
      fix u and s' :: "'u simulator" and v' b'
      assume k: "waking u WakeFutexWake C s' v'" and s': "sm_alive s' = sm_alive ?s" "sm_threads s' = sm_threads ?s"
        and u: "u \<in> parked_on ?fk ?s" and h: "held v' = held v"
      show "wps (Wake (Some waker) u WakeFutexWake) s' v' b' t ?K H"
      proof (rule wps_Wake [OF k])
        fix s1 :: "'u simulator" and v1
        assume S1: "sim_ok C s1 v1" and "woken u s' s1" "held v1 = insert u (held v')"
        then have "all_woken {u} s v s1 v1" using s' h by (intro all_woken_one [where ?s1.0 = s']) simp_all
        then have "futex_woken ?fk n s v s1 v1"
          unfolding futex_woken_def using n u p by (intro exI [of _ "{u}"]) simp
        then show "?K () s1 v1 True t" by (rule fin [OF S1])
      qed simp
    qed (use w in simp_all)
    have all: "wps (wake_all (kMaxThreads + 1) waker ?fk) ?s v b t ?K H" if n: "n \<noteq> 1"
    proof (rule wps_wake_all [OF S1])
      fix s' :: "'u simulator" and v' b'
      assume S': "sim_ok C s' v'" and "all_woken (parked_on ?fk ?s) ?s v s' v'"
      then have "futex_woken ?fk n s v s' v'" unfolding futex_woken_def using n p aw by auto
      then show "?K () s' v' b' t" by (rule fin [OF S'])
    qed (use parked_bound [OF S1] in \<open>simp add: le_imp_less_Suc\<close>)
    show "wps (andThen (if n = 1 then andThen (wait_queue_Pop w) (\<lambda>(waiter, w1).
          andThen (put_futex ?fk w1) (\<lambda>_. case waiter of None \<Rightarrow> ret () | Some u \<Rightarrow> Wake (Some waker) u WakeFutexWake))
        else if n = 0 then wake_all (kMaxThreads + 1) waker ?fk
        else panic ''count value not supported'') (\<lambda>_.
       andThen (modify (\<lambda>s. s\<lparr>sm_futex_wake_count := sm_futex_wake_count s + 1\<rparr>)) (\<lambda>_. ret True))) ?s v b t K H"
      by (rule wps_andThen, rule wps_if, erule one, rule wps_if, erule all, rule wps_panic, simp add: user_messages_def)
  qed
qed

lemma wps_SysFutexWake:
  fixes K :: "bool \<Rightarrow> 'u condition"
  assumes "sim_ok C s v" and "\<And>s' v' b'. sim_ok C s' v' \<Longrightarrow> K True s' v' b' t"
  shows "wps (SysFutexWake waker l n) s v b t K H"
  by (rule wps_futex_wake [OF assms(1)]) (rule assms(2))

end
