(* ===== verification/Sim_Handlers.thy ===== *)
theory Sim_Handlers
  imports Sim_Wake
begin

text \<open>
  The handlers of the system calls keep the invariant of the simulator. A handler runs with its
  caller in hand; it leaves it in hand when it says that the caller goes on, and nothing otherwise.
\<close>

section \<open>What a handler comes to\<close>

definition stepped :: "tid \<Rightarrow> bool \<Rightarrow> 'u condition" where
  "stepped u r s v b t \<longleftrightarrow> (if r then sim_ok {u} s v \<and> t else sim_ok {} s v)"

text \<open>A simulation that aborts has its status, and can be burnt.\<close>

definition aborted :: "'u condition" where
  "aborted s v b t \<longleftrightarrow> burnable s v \<and> sm_status s \<noteq> None \<and> t"

lemma stepped_True: "sim_ok {u} s v \<Longrightarrow> stepped u True s v b True"
  by (simp add: stepped_def)

lemma stepped_False: "sim_ok {} s v \<Longrightarrow> stepped u False s v b t"
  by (simp add: stepped_def)

lemma abortedI: "sim_ok C s v \<Longrightarrow> aborted (s\<lparr>sm_status := Some st\<rparr>) v b True"
  by (simp add: aborted_def sim_ok_burnable)

section \<open>Going to sleep\<close>

lemma wps_make_timer:
  assumes S: "sim_ok C s v" and u: "u \<in> C"
    and K: "\<And>s'. sim_ok C s' v \<Longrightarrow> sm_alarm s' u = alarm \<Longrightarrow> K () s' v b t"
  shows "wps (make_timer u d alarm) s v b t K H"
proof -
  obtain W T where B: "base s v W T C {}" and A: "asleep (sm_threads s) (sm_alarm s) W T (set (sm_alive s))"
    and M: "main_ok s" using S unfolding sim_ok_def by blast
  have f: "W u = None" "u \<notin> T" using base_free [OF B] u by auto
  let ?q = "sm_timer_queue s"
  let ?q1 = "?q\<lparr>timers := (timers ?q)\<lparr>store := (store (timers ?q))(u := \<lparr>tm_when = d, loc = 0, timer_id = 0\<rparr>)\<rparr>\<rparr>"
  let ?s = "s\<lparr>sm_timer_queue := ?q1, sm_alarm := (sm_alarm s)(u := alarm)\<rparr>"
  have p: "queue_wf ?q" "pending ?q = T" using B by (simp_all add: base_def)
  then have "queue_wf ?q1 \<and> pending ?q1 = T" using set_timer_places [of ?q u] f(2) by simp
  then have "base ?s v W T C {}" using B by (simp add: base_def)
  moreover have "asleep (sm_threads ?s) (sm_alarm ?s) W T (set (sm_alive ?s))" using A f by (auto simp: asleep_def)
  ultimately have "sim_ok C ?s v" using M unfolding sim_ok_def by (auto simp: main_ok_def)
  then have "K () ?s v b t" by (rule K) simp
  then show ?thesis unfolding make_timer_def Let_def by (rule wps_modify)
qed

lemma wps_park:
  assumes S: "sim_ok C s v" and u: "u \<in> C" and al: "d \<noteq> None \<Longrightarrow> sm_alarm s u = WakeFutexTimer"
    and K: "\<And>s' v' b'. sim_ok (C - {u}) s' v' \<Longrightarrow> K () s' v' b' t"
  shows "wps (park u fk d ctx) s v b t K H"
proof -
  obtain W T where B: "base s v W T C {}" and A: "asleep (sm_threads s) (sm_alarm s) W T (set (sm_alive s))"
    and M: "main_ok s" using S unfolding sim_ok_def by blast
  have f: "W u = None" "u \<notin> T" using base_free [OF B] u by auto
  let ?f = "\<lambda>th. th\<lparr>th_state := Parked, th_futex := Some fk, th_timer := map_option (\<lambda>_. u) d, th_waiter := Some ctx\<rparr>"
  let ?T = "if d = None then T else insert u T"
  have fin: "K () (on_thread u ?f s') v' b' t"
    if B2: "base s' v' (W(u \<mapsto> fk)) ?T C {u}" and e: "sm_threads s' = sm_threads s" "sm_alarm s' = sm_alarm s"
      "sm_alive s' = sm_alive s" "sm_status s' = sm_status s" for s' v' b'
  proof (rule K)
    have "base (on_thread u ?f s') v' (W(u \<mapsto> fk)) ?T C {u}" using B2 by (rule base_on_thread) simp
    then have "base (on_thread u ?f s') v' (W(u \<mapsto> fk)) ?T (C - {u}) ({u} - {u})"
      by (rule base_settle(2)) (use f in \<open>simp_all split: option.split\<close>)
    then have B3: "base (on_thread u ?f s') v' (W(u \<mapsto> fk)) ?T (C - {u}) {}" by simp
    have "asleep (sm_threads (on_thread u ?f s')) (sm_alarm (on_thread u ?f s')) (W(u \<mapsto> fk)) ?T (set (sm_alive s'))"
      using A al e f by (auto simp: asleep_def)
    moreover have "main_ok (on_thread u ?f s')" using M e by (auto simp: main_ok_def)
    ultimately show "sim_ok (C - {u}) (on_thread u ?f s') v'" using B3 unfolding sim_ok_def by auto
  qed
  have push: "wps (andThen (put_futex fk w1) (\<lambda>_. andThen (case d of None \<Rightarrow> ret () | Some d \<Rightarrow> AddTimer u) (\<lambda>_. set_thread u ?f)))
      (s\<lparr>sm_futex := fs\<rparr>) v' b' t K H"
    if B1: "base (s\<lparr>sm_futex := fs\<rparr>) v W T C {u}"
      and L: "futex_linked ((map_of fs)(fk \<mapsto> w1)) v' (W(u \<mapsto> fk))" and h: "held v' = held v" for fs w1 v' b'
  proof -
    let ?s = "s\<lparr>sm_futex := AList.update fk w1 fs\<rparr>"
    have P: "places (set (sm_alive s)) (held v') (W(u \<mapsto> fk)) T C {u}"
      using B1 u unfolding h base_def places_def by auto
    have F: "fields (sm_threads s) (W(u \<mapsto> fk)) T (set (sm_alive s) - {u})" using B1 by (auto simp: base_def fields_def)
    have B2: "base ?s v' (W(u \<mapsto> fk)) T C {u}"
      using base_put_futex [OF B1, of fk w1 v' "W(u \<mapsto> fk)"] L P F by simp
    show ?thesis
    proof (cases d)
      case None
      have "K () (on_thread u ?f ?s) v' b' t" by (rule fin) (use B2 None in simp_all)
      then show ?thesis unfolding put_futex_def set_thread_def None by (auto intro!: wps_rules)
    next
      case (Some x)
      have "wps (AddTimer u) ?s v' b' t (\<lambda>_ s' v' b' t'. wps (set_thread u ?f) s' v' b' t' K H) H"
        unfolding set_thread_def
      proof (rule wps_AddTimer [OF B2 _ f(2)], simp, rule wps_modify, rule fin)
        fix q
        assume "base (?s\<lparr>sm_timer_queue := q\<rparr>) v' (W(u \<mapsto> fk)) (insert u T) C {u}"
        then show "base (?s\<lparr>sm_timer_queue := q\<rparr>) v' (W(u \<mapsto> fk)) ?T C {u}" using Some by simp
      qed simp_all
      then show ?thesis unfolding put_futex_def Some by (auto intro!: wps_rules)
    qed
  qed
  have Bm: "base s v W T C {u}" using base_mark [OF B u] .
  have hD: "held v \<inter> dom W = {}" "dom W \<subseteq> thread_ids" "u \<in> thread_ids" "u \<notin> held v"
    using base_held [OF B] base_ids [OF B] base_alive [OF B] u by blast+
  show ?thesis
    unfolding park_def
  proof (rule wps_andThen, rule wps_GetFutex [OF Bm], rule wps_andThen)
    fix fs w
    assume w: "map_of fs fk = Some w" and B1: "base (s\<lparr>sm_futex := fs\<rparr>) v W T C {u}"
    have L: "futex_linked (map_of fs) v W" using base_linked [OF B1] by simp
    show "wps (wait_queue_Push u w) (s\<lparr>sm_futex := fs\<rparr>) v b t (\<lambda>w1 s' v' b' t'. wps (andThen (put_futex fk w1) (\<lambda>_.
      andThen (case d of None \<Rightarrow> ret () | Some d \<Rightarrow> AddTimer u) (\<lambda>_. set_thread u ?f))) s' v' b' t' K H) H"
      by (rule wps_push [OF L w f(1) hD(3,4,1,2)], rule push [OF B1])
  qed
qed

lemma wps_SysSleepUntil:
  fixes H :: "'u condition"
  assumes S: "sim_ok {u} s v"
  shows "wps (SysSleepUntil u d) s v b True (stepped u) H"
  unfolding SysSleepUntil_def
proof (rule wps_andThen, rule wps_make_timer [OF S], simp)
  fix s1 :: "'u simulator"
  assume S1: "sim_ok {u} s1 v" and al: "sm_alarm s1 u = WakeSleepTimer"
  obtain W T where B: "base s1 v W T {u} {}" and A: "asleep (sm_threads s1) (sm_alarm s1) W T (set (sm_alive s1))"
    and M: "main_ok s1" using S1 unfolding sim_ok_def by blast
  have f: "W u = None" "u \<notin> T" using base_free [OF B] by auto
  have Bm: "base s1 v W T {u} {u}" using base_mark [OF B] by simp
  let ?f = "\<lambda>th. th\<lparr>th_state := Sleeping, th_futex := None, th_timer := Some u, th_waiter := None\<rparr>"
  show "wps (andThen (AddTimer u) (\<lambda>_. andThen (set_thread u ?f) (\<lambda>_. ret False))) s1 v b True (stepped u) H"
    unfolding set_thread_def
  proof (rule wps_andThen, rule wps_AddTimer [OF Bm _ f(2)], simp, intro wps_rules, rule stepped_False)
    fix q
    let ?s = "s1\<lparr>sm_timer_queue := q\<rparr>"
    assume "base ?s v W (insert u T) {u} {u}"
    then have "base (on_thread u ?f ?s) v W (insert u T) {u} {u}" by (rule base_on_thread) simp
    then have "base (on_thread u ?f ?s) v W (insert u T) ({u} - {u}) ({u} - {u})"
      by (rule base_settle(2)) (use f in simp_all)
    then have "base (on_thread u ?f ?s) v W (insert u T) {} {}" by simp
    moreover have "asleep (sm_threads (on_thread u ?f ?s)) (sm_alarm s1) W (insert u T) (set (sm_alive s1))"
      using A al f by (auto simp: asleep_def)
    moreover have "main_ok (on_thread u ?f ?s)" using M by (auto simp: main_ok_def)
    ultimately show "sim_ok {} (on_thread u ?f ?s) v" unfolding sim_ok_def by auto
  qed
qed

section \<open>Waiting on a futex\<close>

text \<open>The caller goes back to the scheduler.\<close>

lemma wps_ScheduleWaiter:
  assumes S: "sim_ok {u} s v"
  shows "wps (andThen (ScheduleWaiter u st) (\<lambda>_. ret False)) s v b t (stepped u) H"
proof -
  have S1: "sim_ok {u} (on_thread u (\<lambda>th. th\<lparr>th_status := st\<rparr>) s) v" by (rule sim_ok_on_thread [OF S]) simp_all
  show ?thesis
    unfolding ScheduleWaiter_def set_thread_def
    using sim_ok_nowhere [OF S1, of u] sim_ok_hand [OF S1, of u]
    by (intro wps_rules wps_sched_do) (simp_all add: stepped_False)
qed

lemma GetFutexValue_fault: "GetFutexValue a v l = Inl msg \<Longrightarrow> msg \<in> user_messages"
  by (auto simp: GetFutexValue_def bindE_eq_Inl user_messages_def split: futex_atomic_type.splits futex_atomic_part.splits)

lemma FutexAtomic_fault: "FutexAtomic l m \<noteq> Inl (Panic msg)"
  by (auto simp: FutexAtomic_def UnknownAtomicVarAccess_def InvalidAccess_def split: option.splits)

lemma wps_SysFutexWait:
  assumes S: "sim_ok {u} s v"
  shows "wps (SysFutexWait u l old d ctx) s v b True (stepped u) aborted"
proof -
  have wait: "wps (andThen (get (\<lambda>s. FutexAtomic (fl_atomic l) (sm_model s))) (\<lambda>r.
       andThen (lift r) (\<lambda>atomic.
       andThen (lift_msg (GetFutexValue atomic (FutexLoad atomic) l)) (\<lambda>value.
       if value \<noteq> old then andThen (ScheduleWaiter u StOk) (\<lambda>_. ret False)
       else andThen (park u (FutexKey l) d ctx) (\<lambda>_. ret False))))) s' v b' True (stepped u) aborted"
    if S': "sim_ok {u} s' v" and al: "d \<noteq> None \<Longrightarrow> sm_alarm s' u = WakeFutexTimer" for s' b'
    by (rule wps_andThen, rule wps_get, rule wps_andThen, rule wps_lift, rule wps_andThen, rule wps_lift_msg, rule wps_if,
        rule wps_ScheduleWaiter [OF S'], rule wps_andThen, rule wps_park [OF S'])
      (auto intro: stepped_False wps_ret al GetFutexValue_fault abortedI [OF S'] simp: FutexAtomic_fault)
  have spurious: "wps (andThen (if VulnerableToSpuriousWakeup ctx then sched_bool CSpuriousWakeup else ret False) (\<lambda>wakeup.
     if wakeup then andThen (ScheduleWaiter u StInterrupted) (\<lambda>_. ret False)
     else andThen (get (\<lambda>s. FutexAtomic (fl_atomic l) (sm_model s))) (\<lambda>r.
       andThen (lift r) (\<lambda>atomic.
       andThen (lift_msg (GetFutexValue atomic (FutexLoad atomic) l)) (\<lambda>value.
       if value \<noteq> old then andThen (ScheduleWaiter u StOk) (\<lambda>_. ret False)
       else andThen (park u (FutexKey l) d ctx) (\<lambda>_. ret False)))))) s' v b' True (stepped u) aborted"
    if S': "sim_ok {u} s' v" and al: "d \<noteq> None \<Longrightarrow> sm_alarm s' u = WakeFutexTimer" for s' b'
    by (rule wps_andThen, rule wps_if, rule wps_answers(3), rule wps_if, rule wps_ScheduleWaiter [OF S'], rule wait [OF S'],
        erule al, rule wps_ret, rule wps_if, rule wps_ScheduleWaiter [OF S'], rule wait [OF S'], erule al)
  show ?thesis
  proof (cases d)
    case None
    show ?thesis
      unfolding SysFutexWait_def None option.case
      by (rule wps_andThen, rule wps_ret, rule wps_andThen, rule wps_modify, rule spurious [unfolded None]) (use S in simp_all)
  next
    case (Some x)
    show ?thesis
      unfolding SysFutexWait_def Some option.case
      by (rule wps_andThen, rule wps_make_timer [OF S], simp, rule wps_andThen, rule wps_modify, rule spurious [unfolded Some]) simp_all
  qed
qed

section \<open>Spawning\<close>

lemma AllocateId_cases:
  assumes "n \<le> kMaxThreads"
  shows "AllocateId kMaxThreads \<lparr>next_tid = n\<rparr> = Inl ''Too many threads'' \<or>
    n + 1 \<le> kMaxThreads \<and> AllocateId kMaxThreads \<lparr>next_tid = n\<rparr> = Inr (n + 1, \<lparr>next_tid = n + 1\<rparr>)"
  using assms by (auto simp: AllocateId_def kMaxThreads_def Let_def)

lemma wps_CreateThread:
  assumes B: "base s v W T C {}" and A: "asleep (sm_threads s) (sm_alarm s) W T (set (sm_alive s))"
    and K: "\<And>c s'. c \<notin> set (sm_alive s) \<Longrightarrow> base s' v W T (insert c C) {} \<Longrightarrow>
       asleep (sm_threads s') (sm_alarm s') W T (set (sm_alive s')) \<Longrightarrow> sm_alive s' = sm_alive s @ [c] \<Longrightarrow>
       (\<And>x. x \<noteq> c \<Longrightarrow> sm_threads s' x = sm_threads s x) \<Longrightarrow> sm_status s' = sm_status s \<Longrightarrow> sm_done s' = sm_done s \<Longrightarrow> K c s' v b t"
  shows "wps (CreateThread r) s v b t K H"
proof -
  let ?n = "next_tid (sm_ids s)"
  have ids: "ids_ok (sm_alive s) ?n" using B by (simp add: base_def)
  have nmax: "?n \<le> kMaxThreads" using ids by (simp add: ids_ok_def)
  have e: "sm_ids s = \<lparr>next_tid = ?n\<rparr>" by simp
  let ?c = "?n + 1"
  have new: "?c \<notin> set (sm_alive s)" using ids by (auto simp: ids_ok_def)
  let ?s = "(on_thread ?c (\<lambda>th. (thread_Reset ?c th)\<lparr>th_status := StOk\<rparr>)
     (s\<lparr>sm_thread_count := sm_thread_count s + 1, sm_ids := \<lparr>next_tid = ?c\<rparr>\<rparr>))"
  let ?t = "?s\<lparr>sm_replies := (sm_replies ?s)(?c := Routine r), sm_alive := sm_alive ?s @ [?c]\<rparr>"
  have fin: "K ?c ?t v b t" if room: "?c \<le> kMaxThreads"
  proof (rule K [OF new])
    have out: "?c \<notin> held v \<union> dom W \<union> T \<union> C" using base_alive [OF B] new by blast
    have "places (set (sm_alive s)) (held v) W T C {}" using B by (simp add: base_def)
    then have "places (set (sm_alive ?t)) (held v) W T (insert ?c C) {}"
      using out unfolding places_def by auto
    moreover have "ids_ok (sm_alive ?t) (next_tid (sm_ids ?t))" using ids new room by (auto simp: ids_ok_def)
    moreover have "fields (sm_threads ?t) W T (set (sm_alive ?t) - {})"
      using B out by (auto simp: base_def fields_def thread_Reset_def)
    ultimately show "base ?t v W T (insert ?c C) {}" using B by (simp add: base_def on_thread_def)
    show "asleep (sm_threads ?t) (sm_alarm ?t) W T (set (sm_alive ?t))" using A out by (auto simp: asleep_def)
  qed (simp_all add: on_thread_def)
  have "AllocateId kMaxThreads (sm_ids s) = Inl ''Too many threads'' \<or>
      ?c \<le> kMaxThreads \<and> AllocateId kMaxThreads (sm_ids s) = Inr (?c, \<lparr>next_tid = ?c\<rparr>)"
    using AllocateId_cases [OF nmax] e by simp
  then show ?thesis
  proof (elim disjE conjE)
    assume "AllocateId kMaxThreads (sm_ids s) = Inl ''Too many threads''"
    then show ?thesis
      unfolding CreateThread_def
      by - (rule wps_andThen, rule wps_modify, rule wps_andThen, rule wps_get, rule wps_andThen, rule wps_lift_msg,
        simp_all add: user_messages_def)
  next
    assume room: "?c \<le> kMaxThreads" and a: "AllocateId kMaxThreads (sm_ids s) = Inr (?c, \<lparr>next_tid = ?c\<rparr>)"
    have "wps (lift_msg (AllocateId kMaxThreads (sm_ids s))) (s\<lparr>sm_thread_count := sm_thread_count s + 1\<rparr>) v b t
      (\<lambda>(u, ids1) s' v' b' t'. wps (andThen (modify (\<lambda>s. s\<lparr>sm_ids := ids1\<rparr>)) (\<lambda>_.
        andThen (set_thread u (\<lambda>th. (thread_Reset u th)\<lparr>th_status := StOk\<rparr>)) (\<lambda>_.
        andThen (reply_to u (Routine r)) (\<lambda>_.
        andThen (modify (\<lambda>s. s\<lparr>sm_alive := sm_alive s @ [u]\<rparr>)) (\<lambda>_. ret u))))) s' v' b' t' K H) H"
      unfolding a set_thread_def reply_to_def
      by (rule wps_lift_msg) (use fin [OF room] in \<open>auto intro!: wps_rules\<close>)
    then show ?thesis
      unfolding CreateThread_def
      by - (rule wps_andThen, rule wps_modify, rule wps_andThen, rule wps_get, rule wps_andThen,
        simp add: case_prod_unfold)
  qed
qed

lemma wps_SysSpawn:
  assumes S: "sim_ok {u} s v"
  shows "wps (SysSpawn u r) s v b True (stepped u) aborted"
proof -
  obtain W T where B: "base s v W T {u} {}" and A: "asleep (sm_threads s) (sm_alarm s) W T (set (sm_alive s))"
    and M: "main_ok s" using S unfolding sim_ok_def by blast
  show ?thesis
    unfolding SysSpawn_def
  proof (rule wps_andThen, rule wps_CreateThread [OF B A])
    fix c and s1 :: "'a simulator"
    assume c: "c \<notin> set (sm_alive s)" and B1: "base s1 v W T (insert c {u}) {}"
      and A1: "asleep (sm_threads s1) (sm_alarm s1) W T (set (sm_alive s1))"
      and al: "sm_alive s1 = sm_alive s @ [c]" and th: "\<And>x. x \<noteq> c \<Longrightarrow> sm_threads s1 x = sm_threads s x"
      and st: "sm_status s1 = sm_status s"
    have "main_ok s1" using M al th st c unfolding main_ok_def by (metis in_set_conv_decomp in_set_conv_decomp_first list.set_intros(1) UnI1 set_append)
    then have S1: "sim_ok {c, u} s1 v" unfolding sim_ok_def using B1 A1 by blast
    have cu: "c \<noteq> u" using c base_alive [OF B] by blast
    let ?s2 = "on_thread c (\<lambda>th. th\<lparr>th_parent_id := Some u\<rparr>) s1"
    have S2: "sim_ok {c, u} ?s2 v" by (rule sim_ok_on_thread [OF S1]) simp_all
    have S3: "sim_ok {c, u} (on_thread c (\<lambda>th. th\<lparr>th_sync := y\<rparr>) ?s2) v" for y
      by (rule sim_ok_on_thread [OF S2]) simp_all
    have S4: "sim_ok {u} (on_thread c (\<lambda>th. th\<lparr>th_sync := y\<rparr>) ?s2) (v\<lparr>held := insert c (held v)\<rparr>)" for y
      using sim_ok_hand [OF S3, of c y] cu by simp
    show "wps (andThen (set_thread c (\<lambda>th. th\<lparr>th_parent_id := Some u\<rparr>)) (\<lambda>_.
        andThen (get (\<lambda>s. mm_Spawn (ThreadCount s) (th_sync (sm_threads s u)) c (th_sync (sm_threads s c)))) (\<lambda>r.
        andThen (lift r) (\<lambda>y.
        andThen (set_thread c (\<lambda>th. th\<lparr>th_sync := y\<rparr>)) (\<lambda>_.
        andThen (sched_do (CSpawn c)) (\<lambda>_.
        andThen (reply_to u (ReplyId c)) (\<lambda>_. ret True)))))))
       s1 v b True (stepped u) aborted"
      unfolding set_thread_def reply_to_def
      by (rule wps_andThen, rule wps_modify, rule wps_andThen, rule wps_get, rule wps_andThen, rule wps_lift)
        (use S4 sim_ok_nowhere [OF S3, of c] in \<open>auto simp: mm_Spawn_def user_messages_def dest!: mm_Tick_fault
           intro!: wps_rules wps_sched_do stepped_True\<close>)
  qed
qed

end
