(* ===== verification/Sim_Exit.thy ===== *)
theory Sim_Exit
  imports Sim_Handlers
begin

text \<open>
  The end of threads: exit, burning, and the completion of the main thread; and the handlers that
  change nothing the invariant speaks of.
\<close>

section \<open>Burning a thread\<close>

lemma base_destroy:
  assumes B: "base s v W T C F" and u: "u \<in> C" "W u = None" "u \<notin> T" "F \<subseteq> {u}"
  shows "base (s\<lparr>sm_alive := remove1 u (sm_alive s), sm_ids := ids_Free u (sm_ids s)\<rparr>) v W T (C - {u}) {}"
proof -
  have d: "distinct (sm_alive s)" and ids: "ids_ok (sm_alive s) (next_tid (sm_ids s))"
    using B by (simp_all add: base_def ids_ok_def)
  have al: "set (remove1 u (sm_alive s)) = set (sm_alive s) - {u}" using d by (simp add: set_remove1_eq)
  have "places (set (sm_alive s)) (held v) W T C F" using B by (simp add: base_def)
  then have "places (set (sm_alive s) - {u}) (held v) W T (C - {u}) {}"
    using u unfolding places_def by auto
  moreover have "ids_ok (remove1 u (sm_alive s)) (next_tid (ids_Free u (sm_ids s)))"
    using ids al by (auto simp: ids_ok_def ids_Free_def distinct_remove1)
  moreover have "fields (sm_threads s) W T (set (sm_alive s) - F)" using B by (simp add: base_def)
  then have "fields (sm_threads s) W T (set (sm_alive s) - {u})" using u(4) unfolding fields_def by blast
  ultimately show ?thesis using B by (simp add: base_def al)
qed

lemma wps_DestroyThread:
  assumes B: "base s v W T C F" and u: "u \<in> C" "W u = None" "u \<notin> T" "F \<subseteq> {u}"
    and K: "\<And>s'. base s' v W T (C - {u}) {} \<Longrightarrow> sm_alive s' = remove1 u (sm_alive s) \<Longrightarrow> sm_threads s' = sm_threads s \<Longrightarrow>
      sm_status s' = sm_status s \<Longrightarrow> sm_alarm s' = sm_alarm s \<Longrightarrow> K () s' v b t"
  shows "wps (DestroyThread u) s v b t K H"
proof -
  have "K () (s\<lparr>sm_alive := remove1 u (sm_alive s), sm_ids := ids_Free u (sm_ids s)\<rparr>) v b t"
    by (rule K [OF base_destroy [OF B u]]) simp_all
  then show ?thesis unfolding DestroyThread_def by (rule wps_modify)
qed

lemma wps_BurnThread:
  assumes S: "burnable s v" and u: "u \<in> set (sm_alive s)"
    and K: "\<And>s' v' b'. burnable s' v' \<Longrightarrow> sm_alive s' = remove1 u (sm_alive s) \<Longrightarrow> sm_status s' = sm_status s \<Longrightarrow>
      K () s' v' b' True"
  shows "wps (BurnThread u) s v b True K H"
proof -
  obtain W T C where B: "base s v W T C {}" using S unfolding burnable_def by blast
  let ?v = "v\<lparr>held := held v - {u}\<rparr>" and ?C = "if u \<in> held v then insert u C else C"
  have B1: "base s ?v W T ?C {}" using base_remove [OF B] .
  have F: "th_futex (sm_threads s u) = W u" "th_timer (sm_threads s u) = (if u \<in> T then Some u else None)"
    using base_field [OF B] u by simp_all
  have destroy: "wps (andThen (modify (\<lambda>s. s\<lparr>sm_burnt_threads := sm_burnt_threads s + 1\<rparr>)) (\<lambda>_. DestroyThread u)) s2 v2 b2 True K H"
    if B2: "base s2 v2 W2 T2 C2 F2" and u2: "u \<in> C2" "W2 u = None" "u \<notin> T2" "F2 \<subseteq> {u}"
      and e: "sm_alive s2 = sm_alive s" "sm_status s2 = sm_status s" for s2 v2 b2 W2 T2 C2 F2
  proof (rule wps_andThen, rule wps_modify, rule wps_DestroyThread [where W = W2 and T = T2 and C = C2 and F = F2, OF _ u2])
    show "base (s2\<lparr>sm_burnt_threads := sm_burnt_threads s2 + 1\<rparr>) v2 W2 T2 C2 F2" using B2 by simp
    show "K () s' v2 b2 True" if "base s' v2 W2 T2 (C2 - {u}) {}"
      "sm_alive s' = remove1 u (sm_alive (s2\<lparr>sm_burnt_threads := sm_burnt_threads s2 + 1\<rparr>))"
      "sm_status s' = sm_status (s2\<lparr>sm_burnt_threads := sm_burnt_threads s2 + 1\<rparr>)" for s'
      using that e by (intro K) (auto simp: burnable_def)
  qed
  have futex: "wps (andThen (get_thread u th_futex) (\<lambda>futex. andThen (case futex of None \<Rightarrow> ret () | Some fk \<Rightarrow> futex_Remove fk u) (\<lambda>_.
       andThen (modify (\<lambda>s. s\<lparr>sm_burnt_threads := sm_burnt_threads s + 1\<rparr>)) (\<lambda>_. DestroyThread u)))) s2 v2 b2 True K H"
    if B2: "base s2 v2 W T2 C2 F2" and u2: "u \<in> C2 \<or> u \<in> dom W" "u \<notin> T2" "F2 \<subseteq> {u}"
      and e: "sm_alive s2 = sm_alive s" "sm_status s2 = sm_status s" "sm_threads s2 = sm_threads s" for s2 v2 b2 T2 C2 F2
  proof (cases "W u")
    case None
    then have uC: "u \<in> C2" using u2(1) by auto
    show ?thesis
      unfolding get_thread_def
      by (rule wps_andThen, rule wps_get, unfold e(3) F(1) None option.case, rule wps_andThen, rule wps_ret,
          rule destroy [OF B2 uC None u2(2,3) e(1,2)])
  next
    case (Some fk)
    show ?thesis
      unfolding get_thread_def
    proof (rule wps_andThen, rule wps_get, unfold e(3) F(1) Some option.case, rule wps_andThen, rule wps_futex_Remove [OF B2 Some])
      fix fs v3 b3
      assume "base (s2\<lparr>sm_futex := fs\<rparr>) v3 (W(u := None)) T2 (insert u C2) (insert u F2)"
      then show "wps (andThen (modify (\<lambda>s. s\<lparr>sm_burnt_threads := sm_burnt_threads s + 1\<rparr>)) (\<lambda>_. DestroyThread u))
          (s2\<lparr>sm_futex := fs\<rparr>) v3 b3 True K H"
        by (rule destroy) (use u2 e in simp_all)
    qed
  qed
  show ?thesis
  proof (cases "u \<in> T")
    case True
    show ?thesis
      unfolding BurnThread_def get_thread_def [of u th_timer]
      by (rule wps_andThen, rule wps_remove, simp, rule wps_andThen, rule wps_get, simp only: F(2) True if_True option.case,
          rule wps_andThen, rule wps_andThen, rule wps_CancelTimer(2) [OF B1 True], rule wps_ret, rule futex) auto
  next
    case False
    have "u \<in> ?C \<or> u \<in> dom W" using base_alive [OF B] u False by auto
    then show ?thesis
      unfolding BurnThread_def get_thread_def [of u th_timer]
      by - (rule wps_andThen, rule wps_remove, simp, rule wps_andThen, rule wps_get, simp only: F(2) False if_False option.case,
          rule wps_andThen, rule wps_ret, rule futex [OF B1 _ False], simp_all)
  qed
qed

section \<open>Burning the simulation\<close>

lemma burnable_empty:
  assumes "burnable s v" and "sm_alive s = []"
  shows "held v = {} \<and> pending (sm_timer_queue s) = {} \<and> queue_wf (sm_timer_queue s) \<and>
    futex_linked (map_of (sm_futex s)) v (\<lambda>_. None) \<and> base s v (\<lambda>_. None) {} {} {}"
proof -
  obtain W T C where B: "base s v W T C {}" using assms(1) unfolding burnable_def by blast
  have "held v \<union> dom W \<union> T \<union> C = {}" using base_alive [OF B] assms(2) by simp
  then have "held v = {}" "W = (\<lambda>_. None)" "T = {}" "C = {}" by auto
  then show ?thesis using B by (simp add: base_def)
qed

lemma sim_ok_empty: "burnable s v \<Longrightarrow> sm_alive s = [] \<Longrightarrow> sm_status s \<noteq> None \<Longrightarrow> sim_ok {} s v"
  using burnable_empty [of s v] unfolding sim_ok_def by (auto simp: asleep_def main_ok_def)

text \<open>All threads are burnt, and nothing is left.\<close>

lemma wps_Burn:
  assumes S: "burnable s v" and st: "sm_status s \<noteq> None"
    and K: "\<And>s' v' b'. sim_ok {} s' v' \<Longrightarrow> sm_alive s' = [] \<Longrightarrow> sm_status s' \<noteq> None \<Longrightarrow> K () s' v' b' True"
  shows "wps Burn s v b True K H"
proof -
  let ?I = "\<lambda>xs s v b t. burnable s v \<and> sm_alive s = xs \<and> sm_status s \<noteq> None \<and> t"
  have rest: "wps (andThen reset_timers (\<lambda>_. andThen reset_model (\<lambda>_. modify (\<lambda>s. s\<lparr>sm_done := True\<rparr>)))) s' v' b' t' K H"
    if I: "?I [] s' v' b' t'" for s' v' b' t'
  proof -
    note E = burnable_empty [of s' v']
    obtain q where q: "queue_Reset (sm_timer_queue s') = Inr q" "queue_wf q" "pending q = {}"
      using queue_Reset_places E I by blast
    have "base (s'\<lparr>sm_timer_queue := q, sm_model := x, sm_done := True\<rparr>) v' (\<lambda>_. None) {} {} {}" for x
      using E I q by (simp add: base_def places_def)
    then have "sim_ok {} (s'\<lparr>sm_timer_queue := q, sm_model := x, sm_done := True\<rparr>) v'" for x
      using I unfolding sim_ok_def by (intro exI) (auto simp: asleep_def main_ok_def)
    then have "K () (s'\<lparr>sm_timer_queue := q, sm_model := x, sm_done := True\<rparr>) v' b' True" for x
      by (rule K) (use I in simp_all)
    then show ?thesis
      unfolding reset_timers_def reset_model_def using I
      by (auto intro!: wps_rules wps_lift_msg simp: q(1))
  qed
  have turn: "wps (BurnThread x) s' v' b' t' (\<lambda>_. ?I ys) H" if "?I (x # ys) s' v' b' t'" for x ys s' v' b' t'
  proof -
    have t': t' using that by simp
    show ?thesis unfolding eqTrueI [OF t'] by (rule wps_BurnThread) (use that in simp_all)
  qed
  have "wps (for_each (sm_alive s) BurnThread) s v b True (\<lambda>_ s' v' b' t'. wps (andThen reset_timers (\<lambda>_. andThen reset_model (\<lambda>_.
      modify (\<lambda>s. s\<lparr>sm_done := True\<rparr>)))) s' v' b' t' K H) H"
  proof (rule wps_for_each [where I = ?I])
    show "?I (sm_alive s) s v b True" using S st by simp
  qed (rule turn, assumption, rule rest, assumption)
  then show ?thesis unfolding Burn_def by - (rule wps_andThen, rule wps_get, erule wps_andThen)
qed

lemma wps_BurnDetachedThreads:
  assumes S: "burnable s v" and K: "\<And>s' v' b'. burnable s' v' \<Longrightarrow> sm_status s' = sm_status s \<Longrightarrow> K () s' v' b' True"
  shows "wps BurnDetachedThreads s v b True K H"
proof -
  let ?I = "\<lambda>xs s' v b t. burnable s' v \<and> distinct xs \<and> set xs \<subseteq> set (sm_alive s') \<and> sm_status s' = sm_status s \<and> t"
  have d: "distinct (sm_alive s')" if "burnable s' v'" for s' and v' :: sched_view
    using that by (auto simp: burnable_def base_def ids_ok_def)
  have turn: "wps (BurnThread x) s' v' b' t' (\<lambda>_. ?I ys) H" if I: "?I (x # ys) s' v' b' t'" for x ys s' v' b' t'
  proof -
    have t': t' using I by simp
    show ?thesis
      unfolding eqTrueI [OF t']
      by (rule wps_BurnThread) (use I in \<open>auto simp: set_remove1_eq d\<close>)
  qed
  have "wps (for_each (filter P (sm_alive s)) BurnThread) s v b True K H" for P
  proof (rule wps_for_each [where I = ?I])
    show "?I (filter P (sm_alive s)) s v b True" using S d [OF S] by simp
    show "K () s' v' b' t'" if "?I [] s' v' b' t'" for s' v' b' t' using that K by auto
  qed (rule turn)
  then show ?thesis unfolding BurnDetachedThreads_def by - (rule wps_andThen, rule wps_get)
qed

section \<open>The end of the main thread\<close>

lemma wps_MainCompleted:
  assumes S: "burnable s v" and K: "\<And>s' v' b'. sim_ok {} s' v' \<Longrightarrow> K () s' v' b' True"
  shows "wps MainCompleted s v b True K aborted"
proof -
  have ending: "wps (andThen (get (\<lambda>s. sm_alive s = [])) (\<lambda>none.
     andThen (check none ''There are alive threads after main completion'') (\<lambda>_.
     andThen CheckMemory (\<lambda>_.
     modify (\<lambda>s. s\<lparr>sm_status := Some Ok\<rparr>))))) s' v' b' True K aborted" if S': "burnable s' v'" for s' v' b'
  proof -
    have "K () (s'\<lparr>sm_status := Some Ok\<rparr>) v' b' True" if "sm_alive s' = []"
      by (rule K) (use S' that in \<open>auto intro!: sim_ok_empty\<close>)
    moreover have "aborted (s'\<lparr>sm_status := Some st\<rparr>) v' b' True" for st using S' by (simp add: aborted_def)
    ultimately show ?thesis
      unfolding CheckMemory_def by (auto intro!: wps_rules wps_check simp: user_messages_def)
  qed
  show ?thesis
    unfolding MainCompleted_def
    by (rule wps_andThen, rule wps_get, rule wps_andThen, rule wps_if, rule wps_BurnDetachedThreads [OF S], erule ending,
        rule wps_ret, rule ending [OF S])
qed

lemma wps_SysThreadExit:
  fixes s :: "'u simulator"
  assumes S: "sim_ok {u} s v"
  shows "wps (SysThreadExit u) s v b True (stepped u) aborted"
proof -
  obtain W T where B: "base s v W T {u} {}" and A: "asleep (sm_threads s) (sm_alarm s) W T (set (sm_alive s))"
    and M: "main_ok s" using S unfolding sim_ok_def by blast
  have f: "W u = None" "u \<notin> T" using base_free [OF B] by auto
  have d: "distinct (sm_alive s)" using B by (simp add: base_def ids_ok_def)
  have destroy: "wps (andThen (DestroyThread u) (\<lambda>_. andThen (if th_main (sm_threads s u) then MainCompleted else ret ()) (\<lambda>_. ret False)))
      s v False True (stepped u) aborted"
  proof (rule wps_andThen, rule wps_DestroyThread [OF B _ f], simp, simp, rule wps_andThen, rule wps_if)
    fix s' :: "'u simulator"
    assume B': "base s' v W T ({u} - {u}) {}" and e: "sm_alive s' = remove1 u (sm_alive s)" "sm_threads s' = sm_threads s"
      "sm_status s' = sm_status s" "sm_alarm s' = sm_alarm s"
    show "wps MainCompleted s' v False True (\<lambda>a s' v' b' t'. wps (ret False) s' v' b' t' (stepped u) aborted) aborted"
      by (rule wps_MainCompleted) (use B' in \<open>auto simp: burnable_def intro!: wps_ret stepped_False\<close>)
    show "wps (ret ()) s' v False True (\<lambda>a s' v' b' t'. wps (ret False) s' v' b' t' (stepped u) aborted) aborted"
      if "\<not> th_main (sm_threads s u)"
    proof (intro wps_ret stepped_False)
      have "main_ok s'" using M that e d by (auto simp: main_ok_def set_remove1_eq)
      moreover have "asleep (sm_threads s') (sm_alarm s') W T (set (sm_alive s'))"
        using A e d by (auto simp: asleep_def set_remove1_eq)
      ultimately show "sim_ok {} s' v" using B' unfolding sim_ok_def by auto
    qed
  qed
  show ?thesis
    unfolding SysThreadExit_def get_thread_def
    by (rule wps_andThen, rule wps_sched_keep [where u = u], use sim_ok_nowhere [OF S, of u] in simp, rule wps_andThen, rule wps_get,
        rule destroy)
qed

end
