(* ===== verification/Sim_Calls.thy ===== *)
theory Sim_Calls
  imports Sim_Exit
begin

text \<open>The other handlers, and the dispatch of a system call.\<close>

section \<open>Calls that go back to the scheduler\<close>

lemma wps_SysYield: "sim_ok {u} s v \<Longrightarrow> wps (SysYield u) s v b True (stepped u) aborted"
  unfolding SysYield_def using sim_ok_nowhere [of "{u}" s v u] sim_ok_hand [of "{u}" s v u]
  by (intro wps_rules wps_sched_do) (simp_all add: stepped_False)

lemma wps_SysSwitchTo: "sim_ok {u} s v \<Longrightarrow> wps (SysSwitchTo u w) s v b True (stepped u) aborted"
  unfolding SysSwitchTo_def get_thread_def using sim_ok_nowhere [of "{u}" s v u] sim_ok_hand [of "{u}" s v u]
  by (intro wps_rules wps_check wps_sched_do) (simp_all add: stepped_False user_messages_def)

lemma wps_SysSync:
  assumes "sim_ok {u} s v"
  shows "wps (SysSync u a) s v b True (stepped u) aborted"
proof -
  have S: "sim_ok {u} (on_thread u (\<lambda>th. th\<lparr>th_action := Some a\<rparr>) s) v" by (rule sim_ok_on_thread [OF assms]) simp_all
  show ?thesis
    unfolding SysSync_def set_thread_def using sim_ok_nowhere [OF S, of u] sim_ok_hand [OF S, of u]
    by (intro wps_rules wps_sched_do) (simp_all add: stepped_False)
qed

section \<open>Calls of the memory model\<close>

lemma AccessNonAtomicVar_fault: "AccessNonAtomicVar n u c a m = Inl (Panic msg) \<Longrightarrow> msg \<in> user_messages"
  by (auto simp: AccessNonAtomicVar_def InitNonAtomicVar_def AccessLiveNonAtomicVar_def InitOnLiveSharedVar_def
      UnknownSharedVarAccess_def InvalidAccess_def bindE_eq_Inl user_messages_def Let_def
      dest!: mm_Tick_fault split: if_splits option.splits)

lemma wps_SysAccessNonAtomicVar:
  assumes S: "sim_ok {u} s v"
  shows "wps (SysAccessNonAtomicVar u a) s v b True (stepped u) aborted"
proof -
  have S1: "sim_ok {u} (on_thread u (\<lambda>th. th\<lparr>th_sync := c\<rparr>) s) v" for c by (rule sim_ok_on_thread [OF S]) simp_all
  have S2: "sim_ok {u} ((on_thread u (\<lambda>th. th\<lparr>th_sync := c\<rparr>) s)\<lparr>sm_model := m\<rparr>) v" for c m using S1 by simp
  have "wps (case p of (race, c, access1, m) \<Rightarrow> andThen (set_thread u (\<lambda>th. th\<lparr>th_sync := c\<rparr>)) (\<lambda>_.
     andThen (modify (\<lambda>s. s\<lparr>sm_model := m\<rparr>)) (\<lambda>_. if race \<noteq> None then SysAbort DataRace else ret True)))
     s v b True (stepped u) aborted" for p
    unfolding set_thread_def using S2 abortedI [OF S2] by (intro wps_rules) (simp_all add: stepped_True)
  then show ?thesis
    unfolding SysAccessNonAtomicVar_def
    by - (rule wps_andThen, rule wps_get, rule wps_andThen, rule wps_lift, assumption,
      rule abortedI [OF S], erule AccessNonAtomicVar_fault)
qed

lemma mm_AtomicThreadFence_fault: "mm_AtomicThreadFence n a c = Inl (Panic msg) \<Longrightarrow> msg \<in> user_messages"
  by (auto simp: mm_AtomicThreadFence_def user_messages_def split: memory_order.splits)

lemma GetShadowAtomicVar_fault: "GetShadowAtomicVar a m \<noteq> Inl (Panic msg)"
  by (auto simp: GetShadowAtomicVar_def UnknownAtomicVarAccess_def DeadAtomicVarAccess_def InvalidAccess_def
      split: option.splits)

lemma Sync_fault: "Sync n u c a m = Inl (Panic msg) \<Longrightarrow> msg \<in> user_messages"
  by (cases "act_type a")
    (auto simp: Sync_def bindE_eq_Inl mm_AtomicDestroy_def mm_AtomicLoad_def mm_AtomicDebugLoad_def mm_AtomicStore_def
      mm_AtomicRmwLoad_def mm_AtomicRmwCommit_def Let_def GetShadowAtomicVar_fault user_messages_def
      dest!: mm_Tick_fault mm_AtomicThreadFence_fault split: prod.splits)

lemma wps_SysMalloc:
  assumes S: "sim_ok {u} s v"
  shows "wps (SysMalloc u p n) s v b True (stepped u) aborted"
proof -
  have "sim_ok {u} (s\<lparr>sm_alloc_count := x, sm_model := m\<rparr>) v" for x m using S by simp
  then have "sim_ok {u} (on_thread u (\<lambda>th. th\<lparr>th_sync := c\<rparr>) (s\<lparr>sm_alloc_count := x, sm_model := m\<rparr>)) v" for x m c
    by (rule sim_ok_on_thread) simp_all
  then have "stepped u True (on_thread u (\<lambda>th. th\<lparr>th_sync := c\<rparr>) (s\<lparr>sm_alloc_count := x, sm_model := m\<rparr>)) v b True" for x m c
    by (rule stepped_True)
  then show ?thesis
    unfolding SysMalloc_def Let_def using S by (intro wps_rules) (simp_all add: stepped_True case_prod_unfold)
qed

lemma wps_SysFree: "sim_ok {u} s v \<Longrightarrow> wps (SysFree u p) s v b True (stepped u) aborted"
  unfolding SysFree_def by (intro wps_rules) (simp_all add: stepped_True)

section \<open>Calls that answer\<close>

lemma wps_SysDetach:
  assumes "sim_ok {u} s v"
  shows "wps (SysDetach w) s v b True (stepped u) aborted"
proof -
  have "sim_ok {u} (on_thread w (\<lambda>th. th\<lparr>th_parent_id := None\<rparr>) s) v" by (rule sim_ok_on_thread [OF assms]) simp_all
  then show ?thesis
    unfolding SysDetach_def set_thread_def using assms by (intro wps_rules) (simp_all add: stepped_True)
qed

lemma wps_SysRandomNumber: "sim_ok {u} s v \<Longrightarrow> wps (SysRandomNumber u) s v b True (stepped u) aborted"
  unfolding SysRandomNumber_def reply_to_def
  by (rule wps_andThen, rule wps_answers(1), intro wps_rules) (simp add: stepped_True)

lemma wps_SysRandomChoice: "sim_ok {u} s v \<Longrightarrow> wps (SysRandomChoice u n) s v b True (stepped u) aborted"
  unfolding SysRandomChoice_def reply_to_def
  by (rule wps_andThen, rule wps_check, rule wps_if, intro wps_rules, simp add: stepped_True,
      rule wps_andThen, rule wps_answers(2), simp, intro wps_rules)
    (simp_all add: stepped_True user_messages_def)

lemma wps_SysSpuriousTryFailure: "sim_ok {u} s v \<Longrightarrow> wps (SysSpuriousTryFailure u) s v b True (stepped u) aborted"
  unfolding SysSpuriousTryFailure_def reply_to_def
  by (rule wps_andThen, rule wps_answers(4), intro wps_rules) (simp add: stepped_True)

lemma wps_SysWrite: "sim_ok {u} s v \<Longrightarrow> wps (SysWrite fd buf) s v b True (stepped u) aborted"
  unfolding SysWrite_def by (intro wps_rules wps_panic) (simp_all add: stepped_True user_messages_def)

lemma wps_SysSetThreadAttrPreemptive:
  assumes "sim_ok {u} s v"
  shows "wps (SysSetThreadAttrPreemptive u on) s v b True (stepped u) aborted"
proof -
  have "sim_ok {u} (on_thread u (\<lambda>th. th\<lparr>th_attrs := x\<rparr>) s) v" for x by (rule sim_ok_on_thread [OF assms]) simp_all
  then show ?thesis
    unfolding SysSetThreadAttrPreemptive_def get_thread_def set_thread_def reply_to_def
    by (intro wps_rules) (simp add: stepped_True)
qed

lemma wps_SysSetThreadAttrLockFree:
  assumes "sim_ok {u} s v"
  shows "wps (SysSetThreadAttrLockFree u on) s v b True (stepped u) aborted"
proof -
  have "sim_ok {u} (on_thread u (\<lambda>th. th\<lparr>th_attrs := x\<rparr>) s) v" for x by (rule sim_ok_on_thread [OF assms]) simp_all
  then show ?thesis
    unfolding SysSetThreadAttrLockFree_def get_thread_def set_thread_def reply_to_def
    using sim_ok_nowhere [OF assms, of u]
    by (intro wps_rules wps_sched_keep [where u = u and on = on]) (simp_all add: stepped_True)
qed

lemma wps_SysSchedHintProgress: "sim_ok {u} s v \<Longrightarrow> wps (SysSchedHintProgress u) s v b True (stepped u) aborted"
  unfolding SysSchedHintProgress_def using sim_ok_nowhere [of "{u}" s v u]
  by (intro wps_rules wps_sched_keep [where u = u]) (simp_all add: stepped_True)

lemma wps_SysSchedHintNewIter: "sim_ok {u} s v \<Longrightarrow> wps SysSchedHintNewIter s v b True (stepped u) aborted"
  unfolding SysSchedHintNewIter_def
  by (intro wps_rules wps_sched_keep) (simp_all add: stepped_True)

lemma wps_NextFiberId:
  assumes "\<And>i x. K i (s\<lparr>sm_next_fiber_id := x\<rparr>) v b t"
  shows "wps NextFiberId s v b t K H"
  unfolding NextFiberId_def by (intro wps_rules assms)

lemma wps_SysThreadEnter: "sim_ok {u} s v \<Longrightarrow> wps (SysThreadEnter u) s v b True (stepped u) aborted"
  unfolding SysThreadEnter_def by (rule wps_andThen, rule wps_NextFiberId, intro wps_rules) (simp add: stepped_True)

lemma wps_SysRegisterFiber: "sim_ok {u} s v \<Longrightarrow> wps (SysRegisterFiber u) s v b True (stepped u) aborted"
  unfolding SysRegisterFiber_def reply_to_def
  by (rule wps_andThen, rule wps_NextFiberId, intro wps_rules) (simp add: stepped_True)

lemma wps_SysSwitchToFiber: "sim_ok {u} s v \<Longrightarrow> wps (SysSwitchToFiber u i) s v b True (stepped u) aborted"
  unfolding SysSwitchToFiber_def reply_to_def
  by (intro wps_rules wps_check) (simp_all add: stepped_True user_messages_def)

section \<open>The dispatch\<close>

lemma wps_SysSleepFor: "sim_ok {u} s v \<Longrightarrow> wps (SysSleepFor u d) s v b True (stepped u) aborted"
  unfolding SysSleepFor_def by (rule wps_andThen, rule wps_get, rule wps_SysSleepUntil)

lemma wps_call_handler:
  assumes S: "sim_ok {u} s v"
  shows "wps (call_handler u c) s v b True (stepped u) aborted"
proof (cases c)
  case Sys_Noop
  then show ?thesis using S by (simp add: call_handler_def wps_ret stepped_True)
next
  case Sys_GetId
  then show ?thesis using S by (auto simp: call_handler_def reply_to_def intro!: wps_rules stepped_True)
next
  case Sys_Now
  then show ?thesis using S by (auto simp: call_handler_def reply_to_def intro!: wps_rules stepped_True)
next
  case (Sys_FutexWake l n)
  then show ?thesis by (simp add: call_handler_def wps_SysFutexWake [OF S] stepped_True)
next
  case (Sys_Abort st)
  then show ?thesis using abortedI [OF S] by (auto simp: call_handler_def intro: wps_SysAbort)
qed (use S in \<open>simp_all add: call_handler_def wps_SysSpawn wps_SysDetach wps_SysYield wps_SysSwitchTo wps_SysSleepFor
    wps_SysSleepUntil wps_SysSync wps_SysAccessNonAtomicVar wps_SysFutexWait wps_SysMalloc wps_SysFree wps_SysRandomNumber
    wps_SysRandomChoice wps_SysSpuriousTryFailure wps_SysWrite wps_SysSetThreadAttrPreemptive wps_SysSetThreadAttrLockFree
    wps_SysSchedHintProgress wps_SysSchedHintNewIter wps_SysThreadEnter wps_SysThreadExit wps_SysRegisterFiber
    wps_SysSwitchToFiber\<close>)

lemma wps_HandleSystemCall:
  assumes S: "sim_ok {u} s v"
  shows "wps (HandleSystemCall u c) s v b True (stepped u) aborted"
  unfolding HandleSystemCall_def
proof (rule wps_andThen, rule wps_conseq [OF wps_call_handler [OF S]])
  fix r s' v' b' t'
  assume r: "stepped u r s' v' b' t'"
  show "wps (if r then andThen (set_thread u (\<lambda>th. th\<lparr>th_status := StOk\<rparr>)) (\<lambda>_. ret True) else ret False)
     s' v' b' t' (stepped u) aborted"
  proof (cases r)
    case True
    then have "sim_ok {u} s' v'" and t': t' using r by (simp_all add: stepped_def)
    from this(1) have "sim_ok {u} (on_thread u (\<lambda>th. th\<lparr>th_status := StOk\<rparr>) s') v'" by (rule sim_ok_on_thread) simp_all
    then show ?thesis using True t' unfolding set_thread_def by (auto intro!: wps_rules stepped_True)
  next
    case False
    then show ?thesis using r by (simp add: wps_ret)
  qed
qed

end
