(* ===== verification/Sim_Loop.thy ===== *)
theory Sim_Loop
  imports Sim_Calls
begin

text \<open>
  The loop of the simulator keeps its invariant, and comes to an end with no thread left: a whole
  simulation keeps to the simulator's side of the scheduler's contract, whatever the program under
  test does.
\<close>

section \<open>Iterations\<close>

lemma wps_RunThread:
  assumes S: "sim_ok {u} s v" and K: "\<And>c s'. sim_ok {u} s' v \<Longrightarrow> K c s' v b t"
  shows "wps (RunThread u) s v b t K H"
proof -
  have "sim_ok {u} (on_thread u (\<lambda>th. th\<lparr>th_state := Running, th_runs := th_runs th + 1\<rparr>) s) v"
    by (rule sim_ok_on_thread [OF S]) simp_all
  then show ?thesis unfolding RunThread_def set_thread_def by (intro wps_rules K) simp
qed

lemma wps_run_slice:
  fixes K :: "unit \<Rightarrow> 'u condition"
  assumes "sim_ok {u} s v" and "\<And>s' v' b' t'. sim_ok {} s' v' \<Longrightarrow> K () s' v' b' t'"
  shows "wps (run_slice n u) s v b True K aborted"
  using assms(1)
proof (induction n arbitrary: s v b)
  case 0
  then show ?case by (simp add: wps_no_return)
next
  case (Suc n)
  have "wps (HandleSystemCall u c) s' v b True
      (\<lambda>r s' v' b' t'. wps (if r then run_slice n u else ret ()) s' v' b' t' K aborted) aborted" if "sim_ok {u} s' v" for c s'
  proof (rule wps_conseq [OF wps_HandleSystemCall [OF that]])
    fix r and s' :: "'u simulator" and v' b' t'
    assume "stepped u r s' v' b' t'"
    then show "wps (if r then run_slice n u else ret ()) s' v' b' t' K aborted"
      by (cases r) (auto simp: stepped_def intro: Suc.IH wps_ret assms(2))
  qed
  then show ?case
    unfolding run_slice.simps by (intro wps_andThen wps_RunThread [OF Suc.prems])
qed

lemma wps_sim_Sync:
  assumes S: "sim_ok {u} s v" and K: "\<And>x s'. sim_ok {u} s' v \<Longrightarrow> K x s' v b True"
  shows "wps (sim_Sync u a) s v b True K aborted"
proof -
  have S1: "sim_ok {u} ((on_thread u (\<lambda>th. th\<lparr>th_sync := c\<rparr>) s)\<lparr>sm_model := m\<rparr>) v" for c m
    using sim_ok_on_thread [OF S, of "\<lambda>th. th\<lparr>th_sync := c\<rparr>" u] by simp
  have "wps (case p of (x, c, m, action1) \<Rightarrow> andThen (set_thread u (\<lambda>th. th\<lparr>th_sync := c\<rparr>)) (\<lambda>_.
     andThen (modify (\<lambda>s. s\<lparr>sm_model := m\<rparr>)) (\<lambda>_.
     andThen (if IsDigestableLoad (act_type a) then DigestAtomicLoad x else ret ()) (\<lambda>_. ret x)))) s v b True K aborted" for p
    unfolding set_thread_def DigestAtomicLoad_def using S1 by (intro wps_rules) (auto intro!: K)
  then show ?thesis
    unfolding sim_Sync_def
    by - (rule wps_andThen, rule wps_get, rule wps_andThen, rule wps_lift, assumption, rule abortedI [OF S], erule Sync_fault)
qed

lemma wps_CompleteSync:
  assumes S: "sim_ok {u} s v" and K: "\<And>s'. sim_ok {u} s' v \<Longrightarrow> K () s' v b True"
  shows "wps (CompleteSync u) s v b True K aborted"
proof -
  have S1: "sim_ok {u} (on_thread u (\<lambda>th. th\<lparr>th_action := None\<rparr>) s) v" by (rule sim_ok_on_thread [OF S]) simp_all
  have S2: "sim_ok {u} (on_thread u (\<lambda>th. th\<lparr>th_load := x\<rparr>) s') v" if "sim_ok {u} s' v" for x s'
    by (rule sim_ok_on_thread [OF that]) simp_all
  show ?thesis
    unfolding CompleteSync_def get_thread_def set_thread_def
    by (rule wps_andThen, rule wps_get, rule wps_andThen, rule wps_modify, rule wps_option, rule wps_ret, rule K [OF S1],
        rule wps_andThen, rule wps_sim_Sync [OF S1], rule wps_modify, rule K, erule S2)
qed

lemma wps_IterThread:
  assumes S: "sim_ok {u} s v" and K: "\<And>s' v' b' t'. sim_ok {} s' v' \<Longrightarrow> K () s' v' b' t'"
  shows "wps (IterThread n u) s v b True K aborted"
  unfolding IterThread_def
  by (rule wps_andThen, rule wps_modify, rule wps_andThen, rule wps_CompleteSync, simp add: S, erule wps_run_slice, erule K)

lemma wps_Maintenance:
  assumes S: "sim_ok {} s v" and ne: "held v \<noteq> {}"
    and K: "\<And>s' v'. sim_ok {} s' v' \<Longrightarrow> K () s' v' True t"
  shows "wps Maintenance s v True t K H"
proof -
  have dl: "wps (andThen IsDeadlock (\<lambda>_. ret ())) s' v' True t K H" if "sim_ok {} s' v'" "held v' \<noteq> {}" for s' v'
    unfolding IsDeadlock_def using that by (intro wps_andThen wps_idle wps_get wps_ret) (auto intro: K)
  show ?thesis
    unfolding Maintenance_def
    by (rule wps_andThen, rule wps_get, rule wps_andThen, rule wps_if, rule wps_ret, rule dl [OF S ne],
        rule wps_andThen, rule wps_PollTimers [OF S], rule wps_ret) (use ne dl in auto)
qed

lemma wps_Iter:
  assumes S: "sim_ok {} s v" and ne: "held v \<noteq> {}" and K: "\<And>s' v' b' t'. sim_ok {} s' v' \<Longrightarrow> K () s' v' b' t'"
  shows "wps (Iter n) s v True t K aborted"
proof -
  have pick: "wps (andThen (get (\<lambda>s. of_nat (NowTicks (sm_time s)))) (\<lambda>now. andThen (sched_thread (CPickNext now)) (IterThread n)))
     s' v' True t K aborted" if S': "sim_ok {} s' v'" for s' v'
    by (rule wps_andThen, rule wps_get, rule wps_andThen, rule wps_pick, simp,
        rule wps_IterThread [OF sim_ok_pick [OF S']], assumption, erule K)
  let ?s = "s\<lparr>sm_iter := sm_iter s + 1\<rparr>"
  let ?s1 = "?s\<lparr>sm_time := (sm_time ?s)\<lparr>ticker_of := Tick 1 (ticker_of (sm_time ?s))\<rparr>\<rparr>"
  have S1: "sim_ok {} ?s1 v" using S by simp
  show ?thesis
    unfolding Iter_def
    by (rule wps_andThen, rule wps_modify, rule wps_andThen, rule wps_modify, rule wps_andThen, rule wps_get,
        rule wps_andThen, rule wps_if, rule wps_Maintenance [OF S1 ne], erule pick, rule wps_ret, rule pick [OF S1])
qed

section \<open>Deadlocks\<close>

text \<open>When nothing can run and no timer is pending, every thread that is alive is parked.\<close>

lemma deadlock_parked:
  assumes S: "sim_ok {} s v" and i: "held v = {}" and e: "pending (sm_timer_queue s) = {}" and u: "u \<in> set (sm_alive s)"
  shows "th_state (sm_threads s u) = Parked \<and> th_futex (sm_threads s u) \<noteq> None"
proof -
  obtain W T where B: "base s v W T {} {}" and A: "asleep (sm_threads s) (sm_alarm s) W T (set (sm_alive s))"
    using S unfolding sim_ok_def by blast
  have "T = {}" using B e by (simp add: base_def)
  then have "W u \<noteq> None" using base_alive [OF B] i u by auto
  then show ?thesis using A u base_field [OF B, of u] by (auto simp: asleep_def)
qed

lemma wps_ReportDeadlock:
  fixes K :: "unit \<Rightarrow> 'u condition"
  assumes S: "burnable s v" and P: "\<And>u. u \<in> set (sm_alive s) \<Longrightarrow> th_state (sm_threads s u) = Parked"
    and K: "\<And>s'. burnable s' v \<Longrightarrow> K () s' v b t"
  shows "wps ReportDeadlock s v b t K H"
proof -
  let ?I = "\<lambda>xs s' v' b' t'. burnable s' v' \<and> distinct xs \<and> (\<forall>u \<in> set xs. th_state (sm_threads s' u) = Parked) \<and>
     v' = v \<and> b' = b \<and> t' = t"
  have d: "distinct (sm_alive s)" using S by (auto simp: burnable_def base_def ids_ok_def)
  have turn: "wps (andThen (get_thread x th_state) (\<lambda>state. if state = Parked then set_thread x (\<lambda>th. th\<lparr>th_state := Deadlocked\<rparr>)
       else if state = LfSuspended then ret () else no_return)) s' v' b' t' (\<lambda>_. ?I ys) H"
    if I: "?I (x # ys) s' v' b' t'" for x ys s' v' b' t'
  proof -
    obtain W T C where "base s' v' W T C {}" using I unfolding burnable_def by blast
    then have "base (on_thread x (\<lambda>th. th\<lparr>th_state := Deadlocked\<rparr>) s') v' W T C {}"
      by (rule base_on_thread) simp
    then have "burnable (on_thread x (\<lambda>th. th\<lparr>th_state := Deadlocked\<rparr>) s') v'" unfolding burnable_def by blast
    then show ?thesis
      unfolding get_thread_def set_thread_def using I by (intro wps_rules) auto
  qed
  have "wps (for_each (sm_alive s) (\<lambda>u. andThen (get_thread u th_state) (\<lambda>state. if state = Parked
       then set_thread u (\<lambda>th. th\<lparr>th_state := Deadlocked\<rparr>) else if state = LfSuspended then ret () else no_return))) s v b t K H"
  proof (rule wps_for_each [where I = ?I])
    show "?I (sm_alive s) s v b t" using S P d by simp
    show "K () s' v' b' t'" if I: "?I [] s' v' b' t'" for s' :: "'u simulator" and v' b' t'
    proof -
      have "burnable s' v'" using I by blast
      moreover have "v' = v" "b' = b" "t' = t" using I by blast+
      ultimately show ?thesis using K by blast
    qed
  qed (rule turn)
  then show ?thesis unfolding ReportDeadlock_def by - (rule wps_andThen, rule wps_get)
qed

text \<open>
  The check is exact: it aborts the simulation when no thread can run, none is sleeping, and one is left,
  and otherwise does nothing.
\<close>

definition stuck :: "'u simulator \<Rightarrow> bool" where
  "stuck s \<longleftrightarrow> pending (sm_timer_queue s) = {} \<and> sm_alive s \<noteq> []"

lemma wps_deadlock_check:
  fixes s :: "'u simulator"
  assumes S: "sim_ok {} s v" and i: "held v = {}"
    and K: "\<not> stuck s \<Longrightarrow> K () s v False True"
    and H: "\<And>s'. stuck s \<Longrightarrow> burnable s' v \<Longrightarrow> sm_status s' = Some Deadlock \<Longrightarrow> H s' v False True"
  shows "wps CheckDeadlock s v b t K H"
proof -
  have report: "wps (andThen ReportDeadlock (\<lambda>_. SysAbort Deadlock)) s v False True K H" if st: "stuck s"
  proof (rule wps_andThen, rule wps_ReportDeadlock [OF sim_ok_burnable [OF S]])
    show "th_state (sm_threads s u) = Parked" if "u \<in> set (sm_alive s)" for u
      using deadlock_parked [OF S i _ that] st by (simp add: stuck_def)
    show "wps (SysAbort Deadlock) s' v False True K H" if "burnable s' v" for s' :: "'u simulator"
      by (rule wps_SysAbort, rule H [OF st]) (use that in simp_all)
  qed
  show ?thesis
    unfolding CheckDeadlock_def IsDeadlock_def
  proof (rule wps_andThen, rule wps_andThen, rule wps_idle)
    show "wps (get (\<lambda>s. True \<and> queue_IsEmpty (sm_timer_queue s) \<and> sm_alive s \<noteq> [])) s v False True (\<lambda>deadlock s' v' b' t'.
      wps (if deadlock then
         andThen (get (\<lambda>s. \<forall>t \<in> set (sm_alive s). th_state (sm_threads s t) = Parked \<or> th_state (sm_threads s t) = LfSuspended)) (\<lambda>ok.
         andThen (check ok ''Internal error'') (\<lambda>_. andThen ReportDeadlock (\<lambda>_. SysAbort Deadlock)))
       else ret ()) s' v' b' t' K H) H"
      by (rule wps_get, rule wps_if, rule wps_andThen, rule wps_get, rule wps_andThen, rule wps_check)
        (use report K deadlock_parked [OF S i] in \<open>auto simp: queue_IsEmpty_pending stuck_def intro: wps_ret\<close>)
  qed (use i in simp)
qed

lemma wps_CheckDeadlock:
  assumes "sim_ok {} s v" and "held v = {}"
    and "\<not> (pending (sm_timer_queue s) = {} \<and> sm_alive s \<noteq> []) \<Longrightarrow> K () s v False True"
  shows "wps CheckDeadlock s v b t K aborted"
  by (rule wps_deadlock_check [OF assms(1,2)]) (use assms(3) in \<open>auto simp: stuck_def aborted_def\<close>)

text \<open>When nothing can run, time moves on to the next deadline; without one, no thread is left.\<close>

lemma wps_Idle:
  fixes K :: "bool \<Rightarrow> 'u condition"
  assumes S: "sim_ok {} s v" and i: "held v = {}"
    and again: "\<And>s' v' b'. sim_ok {} s' v' \<Longrightarrow> K True s' v' b' True"
    and stop: "sm_alive s = [] \<Longrightarrow> K False s v False True"
  shows "wps Idle s v b t K aborted"
proof -
  have poll: "wps (andThen PollTimers (\<lambda>_. ret True)) s' v' b' True K aborted" if "sim_ok {} s' v'" for s' v' b'
    by (rule wps_andThen, rule wps_PollTimers [OF that], rule wps_ret, erule again)
  have advance: "wps (andThen (get sm_timer_queue) (\<lambda>q. andThen (lift_msg (NextDeadLine q)) (\<lambda>until.
         andThen (get (\<lambda>s. AdvanceTo until (sm_time s))) (\<lambda>r.
         andThen (lift_msg r) (\<lambda>tm.
         andThen (modify (\<lambda>s. s\<lparr>sm_time := tm\<rparr>)) (\<lambda>_.
         andThen PollTimers (\<lambda>_. ret True))))))) s v b' True K aborted"
    if d: "NextDeadLine (sm_timer_queue s) = Inr d" "Now (sm_time s) < d" for d b'
  proof -
    have "msg \<in> user_messages" if "AdvanceTo d (sm_time s) = Inl msg" for msg
      using that d(2) by (auto simp: AdvanceTo_def Let_def user_messages_def split: if_splits)
    then show ?thesis
      by - (rule wps_andThen, rule wps_get, rule wps_andThen, rule wps_lift_msg, rule wps_andThen, rule wps_get, rule wps_andThen,
        rule wps_lift_msg, rule wps_andThen, rule wps_modify, rule poll, simp_all add: d(1) S)
  qed
  have pend: "wps (andThen PollTimers (\<lambda>progress. if progress then ret True
       else andThen (get sm_timer_queue) (\<lambda>q. andThen (lift_msg (NextDeadLine q)) (\<lambda>until.
         andThen (get (\<lambda>s. AdvanceTo until (sm_time s))) (\<lambda>r.
         andThen (lift_msg r) (\<lambda>tm.
         andThen (modify (\<lambda>s. s\<lparr>sm_time := tm\<rparr>)) (\<lambda>_.
         andThen PollTimers (\<lambda>_. ret True)))))))) s v False True K aborted"
    if ne: "pending (sm_timer_queue s) \<noteq> {}"
  proof (rule wps_andThen, rule wps_PollTimers [OF S], rule wps_if)
    fix r and s' :: "'u simulator" and v' b'
    assume "sim_ok {} s' v'"
    then show "wps (ret True) s' v' b' True K aborted" by (intro wps_ret again)
  next
    fix r and s' :: "'u simulator" and v' b'
    assume "\<not> r \<longrightarrow> s' = s \<and> v' = v \<and> b' = False \<and>
       (pending (sm_timer_queue s) \<noteq> {} \<longrightarrow> (\<exists>d. NextDeadLine (sm_timer_queue s) = Inr d \<and> Now (sm_time s) < d))"
      and "\<not> r"
    then obtain d where "s' = s" "v' = v" "NextDeadLine (sm_timer_queue s) = Inr d" "Now (sm_time s) < d" using ne by blast
    then show "wps (andThen (get sm_timer_queue) (\<lambda>q. andThen (lift_msg (NextDeadLine q)) (\<lambda>until.
         andThen (get (\<lambda>s. AdvanceTo until (sm_time s))) (\<lambda>r.
         andThen (lift_msg r) (\<lambda>tm.
         andThen (modify (\<lambda>s. s\<lparr>sm_time := tm\<rparr>)) (\<lambda>_.
         andThen PollTimers (\<lambda>_. ret True))))))) s' v' b' True K aborted" using advance by simp
  qed
  show ?thesis
    unfolding Idle_def
    by (rule wps_andThen, rule wps_CheckDeadlock [OF S i], rule wps_andThen, rule wps_get, rule wps_if, rule wps_ret,
        rule stop, simp add: queue_IsEmpty_pending, rule pend, simp add: queue_IsEmpty_pending)
qed

section \<open>The loops\<close>

lemma wps_run_loop:
  assumes "sim_ok {} s v" and "n \<le> budget"
    and K: "\<And>s' v' b'. sim_ok {} s' v' \<Longrightarrow> sm_alive s' = [] \<Longrightarrow> K () s' v' b' True"
  shows "wps (run_loop n budget) s v b t K aborted"
  using assms(1,2)
proof (induction n arbitrary: s v b t budget)
  case 0
  then show ?case by (simp add: wps_no_return)
next
  case (Suc n)
  have pos: "0 < budget" using Suc.prems(2) by simp
  show ?case
    unfolding run_loop.simps
  proof (rule wps_andThen, rule wps_idle)
    assume "held v = {}"
    then have "wps Idle s v False True (\<lambda>again s' v' b' t'. wps (if again then run_loop n budget else ret ()) s' v' b' t' K aborted) aborted"
      by (rule wps_Idle [OF Suc.prems(1)]) (use Suc.prems in \<open>auto intro: Suc.IH wps_ret K\<close>)
    then show "wps (if \<not> True \<and> 0 < budget then andThen (Iter n) (\<lambda>_. run_loop n (budget - 1))
       else if 0 < budget then andThen Idle (\<lambda>again. if again then run_loop n budget else ret ()) else ret ())
       s v False True K aborted" using pos by (simp add: wps_andThen)
  next
    assume ne: "held v \<noteq> {}"
    have "wps (Iter n) s v True t (\<lambda>_ s' v' b' t'. wps (run_loop n (budget - 1)) s' v' b' t' K aborted) aborted"
      by (rule wps_Iter [OF Suc.prems(1) ne]) (use Suc.prems(2) in \<open>auto intro: Suc.IH\<close>)
    then show "wps (if \<not> False \<and> 0 < budget then andThen (Iter n) (\<lambda>_. run_loop n (budget - 1))
       else if 0 < budget then andThen Idle (\<lambda>again. if again then run_loop n budget else ret ()) else ret ())
       s v True t K aborted" using pos by (simp add: wps_andThen)
  qed
qed

lemma wps_RunLoop:
  assumes S: "sim_ok {} s v" and n: "n \<le> budget" and d: "\<not> sm_done s"
    and K: "\<And>s' v' b'. sim_ok {} s' v' \<Longrightarrow> sm_alive s' = [] \<Longrightarrow> sm_status s' \<noteq> None \<Longrightarrow> K () s' v' b' True"
  shows "wps (RunLoop n budget) s v b t K H"
proof -
  have "wps (run_loop n budget) s v b t K (\<lambda>s' v' b' t'. wps Burn s' v' b' t' K H)"
  proof (rule wps_conseq [OF wps_run_loop [OF S n, where K = K]])
    show "K () s' v' b' True" if s': "sim_ok {} s' v'" "sm_alive s' = []" for s' v' b'
    proof (rule K [OF s'])
      show "sm_status s' \<noteq> None" using s' by (auto simp: sim_ok_def main_ok_def)
    qed
    show "wps Burn s' v' b' t' K H" if "aborted s' v' b' t'" for s' v' b' t'
    proof -
      have "t'" "burnable s' v'" "sm_status s' \<noteq> None" using that by (simp_all add: aborted_def)
      then show ?thesis by (simp add: wps_Burn K)
    qed
  qed
  then show ?thesis
    unfolding RunLoop_def using d by (intro wps_andThen wps_get wps_if wps_try_catch) auto
qed

lemma wps_StopLoop:
  assumes S: "sim_ok {} s v" and al: "sm_alive s = []"
    and K: "\<And>s' b'. sm_status s' = sm_status s \<Longrightarrow> sm_alive s' = [] \<Longrightarrow> held v = {} \<Longrightarrow> K () s' v b' True"
  shows "wps StopLoop s v b t K H"
proof -
  have E: "held v = {}" "pending (sm_timer_queue s) = {}" "futex_linked (map_of (sm_futex s)) v (\<lambda>_. None)"
    using burnable_empty [OF sim_ok_burnable [OF S] al] by blast+
  have d: "distinct (map fst (sm_futex s))" using S by (auto simp: sim_ok_def base_def)
  let ?I = "\<lambda>xs s' v' b' t'. s' = s1 \<and> v' = v \<and> t' \<and> set xs \<subseteq> set (sm_futex s)"
  have loop: "wps (for_each (sm_futex s) (\<lambda>(fk, w). wait_queue_destroy w)) s1 v b1 True
     (\<lambda>_ s' v' b' t'. wps (modify (\<lambda>s. s\<lparr>sm_futex := []\<rparr>)) s' v' b' t' K H) H"
    if s1: "sm_status s1 = sm_status s" "sm_alive s1 = []" for s1 b1
  proof (rule wps_for_each [where I = "\<lambda>xs s' v' b' t'. s' = s1 \<and> v' = v \<and> t' \<and> set xs \<subseteq> set (sm_futex s)"])
    show "wps (case x of (fk, w) \<Rightarrow> wait_queue_destroy w) s' v' b' t'
       (\<lambda>_ s' v' b' t'. s' = s1 \<and> v' = v \<and> t' \<and> set ys \<subseteq> set (sm_futex s)) H"
      if I: "s' = s1 \<and> v' = v \<and> t' \<and> set (x # ys) \<subseteq> set (sm_futex s)" for x ys s' v' b' t'
    proof (cases x)
      case (Pair fk w)
      then have "map_of (sm_futex s) fk = Some w" using I d by simp
      then have "wps (wait_queue_destroy w) s1 v b' t' (\<lambda>_ s' v' b' t'. s' = s1 \<and> v' = v \<and> t' \<and> set ys \<subseteq> set (sm_futex s)) H"
        by (rule wps_wq_destroy [OF E(3)]) (use I in simp_all)
      then show ?thesis using Pair I by simp
    qed
  qed (use s1 E(1) in \<open>auto intro!: wps_modify K\<close>)
  show ?thesis
    unfolding StopLoop_def reset_model_def
    by (rule wps_andThen, rule wps_idle, rule wps_andThen, rule wps_check)
      (use E al in \<open>auto intro!: wps_rules(2,3,4) wps_check loop simp: queue_IsEmpty_pending\<close>)
qed

end
