(* ===== verification/Sim_Contract.thy ===== *)
theory Sim_Contract
  imports Sim_Loop
begin

text \<open>
  A whole simulation: the simulator, whatever the program under test does, keeps to its side of the
  scheduler's contract, and fails only as the program makes it fail.
\<close>

section \<open>A run\<close>

lemma Init_simps [simp]:
  "sm_alive (Init u p) = []" "sm_status (Init u p) = None" "sm_done (Init u p) = False" "sm_threads (Init u p) = no_threads"
  "sm_futex (Init u p) = []" "sm_timer_queue (Init u p) = empty_queue (\<lambda>_. \<lparr>tm_when = 0, loc = 0, timer_id = 0\<rparr>)"
  "sm_ids (Init u p) = \<lparr>next_tid = 0\<rparr>"
  by (simp_all add: Init_def)

lemma base_Init: "base (Init u p) empty_view (\<lambda>_. None) {} {} {}"
proof -
  have "futex_linked Map.empty empty_view (\<lambda>_. None)"
    by (rule linkedI) (simp_all add: empty_view_def)
  moreover have "queue_wf (empty_queue f) \<and> pending (empty_queue f) = {}" for f
    using queue_inv_wf [OF empty_queue_inv] by (simp add: empty_queue_def pending_def refs_def)
  ultimately show ?thesis
    by (simp add: base_def ids_ok_def places_def fields_def empty_view_def)
qed

lemma wps_SpawnMainThread:
  fixes K :: "unit \<Rightarrow> 'u condition"
  assumes K: "\<And>s' v' b'. sim_ok {} s' v' \<Longrightarrow> \<not> sm_done s' \<Longrightarrow> K () s' v' b' t"
  shows "wps (SpawnMainThread r) (Init u p) empty_view b t K H"
proof -
  have A: "asleep (sm_threads (Init u p)) (sm_alarm (Init u p)) (\<lambda>_. None) {} (set (sm_alive (Init u p)))"
    by (simp add: asleep_def)
  show ?thesis
    unfolding SpawnMainThread_def
  proof (rule wps_andThen, rule wps_CreateThread [OF base_Init A])
    fix c and s1 :: "'u simulator"
    assume B: "base s1 empty_view (\<lambda>_. None) {} (insert c {}) {}"
      and A1: "asleep (sm_threads s1) (sm_alarm s1) (\<lambda>_. None) {} (set (sm_alive s1))"
      and al: "sm_alive s1 = sm_alive (Init u p) @ [c]" and d: "sm_done s1 = sm_done (Init u p)"
    let ?s2 = "on_thread c (\<lambda>th. th\<lparr>th_main := True\<rparr>) s1"
    have "base ?s2 empty_view (\<lambda>_. None) {} {c} {}" using B by (auto intro: base_on_thread)
    moreover have "asleep (sm_threads ?s2) (sm_alarm ?s2) (\<lambda>_. None) {} (set (sm_alive ?s2))"
      by (simp add: asleep_def)
    moreover have "main_ok ?s2" using al by (simp add: main_ok_def)
    ultimately have S2: "sim_ok {c} ?s2 empty_view" unfolding sim_ok_def by blast
    have S3: "sim_ok {} ?s2 (empty_view\<lparr>held := insert c (held empty_view)\<rparr>)" using sim_ok_hand [OF S2, of c] by simp
    have d2: "\<not> sm_done ?s2" using d by (simp add: on_thread_def)
    show "wps (andThen (set_thread c (\<lambda>th. th\<lparr>th_main := True\<rparr>)) (\<lambda>_. sched_do (CSpawn c))) s1 empty_view b t K H"
      unfolding set_thread_def
      by (rule wps_andThen, rule wps_modify, rule wps_sched_do)
        (use K [OF S3 d2] sim_ok_nowhere [OF S2, of c] in auto)
  qed
qed

lemma wps_Run:
  fixes K :: "unit \<Rightarrow> 'u condition"
  assumes n: "n < 2 ^ 64"
    and K: "\<And>s' v' b'. sm_status s' \<noteq> None \<Longrightarrow> sm_alive s' = [] \<Longrightarrow> held v' = {} \<Longrightarrow> K () s' v' b' True"
  shows "wps (Run n) (Init u p) empty_view b t K H"
proof -
  have le: "n \<le> UnlimitedIterBudget" using n by (simp add: UnlimitedIterBudget_def)
  show ?thesis
    unfolding Run_def
    by (rule wps_andThen, rule wps_SpawnMainThread, rule wps_andThen, rule wps_RunLoop, assumption, rule le, assumption,
        rule wps_StopLoop, assumption, assumption, rule K) simp_all
qed

lemma client_of_wps:
  assumes "wps m s v b t (\<lambda>_ s' v' b' t'. Q s' v') (\<lambda>_ _ _ _. False)"
  shows "run_ok Q (client_of m s) v b t"
  unfolding client_of_def by (rule wpsD [OF assms]) (simp_all add: run_ok_def)

lemma simulation_contract:
  assumes "n < 2 ^ 64"
  shows "client_wp (\<lambda>r. res_status r = Pruned) user_fault (\<lambda>r v. held v = {}) True True
    (simulation n u p) empty_view False True"
proof -
  have "wps (Run n) (Init u p) empty_view False True (\<lambda>_ s v b t. sm_status s \<noteq> None \<and> held v = {}) (\<lambda>_ _ _ _. False)"
    by (rule wps_Run [OF assms]) simp
  then have "run_ok (\<lambda>s v. sm_status s \<noteq> None \<and> held v = {}) (client_of (Run n) (Init u p)) empty_view False True"
    by (rule client_of_wps)
  then show ?thesis
    unfolding simulation_def client_wp_map run_ok_def by (rule client_wp_mono [rotated 3]) (auto simp: make_result_def)
qed

end
