(* ===== verification/Sim_Choices.thy ===== *)
theory Sim_Choices
  imports Simulator Dfs_Decisions
begin

text \<open>
  The simulator never asks the scheduler for a choice among no alternatives, whatever the answers
  (\<open>choices_ok\<close>): what the depth-first scheduler needs for its schedules to be the paths of a finite tree.
\<close>

section \<open>The rules\<close>

definition asks :: "('u, 'a) sim \<Rightarrow> bool" where
  "asks m \<longleftrightarrow> (\<forall>s k h. (\<forall>a s'. choices_ok (k a s')) \<longrightarrow> (\<forall>s'. choices_ok (h s')) \<longrightarrow> choices_ok (m s k h))"

named_theorems asks_rules

lemma asks_prims [asks_rules]:
  "asks (ret a)" "asks (get f)" "asks (modify g)" "asks (panic msg)" "asks no_return" "asks (SysAbort st)"
  "asks run_queue_idle" "asks (sched_queue_empty q)"
  by (simp_all add: asks_def ret_def get_def modify_def panic_def no_return_def SysAbort_def run_queue_idle_def
      sched_queue_empty_def)

lemma asks_andThen [asks_rules]: "asks m \<Longrightarrow> (\<And>a. asks (f a)) \<Longrightarrow> asks (andThen m f)"
  by (simp add: asks_def andThen_def)

lemma asks_try_catch [asks_rules]: "asks m \<Longrightarrow> asks r \<Longrightarrow> asks (try_catch m r)"
  by (simp add: asks_def try_catch_def)

lemma asks_if [asks_rules]: "(c \<Longrightarrow> asks m) \<Longrightarrow> (\<not> c \<Longrightarrow> asks m') \<Longrightarrow> asks (if c then m else m')"
  by simp

lemma asks_bool [asks_rules]: "asks m \<Longrightarrow> asks m' \<Longrightarrow> asks (case c of True \<Rightarrow> m | False \<Rightarrow> m')"
  by (cases c) simp_all

lemma asks_wake_type [asks_rules]:
  "asks m1 \<Longrightarrow> asks m2 \<Longrightarrow> asks m3 \<Longrightarrow> asks m4 \<Longrightarrow>
     asks (case ty of WakeSleepTimer \<Rightarrow> m1 | WakeFutexWake \<Rightarrow> m2 | WakeFutexTimer \<Rightarrow> m3 | WakeSpurious \<Rightarrow> m4)"
  by (cases ty) simp_all

lemma asks_option [asks_rules]: "asks m \<Longrightarrow> (\<And>x. asks (f x)) \<Longrightarrow> asks (case o1 of None \<Rightarrow> m | Some x \<Rightarrow> f x)"
  by (cases o1) simp_all

lemma asks_prod [asks_rules]: "(\<And>x y. asks (f x y)) \<Longrightarrow> asks (case p of (x, y) \<Rightarrow> f x y)"
  by (cases p) simp

lemma asks_let [asks_rules]: "asks (f x) \<Longrightarrow> asks (let y = x in f y)"
  by simp

lemma asks_check [asks_rules]: "asks (check b msg)"
  unfolding check_def by (intro asks_rules)

lemma asks_lift [asks_rules]: "asks (lift m)" "asks (lift_msg m')"
  unfolding lift_def lift_msg_def by (auto intro!: asks_rules split: sum.split fault.split)

lemma asks_for_each [asks_rules]: "(\<And>x. asks (f x)) \<Longrightarrow> asks (for_each xs f)"
  by (induction xs) (simp_all add: asks_rules)

lemma asks_sched: "(\<And>n. c = CRandomChoice n \<Longrightarrow> 0 < n) \<Longrightarrow> asks (sched c)"
  by (auto simp: asks_def sched_def)

lemma asks_calls [asks_rules]:
  assumes "\<And>n. c = CRandomChoice n \<Longrightarrow> 0 < n"
  shows "asks (sched_do c)" "asks (sched_waiter c)" "asks (sched_thread c)" "asks (sched_bool c)" "asks (sched_number c)"
    "asks (sched_index c)" "asks (sched_queue c)"
  unfolding sched_do_def sched_waiter_def sched_thread_def sched_bool_def sched_number_def sched_index_def sched_queue_def
  by (rule asks_andThen, rule asks_sched, rule assms, assumption, simp add: asks_rules split: sched_resp.split)+

lemma asks_threads [asks_rules]: "asks (set_thread t f)" "asks (get_thread t g)" "asks (reply_to t r)"
  unfolding set_thread_def get_thread_def reply_to_def by (intro asks_rules)+

section \<open>The code\<close>

lemma asks_wait_queue [asks_rules]:
  "asks (wait_queue_Push t w)" "asks (wait_queue_Pop w)" "asks (wait_queue_PopAll w)" "asks (wait_queue_IsEmpty w)"
  "asks (wait_queue_Remove t w)" "asks (wait_queue_destroy w)"
  unfolding wait_queue_Push_def wait_queue_Pop_def wait_queue_PopAll_def wait_queue_IsEmpty_def wait_queue_Remove_def
    wait_queue_destroy_def
  by (intro asks_rules; simp)+

lemma asks_components [asks_rules]:
  "asks (CreateThread r)" "asks (DestroyThread t)" "asks (make_timer t until al)" "asks (AddTimer t)" "asks (remove_timer t)"
  "asks (CancelTimer t)" "asks reset_timers" "asks (GetFutex fk)" "asks (put_futex fk w)" "asks (reset_model)"
  unfolding CreateThread_def DestroyThread_def make_timer_def AddTimer_def remove_timer_def CancelTimer_def
    reset_timers_def GetFutex_def put_futex_def reset_model_def
  by (intro asks_rules; simp)+

lemma asks_futex_Remove [asks_rules]: "asks (futex_Remove fk t)"
  unfolding futex_Remove_def by (intro asks_rules; simp)+

lemma asks_Wake [asks_rules]: "asks (ScheduleWaiter t st)" "asks (model_Wake w t)" "asks (Wake w1 t ty)" "asks (Alarm r)"
  unfolding ScheduleWaiter_def model_Wake_def Wake_def Alarm_def
  by (intro asks_rules; simp)+

lemma asks_poll_loop [asks_rules]: "asks (poll_loop n now progress)"
  by (induction n arbitrary: progress) (simp_all add: asks_rules)

lemma asks_Burn [asks_rules]:
  "asks PollTimers" "asks (BurnThread t)" "asks Burn" "asks BurnDetachedThreads" "asks CheckMemory" "asks MainCompleted"
  unfolding PollTimers_def BurnThread_def Burn_def BurnDetachedThreads_def CheckMemory_def MainCompleted_def
  by (intro asks_rules; simp)+

lemma asks_waiting [asks_rules]:
  "asks (park t fk d ctx)" "asks (SysFutexWait t l v d ctx)" "asks (SysSleepUntil t till)" "asks (SysSleepFor t dur)"
  unfolding park_def SysFutexWait_def SysSleepUntil_def SysSleepFor_def
  by (intro asks_rules; simp)+

lemma asks_wake_all [asks_rules]: "asks (wake_all n t fk)"
  by (induction n) (auto intro!: asks_rules)

lemma asks_SysFutexWake [asks_rules]: "asks (SysFutexWake t l n)"
  unfolding SysFutexWake_def by (intro asks_rules; simp)+

lemma asks_SysRandomChoice [asks_rules]: "asks (SysRandomChoice t n)"
proof (cases n)
  case 0
  then show ?thesis by (simp add: SysRandomChoice_def check_def asks_def andThen_def panic_def)
next
  case (Suc m)
  then show ?thesis unfolding SysRandomChoice_def by (intro asks_rules; simp)
qed

lemma asks_handlers [asks_rules]:
  "asks (SysSpawn t r)" "asks (SysDetach t)" "asks (SysYield t)" "asks (SysSwitchTo t u)" "asks (SysSync t a)"
  "asks (SysAccessNonAtomicVar t acc)" "asks (SysMalloc t ad sz)" "asks (SysFree t ad)" "asks (SysRandomNumber t)"
  "asks (SysSpuriousTryFailure t)" "asks (SysWrite fd buf)" "asks (SysSetThreadAttrPreemptive t on)"
  "asks (SysSetThreadAttrLockFree t on)" "asks (SysSchedHintProgress t)" "asks SysSchedHintNewIter" "asks NextFiberId"
  "asks (SysThreadEnter t)" "asks (SysThreadExit t)" "asks (SysRegisterFiber t)" "asks (SysSwitchToFiber t i)"
  unfolding SysSpawn_def SysDetach_def SysYield_def SysSwitchTo_def SysSync_def SysAccessNonAtomicVar_def SysMalloc_def
    SysFree_def SysRandomNumber_def SysSpuriousTryFailure_def SysWrite_def SysSetThreadAttrPreemptive_def
    SysSetThreadAttrLockFree_def SysSchedHintProgress_def SysSchedHintNewIter_def NextFiberId_def SysThreadEnter_def
    SysThreadExit_def SysRegisterFiber_def SysSwitchToFiber_def
  by (intro asks_rules; simp)+

lemma asks_HandleSystemCall [asks_rules]: "asks (HandleSystemCall t c)"
proof -
  have "asks (call_handler t c)" by (cases c) (simp_all add: call_handler_def asks_rules)
  then show ?thesis unfolding HandleSystemCall_def by (intro asks_rules)
qed

lemma asks_steps [asks_rules]: "asks (RunThread t)" "asks (DigestAtomicLoad v)" "asks (sim_Sync t a)" "asks (CompleteSync t)"
  unfolding RunThread_def DigestAtomicLoad_def sim_Sync_def CompleteSync_def by (intro asks_rules; simp)+

lemma asks_run_slice [asks_rules]: "asks (run_slice n t)"
  by (induction n) (auto intro!: asks_rules)

lemma asks_loop [asks_rules]:
  "asks (IterThread n t)" "asks IsDeadlock" "asks ReportDeadlock" "asks CheckDeadlock" "asks Maintenance" "asks (Iter n)" "asks Idle"
  unfolding IterThread_def IsDeadlock_def ReportDeadlock_def CheckDeadlock_def Maintenance_def Iter_def Idle_def
  by (intro asks_rules; simp)+

lemma asks_run_loop [asks_rules]: "asks (run_loop n budget)"
  by (induction n arbitrary: budget) (auto intro!: asks_rules)

lemma asks_Run [asks_rules]: "asks (RunLoop n budget)" "asks StopLoop" "asks (SpawnMainThread r)" "asks (Run n)" "asks (RunFor n k)"
  unfolding RunLoop_def StopLoop_def SpawnMainThread_def Run_def RunFor_def
  by (intro asks_rules; simp)+

lemma choices_ok_map: "choices_ok (map_client f p) \<longleftrightarrow> choices_ok p"
  by (induction p) simp_all

lemma asksD: "asks m \<Longrightarrow> (\<And>a s'. choices_ok (k a s')) \<Longrightarrow> (\<And>s'. choices_ok (h s')) \<Longrightarrow> choices_ok (m s k h)"
  by (simp add: asks_def)

lemma simulation_choices_ok: "choices_ok (simulation n u p)"
  unfolding simulation_def choices_ok_map client_of_def by (rule asksD [OF asks_Run(4)]) simp_all

end
