(* ===== verification/Sim_Theorems.thy ===== *)
theory Sim_Theorems
  imports Dfs_Faults Sim_Contract
begin

text \<open>
  What the simulator does, over its invariant: the handlers of system calls, waking, the deadlock check,
  and whole simulations.
\<close>

section \<open>A state to look at\<close>

text \<open>A program that exits at once.\<close>

definition exiting :: "unit user" where
  "exiting = \<lparr>u_init = (\<lambda>_. ()), u_fixed_mapping = True, u_run = (\<lambda>t st load reply mem. (Sys_ThreadExit, mem))\<rparr>"

text \<open>The main thread is in the hands of the simulator, or runs; a second thread is parked on a futex.\<close>

definition some_futex :: futex_loc where
  "some_futex = AtomicUint32 8"

definition waiter_state :: "unit user \<Rightarrow> unit simulator" where
  "waiter_state u = (Init u default_params)\<lparr>sm_alive := [1, 2], sm_ids := \<lparr>next_tid = 2\<rparr>,
     sm_futex := [(FutexKey some_futex, \<lparr>wq_waiters = None, wq_singleton = Some 2\<rparr>)],
     sm_threads := no_threads(1 := (no_threads 1)\<lparr>th_main := True\<rparr>,
       2 := (no_threads 2)\<lparr>th_state := Parked, th_futex := Some (FutexKey some_futex)\<rparr>)\<rparr>"

lemma waiter_ok: "sim_ok {1} (waiter_state u) empty_view"
proof -
  let ?fk = "FutexKey some_futex" and ?w = "\<lparr>wq_waiters = None, wq_singleton = Some 2\<rparr> :: wait_queue"
  let ?W = "(\<lambda>_. None)(2 := Some ?fk)"
  have "futex_linked (Map.empty(?fk \<mapsto> ?w)) empty_view ?W"
    by (rule linkedI) (auto simp: wq_members_def empty_view_def split: if_splits)
  moreover have "queue_wf (empty_queue f) \<and> pending (empty_queue f) = {}" for f
    using queue_inv_wf [OF empty_queue_inv] by (simp add: empty_queue_def pending_def refs_def)
  ultimately have "base (waiter_state u) empty_view ?W {} {1} {}"
    by (auto simp: waiter_state_def base_def ids_ok_def places_def fields_def empty_view_def kMaxThreads_def no_threads_def
        split: if_splits)
  moreover have "asleep (sm_threads (waiter_state u)) (sm_alarm (waiter_state u)) ?W {} (set (sm_alive (waiter_state u)))"
    by (simp add: asleep_def waiter_state_def)
  moreover have "main_ok (waiter_state u)" by (simp add: main_ok_def waiter_state_def)
  ultimately show ?thesis unfolding sim_ok_def by blast
qed

text \<open>A program whose only thread is parked for ever.\<close>

definition stuck_state :: "unit user \<Rightarrow> unit simulator" where
  "stuck_state u = (Init u default_params)\<lparr>sm_alive := [1], sm_ids := \<lparr>next_tid = 1\<rparr>,
     sm_futex := [(FutexKey some_futex, \<lparr>wq_waiters = None, wq_singleton = Some 1\<rparr>)],
     sm_threads := no_threads(1 := (no_threads 1)\<lparr>th_main := True, th_state := Parked, th_futex := Some (FutexKey some_futex)\<rparr>)\<rparr>"

lemma stuck_ok: "sim_ok {} (stuck_state u) empty_view" "stuck (stuck_state u)"
proof -
  let ?fk = "FutexKey some_futex" and ?w = "\<lparr>wq_waiters = None, wq_singleton = Some 1\<rparr> :: wait_queue"
  let ?W = "(\<lambda>_. None)(1 := Some ?fk)"
  have "futex_linked (Map.empty(?fk \<mapsto> ?w)) empty_view ?W"
    by (rule linkedI) (auto simp: wq_members_def empty_view_def split: if_splits)
  moreover have q: "queue_wf (empty_queue f) \<and> pending (empty_queue f) = {}" for f
    using queue_inv_wf [OF empty_queue_inv] by (simp add: empty_queue_def pending_def refs_def)
  ultimately have "base (stuck_state u) empty_view ?W {} {} {}"
    by (auto simp: stuck_state_def base_def ids_ok_def places_def fields_def empty_view_def kMaxThreads_def no_threads_def
        split: if_splits)
  moreover have "asleep (sm_threads (stuck_state u)) (sm_alarm (stuck_state u)) ?W {} (set (sm_alive (stuck_state u)))"
    by (simp add: asleep_def stuck_state_def)
  moreover have "main_ok (stuck_state u)" by (simp add: main_ok_def stuck_state_def)
  ultimately show "sim_ok {} (stuck_state u) empty_view" unfolding sim_ok_def by blast
  show "stuck (stuck_state u)" using q by (simp add: stuck_def stuck_state_def)
qed

section \<open>The handlers\<close>





section \<open>Deadlocks\<close>



section \<open>Simulations\<close>



end
