(* ===== verification/Sim_Explore.thy ===== *)
theory Sim_Explore
  imports Dfs_Explore Sim_Choices Sim_Theorems
begin

text \<open>
  The simulator under the schedulers: what holds of the clients of the scheduler's contract holds of
  the simulation of a program, since the simulator is such a client.
\<close>

section \<open>A client of the scheduler\<close>

lemma simulation_ok:
  assumes "n < 2 ^ 64"
  shows "client_ok True True (simulation n u p) empty_view False True"
  unfolding client_ok_def by (rule client_wp_mono [OF _ _ _ simulation_contract [OF assms]]) simp_all

section \<open>Exploration\<close>

text \<open>The program that the exploration runs, with bounds for the main loop.\<close>

definition simulated :: "nat \<Rightarrow> 'u user \<Rightarrow> program" where
  "simulated n u = \<lparr>prog_run = simulation n u,
     prog_run_for = (\<lambda>p k. map_client make_result (client_of (RunFor n k) (Init u p)))\<rparr>"


text \<open>A program that tosses a coin, and aborts on one side.\<close>

definition tossing :: "unit user" where
  "tossing = \<lparr>u_init = (\<lambda>_. ()), u_fixed_mapping = True,
     u_run = (\<lambda>t st load reply mem. (case reply of
        Routine r \<Rightarrow> Sys_RandomChoice 2
      | ReplyIndex i \<Rightarrow> if i = 1 then Sys_Abort UserAbort else Sys_ThreadExit
      | _ \<Rightarrow> Sys_ThreadExit, mem))\<rparr>"

definition quiet_params :: params where
  "quiet_params = default_params\<lparr>p_forward_stdout := False, p_crash_on_abort := False\<rparr>"

definition toss :: "result client" where
  "toss = simulation 3 tossing quiet_params"

lemmas sim_run = simulation_def client_of_def Run_def andThen_def SpawnMainThread_def CreateThread_def modify_def get_def
  lift_msg_def Init_def AllocateId_def Let_def kMaxThreads_def ret_def set_thread_def on_thread_def reply_to_def
  sched_do_def sched_def RunLoop_def try_catch_def run_queue_idle_def Iter_def Tick_def sched_thread_def IterThread_def
  CompleteSync_def get_thread_def RunThread_def HandleSystemCall_def call_handler_def UnlimitedIterBudget_def
  thread_Reset_def check_def panic_def SysAbort_def

lemmas toss_run = sim_run tossing_def SysRandomChoice_def sched_index_def SysThreadExit_def DestroyThread_def
  MainCompleted_def BurnDetachedThreads_def CheckMemory_def Idle_def CheckDeadlock_def IsDeadlock_def queue_IsEmpty_def
  heap_IsEmpty_def empty_queue_def StopLoop_def reset_model_def Burn_def BurnThread_def reset_timers_def queue_Reset_def
  quiet_params_def default_params_def make_result_def ids_Free_def numeral_3_eq_3

lemmas toss_dfs = toss_def dfs_run_def new_dfs_sched_def run_simulation_def dfs_ops_def dfs_Start_def dfs_Spawn_def
  dfs_push_def dfs_PickNext_def AddStep_def no_limits_def dfs_pick_def Pick_def Choose_def dfs_IsIdle_def verify_def
  dfs_DropWaitQueues_def quiet_def sl_Pop_def sl_Push.simps ResetSteps_def dfs_RandomChoice_def dfs_Exit_def dfs_Remove_def sl_Remove_def

lemma toss_first: "\<exists>r s. dfs_run toss no_limits [] = Inr (r, s) \<and> res_status r = Ok \<and>
    ds_schedule s = [\<lparr>br_type = BRandomChoice, alts = 2, index = 0\<rparr>]"
  by (simp add: toss_dfs toss_run)

lemma toss_then:
  assumes "br_type b = BRandomChoice" and "index b < 2"
  shows "\<exists>r s. dfs_run toss no_limits (b # sch) = Inr (r, s) \<and>
    res_status r = (if index b = 1 then UserAbort else Ok) \<and> ds_schedule s = b # sch"
proof -
  have "index b = 0 \<or> index b = 1" using assms(2) by auto
  then show ?thesis
  proof
    assume "index b = 0"
    then show ?thesis using assms(1) by (simp add: toss_dfs toss_run)
  next
    assume "index b = 1"
    then show ?thesis using assms(1) by (simp add: toss_dfs toss_run)
  qed
qed

lemma toss_legal:
  assumes l: "legal toss no_limits sch"
  shows "\<exists>r s. dfs_run toss no_limits sch = Inr (r, s) \<and> res_status r \<in> {Ok, UserAbort}"
proof (cases sch)
  case Nil
  then show ?thesis using toss_first by auto
next
  case (Cons b q)
  have "legal toss no_limits [b]" using l unfolding Cons legal_def by (auto dest: spec [of _ 0])
  then have "br_type b = BRandomChoice \<and> index b < 2"
    using toss_first legal_snoc [of toss no_limits "[]" b] by (auto simp: next_entry_def)
  then show ?thesis using toss_then [of b q] Cons by (metis insertCI)
qed

lemma toss_never_dies: "never_dies toss no_limits"
  using toss_legal by (fastforce simp: never_dies_def)

text \<open>The random scheduler, with its draws left symbolic.\<close>

lemma draw_split: "draw s = (fst (Next (rs_random s)), s\<lparr>rs_random := snd (Next (rs_random s))\<rparr>)"
  by (simp add: draw_def split: prod.split)

lemma with_sched_attrs: "th_attrs (with_sched ths sch t) = th_attrs (ths t)"
  by (simp add: with_sched_def)

lemma Exit_plain: "\<not> lock_free (th_attrs (ths t)) \<Longrightarrow> rnd_Exit t ths s = Inr (ths, s)"
  by (simp add: rnd_Exit_def)

lemma PopRandom_one: "PopRandom r [t] = (Some t, [])"
  by (simp add: PopRandom_def swap_remove_def)

definition coin :: "wyrand \<Rightarrow> nat" where
  "coin g = unat (fst (Next g)) mod 2"

lemma coin_cases: "coin g = 0 \<or> coin g = 1"
proof -
  have "coin g < 2" unfolding coin_def by (rule mod_less_divisor) simp
  then show ?thesis by linarith
qed

lemma RandomChoice_coin:
  "rnd_RandomChoice 2 s = Inr (coin (rs_random s), s\<lparr>rs_random := snd (Next (rs_random s))\<rparr>)"
  by (simp add: rnd_RandomChoice_def draw_split coin_def)

lemmas toss_rnd = random_ops_def rnd_Spawn_def rnd_push_def set_Push_def IsFull_def quiet_def rnd_IsIdle_def
  new_random_sched_def default_random_params_def rnd_PickNext_def PickNextFromRunQueue_def draw_split PopRandom_one
  RandomTimeSliceInTicks_def RandomChoice_coin Exit_plain with_sched_attrs

text \<open>Both sides of the coin give the digest of one iteration.\<close>

definition toss_result :: "status \<Rightarrow> result" where
  "toss_result st = \<lparr>res_status = st, res_threads = 1, res_iters = 1,
     res_digest = Digest (digest_Iter 1 (digest_Reset \<lparr>dig = 0\<rparr>))\<rparr>"

lemma toss_random:
  fixes p
  defines "s0 \<equiv> new_random_sched (default_random_params 0)\<lparr>rs_random := Seed 0 \<lparr>wy_state = 0\<rparr>\<rparr>"
    and "g \<equiv> snd (Next (snd (Next (Seed 0 \<lparr>wy_state = 0\<rparr>))))"
  assumes p: "p_allow_detached_threads p"
  shows "coin g = 0 \<Longrightarrow> \<exists>s. run_client random_ops (prog_run_for (simulated 3 tossing) p 1024) no_threads s0 = Inr (toss_result Ok, s)"
    and "coin g = 1 \<Longrightarrow> \<exists>s. run_client random_ops (prog_run_for (simulated 3 tossing) p 1024) no_threads s0 = Inr (toss_result UserAbort, s)"
proof -
  show "\<exists>s. run_client random_ops (prog_run_for (simulated 3 tossing) p 1024) no_threads s0 = Inr (toss_result Ok, s)"
    if "coin g = 0"
    using that p unfolding s0_def g_def
    by (simp add: simulated_def toss_run RunFor_def toss_rnd toss_result_def del: One_nat_def)
  show "\<exists>s. run_client random_ops (prog_run_for (simulated 3 tossing) p 1024) no_threads s0 = Inr (toss_result UserAbort, s)"
    if "coin g = 1"
    using that p unfolding s0_def g_def
    by (simp add: simulated_def toss_run RunFor_def toss_rnd toss_result_def del: One_nat_def)
qed

lemma toss_digest:
  assumes p: "p_allow_detached_threads p"
  shows "DetCheckSim p (simulated 3 tossing) i = Inr (res_digest (toss_result Ok))"
proof -
  let ?q = "p\<lparr>p_memset_stacks := Some (kMemsetByte ! (i mod 3))\<rparr>"
  let ?s0 = "new_random_sched (default_random_params 0)\<lparr>rs_random := Seed 0 \<lparr>wy_state = 0\<rparr>\<rparr>"
  have "p_allow_detached_threads ?q" using p by simp
  note R = toss_random [OF this]
  have "\<exists>st s. run_client random_ops (prog_run_for (simulated 3 tossing) ?q 1024) no_threads ?s0 = Inr (toss_result st, s)"
    using coin_cases
  proof (rule disjE)
    assume "coin (snd (Next (snd (Next (Seed 0 \<lparr>wy_state = 0\<rparr>))))) = 0"
    from R(1) [OF this] show ?thesis by (rule exI)
  next
    assume "coin (snd (Next (snd (Next (Seed 0 \<lparr>wy_state = 0\<rparr>))))) = 1"
    from R(2) [OF this] show ?thesis by (rule exI)
  qed
  then obtain st s where
    "run_client random_ops (prog_run_for (simulated 3 tossing) ?q 1024) no_threads ?s0 = Inr (toss_result st, s)"
    by (elim exE)
  moreover have "Start random_ops (new_random_sched (default_random_params 0)) = Inr ?s0"
    by (simp add: random_ops_def rnd_Start_def new_random_sched_def default_random_params_def)
  ultimately show ?thesis by (simp add: DetCheckSim_def Let_def run_simulation_def toss_result_def)
qed

lemma toss_deterministic: "DetCheck default_params (simulated 3 tossing) = Inr True"
  by (simp add: DetCheck_def Let_def toss_digest default_params_def)




end
