(* ===== verification/Segments.thy ===== *)
theory Segments
  imports Prelude Sim_Types
begin

text \<open>
  The memory of the program under test, seen from its allocators
  (\<open>rt/sim/system/memory/isolated/\<close>): a segment for static variables, and one that the heap and the
  stacks share, growing towards each other. Addresses are natural numbers; no operation leaves the
  mapped memory, so that they do not wrap. What is stored in the memory is not modelled here.
\<close>

section \<open>Alignment\<close>

definition kAlignment :: nat where
  "kAlignment = 16"

definition IsAligned :: "addr \<Rightarrow> bool" where
  "IsAligned p \<longleftrightarrow> p mod kAlignment = 0"

function Align :: "addr \<Rightarrow> addr" where
  "Align p = (if IsAligned p then p else Align (p + 1))"
  by pat_completeness auto
termination
proof (relation "measure (\<lambda>p. (kAlignment - p mod kAlignment) mod kAlignment)")
  fix p
  assume "\<not> IsAligned p"
  then have m: "p mod 16 \<noteq> 0" "p mod 16 < 16" by (simp_all add: IsAligned_def kAlignment_def)
  have "(p + 1) mod 16 = (p mod 16 + 1) mod 16" by (simp add: mod_Suc)
  then have "(16 - (p + 1) mod 16) mod 16 < (16 - p mod 16) mod 16"
    using m by (cases "p mod 16 = 15") auto
  then show "(p + 1, p) \<in> measure (\<lambda>p. (kAlignment - p mod kAlignment) mod kAlignment)"
    by (simp add: kAlignment_def)
qed simp

declare Align.simps [simp del]

lemma IsAligned_Align [simp]: "IsAligned (Align p)"
  by (induction p rule: Align.induct) (simp add: Align.simps)

lemma Align_aligned [simp]: "IsAligned p \<Longrightarrow> Align p = p"
  by (simp add: Align.simps)

text \<open>The loop goes on to the first aligned address.\<close>

lemma Align_least: "p \<le> Align p \<and> (\<forall>q. p \<le> q \<longrightarrow> IsAligned q \<longrightarrow> Align p \<le> q)"
proof (induction p rule: Align.induct)
  case (1 p)
  show ?case
  proof (cases "IsAligned p")
    case True
    then show ?thesis by simp
  next
    case False
    have "p + 1 \<le> q" if "p \<le> q" "IsAligned q" for q using that False by (cases "p = q") auto
    then show ?thesis using 1 [OF False] False by (auto simp: Align.simps [of p])
  qed
qed

lemma Align_ge: "p \<le> Align p"
  using Align_least by blast

lemma Align_within: "Align p < p + kAlignment"
proof (cases "IsAligned p")
  case True
  then show ?thesis by (simp add: kAlignment_def)
next
  case False
  then obtain d m where p: "p = 16 * d + m" "0 < m" "m < 16"
    using that [of "p div 16" "p mod 16"] by (simp add: IsAligned_def kAlignment_def)
  let ?q = "16 * (d + 1)"
  have "IsAligned ?q" unfolding IsAligned_def kAlignment_def by (rule mod_mult_self1_is_0)
  then have "Align p \<le> ?q" using Align_least [of p] p by simp
  then show ?thesis using p by (simp add: kAlignment_def)
qed

lemma IsAligned_add: "IsAligned p \<Longrightarrow> IsAligned n \<Longrightarrow> IsAligned (p + n)"
  by (simp add: IsAligned_def mod_add_eq [symmetric])

section \<open>The shared segment\<close>

record shared_segment =
  seg_begin :: addr
  seg_end :: addr
  up :: addr
  down :: addr

definition seg_Reset :: "shared_segment \<Rightarrow> shared_segment" where
  "seg_Reset s = s\<lparr>up := seg_begin s, down := seg_end s\<rparr>"

definition new_segment :: "addr \<Rightarrow> nat \<Rightarrow> shared_segment" where
  "new_segment b n = seg_Reset \<lparr>seg_begin = b, seg_end = b + n, up = 0, down = 0\<rparr>"

definition SpaceLeft :: "shared_segment \<Rightarrow> nat" where
  "SpaceLeft s = down s - up s"

definition TryUp :: "nat \<Rightarrow> shared_segment \<Rightarrow> addr option \<times> shared_segment" where
  "TryUp n s = (if SpaceLeft s < n then (None, s) else (Some (up s), s\<lparr>up := up s + n\<rparr>))"

definition TryDown :: "nat \<Rightarrow> shared_segment \<Rightarrow> addr option \<times> shared_segment" where
  "TryDown n s = (if SpaceLeft s < n then (None, s) else (Some (down s - n), s\<lparr>down := down s - n\<rparr>))"

definition TrySetUp :: "addr \<Rightarrow> shared_segment \<Rightarrow> fault + bool \<times> shared_segment" where
  "TrySetUp p s =
     (if \<not> p \<ge> up s then Inl (Panic ''Pointer should be at least UpPtr()'')
      else let (r, s1) = TryUp (p - up s) s in Inr (r \<noteq> None, s1))"

definition seg_ok :: "shared_segment \<Rightarrow> bool" where
  "seg_ok s \<longleftrightarrow> 0 < seg_begin s \<and> seg_begin s \<le> up s \<and> up s \<le> down s \<and> down s \<le> seg_end s"

lemma TrySetUp_ok:
  assumes "seg_ok s" and "up s \<le> p"
  shows "TrySetUp p s = (if p \<le> down s then Inr (True, s\<lparr>up := p\<rparr>) else Inr (False, s))"
  using assms by (auto simp: TrySetUp_def TryUp_def SpaceLeft_def seg_ok_def)

section \<open>Stacks\<close>

text \<open>A stack that has been freed holds the link to the next one of the pool.\<close>

record stack_allocator =
  stack_size :: nat
  pool :: "addr list"

definition kMinStackSize :: nat where
  "kMinStackSize = 64 * 1024"

definition ChooseStackSize :: "nat \<Rightarrow> nat" where
  "ChooseStackSize min_size = max min_size kMinStackSize"

definition new_stack_allocator :: "nat \<Rightarrow> stack_allocator" where
  "new_stack_allocator min_size = \<lparr>stack_size = ChooseStackSize min_size, pool = []\<rparr>"

definition stacks_SetMinStackSize :: "nat \<Rightarrow> stack_allocator \<Rightarrow> stack_allocator" where
  "stacks_SetMinStackSize min_size a = a\<lparr>stack_size := ChooseStackSize min_size\<rparr>"

definition HardReset :: "stack_allocator \<Rightarrow> stack_allocator" where
  "HardReset a = a\<lparr>pool := []\<rparr>"

definition stack_Allocate :: "stack_allocator \<Rightarrow> shared_segment \<Rightarrow> (addr \<times> nat) option \<times> stack_allocator \<times> shared_segment" where
  "stack_Allocate a s =
     (case pool a of
        p # rest \<Rightarrow> (Some (p, stack_size a), a\<lparr>pool := rest\<rparr>, s)
      | [] \<Rightarrow>
          (case TryDown (stack_size a) s of
             (Some p, s1) \<Rightarrow> (Some (p, stack_size a), a, s1)
           | (None, s1) \<Rightarrow> (None, a, s1)))"

definition stack_Free :: "addr \<times> nat \<Rightarrow> stack_allocator \<Rightarrow> stack_allocator" where
  "stack_Free st a = a\<lparr>pool := fst st # pool a\<rparr>"

section \<open>Static variables\<close>

record statics_allocator =
  st_begin :: addr
  st_end :: addr
  st_next :: addr

definition statics_Reset :: "statics_allocator \<Rightarrow> statics_allocator" where
  "statics_Reset a = a\<lparr>st_next := Align (st_begin a)\<rparr>"

definition Overflow :: "statics_allocator \<Rightarrow> bool" where
  "Overflow a \<longleftrightarrow> st_next a \<ge> st_end a"

definition statics_SpaceLeft :: "statics_allocator \<Rightarrow> nat" where
  "statics_SpaceLeft a = st_end a - st_next a"

definition statics_Allocate :: "nat \<Rightarrow> statics_allocator \<Rightarrow> addr option \<times> statics_allocator" where
  "statics_Allocate n a =
     (if Overflow a then (None, a)
      else if statics_SpaceLeft a < n then (None, a)
      else (Some (st_next a), a\<lparr>st_next := Align (st_next a + n)\<rparr>))"

end
