(* ===== verification/User_Heap.thy ===== *)
theory User_Heap
  imports Segments
begin

text \<open>
  The heap of the program under test (\<open>rt/sim/system/memory/isolated/heap/\<close>): blocks whose sizes are
  powers of two, taken from the lower end of the shared segment (\<open>BrkAllocator\<close>), kept for reuse in a
  free list for each size (\<open>BlockVectorFreeList\<close>), with an index of all blocks in the order of their
  addresses (\<open>BlockIndex\<close>) that tells whether an address may be accessed. The headers of the blocks are
  kept as a function of their addresses; what the user stores in the blocks is not modelled. The index
  and the buffers of the free lists, arrays in the segment, are lists here.
\<close>

section \<open>Size classes\<close>

definition BlockSize :: "nat \<Rightarrow> nat" where
  "BlockSize k = 2 ^ k"

function size_class_loop :: "nat \<Rightarrow> nat \<Rightarrow> nat option" where
  "size_class_loop k n = (if k < 32 then (if BlockSize k \<ge> n then Some k else size_class_loop (k + 1) n) else None)"
  by pat_completeness auto
termination by (relation "measure (\<lambda>(k, n). 32 - k)") auto

declare size_class_loop.simps [simp del]

text \<open>A size beyond all classes ends the process (\<open>std::abort\<close>).\<close>

definition GetSizeClassSlow :: "nat \<Rightarrow> fault + nat" where
  "GetSizeClassSlow n = (case size_class_loop 4 n of Some k \<Rightarrow> Inr k | None \<Rightarrow> Inl (Panic ''abort''))"

definition AtLeast16Bytes :: "nat \<Rightarrow> nat" where
  "AtLeast16Bytes k = (if k < 4 then 4 else k)"

definition GetSizeClass :: "nat \<Rightarrow> fault + nat" where
  "GetSizeClass n = bindE (GetSizeClassSlow n) (\<lambda>k. Inr (AtLeast16Bytes k))"

section \<open>Blocks\<close>

datatype block_state = Allocated | Available

text \<open>\<open>kHeaderSize\<close> is the size of the header, 16 bytes.\<close>

record block_header =
  bh_state :: block_state
  bh_klass :: nat
  bh_service :: bool
  bh_user_size :: nat
  bh_alloc_id :: "32 word"
  bh_canary :: "32 word"

definition kHeaderSize :: nat where
  "kHeaderSize = 16"

definition kCanary :: "32 word" where
  "kCanary = 0xAAAAAAAA"

text \<open>A header after \<open>memset(next_, 0, kHeaderSize)\<close>.\<close>

definition zero_header :: block_header where
  "zero_header = \<lparr>bh_state = Allocated, bh_klass = 0, bh_service = False, bh_user_size = 0, bh_alloc_id = 0, bh_canary = 0\<rparr>"

definition Data :: "addr \<Rightarrow> addr" where
  "Data b = b + kHeaderSize"

definition block_Size :: "block_header \<Rightarrow> nat" where
  "block_Size h = BlockSize (bh_klass h)"

definition DataEnd :: "addr \<Rightarrow> block_header \<Rightarrow> addr" where
  "DataEnd b h = Data b + block_Size h"

definition UserDataEnd :: "addr \<Rightarrow> block_header \<Rightarrow> addr" where
  "UserDataEnd b h = Data b + bh_user_size h"

section \<open>The state of the allocator\<close>

record free_list =
  fl_blocks :: "addr list"
  fl_capacity :: nat
  fl_buf :: "addr option"

record alloc_stat =
  bytes_allocated :: nat
  bytes_freed :: nat
  user_bytes_allocated :: nat
  user_bytes_freed :: nat
  alloc_count :: nat
  free_count :: nat

record heap =
  hp_segment :: shared_segment
  hp_headers :: "addr \<Rightarrow> block_header"
  hp_index :: "addr list"
  hp_next :: addr
  hp_lists :: "nat \<Rightarrow> free_list"
  hp_next_id :: "32 word"
  hp_stat :: alloc_stat

definition empty_list :: free_list where
  "empty_list = \<lparr>fl_blocks = [], fl_capacity = 0, fl_buf = None\<rparr>"

definition zero_stat :: alloc_stat where
  "zero_stat = \<lparr>bytes_allocated = 0, bytes_freed = 0, user_bytes_allocated = 0, user_bytes_freed = 0,
     alloc_count = 0, free_count = 0\<rparr>"

definition set_header :: "addr \<Rightarrow> (block_header \<Rightarrow> block_header) \<Rightarrow> heap \<Rightarrow> heap" where
  "set_header b f h = h\<lparr>hp_headers := (hp_headers h)(b := f (hp_headers h b))\<rparr>"

section \<open>The index of the blocks\<close>

definition kCapacity :: nat where
  "kCapacity = 1024 * 1024"

text \<open>The pointers have 8 bytes.\<close>

definition kSizeBytes :: nat where
  "kSizeBytes = kCapacity * 8"

definition index_Insert :: "addr \<Rightarrow> addr list \<Rightarrow> fault + addr list" where
  "index_Insert b xs =
     bindE (verify (length xs < kCapacity) (Panic ''Block index overflow'')) (\<lambda>_.
     bindE (verify (xs \<noteq> [] \<longrightarrow> b > last xs) (Panic ''Unordered insert to block index'')) (\<lambda>_.
     Inr (xs @ [b])))"

text \<open>\<open>std::lower_bound\<close> on the array, which is sorted, as a position.\<close>

definition lower_bound :: "addr list \<Rightarrow> addr \<Rightarrow> nat" where
  "lower_bound xs p = length (takeWhile (\<lambda>b. b < p) xs)"

definition index_Lookup :: "addr \<Rightarrow> (addr \<Rightarrow> block_header) \<Rightarrow> addr list \<Rightarrow> fault + addr option" where
  "index_Lookup p hs xs =
     (if xs = [] then Inr None
      else if p < Data (hd xs) then Inr None
      else if p \<ge> UserDataEnd (last xs) (hs (last xs)) then Inr None
      else let i = lower_bound xs p
           in bindE (verify (i \<noteq> 0) (Panic ''Broken block index'')) (\<lambda>_.
              let candidate = xs ! (i - 1)
              in Inr (if p \<ge> Data candidate \<and> p < UserDataEnd candidate (hs candidate) then Some candidate else None)))"

section \<open>New blocks\<close>

definition FromHere :: "addr \<Rightarrow> heap \<Rightarrow> bool" where
  "FromHere p h \<longleftrightarrow> p \<ge> seg_begin (hp_segment h) \<and> p < up (hp_segment h)"

definition brk_Init :: "addr \<Rightarrow> nat \<Rightarrow> heap \<Rightarrow> heap" where
  "brk_Init b k h =
     set_header (hp_next h) (\<lambda>_. zero_header) (set_header b (\<lambda>x. x\<lparr>bh_klass := k, bh_canary := kCanary\<rparr>) h)"

definition NewBlock :: "nat \<Rightarrow> heap \<Rightarrow> fault + addr option \<times> heap" where
  "NewBlock k h =
     bindE (verify (IsAligned (hp_next h)) (Panic ''Invalid alignment'')) (\<lambda>_.
     let klass_block_size = BlockSize k;
         total_block_size = klass_block_size + kHeaderSize;
         reserve_bytes = total_block_size + kHeaderSize
     in if reserve_bytes > SpaceLeft (hp_segment h) then Inr (None, h)
        else let block = hp_next h; new_next = Align (hp_next h + total_block_size)
          in bindE (TrySetUp new_next (hp_segment h)) (\<lambda>(fits, s).
             if \<not> fits then Inr (None, h\<lparr>hp_segment := s\<rparr>)
             else let h1 = brk_Init block k (h\<lparr>hp_segment := s, hp_next := new_next\<rparr>)
               in bindE (index_Insert block (hp_index h1)) (\<lambda>xs.
                  Inr (Some block, h1\<lparr>hp_index := xs\<rparr>))))"

definition GetFreedBlock :: "addr \<Rightarrow> heap \<Rightarrow> fault + addr" where
  "GetFreedBlock p h =
     bindE (verify (FromHere p h) (Panic ''Invalid user pointer: not from heap'')) (\<lambda>_.
     bindE (verify (IsAligned p) (Panic ''Invalid user pointer: unaligned'')) (\<lambda>_.
     bindE (verify (p \<ge> seg_begin (hp_segment h) + kHeaderSize) (Panic ''Invalid user pointer'')) (\<lambda>_.
     bindE (verify (p < hp_next h) (Panic ''Invalid user pointer: not allocated'')) (\<lambda>_.
     let block = p - kHeaderSize
     in bindE (verify (bh_canary (hp_headers h block) = kCanary) (Panic ''Corrupted memory: block canary is dead'')) (\<lambda>_.
        Inr block)))))"

definition brk_Lookup :: "addr \<Rightarrow> heap \<Rightarrow> fault + addr option" where
  "brk_Lookup p h = index_Lookup p (hp_headers h) (hp_index h)"

definition brk_Reset :: "heap \<Rightarrow> fault + heap" where
  "brk_Reset h =
     bindE (TrySetUp (Align (up (hp_segment h))) (hp_segment h)) (\<lambda>(ok, s1).
     bindE (verify ok (Panic ''Broken allocator'')) (\<lambda>_.
     bindE (case TryUp kSizeBytes s1 of (Some p, s2) \<Rightarrow> Inr s2 | (None, s2) \<Rightarrow> Inl (Panic ''Cannot reserve space for index'')) (\<lambda>s2.
     bindE (TrySetUp (Align (up s2)) s2) (\<lambda>(ok, s3).
     bindE (verify ok (Panic ''Broken allocator'')) (\<lambda>_.
     let next = Align (up s2)
     in bindE (verify (IsAligned next) (Panic ''Invalid alignment'')) (\<lambda>_.
        Inr (set_header next (\<lambda>_. zero_header) (h\<lparr>hp_segment := s3, hp_index := [], hp_next := next\<rparr>))))))))"

section \<open>Free lists\<close>

definition NewCapacity :: "nat \<Rightarrow> nat" where
  "NewCapacity c = (if c = 0 then 8 else c * 2)"

definition ToBytes :: "nat \<Rightarrow> nat" where
  "ToBytes n = n * 8"

text \<open>When there is no space for a buffer, the header of a null block is written to.\<close>

definition NewBuffer :: "nat \<Rightarrow> heap \<Rightarrow> fault + addr \<times> heap" where
  "NewBuffer capacity h =
     bindE (GetSizeClass (ToBytes capacity)) (\<lambda>k.
     bindE (NewBlock k h) (\<lambda>(block, h1).
     case block of
       None \<Rightarrow> Inl (Panic ''null block'')
     | Some b \<Rightarrow> Inr (Data b, set_header b (\<lambda>x. x\<lparr>bh_state := Allocated, bh_service := True\<rparr>) h1)))"

definition set_list :: "nat \<Rightarrow> free_list \<Rightarrow> heap \<Rightarrow> heap" where
  "set_list k l h = h\<lparr>hp_lists := (hp_lists h)(k := l)\<rparr>"

definition ResizeBuffer :: "nat \<Rightarrow> heap \<Rightarrow> fault + heap" where
  "ResizeBuffer k h =
     (let c = NewCapacity (fl_capacity (hp_lists h k))
      in bindE (NewBuffer c h) (\<lambda>(buf, h1).
         Inr (set_list k ((hp_lists h1 k)\<lparr>fl_buf := Some buf, fl_capacity := c\<rparr>) h1)))"

definition list_Push :: "nat \<Rightarrow> addr \<Rightarrow> heap \<Rightarrow> fault + heap" where
  "list_Push k b h =
     (let l = hp_lists h k
      in bindE (if length (fl_blocks l) = fl_capacity l then ResizeBuffer k h else Inr h) (\<lambda>h1.
         let l1 = hp_lists h1 k in Inr (set_list k (l1\<lparr>fl_blocks := fl_blocks l1 @ [b]\<rparr>) h1)))"

definition TryPopBack :: "addr list \<Rightarrow> addr option \<times> addr list" where
  "TryPopBack xs = (if length xs > 0 then (Some (last xs), butlast xs) else (None, xs))"

definition TryPopSome :: "u64 \<Rightarrow> addr list \<Rightarrow> addr option \<times> addr list" where
  "TryPopSome r xs =
     (if length xs = 0 then (None, xs)
      else let i = unat r mod length xs in (Some (xs ! i), swap_remove i xs))"

definition list_TryPop :: "u64 option \<Rightarrow> addr list \<Rightarrow> addr option \<times> addr list" where
  "list_TryPop ctx xs = (case ctx of Some r \<Rightarrow> TryPopSome r xs | None \<Rightarrow> TryPopBack xs)"

section \<open>Allocation\<close>

definition kClasses :: nat where
  "kClasses = 32"

definition kAllocSizeLimit :: nat where
  "kAllocSizeLimit = 2 ^ 30"

definition GetFreeBlock :: "nat \<Rightarrow> u64 option \<Rightarrow> heap \<Rightarrow> fault + addr option \<times> heap" where
  "GetFreeBlock k ctx h =
     (case list_TryPop ctx (fl_blocks (hp_lists h k)) of
        (Some b, rest) \<Rightarrow> Inr (Some b, set_list k ((hp_lists h k)\<lparr>fl_blocks := rest\<rparr>) h)
      | (None, rest) \<Rightarrow> NewBlock k h)"

text \<open>Addresses of the user's data, 0 when the heap is full.\<close>

definition hp_Allocate :: "nat \<Rightarrow> u64 option \<Rightarrow> heap \<Rightarrow> fault + addr \<times> heap" where
  "hp_Allocate user_size ctx h =
     bindE (verify (user_size < kAllocSizeLimit) (SysAbortEx LibraryAssert)) (\<lambda>_.
     bindE (GetSizeClass user_size) (\<lambda>k.
     bindE (GetFreeBlock k ctx h) (\<lambda>(block, h1).
     case block of
       None \<Rightarrow> Inr (0, h1)
     | Some b \<Rightarrow>
         let id = hp_next_id h1 + 1;
             h2 = set_header b (\<lambda>x. x\<lparr>bh_state := Allocated, bh_service := False, bh_user_size := user_size, bh_alloc_id := id\<rparr>)
               (h1\<lparr>hp_next_id := id\<rparr>);
             st = hp_stat h2
         in Inr (Data b, h2\<lparr>hp_stat := st\<lparr>alloc_count := alloc_count st + 1,
              bytes_allocated := bytes_allocated st + block_Size (hp_headers h2 b),
              user_bytes_allocated := user_bytes_allocated st + user_size\<rparr>\<rparr>))))"

definition free_block :: "addr \<Rightarrow> heap \<Rightarrow> fault + heap" where
  "free_block b h =
     bindE (verify (bh_state (hp_headers h b) = Allocated) (SysAbortEx MemoryDoubleFree)) (\<lambda>_.
     let x = hp_headers h b; k = bh_klass x
     in bindE (verify (k < kClasses) (Panic ''Corrupted user memory: corrupted block header'')) (\<lambda>_.
        let st = hp_stat h;
            h1 = h\<lparr>hp_stat := st\<lparr>free_count := free_count st + 1, user_bytes_freed := user_bytes_freed st + bh_user_size x,
              bytes_freed := bytes_freed st + block_Size x\<rparr>\<rparr>
        in list_Push k b (set_header b (\<lambda>x. x\<lparr>bh_state := Available, bh_user_size := 0\<rparr>) h1)))"

definition hp_Free :: "addr \<Rightarrow> heap \<Rightarrow> fault + heap" where
  "hp_Free p h = (if p = 0 then Inr h else bindE (GetFreedBlock p h) (\<lambda>b. free_block b h))"

definition hp_Access :: "addr \<Rightarrow> nat \<Rightarrow> heap \<Rightarrow> fault + bool" where
  "hp_Access p n h =
     bindE (brk_Lookup p h) (\<lambda>block. Inr (case block of
       None \<Rightarrow> False
     | Some b \<Rightarrow> bh_state (hp_headers h b) = Allocated \<and> p + n \<le> UserDataEnd b (hp_headers h b)))"

definition hp_Reset :: "heap \<Rightarrow> fault + heap" where
  "hp_Reset h =
     bindE (brk_Reset h) (\<lambda>h1.
     Inr (h1\<lparr>hp_lists := (\<lambda>k. if k < kClasses then empty_list else hp_lists h1 k), hp_next_id := 0, hp_stat := zero_stat\<rparr>))"

end
