(* ===== verification/Heap_Inv.thy ===== *)
theory Heap_Inv
  imports User_Heap
begin

text \<open>
  The invariant of the user heap and that its operations keep it: the blocks lie one after the other
  below the top of the heap, the index lists them in order, every available block is in the free list
  of its class, and the statistics count the blocks in use.
\<close>

section \<open>Size classes\<close>

lemma size_class_loop_least:
  "size_class_loop k n = Some c \<Longrightarrow> k \<le> c \<and> c < 32 \<and> n \<le> BlockSize c \<and> (\<forall>j. k \<le> j \<longrightarrow> j < c \<longrightarrow> BlockSize j < n)"
proof (induction k n rule: size_class_loop.induct)
  case (1 k n)
  show ?case
  proof (cases "k < 32 \<and> \<not> BlockSize k \<ge> n")
    case True
    then have c: "size_class_loop (k + 1) n = Some c" using "1.prems" by (subst (asm) size_class_loop.simps) simp
    have "BlockSize j < n" if "k \<le> j" "j < c" for j
      using "1.IH" [OF _ _ c] True that by (cases "j = k") auto
    then show ?thesis using "1.IH" [OF _ _ c] True by auto
  next
    case False
    then show ?thesis using "1.prems" by (subst (asm) size_class_loop.simps) (auto split: if_splits)
  qed
qed

lemma size_class_loop_some: "k < 32 \<Longrightarrow> n \<le> 2 ^ 31 \<Longrightarrow> size_class_loop k n \<noteq> None"
proof (induction k n rule: size_class_loop.induct)
  case (1 k n)
  show ?case
  proof (cases "BlockSize k \<ge> n")
    case True
    then show ?thesis using "1.prems" by (simp add: size_class_loop.simps)
  next
    case False
    then have "k \<noteq> 31" using "1.prems"(2) by (auto simp: BlockSize_def)
    then show ?thesis using 1 False by (subst size_class_loop.simps) auto
  qed
qed

lemma GetSizeClass_ok:
  assumes "n \<le> 2 ^ 31"
  obtains k where "GetSizeClass n = Inr k" and "4 \<le> k" and "k < 32" and "n \<le> BlockSize k"
proof -
  obtain k where k: "size_class_loop 4 n = Some k" using size_class_loop_some [of 4 n] assms by auto
  from size_class_loop_least [OF k] have "4 \<le> k" "k < 32" "n \<le> BlockSize k" by auto
  moreover have "GetSizeClass n = Inr k" using k \<open>4 \<le> k\<close> by (simp add: GetSizeClass_def GetSizeClassSlow_def AtLeast16Bytes_def)
  ultimately show ?thesis by (rule that [rotated])
qed

lemma GetSizeClass_Inr: "GetSizeClass n = Inr k \<Longrightarrow> 4 \<le> k \<and> k < 32 \<and> n \<le> BlockSize k"
  using size_class_loop_least [of 4 n]
  by (auto simp: GetSizeClass_def GetSizeClassSlow_def AtLeast16Bytes_def bindE_eq_Inr split: option.splits)

section \<open>The invariant\<close>

definition layout :: "(addr \<Rightarrow> block_header) \<Rightarrow> addr list \<Rightarrow> addr \<Rightarrow> addr \<Rightarrow> bool" where
  "layout hs xs lo hi \<longleftrightarrow> sorted_wrt (\<lambda>a b. DataEnd a (hs a) \<le> b) xs \<and>
     (\<forall>b \<in> set xs. IsAligned b \<and> lo \<le> b \<and> DataEnd b (hs b) \<le> hi)"

definition header_ok :: "block_header \<Rightarrow> bool" where
  "header_ok x \<longleftrightarrow> bh_canary x = kCanary \<and> 4 \<le> bh_klass x \<and> bh_klass x < kClasses \<and> bh_user_size x \<le> block_Size x \<and>
     (bh_state x = Available \<or> bh_service x \<longrightarrow> bh_user_size x = 0) \<and> (bh_service x \<longrightarrow> bh_state x = Allocated)"

text \<open>The blocks that are in use by the program, and those that are free.\<close>

definition live :: "heap \<Rightarrow> addr set" where
  "live h = {b \<in> set (hp_index h). bh_state (hp_headers h b) = Allocated \<and> \<not> bh_service (hp_headers h b)}"

definition free_blocks :: "nat \<Rightarrow> heap \<Rightarrow> addr set" where
  "free_blocks k h = {b \<in> set (hp_index h). bh_state (hp_headers h b) = Available \<and> bh_klass (hp_headers h b) = k}"

definition lists_ok :: "(nat \<Rightarrow> addr set) \<Rightarrow> heap \<Rightarrow> bool" where
  "lists_ok F h \<longleftrightarrow> (\<forall>k < kClasses. distinct (fl_blocks (hp_lists h k)) \<and> set (fl_blocks (hp_lists h k)) = F k \<and>
     length (fl_blocks (hp_lists h k)) \<le> fl_capacity (hp_lists h k))"

definition stat_ok :: "heap \<Rightarrow> bool" where
  "stat_ok h \<longleftrightarrow> alloc_count (hp_stat h) = free_count (hp_stat h) + card (live h) \<and>
     user_bytes_allocated (hp_stat h) = user_bytes_freed (hp_stat h) + (\<Sum>b \<in> live h. bh_user_size (hp_headers h b)) \<and>
     bytes_allocated (hp_stat h) = bytes_freed (hp_stat h) + (\<Sum>b \<in> live h. block_Size (hp_headers h b))"

text \<open>The blocks themselves, without the lists and the statistics.\<close>

definition blocks_ok :: "heap \<Rightarrow> bool" where
  "blocks_ok h \<longleftrightarrow> seg_ok (hp_segment h) \<and> IsAligned (hp_next h) \<and> up (hp_segment h) = hp_next h \<and>
     layout (hp_headers h) (hp_index h) (seg_begin (hp_segment h)) (hp_next h) \<and> length (hp_index h) \<le> kCapacity \<and>
     (\<forall>b \<in> set (hp_index h). header_ok (hp_headers h b)) \<and> hp_headers h (hp_next h) = zero_header"

definition heap_ok :: "heap \<Rightarrow> bool" where
  "heap_ok h \<longleftrightarrow> blocks_ok h \<and> lists_ok (\<lambda>k. free_blocks k h) h \<and> stat_ok h \<and>
     (\<forall>b \<in> live h. bh_user_size (hp_headers h b) < kAllocSizeLimit \<and>
       GetSizeClass (bh_user_size (hp_headers h b)) = Inr (bh_klass (hp_headers h b)))"

section \<open>The layout\<close>

lemma Data_less_DataEnd: "b < Data b" "Data b < DataEnd b x"
  by (simp_all add: Data_def DataEnd_def kHeaderSize_def block_Size_def BlockSize_def)

lemma layout_strict: "layout hs xs lo hi \<Longrightarrow> sorted_wrt (<) xs"
proof -
  assume "layout hs xs lo hi"
  then have s: "sorted_wrt (\<lambda>a b. DataEnd a (hs a) \<le> b) xs" by (simp add: layout_def)
  have "a < b" if "DataEnd a (hs a) \<le> b" for a b
    using Data_less_DataEnd(1) [of a] Data_less_DataEnd(2) [of a "hs a"] that by linarith
  then show ?thesis by (intro sorted_wrt_mono_rel [OF _ s]) auto
qed

lemma layout_distinct: "layout hs xs lo hi \<Longrightarrow> distinct xs"
  using layout_strict strict_sorted_iff by blast

lemma layout_disjoint:
  assumes L: "layout hs xs lo hi" and "a \<in> set xs" "b \<in> set xs" "a \<noteq> b"
  shows "DataEnd a (hs a) \<le> b \<or> DataEnd b (hs b) \<le> a"
proof -
  obtain i j where ij: "a = xs ! i" "b = xs ! j" "i < length xs" "j < length xs"
    using assms(2,3) by (auto simp: in_set_conv_nth)
  have s: "sorted_wrt (\<lambda>a b. DataEnd a (hs a) \<le> b) xs" using L by (simp add: layout_def)
  show ?thesis
  proof (cases "i < j")
    case True
    then show ?thesis using sorted_wrt_nth_less [OF s True] ij by simp
  next
    case False
    then have "j < i" using ij assms(4) by (metis linorder_neqE_nat)
    then show ?thesis using sorted_wrt_nth_less [OF s] ij by simp
  qed
qed

text \<open>The layout only depends on the classes.\<close>

lemma layout_cong:
  assumes "\<And>b. b \<in> set xs \<Longrightarrow> bh_klass (hs' b) = bh_klass (hs b)"
  shows "layout hs' xs lo hi \<longleftrightarrow> layout hs xs lo hi"
proof -
  have e: "DataEnd b (hs' b) = DataEnd b (hs b)" if "b \<in> set xs" for b
    using assms [OF that] by (simp add: DataEnd_def block_Size_def)
  have "sorted_wrt (\<lambda>a b. DataEnd a (hs' a) \<le> b) xs \<longleftrightarrow> sorted_wrt (\<lambda>a b. DataEnd a (hs a) \<le> b) xs"
    by (intro iffI; erule sorted_wrt_mono_rel [rotated]; simp add: e)
  then show ?thesis by (simp add: layout_def e)
qed

lemma layout_extend:
  assumes L: "layout hs xs lo hi" and h: "hs' b = x" "\<And>a. a \<in> set xs \<Longrightarrow> hs' a = hs a"
    and b: "IsAligned b" "lo \<le> b" "hi \<le> b" "DataEnd b x \<le> hi'"
  shows "layout hs' (xs @ [b]) lo hi'"
proof -
  have L': "layout hs' xs lo hi" using L layout_cong [of xs hs' hs lo hi] h(2) by simp
  have "hi \<le> hi'" using b(3,4) Data_less_DataEnd(1) [of b] Data_less_DataEnd(2) [of b x] by linarith
  then show ?thesis using L' b h(1) by (fastforce simp: layout_def sorted_wrt_append)
qed

section \<open>New blocks\<close>

lemma IsAligned_BlockSize: "4 \<le> k \<Longrightarrow> IsAligned (BlockSize k)"
proof -
  assume "4 \<le> k"
  then obtain j where "k = 4 + j" using le_Suc_ex by blast
  then show ?thesis by (simp add: IsAligned_def BlockSize_def kAlignment_def power_add)
qed

lemma IsAligned_header: "IsAligned kHeaderSize"
  by (simp add: IsAligned_def kHeaderSize_def kAlignment_def)

lemma DataEnd_aligned: "IsAligned b \<Longrightarrow> 4 \<le> k \<Longrightarrow> IsAligned (b + (BlockSize k + kHeaderSize))"
  by (intro IsAligned_add IsAligned_BlockSize IsAligned_header)

text \<open>The block that \<open>NewBlock\<close> puts at the top of the heap, and the heap that it leaves.\<close>

definition with_block :: "nat \<Rightarrow> heap \<Rightarrow> heap" where
  "with_block k h =
     (let b = hp_next h; next = hp_next h + (BlockSize k + kHeaderSize)
      in h\<lparr>hp_segment := (hp_segment h)\<lparr>up := next\<rparr>, hp_next := next, hp_index := hp_index h @ [b],
           hp_headers := (hp_headers h)(b := zero_header\<lparr>bh_klass := k, bh_canary := kCanary\<rparr>, next := zero_header)\<rparr>)"

lemma layout_below: "layout hs xs lo hi \<Longrightarrow> b \<in> set xs \<Longrightarrow> b < hi"
  using Data_less_DataEnd(1) [of b] Data_less_DataEnd(2) [of b "hs b"] by (auto simp: layout_def dest!: bspec)

lemma NewBlock_rule:
  assumes "blocks_ok h" and "4 \<le> k"
  shows "NewBlock k h =
     (if BlockSize k + kHeaderSize + kHeaderSize > SpaceLeft (hp_segment h) then Inr (None, h)
      else if length (hp_index h) < kCapacity then Inr (Some (hp_next h), with_block k h)
      else Inl (Panic ''Block index overflow''))"
proof -
  note ok = assms(1) [unfolded blocks_ok_def]
  let ?n = "hp_next h + (BlockSize k + kHeaderSize)"
  have al: "Align ?n = ?n" using DataEnd_aligned assms ok by simp
  have below: "b < hp_next h" if "b \<in> set (hp_index h)" for b using layout_below ok that by blast
  have pos: "0 < BlockSize k" "0 < kHeaderSize" by (simp_all add: BlockSize_def kHeaderSize_def)
  show ?thesis
  proof (cases "BlockSize k + kHeaderSize + kHeaderSize > SpaceLeft (hp_segment h)")
    case True
    then show ?thesis using ok by (simp add: NewBlock_def)
  next
    case False
    then have "?n \<le> down (hp_segment h)" using ok pos by (auto simp: SpaceLeft_def seg_ok_def)
    then have su: "TrySetUp ?n (hp_segment h) = Inr (True, (hp_segment h)\<lparr>up := ?n\<rparr>)"
      using TrySetUp_ok [of "hp_segment h" ?n] ok by simp
    have ins: "index_Insert (hp_next h) (hp_index h) =
        (if length (hp_index h) < kCapacity then Inr (hp_index h @ [hp_next h]) else Inl (Panic ''Block index overflow''))"
      using below by (auto simp: index_Insert_def)
    have z: "hp_headers h (hp_next h) = zero_header" using ok by simp
    show ?thesis using False ok al su ins pos
      by (simp add: NewBlock_def Let_def brk_Init_def set_header_def with_block_def z fun_upd_twist)
  qed
qed

lemma with_block_ok:
  assumes "blocks_ok h" and "4 \<le> k" "k < kClasses" and "BlockSize k + kHeaderSize + kHeaderSize \<le> SpaceLeft (hp_segment h)"
    and "length (hp_index h) < kCapacity"
  shows "blocks_ok (with_block k h)"
proof -
  note ok = assms(1) [unfolded blocks_ok_def]
  let ?b = "hp_next h" and ?n = "hp_next h + (BlockSize k + kHeaderSize)"
  let ?x = "zero_header\<lparr>bh_klass := k, bh_canary := kCanary\<rparr>"
  let ?hs = "(hp_headers h)(?b := ?x, ?n := zero_header)"
  have ne: "?n \<noteq> ?b" by (simp add: BlockSize_def)
  have below: "b < ?b" if "b \<in> set (hp_index h)" for b using layout_below ok that by blast
  have old: "?hs b = hp_headers h b" if "b \<in> set (hp_index h)" for b using below [OF that] by simp
  have "layout ?hs (hp_index h @ [?b]) (seg_begin (hp_segment h)) ?n"
  proof (rule layout_extend [of "hp_headers h" _ _ ?b _ _ ?x])
    show "DataEnd ?b ?x \<le> ?n" by (simp add: DataEnd_def Data_def block_Size_def)
    show "seg_begin (hp_segment h) \<le> ?b" using ok by (simp add: seg_ok_def)
  qed (use ok ne old in auto)
  moreover have "seg_ok ((hp_segment h)\<lparr>up := ?n\<rparr>)"
    using ok assms(4) by (auto simp: seg_ok_def SpaceLeft_def kHeaderSize_def)
  moreover have "header_ok ?x" using assms by (simp add: header_ok_def zero_header_def)
  ultimately show ?thesis using ok assms DataEnd_aligned ne old
    by (auto simp: blocks_ok_def with_block_def Let_def)
qed

section \<open>The free lists\<close>

text \<open>A heap that has got blocks of its own: nothing changes for the program.\<close>

definition grown :: "heap \<Rightarrow> heap \<Rightarrow> bool" where
  "grown h h' \<longleftrightarrow> blocks_ok h' \<and> set (hp_index h) \<subseteq> set (hp_index h') \<and>
     (\<forall>b \<in> set (hp_index h). hp_headers h' b = hp_headers h b) \<and> live h' = live h \<and>
     (\<forall>k. free_blocks k h' = free_blocks k h) \<and> hp_stat h' = hp_stat h \<and> hp_next_id h' = hp_next_id h \<and>
     hp_next h \<le> hp_next h' \<and> (\<exists>u. hp_segment h' = (hp_segment h)\<lparr>up := u\<rparr>)"

lemma grown_refl: "blocks_ok h \<Longrightarrow> grown h h"
  unfolding grown_def by (auto intro: exI [of _ "up (hp_segment h)"])

lemma NewBuffer_ok:
  assumes ok: "blocks_ok h" and c: "ToBytes c \<le> 2 ^ 31"
  obtains p h' where "NewBuffer c h = Inr (p, h')" and "grown h h'" and "hp_lists h' = hp_lists h"
  | "NewBuffer c h = Inl (Panic ''null block'')"
  | "NewBuffer c h = Inl (Panic ''Block index overflow'')" and "length (hp_index h) = kCapacity"
proof -
  obtain k where k: "GetSizeClass (ToBytes c) = Inr k" "4 \<le> k" "k < 32"
    using GetSizeClass_ok [OF c] by blast
  let ?b = "hp_next h"
  let ?f = "\<lambda>x :: block_header. x\<lparr>bh_state := Allocated, bh_service := True\<rparr>"
  let ?h = "set_header ?b ?f (with_block k h)"
  note R = NewBlock_rule [OF ok k(2)]
  consider (full) "BlockSize k + kHeaderSize + kHeaderSize > SpaceLeft (hp_segment h)"
    | (new) "BlockSize k + kHeaderSize + kHeaderSize \<le> SpaceLeft (hp_segment h)" "length (hp_index h) < kCapacity"
    | (over) "BlockSize k + kHeaderSize + kHeaderSize \<le> SpaceLeft (hp_segment h)" "length (hp_index h) \<ge> kCapacity"
    by linarith
  then show ?thesis
  proof cases
    case full
    then have "NewBuffer c h = Inl (Panic ''null block'')" by (simp add: NewBuffer_def k R)
    then show ?thesis by (rule that(2))
  next
    case over
    then have "NewBuffer c h = Inl (Panic ''Block index overflow'')" by (simp add: NewBuffer_def k R)
    moreover have "length (hp_index h) = kCapacity" using ok over by (simp add: blocks_ok_def)
    ultimately show ?thesis by (rule that(3))
  next
    case new
    have r: "NewBuffer c h = Inr (Data ?b, ?h)" using new by (simp add: NewBuffer_def k R)
    have w: "blocks_ok (with_block k h)" using with_block_ok [OF ok k(2)] k(3) new by (simp add: kClasses_def)
    have below: "b < ?b" if "b \<in> set (hp_index h)" for b
      using layout_below [of "hp_headers h" "hp_index h"] ok that by (auto simp: blocks_ok_def)
    have n: "hp_next (with_block k h) \<noteq> ?b" "?b \<le> hp_next (with_block k h)"
      by (simp_all add: with_block_def Let_def BlockSize_def)
    have old: "hp_headers ?h b = hp_headers h b" if "b \<in> set (hp_index h)" for b
      using below [OF that] by (simp add: set_header_def with_block_def Let_def)
    have x: "hp_headers ?h ?b = zero_header\<lparr>bh_klass := k, bh_canary := kCanary, bh_state := Allocated, bh_service := True\<rparr>"
      using n by (auto simp: set_header_def with_block_def Let_def)
    have ix: "hp_index ?h = hp_index h @ [?b]" by (simp add: set_header_def with_block_def Let_def)
    have l: "layout (hp_headers ?h) (hp_index ?h) (seg_begin (hp_segment h)) (hp_next ?h)"
      using w layout_cong [of "hp_index ?h" "hp_headers ?h" "hp_headers (with_block k h)"]
      by (auto simp: blocks_ok_def set_header_def) (auto simp: with_block_def Let_def)
    have "header_ok (hp_headers ?h ?b)"
      unfolding x using k by (simp add: header_ok_def zero_header_def kClasses_def)
    then have "blocks_ok ?h"
      using w l n old ok unfolding blocks_ok_def by (auto simp: ix) (auto simp: set_header_def with_block_def Let_def)
    moreover have "live ?h = live h" using old by (auto simp: live_def ix x)
    moreover have "free_blocks j ?h = free_blocks j h" for j using old by (auto simp: free_blocks_def ix x)
    ultimately have "grown h ?h" using old n
      unfolding grown_def by (auto simp: ix) (auto simp: set_header_def with_block_def Let_def)
    with r show ?thesis by (rule that(1)) (simp add: set_header_def with_block_def Let_def)
  qed
qed

lemma set_list_simps [simp]:
  "hp_segment (set_list k l h) = hp_segment h" "hp_headers (set_list k l h) = hp_headers h"
  "hp_index (set_list k l h) = hp_index h" "hp_next (set_list k l h) = hp_next h"
  "hp_stat (set_list k l h) = hp_stat h" "hp_next_id (set_list k l h) = hp_next_id h"
  "hp_lists (set_list k l h) = (hp_lists h)(k := l)"
  by (simp_all add: set_list_def)

lemma live_set_list [simp]: "live (set_list k l h) = live h"
  by (simp add: live_def)

lemma free_blocks_set_list [simp]: "free_blocks j (set_list k l h) = free_blocks j h"
  by (simp add: free_blocks_def)

lemma blocks_ok_set_list [simp]: "blocks_ok (set_list k l h) = blocks_ok h"
  by (simp add: blocks_ok_def)

lemma grown_set_list [simp]: "grown h (set_list k l h') = grown h h'"
  by (simp add: grown_def)

lemma lists_ok_set_list:
  "lists_ok F h \<Longrightarrow> distinct (fl_blocks l) \<Longrightarrow> set (fl_blocks l) = B \<Longrightarrow> length (fl_blocks l) \<le> fl_capacity l \<Longrightarrow>
     lists_ok (F(k := B)) (set_list k l h)"
  by (simp add: lists_ok_def)

lemma lists_ok_cong: "hp_lists h' = hp_lists h \<Longrightarrow> lists_ok F h' = lists_ok F h"
  by (simp add: lists_ok_def)

lemma list_Push_ok:
  assumes ok: "blocks_ok h" and L: "lists_ok F h" and k: "k < kClasses" and F: "F k \<subseteq> set (hp_index h)" "b \<notin> F k"
  obtains h' where "list_Push k b h = Inr h'" and "grown h h'" and "lists_ok (F(k := insert b (F k))) h'"
  | "list_Push k b h = Inl (Panic ''null block'')"
  | "list_Push k b h = Inl (Panic ''Block index overflow'')" and "length (hp_index h) = kCapacity"
proof -
  let ?l = "hp_lists h k"
  have l: "distinct (fl_blocks ?l)" "set (fl_blocks ?l) = F k" "length (fl_blocks ?l) \<le> fl_capacity ?l"
    using L k by (auto simp: lists_ok_def)
  show ?thesis
  proof (cases "length (fl_blocks ?l) = fl_capacity ?l")
    case False
    let ?h = "set_list k (?l\<lparr>fl_blocks := fl_blocks ?l @ [b]\<rparr>) h"
    have "list_Push k b h = Inr ?h" using False by (simp add: list_Push_def Let_def)
    moreover have "lists_ok (F(k := insert b (F k))) ?h"
      using l F False by (intro lists_ok_set_list [OF L]) auto
    ultimately show ?thesis using that(1) grown_refl [OF ok] by simp
  next
    case True
    let ?c = "NewCapacity (fl_capacity ?l)"
    have "length (fl_blocks ?l) = card (F k)" using l by (metis distinct_card)
    also have "\<dots> \<le> card (set (hp_index h))" using F(1) by (simp add: card_mono)
    also have "\<dots> \<le> length (hp_index h)" by (rule card_length)
    also have "\<dots> \<le> kCapacity" using ok by (simp add: blocks_ok_def)
    finally have "fl_capacity ?l \<le> kCapacity" using True by simp
    then have c: "ToBytes ?c \<le> 2 ^ 31" by (auto simp: ToBytes_def NewCapacity_def kCapacity_def)
    show ?thesis
    proof (rule NewBuffer_ok [OF ok c])
      fix p h1
      assume r: "NewBuffer ?c h = Inr (p, h1)" and g: "grown h h1" and hl: "hp_lists h1 = hp_lists h"
      let ?l1 = "?l\<lparr>fl_buf := Some p, fl_capacity := ?c\<rparr>"
      let ?h = "set_list k (?l1\<lparr>fl_blocks := fl_blocks ?l @ [b]\<rparr>) h1"
      have "list_Push k b h = Inr ?h"
        using True r hl by (simp add: list_Push_def Let_def ResizeBuffer_def set_list_def)
      moreover have "length (fl_blocks ?l) < ?c" using True by (simp add: NewCapacity_def)
      then have "lists_ok (F(k := insert b (F k))) ?h"
        using l F L lists_ok_cong [OF hl] by (intro lists_ok_set_list) auto
      ultimately show ?thesis using that(1) g by simp
    next
      assume "NewBuffer ?c h = Inl (Panic ''null block'')"
      then show ?thesis using that(2) True by (simp add: list_Push_def ResizeBuffer_def)
    next
      assume "NewBuffer ?c h = Inl (Panic ''Block index overflow'')" and "length (hp_index h) = kCapacity"
      then show ?thesis using that(3) True by (simp add: list_Push_def ResizeBuffer_def)
    qed
  qed
qed

lemma list_TryPop_cases:
  assumes "distinct xs"
  obtains "xs = []" and "list_TryPop ctx xs = (None, xs)"
  | b rest where "list_TryPop ctx xs = (Some b, rest)" and "b \<in> set xs" and "distinct rest" and "set rest = set xs - {b}"
    and "length rest < length xs"
proof (cases "xs = []")
  case True
  then show ?thesis using that(1) by (simp add: list_TryPop_def TryPopBack_def TryPopSome_def split: option.splits)
next
  case False
  show ?thesis
  proof (cases ctx)
    case None
    obtain ys y where xs: "xs = ys @ [y]" using False by (metis append_butlast_last_id)
    show ?thesis
      by (rule that(2) [of y ys]) (use assms in \<open>auto simp: None xs list_TryPop_def TryPopBack_def\<close>)
  next
    case (Some r)
    let ?i = "unat r mod length xs"
    have i: "?i < length xs" using False by simp
    show ?thesis using that(2) [of "xs ! ?i" "swap_remove ?i xs"] Some False i distinct_swap_remove [OF i assms]
      by (simp add: list_TryPop_def TryPopSome_def Let_def)
  qed
qed

section \<open>Allocation\<close>

lemma finite_live [simp]: "finite (live h)"
  by (simp add: live_def)

lemma GetFreeBlock_ok:
  assumes ok: "heap_ok h" and k: "4 \<le> k" "k < kClasses"
  obtains "GetFreeBlock k ctx h = Inr (None, h)"
  | "GetFreeBlock k ctx h = Inl (Panic ''Block index overflow'')" and "length (hp_index h) = kCapacity"
  | b h1 where "GetFreeBlock k ctx h = Inr (Some b, h1)" and "blocks_ok h1" and "b \<in> set (hp_index h1)"
    and "bh_klass (hp_headers h1 b) = k" and "b \<notin> live h" and "live h1 - {b} = live h"
    and "\<And>j. free_blocks j h1 - {b} = free_blocks j h - {b}" and "lists_ok (\<lambda>j. free_blocks j h - {b}) h1"
    and "\<And>a. a \<in> live h \<Longrightarrow> hp_headers h1 a = hp_headers h a" and "hp_stat h1 = hp_stat h"
    and "\<exists>u. hp_segment h1 = (hp_segment h)\<lparr>up := u\<rparr>" and "set (hp_index h) \<subseteq> set (hp_index h1)"
proof -
  note B = ok [unfolded heap_ok_def, THEN conjunct1]
  let ?l = "hp_lists h k"
  have l: "distinct (fl_blocks ?l)" "set (fl_blocks ?l) = free_blocks k h" "length (fl_blocks ?l) \<le> fl_capacity ?l"
    and L: "lists_ok (\<lambda>j. free_blocks j h) h"
    using ok k by (auto simp: heap_ok_def lists_ok_def)
  show ?thesis
  proof (rule list_TryPop_cases [OF l(1), of ctx])
    fix b rest
    assume p: "list_TryPop ctx (fl_blocks ?l) = (Some b, rest)" and b: "b \<in> set (fl_blocks ?l)"
      and r: "distinct rest" "set rest = set (fl_blocks ?l) - {b}" "length rest < length (fl_blocks ?l)"
    let ?h = "set_list k (?l\<lparr>fl_blocks := rest\<rparr>) h"
    have bf: "b \<in> free_blocks k h" using b l(2) by simp
    then have "free_blocks j h - {b} = free_blocks j h" if "j \<noteq> k" for j using that by (auto simp: free_blocks_def)
    then have e: "(\<lambda>j. free_blocks j h)(k := free_blocks k h - {b}) = (\<lambda>j. free_blocks j h - {b})"
      by (auto simp: fun_eq_iff)
    have "lists_ok ((\<lambda>j. free_blocks j h)(k := free_blocks k h - {b})) ?h"
      using r l by (intro lists_ok_set_list [OF L]) auto
    then have "lists_ok (\<lambda>j. free_blocks j h - {b}) ?h" by (simp only: e)
    moreover have "GetFreeBlock k ctx h = Inr (Some b, ?h)" by (simp add: GetFreeBlock_def p)
    moreover have "b \<notin> live h" "b \<in> set (hp_index h)" "bh_klass (hp_headers h b) = k"
      using bf by (auto simp: live_def free_blocks_def)
    moreover have "\<exists>u. hp_segment h = (hp_segment h)\<lparr>up := u\<rparr>" by (rule exI [of _ "up (hp_segment h)"]) simp
    ultimately show ?thesis using that(3) [of b ?h] B by simp
  next
    assume e: "fl_blocks ?l = []" and "list_TryPop ctx (fl_blocks ?l) = (None, fl_blocks ?l)"
    then have g: "GetFreeBlock k ctx h = NewBlock k h" by (simp add: GetFreeBlock_def)
    let ?b = "hp_next h" and ?h = "with_block k h"
    consider (full) "BlockSize k + kHeaderSize + kHeaderSize > SpaceLeft (hp_segment h)"
      | (new) "BlockSize k + kHeaderSize + kHeaderSize \<le> SpaceLeft (hp_segment h)" "length (hp_index h) < kCapacity"
      | (over) "BlockSize k + kHeaderSize + kHeaderSize \<le> SpaceLeft (hp_segment h)" "length (hp_index h) \<ge> kCapacity"
      by linarith
    then show ?thesis
    proof cases
      case full
      then show ?thesis using that(1) g NewBlock_rule [OF B k(1)] by simp
    next
      case over
      then show ?thesis using that(2) g NewBlock_rule [OF B k(1)] B by (simp add: blocks_ok_def)
    next
      case new
      have below: "b < ?b" if "b \<in> set (hp_index h)" for b
        using layout_below [of "hp_headers h" "hp_index h"] B that by (auto simp: blocks_ok_def)
      have nw: "?b \<notin> set (hp_index h)" using below by blast
      have ix: "hp_index ?h = hp_index h @ [?b]" "hp_lists ?h = hp_lists h" "hp_stat ?h = hp_stat h"
        by (simp_all add: with_block_def Let_def)
      have old: "hp_headers ?h b = hp_headers h b" if "b \<in> set (hp_index h)" for b
        using below [OF that] by (simp add: with_block_def Let_def)
      have x: "hp_headers ?h ?b = zero_header\<lparr>bh_klass := k, bh_canary := kCanary\<rparr>"
        by (auto simp: with_block_def Let_def BlockSize_def)
      have "live ?h - {?b} = live h" using old nw by (auto simp: live_def ix)
      moreover have "free_blocks j ?h - {?b} = free_blocks j h - {?b}" for j using old nw by (auto simp: free_blocks_def ix)
      moreover have "(\<lambda>j. free_blocks j h - {?b}) = (\<lambda>j. free_blocks j h)" using nw by (auto simp: fun_eq_iff free_blocks_def)
      then have "lists_ok (\<lambda>j. free_blocks j h - {?b}) ?h" using L lists_ok_cong [of ?h h] ix by simp
      moreover have "hp_headers ?h a = hp_headers h a" if "a \<in> live h" for a using old that by (simp add: live_def)
      moreover have "?b \<notin> live h" using nw by (simp add: live_def)
      moreover have "\<exists>u. hp_segment ?h = (hp_segment h)\<lparr>up := u\<rparr>" by (auto simp: with_block_def Let_def)
      ultimately show ?thesis
        using that(3) [of ?b ?h] g new NewBlock_rule [OF B k(1)] with_block_ok [OF B k] x ix(1,3)
        by (simp add: subset_insertI)
    qed
  qed
qed

lemma hp_Allocate_cases:
  assumes ok: "heap_ok h" and n: "n < kAllocSizeLimit"
  obtains "hp_Allocate n ctx h = Inr (0, h)"
  | "hp_Allocate n ctx h = Inl (Panic ''Block index overflow'')" and "length (hp_index h) = kCapacity"
  | b h' where "hp_Allocate n ctx h = Inr (Data b, h')" and "heap_ok h'" and "b \<notin> live h" and "live h' = insert b (live h)"
    and "bh_user_size (hp_headers h' b) = n" and "\<And>a. a \<in> live h \<Longrightarrow> hp_headers h' a = hp_headers h a"
    and "\<exists>u. hp_segment h' = (hp_segment h)\<lparr>up := u\<rparr>"
proof -
  have "n \<le> 2 ^ 31" using n by (simp add: kAllocSizeLimit_def)
  then obtain k where k: "GetSizeClass n = Inr k" "4 \<le> k" "k < kClasses" "n \<le> BlockSize k"
    by (rule GetSizeClass_ok) (simp add: kClasses_def)
  show ?thesis
  proof (rule GetFreeBlock_ok [OF ok k(2,3), of ctx])
    assume "GetFreeBlock k ctx h = Inr (None, h)"
    then show ?thesis using that(1) n k by (simp add: hp_Allocate_def)
  next
    assume "GetFreeBlock k ctx h = Inl (Panic ''Block index overflow'')" and "length (hp_index h) = kCapacity"
    then show ?thesis using that(2) n k by (simp add: hp_Allocate_def)
  next
    fix b h1
    assume g: "GetFreeBlock k ctx h = Inr (Some b, h1)" and B: "blocks_ok h1" and b: "b \<in> set (hp_index h1)"
      and kb: "bh_klass (hp_headers h1 b) = k" and nl: "b \<notin> live h" and lv: "live h1 - {b} = live h"
      and fr: "\<And>j. free_blocks j h1 - {b} = free_blocks j h - {b}" and ls: "lists_ok (\<lambda>j. free_blocks j h - {b}) h1"
      and hd: "\<And>a. a \<in> live h \<Longrightarrow> hp_headers h1 a = hp_headers h a" and st: "hp_stat h1 = hp_stat h"
      and sg: "\<exists>u. hp_segment h1 = (hp_segment h)\<lparr>up := u\<rparr>"
    let ?f = "\<lambda>x. x\<lparr>bh_state := Allocated, bh_service := False, bh_user_size := n, bh_alloc_id := hp_next_id h1 + 1\<rparr>"
    let ?st = "(hp_stat h)\<lparr>alloc_count := alloc_count (hp_stat h) + 1, bytes_allocated := bytes_allocated (hp_stat h) + BlockSize k,
      user_bytes_allocated := user_bytes_allocated (hp_stat h) + n\<rparr>"
    define h' where "h' = h1\<lparr>hp_next_id := hp_next_id h1 + 1, hp_headers := (hp_headers h1)(b := ?f (hp_headers h1 b)), hp_stat := ?st\<rparr>"
    have r: "hp_Allocate n ctx h = Inr (Data b, h')"
      using n k g kb st by (simp add: hp_Allocate_def Let_def set_header_def h'_def block_Size_def)
    have hs: "hp_headers h' b = ?f (hp_headers h1 b)" "\<And>a. a \<noteq> b \<Longrightarrow> hp_headers h' a = hp_headers h1 a" "hp_index h' = hp_index h1"
      "hp_next h' = hp_next h1" "hp_segment h' = hp_segment h1" "hp_lists h' = hp_lists h1" "hp_stat h' = ?st"
      by (simp_all add: h'_def)
    have hb: "header_ok (hp_headers h1 b)" using B b by (auto simp: blocks_ok_def)
    have bn: "b < hp_next h1" using B b layout_below [of "hp_headers h1" "hp_index h1"] by (auto simp: blocks_ok_def)
    have "layout (hp_headers h') (hp_index h1) lo hi = layout (hp_headers h1) (hp_index h1) lo hi" for lo hi
      by (rule layout_cong) (simp add: h'_def)
    moreover have "header_ok (hp_headers h' b)" using hb k kb by (simp add: hs header_ok_def block_Size_def)
    then have "\<forall>a \<in> set (hp_index h1). header_ok (hp_headers h' a)" using B hs(2) by (metis blocks_ok_def)
    ultimately have B': "blocks_ok h'" using B bn by (simp add: blocks_ok_def hs)
    have "live h' = insert b (live h1 - {b})" using b by (auto simp: live_def h'_def)
    then have lv': "live h' = insert b (live h)" by (simp only: lv)
    have "free_blocks j h' = free_blocks j h1 - {b}" for j by (auto simp: free_blocks_def h'_def)
    then have "lists_ok (\<lambda>j. free_blocks j h') h'" using ls fr lists_ok_cong [of h' h1] hs(6) by simp
    moreover have hd': "hp_headers h' a = hp_headers h a" if "a \<in> live h" for a using that nl hd hs(2) by (metis)
    have "stat_ok h'"
      using ok nl kb hd' unfolding heap_ok_def stat_ok_def lv' by (simp add: hs block_Size_def cong: sum.cong)
    moreover have "\<forall>a \<in> live h'. bh_user_size (hp_headers h' a) < kAllocSizeLimit \<and> GetSizeClass (bh_user_size (hp_headers h' a)) = Inr (bh_klass (hp_headers h' a))"
      using ok n k kb hd' unfolding lv' by (auto simp: hs(1) heap_ok_def)
    ultimately have "heap_ok h'" using B' by (simp add: heap_ok_def)
    then show ?thesis using that(3) [OF r] nl lv' hd' sg by (simp add: hs(1,5))
  qed
qed

section \<open>Freeing\<close>

lemma GetFreedBlock_index:
  assumes "blocks_ok h" and "b \<in> set (hp_index h)"
  shows "GetFreedBlock (Data b) h = Inr b"
proof -
  note ok = assms(1) [unfolded blocks_ok_def]
  have b: "IsAligned b" "seg_begin (hp_segment h) \<le> b" "DataEnd b (hp_headers h b) \<le> hp_next h"
    and c: "bh_canary (hp_headers h b) = kCanary"
    using ok assms(2) by (auto simp: layout_def header_ok_def)
  have "IsAligned (Data b)" unfolding Data_def by (intro IsAligned_add b IsAligned_header)
  moreover have "Data b < hp_next h" using Data_less_DataEnd(2) [of b "hp_headers h b"] b by linarith
  ultimately show ?thesis using b c ok
    by (simp add: GetFreedBlock_def FromHere_def Data_def)
qed

lemma Data_not_null [simp]: "Data b \<noteq> 0" "0 < Data b"
  by (simp_all add: Data_def kHeaderSize_def)

lemma Data_inject [simp]: "Data a = Data b \<longleftrightarrow> a = b"
  by (simp add: Data_def)

lemma hp_Free_available:
  assumes "blocks_ok h" and "b \<in> set (hp_index h)" and "bh_state (hp_headers h b) = Available"
  shows "hp_Free (Data b) h = Inl (SysAbortEx MemoryDoubleFree)"
  using assms by (simp add: hp_Free_def GetFreedBlock_index free_block_def)

lemma hp_Free_live:
  assumes ok: "heap_ok h" and b: "b \<in> live h"
  obtains h' where "hp_Free (Data b) h = Inr h'" and "heap_ok h'" and "live h' = live h - {b}"
    and "\<And>a. a \<in> live h \<Longrightarrow> a \<noteq> b \<Longrightarrow> hp_headers h' a = hp_headers h a"
    and "b \<in> free_blocks (bh_klass (hp_headers h b)) h'"
    and "\<exists>u. hp_segment h' = (hp_segment h)\<lparr>up := u\<rparr>"
  | "hp_Free (Data b) h = Inl (Panic ''null block'')"
  | "hp_Free (Data b) h = Inl (Panic ''Block index overflow'')" and "length (hp_index h) = kCapacity"
proof -
  note B = ok [unfolded heap_ok_def, THEN conjunct1]
  let ?x = "hp_headers h b" let ?k = "bh_klass ?x"
  have bi: "b \<in> set (hp_index h)" and bs: "bh_state ?x = Allocated" "\<not> bh_service ?x" using b by (auto simp: live_def)
  have hb: "header_ok ?x" using B bi by (auto simp: blocks_ok_def)
  then have k: "?k < kClasses" by (simp add: header_ok_def)
  let ?st = "(hp_stat h)\<lparr>free_count := free_count (hp_stat h) + 1, user_bytes_freed := user_bytes_freed (hp_stat h) + bh_user_size ?x,
      bytes_freed := bytes_freed (hp_stat h) + block_Size ?x\<rparr>"
  let ?y = "?x\<lparr>bh_state := Available, bh_user_size := 0\<rparr>"
  define h1 where "h1 = h\<lparr>hp_stat := ?st, hp_headers := (hp_headers h)(b := ?y)\<rparr>"
  have r: "hp_Free (Data b) h = list_Push ?k b h1"
    using GetFreedBlock_index [OF B bi] bs k by (simp add: hp_Free_def free_block_def Let_def set_header_def h1_def)
  have hs: "hp_headers h1 b = ?y" "\<And>a. a \<noteq> b \<Longrightarrow> hp_headers h1 a = hp_headers h a" "hp_index h1 = hp_index h" "hp_next h1 = hp_next h"
      "hp_segment h1 = hp_segment h" "hp_lists h1 = hp_lists h" "hp_stat h1 = ?st"
    by (simp_all add: h1_def)
  have bn: "b < hp_next h" using B bi layout_below [of "hp_headers h" "hp_index h"] by (auto simp: blocks_ok_def)
  have "layout (hp_headers h1) (hp_index h) lo hi = layout (hp_headers h) (hp_index h) lo hi" for lo hi
    by (rule layout_cong) (simp add: h1_def)
  moreover have "header_ok (hp_headers h1 b)" using hb bs by (simp add: hs(1) header_ok_def)
  then have "\<forall>a \<in> set (hp_index h). header_ok (hp_headers h1 a)" using B hs(2) by (metis blocks_ok_def)
  ultimately have B1: "blocks_ok h1" using B bn by (simp add: blocks_ok_def hs)
  have lv: "live h1 = live h - {b}" by (auto simp: live_def h1_def)
  have fr: "(\<lambda>j. free_blocks j h)(?k := insert b (free_blocks ?k h)) = (\<lambda>j. free_blocks j h1)"
    using bi bs by (auto simp: fun_eq_iff free_blocks_def h1_def)
  have L: "lists_ok (\<lambda>j. free_blocks j h) h1" using ok lists_ok_cong [OF hs(6)] by (simp add: heap_ok_def)
  have F: "free_blocks ?k h \<subseteq> set (hp_index h1)" "b \<notin> free_blocks ?k h" using bs by (auto simp: free_blocks_def hs(3))
  show ?thesis
  proof (rule list_Push_ok [OF B1 L k F])
    assume "list_Push ?k b h1 = Inl (Panic ''null block'')"
    then show ?thesis using that(2) r by simp
  next
    assume "list_Push ?k b h1 = Inl (Panic ''Block index overflow'')" and "length (hp_index h1) = kCapacity"
    then show ?thesis using that(3) r hs(3) by simp
  next
    fix h'
    assume p: "list_Push ?k b h1 = Inr h'" and g: "grown h1 h'"
      and ls: "lists_ok ((\<lambda>j. free_blocks j h)(?k := insert b (free_blocks ?k h))) h'"
    note G = g [unfolded grown_def]
    have lv': "live h' = live h - {b}" using G lv by simp
    have hd: "hp_headers h' a = hp_headers h a" if "a \<in> live h" "a \<noteq> b" for a
      using that G hs(2) hs(3) by (simp add: live_def)
    have "lists_ok (\<lambda>j. free_blocks j h') h'" using ls G unfolding fr by simp
    moreover have "stat_ok h'"
    proof -
      have s: "stat_ok h" using ok by (simp add: heap_ok_def)
      have c: "card (live h) = card (live h - {b}) + 1" using b by (simp add: card_Suc_Diff1 del: card_Diff_insert)
      have u: "(\<Sum>a \<in> live h. f a) = f b + (\<Sum>a \<in> live h - {b}. f a)" for f :: "addr \<Rightarrow> nat"
        using b by (simp add: sum.remove)
      have e: "(\<Sum>a \<in> live h - {b}. f (hp_headers h' a)) = (\<Sum>a \<in> live h - {b}. f (hp_headers h a))" for f :: "block_header \<Rightarrow> nat"
        using hd by (intro sum.cong) auto
      have "hp_stat h' = ?st" using G hs(7) by simp
      then show ?thesis using s unfolding stat_ok_def lv' by (simp add: e c u del: card_Diff_insert)
    qed
    moreover have "\<forall>a \<in> live h'. bh_user_size (hp_headers h' a) < kAllocSizeLimit \<and> GetSizeClass (bh_user_size (hp_headers h' a)) = Inr (bh_klass (hp_headers h' a))"
      using ok hd unfolding lv' by (auto simp: heap_ok_def)
    ultimately have H: "heap_ok h'" using G by (simp add: heap_ok_def)
    have "b \<in> free_blocks ?k h'" using G fr by (metis fun_upd_same insertI1)
    then show ?thesis using that(1) p r H lv' hd G hs(5) by metis
  qed
qed

text \<open>The block is the next one that its list gives back.\<close>

lemma hp_Free_pushes:
  assumes "blocks_ok h" and "b \<in> set (hp_index h)" and "hp_Free (Data b) h = Inr h'"
  shows "\<exists>xs. fl_blocks (hp_lists h' (bh_klass (hp_headers h b))) = xs @ [b]"
  using assms(3) GetFreedBlock_index [OF assms(1,2)]
  by (auto simp: hp_Free_def free_block_def bindE_eq_Inr list_Push_def Let_def)

text \<open>The null pointer, and a failing call, do not change the heap.\<close>

lemma hp_Free_null [simp]: "hp_Free 0 h = Inr h"
  by (simp add: hp_Free_def)

section \<open>Access\<close>

lemma sorted_lower_bound:
  assumes "sorted_wrt (<) xs"
  shows "set (take (lower_bound xs p) xs) = {b \<in> set xs. b < p}"
proof -
  have "takeWhile (\<lambda>b. b < p) xs = filter (\<lambda>b. b < p) xs"
    using assms by (induction xs) (auto simp: empty_filter_conv)
  moreover have "take (lower_bound xs p) xs = takeWhile (\<lambda>b. b < p) xs" by (simp add: lower_bound_def takeWhile_eq_take [symmetric])
  ultimately show ?thesis by simp
qed

text \<open>The lookup finds the block that an address of the user's data belongs to.\<close>

lemma lower_bound_le: "lower_bound xs p \<le> length xs"
  by (simp add: lower_bound_def length_takeWhile_le)

lemma index_Lookup_ok:
  assumes L: "layout hs xs lo hi" and H: "\<forall>b \<in> set xs. header_ok (hs b)"
  obtains "index_Lookup p hs xs = Inr None" and "\<forall>b \<in> set xs. \<not> (Data b \<le> p \<and> p < UserDataEnd b (hs b))"
  | c where "index_Lookup p hs xs = Inr (Some c)" and "c \<in> set xs" and "Data c \<le> p" and "p < UserDataEnd c (hs c)"
    and "\<forall>b \<in> set xs. Data b \<le> p \<and> p < UserDataEnd b (hs b) \<longrightarrow> b = c"
proof -
  have s: "sorted_wrt (<) xs" by (rule layout_strict [OF L])
  have ue: "UserDataEnd b (hs b) \<le> DataEnd b (hs b)" if "b \<in> set xs" for b
    using H that by (simp add: UserDataEnd_def DataEnd_def header_ok_def)
  have apart: "b = c" if "b \<in> set xs" "c \<in> set xs" "Data b \<le> p" "p < UserDataEnd b (hs b)" "c < p" "b \<le> c" for b c
  proof (rule ccontr)
    assume "b \<noteq> c"
    from layout_disjoint [OF L that(1,2) this] have "DataEnd b (hs b) \<le> c"
      using that(6) Data_less_DataEnd(1) [of c] Data_less_DataEnd(2) [of c "hs c"] by linarith
    then show False using ue [OF that(1)] that(4,5) by linarith
  qed
  consider (low) "xs = [] \<or> p < Data (hd xs)" | (high) "xs \<noteq> []" "p \<ge> Data (hd xs)" "p \<ge> UserDataEnd (last xs) (hs (last xs))"
    | (mid) "xs \<noteq> []" "p \<ge> Data (hd xs)" "p < UserDataEnd (last xs) (hs (last xs))" by linarith
  then show ?thesis
  proof cases
    case low
    have "hd xs \<le> b" if "b \<in> set xs" for b using s that by (cases xs) auto
    then have "\<not> Data b \<le> p" if "b \<in> set xs" for b using low that by (force simp: Data_def)
    then show ?thesis using low by (intro that(1)) (auto simp: index_Lookup_def)
  next
    case high
    have "b \<le> last xs" if "b \<in> set xs" for b
      using s that high(1) by (cases xs rule: rev_cases) (auto simp: sorted_wrt_append)
    moreover have "last xs < p" using high(3) by (simp add: UserDataEnd_def Data_def kHeaderSize_def)
    ultimately have "\<not> (Data b \<le> p \<and> p < UserDataEnd b (hs b))" if "b \<in> set xs" for b
      using apart [of b "last xs"] that high by auto
    then show ?thesis using high by (intro that(1)) (auto simp: index_Lookup_def)
  next
    case mid
    let ?i = "lower_bound xs p"
    have "hd xs < p" using mid(2) by (simp add: Data_def kHeaderSize_def)
    then have i: "?i \<noteq> 0" using mid(1) by (cases xs) (auto simp: lower_bound_def)
    then have il: "?i - 1 < length xs" using lower_bound_le [of xs p] by linarith
    let ?c = "xs ! (?i - 1)"
    have c: "?c \<in> set xs" using il by simp
    have "?c \<in> set (take ?i xs)" using i lower_bound_le [of xs p] by (auto simp: in_set_conv_nth intro: exI [of _ "?i - 1"])
    then have cp: "?c < p" by (simp add: sorted_lower_bound [OF s])
    have top: "b \<le> ?c" if "b \<in> set xs" "b < p" for b
    proof -
      have "b \<in> set (take ?i xs)" using that by (simp add: sorted_lower_bound [OF s])
      then obtain j where j: "b = xs ! j" "j < ?i" "j < length xs" by (auto simp: in_set_conv_nth)
      then have "j < ?i - 1 \<or> j = ?i - 1" by linarith
      then show ?thesis using sorted_wrt_nth_less [OF s, of j "?i - 1"] il j(1) by auto
    qed
    have un: "b = ?c" if "b \<in> set xs" "Data b \<le> p" "p < UserDataEnd b (hs b)" for b
    proof -
      have "b < p" using that(2) by (simp add: Data_def kHeaderSize_def)
      then show ?thesis using apart [of b ?c] that c cp top by blast
    qed
    have r: "index_Lookup p hs xs = Inr (if p \<ge> Data ?c \<and> p < UserDataEnd ?c (hs ?c) then Some ?c else None)"
      using mid i by (simp add: index_Lookup_def Let_def)
    show ?thesis
    proof (cases "p \<ge> Data ?c \<and> p < UserDataEnd ?c (hs ?c)")
      case True
      then have sm: "index_Lookup p hs xs = Inr (Some ?c)" using r by (simp only: if_True simp_thms)
      have "\<forall>b \<in> set xs. Data b \<le> p \<and> p < UserDataEnd b (hs b) \<longrightarrow> b = ?c" using un by blast
      then show ?thesis using True by (intro that(2) [OF sm c]) (blast, blast, assumption)
    next
      case False
      have n: "index_Lookup p hs xs = Inr None" using r False by (simp only: if_False)
      have "\<not> (Data b \<le> p \<and> p < UserDataEnd b (hs b))" if b: "b \<in> set xs" for b
      proof (rule notI)
        assume "Data b \<le> p \<and> p < UserDataEnd b (hs b)"
        with un [OF b] False show False by metis
      qed
      then show ?thesis by (intro that(1) [OF n] ballI)
    qed
  qed
qed

lemma hp_Access_ok:
  assumes ok: "heap_ok h"
  shows "hp_Access p n h = Inr (\<exists>b \<in> live h. Data b \<le> p \<and> p < UserDataEnd b (hp_headers h b) \<and> p + n \<le> UserDataEnd b (hp_headers h b))"
proof -
  let ?hs = "hp_headers h" and ?xs = "hp_index h"
  have L: "layout ?hs ?xs (seg_begin (hp_segment h)) (hp_next h)" and H: "\<forall>b \<in> set ?xs. header_ok (?hs b)"
    using ok by (auto simp: heap_ok_def blocks_ok_def)
  show ?thesis
  proof (rule index_Lookup_ok [OF L H, of p])
    assume "index_Lookup p ?hs ?xs = Inr None" and none: "\<forall>b \<in> set ?xs. \<not> (Data b \<le> p \<and> p < UserDataEnd b (?hs b))"
    then have "hp_Access p n h = Inr False" by (simp add: hp_Access_def brk_Lookup_def)
    moreover have "\<not> (\<exists>b \<in> live h. Data b \<le> p \<and> p < UserDataEnd b (?hs b) \<and> p + n \<le> UserDataEnd b (?hs b))"
      using none by (auto simp: live_def)
    ultimately show ?thesis by simp
  next
    fix c
    assume r: "index_Lookup p ?hs ?xs = Inr (Some c)" and c: "c \<in> set ?xs" "Data c \<le> p" "p < UserDataEnd c (?hs c)"
      and un: "\<forall>b \<in> set ?xs. Data b \<le> p \<and> p < UserDataEnd b (?hs b) \<longrightarrow> b = c"
    have "header_ok (?hs c)" using H c by blast
    moreover have "bh_user_size (?hs c) \<noteq> 0" using c by (simp add: UserDataEnd_def)
    ultimately have "\<not> bh_service (?hs c)" by (simp add: header_ok_def)
    then have e: "bh_state (?hs c) = Allocated \<longleftrightarrow> c \<in> live h" using c by (simp add: live_def)
    have "b = c" if "b \<in> live h" "Data b \<le> p" "p < UserDataEnd b (?hs b)" for b using un that by (auto simp: live_def)
    then have "(\<exists>b \<in> live h. Data b \<le> p \<and> p < UserDataEnd b (?hs b) \<and> p + n \<le> UserDataEnd b (?hs b)) \<longleftrightarrow>
        c \<in> live h \<and> p + n \<le> UserDataEnd c (?hs c)" using c by blast
    moreover have "hp_Access p n h = Inr (c \<in> live h \<and> p + n \<le> UserDataEnd c (?hs c))"
      using r by (simp add: hp_Access_def brk_Lookup_def e)
    ultimately show ?thesis by simp
  qed
qed

section \<open>An empty heap\<close>

lemma hp_Reset_ok:
  assumes s: "seg_ok (hp_segment h)" and "hp_Reset h = Inr h'"
  shows "heap_ok h'" and "live h' = {}" and "\<exists>u. hp_segment h' = (hp_segment h)\<lparr>up := u\<rparr>" and "free_blocks k h' = {}"
proof -
  let ?s = "hp_segment h"
  obtain u where h': "hp_index h' = []" "hp_headers h' (hp_next h') = zero_header" "IsAligned (hp_next h')"
      "hp_segment h' = ?s\<lparr>up := u\<rparr>" "hp_next h' = u" "seg_begin ?s \<le> u" "u \<le> down ?s"
      "\<And>k. k < kClasses \<Longrightarrow> hp_lists h' k = empty_list" "hp_stat h' = zero_stat"
  proof -
    let ?a = "Align (up ?s)" let ?u = "Align (?a + kSizeBytes)"
    have a: "up ?s \<le> ?a" "?a + kSizeBytes \<le> ?u" using Align_ge by auto
    obtain h1 where r: "brk_Reset h = Inr h1"
      and h': "h' = h1\<lparr>hp_lists := (\<lambda>k. if k < kClasses then empty_list else hp_lists h1 k), hp_next_id := 0, hp_stat := zero_stat\<rparr>"
      using assms(2) by (auto simp: hp_Reset_def bindE_eq_Inr)
    from r have "?a \<le> down ?s \<and> ?u \<le> down ?s \<and>
        h1 = h\<lparr>hp_segment := ?s\<lparr>up := ?u\<rparr>, hp_index := [], hp_next := ?u, hp_headers := (hp_headers h)(?u := zero_header)\<rparr>"
      using a s
      by (auto simp: brk_Reset_def bindE_eq_Inr TrySetUp_def TryUp_def Let_def SpaceLeft_def set_header_def seg_ok_def
          split: if_splits prod.splits option.splits)
    then show ?thesis using that [of ?u] a s unfolding h' by (auto simp: seg_ok_def)
  qed
  show "live h' = {}" "free_blocks k h' = {}" for k by (simp_all add: live_def free_blocks_def h'(1))
  show "\<exists>u. hp_segment h' = ?s\<lparr>up := u\<rparr>" using h'(4) by blast
  have "blocks_ok h'" using h' s by (simp add: blocks_ok_def layout_def seg_ok_def kCapacity_def)
  moreover have "lists_ok (\<lambda>k. free_blocks k h') h'" using h' by (simp add: lists_ok_def free_blocks_def empty_list_def)
  moreover have "stat_ok h'" using h' by (simp add: stat_ok_def live_def zero_stat_def)
  ultimately show "heap_ok h'" by (simp add: heap_ok_def live_def h'(1))
qed

end
