(* ===== verification/User_Memory.thy ===== *)
theory User_Memory
  imports Heap_Inv
begin

text \<open>
  The isolated memory of the program under test (\<open>rt/sim/system/memory/isolated/memory.cpp\<close>): the arena
  is split into the segment of the static variables and the shared segment, whose lower end is the heap
  and whose upper end are the stacks. The shared segment is the \<open>hp_segment\<close> of the heap's record; the
  pointer \<open>heap_\<close> is the flag \<open>mm_ready\<close>. The mapping of the arena by the operating system, and the
  allocator's own size, are parameters.
\<close>

section \<open>The memory\<close>

record memory =
  mm_randomize :: bool
  mm_heap :: heap
  mm_ready :: bool
  mm_stacks :: stack_allocator
  mm_statics :: statics_allocator

definition kStaticSegmentSize :: nat where
  "kStaticSegmentSize = 64 * 1024"

definition kTooSmall :: nat where
  "kTooSmall = 1024 * 1024"

definition kDefaultStackSize :: nat where
  "kDefaultStackSize = 2 * 1024 * 1024"

text \<open>\<open>SegmentManager\<close>: the static and the dynamic segment of an arena of \<open>n\<close> bytes at \<open>b\<close>.\<close>

definition new_segments :: "addr \<Rightarrow> nat \<Rightarrow> fault + (addr \<times> nat) \<times> shared_segment" where
  "new_segments b n =
     bindE (verify (n > kTooSmall) (Panic ''Memory arena is too small for simulation'')) (\<lambda>_.
     Inr ((b, kStaticSegmentSize), new_segment (b + kStaticSegmentSize) (n - kStaticSegmentSize)))"

definition new_statics :: "addr \<Rightarrow> nat \<Rightarrow> statics_allocator" where
  "new_statics b n = statics_Reset \<lparr>st_begin = b, st_end = b + n, st_next = 0\<rparr>"

text \<open>The heap before \<open>InitMalloc\<close>: nothing of it is read, the segment apart.\<close>

definition raw_heap :: "shared_segment \<Rightarrow> heap" where
  "raw_heap s = \<lparr>hp_segment = s, hp_headers = (\<lambda>_. zero_header), hp_index = [], hp_next = 0, hp_lists = (\<lambda>_. empty_list),
     hp_next_id = 0, hp_stat = zero_stat\<rparr>"

definition new_memory :: "params \<Rightarrow> addr \<Rightarrow> nat \<Rightarrow> fault + memory" where
  "new_memory p b n =
     bindE (new_segments b n) (\<lambda>((sb, sn), dynamic).
     Inr \<lparr>mm_randomize = p_randomize_malloc p, mm_heap = raw_heap dynamic, mm_ready = False,
          mm_stacks = new_stack_allocator kDefaultStackSize, mm_statics = new_statics sb sn\<rparr>)"

definition mem_Reset :: "memory \<Rightarrow> memory" where
  "mem_Reset m = m\<lparr>mm_stacks := HardReset (mm_stacks m), mm_ready := False\<rparr>"

definition mem_Burn :: "memory \<Rightarrow> memory" where
  "mem_Burn m =
     m\<lparr>mm_heap := (mm_heap m)\<lparr>hp_segment := seg_Reset (hp_segment (mm_heap m))\<rparr>,
       mm_stacks := HardReset (mm_stacks m), mm_ready := False\<rparr>"

section \<open>The heap\<close>

text \<open>The loop starts at 16, so that the size is not zero.\<close>

function boot_block_loop :: "nat \<Rightarrow> nat \<Rightarrow> nat" where
  "boot_block_loop boot_block_size n =
     (if boot_block_size \<noteq> 0 \<and> boot_block_size < n then boot_block_loop (boot_block_size * 2) n else boot_block_size)"
  by pat_completeness auto
termination by (relation "measure (\<lambda>(b, n). n - b)") auto

declare boot_block_loop.simps [simp del]

definition AllocateBootBlock :: "nat \<Rightarrow> shared_segment \<Rightarrow> fault + addr \<times> shared_segment" where
  "AllocateBootBlock n s =
     (let boot_block_start = Align (up s); boot_block_size = boot_block_loop 16 n
      in bindE (TrySetUp (boot_block_start + boot_block_size) s) (\<lambda>(fits, s1).
         if \<not> fits then Inl (Panic ''Cannot bootstrap malloc allocator'') else Inr (boot_block_start, s1)))"

text \<open>The constructor of \<open>BrkAllocator\<close> resets it, and \<open>heap_->Reset()\<close> does so again.\<close>

definition InitMalloc :: "nat \<Rightarrow> memory \<Rightarrow> fault + memory" where
  "InitMalloc allocator_size m =
     bindE (AllocateBootBlock allocator_size (hp_segment (mm_heap m))) (\<lambda>(boot_block, s).
     bindE (brk_Reset ((mm_heap m)\<lparr>hp_segment := s\<rparr>)) (\<lambda>h1.
     bindE (hp_Reset h1) (\<lambda>h2.
     Inr (m\<lparr>mm_heap := h2, mm_ready := True\<rparr>))))"

text \<open>Before \<open>InitMalloc\<close> the calls would go through a null pointer.\<close>

definition with_heap :: "memory \<Rightarrow> (heap \<Rightarrow> fault + 'a) \<Rightarrow> fault + 'a" where
  "with_heap m f = bindE (verify (mm_ready m) (Panic ''null heap'')) (\<lambda>_. f (mm_heap m))"

definition HeapAllocContext :: "u64 \<Rightarrow> memory \<Rightarrow> u64 option" where
  "HeapAllocContext r m = (if mm_randomize m then Some r else None)"

definition mem_Malloc :: "nat \<Rightarrow> u64 \<Rightarrow> memory \<Rightarrow> fault + addr \<times> memory" where
  "mem_Malloc n r m =
     with_heap m (\<lambda>h. bindE (hp_Allocate n (HeapAllocContext r m) h) (\<lambda>(p, h1).
       bindE (verify (p \<noteq> 0) (Panic ''Heap overflow'')) (\<lambda>_. Inr (p, m\<lparr>mm_heap := h1\<rparr>))))"

definition mem_Free :: "addr \<Rightarrow> memory \<Rightarrow> fault + memory" where
  "mem_Free p m = with_heap m (\<lambda>h. bindE (hp_Free p h) (\<lambda>h1. Inr (m\<lparr>mm_heap := h1\<rparr>)))"

definition mem_Access :: "addr \<Rightarrow> nat \<Rightarrow> memory \<Rightarrow> fault + bool" where
  "mem_Access p n m = with_heap m (\<lambda>h. hp_Access p n h)"

definition HeapStat :: "memory \<Rightarrow> fault + alloc_stat" where
  "HeapStat m = with_heap m (\<lambda>h. Inr (hp_stat h))"

section \<open>Stacks and static variables\<close>

definition SetMinStackSize :: "nat \<Rightarrow> memory \<Rightarrow> memory" where
  "SetMinStackSize n m = m\<lparr>mm_stacks := stacks_SetMinStackSize n (mm_stacks m)\<rparr>"

definition AllocateStack :: "memory \<Rightarrow> fault + (addr \<times> nat) \<times> memory" where
  "AllocateStack m =
     (case stack_Allocate (mm_stacks m) (hp_segment (mm_heap m)) of
        (Some st, a, s) \<Rightarrow> Inr (st, m\<lparr>mm_stacks := a, mm_heap := (mm_heap m)\<lparr>hp_segment := s\<rparr>\<rparr>)
      | (None, a, s) \<Rightarrow> Inl (Panic ''Stack memory overflow''))"

definition FreeStack :: "addr \<times> nat \<Rightarrow> memory \<Rightarrow> memory" where
  "FreeStack st m = m\<lparr>mm_stacks := stack_Free st (mm_stacks m)\<rparr>"

definition AllocateStatic :: "nat \<Rightarrow> memory \<Rightarrow> fault + addr \<times> memory" where
  "AllocateStatic n m =
     (case statics_Allocate n (mm_statics m) of
        (Some p, a) \<Rightarrow> Inr (p, m\<lparr>mm_statics := a\<rparr>)
      | (None, a) \<Rightarrow> Inl (Panic ''Static segment overflow''))"

definition DeallocateStatics :: "memory \<Rightarrow> memory" where
  "DeallocateStatics m = m\<lparr>mm_statics := statics_Reset (mm_statics m)\<rparr>"

section \<open>What a program has of the memory\<close>

text \<open>The blocks it holds, as a map from the addresses that \<open>mem_Malloc\<close> returned to the sizes asked for.\<close>

definition allocations :: "memory \<Rightarrow> addr \<rightharpoonup> nat" where
  "allocations m p =
     (if mm_ready m \<and> kHeaderSize \<le> p \<and> p - kHeaderSize \<in> live (mm_heap m)
      then Some (bh_user_size (hp_headers (mm_heap m) (p - kHeaderSize))) else None)"

definition freed :: "memory \<Rightarrow> addr set" where
  "freed m = (if mm_ready m then Data ` {b \<in> set (hp_index (mm_heap m)). bh_state (hp_headers (mm_heap m) b) = Available} else {})"

lemma allocations_live:
  "allocations m p = Some n \<longleftrightarrow>
     mm_ready m \<and> (\<exists>b \<in> live (mm_heap m). p = Data b \<and> n = bh_user_size (hp_headers (mm_heap m) b))"
  by (auto simp: allocations_def Data_def intro!: bexI [of _ "p - kHeaderSize"])

lemma allocations_Data:
  "mm_ready m \<Longrightarrow> allocations m (Data b) = (if b \<in> live (mm_heap m) then Some (bh_user_size (hp_headers (mm_heap m) b)) else None)"
  by (simp add: allocations_def Data_def)

lemma dom_allocations: "dom (allocations m) = (if mm_ready m then Data ` live (mm_heap m) else {})"
  by (auto simp: dom_def allocations_live)

lemma allocations_cong:
  assumes "mm_ready m' = mm_ready m" and "hp_index (mm_heap m') = hp_index (mm_heap m)"
    and "hp_headers (mm_heap m') = hp_headers (mm_heap m)"
  shows "allocations m' = allocations m"
  using assms by (auto simp: fun_eq_iff allocations_def live_def)

text \<open>Two ranges of addresses that do not meet.\<close>

definition apart :: "addr \<Rightarrow> nat \<Rightarrow> addr \<Rightarrow> nat \<Rightarrow> bool" where
  "apart p n q k \<longleftrightarrow> p + n \<le> q \<or> q + k \<le> p"

section \<open>The invariant\<close>

definition stacks_ok :: "addr set \<Rightarrow> memory \<Rightarrow> bool" where
  "stacks_ok used m \<longleftrightarrow>
     (let s = hp_segment (mm_heap m); k = stack_size (mm_stacks m); all = set (pool (mm_stacks m)) \<union> used
      in kMinStackSize \<le> k \<and> distinct (pool (mm_stacks m)) \<and> set (pool (mm_stacks m)) \<inter> used = {} \<and>
         (\<forall>p \<in> all. down s \<le> p \<and> p + k \<le> seg_end s) \<and> (\<forall>p \<in> all. \<forall>q \<in> all. p \<noteq> q \<longrightarrow> apart p k q k))"

definition statics_ok :: "memory \<Rightarrow> bool" where
  "statics_ok m \<longleftrightarrow> st_begin (mm_statics m) \<le> st_next (mm_statics m) \<and> IsAligned (st_next (mm_statics m)) \<and>
     st_end (mm_statics m) \<le> seg_begin (hp_segment (mm_heap m))"

definition mem_ok :: "addr set \<Rightarrow> memory \<Rightarrow> bool" where
  "mem_ok used m \<longleftrightarrow> seg_ok (hp_segment (mm_heap m)) \<and> (mm_ready m \<longrightarrow> heap_ok (mm_heap m)) \<and> stacks_ok used m \<and> statics_ok m"

text \<open>
  The runs of the memory: \<open>used\<close> are the stacks handed out and not given back. The stack size is set
  when there are no stacks, and \<open>InitMalloc\<close> is called once between two resets.
\<close>

inductive mem_run :: "addr set \<Rightarrow> memory \<Rightarrow> bool" where
  run_new: "0 < b \<Longrightarrow> new_memory p b n = Inr m \<Longrightarrow> mem_run {} m"
| run_reset: "mem_run used m \<Longrightarrow> mem_run {} (mem_Reset m)"
| run_burn: "mem_run used m \<Longrightarrow> mem_run {} (mem_Burn m)"
| run_min_size: "mem_run {} m \<Longrightarrow> pool (mm_stacks m) = [] \<Longrightarrow> mem_run {} (SetMinStackSize n m)"
| run_init: "mem_run used m \<Longrightarrow> \<not> mm_ready m \<Longrightarrow> InitMalloc n m = Inr m' \<Longrightarrow> mem_run used m'"
| run_malloc: "mem_run used m \<Longrightarrow> mem_Malloc n r m = Inr (p, m') \<Longrightarrow> mem_run used m'"
| run_free: "mem_run used m \<Longrightarrow> p \<in> insert 0 (dom (allocations m) \<union> freed m) \<Longrightarrow> mem_Free p m = Inr m' \<Longrightarrow> mem_run used m'"
| run_stack: "mem_run used m \<Longrightarrow> AllocateStack m = Inr ((p, n), m') \<Longrightarrow> mem_run (insert p used) m'"
| run_free_stack: "mem_run used m \<Longrightarrow> p \<in> used \<Longrightarrow> mem_run (used - {p}) (FreeStack (p, n) m)"
| run_static: "mem_run used m \<Longrightarrow> AllocateStatic n m = Inr (p, m') \<Longrightarrow> mem_run used m'"
| run_statics: "mem_run used m \<Longrightarrow> mem_run used (DeallocateStatics m)"

end
