(* ===== verification/Memory_Inv.thy ===== *)
theory Memory_Inv
  imports User_Memory
begin

text \<open>
  The invariant of the isolated memory, kept by every run, and the rules of its operations over the map
  of the blocks that the program holds.
\<close>

section \<open>The parts do not disturb each other\<close>

lemma blocks_ok_segment:
  "blocks_ok h \<Longrightarrow> seg_ok s \<Longrightarrow> up s = up (hp_segment h) \<Longrightarrow> seg_begin s = seg_begin (hp_segment h) \<Longrightarrow>
     blocks_ok (h\<lparr>hp_segment := s\<rparr>)"
  by (simp add: blocks_ok_def)

lemma heap_ok_segment:
  "heap_ok h \<Longrightarrow> seg_ok s \<Longrightarrow> up s = up (hp_segment h) \<Longrightarrow> seg_begin s = seg_begin (hp_segment h) \<Longrightarrow>
     heap_ok (h\<lparr>hp_segment := s\<rparr>)"
  using blocks_ok_segment [of h s]
  by (simp add: heap_ok_def live_def free_blocks_def lists_ok_def stat_ok_def)

lemma heap_ok_seg: "heap_ok h \<Longrightarrow> seg_ok (hp_segment h)"
  by (simp add: heap_ok_def blocks_ok_def)

text \<open>The heap may move its end of the segment.\<close>

lemma mem_ok_heap:
  assumes "mem_ok used m" and "heap_ok h'" and "\<exists>u. hp_segment h' = (hp_segment (mm_heap m))\<lparr>up := u\<rparr>"
  shows "mem_ok used (m\<lparr>mm_heap := h', mm_ready := True\<rparr>)" and "mem_ok used (m\<lparr>mm_heap := h'\<rparr>)"
  using assms heap_ok_seg [of h'] by (auto simp: mem_ok_def stacks_ok_def statics_ok_def Let_def)

lemma TryDown_cases:
  obtains "TryDown n s = (None, s)" | "TryDown n s = (Some (down s - n), s\<lparr>down := down s - n\<rparr>)" and "n \<le> SpaceLeft s"
proof (cases "SpaceLeft s < n")
  case True
  then show ?thesis using that(1) by (simp add: TryDown_def)
next
  case False
  then show ?thesis using that(2) by (simp add: TryDown_def)
qed

lemma mem_ok_AllocateStack:
  assumes ok: "mem_ok used m" and r: "AllocateStack m = Inr ((p, n), m')"
  shows "mem_ok (insert p used) m' \<and> p \<notin> used \<and> n = stack_size (mm_stacks m') \<and> allocations m' = allocations m"
proof -
  let ?s = "hp_segment (mm_heap m)" and ?k = "stack_size (mm_stacks m)" and ?a = "mm_stacks m"
  have k: "stacks_ok used m" "seg_ok ?s" and h: "mm_ready m \<longrightarrow> heap_ok (mm_heap m)" and st: "statics_ok m"
    using ok by (auto simp: mem_ok_def)
  have k0: "?k \<noteq> 0" using k(1) by (auto simp: stacks_ok_def Let_def kMinStackSize_def)
  show ?thesis
  proof (cases "pool ?a")
    case (Cons q rest)
    then have m': "m' = m\<lparr>mm_stacks := ?a\<lparr>pool := rest\<rparr>, mm_heap := (mm_heap m)\<lparr>hp_segment := ?s\<rparr>\<rparr>" and p: "p = q" "n = ?k"
      using r by (auto simp: AllocateStack_def stack_Allocate_def)
    have "stacks_ok (insert p used) m'" "p \<notin> used"
      using k(1) Cons by (auto simp: stacks_ok_def Let_def m' p)
    moreover have "allocations m' = allocations m" by (rule allocations_cong) (simp_all add: m')
    ultimately show ?thesis using h k st p by (simp add: mem_ok_def m' statics_ok_def)
  next
    case Nil
    show ?thesis
    proof (cases rule: TryDown_cases [of ?k ?s])
      case 1
      then show ?thesis using r Nil by (simp add: AllocateStack_def stack_Allocate_def)
    next
      case 2
      let ?s' = "?s\<lparr>down := down ?s - ?k\<rparr>"
      have m': "m' = m\<lparr>mm_heap := (mm_heap m)\<lparr>hp_segment := ?s'\<rparr>\<rparr>" and p: "p = down ?s - ?k" "n = ?k"
        using r Nil 2 by (auto simp: AllocateStack_def stack_Allocate_def)
      have d: "up ?s + ?k \<le> down ?s" using 2(2) k(2) k0 by (auto simp: SpaceLeft_def seg_ok_def)
      then have s': "seg_ok ?s'" using k(2) by (auto simp: seg_ok_def)
      have old: "down ?s \<le> q" if "q \<in> used" for q using k(1) that by (auto simp: stacks_ok_def Let_def)
      have nu: "p \<notin> used" using old [of p] p d k0 by auto
      have "stacks_ok (insert p used) m'"
        using k d Nil by (auto simp: stacks_ok_def Let_def m' p apart_def seg_ok_def dest!: old)
      moreover have "mm_ready m \<longrightarrow> heap_ok ((mm_heap m)\<lparr>hp_segment := ?s'\<rparr>)"
        using h s' by (auto intro!: heap_ok_segment)
      moreover have "allocations m' = allocations m" by (rule allocations_cong) (simp_all add: m')
      ultimately show ?thesis using s' st nu p by (simp add: mem_ok_def m' statics_ok_def)
    qed
  qed
qed

lemma mem_ok_FreeStack:
  assumes "mem_ok used m" and "p \<in> used"
  shows "mem_ok (used - {p}) (FreeStack (p, n) m)"
  using assms by (auto simp: mem_ok_def FreeStack_def stack_Free_def stacks_ok_def statics_ok_def Let_def)

lemma statics_Allocate_ok:
  assumes "statics_Allocate n a = (Some p, a')"
  shows "p = st_next a" "p + n \<le> st_end a" "p + n \<le> st_next a'" "IsAligned (st_next a')" "st_begin a' = st_begin a" "st_end a' = st_end a"
  using assms Align_ge [of "st_next a + n"]
  by (auto simp: statics_Allocate_def Overflow_def statics_SpaceLeft_def split: if_splits)

section \<open>Blocks for the program\<close>

lemma Malloc_cases:
  assumes ok: "mem_ok used m" "mm_ready m" and n: "n < kAllocSizeLimit"
  obtains "mem_Malloc n r m = Inl (Panic ''Heap overflow'')"
  | "mem_Malloc n r m = Inl (Panic ''Block index overflow'')" and "length (hp_index (mm_heap m)) = kCapacity"
  | b h' where "mem_Malloc n r m = Inr (Data b, m\<lparr>mm_heap := h'\<rparr>)" and "mem_ok used (m\<lparr>mm_heap := h'\<rparr>)" and "b \<notin> live (mm_heap m)"
    and "live h' = insert b (live (mm_heap m))" and "bh_user_size (hp_headers h' b) = n"
    and "\<And>a. a \<in> live (mm_heap m) \<Longrightarrow> hp_headers h' a = hp_headers (mm_heap m) a"
proof -
  have h: "heap_ok (mm_heap m)" using ok by (simp add: mem_ok_def)
  show ?thesis
  proof (rule hp_Allocate_cases [OF h n, of "HeapAllocContext r m"])
    assume "hp_Allocate n (HeapAllocContext r m) (mm_heap m) = Inr (0, mm_heap m)"
    then show ?thesis using that(1) ok by (simp add: mem_Malloc_def with_heap_def)
  next
    assume "hp_Allocate n (HeapAllocContext r m) (mm_heap m) = Inl (Panic ''Block index overflow'')"
      and "length (hp_index (mm_heap m)) = kCapacity"
    then show ?thesis using that(2) ok by (simp add: mem_Malloc_def with_heap_def)
  next
    fix b h'
    assume a: "hp_Allocate n (HeapAllocContext r m) (mm_heap m) = Inr (Data b, h')" "heap_ok h'"
      and l: "b \<notin> live (mm_heap m)" "live h' = insert b (live (mm_heap m))" "bh_user_size (hp_headers h' b) = n"
        "\<And>a. a \<in> live (mm_heap m) \<Longrightarrow> hp_headers h' a = hp_headers (mm_heap m) a"
      and s: "\<exists>u. hp_segment h' = (hp_segment (mm_heap m))\<lparr>up := u\<rparr>"
    have "mem_Malloc n r m = Inr (Data b, m\<lparr>mm_heap := h'\<rparr>)" using a ok by (simp add: mem_Malloc_def with_heap_def)
    then show ?thesis using that(3) mem_ok_heap(2) [OF ok(1) a(2) s] l by blast
  qed
qed

lemma Malloc_large: "mm_ready m \<Longrightarrow> \<not> n < kAllocSizeLimit \<Longrightarrow> mem_Malloc n r m = Inl (SysAbortEx LibraryAssert)"
  by (simp add: mem_Malloc_def with_heap_def hp_Allocate_def)

lemma Free_cases:
  assumes ok: "mem_ok used m" "mm_ready m" and b: "b \<in> live (mm_heap m)"
  obtains h' where "mem_Free (Data b) m = Inr (m\<lparr>mm_heap := h'\<rparr>)" and "mem_ok used (m\<lparr>mm_heap := h'\<rparr>)" and "live h' = live (mm_heap m) - {b}"
    and "\<And>a. a \<in> live (mm_heap m) \<Longrightarrow> a \<noteq> b \<Longrightarrow> hp_headers h' a = hp_headers (mm_heap m) a"
    and "b \<in> free_blocks (bh_klass (hp_headers (mm_heap m) b)) h'"
  | "mem_Free (Data b) m = Inl (Panic ''null block'')"
  | "mem_Free (Data b) m = Inl (Panic ''Block index overflow'')" and "length (hp_index (mm_heap m)) = kCapacity"
proof -
  have h: "heap_ok (mm_heap m)" using ok by (simp add: mem_ok_def)
  show ?thesis
  proof (rule hp_Free_live [OF h b])
    fix h'
    assume f: "hp_Free (Data b) (mm_heap m) = Inr h'" "heap_ok h'" and l: "live h' = live (mm_heap m) - {b}"
        "\<And>a. a \<in> live (mm_heap m) \<Longrightarrow> a \<noteq> b \<Longrightarrow> hp_headers h' a = hp_headers (mm_heap m) a"
        "b \<in> free_blocks (bh_klass (hp_headers (mm_heap m) b)) h'"
      and s: "\<exists>u. hp_segment h' = (hp_segment (mm_heap m))\<lparr>up := u\<rparr>"
    have "mem_Free (Data b) m = Inr (m\<lparr>mm_heap := h'\<rparr>)" using f ok by (simp add: mem_Free_def with_heap_def)
    then show ?thesis using that(1) mem_ok_heap(2) [OF ok(1) f(2) s] l by blast
  next
    assume "hp_Free (Data b) (mm_heap m) = Inl (Panic ''null block'')"
    then show ?thesis using that(2) ok by (simp add: mem_Free_def with_heap_def)
  next
    assume "hp_Free (Data b) (mm_heap m) = Inl (Panic ''Block index overflow'')" and "length (hp_index (mm_heap m)) = kCapacity"
    then show ?thesis using that(3) ok by (simp add: mem_Free_def with_heap_def)
  qed
qed

lemma Free_freed:
  assumes "mem_ok used m" and "p \<in> freed m"
  shows "mem_Free p m = Inl (SysAbortEx MemoryDoubleFree)"
proof -
  obtain b where "mm_ready m" and b: "p = Data b" "b \<in> set (hp_index (mm_heap m))" "bh_state (hp_headers (mm_heap m) b) = Available"
    using assms(2) by (auto simp: freed_def split: if_splits)
  moreover have "blocks_ok (mm_heap m)" using assms(1) \<open>mm_ready m\<close> by (simp add: mem_ok_def heap_ok_def)
  ultimately show ?thesis by (simp add: mem_Free_def with_heap_def hp_Free_available)
qed

section \<open>Every run keeps the invariant\<close>

lemma InitMalloc_ok:
  assumes ok: "mem_ok used m" and r: "InitMalloc n m = Inr m'"
  shows "mem_ok used m' \<and> mm_ready m' \<and> live (mm_heap m') = {}"
proof -
  let ?s = "hp_segment (mm_heap m)"
  have s: "seg_ok ?s" using ok by (simp add: mem_ok_def)
  obtain bb s1 h1 h2 where st: "AllocateBootBlock n ?s = Inr (bb, s1)" "brk_Reset ((mm_heap m)\<lparr>hp_segment := s1\<rparr>) = Inr h1"
      "hp_Reset h1 = Inr h2" "m' = m\<lparr>mm_heap := h2, mm_ready := True\<rparr>"
    using r by (auto simp: InitMalloc_def bindE_eq_Inr)
  have s1: "seg_ok s1 \<and> (\<exists>u. s1 = ?s\<lparr>up := u\<rparr>)"
    using st(1) s unfolding AllocateBootBlock_def Let_def TrySetUp_def TryUp_def SpaceLeft_def seg_ok_def
    by (auto simp: bindE_eq_Inr split: if_splits)
  have s2: "seg_ok (hp_segment h1) \<and> (\<exists>u. hp_segment h1 = s1\<lparr>up := u\<rparr>)"
  proof -
    have "hp_Reset ((mm_heap m)\<lparr>hp_segment := s1\<rparr>) = Inr (h1\<lparr>hp_lists := (\<lambda>k. if k < kClasses then empty_list else hp_lists h1 k), hp_next_id := 0, hp_stat := zero_stat\<rparr>)"
      by (simp add: hp_Reset_def st(2))
    from hp_Reset_ok(1,3) [OF _ this] s1 show ?thesis by (auto dest: heap_ok_seg)
  qed
  have h2: "heap_ok h2" "live h2 = {}" "\<exists>u. hp_segment h2 = (hp_segment h1)\<lparr>up := u\<rparr>"
    using hp_Reset_ok(1,2,3) [OF _ st(3)] s2 by auto
  have "\<exists>u. hp_segment h2 = ?s\<lparr>up := u\<rparr>" using s1 s2 h2(3) by auto
  then show ?thesis using mem_ok_heap(1) [OF ok h2(1)] st(4) h2(2) by simp
qed

lemma new_memory_ok: "0 < b \<Longrightarrow> new_memory p b n = Inr m \<Longrightarrow> mem_ok {} m"
  using Align_ge [of b]
  by (auto simp: new_memory_def new_segments_def bindE_eq_Inr mem_ok_def new_segment_def seg_Reset_def raw_heap_def seg_ok_def
      stacks_ok_def new_stack_allocator_def ChooseStackSize_def statics_ok_def new_statics_def statics_Reset_def Let_def)

lemma mem_run_ok: "mem_run used m \<Longrightarrow> mem_ok used m"
proof (induction rule: mem_run.induct)
  case (run_new b p n m)
  then show ?case by (rule new_memory_ok)
next
  case (run_reset used m)
  then show ?case
    by (simp add: mem_ok_def mem_Reset_def HardReset_def stacks_ok_def statics_ok_def Let_def)
next
  case (run_burn used m)
  then show ?case
    by (auto simp: mem_ok_def mem_Burn_def seg_Reset_def seg_ok_def HardReset_def stacks_ok_def statics_ok_def Let_def)
next
  case (run_min_size m n)
  then show ?case
    by (simp add: mem_ok_def SetMinStackSize_def stacks_SetMinStackSize_def ChooseStackSize_def stacks_ok_def statics_ok_def Let_def)
next
  case (run_init used m n m')
  then show ?case using InitMalloc_ok by blast
next
  case (run_malloc used m n r p m')
  have rd: "mm_ready m" and n: "n < kAllocSizeLimit"
    using run_malloc.hyps(2) by (auto simp: mem_Malloc_def with_heap_def hp_Allocate_def bindE_eq_Inr)
  show ?case
    by (rule Malloc_cases [OF run_malloc.IH rd n, of r]) (use run_malloc.hyps(2) in auto)
next
  case (run_free used m p m')
  have rd: "mm_ready m" using run_free.hyps(3) by (auto simp: mem_Free_def with_heap_def bindE_eq_Inr)
  consider "p = 0" | b where "p = Data b" "b \<in> live (mm_heap m)" | "p \<in> freed m"
    using run_free.hyps(2) by (auto simp: dom_allocations split: if_splits)
  then show ?case
  proof cases
    case 1
    then show ?thesis using run_free rd by (simp add: mem_Free_def with_heap_def)
  next
    case 2
    show ?thesis by (rule Free_cases [OF run_free.IH rd 2(2)]) (use run_free.hyps(3) 2 in auto)
  next
    case 3
    then show ?thesis using Free_freed [OF run_free.IH] run_free.hyps(3) by simp
  qed
next
  case (run_stack used m p n m')
  then show ?case using mem_ok_AllocateStack by blast
next
  case (run_free_stack used m p n)
  then show ?case by (intro mem_ok_FreeStack)
next
  case (run_static used m n p m')
  obtain a where a: "statics_Allocate n (mm_statics m) = (Some p, a)" "m' = m\<lparr>mm_statics := a\<rparr>"
    using run_static.hyps(2) by (auto simp: AllocateStatic_def split: prod.splits option.splits)
  show ?case using statics_Allocate_ok [OF a(1)] run_static.IH
    by (auto simp: mem_ok_def a(2) stacks_ok_def statics_ok_def Let_def)
next
  case (run_statics used m)
  then show ?case using Align_ge [of "st_begin (mm_statics m)"]
    by (simp add: mem_ok_def DeallocateStatics_def stacks_ok_def statics_ok_def statics_Reset_def Let_def)
qed

section \<open>The blocks of the program\<close>

text \<open>Where the blocks of the program are.\<close>

lemma allocations_placed:
  assumes ok: "mem_ok used m" and p: "allocations m p = Some n"
  shows "IsAligned p \<and> seg_begin (hp_segment (mm_heap m)) < p \<and> p + n \<le> up (hp_segment (mm_heap m))"
proof -
  obtain b where b: "b \<in> live (mm_heap m)" "p = Data b" "n = bh_user_size (hp_headers (mm_heap m) b)" and rd: "mm_ready m"
    using p by (auto simp: allocations_live)
  then have B: "blocks_ok (mm_heap m)" and bi: "b \<in> set (hp_index (mm_heap m))" using ok by (auto simp: mem_ok_def heap_ok_def live_def)
  then have l: "IsAligned b" "seg_begin (hp_segment (mm_heap m)) \<le> b" "DataEnd b (hp_headers (mm_heap m) b) \<le> up (hp_segment (mm_heap m))"
    and h: "header_ok (hp_headers (mm_heap m) b)" by (auto simp: blocks_ok_def layout_def)
  have "IsAligned p" using l(1) IsAligned_add IsAligned_header by (simp add: b(2) Data_def)
  moreover have "seg_begin (hp_segment (mm_heap m)) < p" using l(2) Data_less_DataEnd(1) [of b] b(2) by linarith
  moreover have "p + n \<le> DataEnd b (hp_headers (mm_heap m) b)" using h by (simp add: b header_ok_def DataEnd_def)
  ultimately show ?thesis using l(3) by simp
qed

lemma allocations_apart:
  assumes ok: "mem_ok used m" and p: "allocations m p = Some n" and q: "allocations m q = Some k" and ne: "p \<noteq> q"
  shows "apart p n q k"
proof -
  let ?h = "mm_heap m"
  obtain b c where b: "b \<in> live ?h" "p = Data b" "n = bh_user_size (hp_headers ?h b)" and c: "c \<in> live ?h" "q = Data c" "k = bh_user_size (hp_headers ?h c)"
    and rd: "mm_ready m"
    using p q by (auto simp: allocations_live)
  then have B: "blocks_ok ?h" and bi: "b \<in> set (hp_index ?h)" "c \<in> set (hp_index ?h)" using ok by (auto simp: mem_ok_def heap_ok_def live_def)
  then have L: "layout (hp_headers ?h) (hp_index ?h) (seg_begin (hp_segment ?h)) (hp_next ?h)"
    and h: "header_ok (hp_headers ?h b)" "header_ok (hp_headers ?h c)" by (auto simp: blocks_ok_def)
  have "p + n \<le> DataEnd b (hp_headers ?h b)" "q + k \<le> DataEnd c (hp_headers ?h c)" using h by (simp_all add: b c header_ok_def DataEnd_def)
  moreover have "b < p" "c < q" using Data_less_DataEnd(1) by (simp_all add: b c)
  moreover have "b \<noteq> c" using ne by (simp add: b c)
  ultimately show ?thesis using layout_disjoint [OF L bi] unfolding apart_def by linarith
qed

lemma allocations_Malloc:
  assumes "mm_ready m" and "live h' = insert b (live (mm_heap m))"
    and "bh_user_size (hp_headers h' b) = n" and "b \<notin> live (mm_heap m)"
    and "\<And>a. a \<in> live (mm_heap m) \<Longrightarrow> hp_headers h' a = hp_headers (mm_heap m) a"
  shows "allocations (m\<lparr>mm_heap := h'\<rparr>) = (allocations m)(Data b \<mapsto> n)"
  using assms by (auto simp: fun_eq_iff allocations_def Data_def)

lemma allocations_Free:
  assumes "mm_ready m" and "live h' = live (mm_heap m) - {b}"
    and "\<And>a. a \<in> live (mm_heap m) \<Longrightarrow> a \<noteq> b \<Longrightarrow> hp_headers h' a = hp_headers (mm_heap m) a"
  shows "allocations (m\<lparr>mm_heap := h'\<rparr>) = (allocations m)(Data b := None)"
  using assms by (auto simp: fun_eq_iff allocations_def Data_def)

lemma Malloc_allocations:
  assumes ok: "mem_ok used m" and r: "mem_Malloc n r m = Inr (p, m')"
  shows "n < kAllocSizeLimit \<and> allocations m p = None \<and> allocations m' = (allocations m)(p \<mapsto> n) \<and> mem_ok used m'"
proof -
  have rd: "mm_ready m" and n: "n < kAllocSizeLimit"
    using r by (auto simp: mem_Malloc_def with_heap_def hp_Allocate_def bindE_eq_Inr)
  show ?thesis
  proof (rule Malloc_cases [OF ok rd n, of r])
    fix b h'
    assume a: "mem_Malloc n r m = Inr (Data b, m\<lparr>mm_heap := h'\<rparr>)" and k: "mem_ok used (m\<lparr>mm_heap := h'\<rparr>)" and nl: "b \<notin> live (mm_heap m)"
      and l: "live h' = insert b (live (mm_heap m))" "bh_user_size (hp_headers h' b) = n"
        "\<And>a. a \<in> live (mm_heap m) \<Longrightarrow> hp_headers h' a = hp_headers (mm_heap m) a"
    have "allocations m (Data b) = None" using nl by (simp add: allocations_Data rd)
    moreover have "allocations (m\<lparr>mm_heap := h'\<rparr>) = (allocations m)(Data b \<mapsto> n)"
      by (rule allocations_Malloc [OF rd l(1,2) nl l(3)])
    ultimately show ?thesis using r a k n by simp
  qed (use r in simp_all)
qed

lemma Free_allocations:
  assumes ok: "mem_ok used m" and p: "allocations m p = Some n" and r: "mem_Free p m = Inr m'"
  shows "allocations m' = (allocations m)(p := None) \<and> p \<in> freed m' \<and> mem_ok used m' \<and> (\<exists>h'. m' = m\<lparr>mm_heap := h'\<rparr>)"
proof -
  obtain b where b: "p = Data b" "b \<in> live (mm_heap m)" and rd: "mm_ready m" using p by (auto simp: allocations_live)
  show ?thesis
  proof (rule Free_cases [OF ok rd b(2)])
    fix h'
    assume f: "mem_Free (Data b) m = Inr (m\<lparr>mm_heap := h'\<rparr>)" "mem_ok used (m\<lparr>mm_heap := h'\<rparr>)" and l: "live h' = live (mm_heap m) - {b}"
      "\<And>a. a \<in> live (mm_heap m) \<Longrightarrow> a \<noteq> b \<Longrightarrow> hp_headers h' a = hp_headers (mm_heap m) a"
      and fr: "b \<in> free_blocks (bh_klass (hp_headers (mm_heap m) b)) h'"
    have "allocations (m\<lparr>mm_heap := h'\<rparr>) = (allocations m)(Data b := None)" by (rule allocations_Free [OF rd l])
    moreover have "Data b \<in> freed (m\<lparr>mm_heap := h'\<rparr>)" using fr rd by (auto simp: freed_def free_blocks_def)
    ultimately show ?thesis using b r f by auto
  qed (use b r in simp_all)
qed

text \<open>The free list gives the block that was freed last.\<close>

lemma Malloc_freed:
  assumes ok: "mem_ok used m" and nr: "\<not> mm_randomize m" and p: "allocations m p = Some n" and r: "mem_Free p m = Inr m'"
  shows "\<exists>m''. mem_Malloc n x m' = Inr (p, m'')"
proof -
  let ?h = "mm_heap m" and ?h' = "mm_heap m'"
  obtain b where b: "p = Data b" "b \<in> live ?h" "n = bh_user_size (hp_headers ?h b)" and rd: "mm_ready m" using p by (auto simp: allocations_live)
  have h: "heap_ok ?h" using ok rd by (simp add: mem_ok_def)
  have n: "n < kAllocSizeLimit" "GetSizeClass n = Inr (bh_klass (hp_headers ?h b))" using h b by (simp_all add: heap_ok_def)
  have m': "mm_ready m'" "\<not> mm_randomize m'" using Free_allocations [OF ok p r] rd nr by auto
  have f: "hp_Free (Data b) ?h = Inr ?h'" using r rd b by (auto simp: mem_Free_def with_heap_def bindE_eq_Inr)
  obtain xs where "fl_blocks (hp_lists ?h' (bh_klass (hp_headers ?h b))) = xs @ [b]"
    using hp_Free_pushes [OF _ _ f] h b(2) by (auto simp: heap_ok_def live_def)
  then have "\<exists>h''. hp_Allocate n None ?h' = Inr (Data b, h'')"
    using n by (simp add: hp_Allocate_def GetFreeBlock_def list_TryPop_def TryPopBack_def Let_def)
  then show ?thesis using m' b(1) by (auto simp: mem_Malloc_def with_heap_def HeapAllocContext_def)
qed

end
