(* ===== verification/Memory_Theorems.thy ===== *)
theory Memory_Theorems
  imports Memory_Inv
begin

text \<open>
  What the isolated memory promises to the program under test and to the simulator, over the map of the
  blocks that the program holds (\<open>allocations\<close>), with a small arena on which every promise is evaluated.
\<close>

section \<open>A small arena\<close>

text \<open>
  An arena of 24 MiB at address 4096, and an allocator of 2560 bytes, whose boot block has 4096. The
  heap begins after the static segment, the boot block and the two indexes.
\<close>

definition arena :: memory where
  "arena = \<lparr>mm_randomize = False, mm_heap = raw_heap (new_segment 69632 25100288), mm_ready = False,
     mm_stacks = new_stack_allocator kDefaultStackSize, mm_statics = new_statics 4096 65536\<rparr>"

definition arena_heap :: memory where
  "arena_heap = arena\<lparr>mm_heap := (raw_heap (new_segment 69632 25100288))\<lparr>
     hp_segment := (new_segment 69632 25100288)\<lparr>up := 16850944\<rparr>, hp_next := 16850944\<rparr>, mm_ready := True\<rparr>"

lemma new_arena: "new_memory default_params 4096 25165824 = Inr arena"
  by (simp add: new_memory_def new_segments_def arena_def kTooSmall_def kStaticSegmentSize_def default_params_def)

lemma aligned_num: "n mod 16 = 0 \<Longrightarrow> Align n = n" for n :: nat
  by (simp add: IsAligned_def kAlignment_def)

lemma arena_run: "mem_run {} arena"
  by (rule run_new [OF _ new_arena]) simp

lemma arena_boot_block: "boot_block_loop 16 2560 = 4096"
  by (simp add: boot_block_loop.simps)

lemma arena_Init: "InitMalloc 2560 arena = Inr arena_heap"
  by (simp add: InitMalloc_def arena_def raw_heap_def new_segment_def seg_Reset_def AllocateBootBlock_def arena_boot_block
      aligned_num TrySetUp_def TryUp_def SpaceLeft_def brk_Reset_def hp_Reset_def kSizeBytes_def kCapacity_def Let_def
      IsAligned_def kAlignment_def set_header_def fun_upd_idem arena_heap_def cong: if_cong)

text \<open>A block of 100 bytes, in the class of 128, and then a stack.\<close>

definition arena_block :: memory where
  "arena_block = arena_heap\<lparr>mm_heap := (mm_heap arena_heap)\<lparr>hp_segment := (hp_segment (mm_heap arena_heap))\<lparr>up := 16851088\<rparr>,
     hp_next := 16851088, hp_index := [16850944], hp_next_id := 1,
     hp_headers := (\<lambda>_. zero_header)(16850944 := \<lparr>bh_state = Allocated, bh_klass = 7, bh_service = False,
       bh_user_size = 100, bh_alloc_id = 1, bh_canary = kCanary\<rparr>),
     hp_stat := zero_stat\<lparr>alloc_count := 1, bytes_allocated := 128, user_bytes_allocated := 100\<rparr>\<rparr>\<rparr>"

definition arena_stack :: memory where
  "arena_stack = arena_block\<lparr>mm_heap := (mm_heap arena_block)\<lparr>hp_segment :=
     (hp_segment (mm_heap arena_block))\<lparr>down := 23072768\<rparr>\<rparr>\<rparr>"

lemmas arena_defs = arena_heap_def arena_def raw_heap_def new_segment_def seg_Reset_def new_stack_allocator_def
  kDefaultStackSize_def ChooseStackSize_def kMinStackSize_def

lemmas heap_eval = hp_Allocate_def kAllocSizeLimit_def GetSizeClass_def GetSizeClassSlow_def size_class_loop.simps AtLeast16Bytes_def
  BlockSize_def GetFreeBlock_def list_TryPop_def TryPopBack_def empty_list_def NewBlock_def kHeaderSize_def TrySetUp_def TryUp_def
  SpaceLeft_def brk_Init_def index_Insert_def kCapacity_def set_header_def Let_def IsAligned_def kAlignment_def aligned_num

lemma arena_Malloc: "mem_Malloc 100 0 arena_heap = Inr (16850960, arena_block)"
  by (simp add: mem_Malloc_def with_heap_def HeapAllocContext_def arena_block_def arena_defs heap_eval
      Data_def block_Size_def zero_header_def fun_upd_idem zero_stat_def)

lemma arena_AllocateStack: "AllocateStack arena_block = Inr ((23072768, 2097152), arena_stack)"
  by (simp add: AllocateStack_def stack_Allocate_def TryDown_def SpaceLeft_def arena_stack_def arena_block_def arena_defs)

lemma arena_ready: "mm_ready arena_heap" "mm_ready arena_block" "mm_ready arena_stack" "\<not> mm_ready arena" "\<not> mm_randomize arena_block"
  by (simp_all add: arena_heap_def arena_block_def arena_stack_def arena_def)

lemma arena_heap_run: "mem_run {} arena_heap"
  by (rule run_init [OF arena_run arena_ready(4) arena_Init])

lemma arena_block_run: "mem_run {} arena_block"
  by (rule run_malloc [OF arena_heap_run arena_Malloc])

lemma arena_stack_run: "mem_run {23072768} arena_stack"
  by (rule run_stack [OF arena_block_run arena_AllocateStack])

lemma arena_allocations: "allocations arena_block = [16850960 \<mapsto> 100]" "allocations arena_stack = [16850960 \<mapsto> 100]"
proof -
  show "allocations arena_block = [16850960 \<mapsto> 100]"
    by (auto simp: fun_eq_iff allocations_def live_def arena_block_def arena_defs kHeaderSize_def)
  then show "allocations arena_stack = [16850960 \<mapsto> 100]"
    using allocations_cong [of arena_stack arena_block] by (simp add: arena_stack_def)
qed

text \<open>The list of the class gets its first buffer, a block of 64 bytes.\<close>

lemma arena_Free: "\<exists>m. mem_Free 16850960 arena_block = Inr m"
  by (simp add: mem_Free_def with_heap_def hp_Free_def GetFreedBlock_def FromHere_def free_block_def list_Push_def ResizeBuffer_def
      NewBuffer_def NewCapacity_def ToBytes_def kClasses_def Data_def arena_block_def arena_defs heap_eval set_list_def)

section \<open>Theorems\<close>





text \<open>
  C14: freeing a block that the program holds takes exactly that block away (the free list may need a
  larger buffer, and the two ways in which getting it fails are the only errors); freeing a block
  again ends the run with the status of a double free; freeing the null pointer does nothing.
\<close>

theorem free_exact:
  assumes "mem_run used m" and "mm_ready m" and "p \<in> insert 0 (dom (allocations m) \<union> freed m)"
  shows "if p = 0 then mem_Free p m = Inr m
    else if p \<in> freed m then mem_Free p m = Inl (SysAbortEx MemoryDoubleFree)
    else case mem_Free p m of
        Inr m' \<Rightarrow> allocations m' = (allocations m)(p := None) \<and> p \<in> freed m' \<and> mem_run used m'
      | Inl f \<Rightarrow> f = Panic ''null block'' \<or> f = Panic ''Block index overflow''"
proof -
  have ok: "mem_ok used m" by (rule mem_run_ok [OF assms(1)])
  consider "p = 0" | "p \<noteq> 0" "p \<in> freed m" | b where "p = Data b" "b \<in> live (mm_heap m)" "p \<notin> freed m"
    using assms(2,3) by (auto simp: dom_allocations)
  then show ?thesis
  proof cases
    case 1
    then show ?thesis using assms(2) by (simp add: mem_Free_def with_heap_def)
  next
    case 2
    then show ?thesis using Free_freed [OF ok] by simp
  next
    case 3
    have al: "allocations m p = Some (bh_user_size (hp_headers (mm_heap m) b))" using 3 by (simp add: allocations_Data assms(2))
    show ?thesis
    proof (cases "mem_Free p m")
      case (Inl f)
      show ?thesis by (rule Free_cases [OF ok assms(2) 3(2)]) (use 3 Inl in auto)
    next
      case (Inr m')
      then show ?thesis using Free_allocations [OF ok al Inr] run_free [OF assms(1,3) Inr] 3 by simp
    qed
  qed
qed

lemma free_exact_witness:
  "\<exists>m. mem_Free 16850960 arena_block = Inr m \<and> allocations m = Map.empty \<and> mem_Free 16850960 m = Inl (SysAbortEx MemoryDoubleFree)"
proof -
  obtain m where m: "mem_Free 16850960 arena_block = Inr m" using arena_Free by blast
  have nf: "16850960 \<notin> freed arena_block"
    by (auto simp: freed_def arena_block_def Data_def kHeaderSize_def)
  have "allocations m = Map.empty \<and> 16850960 \<in> freed m \<and> mem_run {} m"
    using free_exact [OF arena_block_run arena_ready(2), of 16850960] m nf by (simp add: arena_allocations)
  moreover from this have "mm_ready m" by (auto simp: freed_def split: if_splits)
  ultimately show ?thesis using m free_exact [of "{}" m 16850960] by simp
qed

text \<open>
  C15: an access is allowed exactly when all of it lies in one block that the program holds: the binary
  search over the index of the blocks decides this.
\<close>

theorem access_exact:
  assumes "mem_run used m" and "mm_ready m"
  shows "mem_Access p n m = Inr (\<exists>q k. allocations m q = Some k \<and> q \<le> p \<and> p < q + k \<and> p + n \<le> q + k)"
proof -
  have "heap_ok (mm_heap m)" using mem_run_ok [OF assms(1)] assms(2) by (simp add: mem_ok_def)
  then show ?thesis using assms(2)
    by (auto simp: mem_Access_def with_heap_def hp_Access_ok allocations_live UserDataEnd_def)
qed

lemma access_exact_witness:
  "mem_Access 16850960 100 arena_block = Inr True \<and> mem_Access 16850961 100 arena_block = Inr False"
  using access_exact [OF arena_block_run arena_ready(2), of 16850960 100] access_exact [OF arena_block_run arena_ready(2), of 16850961 100]
  by (simp add: arena_allocations)

text \<open>
  C16: the statistics that the simulator reads for the report of leaks are exact: the counts of
  allocations and frees differ by the number of blocks that the program still holds, the counts of
  bytes by the sum of their sizes; they are equal only when it holds none.
\<close>

theorem leak_report_exact:
  assumes "mem_run used m" and "mm_ready m"
  shows "\<exists>st. HeapStat m = Inr st \<and> alloc_count st - free_count st = card (dom (allocations m)) \<and>
    user_bytes_allocated st - user_bytes_freed st = (\<Sum>p \<in> dom (allocations m). the (allocations m p)) \<and>
    (alloc_count st = free_count st \<longleftrightarrow> allocations m = Map.empty)"
proof -
  let ?h = "mm_heap m"
  have s: "stat_ok ?h" using mem_run_ok [OF assms(1)] assms(2) by (simp add: mem_ok_def heap_ok_def)
  have i: "inj_on Data (live ?h)" by (simp add: inj_on_def)
  have d: "dom (allocations m) = Data ` live ?h" by (simp add: dom_allocations assms(2))
  have c: "card (dom (allocations m)) = card (live ?h)" unfolding d by (rule card_image [OF i])
  have u: "(\<Sum>p \<in> dom (allocations m). the (allocations m p)) = (\<Sum>b \<in> live ?h. bh_user_size (hp_headers ?h b))"
    unfolding d using i by (simp add: sum.reindex allocations_Data assms(2) cong: sum.cong)
  have e: "allocations m = Map.empty \<longleftrightarrow> live ?h = {}" using d by (metis dom_eq_empty_conv image_is_empty)
  show ?thesis using s by (auto simp: HeapStat_def with_heap_def assms(2) c u e stat_ok_def)
qed

lemma leak_report_exact_witness:
  "\<exists>st. HeapStat arena_block = Inr st \<and> alloc_count st - free_count st = 1 \<and> user_bytes_allocated st - user_bytes_freed st = 100"
  using leak_report_exact [OF arena_block_run arena_ready(2)] by (auto simp: arena_allocations)

text \<open>
  Without randomisation, a block that was just freed is the one that the next allocation of the
  same size returns, so that the program holds what it held before: the defence that the randomised
  allocation is for.
\<close>

theorem malloc_after_free:
  assumes "mem_run used m" and "\<not> mm_randomize m" and "allocations m p = Some n" and "mem_Free p m = Inr m'"
  shows "\<exists>m''. mem_Malloc n r m' = Inr (p, m'') \<and> allocations m'' = allocations m"
proof -
  have ok: "mem_ok used m" by (rule mem_run_ok [OF assms(1)])
  note f = Free_allocations [OF ok assms(3,4)]
  obtain m'' where m: "mem_Malloc n r m' = Inr (p, m'')" using Malloc_freed [OF ok assms(2,3,4)] by blast
  have "allocations m'' = (allocations m)(p := None, p \<mapsto> n)" using Malloc_allocations [OF _ m] f by metis
  then show ?thesis using m assms(3) by auto
qed

lemma malloc_after_free_witness:
  "\<exists>m m'. mem_Free 16850960 arena_block = Inr m \<and> mem_Malloc 100 7 m = Inr (16850960, m') \<and> allocations m' = allocations arena_block"
proof -
  obtain m where m: "mem_Free 16850960 arena_block = Inr m" using arena_Free by blast
  show ?thesis
    using malloc_after_free [OF arena_block_run arena_ready(5) _ m, of 100 7] m by (auto simp: arena_allocations)
qed

end
