(* ===== verification/Nonpreemptive.thy ===== *)
theory Nonpreemptive
  imports Random_Scheduler Pct_Scheduler Coop_Scheduler Dfs_Scheduler
begin

text \<open>
  Read-modify-write operations of the user library (\<open>rt/sim/user/library/std_like/atomic_base.hpp\<close>) are
  two actions, a load and a commit, with the thread not preemptive (\<open>PreemptionGuard\<close>) before the commit.
  They are atomic because no scheduler lets another thread run between an interrupt of a thread that is not
  preemptive and the choice of the next thread, whatever threads timers wake in between.
\<close>

section \<open>What happens between the interrupt and the choice\<close>

inductive woken :: "'s sched_ops \<Rightarrow> tid \<Rightarrow> 's \<Rightarrow> 's \<Rightarrow> bool" for D t where
  woken_none: "woken D t s s"
| woken_wake: "woken D t s s1 \<Longrightarrow> u \<noteq> t \<Longrightarrow> Wake D u ths s1 = Inr (ths', s2) \<Longrightarrow> woken D t s s2"
| woken_remove: "woken D t s s1 \<Longrightarrow> u \<noteq> t \<Longrightarrow> wq_Remove D q u s1 = (b, s2) \<Longrightarrow> woken D t s s2"

definition runs_on :: "'s sched_ops \<Rightarrow> ('s \<Rightarrow> bool) \<Rightarrow> bool" where
  "runs_on D ready \<longleftrightarrow> (\<forall>t now now' ths ths1 ths2 ths3 s s1 s2 s3 u.
     ready s \<longrightarrow> \<not> preemptive (th_attrs (ths t)) \<longrightarrow> Interrupt D now t ths s = Inr (ths1, s1) \<longrightarrow> woken D t s1 s2 \<longrightarrow>
     \<not> preemptive (th_attrs (ths2 t)) \<longrightarrow> PickNext D now' ths2 s2 = Inr (u, ths3, s3) \<longrightarrow> u = t)"

text \<open>A scheduler that marks the interrupted thread as the next one.\<close>

locale marks_next =
  fixes D :: "'s sched_ops" and ready :: "'s \<Rightarrow> bool" and marked :: "tid \<Rightarrow> 's \<Rightarrow> bool"
  assumes interrupt_marks: "ready s \<Longrightarrow> \<not> preemptive (th_attrs (ths t)) \<Longrightarrow> Interrupt D now t ths s = Inr (ths1, s1) \<Longrightarrow> marked t s1"
    and wake_marked: "marked t s \<Longrightarrow> u \<noteq> t \<Longrightarrow> Wake D u ths s = Inr (ths', s1) \<Longrightarrow> marked t s1"
    and remove_marked: "marked t s \<Longrightarrow> u \<noteq> t \<Longrightarrow> wq_Remove D q u s = (b, s1) \<Longrightarrow> marked t s1"
    and marked_next: "marked t s \<Longrightarrow> \<not> preemptive (th_attrs (ths t)) \<Longrightarrow> PickNext D now ths s = Inr (u, ths1, s1) \<Longrightarrow> u = t"
begin

lemma woken_marked: "woken D t s s1 \<Longrightarrow> marked t s \<Longrightarrow> marked t s1"
  by (induction rule: woken.induct) (auto intro: wake_marked remove_marked)

lemma marks_runs_on: "runs_on D ready"
  unfolding runs_on_def using interrupt_marks woken_marked marked_next by blast

end

section \<open>The schedulers\<close>

interpretation random_marks: marks_next random_ops "\<lambda>_. True" "\<lambda>t s. rs_next s = Some t"
proof (unfold_locales, goal_cases)
  case (1 s ths t now ths1 s1)
  have "\<not> ToPreempt now t ths" "ToLfSuspend t ths s = Inr (False, s)"
    using 1(2) by (simp_all add: ToPreempt_def ToLfSuspend_def)
  then show ?case using 1(3) by (auto simp: random_ops_def rnd_Interrupt_def)
next
  case (2 t s u ths ths' s1)
  then show ?case by (auto simp: random_ops_def rnd_Wake_def rnd_push_def bindE_eq_Inr)
next
  case (3 t s u q b s1)
  then show ?case by (auto simp: random_ops_def rnd_wq_Remove_def put_wait_def split: prod.splits)
next
  case (4 t s ths now u ths1 s1)
  then show ?case by (simp add: random_ops_def rnd_PickNext_def)
qed

interpretation pct_marks: marks_next pct_ops "\<lambda>_. True" "\<lambda>t s. ps_active s = Some t"
proof (unfold_locales, goal_cases)
  case (1 s ths t now ths1 s1)
  then show ?case by (auto simp: pct_ops_def pct_Interrupt_def)
next
  case (2 t s u ths ths' s1)
  then show ?case by (auto simp: pct_ops_def pct_Wake_def)
next
  case (3 t s u q b s1)
  then show ?case by (auto simp: pct_ops_def pct_wq_Remove_def split: prod.splits)
next
  case (4 t s ths now u ths1 s1)
  then show ?case by (simp add: pct_ops_def pct_PickNext_def pct_Preempt_def)
qed

interpretation coop_marks: marks_next coop_ops "\<lambda>s. cs_next s = None" "\<lambda>t s. cs_next s = None \<and> (\<exists>q. cs_run_queue s = t # q)"
proof (unfold_locales, goal_cases)
  case (1 s ths t now ths1 s1)
  then show ?case by (auto simp: coop_ops_def coop_Interrupt_def coop_PushFront_def coop_push_def bindE_eq_Inr split: if_splits)
next
  case (2 t s u ths ths' s1)
  then show ?case by (auto simp: coop_ops_def coop_Wake_def coop_PushBack_def coop_push_def bindE_eq_Inr split: if_splits)
next
  case (3 t s u q b s1)
  then show ?case by (auto simp: coop_ops_def coop_wq_Remove_def coop_unlink_def split: if_splits)
next
  case (4 t s ths now u ths1 s1)
  then show ?case by (auto simp: coop_ops_def coop_PickNext_def PickFront_def)
qed

interpretation dfs_marks: marks_next dfs_ops "\<lambda>_. True" "\<lambda>t s. ds_active s = Some t"
proof (unfold_locales, goal_cases)
  case (1 s ths t now ths1 s1)
  then show ?case by (auto simp: dfs_ops_def dfs_Interrupt_def)
next
  case (2 t s u ths ths' s1)
  then show ?case by (auto simp: dfs_ops_def dfs_Wake_def dfs_push_def)
next
  case (3 t s u q b s1)
  then show ?case by (auto simp: dfs_ops_def dfs_wq_Remove_def split: prod.splits if_splits)
next
  case (4 t s ths now u ths1 s1)
  then show ?case
    by (auto simp: dfs_ops_def dfs_PickNext_def dfs_Preempt_def AddStep_def set_f1_def Let_def bindE_eq_Inr Prune_def split: if_splits option.splits)
qed


end
