(* ===== verification/Atomic_Base.thy ===== *)
theory Atomic_Base
  imports Race_Detector
begin

text \<open>
  The atomics of the user library (\<open>rt/sim/user/library/std_like/atomic_base.hpp\<close>,
  \<open>atomic_base_int.hpp\<close>): each operation is a sequence of actions for the memory model, run here one after
  the other on the state of the memory model (\<open>Nonpreemptive\<close> says that nothing comes between the two
  actions of a read-modify-write). A value is a word of the size of the type, the representation in the memory
  model is 64 bits wide. The spurious failure of a weak operation, which the scheduler decides, is an argument.
\<close>

section \<open>Values\<close>

definition ToRepr :: "'w::len word \<Rightarrow> u64" where
  "ToRepr v = ucast v"

definition ToValue :: "u64 \<Rightarrow> 'w::len word" where
  "ToValue r = ucast r"

definition AtomicSize :: "'w::len itself \<Rightarrow> nat" where
  "AtomicSize T = LENGTH('w) div 8"

text \<open>The types have at most 64 bits (\<open>Atomicable\<close>).\<close>

lemma ToValue_ToRepr: "LENGTH('w::len) \<le> 64 \<Longrightarrow> ToValue (ToRepr (v :: 'w word)) = v"
  by (simp add: ToRepr_def ToValue_def ucast_down_ucast_id is_down_def target_size_def source_size_def word_size)

definition BitwiseEqual :: "'w::len word \<Rightarrow> 'w word \<Rightarrow> bool" where
  "BitwiseEqual a b \<longleftrightarrow> a = b"

definition atomic_action :: "'w::len itself \<Rightarrow> addr \<Rightarrow> action_type \<Rightarrow> u64 \<Rightarrow> memory_order \<Rightarrow> action" where
  "atomic_action T loc ty v mo = \<lparr>act_loc = loc, act_size = AtomicSize T, act_type = ty, act_value = v, act_mo = mo, act_source_loc = []\<rparr>"

section \<open>Operations\<close>

definition atomic_Init :: "tid \<Rightarrow> addr \<Rightarrow> 'w::len word \<Rightarrow> sync_sys \<Rightarrow> fault + sync_sys" where
  "atomic_Init t loc v s =
     bindE (sys_sync t (atomic_action TYPE('w) loc AtomicInit (ToRepr v) relaxed) s) (\<lambda>(r, s1). Inr s1)"

definition atomic_Destroy :: "'w::len itself \<Rightarrow> tid \<Rightarrow> addr \<Rightarrow> sync_sys \<Rightarrow> fault + sync_sys" where
  "atomic_Destroy T t loc s =
     bindE (sys_sync t (atomic_action T loc AtomicDestroy 0 relaxed) s) (\<lambda>(r, s1). Inr s1)"

definition atomic_load :: "'w::len itself \<Rightarrow> tid \<Rightarrow> addr \<Rightarrow> memory_order \<Rightarrow> sync_sys \<Rightarrow> fault + 'w word \<times> sync_sys" where
  "atomic_load T t loc mo s =
     bindE (sys_sync t (atomic_action T loc AtomicLoad 0 mo) s) (\<lambda>(r, s1). Inr (ToValue r, s1))"

definition DebugLoad :: "'w::len itself \<Rightarrow> tid \<Rightarrow> addr \<Rightarrow> memory_order \<Rightarrow> sync_sys \<Rightarrow> fault + 'w word \<times> sync_sys" where
  "DebugLoad T t loc mo s =
     bindE (sys_sync t (atomic_action T loc AtomicDebugLoad 0 mo) s) (\<lambda>(r, s1). Inr (ToValue r, s1))"

definition base_store :: "tid \<Rightarrow> addr \<Rightarrow> 'w::len word \<Rightarrow> memory_order \<Rightarrow> sync_sys \<Rightarrow> fault + sync_sys" where
  "base_store t loc v mo s =
     bindE (sys_sync t (atomic_action TYPE('w) loc AtomicStore (ToRepr v) mo) s) (\<lambda>(r, s1). Inr s1)"

definition atomic_exchange :: "tid \<Rightarrow> addr \<Rightarrow> 'w::len word \<Rightarrow> memory_order \<Rightarrow> sync_sys \<Rightarrow> fault + 'w word \<times> sync_sys" where
  "atomic_exchange t loc v mo s =
     bindE (sys_sync t (atomic_action TYPE('w) loc AtomicRmwLoad 0 mo) s) (\<lambda>(r, s1).
     bindE (sys_sync t (atomic_action TYPE('w) loc AtomicRmwCommit (ToRepr v) mo) s1) (\<lambda>(_, s2).
     Inr (ToValue r, s2)))"

definition RMW :: "('w::len word \<Rightarrow> 'w word) \<Rightarrow> tid \<Rightarrow> addr \<Rightarrow> memory_order \<Rightarrow> sync_sys \<Rightarrow> fault + 'w word \<times> sync_sys" where
  "RMW f t loc mo s =
     bindE (sys_sync t (atomic_action TYPE('w) loc AtomicRmwLoad 0 mo) s) (\<lambda>(r, s1).
     let old_value = ToValue r; new_value = f old_value
     in bindE (sys_sync t (atomic_action TYPE('w) loc AtomicRmwCommit (ToRepr new_value) mo) s1) (\<lambda>(_, s2).
        Inr (old_value, s2)))"

definition fetch_add :: "'w::len word \<Rightarrow> tid \<Rightarrow> addr \<Rightarrow> memory_order \<Rightarrow> sync_sys \<Rightarrow> fault + 'w word \<times> sync_sys" where
  "fetch_add d = RMW (\<lambda>v. v + d)"

definition fetch_sub :: "'w::len word \<Rightarrow> tid \<Rightarrow> addr \<Rightarrow> memory_order \<Rightarrow> sync_sys \<Rightarrow> fault + 'w word \<times> sync_sys" where
  "fetch_sub d = RMW (\<lambda>v. v - d)"

definition fetch_and :: "'w::len word \<Rightarrow> tid \<Rightarrow> addr \<Rightarrow> memory_order \<Rightarrow> sync_sys \<Rightarrow> fault + 'w word \<times> sync_sys" where
  "fetch_and d = RMW (\<lambda>v. and v d)"

definition fetch_or :: "'w::len word \<Rightarrow> tid \<Rightarrow> addr \<Rightarrow> memory_order \<Rightarrow> sync_sys \<Rightarrow> fault + 'w word \<times> sync_sys" where
  "fetch_or d = RMW (\<lambda>v. or v d)"

definition fetch_xor :: "'w::len word \<Rightarrow> tid \<Rightarrow> addr \<Rightarrow> memory_order \<Rightarrow> sync_sys \<Rightarrow> fault + 'w word \<times> sync_sys" where
  "fetch_xor d = RMW (\<lambda>v. xor v d)"

section \<open>Compare and exchange\<close>

datatype cas_type = Weak | Strong

definition IsWeak :: "cas_type \<Rightarrow> bool" where
  "IsWeak ty \<longleftrightarrow> ty = Weak"

definition CompareExchangeSpuriousFailure :: "cas_type \<Rightarrow> bool \<Rightarrow> bool" where
  "CompareExchangeSpuriousFailure ty spurious \<longleftrightarrow> IsWeak ty \<and> spurious"

fun IsAtLeastAcquireMemoryOrder :: "memory_order \<Rightarrow> bool" where
  "IsAtLeastAcquireMemoryOrder acquire = True"
| "IsAtLeastAcquireMemoryOrder acq_rel = True"
| "IsAtLeastAcquireMemoryOrder seq_cst = True"
| "IsAtLeastAcquireMemoryOrder _ = False"

definition CompareExchangeAcquireFence :: "'w::len itself \<Rightarrow> tid \<Rightarrow> addr \<Rightarrow> sync_sys \<Rightarrow> fault + sync_sys" where
  "CompareExchangeAcquireFence T t loc s =
     bindE (sys_sync t (atomic_action T loc AtomicThreadFence 0 acquire) s) (\<lambda>(r, s1). Inr s1)"

text \<open>The result, and the new value of \<open>expected\<close>.\<close>

definition CompareExchangeSimple ::
  "'w::len word \<Rightarrow> 'w word \<Rightarrow> memory_order \<Rightarrow> cas_type \<Rightarrow> bool \<Rightarrow> tid \<Rightarrow> addr \<Rightarrow> sync_sys \<Rightarrow> fault + (bool \<times> 'w word) \<times> sync_sys" where
  "CompareExchangeSimple expected desired mo ty spurious t loc s =
     bindE (sys_sync t (atomic_action TYPE('w) loc AtomicRmwLoad 0 mo) s) (\<lambda>(r, s1).
     let old_value = ToValue r
     in if BitwiseEqual expected old_value \<and> \<not> CompareExchangeSpuriousFailure ty spurious
        then bindE (sys_sync t (atomic_action TYPE('w) loc AtomicRmwCommit (ToRepr desired) mo) s1) (\<lambda>(_, s2).
             Inr ((True, expected), s2))
        else Inr ((False, old_value), s1))"

definition CompareExchangeWithFailureMemoryOrder ::
  "'w::len word \<Rightarrow> 'w word \<Rightarrow> memory_order \<Rightarrow> memory_order \<Rightarrow> cas_type \<Rightarrow> bool \<Rightarrow> tid \<Rightarrow> addr \<Rightarrow> sync_sys \<Rightarrow>
     fault + (bool \<times> 'w word) \<times> sync_sys" where
  "CompareExchangeWithFailureMemoryOrder expected desired success failure ty spurious t loc s =
     bindE (sys_sync t (atomic_action TYPE('w) loc AtomicRmwLoad 0 relaxed) s) (\<lambda>(r, s1).
     let old_value = ToValue r
     in if BitwiseEqual expected old_value \<and> \<not> CompareExchangeSpuriousFailure ty spurious
        then bindE (if IsAtLeastAcquireMemoryOrder success then CompareExchangeAcquireFence TYPE('w) t loc s1 else Inr s1) (\<lambda>s2.
             bindE (sys_sync t (atomic_action TYPE('w) loc AtomicRmwCommit (ToRepr desired) success) s2) (\<lambda>(_, s3).
             Inr ((True, expected), s3)))
        else bindE (if IsAtLeastAcquireMemoryOrder failure then CompareExchangeAcquireFence TYPE('w) t loc s1 else Inr s1) (\<lambda>s2.
             Inr ((False, old_value), s2)))"

definition compare_exchange_strong ::
  "'w::len word \<Rightarrow> 'w word \<Rightarrow> memory_order \<Rightarrow> memory_order \<Rightarrow> tid \<Rightarrow> addr \<Rightarrow> sync_sys \<Rightarrow> fault + (bool \<times> 'w word) \<times> sync_sys" where
  "compare_exchange_strong expected desired success failure t loc s =
     (if success = failure then CompareExchangeSimple expected desired success Strong False t loc s
      else CompareExchangeWithFailureMemoryOrder expected desired success failure Strong False t loc s)"

definition compare_exchange_weak ::
  "'w::len word \<Rightarrow> 'w word \<Rightarrow> memory_order \<Rightarrow> memory_order \<Rightarrow> bool \<Rightarrow> tid \<Rightarrow> addr \<Rightarrow> sync_sys \<Rightarrow>
     fault + (bool \<times> 'w word) \<times> sync_sys" where
  "compare_exchange_weak expected desired success failure spurious t loc s =
     (if success = failure then CompareExchangeSimple expected desired success Weak spurious t loc s
      else CompareExchangeWithFailureMemoryOrder expected desired success failure Weak spurious t loc s)"

section \<open>The values of the atomics\<close>

definition holds :: "addr \<Rightarrow> 'w::len word \<Rightarrow> sync_sys \<Rightarrow> bool" where
  "holds loc v s \<longleftrightarrow> (\<exists>a. atomics (sy_mem s) loc = Some a \<and> \<not> av_dtor a \<and> store_value (last_store a) = ToRepr v)"

text \<open>Nothing but the atomic at \<open>loc\<close> and the context of \<open>t\<close> changes.\<close>

definition touches :: "tid \<Rightarrow> addr \<Rightarrow> sync_sys \<Rightarrow> sync_sys \<Rightarrow> bool" where
  "touches t loc s s' \<longleftrightarrow> sy_threads s' = sy_threads s \<and> (\<forall>u. u \<noteq> t \<longrightarrow> sy_ctx s' u = sy_ctx s u) \<and>
     (\<forall>l. l \<noteq> loc \<longrightarrow> atomics (sy_mem s') l = atomics (sy_mem s) l) \<and>
     non_atomics (sy_mem s') = non_atomics (sy_mem s) \<and> allocs (sy_mem s') = allocs (sy_mem s)"

lemma touches_trans: "touches t loc s s' \<Longrightarrow> touches t loc s' s'' \<Longrightarrow> touches t loc s s''"
  by (simp add: touches_def)

lemma touches_refl: "touches t loc s s"
  by (simp add: touches_def)

lemma touches_put_ctx: "touches t loc s (put_ctx t c s)"
  by (simp add: touches_def put_ctx_def)

lemmas sync_defs = sys_sync_def Sync_def mm_Tick_def clock_Tick_def GetShadowAtomicVar_def TryGetShadowAtomicVar_def
  mm_AtomicLoad_def mm_AtomicDebugLoad_def mm_AtomicStore_def mm_AtomicRmwLoad_def mm_AtomicRmwCommit_def mm_AtomicThreadFence_def
  AtomicLoadRelaxed_def AtomicStoreRelaxed_def AtomicRmwCommitRelaxed_def put_atomic_def put_ctx_def atomic_action_def Let_def

lemma sync_load:
  assumes h: "holds loc v s" and t: "t \<le> sy_threads s" and w: "LENGTH('w::len) \<le> 64"
    and ty: "ty = AtomicRmwLoad \<or> ty = AtomicDebugLoad \<or> ty = AtomicLoad \<and> IsLoadOrder mo"
  shows "\<exists>r s'. sys_sync t (atomic_action T loc ty x mo) s = Inr (r, s') \<and> ToValue r = (v :: 'w word) \<and> holds loc v s' \<and>
    touches t loc s s' \<and> sy_mem s' = sy_mem s"
  using h t ty ToValue_ToRepr [OF w, of v]
  by (auto simp: holds_def touches_def sync_defs)

lemma sync_write:
  assumes h: "holds loc (v :: 'w::len word) s" and t: "t \<le> sy_threads s"
    and ty: "ty = AtomicRmwCommit \<or> ty = AtomicStore \<and> IsStoreOrder mo"
  shows "\<exists>r s'. sys_sync t (atomic_action T loc ty (ToRepr v') mo) s = Inr (r, s') \<and> holds loc (v' :: 'w word) s' \<and> touches t loc s s'"
  using h t ty by (auto simp: holds_def touches_def sync_defs)

lemma sync_fence:
  assumes h: "holds loc (v :: 'w::len word) s" and t: "t \<le> sy_threads s"
  shows "\<exists>s'. CompareExchangeAcquireFence T t loc s = Inr s' \<and> holds loc v s' \<and> touches t loc s s'"
  using h t by (auto simp: CompareExchangeAcquireFence_def holds_def touches_def sync_defs)

end
