(* ===== verification/Atomic_Types.thy ===== *)
theory Atomic_Types
  imports Atomic_Base
begin

text \<open>
  The atomic types of the user library over \<open>AtomicBase\<close> (\<open>rt/sim/user/library/std_like/\<close>): the operators of
  integers (\<open>atomic_base_int.hpp\<close>), pointers (\<open>atomic_ptr.hpp\<close>), \<open>atomic_flag\<close> and fences, for every width up to
  64 bits, and what they do to the value.
\<close>

section \<open>Read-modify-write and compare-and-exchange\<close>

lemma rmw_exact:
  assumes h: "holds loc (v :: 'w::len word) s" and t: "t \<le> sy_threads s" and w: "LENGTH('w) \<le> 64"
  shows "\<exists>s'. RMW f t loc mo s = Inr (v, s') \<and> holds loc (f v) s' \<and> touches t loc s s'"
proof -
  obtain r s1 where l: "sys_sync t (atomic_action TYPE('w) loc AtomicRmwLoad 0 mo) s = Inr (r, s1)" "ToValue r = v"
      "holds loc v s1" "touches t loc s s1"
    using sync_load [OF h t w, of AtomicRmwLoad mo "TYPE('w)" 0] by auto
  have "t \<le> sy_threads s1" using l(4) t by (simp add: touches_def)
  then obtain r2 s2 where c: "sys_sync t (atomic_action TYPE('w) loc AtomicRmwCommit (ToRepr (f v)) mo) s1 = Inr (r2, s2)"
      "holds loc (f v) s2" "touches t loc s1 s2"
    using sync_write [OF l(3), of t AtomicRmwCommit mo "TYPE('w)" "f v"] by auto
  show ?thesis using l c touches_trans [OF l(4) c(3)] by (simp add: RMW_def Let_def)
qed

text \<open>An exchange is a read-modify-write that ignores the old value.\<close>

lemma exchange_RMW: "atomic_exchange t loc v mo s = RMW (\<lambda>_. v) t loc mo s"
  by (simp add: atomic_exchange_def RMW_def Let_def)

lemma cas_simple_exact:
  assumes h: "holds loc (v :: 'w::len word) s" and t: "t \<le> sy_threads s" and w: "LENGTH('w) \<le> 64"
  shows "\<exists>s'. CompareExchangeSimple e d mo ty spurious t loc s =
      Inr (if e = v \<and> \<not> (ty = Weak \<and> spurious) then (True, e) else (False, v), s') \<and>
    holds loc (if e = v \<and> \<not> (ty = Weak \<and> spurious) then d else v) s' \<and> touches t loc s s'"
proof -
  obtain r s1 where l: "sys_sync t (atomic_action TYPE('w) loc AtomicRmwLoad 0 mo) s = Inr (r, s1)" "ToValue r = v"
      "holds loc v s1" "touches t loc s s1"
    using sync_load [OF h t w, of AtomicRmwLoad mo "TYPE('w)" 0] by auto
  have "t \<le> sy_threads s1" using l(4) t by (simp add: touches_def)
  then obtain r2 s2 where c: "sys_sync t (atomic_action TYPE('w) loc AtomicRmwCommit (ToRepr d) mo) s1 = Inr (r2, s2)"
      "holds loc d s2" "touches t loc s1 s2"
    using sync_write [OF l(3), of t AtomicRmwCommit mo "TYPE('w)" d] by auto
  show ?thesis using l c touches_trans [OF l(4) c(3)]
    by (auto simp: CompareExchangeSimple_def Let_def BitwiseEqual_def CompareExchangeSpuriousFailure_def IsWeak_def)
qed

lemma cas_failure_exact:
  assumes h: "holds loc (v :: 'w::len word) s" and t: "t \<le> sy_threads s" and w: "LENGTH('w) \<le> 64"
  shows "\<exists>s'. CompareExchangeWithFailureMemoryOrder e d succ fail ty spurious t loc s =
      Inr (if e = v \<and> \<not> (ty = Weak \<and> spurious) then (True, e) else (False, v), s') \<and>
    holds loc (if e = v \<and> \<not> (ty = Weak \<and> spurious) then d else v) s' \<and> touches t loc s s'"
proof -
  obtain r s1 where l: "sys_sync t (atomic_action TYPE('w) loc AtomicRmwLoad 0 relaxed) s = Inr (r, s1)" "ToValue r = v"
      "holds loc v s1" "touches t loc s s1"
    using sync_load [OF h t w, of AtomicRmwLoad relaxed "TYPE('w)" 0] by auto
  have t1: "t \<le> sy_threads s1" using l(4) t by (simp add: touches_def)
  have fence: "\<exists>s2. (if b then CompareExchangeAcquireFence TYPE('w) t loc s1 else Inr s1) = Inr s2 \<and> holds loc v s2 \<and> touches t loc s1 s2" for b
    using sync_fence [OF l(3) t1] l(3) touches_refl by auto
  show ?thesis
  proof (cases "e = v \<and> \<not> (ty = Weak \<and> spurious)")
    case True
    obtain s2 where f: "(if IsAtLeastAcquireMemoryOrder succ then CompareExchangeAcquireFence TYPE('w) t loc s1 else Inr s1) = Inr s2"
        "holds loc v s2" "touches t loc s1 s2" using fence by blast
    have "t \<le> sy_threads s2" using f(3) t1 by (simp add: touches_def)
    then obtain r3 s3 where c: "sys_sync t (atomic_action TYPE('w) loc AtomicRmwCommit (ToRepr d) succ) s2 = Inr (r3, s3)"
        "holds loc d s3" "touches t loc s2 s3"
      using sync_write [OF f(2), of t AtomicRmwCommit succ "TYPE('w)" d] by auto
    show ?thesis using True l f(1) c touches_trans [OF touches_trans [OF l(4) f(3)] c(3)]
      by (simp add: CompareExchangeWithFailureMemoryOrder_def Let_def BitwiseEqual_def CompareExchangeSpuriousFailure_def IsWeak_def)
  next
    case False
    obtain s2 where f: "(if IsAtLeastAcquireMemoryOrder fail then CompareExchangeAcquireFence TYPE('w) t loc s1 else Inr s1) = Inr s2"
        "holds loc v s2" "touches t loc s1 s2" using fence by blast
    show ?thesis using False l f(1,2) touches_trans [OF l(4) f(3)]
      by (auto simp: CompareExchangeWithFailureMemoryOrder_def Let_def BitwiseEqual_def CompareExchangeSpuriousFailure_def IsWeak_def)
  qed
qed

lemma cas_exact:
  assumes h: "holds loc (v :: 'w::len word) s" and t: "t \<le> sy_threads s" and w: "LENGTH('w) \<le> 64"
  shows "\<exists>s'. compare_exchange_weak e d succ fail spurious t loc s =
      Inr (if e = v \<and> \<not> spurious then (True, e) else (False, v), s') \<and>
    holds loc (if e = v \<and> \<not> spurious then d else v) s' \<and> touches t loc s s'"
    and "\<exists>s'. compare_exchange_strong e d succ fail t loc s = Inr (if e = v then (True, e) else (False, v), s') \<and>
    holds loc (if e = v then d else v) s' \<and> touches t loc s s'"
proof -
  show "\<exists>s'. compare_exchange_weak e d succ fail spurious t loc s =
      Inr (if e = v \<and> \<not> spurious then (True, e) else (False, v), s') \<and>
    holds loc (if e = v \<and> \<not> spurious then d else v) s' \<and> touches t loc s s'"
    using cas_simple_exact [OF assms, of e d succ Weak spurious] cas_failure_exact [OF assms, of e d succ fail Weak spurious]
    unfolding compare_exchange_weak_def by (cases "succ = fail") (simp_all only: if_True if_False simp_thms)
  show "\<exists>s'. compare_exchange_strong e d succ fail t loc s = Inr (if e = v then (True, e) else (False, v), s') \<and>
    holds loc (if e = v then d else v) s' \<and> touches t loc s s'"
    using cas_simple_exact [OF assms, of e d succ Strong False] cas_failure_exact [OF assms, of e d succ fail Strong False]
    unfolding compare_exchange_strong_def by (cases "succ = fail") (simp_all only: if_True if_False simp_thms)
qed

section \<open>Integers\<close>

text \<open>The operators use the order \<open>seq_cst\<close>.\<close>

definition op_assign :: "'w::len word \<Rightarrow> tid \<Rightarrow> addr \<Rightarrow> sync_sys \<Rightarrow> fault + 'w word \<times> sync_sys" where
  "op_assign new_value t loc s = bindE (base_store t loc new_value seq_cst s) (\<lambda>s1. Inr (new_value, s1))"

definition op_prefix_inc :: "tid \<Rightarrow> addr \<Rightarrow> sync_sys \<Rightarrow> fault + 'w::len word \<times> sync_sys" where
  "op_prefix_inc t loc s = bindE (fetch_add 1 t loc seq_cst s) (\<lambda>(v, s1). Inr (v + 1, s1))"

definition op_postfix_inc :: "tid \<Rightarrow> addr \<Rightarrow> sync_sys \<Rightarrow> fault + 'w::len word \<times> sync_sys" where
  "op_postfix_inc t loc s = fetch_add 1 t loc seq_cst s"

definition op_prefix_dec :: "tid \<Rightarrow> addr \<Rightarrow> sync_sys \<Rightarrow> fault + 'w::len word \<times> sync_sys" where
  "op_prefix_dec t loc s = bindE (fetch_sub 1 t loc seq_cst s) (\<lambda>(v, s1). Inr (v - 1, s1))"

definition op_postfix_dec :: "tid \<Rightarrow> addr \<Rightarrow> sync_sys \<Rightarrow> fault + 'w::len word \<times> sync_sys" where
  "op_postfix_dec t loc s = fetch_sub 1 t loc seq_cst s"

definition op_add_assign :: "'w::len word \<Rightarrow> tid \<Rightarrow> addr \<Rightarrow> sync_sys \<Rightarrow> fault + 'w word \<times> sync_sys" where
  "op_add_assign d t loc s = bindE (fetch_add d t loc seq_cst s) (\<lambda>(v, s1). Inr (v + d, s1))"

definition op_sub_assign :: "'w::len word \<Rightarrow> tid \<Rightarrow> addr \<Rightarrow> sync_sys \<Rightarrow> fault + 'w word \<times> sync_sys" where
  "op_sub_assign d t loc s = bindE (fetch_sub d t loc seq_cst s) (\<lambda>(v, s1). Inr (v - d, s1))"

definition op_and_assign :: "'w::len word \<Rightarrow> tid \<Rightarrow> addr \<Rightarrow> sync_sys \<Rightarrow> fault + 'w word \<times> sync_sys" where
  "op_and_assign x t loc s = bindE (fetch_and x t loc seq_cst s) (\<lambda>(v, s1). Inr (and v x, s1))"

definition op_or_assign :: "'w::len word \<Rightarrow> tid \<Rightarrow> addr \<Rightarrow> sync_sys \<Rightarrow> fault + 'w word \<times> sync_sys" where
  "op_or_assign x t loc s = bindE (fetch_or x t loc seq_cst s) (\<lambda>(v, s1). Inr (or v x, s1))"

definition op_xor_assign :: "'w::len word \<Rightarrow> tid \<Rightarrow> addr \<Rightarrow> sync_sys \<Rightarrow> fault + 'w word \<times> sync_sys" where
  "op_xor_assign x t loc s = bindE (fetch_xor x t loc seq_cst s) (\<lambda>(v, s1). Inr (xor v x, s1))"

lemmas int_op_defs = op_prefix_inc_def op_postfix_inc_def op_prefix_dec_def op_postfix_dec_def op_add_assign_def
  op_sub_assign_def op_and_assign_def op_or_assign_def op_xor_assign_def fetch_add_def fetch_sub_def fetch_and_def fetch_or_def fetch_xor_def

text \<open>An operation that returns \<open>result\<close> and leaves \<open>v'\<close>.\<close>

definition does :: "tid \<Rightarrow> addr \<Rightarrow> sync_sys \<Rightarrow> (fault + 'a \<times> sync_sys) \<Rightarrow> 'a \<Rightarrow> 'w::len word \<Rightarrow> bool" where
  "does t loc s r result v' \<longleftrightarrow> (\<exists>s'. r = Inr (result, s') \<and> holds loc v' s' \<and> touches t loc s s')"

lemma does_RMW:
  assumes "holds loc (v :: 'w::len word) s" and "t \<le> sy_threads s" and "LENGTH('w) \<le> 64"
  shows "does t loc s (RMW f t loc mo s) v (f v)" and "does t loc s (bindE (RMW f t loc mo s) (\<lambda>(v, s1). Inr (g v, s1))) (g v) (f v)"
  using rmw_exact [OF assms, of f mo] by (auto simp: does_def)

text \<open>
  The integer atomics. Every fetch operation returns the old value and leaves the new one, modulo the
  width; every prefix and compound operator returns the value that it leaves; no operation touches another
  atomic, or the context of another thread.
\<close>

theorem atomic_int_exact:
  assumes "holds loc (v :: 'w::len word) s" and "t \<le> sy_threads s" and "LENGTH('w) \<le> 64"
  shows "does t loc s (fetch_add d t loc mo s) v (v + d) \<and> does t loc s (fetch_sub d t loc mo s) v (v - d) \<and>
    does t loc s (fetch_and d t loc mo s) v (and v d) \<and> does t loc s (fetch_or d t loc mo s) v (or v d) \<and>
    does t loc s (fetch_xor d t loc mo s) v (xor v d) \<and>
    does t loc s (op_assign d t loc s) d d \<and>
    does t loc s (op_prefix_inc t loc s) (v + 1) (v + 1) \<and> does t loc s (op_postfix_inc t loc s) v (v + 1) \<and>
    does t loc s (op_prefix_dec t loc s) (v - 1) (v - 1) \<and> does t loc s (op_postfix_dec t loc s) v (v - 1) \<and>
    does t loc s (op_add_assign d t loc s) (v + d) (v + d) \<and> does t loc s (op_sub_assign d t loc s) (v - d) (v - d) \<and>
    does t loc s (op_and_assign d t loc s) (and v d) (and v d) \<and> does t loc s (op_or_assign d t loc s) (or v d) (or v d) \<and>
    does t loc s (op_xor_assign d t loc s) (xor v d) (xor v d)"
proof -
  have "does t loc s (op_assign d t loc s) d d"
    using sync_write [OF assms(1,2), of AtomicStore seq_cst "TYPE('w)" d] by (auto simp: does_def op_assign_def base_store_def)
  then show ?thesis unfolding int_op_defs by (intro conjI does_RMW assms)
qed

section \<open>Pointers\<close>

text \<open>\<open>atomic<T*>\<close>: arithmetic in units of the size of \<open>T\<close>, which is the first argument here.\<close>

definition FetchArithm :: "nat \<Rightarrow> 64 word \<Rightarrow> tid \<Rightarrow> addr \<Rightarrow> memory_order \<Rightarrow> sync_sys \<Rightarrow> fault + 64 word \<times> sync_sys" where
  "FetchArithm elem delta = RMW (\<lambda>old_value. old_value + delta * of_nat elem)"

definition ptr_fetch_add :: "nat \<Rightarrow> 64 word \<Rightarrow> tid \<Rightarrow> addr \<Rightarrow> memory_order \<Rightarrow> sync_sys \<Rightarrow> fault + 64 word \<times> sync_sys" where
  "ptr_fetch_add elem delta = FetchArithm elem delta"

definition ptr_fetch_sub :: "nat \<Rightarrow> 64 word \<Rightarrow> tid \<Rightarrow> addr \<Rightarrow> memory_order \<Rightarrow> sync_sys \<Rightarrow> fault + 64 word \<times> sync_sys" where
  "ptr_fetch_sub elem delta = FetchArithm elem (- delta)"

section \<open>Flags and fences\<close>

definition flag_Init :: "tid \<Rightarrow> addr \<Rightarrow> sync_sys \<Rightarrow> fault + sync_sys" where
  "flag_Init t loc s = bindE (sys_sync t (atomic_action TYPE(32) loc AtomicInit 0 relaxed) s) (\<lambda>(r, s1). Inr s1)"

definition flag_clear :: "tid \<Rightarrow> addr \<Rightarrow> memory_order \<Rightarrow> sync_sys \<Rightarrow> fault + sync_sys" where
  "flag_clear t loc mo s = bindE (sys_sync t (atomic_action TYPE(32) loc AtomicStore 0 mo) s) (\<lambda>(r, s1). Inr s1)"

definition flag_test_and_set :: "tid \<Rightarrow> addr \<Rightarrow> memory_order \<Rightarrow> sync_sys \<Rightarrow> fault + bool \<times> sync_sys" where
  "flag_test_and_set t loc mo s =
     bindE (sys_sync t (atomic_action TYPE(32) loc AtomicRmwLoad 0 mo) s) (\<lambda>(r, s1).
     bindE (sys_sync t (atomic_action TYPE(32) loc AtomicRmwCommit 1 mo) s1) (\<lambda>(_, s2).
     Inr (r = 1, s2)))"

definition flag_test :: "tid \<Rightarrow> addr \<Rightarrow> memory_order \<Rightarrow> sync_sys \<Rightarrow> fault + bool \<times> sync_sys" where
  "flag_test t loc mo s = bindE (sys_sync t (atomic_action TYPE(32) loc AtomicLoad 0 mo) s) (\<lambda>(r, s1). Inr (r = 1, s1))"

definition atomic_thread_fence :: "tid \<Rightarrow> memory_order \<Rightarrow> sync_sys \<Rightarrow> fault + sync_sys" where
  "atomic_thread_fence t mo s =
     bindE (sys_sync t \<lparr>act_loc = 0, act_size = 0, act_type = AtomicThreadFence, act_value = 0, act_mo = mo, act_source_loc = []\<rparr> s)
       (\<lambda>(r, s1). Inr s1)"

definition flag_value :: "bool \<Rightarrow> 32 word" where
  "flag_value b = (if b then 1 else 0)"

lemma flag_value_repr: "ToRepr (flag_value b) = (if b then 1 else 0)"
  by (simp add: flag_value_def ToRepr_def)

text \<open>
  Pointers and flags. \<open>fetch_add\<close> and \<open>fetch_sub\<close> of a pointer move it by whole elements, modulo the
  width of an address; \<open>test_and_set\<close> sets the flag and returns what it was, \<open>clear\<close> clears it and \<open>test\<close>
  reads it, for the orders that the memory model accepts.
\<close>

theorem atomic_ptr_flag_exact:
  assumes "t \<le> sy_threads s"
  shows "(\<forall>p. holds loc p s \<longrightarrow>
      does t loc s (ptr_fetch_add elem d t loc mo s) p (p + d * of_nat elem) \<and>
      does t loc s (ptr_fetch_sub elem d t loc mo s) p (p - d * of_nat elem)) \<and>
    (\<forall>b. holds loc (flag_value b) s \<longrightarrow>
      does t loc s (flag_test_and_set t loc mo s) b (flag_value True) \<and>
      (IsLoadOrder mo \<longrightarrow> does t loc s (flag_test t loc mo s) b (flag_value b)) \<and>
      (IsStoreOrder mo \<longrightarrow> (\<exists>s'. flag_clear t loc mo s = Inr s' \<and> holds loc (flag_value False) s' \<and> touches t loc s s')))"
proof -
  have ptr: "does t loc s (ptr_fetch_add elem d t loc mo s) p (p + d * of_nat elem) \<and>
      does t loc s (ptr_fetch_sub elem d t loc mo s) p (p - d * of_nat elem)" if "holds loc p s" for p
    using rmw_exact [OF that assms, of "\<lambda>p. p + d * of_nat elem" mo] rmw_exact [OF that assms, of "\<lambda>p. p + - d * of_nat elem" mo]
    by (simp add: does_def ptr_fetch_add_def ptr_fetch_sub_def FetchArithm_def)
  have flag: "does t loc s (flag_test_and_set t loc mo s) b (flag_value True) \<and>
      (IsLoadOrder mo \<longrightarrow> does t loc s (flag_test t loc mo s) b (flag_value b)) \<and>
      (IsStoreOrder mo \<longrightarrow> (\<exists>s'. flag_clear t loc mo s = Inr s' \<and> holds loc (flag_value False) s' \<and> touches t loc s s'))"
    if "holds loc (flag_value b) s" for b
    using that assms
    by (auto simp: does_def holds_def touches_def flag_test_and_set_def flag_test_def flag_clear_def flag_value_repr sync_defs)
  show ?thesis using ptr flag by blast
qed

text \<open>An atomic with the value 5.\<close>

definition sample_sync :: sync_sys where
  "sample_sync = (case atomic_Init 1 16 (5 :: 32 word) sync_init of Inr s \<Rightarrow> s | Inl f \<Rightarrow> sync_init)"

lemma sample_sync: "atomic_Init 1 16 (5 :: 32 word) sync_init = Inr sample_sync \<and> holds 16 (5 :: 32 word) sample_sync \<and> sy_threads sample_sync = 1"
  by (simp add: sample_sync_def atomic_Init_def sync_init_def sync_defs mm_AtomicInit_def holds_def)

lemma sample_flag: "atomic_Init 1 16 (1 :: 32 word) sync_init = Inr s \<Longrightarrow> holds 16 (flag_value True) s"
  by (auto simp: atomic_Init_def sync_init_def sync_defs mm_AtomicInit_def holds_def flag_value_def)

theorem atomic_int_exact_witness:
  "does 1 16 sample_sync (op_prefix_inc 1 16 sample_sync) (6 :: 32 word) (6 :: 32 word) \<and>
    does 1 16 sample_sync (fetch_sub (7 :: 32 word) 1 16 acq_rel sample_sync) 5 (- 2 :: 32 word)"
proof -
  have h: "holds 16 (5 :: 32 word) sample_sync" "1 \<le> sy_threads sample_sync" "LENGTH(32) \<le> 64" using sample_sync by simp_all
  show ?thesis using atomic_int_exact [OF h, of 7 acq_rel] by simp
qed

theorem atomic_ptr_flag_exact_witness:
  "\<exists>s. atomic_Init 1 16 (1 :: 32 word) sync_init = Inr s \<and> does 1 16 s (flag_test_and_set 1 16 acquire s) True (flag_value True) \<and>
    does 1 16 s (flag_test 1 16 acquire s) True (flag_value True)"
proof -
  obtain s where s: "atomic_Init 1 16 (1 :: 32 word) sync_init = Inr s" "1 \<le> sy_threads s"
    by (simp add: atomic_Init_def sync_init_def sync_defs mm_AtomicInit_def)
  then show ?thesis using atomic_ptr_flag_exact [OF s(2), of 16] sample_flag [OF s(1)] by (intro exI [of _ s]) simp
qed

end
