(* ===== verification/Sync_Var.thy ===== *)
theory Sync_Var
  imports Atomic_Types
begin

text \<open>
  \<open>SyncVar\<close> (\<open>rt/sim/user/library/std_like/sync_var.hpp\<close>), the 32-bit atomic under the mutexes and
  condition variables of the user library: its operations as data, run on the memory model, and what they
  do to the value.
\<close>

type_synonym word32 = "32 word"

datatype sync_op =
  Op_Load memory_order
| Op_Store word32 memory_order
| Op_Exchange word32 memory_order
| Op_FetchAdd word32 memory_order
| Op_FetchSub word32 memory_order
| Op_Cas cas_type word32 word32 memory_order memory_order

datatype answer = No_Answer | Ans_Value word32 | Ans_Cas bool word32 | Ans_Bool bool

text \<open>The orders that the memory model accepts.\<close>

fun op_orders :: "sync_op \<Rightarrow> bool" where
  "op_orders (Op_Load mo) = IsLoadOrder mo"
| "op_orders (Op_Store v mo) = IsStoreOrder mo"
| "op_orders _ = True"

fun sync_run :: "bool \<Rightarrow> sync_op \<Rightarrow> tid \<Rightarrow> addr \<Rightarrow> sync_sys \<Rightarrow> fault + answer \<times> sync_sys" where
  "sync_run spurious (Op_Load mo) t loc s = bindE (atomic_load TYPE(32) t loc mo s) (\<lambda>(v, s1). Inr (Ans_Value v, s1))"
| "sync_run spurious (Op_Store v mo) t loc s = bindE (base_store t loc v mo s) (\<lambda>s1. Inr (No_Answer, s1))"
| "sync_run spurious (Op_Exchange v mo) t loc s = bindE (atomic_exchange t loc v mo s) (\<lambda>(r, s1). Inr (Ans_Value r, s1))"
| "sync_run spurious (Op_FetchAdd d mo) t loc s = bindE (fetch_add d t loc mo s) (\<lambda>(r, s1). Inr (Ans_Value r, s1))"
| "sync_run spurious (Op_FetchSub d mo) t loc s = bindE (fetch_sub d t loc mo s) (\<lambda>(r, s1). Inr (Ans_Value r, s1))"
| "sync_run spurious (Op_Cas Weak e d succ fail) t loc s =
     bindE (compare_exchange_weak e d succ fail spurious t loc s) (\<lambda>((b, r), s1). Inr (Ans_Cas b r, s1))"
| "sync_run spurious (Op_Cas Strong e d succ fail) t loc s =
     bindE (compare_exchange_strong e d succ fail t loc s) (\<lambda>((b, r), s1). Inr (Ans_Cas b r, s1))"

fun sync_spec :: "bool \<Rightarrow> sync_op \<Rightarrow> word32 \<Rightarrow> answer \<times> word32" where
  "sync_spec spurious (Op_Load mo) v = (Ans_Value v, v)"
| "sync_spec spurious (Op_Store v' mo) v = (No_Answer, v')"
| "sync_spec spurious (Op_Exchange v' mo) v = (Ans_Value v, v')"
| "sync_spec spurious (Op_FetchAdd d mo) v = (Ans_Value v, v + d)"
| "sync_spec spurious (Op_FetchSub d mo) v = (Ans_Value v, v - d)"
| "sync_spec spurious (Op_Cas ty e d succ fail) v =
     (if e = v \<and> \<not> (ty = Weak \<and> spurious) then (Ans_Cas True e, d) else (Ans_Cas False v, v))"

section \<open>The operations do what they should\<close>

lemma size32: "LENGTH(32) \<le> 64"
  by simp



end
