(* ===== verification/Lib_Machine.thy ===== *)
theory Lib_Machine
  imports Sync_Var
begin

text \<open>
  How threads that use an object of the user library run (\<open>rt/sim/user/library/std_like/\<close>). Each thread is
  at a place (\<open>'pc\<close>) of the code of the object, before its next call: an operation of a \<open>SyncVar\<close>, a futex call, a
  look at the clock, or none when it is outside of the operations. A step of a thread carries out that call
  and runs the code of the object up to its next one, as the simulator does (\<open>Simulator\<close>: \<open>CompleteSync\<close>, then
  \<open>RunThread\<close>). Between two steps any other thread may run: the interleaving is not that of any particular
  scheduler. \<open>Sync_Var\<close> and \<open>Nonpreemptive\<close> justify that the operations of a \<open>SyncVar\<close> are single steps.
\<close>

section \<open>Calls\<close>

text \<open>A futex wait has the expected value, the kind of the waiter and whether it is timed.\<close>

datatype lib_call =
  Call_Sync addr sync_op
| Call_Wait addr word32 futex_type bool
| Call_Wake addr nat
| Call_Expired

section \<open>Objects\<close>

text \<open>
  The code of an object: its next call at a place, what it does with the answer, and how an operation
  begins. \<open>'f\<close> are the members of the object that are not atomics.
\<close>

record ('pc, 'f, 'op) object =
  ob_call :: "tid \<Rightarrow> 'pc \<Rightarrow> lib_call option"
  ob_resume :: "tid \<Rightarrow> answer \<Rightarrow> 'pc \<Rightarrow> 'f \<Rightarrow> fault + 'pc \<times> 'f"
  ob_begin :: "tid \<Rightarrow> 'op \<Rightarrow> 'pc \<Rightarrow> 'f \<Rightarrow> fault + 'pc \<times> 'f"

text \<open>The answer that a call gives. No call gives another.\<close>

definition on_value :: "answer \<Rightarrow> (word32 \<Rightarrow> fault + 'a) \<Rightarrow> fault + 'a" where
  "on_value a f = (case a of Ans_Value v \<Rightarrow> f v | _ \<Rightarrow> Inl (Panic ''unreachable''))"

definition on_cas :: "answer \<Rightarrow> (bool \<Rightarrow> fault + 'a) \<Rightarrow> fault + 'a" where
  "on_cas a f = (case a of Ans_Cas b v \<Rightarrow> f b | _ \<Rightarrow> Inl (Panic ''unreachable''))"

definition on_bool :: "answer \<Rightarrow> (bool \<Rightarrow> fault + 'a) \<Rightarrow> fault + 'a" where
  "on_bool a f = (case a of Ans_Bool b \<Rightarrow> f b | _ \<Rightarrow> Inl (Panic ''unreachable''))"

definition on_return :: "answer \<Rightarrow> fault + 'a \<Rightarrow> fault + 'a" where
  "on_return a x = (case a of No_Answer \<Rightarrow> x | _ \<Rightarrow> Inl (Panic ''unreachable''))"

lemma on_answer_simps [simp]:
  "on_value (Ans_Value v) f = f v" "on_cas (Ans_Cas b v) g = g b" "on_bool (Ans_Bool b) g = g b" "on_return No_Answer x = x"
  by (simp_all add: on_value_def on_cas_def on_bool_def on_return_def)

section \<open>Steps\<close>

text \<open>A thread goes on, is parked on the futex of an atomic, or has come back from a futex wait.\<close>

datatype mode = Going | Waiting addr | Back

record ('pc, 'f) world =
  w_value :: "addr \<Rightarrow> word32"
  w_fields :: 'f
  w_pc :: "tid \<Rightarrow> 'pc"
  w_mode :: "tid \<Rightarrow> mode"

definition go :: "tid \<Rightarrow> 'pc \<times> 'f \<Rightarrow> ('pc, 'f) world \<Rightarrow> ('pc, 'f) world" where
  "go t pf w = w\<lparr>w_pc := (w_pc w)(t := fst pf), w_fields := snd pf, w_mode := (w_mode w)(t := Going)\<rparr>"

definition set_mode :: "tid \<Rightarrow> mode \<Rightarrow> ('pc, 'f) world \<Rightarrow> ('pc, 'f) world" where
  "set_mode t m w = w\<lparr>w_mode := (w_mode w)(t := m)\<rparr>"

text \<open>The kinds of waiters that a scheduler may wake spuriously, as in \<open>VulnerableToSpuriousWakeup\<close>.\<close>

definition spurious_kind :: "futex_type \<Rightarrow> bool" where
  "spurious_kind k \<longleftrightarrow> k \<in> {FtFutex, FtAtomic, FtCondVar, FtMutexTryLock}"

text \<open>
  Waking wakes one of the waiters of the futex, whichever the scheduler chooses, or all of them (0). A
  fault of the object ends the run, so it is no step. The threads are those of a simulation.
\<close>

inductive lib_step :: "('pc, 'f, 'op) object \<Rightarrow> ('pc, 'f) world \<Rightarrow> ('pc, 'f) world \<Rightarrow> bool" for ob where
  lib_begin: "1 \<le> t \<Longrightarrow> t \<le> kMaxThreads \<Longrightarrow> w_mode w t = Going \<Longrightarrow> ob_call ob t (w_pc w t) = None \<Longrightarrow>
     ob_begin ob t op (w_pc w t) (w_fields w) = Inr pf \<Longrightarrow> lib_step ob w (go t pf w)"
| lib_sync: "w_mode w t = Going \<Longrightarrow> ob_call ob t (w_pc w t) = Some (Call_Sync l op) \<Longrightarrow>
     sync_spec spurious op (w_value w l) = (a, v) \<Longrightarrow> ob_resume ob t a (w_pc w t) (w_fields w) = Inr pf \<Longrightarrow>
     lib_step ob w (go t pf (w\<lparr>w_value := (w_value w)(l := v)\<rparr>))"
| lib_expired: "w_mode w t = Going \<Longrightarrow> ob_call ob t (w_pc w t) = Some Call_Expired \<Longrightarrow>
     ob_resume ob t (Ans_Bool b) (w_pc w t) (w_fields w) = Inr pf \<Longrightarrow> lib_step ob w (go t pf w)"
| lib_wake_none: "w_mode w t = Going \<Longrightarrow> ob_call ob t (w_pc w t) = Some (Call_Wake l n) \<Longrightarrow> \<forall>u. w_mode w u \<noteq> Waiting l \<Longrightarrow>
     ob_resume ob t No_Answer (w_pc w t) (w_fields w) = Inr pf \<Longrightarrow> lib_step ob w (go t pf w)"
| lib_wake_one: "w_mode w t = Going \<Longrightarrow> ob_call ob t (w_pc w t) = Some (Call_Wake l 1) \<Longrightarrow> w_mode w u = Waiting l \<Longrightarrow>
     ob_resume ob t No_Answer (w_pc w t) (w_fields w) = Inr pf \<Longrightarrow> lib_step ob w (go t pf (set_mode u Back w))"
| lib_wake_all: "w_mode w t = Going \<Longrightarrow> ob_call ob t (w_pc w t) = Some (Call_Wake l 0) \<Longrightarrow>
     ob_resume ob t No_Answer (w_pc w t) (w_fields w) = Inr pf \<Longrightarrow>
     lib_step ob w (go t pf (w\<lparr>w_mode := (\<lambda>u. if w_mode w u = Waiting l then Back else w_mode w u)\<rparr>))"
| lib_park: "w_mode w t = Going \<Longrightarrow> ob_call ob t (w_pc w t) = Some (Call_Wait l old k timed) \<Longrightarrow> w_value w l = old \<Longrightarrow>
     lib_step ob w (set_mode t (Waiting l) w)"
| lib_pass: "w_mode w t = Going \<Longrightarrow> ob_call ob t (w_pc w t) = Some (Call_Wait l old k timed) \<Longrightarrow>
     w_value w l \<noteq> old \<or> spurious_kind k \<Longrightarrow> lib_step ob w (set_mode t Back w)"
| lib_timer: "w_mode w t = Waiting l' \<Longrightarrow> ob_call ob t (w_pc w t) = Some (Call_Wait l old k True) \<Longrightarrow>
     lib_step ob w (set_mode t Back w)"
| lib_back: "w_mode w t = Back \<Longrightarrow> ob_resume ob t No_Answer (w_pc w t) (w_fields w) = Inr pf \<Longrightarrow> lib_step ob w (go t pf w)"

inductive lib_run :: "('pc, 'f, 'op) object \<Rightarrow> ('pc, 'f) world \<Rightarrow> ('pc, 'f) world \<Rightarrow> bool" for ob w where
  run_start: "lib_run ob w w"
| run_step: "lib_run ob w w1 \<Longrightarrow> lib_step ob w1 w2 \<Longrightarrow> lib_run ob w w2"

text \<open>An object that is new: no thread is in it.\<close>

definition new_world :: "(addr \<Rightarrow> word32) \<Rightarrow> 'f \<Rightarrow> 'pc \<Rightarrow> ('pc, 'f) world" where
  "new_world v f pc = \<lparr>w_value = v, w_fields = f, w_pc = (\<lambda>_. pc), w_mode = (\<lambda>_. Going)\<rparr>"

section \<open>Invariants\<close>

text \<open>What a class has to show for an invariant of its objects: each kind of step keeps it.\<close>

locale lib_class =
  fixes ob :: "('pc, 'f, 'op) object" and w0 :: "('pc, 'f) world" and inv :: "('pc, 'f) world \<Rightarrow> bool"
  assumes inv_new: "inv w0"
    and inv_begin: "inv w \<Longrightarrow> 1 \<le> t \<Longrightarrow> t \<le> kMaxThreads \<Longrightarrow> w_mode w t = Going \<Longrightarrow> ob_call ob t (w_pc w t) = None \<Longrightarrow>
       ob_begin ob t op (w_pc w t) (w_fields w) = Inr pf \<Longrightarrow> inv (go t pf w)"
    and inv_sync: "inv w \<Longrightarrow> w_mode w t = Going \<Longrightarrow> ob_call ob t (w_pc w t) = Some (Call_Sync l sop) \<Longrightarrow>
       sync_spec spurious sop (w_value w l) = (a, v) \<Longrightarrow> ob_resume ob t a (w_pc w t) (w_fields w) = Inr pf \<Longrightarrow>
       inv (go t pf (w\<lparr>w_value := (w_value w)(l := v)\<rparr>))"
    and inv_expired: "inv w \<Longrightarrow> w_mode w t = Going \<Longrightarrow> ob_call ob t (w_pc w t) = Some Call_Expired \<Longrightarrow>
       ob_resume ob t (Ans_Bool b) (w_pc w t) (w_fields w) = Inr pf \<Longrightarrow> inv (go t pf w)"
    and inv_wake: "inv w \<Longrightarrow> w_mode w t = Going \<Longrightarrow> ob_call ob t (w_pc w t) = Some (Call_Wake l n) \<Longrightarrow>
       \<forall>u. w_mode w u = Waiting l \<longrightarrow> m u = Waiting l \<or> m u = Back \<Longrightarrow> \<forall>u. w_mode w u \<noteq> Waiting l \<longrightarrow> m u = w_mode w u \<Longrightarrow>
       (\<exists>u. w_mode w u = Waiting l) \<longrightarrow> (\<exists>u. w_mode w u = Waiting l \<and> m u = Back) \<Longrightarrow>
       n = 0 \<longrightarrow> (\<forall>u. m u \<noteq> Waiting l) \<Longrightarrow>
       ob_resume ob t No_Answer (w_pc w t) (w_fields w) = Inr pf \<Longrightarrow> inv (go t pf (w\<lparr>w_mode := m\<rparr>))"
    and inv_park: "inv w \<Longrightarrow> w_mode w t = Going \<Longrightarrow> ob_call ob t (w_pc w t) = Some (Call_Wait l old k timed) \<Longrightarrow>
       w_value w l = old \<Longrightarrow> inv (set_mode t (Waiting l) w)"
    and inv_unpark: "inv w \<Longrightarrow> w_mode w t \<noteq> Back \<Longrightarrow> ob_call ob t (w_pc w t) = Some (Call_Wait l old k timed) \<Longrightarrow>
       inv (set_mode t Back w)"
    and inv_back: "inv w \<Longrightarrow> w_mode w t = Back \<Longrightarrow> ob_resume ob t No_Answer (w_pc w t) (w_fields w) = Inr pf \<Longrightarrow> inv (go t pf w)"
begin

lemma inv_step: "lib_step ob w w' \<Longrightarrow> inv w \<Longrightarrow> inv w'"
proof (induction rule: lib_step.induct)
  case (lib_wake_none w t l n pf)
  then have "inv (go t pf (w\<lparr>w_mode := w_mode w\<rparr>))" by (intro inv_wake) auto
  then show ?case by simp
next
  case (lib_wake_one w t l u pf)
  then have "inv (go t pf (w\<lparr>w_mode := (w_mode w)(u := Back)\<rparr>))" by (intro inv_wake) auto
  then show ?case by (simp add: set_mode_def)
next
  case (lib_wake_all w t l pf)
  then show ?case by (intro inv_wake) auto
next
  case (lib_timer w t l' l old k)
  then show ?case by (intro inv_unpark) auto
next
  case (lib_pass w t l old k timed)
  then show ?case by (intro inv_unpark) auto
qed (auto intro: inv_begin inv_sync inv_expired inv_park inv_back)

lemma inv_run: "lib_run ob w0 w \<Longrightarrow> inv w"
  by (induction rule: lib_run.induct) (auto intro: inv_new inv_step)

end

section \<open>Every object\<close>

text \<open>A thread that is parked, or has come back from a wait, is at that wait.\<close>

definition at_wait :: "('pc, 'f, 'op) object \<Rightarrow> ('pc, 'f) world \<Rightarrow> bool" where
  "at_wait ob w \<longleftrightarrow> (\<forall>t. w_mode w t \<noteq> Going \<longrightarrow>
     (\<exists>l old k timed. ob_call ob t (w_pc w t) = Some (Call_Wait l old k timed) \<and> (w_mode w t = Back \<or> w_mode w t = Waiting l)))"

lemma at_waitD:
  assumes "at_wait ob w" and "w_mode w t \<noteq> Going"
  obtains l old k timed where "ob_call ob t (w_pc w t) = Some (Call_Wait l old k timed)" "w_mode w t = Back \<or> w_mode w t = Waiting l"
  using assms unfolding at_wait_def by blast

lemma at_wait_go: "at_wait ob w \<Longrightarrow> at_wait ob (go t pf w)"
  by (simp add: at_wait_def go_def)

lemma at_wait_value [simp]: "at_wait ob (w\<lparr>w_value := v\<rparr>) = at_wait ob w"
  by (simp add: at_wait_def)

lemma at_wait_mode:
  "at_wait ob w \<Longrightarrow> ob_call ob t (w_pc w t) = Some (Call_Wait l old k timed) \<Longrightarrow> x = Back \<or> x = Waiting l \<Longrightarrow> at_wait ob (set_mode t x w)"
  by (auto simp: at_wait_def set_mode_def)

lemma at_wait_woken: "at_wait ob w \<Longrightarrow> (\<And>u. m u = w_mode w u \<or> w_mode w u \<noteq> Going \<and> m u = Back) \<Longrightarrow> at_wait ob (w\<lparr>w_mode := m\<rparr>)"
  unfolding at_wait_def by simp metis

lemma at_wait_step: "lib_step ob w w' \<Longrightarrow> at_wait ob w \<Longrightarrow> at_wait ob w'"
proof (induction rule: lib_step.induct)
  case (lib_wake_one w t l u pf)
  have "at_wait ob (w\<lparr>w_mode := (w_mode w)(u := Back)\<rparr>)" by (rule at_wait_woken) (use lib_wake_one in auto)
  then show ?case by (simp add: at_wait_go set_mode_def)
next
  case (lib_wake_all w t l pf)
  have "at_wait ob (w\<lparr>w_mode := \<lambda>u. if w_mode w u = Waiting l then Back else w_mode w u\<rparr>)"
    by (rule at_wait_woken) (use lib_wake_all in auto)
  then show ?case by (rule at_wait_go)
qed (auto intro: at_wait_go at_wait_mode)

text \<open>Only threads of the simulation are anywhere else than at the start.\<close>

definition at_start :: "'pc \<Rightarrow> ('pc, 'f) world \<Rightarrow> bool" where
  "at_start pc w \<longleftrightarrow> (\<forall>t. w_pc w t \<noteq> pc \<longrightarrow> 1 \<le> t \<and> t \<le> kMaxThreads)"

lemma at_start_go: "at_start pc w \<Longrightarrow> 1 \<le> t \<and> t \<le> kMaxThreads \<Longrightarrow> at_start pc (go t pf w)"
  by (simp add: at_start_def go_def)

lemma at_start_same [simp]:
  "at_start pc (w\<lparr>w_value := v\<rparr>) = at_start pc w" "at_start pc (w\<lparr>w_mode := m\<rparr>) = at_start pc w" "at_start pc (set_mode t x w) = at_start pc w"
  by (simp_all add: at_start_def set_mode_def)

lemma at_start_step:
  assumes "lib_step ob w w'" and "at_start pc w" and "at_wait ob w" and "\<And>t. ob_call ob t pc = None"
  shows "at_start pc w'"
proof -
  have b: "1 \<le> t \<and> t \<le> kMaxThreads" if "ob_call ob t (w_pc w t) \<noteq> None" for t
    using assms(2,4) that unfolding at_start_def by metis
  have m: "1 \<le> t \<and> t \<le> kMaxThreads" if "w_mode w t = Back" for t
    using at_waitD [OF assms(3), of t] b [of t] that by (metis mode.distinct(3) option.distinct(1))
  show ?thesis using assms(1)
  proof cases
    case (lib_back t pf)
    then show ?thesis using at_start_go [OF assms(2) m] by simp
  qed (use at_start_go [OF assms(2)] b assms(2) in \<open>auto intro!: at_start_go\<close>)
qed

lemma run_everywhere:
  assumes "lib_run ob (new_world v f pc) w" and "\<And>t. ob_call ob t pc = None"
  shows "at_wait ob w" and "at_start pc w"
proof -
  from assms(1) have "at_wait ob w \<and> at_start pc w"
  proof (induction rule: lib_run.induct)
    case run_start
    then show ?case by (simp add: at_wait_def at_start_def new_world_def)
  next
    case (run_step w1 w2)
    then show ?case using at_wait_step at_start_step [OF _ _ _ assms(2)] by blast
  qed
  then show "at_wait ob w" "at_start pc w" by simp_all
qed

section \<open>Refinement\<close>

text \<open>
  An object implements another through a map of its worlds: each of its steps is a step of the other,
  or changes nothing that the other sees.
\<close>

locale lib_refines =
  fixes ob :: "('pc, 'f, 'op) object" and w0 :: "('pc, 'f) world"
    and ob' :: "('pc2, 'f2, 'op2) object" and w0' :: "('pc2, 'f2) world" and view :: "('pc, 'f) world \<Rightarrow> ('pc2, 'f2) world"
  assumes view_new: "view w0 = w0'"
    and view_step: "lib_run ob w0 w \<Longrightarrow> lib_step ob w w1 \<Longrightarrow> view w1 = view w \<or> lib_step ob' (view w) (view w1)"
begin

lemma view_run: "lib_run ob w0 w \<Longrightarrow> lib_run ob' w0' (view w)"
proof (induction rule: lib_run.induct)
  case run_start
  then show ?case by (simp add: view_new lib_run.run_start)
next
  case (run_step w1 w2)
  then show ?case using view_step [of w1 w2] lib_run.run_step by metis
qed

end

end
