(* ===== verification/Mutex_Lib.thy ===== *)
theory Mutex_Lib
  imports Lib_Machine
begin

text \<open>
  \<open>std::mutex\<close> of the user library (\<open>rt/sim/user/library/std_like/mutex.hpp\<close>, \<open>mutex_owner.hpp\<close>), with its proof:
  mutual exclusion, the check of the owner, and that no wakeup is lost although \<open>Unlock\<close> wakes only when
  its count of contending threads says so.
\<close>

section \<open>The owner\<close>

text \<open>\<open>kImpossibleThreadId\<close> is \<open>None\<close>.\<close>

type_synonym mutex_owner = "tid option"

definition owner_Lock :: "tid \<Rightarrow> mutex_owner" where
  "owner_Lock t = Some t"

definition Own :: "tid \<Rightarrow> mutex_owner \<Rightarrow> bool" where
  "Own t ow \<longleftrightarrow> ow = Some t"

definition owner_Unlock :: "tid \<Rightarrow> mutex_owner \<Rightarrow> fault + mutex_owner" where
  "owner_Unlock t ow = bindE (verify (Own t ow) (SysAbortEx LibraryAssert)) (\<lambda>_. Inr None)"

section \<open>The code of the mutex\<close>

text \<open>\<open>State\<close>, and the atomic \<open>locked_\<close>, the only one of the object.\<close>

definition Unlocked :: word32 where "Unlocked = 0"
definition Locked :: word32 where "Locked = 1"
definition locked_var :: addr where "locked_var = 0"

lemma Locked_Unlocked [simp]: "Locked \<noteq> Unlocked" "Unlocked \<noteq> Locked"
  by (simp_all add: Locked_def Unlocked_def)

datatype mutex_pc = Outside | LockExchange | LockFutexWait | TryLockCas | Inside | UnlockStore | UnlockFutexWake

datatype lock_op = Do_lock | Do_try_lock | Do_unlock

record mutex =
  mx_contention :: nat
  mx_owner :: mutex_owner

definition new_mutex :: mutex where
  "new_mutex = \<lparr>mx_contention = 0, mx_owner = None\<rparr>"

fun mutex_call :: "tid \<Rightarrow> mutex_pc \<Rightarrow> lib_call option" where
  "mutex_call t LockExchange = Some (Call_Sync locked_var (Op_Exchange Locked acquire))"
| "mutex_call t LockFutexWait = Some (Call_Wait locked_var Locked FtMutexLock False)"
| "mutex_call t TryLockCas = Some (Call_Sync locked_var (Op_Cas Weak Unlocked Locked acquire relaxed))"
| "mutex_call t UnlockStore = Some (Call_Sync locked_var (Op_Store Unlocked release))"
| "mutex_call t UnlockFutexWake = Some (Call_Wake locked_var 1)"
| "mutex_call t Outside = None"
| "mutex_call t Inside = None"

text \<open>\<open>lock\<close> and \<open>try_lock\<close> record the owner when \<open>Lock\<close> or \<open>TryLock\<close> of the implementation has the mutex.\<close>

definition mutex_acquired :: "tid \<Rightarrow> mutex \<Rightarrow> mutex_pc \<times> mutex" where
  "mutex_acquired t m = (Inside, m\<lparr>mx_owner := owner_Lock t\<rparr>)"

fun mutex_resume :: "tid \<Rightarrow> answer \<Rightarrow> mutex_pc \<Rightarrow> mutex \<Rightarrow> fault + mutex_pc \<times> mutex" where
  "mutex_resume t (Ans_Value v) LockExchange m =
     Inr (if v = Locked then (LockFutexWait, m\<lparr>mx_contention := mx_contention m + 1\<rparr>) else mutex_acquired t m)"
| "mutex_resume t No_Answer LockFutexWait m = Inr (LockExchange, m\<lparr>mx_contention := mx_contention m - 1\<rparr>)"
| "mutex_resume t (Ans_Cas b v) TryLockCas m = Inr (if b then mutex_acquired t m else (Outside, m))"
| "mutex_resume t No_Answer UnlockStore m = Inr (if mx_contention m > 0 then UnlockFutexWake else Outside, m)"
| "mutex_resume t No_Answer UnlockFutexWake m = Inr (Outside, m)"
| "mutex_resume t a pc m = Inl (Panic ''unreachable'')"

text \<open>A thread that holds the mutex does not lock it again: that is undefined in C++.\<close>

fun mutex_begin :: "tid \<Rightarrow> lock_op \<Rightarrow> mutex_pc \<Rightarrow> mutex \<Rightarrow> fault + mutex_pc \<times> mutex" where
  "mutex_begin t Do_unlock pc m = bindE (owner_Unlock t (mx_owner m)) (\<lambda>ow. Inr (UnlockStore, m\<lparr>mx_owner := ow\<rparr>))"
| "mutex_begin t Do_lock Outside m = Inr (LockExchange, m)"
| "mutex_begin t Do_try_lock Outside m = Inr (TryLockCas, m)"
| "mutex_begin t op pc m = Inl (Panic ''undefined behaviour'')"

definition mutex_object :: "(mutex_pc, mutex, lock_op) object" where
  "mutex_object = \<lparr>ob_call = mutex_call, ob_resume = mutex_resume, ob_begin = mutex_begin\<rparr>"

definition mutex_world :: "(mutex_pc, mutex) world" where
  "mutex_world = new_world (\<lambda>_. Unlocked) new_mutex Outside"

section \<open>The invariant\<close>

text \<open>The threads that have taken the mutex, and those that will look at it again or wake another.\<close>

definition mutex_held :: "(mutex_pc, mutex) world \<Rightarrow> tid \<Rightarrow> bool" where
  "mutex_held w t \<longleftrightarrow> w_pc w t = Inside \<or> w_pc w t = UnlockStore"

definition mutex_pending :: "(mutex_pc, mutex) world \<Rightarrow> tid \<Rightarrow> bool" where
  "mutex_pending w t \<longleftrightarrow> w_pc w t = LockExchange \<or> w_pc w t = UnlockFutexWake \<or> w_pc w t = LockFutexWait \<and> w_mode w t \<noteq> Waiting locked_var"

definition contending :: "(mutex_pc, mutex) world \<Rightarrow> tid set" where
  "contending w = {t. w_pc w t = LockFutexWait}"

definition mutex_inv :: "(mutex_pc, mutex) world \<Rightarrow> bool" where
  "mutex_inv w \<longleftrightarrow>
     (\<forall>t u. mutex_held w t \<longrightarrow> mutex_held w u \<longrightarrow> t = u) \<and>
     w_value w locked_var = (if \<exists>t. mutex_held w t then Locked else Unlocked) \<and>
     (\<forall>t. mx_owner (w_fields w) = Some t \<longleftrightarrow> w_pc w t = Inside) \<and>
     (\<forall>t. w_mode w t \<noteq> Going \<longrightarrow> w_pc w t = LockFutexWait \<and> (w_mode w t = Back \<or> w_mode w t = Waiting locked_var)) \<and>
     finite (contending w) \<and> mx_contention (w_fields w) = card (contending w) \<and>
     ((\<exists>t. w_mode w t = Waiting locked_var) \<longrightarrow> (\<exists>t. mutex_held w t) \<or> (\<exists>t. mutex_pending w t))"

lemma mutex_invD:
  assumes "mutex_inv w"
  shows "mutex_held w t \<Longrightarrow> mutex_held w u \<Longrightarrow> t = u"
    and "w_value w locked_var = (if \<exists>t. mutex_held w t then Locked else Unlocked)"
    and "mx_owner (w_fields w) = Some t \<longleftrightarrow> w_pc w t = Inside"
    and "w_mode w t \<noteq> Going \<Longrightarrow> w_pc w t = LockFutexWait \<and> (w_mode w t = Back \<or> w_mode w t = Waiting locked_var)"
    and "finite (contending w)" and "mx_contention (w_fields w) = card (contending w)"
    and "w_mode w t = Waiting locked_var \<Longrightarrow> (\<exists>t. mutex_held w t) \<or> (\<exists>t. mutex_pending w t)"
  using assms unfolding mutex_inv_def by blast+

lemma contending_go: "contending (go t pf w) = (if fst pf = LockFutexWait then insert t (contending w) else contending w - {t})"
  by (auto simp: contending_def go_def)

lemma contending_same [simp]: "contending (w\<lparr>w_value := v\<rparr>) = contending w" "contending (w\<lparr>w_mode := m\<rparr>) = contending w"
  "contending (set_mode t x w) = contending w"
  by (simp_all add: contending_def set_mode_def)

lemma contending_iff: "t \<in> contending w \<longleftrightarrow> w_pc w t = LockFutexWait"
  by (simp add: contending_def)

text \<open>A step of \<open>t\<close> that leaves the number of contending threads alone.\<close>

lemma contending_other: "fst pf \<noteq> LockFutexWait \<Longrightarrow> w_pc w t \<noteq> LockFutexWait \<Longrightarrow> contending (go t pf w) = contending w"
  by (auto simp: contending_def go_def)

lemma mutex_inv_begin:
  assumes I: "mutex_inv w" and g: "w_mode w t = Going" and c: "mutex_call t (w_pc w t) = None"
    and b: "mutex_begin t op (w_pc w t) (w_fields w) = Inr pf"
  shows "mutex_inv (go t pf w)"
proof -
  note D = mutex_invD [OF I]
  have pc: "w_pc w t = Outside \<or> w_pc w t = Inside" using c by (cases "w_pc w t") auto
  consider (lock) "w_pc w t = Outside" "pf = (LockExchange, w_fields w)" | (attempt) "w_pc w t = Outside" "pf = (TryLockCas, w_fields w)"
    | (unlock) "w_pc w t = Inside" "pf = (UnlockStore, (w_fields w)\<lparr>mx_owner := None\<rparr>)"
    using pc b D(3) [of t] by (cases op) (auto simp: owner_Unlock_def Own_def bindE_eq_Inr)
  then show ?thesis
  proof cases
    case lock
    then have h: "mutex_held (go t pf w) = mutex_held w" by (auto simp: fun_eq_iff mutex_held_def go_def)
    have k: "contending (go t pf w) = contending w" using lock by (simp add: contending_other)
    have p: "mutex_pending (go t pf w) t" using lock by (simp add: mutex_pending_def go_def)
    show ?thesis unfolding mutex_inv_def h k using D lock p g by (auto simp: go_def)
  next
    case attempt
    then have h: "mutex_held (go t pf w) = mutex_held w" by (auto simp: fun_eq_iff mutex_held_def go_def)
    have k: "contending (go t pf w) = contending w" using attempt by (simp add: contending_other)
    have p: "mutex_pending (go t pf w) = mutex_pending w" using attempt g by (auto simp: fun_eq_iff mutex_pending_def go_def)
    show ?thesis unfolding mutex_inv_def h k p using D attempt g by (auto simp: go_def)
  next
    case unlock
    then have h: "mutex_held (go t pf w) = mutex_held w" by (auto simp: fun_eq_iff mutex_held_def go_def)
    have k: "contending (go t pf w) = contending w" using unlock by (simp add: contending_other)
    have ex: "\<exists>t. mutex_held w t" using unlock by (auto simp: mutex_held_def)
    show ?thesis unfolding mutex_inv_def h k using D unlock g ex by (auto simp: go_def mutex_held_def)
  qed
qed

lemma mutex_inv_sync:
  assumes I: "mutex_inv w" and g: "w_mode w t = Going" and c: "mutex_call t (w_pc w t) = Some (Call_Sync l op)"
    and s: "sync_spec spurious op (w_value w l) = (a, v)" and r: "mutex_resume t a (w_pc w t) (w_fields w) = Inr pf"
  shows "mutex_inv (go t pf (w\<lparr>w_value := (w_value w)(l := v)\<rparr>))"
proof -
  note D = mutex_invD [OF I]
  let ?w = "go t pf (w\<lparr>w_value := (w_value w)(l := v)\<rparr>)"
  have l: "l = locked_var" using c by (cases "w_pc w t") auto
  have free: "w_value w l \<noteq> Locked \<Longrightarrow> \<not> mutex_held w u" for u using D(2) l by (auto split: if_splits)
  have taken: "w_value w l = Locked \<Longrightarrow> \<exists>u. mutex_held w u" using D(2) l by (auto split: if_splits)
  consider (got) "v = Locked" "pf = mutex_acquired t (w_fields w)" "w_pc w t = LockExchange \<or> w_pc w t = TryLockCas" "w_value w l \<noteq> Locked"
    | (contend) "v = Locked" "w_value w l = Locked" "pf = (LockFutexWait, (w_fields w)\<lparr>mx_contention := mx_contention (w_fields w) + 1\<rparr>)"
        "w_pc w t = LockExchange"
    | (failed) "v = w_value w l" "pf = (Outside, w_fields w)" "w_pc w t = TryLockCas"
    | (release) "v = Unlocked" "pf = (if mx_contention (w_fields w) > 0 then UnlockFutexWake else Outside, w_fields w)" "w_pc w t = UnlockStore"
    using c s r by (cases "w_pc w t") (auto split: if_splits)
  then show ?thesis
  proof cases
    case got
    have h: "mutex_held ?w u \<longleftrightarrow> u = t" for u
      using free [OF got(4)] got by (auto simp: mutex_held_def go_def mutex_acquired_def)
    have k: "contending ?w = contending w" using got by (auto simp: contending_def go_def mutex_acquired_def)
    have "w_pc w u \<noteq> Inside" for u using free [OF got(4), of u] by (simp add: mutex_held_def)
    then show ?thesis unfolding mutex_inv_def h k using D got g l
      by (auto simp: go_def mutex_acquired_def owner_Lock_def)
  next
    case contend
    have h: "mutex_held ?w = mutex_held w" using contend by (auto simp: fun_eq_iff mutex_held_def go_def)
    have nk: "t \<notin> contending w" using contend by (simp add: contending_iff)
    have k: "contending ?w = insert t (contending w)" using contend by (simp add: contending_go)
    show ?thesis unfolding mutex_inv_def h k using D contend g l nk taken [OF contend(2)] by (auto simp: go_def)
  next
    case failed
    have h: "mutex_held ?w = mutex_held w" using failed by (auto simp: fun_eq_iff mutex_held_def go_def)
    have k: "contending ?w = contending w" using failed by (auto simp: contending_def go_def)
    have p: "mutex_pending ?w = mutex_pending w" using failed g by (auto simp: fun_eq_iff mutex_pending_def go_def)
    show ?thesis unfolding mutex_inv_def h k p using D failed g l by (auto simp: go_def)
  next
    case release
    have only: "mutex_held w u \<Longrightarrow> u = t" for u using D(1) [of u t] release by (simp add: mutex_held_def)
    have h: "\<not> mutex_held ?w u" for u using only [of u] release by (auto simp: mutex_held_def go_def)
    have k: "contending ?w = contending w" using release by (auto simp: contending_def go_def)
    have ni: "w_pc w u \<noteq> Inside" for u using only [of u] release by (auto simp: mutex_held_def)
    have wake: "\<exists>u. mutex_pending ?w u" if u: "w_mode w u = Waiting locked_var" for u
    proof -
      have "u \<in> contending w" using D(4) [of u] u by (simp add: contending_iff)
      then have "mx_contention (w_fields w) > 0" using D(5,6) by (auto simp: card_gt_0_iff)
      then have "mutex_pending ?w t" using release by (simp add: mutex_pending_def go_def)
      then show ?thesis by blast
    qed
    have m: "w_mode ?w = w_mode w" using g by (auto simp: go_def)
    have "(\<exists>u. w_mode w u = Waiting locked_var) \<longrightarrow> (\<exists>u. mutex_pending ?w u)" using wake by blast
    moreover have "mutex_held ?w = (\<lambda>_. False)" using h by blast
    moreover have "w_value ?w locked_var = Unlocked" "mx_contention (w_fields ?w) = mx_contention (w_fields w)"
      "mx_owner (w_fields ?w) = None" "w_pc ?w u \<noteq> Inside" "w_mode w u \<noteq> Going \<Longrightarrow> w_pc ?w u = w_pc w u" for u
      using release l D(3) ni g by (auto simp: go_def)
    ultimately show ?thesis unfolding mutex_inv_def k m using D(4,5,6) by simp
  qed
qed

lemma mutex_inv_wake:
  assumes I: "mutex_inv w" and g: "w_mode w t = Going" and c: "mutex_call t (w_pc w t) = Some (Call_Wake l n)"
    and m: "\<forall>u. w_mode w u = Waiting l \<longrightarrow> m u = Waiting l \<or> m u = Back" "\<forall>u. w_mode w u \<noteq> Waiting l \<longrightarrow> m u = w_mode w u"
      "(\<exists>u. w_mode w u = Waiting l) \<longrightarrow> (\<exists>u. w_mode w u = Waiting l \<and> m u = Back)"
    and r: "mutex_resume t No_Answer (w_pc w t) (w_fields w) = Inr pf"
  shows "mutex_inv (go t pf (w\<lparr>w_mode := m\<rparr>))"
proof -
  note D = mutex_invD [OF I]
  let ?w = "go t pf (w\<lparr>w_mode := m\<rparr>)"
  have pc: "w_pc w t = UnlockFutexWake" and l: "l = locked_var" using c by (cases "w_pc w t"; auto)+
  then have pf: "pf = (Outside, w_fields w)" using r by simp
  have h: "mutex_held ?w = mutex_held w" using pc pf by (auto simp: fun_eq_iff mutex_held_def go_def)
  have k: "contending ?w = contending w" using pc pf by (auto simp: contending_def go_def)
  have wake: "\<exists>v. mutex_pending ?w v" if "w_mode ?w u = Waiting locked_var" for u
  proof -
    have "w_mode w u = Waiting l" using that m(2) l by (auto simp: go_def split: if_splits)
    then obtain v where v: "w_mode w v = Waiting l" "m v = Back" using m(3) by blast
    then have "w_pc w v = LockFutexWait" "v \<noteq> t" using D(4) [of v] pc by auto
    then have "mutex_pending ?w v" using v by (simp add: mutex_pending_def go_def)
    then show ?thesis by blast
  qed
  have "w_mode ?w u \<noteq> Going \<Longrightarrow> w_pc ?w u = LockFutexWait \<and> (w_mode ?w u = Back \<or> w_mode ?w u = Waiting locked_var)" for u
    using m(1,2) D(4) [of u] l by (cases "u = t"; cases "w_mode w u = Waiting locked_var") (auto simp: go_def)
  moreover have "(\<exists>u. w_mode ?w u = Waiting locked_var) \<longrightarrow> (\<exists>u. mutex_pending ?w u)" using wake by blast
  moreover have "w_value ?w = w_value w" "w_fields ?w = w_fields w" "w_pc ?w u = Inside \<longleftrightarrow> w_pc w u = Inside" for u
    using pc pf by (auto simp: go_def)
  ultimately show ?thesis unfolding mutex_inv_def h k using D(1,2,3,5,6) by simp
qed

lemma mutex_inv_mode:
  assumes I: "mutex_inv w" and c: "mutex_call t (w_pc w t) = Some (Call_Wait l old k timed)"
    and x: "x = Back \<or> x = Waiting l \<and> w_value w l = old"
  shows "mutex_inv (set_mode t x w)"
proof -
  note D = mutex_invD [OF I]
  let ?w = "set_mode t x w"
  have pc: "w_pc w t = LockFutexWait" and l: "l = locked_var" "old = Locked" using c by (cases "w_pc w t"; auto)+
  have h: "mutex_held ?w = mutex_held w" by (auto simp: fun_eq_iff mutex_held_def set_mode_def)
  have b: "x = Back \<Longrightarrow> mutex_pending ?w t" using pc by (simp add: mutex_pending_def set_mode_def)
  have wt: "x \<noteq> Back \<Longrightarrow> \<exists>u. mutex_held w u" using x l D(2) by (auto split: if_splits)
  show ?thesis unfolding mutex_inv_def h using D pc l x b wt by (auto simp: set_mode_def)
qed

lemma mutex_inv_back:
  assumes I: "mutex_inv w" and g: "w_mode w t = Back" and r: "mutex_resume t No_Answer (w_pc w t) (w_fields w) = Inr pf"
  shows "mutex_inv (go t pf w)"
proof -
  note D = mutex_invD [OF I]
  have pc: "w_pc w t = LockFutexWait" using D(4) [of t] g by simp
  then have pf: "pf = (LockExchange, (w_fields w)\<lparr>mx_contention := mx_contention (w_fields w) - 1\<rparr>)" using r by simp
  have h: "mutex_held (go t pf w) = mutex_held w" using pc pf by (auto simp: fun_eq_iff mutex_held_def go_def)
  have k: "contending (go t pf w) = contending w - {t}" and tk: "t \<in> contending w" using pc pf by (auto simp: contending_def go_def)
  have p: "mutex_pending (go t pf w) t" using pf by (simp add: mutex_pending_def go_def)
  show ?thesis unfolding mutex_inv_def h k using D pf p tk pc by (auto simp: go_def)
qed

interpretation mutex_class: lib_class mutex_object mutex_world mutex_inv
proof (unfold_locales, goal_cases)
  case 1
  then show ?case
    by (simp add: mutex_inv_def mutex_world_def new_world_def new_mutex_def mutex_held_def contending_def)
next
  case (2 w t op pf)
  then show ?case by (simp add: mutex_object_def mutex_inv_begin)
next
  case (3 w t l sop spurious a v pf)
  then show ?case by (simp add: mutex_object_def mutex_inv_sync)
next
  case (4 w t b pf)
  then show ?case by (cases "w_pc w t") (simp_all add: mutex_object_def)
next
  case (5 w t l n m pf)
  then show ?case by (simp add: mutex_object_def mutex_inv_wake)
next
  case (6 w t l old k timed)
  then show ?case by (intro mutex_inv_mode [where old = old and k = k and timed = timed and l = l]) (simp_all add: mutex_object_def)
next
  case (7 w t l old k timed)
  then show ?case by (intro mutex_inv_mode [where old = old and k = k and timed = timed and l = l]) (simp_all add: mutex_object_def)
next
  case (8 w t pf)
  then show ?case by (simp add: mutex_object_def mutex_inv_back)
qed

section \<open>Theorems\<close>

text \<open>
  C17: mutual exclusion of \<open>std::mutex\<close>. However threads that lock, try to lock and unlock are interleaved,
  at most one of them is between \<open>lock\<close> (or a successful \<open>try_lock\<close>) and the store of \<open>unlock\<close>; the recorded
  owner is that thread as long as it holds the mutex, and an \<open>unlock\<close> by any other thread ends the run with
  the status of a failed library assertion.
\<close>

theorem mutex_exclusive:
  assumes "lib_run mutex_object mutex_world w"
  shows "(\<forall>t u. w_pc w t \<in> {Inside, UnlockStore} \<longrightarrow> w_pc w u \<in> {Inside, UnlockStore} \<longrightarrow> t = u) \<and>
    (\<forall>t. mx_owner (w_fields w) = Some t \<longleftrightarrow> w_pc w t = Inside) \<and>
    (\<forall>t. w_pc w t \<noteq> Inside \<longrightarrow> mutex_begin t Do_unlock (w_pc w t) (w_fields w) = Inl (SysAbortEx LibraryAssert))"
proof -
  note D = mutex_invD [OF mutex_class.inv_run [OF assms]]
  have "w_pc w t \<in> {Inside, UnlockStore} \<longrightarrow> w_pc w u \<in> {Inside, UnlockStore} \<longrightarrow> t = u" for t u
    using D(1) [of t u] by (simp add: mutex_held_def)
  moreover have "w_pc w t \<noteq> Inside \<longrightarrow> mutex_begin t Do_unlock (w_pc w t) (w_fields w) = Inl (SysAbortEx LibraryAssert)" for t
    using D(3) [of t] by (simp add: owner_Unlock_def Own_def)
  ultimately show ?thesis using D(3) by blast
qed

text \<open>
  C18: no wakeup of a waiter of \<open>std::mutex\<close> is lost, although \<open>unlock\<close> only wakes when its counter of
  contending threads is not zero: as long as some thread is parked on the mutex, another one holds it, is
  about to wake a waiter, or is about to try to take it. The counter is exactly the number of threads between
  a failed exchange and their return from the futex.
\<close>

theorem mutex_no_lost_wakeup:
  assumes "lib_run mutex_object mutex_world w"
  shows "((\<exists>t. w_mode w t = Waiting locked_var) \<longrightarrow>
      (\<exists>u. w_mode w u \<noteq> Waiting locked_var \<and> w_pc w u \<in> {Inside, UnlockStore, UnlockFutexWake, LockExchange, LockFutexWait})) \<and>
    mx_contention (w_fields w) = card {t. w_pc w t = LockFutexWait} \<and>
    (w_value w locked_var = Unlocked \<longleftrightarrow> (\<forall>t. w_pc w t \<notin> {Inside, UnlockStore}))"
proof -
  note D = mutex_invD [OF mutex_class.inv_run [OF assms]]
  have "\<exists>u. w_mode w u \<noteq> Waiting locked_var \<and> w_pc w u \<in> {Inside, UnlockStore, UnlockFutexWake, LockExchange, LockFutexWait}"
    if t: "w_mode w t = Waiting locked_var" for t
  proof -
    obtain u where "mutex_held w u \<or> mutex_pending w u" using D(7) [OF t] by blast
    moreover have "w_mode w u = Waiting locked_var \<Longrightarrow> w_pc w u = LockFutexWait" using D(4) [of u] by simp
    ultimately show ?thesis by (intro exI [of _ u]) (auto simp: mutex_held_def mutex_pending_def)
  qed
  moreover have "w_value w locked_var = Unlocked \<longleftrightarrow> (\<forall>t. w_pc w t \<notin> {Inside, UnlockStore})"
    using D(2) by (simp add: mutex_held_def)
  ultimately show ?thesis using D(6) by (auto simp: contending_def)
qed

text \<open>Two threads: the first takes the mutex, the second parks.\<close>

definition contended :: "(mutex_pc, mutex) world" where
  "contended = \<lparr>w_value = (\<lambda>_. Unlocked)(0 := Locked), w_fields = \<lparr>mx_contention = 1, mx_owner = Some 1\<rparr>,
     w_pc = (\<lambda>_. Outside)(1 := Inside, 2 := LockFutexWait), w_mode = (\<lambda>_. Going)(2 := Waiting 0)\<rparr>"

lemma contended_run: "lib_run mutex_object mutex_world contended"
proof -
  let ?w1 = "go 1 (LockExchange, new_mutex) mutex_world"
  let ?w2 = "go 1 (Inside, \<lparr>mx_contention = 0, mx_owner = Some 1\<rparr>) (?w1\<lparr>w_value := (w_value ?w1)(locked_var := Locked)\<rparr>)"
  let ?w3 = "go 2 (LockExchange, w_fields ?w2) ?w2"
  let ?w4 = "go 2 (LockFutexWait, \<lparr>mx_contention = 1, mx_owner = Some 1\<rparr>) (?w3\<lparr>w_value := (w_value ?w3)(locked_var := Locked)\<rparr>)"
  note defs = go_def mutex_object_def mutex_world_def new_world_def new_mutex_def mutex_acquired_def owner_Lock_def locked_var_def
  have s1: "lib_step mutex_object mutex_world ?w1" by (rule lib_begin [where op = Do_lock]) (simp_all add: defs kMaxThreads_def)
  have s2: "lib_step mutex_object ?w1 ?w2"
    by (rule lib_sync [where op = "Op_Exchange Locked acquire" and a = "Ans_Value Unlocked" and spurious = False]) (simp_all add: defs)
  have s3: "lib_step mutex_object ?w2 ?w3" by (rule lib_begin [where op = Do_lock]) (simp_all add: defs kMaxThreads_def)
  have s4: "lib_step mutex_object ?w3 ?w4"
    by (rule lib_sync [where op = "Op_Exchange Locked acquire" and a = "Ans_Value Locked" and spurious = False]) (simp_all add: defs)
  have s5: "lib_step mutex_object ?w4 (set_mode 2 (Waiting locked_var) ?w4)"
    by (rule lib_park [where old = Locked and k = FtMutexLock and timed = False]) (simp_all add: defs)
  have "set_mode 2 (Waiting locked_var) ?w4 = contended"
    by (simp add: defs set_mode_def contended_def fun_upd_twist fun_upd_idem)
  then show ?thesis
    using run_step [OF run_step [OF run_step [OF run_step [OF run_step [OF run_start s1] s2] s3] s4] s5] by simp
qed

theorem mutex_exclusive_witness:
  "mx_owner (w_fields contended) = Some 1 \<and> w_pc contended 1 = Inside \<and>
     mutex_begin 2 Do_unlock (w_pc contended 2) (w_fields contended) = Inl (SysAbortEx LibraryAssert)"
  using mutex_exclusive [OF contended_run] by (simp add: contended_def)

theorem mutex_no_lost_wakeup_witness:
  "w_mode contended 2 = Waiting locked_var \<and> mx_contention (w_fields contended) = card {t. w_pc contended t = LockFutexWait} \<and>
     (\<exists>u. w_mode contended u \<noteq> Waiting locked_var \<and> w_pc contended u \<in> {Inside, UnlockStore, UnlockFutexWake, LockExchange, LockFutexWait})"
  using mutex_no_lost_wakeup [OF contended_run] by (auto simp: contended_def locked_var_def)

end
