(* ===== verification/Shared_Mutex_Lib.thy ===== *)
theory Shared_Mutex_Lib
  imports Mutex_Lib
begin

text \<open>
  \<open>std::shared_mutex\<close> of the user library (\<open>rt/sim/user/library/std_like/shared_mutex.hpp\<close>): one 32-bit state
  with a writer bit and the number of readers, compare-and-exchange loops, and futex waits on the state that
  was seen. Its proof: writers exclude everybody, the state counts the readers exactly, and no wakeup is lost.
\<close>

section \<open>The state\<close>

definition Unpack :: "word32 \<Rightarrow> bool \<times> word32" where
  "Unpack state = (and state 1 = 1, drop_bit 1 state)"

definition Pack :: "bool \<Rightarrow> word32 \<Rightarrow> word32" where
  "Pack writer readers = or (push_bit 1 readers) (if writer then 1 else 0)"

definition state_var :: addr where "state_var = 0"

lemma Pack_readers: "Pack False (word_of_nat n) = word_of_nat (2 * n)"
  by (simp add: Pack_def push_bit_eq_mult)

lemma Pack_writer: "Pack True 0 = 1"
  by (simp add: Pack_def)

lemma Unpack_writer: "Unpack 1 = (True, 0)"
  by (simp add: Unpack_def)

lemma unat_small: "m < 2 ^ 32 \<Longrightarrow> unat (word_of_nat m :: word32) = m"
  by (simp add: unat_of_nat)

lemma Unpack_readers:
  assumes n: "n < 2 ^ 31"
  shows "Unpack (word_of_nat (2 * n)) = (False, word_of_nat n)"
proof -
  have w: "(word_of_nat (2 * n) :: word32) = push_bit 1 (word_of_nat n)" by (simp add: push_bit_eq_mult)
  have "and (push_bit m x :: word32) 1 = 0" if "0 < m" for m x
    by (rule bit_word_eqI) (use that in \<open>auto simp: bit_simps\<close>)
  from this [of 1] have "and (push_bit 1 (word_of_nat n) :: word32) 1 = 0" by simp
  moreover have "drop_bit 1 (word_of_nat (2 * n) :: word32) = word_of_nat n"
  proof (rule word_unat_eq_iff [THEN iffD2])
    have u: "unat (word_of_nat (2 * n) :: word32) = 2 * n" "unat (word_of_nat n :: word32) = n"
      by (rule unat_small, use n in simp)+
    have "unat (drop_bit 1 x :: word32) = unat x div 2" for x
      by (simp add: drop_bit_Suc unat_div)
    then show "unat (drop_bit 1 (word_of_nat (2 * n) :: word32)) = unat (word_of_nat n :: word32)"
      by (simp only: u nonzero_mult_div_cancel_left [of 2 n] zero_neq_numeral not_False_eq_True)
  qed
  ultimately show ?thesis unfolding Unpack_def w by simp
qed

lemma readers_zero:
  assumes "n < 2 ^ 31"
  shows "(word_of_nat (2 * n) :: word32) = 0 \<longleftrightarrow> n = 0"
proof -
  have "unat (word_of_nat (2 * n) :: word32) = 2 * n" by (rule unat_small, use assms in simp)
  then show ?thesis by (metis mult_eq_0_iff of_nat_0 unat_0 zero_neq_numeral)
qed

lemma readers_one:
  assumes "n < 2 ^ 31"
  shows "(word_of_nat n :: word32) = 1 \<longleftrightarrow> n = 1"
proof -
  have "unat (word_of_nat n :: word32) = n" by (rule unat_small, use assms in simp)
  then show ?thesis by (metis of_nat_1 unat_1)
qed

section \<open>The code\<close>

text \<open>The places carry the local variable \<open>state\<close>.\<close>

datatype shared_pc =
  S_Outside | W_Load | W_Cas word32 | W_Wait word32 | W_TryCas | S_Writer | W_UnlockStore | W_UnlockWake
| R_Load | R_Cas word32 | R_Wait word32 | R_TryLoad | R_TryCas word32 | S_Reader | R_FetchSub | R_Wake

datatype shared_op = Sh_lock | Sh_try_lock | Sh_unlock | Sh_lock_shared | Sh_try_lock_shared | Sh_unlock_shared

fun shared_call :: "tid \<Rightarrow> shared_pc \<Rightarrow> lib_call option" where
  "shared_call t W_Load = Some (Call_Sync state_var (Op_Load acquire))"
| "shared_call t (W_Cas state) = Some (Call_Sync state_var (Op_Cas Strong state (Pack True 0) relaxed relaxed))"
| "shared_call t (W_Wait state) = Some (Call_Wait state_var state FtMutexLock False)"
| "shared_call t W_TryCas = Some (Call_Sync state_var (Op_Cas Weak (Pack False 0) (Pack True 0) acquire relaxed))"
| "shared_call t W_UnlockStore = Some (Call_Sync state_var (Op_Store (Pack False 0) release))"
| "shared_call t W_UnlockWake = Some (Call_Wake state_var 0)"
| "shared_call t R_Load = Some (Call_Sync state_var (Op_Load acquire))"
| "shared_call t (R_Cas state) = Some (Call_Sync state_var (Op_Cas Strong state (Pack False (snd (Unpack state) + 1)) relaxed relaxed))"
| "shared_call t (R_Wait state) = Some (Call_Wait state_var state FtMutexLock False)"
| "shared_call t R_TryLoad = Some (Call_Sync state_var (Op_Load acquire))"
| "shared_call t (R_TryCas state) = Some (Call_Sync state_var (Op_Cas Strong state (Pack False (snd (Unpack state) + 1)) relaxed relaxed))"
| "shared_call t R_FetchSub = Some (Call_Sync state_var (Op_FetchSub 2 release))"
| "shared_call t R_Wake = Some (Call_Wake state_var 1)"
| "shared_call t S_Outside = None"
| "shared_call t S_Writer = None"
| "shared_call t S_Reader = None"

text \<open>The member \<open>owner_\<close> is the writer.\<close>

fun shared_resume :: "tid \<Rightarrow> answer \<Rightarrow> shared_pc \<Rightarrow> mutex_owner \<Rightarrow> fault + shared_pc \<times> mutex_owner" where
  "shared_resume t a W_Load ow = on_value a (\<lambda>state.
     let (writer, readers) = Unpack state in Inr (if \<not> writer \<and> readers = 0 then W_Cas state else W_Wait state, ow))"
| "shared_resume t a (W_Cas state) ow = on_cas a (\<lambda>b. Inr (if b then (S_Writer, owner_Lock t) else (W_Load, ow)))"
| "shared_resume t a (W_Wait state) ow = on_return a (Inr (W_Load, ow))"
| "shared_resume t a W_TryCas ow = on_cas a (\<lambda>b. Inr (if b then (S_Writer, owner_Lock t) else (S_Outside, ow)))"
| "shared_resume t a W_UnlockStore ow = on_return a (Inr (W_UnlockWake, ow))"
| "shared_resume t a W_UnlockWake ow = on_return a (Inr (S_Outside, ow))"
| "shared_resume t a R_Load ow = on_value a (\<lambda>state.
     let (writer, readers) = Unpack state in Inr (if \<not> writer then R_Cas state else R_Wait state, ow))"
| "shared_resume t a (R_Cas state) ow = on_cas a (\<lambda>b. Inr (if b then S_Reader else R_Load, ow))"
| "shared_resume t a (R_Wait state) ow = on_return a (Inr (R_Load, ow))"
| "shared_resume t a R_TryLoad ow = on_value a (\<lambda>state.
     let (writer, readers) = Unpack state in Inr (if \<not> writer then R_TryCas state else S_Outside, ow))"
| "shared_resume t a (R_TryCas state) ow = on_cas a (\<lambda>b. Inr (if b then S_Reader else R_TryLoad, ow))"
| "shared_resume t a R_FetchSub ow = on_value a (\<lambda>old_state.
     let (writer, readers) = Unpack old_state
     in bindE (verify (readers > 0) (SysAbortEx LibraryAssert)) (\<lambda>_. Inr (if readers = 1 then R_Wake else S_Outside, ow)))"
| "shared_resume t a R_Wake ow = on_return a (Inr (S_Outside, ow))"
| "shared_resume t a S_Outside ow = Inl (Panic ''unreachable'')"
| "shared_resume t a S_Writer ow = Inl (Panic ''unreachable'')"
| "shared_resume t a S_Reader ow = Inl (Panic ''unreachable'')"

text \<open>
  The owner is checked by \<open>unlock\<close> only. A second lock by a thread that holds the mutex and an
  \<open>unlock_shared\<close> without a \<open>lock_shared\<close> are undefined in C++.
\<close>

fun shared_begin :: "tid \<Rightarrow> shared_op \<Rightarrow> shared_pc \<Rightarrow> mutex_owner \<Rightarrow> fault + shared_pc \<times> mutex_owner" where
  "shared_begin t Sh_unlock pc ow = bindE (owner_Unlock t ow) (\<lambda>ow1. Inr (W_UnlockStore, ow1))"
| "shared_begin t Sh_unlock_shared pc ow = (if pc = S_Reader then Inr (R_FetchSub, ow) else Inl (Panic ''undefined behaviour''))"
| "shared_begin t Sh_lock pc ow = (if pc = S_Outside then Inr (W_Load, ow) else Inl (Panic ''undefined behaviour''))"
| "shared_begin t Sh_try_lock pc ow = (if pc = S_Outside then Inr (W_TryCas, ow) else Inl (Panic ''undefined behaviour''))"
| "shared_begin t Sh_lock_shared pc ow = (if pc = S_Outside then Inr (R_Load, ow) else Inl (Panic ''undefined behaviour''))"
| "shared_begin t Sh_try_lock_shared pc ow = (if pc = S_Outside then Inr (R_TryLoad, ow) else Inl (Panic ''undefined behaviour''))"

definition shared_object :: "(shared_pc, mutex_owner, shared_op) object" where
  "shared_object = \<lparr>ob_call = shared_call, ob_resume = shared_resume, ob_begin = shared_begin\<rparr>"

definition shared_world :: "(shared_pc, mutex_owner) world" where
  "shared_world = new_world (\<lambda>_. Pack False 0) None S_Outside"

section \<open>The invariant\<close>

definition writing :: "(shared_pc, mutex_owner) world \<Rightarrow> tid \<Rightarrow> bool" where
  "writing w t \<longleftrightarrow> w_pc w t = S_Writer \<or> w_pc w t = W_UnlockStore"

definition readers :: "(shared_pc, mutex_owner) world \<Rightarrow> tid set" where
  "readers w = {t. w_pc w t = S_Reader \<or> w_pc w t = R_FetchSub}"

text \<open>The places from which a thread goes on to take the mutex, or wakes others.\<close>

definition retries :: "shared_pc \<Rightarrow> bool" where
  "retries pc \<longleftrightarrow> (case pc of W_Load \<Rightarrow> True | W_Cas s \<Rightarrow> True | W_Wait s \<Rightarrow> True | R_Load \<Rightarrow> True | R_Cas s \<Rightarrow> True | R_Wait s \<Rightarrow> True
      | W_UnlockWake \<Rightarrow> True | R_Wake \<Rightarrow> True | _ \<Rightarrow> False)"

definition shared_pending :: "(shared_pc, mutex_owner) world \<Rightarrow> tid \<Rightarrow> bool" where
  "shared_pending w t \<longleftrightarrow> w_mode w t \<noteq> Waiting state_var \<and> retries (w_pc w t)"

definition holding :: "shared_pc \<Rightarrow> bool" where
  "holding pc \<longleftrightarrow> pc \<in> {S_Writer, W_UnlockStore, S_Reader, R_FetchSub}"

definition pc_ok :: "shared_pc \<Rightarrow> bool" where
  "pc_ok pc \<longleftrightarrow> (case pc of W_Cas s \<Rightarrow> s = 0 | W_Wait s \<Rightarrow> s \<noteq> 0 | R_Cas s \<Rightarrow> \<not> fst (Unpack s) | R_TryCas s \<Rightarrow> \<not> fst (Unpack s)
      | R_Wait s \<Rightarrow> fst (Unpack s) | _ \<Rightarrow> True)"

definition parks :: "shared_pc \<Rightarrow> bool" where
  "parks pc \<longleftrightarrow> (case pc of W_Wait s \<Rightarrow> True | R_Wait s \<Rightarrow> True | _ \<Rightarrow> False)"

definition shared_inv :: "(shared_pc, mutex_owner) world \<Rightarrow> bool" where
  "shared_inv w \<longleftrightarrow>
     (\<forall>t. w_pc w t \<noteq> S_Outside \<longrightarrow> 1 \<le> t \<and> t \<le> kMaxThreads) \<and> (\<forall>t. pc_ok (w_pc w t)) \<and>
     (\<forall>t u. writing w t \<longrightarrow> writing w u \<longrightarrow> t = u) \<and> ((\<exists>t. writing w t) \<longrightarrow> readers w = {}) \<and>
     w_value w state_var = (if \<exists>t. writing w t then 1 else word_of_nat (2 * card (readers w))) \<and>
     (\<forall>t. w_fields w = Some t \<longleftrightarrow> w_pc w t = S_Writer) \<and>
     (\<forall>t. w_mode w t \<noteq> Going \<longrightarrow> parks (w_pc w t) \<and> (w_mode w t = Back \<or> w_mode w t = Waiting state_var)) \<and>
     ((\<exists>t. w_mode w t = Waiting state_var) \<longrightarrow> (\<exists>t. writing w t) \<or> readers w \<noteq> {} \<or> (\<exists>t. shared_pending w t)) \<and>
     ((\<exists>t s. w_mode w t = Waiting state_var \<and> w_pc w t = R_Wait s) \<longrightarrow> (\<exists>t. writing w t \<or> w_pc w t = W_UnlockWake))"

lemma shared_invD:
  assumes "shared_inv w"
  shows "w_pc w t \<noteq> S_Outside \<Longrightarrow> 1 \<le> t \<and> t \<le> kMaxThreads" and "pc_ok (w_pc w t)"
    and "writing w t \<Longrightarrow> writing w u \<Longrightarrow> t = u" and "writing w t \<Longrightarrow> readers w = {}"
    and "w_value w state_var = (if \<exists>t. writing w t then 1 else word_of_nat (2 * card (readers w)))"
    and "w_fields w = Some t \<longleftrightarrow> w_pc w t = S_Writer"
    and "w_mode w t \<noteq> Going \<Longrightarrow> parks (w_pc w t) \<and> (w_mode w t = Back \<or> w_mode w t = Waiting state_var)"
    and "w_mode w t = Waiting state_var \<Longrightarrow> (\<exists>t. writing w t) \<or> readers w \<noteq> {} \<or> (\<exists>t. shared_pending w t)"
    and "w_mode w t = Waiting state_var \<Longrightarrow> w_pc w t = R_Wait s \<Longrightarrow> \<exists>t. writing w t \<or> w_pc w t = W_UnlockWake"
  using assms unfolding shared_inv_def by blast+

lemma readers_bound:
  assumes "shared_inv w"
  shows "finite (readers w)" and "card (readers w) < 2 ^ 31 - 1" and "card (readers w) \<le> kMaxThreads"
proof -
  have s: "readers w \<subseteq> {1..kMaxThreads}" using shared_invD(1) [OF assms] by (force simp: readers_def)
  then show "finite (readers w)" by (rule finite_subset) simp
  show "card (readers w) \<le> kMaxThreads" using card_mono [OF _ s] by simp
  then show "card (readers w) < 2 ^ 31 - 1" by (simp add: kMaxThreads_def)
qed

text \<open>What the state says.\<close>

lemma state_Unpack:
  assumes "shared_inv w"
  shows "Unpack (w_value w state_var) = (if \<exists>t. writing w t then (True, 0) else (False, word_of_nat (card (readers w))))"
  using shared_invD(5) [OF assms] readers_bound [OF assms] Unpack_writer Unpack_readers [of "card (readers w)"] by auto

lemma state_free:
  assumes "shared_inv w"
  shows "w_value w state_var = 0 \<longleftrightarrow> (\<forall>t. \<not> writing w t) \<and> readers w = {}"
proof -
  have "word_of_nat (2 * card (readers w)) = (0 :: word32) \<longleftrightarrow> card (readers w) = 0"
    by (rule readers_zero) (use readers_bound [OF assms] in simp)
  then show ?thesis using shared_invD(5) [OF assms] readers_bound(1) [OF assms] by (auto simp del: of_nat_mult)
qed

section \<open>Steps keep the invariant\<close>

lemma go_simps [simp]:
  "w_value (go t pf w) = w_value w" "w_fields (go t pf w) = snd pf" "w_pc (go t pf w) = (w_pc w)(t := fst pf)"
  "w_mode (go t pf w) = (w_mode w)(t := Going)"
  by (simp_all add: go_def)

lemma writing_go: "writing (go t pf w) u \<longleftrightarrow> (if u = t then fst pf = S_Writer \<or> fst pf = W_UnlockStore else writing w u)"
  by (simp add: writing_def)

lemma readers_go:
  "readers (go t pf w) = (if fst pf = S_Reader \<or> fst pf = R_FetchSub then insert t (readers w) else readers w - {t})"
  by (auto simp: readers_def)

lemma holders_same [simp]:
  "writing (w\<lparr>w_value := v\<rparr>) = writing w" "readers (w\<lparr>w_value := v\<rparr>) = readers w"
  "writing (w\<lparr>w_mode := m\<rparr>) = writing w" "readers (w\<lparr>w_mode := m\<rparr>) = readers w"
  by (simp_all add: fun_eq_iff writing_def readers_def)

text \<open>A thread that does not hold the mutex moves on, and does not hold it afterwards.\<close>

lemma shared_inv_neutral:
  assumes I: "shared_inv w" and t: "1 \<le> t" "t \<le> kMaxThreads" and md: "w_mode w t \<noteq> Waiting state_var"
    and h: "\<not> holding (w_pc w t)" "\<not> holding pc'" and ok: "pc_ok pc'" and pend: "retries (w_pc w t) \<Longrightarrow> retries pc'"
    and nw: "w_pc w t \<noteq> W_UnlockWake"
  shows "shared_inv (go t (pc', w_fields w) w)"
proof -
  note D = shared_invD [OF I]
  let ?w = "go t (pc', w_fields w) w"
  have wr: "writing ?w = writing w" using h by (auto simp: fun_eq_iff writing_go) (auto simp: writing_def holding_def)
  have rd: "readers ?w = readers w" using h by (auto simp: readers_go) (auto simp: readers_def holding_def)
  have pd: "shared_pending w u \<Longrightarrow> shared_pending ?w u" for u
    using pend md by (cases "u = t") (auto simp: shared_pending_def)
  have "(\<exists>u. w_mode ?w u = Waiting state_var) \<longrightarrow> (\<exists>u. writing w u) \<or> readers w \<noteq> {} \<or> (\<exists>u. shared_pending ?w u)"
    using D(8) pd by (metis fun_upd_apply go_simps(4) mode.distinct(1))
  moreover have "(\<exists>u s. w_mode ?w u = Waiting state_var \<and> w_pc ?w u = R_Wait s) \<longrightarrow> (\<exists>u. writing w u \<or> w_pc ?w u = W_UnlockWake)"
  proof (intro impI)
    assume "\<exists>u s. w_mode ?w u = Waiting state_var \<and> w_pc ?w u = R_Wait s"
    then obtain u s where "w_mode w u = Waiting state_var" "w_pc w u = R_Wait s" by (auto split: if_splits)
    from D(9) [OF this] obtain v where "writing w v \<or> w_pc w v = W_UnlockWake" by blast
    then show "\<exists>u. writing w u \<or> w_pc ?w u = W_UnlockWake" using nw by (intro exI [of _ v]) auto
  qed
  moreover have "\<forall>u. w_fields ?w = Some u \<longleftrightarrow> w_pc ?w u = S_Writer" using D(6) h by (auto simp: holding_def)
  ultimately show ?thesis unfolding shared_inv_def wr rd using D(1,2,3,4,5,7) t ok by auto
qed

text \<open>The writer takes a free mutex.\<close>

lemma shared_inv_acquire:
  assumes I: "shared_inv w" and t: "1 \<le> t" "t \<le> kMaxThreads" and v: "w_value w state_var = 0" and md: "w_mode w t = Going"
  shows "shared_inv (go t (S_Writer, owner_Lock t) (w\<lparr>w_value := (w_value w)(state_var := Pack True 0)\<rparr>))"
proof -
  note D = shared_invD [OF I]
  let ?w = "go t (S_Writer, owner_Lock t) (w\<lparr>w_value := (w_value w)(state_var := Pack True 0)\<rparr>)"
  have n: "\<not> writing w u" and r: "readers w = {}" for u using state_free [OF I] v by auto
  have wr: "writing ?w u \<longleftrightarrow> u = t" for u using n by (simp add: writing_go)
  have rd: "readers ?w = {}" using r by (simp add: readers_go)
  have "w_pc w u \<noteq> S_Writer" for u using n [of u] by (simp add: writing_def)
  then have "\<forall>u. w_fields ?w = Some u \<longleftrightarrow> w_pc ?w u = S_Writer" by (auto simp: owner_Lock_def)
  moreover have "pc_ok S_Writer" by (simp add: pc_ok_def)
  ultimately show ?thesis unfolding shared_inv_def wr rd using D(1,2,7) t by (auto simp: Pack_writer)
qed

text \<open>A reader joins the others.\<close>

lemma shared_inv_reader:
  assumes I: "shared_inv w" and t: "1 \<le> t" "t \<le> kMaxThreads" and md: "w_mode w t = Going" and h: "\<not> holding (w_pc w t)"
    and s: "\<not> fst (Unpack (w_value w state_var))" and nw: "w_pc w t \<noteq> W_UnlockWake"
  shows "shared_inv (go t (S_Reader, w_fields w)
     (w\<lparr>w_value := (w_value w)(state_var := Pack False (snd (Unpack (w_value w state_var)) + 1))\<rparr>))"
proof -
  note D = shared_invD [OF I]
  let ?v = "Pack False (snd (Unpack (w_value w state_var)) + 1)"
  let ?w = "go t (S_Reader, w_fields w) (w\<lparr>w_value := (w_value w)(state_var := ?v)\<rparr>)"
  have n: "\<not> writing w u" for u using s state_Unpack [OF I] by (auto split: if_splits)
  have nt: "t \<notin> readers w" using h by (simp add: readers_def holding_def)
  have wr: "\<not> writing ?w u" for u using n by (simp add: writing_go)
  have rd: "readers ?w = insert t (readers w)" by (simp add: readers_go)
  have "?v = Pack False (word_of_nat (card (readers w) + 1))" using state_Unpack [OF I] n by (simp add: add.commute)
  also have "\<dots> = word_of_nat (2 * (card (readers w) + 1))" by (rule Pack_readers)
  also have "card (readers w) + 1 = card (readers ?w)" using nt readers_bound(1) [OF I] unfolding rd by simp
  finally have v: "?v = word_of_nat (2 * card (readers ?w))" .
  have "w_pc w u \<noteq> S_Writer" for u using n [of u] by (simp add: writing_def)
  then have "\<forall>u. w_fields ?w = Some u \<longleftrightarrow> w_pc ?w u = S_Writer" using D(6) by auto
  moreover have "pc_ok S_Reader" by (simp add: pc_ok_def)
  moreover have "(\<exists>u s. w_mode ?w u = Waiting state_var \<and> w_pc ?w u = R_Wait s) \<longrightarrow> (\<exists>u. w_pc ?w u = W_UnlockWake)"
  proof (intro impI)
    assume "\<exists>u s. w_mode ?w u = Waiting state_var \<and> w_pc ?w u = R_Wait s"
    then obtain u s where "w_mode w u = Waiting state_var" "w_pc w u = R_Wait s" by (auto split: if_splits)
    from D(9) [OF this] obtain v where "w_pc w v = W_UnlockWake" using n by blast
    then show "\<exists>u. w_pc ?w u = W_UnlockWake" using nw by (intro exI [of _ v]) auto
  qed
  ultimately show ?thesis unfolding shared_inv_def using D(1,2,7) t wr rd v by (auto simp del: of_nat_mult)
qed

text \<open>The writer releases.\<close>

lemma shared_inv_release:
  assumes I: "shared_inv w" and pc: "w_pc w t = W_UnlockStore" and md: "w_mode w t = Going"
  shows "shared_inv (go t (W_UnlockWake, w_fields w) (w\<lparr>w_value := (w_value w)(state_var := Pack False 0)\<rparr>))"
proof -
  note D = shared_invD [OF I]
  let ?w = "go t (W_UnlockWake, w_fields w) (w\<lparr>w_value := (w_value w)(state_var := Pack False 0)\<rparr>)"
  have tw: "writing w t" using pc by (simp add: writing_def)
  have r: "readers w = {}" by (rule D(4) [OF tw])
  have only: "u = t" if "writing w u" for u by (rule D(3) [OF that tw])
  have wr: "\<not> writing ?w u" for u using only [of u] by (auto simp: writing_go)
  have rd: "readers ?w = {}" using r by (simp add: readers_go)
  have "w_pc w u \<noteq> S_Writer" for u using only [of u] pc by (auto simp: writing_def)
  then have "\<forall>u. w_fields ?w = Some u \<longleftrightarrow> w_pc ?w u = S_Writer" using D(6) by auto
  moreover have "shared_pending ?w t" by (simp add: shared_pending_def retries_def)
  moreover have "w_pc ?w t = W_UnlockWake" by simp
  moreover have "Pack False 0 = 0" by (simp add: Pack_def)
  moreover have "1 \<le> t \<and> t \<le> kMaxThreads" using D(1) [of t] pc by simp
  moreover have "pc_ok W_UnlockWake" by (simp add: pc_ok_def)
  ultimately show ?thesis unfolding shared_inv_def using wr rd D(1,2,7) by auto
qed

lemma readers_minus: "0 < n \<Longrightarrow> (word_of_nat (2 * n) :: word32) - 2 = word_of_nat (2 * (n - 1))"
  by (simp add: of_nat_diff algebra_simps)

text \<open>A reader leaves; the last one is going to wake a writer.\<close>

lemma shared_inv_leave:
  assumes I: "shared_inv w" and pc: "w_pc w t = R_FetchSub" and md: "w_mode w t = Going"
    and pc': "pc' = (if card (readers w) = 1 then R_Wake else S_Outside)"
  shows "shared_inv (go t (pc', w_fields w) (w\<lparr>w_value := (w_value w)(state_var := w_value w state_var - 2)\<rparr>))"
proof -
  note D = shared_invD [OF I]
  let ?w = "go t (pc', w_fields w) (w\<lparr>w_value := (w_value w)(state_var := w_value w state_var - 2)\<rparr>)"
  have tr: "t \<in> readers w" using pc by (simp add: readers_def)
  have n: "\<not> writing w u" for u using D(4) [of u] tr by blast
  have npc: "pc' \<noteq> S_Writer" "pc' \<noteq> W_UnlockStore" "pc' \<noteq> S_Reader" "pc' \<noteq> R_FetchSub" using pc' by simp_all
  have wr: "\<not> writing ?w u" for u using n npc by (simp add: writing_go)
  have rd: "readers ?w = readers w - {t}" using npc by (simp add: readers_go)
  have fin: "finite (readers w)" by (rule readers_bound(1) [OF I])
  have c: "0 < card (readers w)" using fin tr by (auto simp: card_gt_0_iff)
  have "w_value w state_var = word_of_nat (2 * card (readers w))" using D(5) n by simp
  then have v: "w_value w state_var - 2 = word_of_nat (2 * card (readers ?w))"
    using readers_minus [OF c] tr fin rd by (simp del: of_nat_mult)
  have "w_pc w u \<noteq> S_Writer" for u using n [of u] by (simp add: writing_def)
  then have ow: "\<forall>u. w_fields ?w = Some u \<longleftrightarrow> w_pc ?w u = S_Writer" using D(6) npc by auto
  have "readers ?w \<noteq> {} \<or> shared_pending ?w t"
  proof (cases "card (readers w) = 1")
    case True
    then show ?thesis using pc' by (simp add: shared_pending_def retries_def)
  next
    case False
    then have "card (readers w - {t}) \<noteq> 0" using tr fin c by simp
    then have "readers w - {t} \<noteq> {}" by (metis card.empty)
    then show ?thesis unfolding rd by blast
  qed
  moreover have "(\<exists>u s. w_mode ?w u = Waiting state_var \<and> w_pc ?w u = R_Wait s) \<longrightarrow> (\<exists>u. w_pc ?w u = W_UnlockWake)"
  proof (intro impI)
    assume "\<exists>u s. w_mode ?w u = Waiting state_var \<and> w_pc ?w u = R_Wait s"
    then obtain u s where "w_mode w u = Waiting state_var" "w_pc w u = R_Wait s" by (auto split: if_splits)
    from D(9) [OF this] obtain x where "w_pc w x = W_UnlockWake" using n by blast
    then show "\<exists>u. w_pc ?w u = W_UnlockWake" using pc by (intro exI [of _ x]) auto
  qed
  moreover have "1 \<le> t \<and> t \<le> kMaxThreads" using D(1) [of t] pc by simp
  moreover have "pc_ok pc'" using pc' by (simp add: pc_ok_def)
  ultimately show ?thesis unfolding shared_inv_def using wr ow D(1,2,7) v by (auto simp del: of_nat_mult)
qed

text \<open>A thread that holds the mutex starts to release it.\<close>

lemma shared_inv_unlock:
  assumes I: "shared_inv w" and md: "w_mode w t = Going" and pc: "w_pc w t = S_Writer"
  shows "shared_inv (go t (W_UnlockStore, None) w)"
proof -
  note D = shared_invD [OF I]
  let ?w = "go t (W_UnlockStore, None) w"
  have wr: "writing ?w = writing w" using pc by (auto simp: fun_eq_iff writing_go writing_def)
  have rd: "readers ?w = readers w" using pc by (auto simp: readers_go readers_def)
  have tw: "writing w t" using pc by (simp add: writing_def)
  have "w_pc w u = S_Writer \<Longrightarrow> u = t" for u using D(3) [OF _ tw] by (simp add: writing_def)
  then have "\<forall>u. w_fields ?w = Some u \<longleftrightarrow> w_pc ?w u = S_Writer" by auto
  moreover have "1 \<le> t \<and> t \<le> kMaxThreads" using D(1) [of t] pc by simp
  moreover have "pc_ok W_UnlockStore" by (simp add: pc_ok_def)
  ultimately show ?thesis unfolding shared_inv_def wr rd using D(1,2,3,4,5,7) tw by auto
qed

lemma shared_inv_unlock_shared:
  assumes I: "shared_inv w" and md: "w_mode w t = Going" and pc: "w_pc w t = S_Reader"
  shows "shared_inv (go t (R_FetchSub, w_fields w) w)"
proof -
  note D = shared_invD [OF I]
  let ?w = "go t (R_FetchSub, w_fields w) w"
  have wr: "writing ?w = writing w" using pc by (auto simp: fun_eq_iff writing_go writing_def)
  have rd: "readers ?w = readers w" using pc by (auto simp: readers_go readers_def)
  have tr: "readers w \<noteq> {}" using pc by (auto simp: readers_def)
  have n: "\<not> writing w u" for u using D(4) [of u] tr by blast
  have "\<forall>u. w_fields ?w = Some u \<longleftrightarrow> w_pc ?w u = S_Writer" using D(6) pc by auto
  moreover have "(\<exists>u s. w_mode ?w u = Waiting state_var \<and> w_pc ?w u = R_Wait s) \<longrightarrow> (\<exists>u. w_pc ?w u = W_UnlockWake)"
  proof (intro impI)
    assume "\<exists>u s. w_mode ?w u = Waiting state_var \<and> w_pc ?w u = R_Wait s"
    then obtain u s where "w_mode w u = Waiting state_var" "w_pc w u = R_Wait s" by (auto split: if_splits)
    from D(9) [OF this] obtain x where "w_pc w x = W_UnlockWake" using n by blast
    then show "\<exists>u. w_pc ?w u = W_UnlockWake" using pc by (intro exI [of _ x]) auto
  qed
  moreover have "1 \<le> t \<and> t \<le> kMaxThreads" using D(1) [of t] pc by simp
  moreover have "pc_ok R_FetchSub" by (simp add: pc_ok_def)
  ultimately show ?thesis unfolding shared_inv_def wr rd using D(1,2,3,5,7) tr n by auto
qed

text \<open>Waking, waiting and returning from a wait.\<close>

lemma parks_retries: "parks pc \<Longrightarrow> retries pc"
  by (simp add: parks_def retries_def split: shared_pc.splits)

lemma parks_not [simp]: "\<not> parks W_UnlockWake" "\<not> parks R_Wake" "\<not> parks S_Outside"
  by (simp_all add: parks_def)

lemma shared_inv_wake:
  assumes I: "shared_inv w" and g: "w_mode w t = Going" and c: "shared_call t (w_pc w t) = Some (Call_Wake l n)"
    and m1: "\<forall>u. w_mode w u = Waiting l \<longrightarrow> m u = Waiting l \<or> m u = Back" and m2: "\<forall>u. w_mode w u \<noteq> Waiting l \<longrightarrow> m u = w_mode w u"
    and m3: "(\<exists>u. w_mode w u = Waiting l) \<longrightarrow> (\<exists>u. w_mode w u = Waiting l \<and> m u = Back)"
    and m4: "n = 0 \<longrightarrow> (\<forall>u. m u \<noteq> Waiting l)"
    and r: "shared_resume t No_Answer (w_pc w t) (w_fields w) = Inr pf"
  shows "shared_inv (go t pf (w\<lparr>w_mode := m\<rparr>))"
proof -
  note D = shared_invD [OF I]
  let ?w = "go t pf (w\<lparr>w_mode := m\<rparr>)"
  have pc: "w_pc w t = W_UnlockWake \<and> n = 0 \<or> w_pc w t = R_Wake" and l: "l = state_var" using c by (cases "w_pc w t"; auto)+
  have pf: "pf = (S_Outside, w_fields w)" using r pc by auto
  have wr: "writing ?w = writing w" using pc pf by (auto simp: fun_eq_iff writing_go) (auto simp: writing_def)
  have rd: "readers ?w = readers w" using pc pf by (auto simp: readers_go) (auto simp: readers_def)
  have one: "(\<exists>u. w_mode ?w u = Waiting state_var) \<longrightarrow> (\<exists>u. shared_pending ?w u)"
  proof (intro impI)
    assume "\<exists>u. w_mode ?w u = Waiting state_var"
    then obtain u where "w_mode ?w u = Waiting state_var" by blast
    then have "w_mode w u = Waiting l" using m2 l by (auto split: if_splits)
    then obtain v where v: "w_mode w v = Waiting l" "m v = Back" using m3 by blast
    have p: "parks (w_pc w v)" using D(7) [of v] v by simp
    then have "v \<noteq> t" using pc by auto
    then have "shared_pending ?w v" using v parks_retries [OF p] by (simp add: shared_pending_def)
    then show "\<exists>u. shared_pending ?w u" by blast
  qed
  have two: "(\<exists>u s. w_mode ?w u = Waiting state_var \<and> w_pc ?w u = R_Wait s) \<longrightarrow> (\<exists>u. writing w u \<or> w_pc ?w u = W_UnlockWake)"
  proof (intro impI)
    assume "\<exists>u s. w_mode ?w u = Waiting state_var \<and> w_pc ?w u = R_Wait s"
    then obtain u s where u: "w_mode ?w u = Waiting state_var" "w_pc ?w u = R_Wait s" by blast
    then have u1: "u \<noteq> t" "m u = Waiting l" "w_pc w u = R_Wait s" using l by (auto split: if_splits)
    then have "w_mode w u = Waiting state_var" using m2 l by metis
    from D(9) [OF this u1(3)] obtain x where x: "writing w x \<or> w_pc w x = W_UnlockWake" by blast
    have "w_pc w t \<noteq> W_UnlockWake" using pc m4 u1(2) by auto
    then show "\<exists>u. writing w u \<or> w_pc ?w u = W_UnlockWake" using x by (intro exI [of _ x]) auto
  qed
  have three: "w_mode ?w u \<noteq> Going \<Longrightarrow> parks (w_pc ?w u) \<and> (w_mode ?w u = Back \<or> w_mode ?w u = Waiting state_var)" for u
    using m1 m2 D(7) [of u] l by (cases "u = t"; cases "w_mode w u = Waiting state_var") auto
  have "\<forall>u. w_fields ?w = Some u \<longleftrightarrow> w_pc ?w u = S_Writer" using D(6) pc pf by auto
  moreover have "pc_ok S_Outside" by (simp add: pc_ok_def)
  moreover have "w_pc ?w u \<noteq> S_Outside \<Longrightarrow> 1 \<le> u \<and> u \<le> kMaxThreads" for u using D(1) [of u] pf by (auto split: if_splits)
  moreover have D4: "(\<exists>u. writing w u) \<longrightarrow> readers w = {}" using D(4) by blast
  moreover have "pc_ok (w_pc ?w u)" for u using D(2) \<open>pc_ok S_Outside\<close> pf by simp
  ultimately show ?thesis unfolding shared_inv_def wr rd using D(3,5) D4 one two three by simp
qed

lemma shared_inv_mode:
  assumes I: "shared_inv w" and c: "shared_call t (w_pc w t) = Some (Call_Wait l old k timed)"
    and x: "x = Back \<or> x = Waiting l \<and> w_value w l = old"
  shows "shared_inv (set_mode t x w)"
proof -
  note D = shared_invD [OF I]
  let ?w = "set_mode t x w"
  have pc: "w_pc w t = W_Wait old \<or> w_pc w t = R_Wait old" and l: "l = state_var" using c by (cases "w_pc w t"; auto)+
  have s: "w_value ?w = w_value w" "w_fields ?w = w_fields w" "w_pc ?w = w_pc w" "w_mode ?w = (w_mode w)(t := x)"
    by (simp_all add: set_mode_def)
  have wr: "writing ?w = writing w" and rd: "readers ?w = readers w" by (simp_all add: fun_eq_iff writing_def readers_def s)
  have p: "parks (w_pc w t)" using pc by (auto simp: parks_def)
  have held: "(\<exists>u. writing w u) \<or> readers w \<noteq> {}" if "x \<noteq> Back"
  proof -
    have "w_value w state_var \<noteq> 0"
    proof
      assume z: "w_value w state_var = 0"
      then have "old = 0" using x that l by auto
      then show False using D(2) [of t] pc by (auto simp: pc_ok_def Unpack_def)
    qed
    then show ?thesis using state_free [OF I] by blast
  qed
  have writer: "\<exists>u. writing w u" if "x \<noteq> Back" "w_pc w t = R_Wait s1" for s1
  proof -
    have "fst (Unpack (w_value w state_var))" using x that l pc D(2) [of t] by (auto simp: pc_ok_def)
    then show ?thesis using state_Unpack [OF I] by (auto split: if_splits)
  qed
  have "(\<exists>u. w_mode ?w u = Waiting state_var) \<longrightarrow> (\<exists>u. writing w u) \<or> readers w \<noteq> {} \<or> (\<exists>u. shared_pending ?w u)"
  proof (cases "x = Back")
    case True
    then have "shared_pending ?w t" unfolding shared_pending_def s using parks_retries [OF p] by simp
    then show ?thesis by blast
  next
    case False
    then show ?thesis using held by blast
  qed
  moreover have "(\<exists>u s. w_mode ?w u = Waiting state_var \<and> w_pc ?w u = R_Wait s) \<longrightarrow> (\<exists>u. writing w u \<or> w_pc w u = W_UnlockWake)"
    using D(9) writer x unfolding s by (auto split: if_splits)
  moreover have "w_mode ?w u \<noteq> Going \<Longrightarrow> parks (w_pc w u) \<and> (w_mode ?w u = Back \<or> w_mode ?w u = Waiting state_var)" for u
    using D(7) [of u] p x l by (auto simp: s)
  moreover have "(\<exists>u. writing w u) \<longrightarrow> readers w = {}" using D(4) by blast
  ultimately show ?thesis unfolding shared_inv_def wr rd s(1-3) using D(1,2,3,5,6) by simp
qed

lemma shared_inv_back:
  assumes I: "shared_inv w" and g: "w_mode w t = Back" and r: "shared_resume t No_Answer (w_pc w t) (w_fields w) = Inr pf"
  shows "shared_inv (go t pf w)"
proof -
  note D = shared_invD [OF I]
  have "parks (w_pc w t)" using D(7) [of t] g by simp
  then obtain s where pc: "w_pc w t = W_Wait s \<or> w_pc w t = R_Wait s" by (auto simp: parks_def split: shared_pc.splits)
  then obtain pc' where pf: "pf = (pc', w_fields w)" and pc': "pc' = W_Load \<or> pc' = R_Load" using r by auto
  have "1 \<le> t \<and> t \<le> kMaxThreads" using D(1) [of t] pc by auto
  then show ?thesis unfolding pf
    by (intro shared_inv_neutral [OF I]) (use g pc pc' in \<open>auto simp: holding_def pc_ok_def retries_def\<close>)
qed

text \<open>The operations on the state, and the beginnings of the operations of the class.\<close>

definition sync_outcome :: "tid \<Rightarrow> shared_pc \<Rightarrow> mutex_owner \<Rightarrow> word32 \<Rightarrow> word32 \<Rightarrow> shared_pc \<times> mutex_owner \<Rightarrow> bool" where
  "sync_outcome t pc ow s v pf \<longleftrightarrow>
     (\<exists>pc'. v = s \<and> pf = (pc', ow) \<and> \<not> holding pc \<and> \<not> holding pc' \<and> pc_ok pc' \<and> (retries pc \<longrightarrow> retries pc') \<and> pc \<noteq> W_UnlockWake) \<or>
     v = Pack True 0 \<and> s = 0 \<and> pf = (S_Writer, owner_Lock t) \<or>
     v = Pack False (snd (Unpack s) + 1) \<and> \<not> fst (Unpack s) \<and> pf = (S_Reader, ow) \<and> \<not> holding pc \<and> pc \<noteq> W_UnlockWake \<or>
     pc = W_UnlockStore \<and> v = Pack False 0 \<and> pf = (W_UnlockWake, ow) \<or>
     pc = R_FetchSub \<and> v = s - 2 \<and> pf = (if snd (Unpack s) = 1 then R_Wake else S_Outside, ow)"

lemma neutralI:
  "v = s \<Longrightarrow> pf = (pc', ow) \<Longrightarrow> \<not> holding pc \<Longrightarrow> \<not> holding pc' \<Longrightarrow> pc_ok pc' \<Longrightarrow> (retries pc \<longrightarrow> retries pc') \<Longrightarrow>
     pc \<noteq> W_UnlockWake \<Longrightarrow> sync_outcome t pc ow s v pf"
  unfolding sync_outcome_def by blast

lemmas place_defs = holding_def pc_ok_def retries_def

lemma state_zero: "\<not> fst (Unpack s) \<Longrightarrow> snd (Unpack s) = 0 \<longleftrightarrow> s = 0"
proof (rule iffI)
  assume w: "\<not> fst (Unpack s)" and z: "snd (Unpack s) = 0"
  have "s mod 2 = 0" using w by (simp add: Unpack_def and_one_eq mod2_eq_if split: if_splits)
  moreover have "s div 2 = 0" using z by (simp add: Unpack_def drop_bit_Suc)
  ultimately show "s = 0" using div_mult_mod_eq [of s 2] by simp
qed (simp add: Unpack_def)

lemma shared_sync_cases:
  assumes c: "shared_call t pc = Some (Call_Sync l sop)" and s: "sync_spec spurious sop st = (a, v)"
    and r: "shared_resume t a pc ow = Inr pf" and ok: "pc_ok pc"
  shows "sync_outcome t pc ow st v pf"
proof (cases pc)
  case W_Load
  then have "v = st" and "pf = (if \<not> fst (Unpack st) \<and> snd (Unpack st) = 0 then W_Cas st else W_Wait st, ow)"
    using c s r by (auto simp: split_beta)
  then show ?thesis using W_Load state_zero [of st]
    by (intro neutralI) (auto simp: place_defs Unpack_def split: if_splits)
next
  case (W_Cas s1)
  then have "s1 = 0" using ok by (simp add: pc_ok_def)
  then have "v = Pack True 0 \<and> st = 0 \<and> pf = (S_Writer, owner_Lock t) \<or> v = st \<and> pf = (W_Load, ow)"
    using c s r W_Cas by (auto split: if_splits)
  then show ?thesis using W_Cas by (auto simp: sync_outcome_def place_defs)
next
  case W_TryCas
  then have "v = Pack True 0 \<and> st = 0 \<and> pf = (S_Writer, owner_Lock t) \<or> v = st \<and> pf = (S_Outside, ow)"
    using c s r by (auto simp: Pack_def split: if_splits)
  then show ?thesis using W_TryCas by (auto simp: sync_outcome_def place_defs)
next
  case R_Load
  then have "v = st" and "pf = (if \<not> fst (Unpack st) then R_Cas st else R_Wait st, ow)"
    using c s r by (auto simp: split_beta)
  then show ?thesis using R_Load by (intro neutralI) (auto simp: place_defs split: if_splits)
next
  case (R_Cas s1)
  then have "v = Pack False (snd (Unpack st) + 1) \<and> s1 = st \<and> pf = (S_Reader, ow) \<or> v = st \<and> pf = (R_Load, ow)"
    using c s r by (auto split: if_splits)
  then show ?thesis using R_Cas ok by (auto simp: sync_outcome_def place_defs)
next
  case R_TryLoad
  then have "v = st" and "pf = (if \<not> fst (Unpack st) then R_TryCas st else S_Outside, ow)"
    using c s r by (auto simp: split_beta)
  then show ?thesis using R_TryLoad by (intro neutralI) (auto simp: place_defs split: if_splits)
next
  case (R_TryCas s1)
  then have "v = Pack False (snd (Unpack st) + 1) \<and> s1 = st \<and> pf = (S_Reader, ow) \<or> v = st \<and> pf = (R_TryLoad, ow)"
    using c s r by (auto split: if_splits)
  then show ?thesis using R_TryCas ok by (auto simp: sync_outcome_def place_defs)
next
  case W_UnlockStore
  then show ?thesis using c s r by (auto simp: sync_outcome_def)
next
  case R_FetchSub
  then have "v = st - 2" "pf = (if snd (Unpack st) = 1 then R_Wake else S_Outside, ow)"
    using c s r by (auto simp: split_beta bindE_eq_Inr)
  then show ?thesis using R_FetchSub by (simp add: sync_outcome_def)
qed (use c in simp_all)

lemma shared_inv_sync:
  assumes I: "shared_inv w" and g: "w_mode w t = Going" and c: "shared_call t (w_pc w t) = Some (Call_Sync l sop)"
    and s: "sync_spec spurious sop (w_value w l) = (a, v)" and r: "shared_resume t a (w_pc w t) (w_fields w) = Inr pf"
  shows "shared_inv (go t pf (w\<lparr>w_value := (w_value w)(l := v)\<rparr>))"
proof -
  note D = shared_invD [OF I]
  have l: "l = state_var" using c by (cases "w_pc w t") auto
  have "w_pc w t \<noteq> S_Outside" using c by (cases "w_pc w t") simp_all
  then have t: "1 \<le> t" "t \<le> kMaxThreads" using D(1) [of t] by simp_all
  let ?s = "w_value w state_var"
  consider (neutral) pc' where "v = ?s" "pf = (pc', w_fields w)" "\<not> holding (w_pc w t)" "\<not> holding pc'" "pc_ok pc'"
      "retries (w_pc w t) \<longrightarrow> retries pc'" "w_pc w t \<noteq> W_UnlockWake"
    | (acquire) "v = Pack True 0" "?s = 0" "pf = (S_Writer, owner_Lock t)"
    | (reader) "v = Pack False (snd (Unpack ?s) + 1)" "\<not> fst (Unpack ?s)" "pf = (S_Reader, w_fields w)" "\<not> holding (w_pc w t)"
      "w_pc w t \<noteq> W_UnlockWake"
    | (release) "w_pc w t = W_UnlockStore" "v = Pack False 0" "pf = (W_UnlockWake, w_fields w)"
    | (leave) "w_pc w t = R_FetchSub" "v = ?s - 2" "pf = (if snd (Unpack ?s) = 1 then R_Wake else S_Outside, w_fields w)"
    using shared_sync_cases [OF c s r D(2) [of t]] l unfolding sync_outcome_def by blast
  then show ?thesis
  proof cases
    case (neutral pc')
    then have "w\<lparr>w_value := (w_value w)(l := v)\<rparr> = w" using l by simp
    then show ?thesis using neutral g t by (simp add: shared_inv_neutral [OF I])
  next
    case acquire
    then show ?thesis using shared_inv_acquire [OF I t _ g] l by simp
  next
    case reader
    then show ?thesis using shared_inv_reader [OF I t g] l by simp
  next
    case release
    then show ?thesis using shared_inv_release [OF I _ g] l by simp
  next
    case leave
    then have "t \<in> readers w" by (simp add: readers_def)
    then have "\<not> (\<exists>u. writing w u)" using D(4) by blast
    then have "snd (Unpack ?s) = word_of_nat (card (readers w))" using state_Unpack [OF I] by simp
    moreover have "(word_of_nat (card (readers w)) :: word32) = 1 \<longleftrightarrow> card (readers w) = 1"
      by (rule readers_one) (use readers_bound(2) [OF I] in simp)
    ultimately show ?thesis using leave shared_inv_leave [OF I _ g] l by simp
  qed
qed

lemma shared_inv_begin:
  assumes I: "shared_inv w" and t: "1 \<le> t" "t \<le> kMaxThreads" and g: "w_mode w t = Going"
    and c: "shared_call t (w_pc w t) = None" and b: "shared_begin t sop (w_pc w t) (w_fields w) = Inr pf"
  shows "shared_inv (go t pf w)"
proof -
  have ow: "w_fields w = Some t \<longleftrightarrow> w_pc w t = S_Writer" by (rule shared_invD(6) [OF I])
  consider (start) pc' where "w_pc w t = S_Outside" "pf = (pc', w_fields w)" "pc' = W_Load \<or> pc' = W_TryCas \<or> pc' = R_Load \<or> pc' = R_TryLoad"
    | (unlock) "w_pc w t = S_Writer" "pf = (W_UnlockStore, None)" | (leave) "w_pc w t = S_Reader" "pf = (R_FetchSub, w_fields w)"
    using b ow by (cases sop) (auto simp: owner_Unlock_def Own_def bindE_eq_Inr split: if_splits)
  then show ?thesis
  proof cases
    case (start pc')
    then show ?thesis unfolding start(2)
      by (intro shared_inv_neutral [OF I t]) (use g in \<open>auto simp: place_defs\<close>)
  next
    case unlock
    then show ?thesis using shared_inv_unlock [OF I g] by simp
  next
    case leave
    then show ?thesis using shared_inv_unlock_shared [OF I g] by simp
  qed
qed

interpretation shared_mutex_class: lib_class shared_object shared_world shared_inv
proof (unfold_locales, goal_cases)
  case 1
  then show ?case
    by (simp add: shared_inv_def shared_world_def new_world_def writing_def readers_def pc_ok_def Pack_def)
next
  case (2 w t op pf)
  then show ?case by (simp add: shared_object_def shared_inv_begin)
next
  case (3 w t l sop spurious a v pf)
  then show ?case by (simp add: shared_object_def shared_inv_sync)
next
  case (4 w t b pf)
  then show ?case by (cases "w_pc w t") (simp_all add: shared_object_def)
next
  case (5 w t l n m pf)
  then show ?case by (simp add: shared_object_def shared_inv_wake)
next
  case (6 w t l old k timed)
  then show ?case by (intro shared_inv_mode [where old = old and k = k and timed = timed and l = l]) (simp_all add: shared_object_def)
next
  case (7 w t l old k timed)
  then show ?case by (intro shared_inv_mode [where old = old and k = k and timed = timed and l = l]) (simp_all add: shared_object_def)
next
  case (8 w t pf)
  then show ?case by (simp add: shared_object_def shared_inv_back)
qed

section \<open>Theorems\<close>

text \<open>
  C19: readers and writers of \<open>std::shared_mutex\<close>. However \<open>lock\<close>, \<open>try_lock\<close>, \<open>unlock\<close>, \<open>lock_shared\<close>,
  \<open>try_lock_shared\<close> and \<open>unlock_shared\<close> of any threads are interleaved, a thread that has the mutex for
  writing is the only one that has it; the 32-bit state is the writer bit or twice the number of readers,
  and never overflows; and the check in \<open>unlock_shared\<close> that there are readers never fails for a reader.
\<close>

theorem shared_mutex_exclusive:
  assumes "lib_run shared_object shared_world w"
  shows "(\<forall>t u. w_pc w t \<in> {S_Writer, W_UnlockStore} \<longrightarrow> w_pc w u \<in> {S_Writer, W_UnlockStore, S_Reader, R_FetchSub} \<longrightarrow> t = u) \<and>
    Unpack (w_value w state_var) =
      (\<exists>t. w_pc w t \<in> {S_Writer, W_UnlockStore}, word_of_nat (card {t. w_pc w t \<in> {S_Reader, R_FetchSub}})) \<and>
    card {t. w_pc w t \<in> {S_Reader, R_FetchSub}} \<le> kMaxThreads \<and>
    (\<forall>t. w_pc w t = R_FetchSub \<longrightarrow> (\<exists>pf. shared_resume t (Ans_Value (w_value w state_var)) R_FetchSub (w_fields w) = Inr pf))"
proof -
  have I: "shared_inv w" by (rule shared_mutex_class.inv_run [OF assms])
  note D = shared_invD [OF I]
  have wr: "w_pc w t \<in> {S_Writer, W_UnlockStore} \<longleftrightarrow> writing w t" for t by (simp add: writing_def)
  have rd: "{t. w_pc w t \<in> {S_Reader, R_FetchSub}} = readers w" by (simp add: readers_def)
  have ex: "t = u" if w: "writing w t" and u: "w_pc w u \<in> {S_Writer, W_UnlockStore, S_Reader, R_FetchSub}" for t u
  proof -
    have "u \<notin> readers w" using D(4) [OF w] by simp
    then have "writing w u" using u by (auto simp: readers_def writing_def)
    then show ?thesis by (rule D(3) [OF w])
  qed
  have un: "Unpack (w_value w state_var) = (\<exists>t. writing w t, word_of_nat (card (readers w)))"
    using state_Unpack [OF I] D(4) by auto
  have fits: "card (readers w) \<le> kMaxThreads" by (rule readers_bound(3) [OF I])
  have passes: "\<exists>pf. shared_resume t (Ans_Value (w_value w state_var)) R_FetchSub (w_fields w) = Inr pf" if "w_pc w t = R_FetchSub" for t
  proof -
    have "t \<in> readers w" using that by (simp add: readers_def)
    then have "0 < card (readers w)" using readers_bound(1) [OF I] by (auto simp: card_gt_0_iff)
    moreover have "unat (word_of_nat (card (readers w)) :: word32) = card (readers w)"
      by (rule unat_small) (use readers_bound(2) [OF I] in simp)
    ultimately have "(0 :: word32) < word_of_nat (card (readers w))" by (simp add: word_less_nat_alt)
    then show ?thesis unfolding shared_resume.simps on_answer_simps un by (simp add: verify_def)
  qed
  show ?thesis unfolding wr rd using ex un fits passes by simp
qed

text \<open>
  C20: no wakeup is lost in \<open>std::shared_mutex\<close>, although the last reader wakes only one waiter and readers
  and writers wait on the same futex. As long as some thread is parked, another one holds the mutex, is
  about to wake waiters or is about to look at the state again; and a reader is parked only while a writer
  has the mutex or has not yet carried out its wake of all waiters.
\<close>

theorem shared_no_lost_wakeup:
  assumes "lib_run shared_object shared_world w" and "w_mode w t = Waiting state_var"
  shows "(\<exists>u. w_mode w u \<noteq> Waiting state_var \<and> (holding (w_pc w u) \<or> retries (w_pc w u))) \<and>
    ((\<exists>s. w_pc w t = R_Wait s) \<longrightarrow> (\<exists>u. w_pc w u \<in> {S_Writer, W_UnlockStore, W_UnlockWake})) \<and>
    ((\<exists>s. w_pc w t = R_Wait s) \<or> (\<exists>s. w_pc w t = W_Wait s \<and> s \<noteq> 0))"
proof -
  have I: "shared_inv w" by (rule shared_mutex_class.inv_run [OF assms(1)])
  note D = shared_invD [OF I]
  have np: "w_mode w u \<noteq> Waiting state_var" if "holding (w_pc w u)" for u
    using D(7) [of u] that by (auto simp: holding_def parks_def)
  obtain u where "writing w u \<or> u \<in> readers w \<or> shared_pending w u" using D(8) [OF assms(2)] by blast
  then have "w_mode w u \<noteq> Waiting state_var \<and> (holding (w_pc w u) \<or> retries (w_pc w u))"
    using np [of u] by (auto simp: writing_def readers_def shared_pending_def holding_def)
  moreover have "\<exists>u. w_pc w u \<in> {S_Writer, W_UnlockStore, W_UnlockWake}" if "w_pc w t = R_Wait s" for s
    using D(9) [OF assms(2) that] by (auto simp: writing_def)
  moreover have "(\<exists>s. w_pc w t = R_Wait s) \<or> (\<exists>s. w_pc w t = W_Wait s \<and> s \<noteq> 0)"
    using D(7) [of t] D(2) [of t] assms(2) by (auto simp: parks_def pc_ok_def split: shared_pc.splits)
  ultimately show ?thesis by blast
qed

text \<open>Two threads: the first writes, the second is parked as a reader.\<close>

definition reader_parked :: "(shared_pc, mutex_owner) world" where
  "reader_parked = \<lparr>w_value = (\<lambda>_. 0)(0 := 1), w_fields = Some 1,
     w_pc = (\<lambda>_. S_Outside)(1 := S_Writer, 2 := R_Wait 1), w_mode = (\<lambda>_. Going)(2 := Waiting 0)\<rparr>"

lemma reader_parked_run: "lib_run shared_object shared_world reader_parked"
proof -
  let ?w1 = "go 1 (W_TryCas, None) shared_world"
  let ?w2 = "go 1 (S_Writer, Some 1) (?w1\<lparr>w_value := (w_value ?w1)(state_var := 1)\<rparr>)"
  let ?w3 = "go 2 (R_Load, Some 1) ?w2"
  let ?w4 = "go 2 (R_Wait 1, Some 1) (?w3\<lparr>w_value := (w_value ?w3)(state_var := 1)\<rparr>)"
  note defs = go_def shared_object_def shared_world_def new_world_def owner_Lock_def state_var_def Pack_def Unpack_def
  have s1: "lib_step shared_object shared_world ?w1" by (rule lib_begin [where op = Sh_try_lock]) (simp_all add: defs kMaxThreads_def)
  have s2: "lib_step shared_object ?w1 ?w2"
    by (rule lib_sync [where op = "Op_Cas Weak (Pack False 0) (Pack True 0) acquire relaxed" and a = "Ans_Cas True 0" and spurious = False])
      (simp_all add: defs)
  have s3: "lib_step shared_object ?w2 ?w3" by (rule lib_begin [where op = Sh_lock_shared]) (simp_all add: defs kMaxThreads_def)
  have s4: "lib_step shared_object ?w3 ?w4"
    by (rule lib_sync [where op = "Op_Load acquire" and a = "Ans_Value 1" and spurious = False]) (simp_all add: defs)
  have s5: "lib_step shared_object ?w4 (set_mode 2 (Waiting state_var) ?w4)"
    by (rule lib_park [where old = 1 and k = FtMutexLock and timed = False]) (simp_all add: defs)
  have "set_mode 2 (Waiting state_var) ?w4 = reader_parked"
    by (simp add: defs set_mode_def reader_parked_def fun_upd_twist fun_upd_idem)
  then show ?thesis
    using run_step [OF run_step [OF run_step [OF run_step [OF run_step [OF run_start s1] s2] s3] s4] s5] by simp
qed

theorem shared_mutex_exclusive_witness:
  "w_pc reader_parked 1 = S_Writer \<and> Unpack (w_value reader_parked state_var) = (True, 0) \<and>
    card {t. w_pc reader_parked t \<in> {S_Reader, R_FetchSub}} \<le> kMaxThreads"
proof -
  have "w_pc reader_parked 1 = S_Writer" "Unpack (w_value reader_parked state_var) = (True, 0)"
    by (simp_all add: reader_parked_def Unpack_def state_var_def)
  then show ?thesis using shared_mutex_exclusive [OF reader_parked_run] by simp
qed

theorem shared_no_lost_wakeup_witness:
  "w_mode reader_parked 2 = Waiting state_var \<and> (\<exists>u. w_pc reader_parked u \<in> {S_Writer, W_UnlockStore, W_UnlockWake})"
proof -
  have "w_mode reader_parked 2 = Waiting state_var" "w_pc reader_parked 2 = R_Wait 1" by (simp_all add: reader_parked_def state_var_def)
  then show ?thesis using shared_no_lost_wakeup [OF reader_parked_run, of 2] by simp
qed

end
