(* ===== verification/Timed_Mutex_Lib.thy ===== *)
theory Timed_Mutex_Lib
  imports Mutex_Lib
begin

text \<open>
  \<open>std::timed_mutex\<close> of the user library (\<open>rt/sim/user/library/std_like/timed_mutex.hpp\<close>). It excludes and loses
  no wakeup like \<open>std::mutex\<close>, without a count of the contending threads; and it waits past its deadlines.
\<close>

section \<open>The code\<close>

datatype timed_pc =
  T_Outside | T_Exchange | T_Wait | T_TryCas | T_Inside | T_Store | T_Wake
| D_Exchange | D_Expired | D_Wait

datatype timed_op = Tm_lock | Tm_try_lock | Tm_try_lock_timed | Tm_unlock

text \<open>The places \<open>D_\<close> are in \<open>TryLockTimed\<close>, for \<open>try_lock_for\<close> and \<open>try_lock_until\<close>.\<close>

fun timed_call :: "tid \<Rightarrow> timed_pc \<Rightarrow> lib_call option" where
  "timed_call t T_Exchange = Some (Call_Sync locked_var (Op_Exchange Locked acquire))"
| "timed_call t T_Wait = Some (Call_Wait locked_var Locked FtMutexLock False)"
| "timed_call t T_TryCas = Some (Call_Sync locked_var (Op_Cas Weak Unlocked Locked acquire relaxed))"
| "timed_call t T_Store = Some (Call_Sync locked_var (Op_Store Unlocked release))"
| "timed_call t T_Wake = Some (Call_Wake locked_var 1)"
| "timed_call t D_Exchange = Some (Call_Sync locked_var (Op_Exchange Locked acquire))"
| "timed_call t D_Expired = Some Call_Expired"
| "timed_call t D_Wait = Some (Call_Wait locked_var Locked FtMutexTryLock False)"
| "timed_call t T_Outside = None"
| "timed_call t T_Inside = None"

text \<open>The only member of the class besides the atomic is the owner.\<close>

fun timed_resume :: "tid \<Rightarrow> answer \<Rightarrow> timed_pc \<Rightarrow> mutex_owner \<Rightarrow> fault + timed_pc \<times> mutex_owner" where
  "timed_resume t a T_Exchange ow = on_value a (\<lambda>v. Inr (if v = Locked then (T_Wait, ow) else (T_Inside, owner_Lock t)))"
| "timed_resume t a T_Wait ow = on_return a (Inr (T_Exchange, ow))"
| "timed_resume t a T_TryCas ow = on_cas a (\<lambda>b. Inr (if b then (T_Inside, owner_Lock t) else (T_Outside, ow)))"
| "timed_resume t a T_Store ow = on_return a (Inr (T_Wake, ow))"
| "timed_resume t a T_Wake ow = on_return a (Inr (T_Outside, ow))"
| "timed_resume t a D_Exchange ow = on_value a (\<lambda>v. Inr (if v = Locked then (D_Expired, ow) else (T_Inside, owner_Lock t)))"
| "timed_resume t a D_Expired ow = on_bool a (\<lambda>expired. Inr (if expired then T_Outside else D_Wait, ow))"
| "timed_resume t a D_Wait ow = on_return a (Inr (D_Exchange, ow))"
| "timed_resume t a T_Outside ow = Inl (Panic ''unreachable'')"
| "timed_resume t a T_Inside ow = Inl (Panic ''unreachable'')"

fun timed_begin :: "tid \<Rightarrow> timed_op \<Rightarrow> timed_pc \<Rightarrow> mutex_owner \<Rightarrow> fault + timed_pc \<times> mutex_owner" where
  "timed_begin t Tm_unlock pc ow = bindE (owner_Unlock t ow) (\<lambda>ow1. Inr (T_Store, ow1))"
| "timed_begin t Tm_lock pc ow = (if pc = T_Outside then Inr (T_Exchange, ow) else Inl (Panic ''undefined behaviour''))"
| "timed_begin t Tm_try_lock pc ow = (if pc = T_Outside then Inr (T_TryCas, ow) else Inl (Panic ''undefined behaviour''))"
| "timed_begin t Tm_try_lock_timed pc ow = (if pc = T_Outside then Inr (D_Exchange, ow) else Inl (Panic ''undefined behaviour''))"

definition timed_object :: "(timed_pc, mutex_owner, timed_op) object" where
  "timed_object = \<lparr>ob_call = timed_call, ob_resume = timed_resume, ob_begin = timed_begin\<rparr>"

definition timed_world :: "(timed_pc, mutex_owner) world" where
  "timed_world = new_world (\<lambda>_. Unlocked) None T_Outside"

section \<open>The invariant\<close>

definition timed_held :: "(timed_pc, mutex_owner) world \<Rightarrow> tid \<Rightarrow> bool" where
  "timed_held w t \<longleftrightarrow> w_pc w t = T_Inside \<or> w_pc w t = T_Store"

definition timed_pending :: "(timed_pc, mutex_owner) world \<Rightarrow> tid \<Rightarrow> bool" where
  "timed_pending w t \<longleftrightarrow> w_pc w t \<in> {T_Exchange, D_Exchange, T_Wake} \<or> w_pc w t \<in> {T_Wait, D_Wait} \<and> w_mode w t \<noteq> Waiting locked_var"

definition timed_inv :: "(timed_pc, mutex_owner) world \<Rightarrow> bool" where
  "timed_inv w \<longleftrightarrow>
     (\<forall>t u. timed_held w t \<longrightarrow> timed_held w u \<longrightarrow> t = u) \<and>
     w_value w locked_var = (if \<exists>t. timed_held w t then Locked else Unlocked) \<and>
     (\<forall>t. w_fields w = Some t \<longleftrightarrow> w_pc w t = T_Inside) \<and>
     (\<forall>t. w_mode w t \<noteq> Going \<longrightarrow> w_pc w t \<in> {T_Wait, D_Wait} \<and> (w_mode w t = Back \<or> w_mode w t = Waiting locked_var)) \<and>
     ((\<exists>t. w_mode w t = Waiting locked_var) \<longrightarrow> (\<exists>t. timed_held w t) \<or> (\<exists>t. timed_pending w t))"

lemma timed_invD:
  assumes "timed_inv w"
  shows "timed_held w t \<Longrightarrow> timed_held w u \<Longrightarrow> t = u"
    and "w_value w locked_var = (if \<exists>t. timed_held w t then Locked else Unlocked)"
    and "w_fields w = Some t \<longleftrightarrow> w_pc w t = T_Inside"
    and "w_mode w t \<noteq> Going \<Longrightarrow> w_pc w t \<in> {T_Wait, D_Wait} \<and> (w_mode w t = Back \<or> w_mode w t = Waiting locked_var)"
    and "w_mode w t = Waiting locked_var \<Longrightarrow> (\<exists>t. timed_held w t) \<or> (\<exists>t. timed_pending w t)"
  using assms unfolding timed_inv_def by blast+

lemma timed_go [simp]:
  "w_value (go t pf w) = w_value w" "w_fields (go t pf w) = snd pf" "w_pc (go t pf w) = (w_pc w)(t := fst pf)"
  "w_mode (go t pf w) = (w_mode w)(t := Going)"
  by (simp_all add: go_def)

text \<open>A thread that does not hold the mutex moves to a place where it does not.\<close>

lemma timed_inv_neutral:
  assumes I: "timed_inv w" and h: "\<not> timed_held w t" "pc' \<notin> {T_Inside, T_Store}" and md: "w_mode w t \<noteq> Waiting locked_var"
    and p: "timed_pending w t \<Longrightarrow> (\<exists>u. timed_held w u) \<or> pc' \<in> {T_Exchange, D_Exchange, T_Wake, T_Wait, D_Wait}"
  shows "timed_inv (go t (pc', w_fields w) w)"
proof -
  note D = timed_invD [OF I]
  let ?w = "go t (pc', w_fields w) w"
  have held: "timed_held ?w = timed_held w" using h by (auto simp: fun_eq_iff timed_held_def)
  have "(\<exists>u. w_mode ?w u = Waiting locked_var) \<longrightarrow> (\<exists>u. timed_held w u) \<or> (\<exists>u. timed_pending ?w u)"
  proof (intro impI)
    assume "\<exists>u. w_mode ?w u = Waiting locked_var"
    then obtain u where "w_mode w u = Waiting locked_var" by (auto split: if_splits)
    then consider "\<exists>u. timed_held w u" | x where "timed_pending w x" using D(5) by blast
    then show "(\<exists>u. timed_held w u) \<or> (\<exists>u. timed_pending ?w u)"
    proof cases
      case (2 x)
      show ?thesis
      proof (cases "x = t")
        case True
        then show ?thesis using p 2 by (auto simp: timed_pending_def)
      next
        case False
        then have "timed_pending ?w x" using 2 by (simp add: timed_pending_def)
        then show ?thesis by blast
      qed
    qed simp
  qed
  moreover have "w_fields ?w = Some u \<longleftrightarrow> w_pc ?w u = T_Inside" for u using D(3) [of u] h by (auto simp: timed_held_def)
  moreover have "w_mode ?w u \<noteq> Going \<Longrightarrow> w_pc ?w u \<in> {T_Wait, D_Wait} \<and> (w_mode ?w u = Back \<or> w_mode ?w u = Waiting locked_var)" for u
    using D(4) [of u] by (auto split: if_splits)
  moreover have "w_value ?w locked_var = (if \<exists>u. timed_held w u then Locked else Unlocked)" using D(2) by simp
  ultimately show ?thesis unfolding timed_inv_def held using D(1) by blast
qed

text \<open>Taking the mutex, and letting it go.\<close>

lemma timed_inv_got:
  assumes I: "timed_inv w" and v: "w_value w locked_var \<noteq> Locked"
  shows "timed_inv (go t (T_Inside, owner_Lock t) (w\<lparr>w_value := (w_value w)(locked_var := Locked)\<rparr>))"
proof -
  note D = timed_invD [OF I]
  let ?w = "go t (T_Inside, owner_Lock t) (w\<lparr>w_value := (w_value w)(locked_var := Locked)\<rparr>)"
  have n: "\<not> timed_held w u" for u using D(2) v by (auto split: if_splits)
  then have held: "timed_held ?w u \<longleftrightarrow> u = t" for u by (simp add: timed_held_def)
  have "w_pc w u \<noteq> T_Inside" for u using n [of u] by (simp add: timed_held_def)
  then have "w_fields ?w = Some u \<longleftrightarrow> w_pc ?w u = T_Inside" for u by (auto simp: owner_Lock_def)
  moreover have "w_mode ?w u \<noteq> Going \<Longrightarrow> w_pc ?w u \<in> {T_Wait, D_Wait} \<and> (w_mode ?w u = Back \<or> w_mode ?w u = Waiting locked_var)" for u
    using D(4) [of u] by (auto split: if_splits)
  ultimately show ?thesis unfolding timed_inv_def held by simp
qed

lemma timed_inv_release:
  assumes I: "timed_inv w" and pc: "w_pc w t = T_Store"
  shows "timed_inv (go t (T_Wake, w_fields w) (w\<lparr>w_value := (w_value w)(locked_var := Unlocked)\<rparr>))"
proof -
  note D = timed_invD [OF I]
  let ?w = "go t (T_Wake, w_fields w) (w\<lparr>w_value := (w_value w)(locked_var := Unlocked)\<rparr>)"
  have only: "timed_held w u \<Longrightarrow> u = t" for u using D(1) [of u t] pc by (simp add: timed_held_def)
  then have held: "\<not> timed_held ?w u" for u using only [of u] by (auto simp: timed_held_def)
  have "w_pc w u \<noteq> T_Inside" for u using only [of u] pc by (auto simp: timed_held_def)
  then have "w_fields ?w = Some u \<longleftrightarrow> w_pc ?w u = T_Inside" for u using D(3) [of u] by auto
  moreover have "w_mode ?w u \<noteq> Going \<Longrightarrow> w_pc ?w u \<in> {T_Wait, D_Wait} \<and> (w_mode ?w u = Back \<or> w_mode ?w u = Waiting locked_var)" for u
    using D(4) [of u] by (auto split: if_splits)
  moreover have "timed_pending ?w t" by (simp add: timed_pending_def)
  moreover have "w_value ?w locked_var = Unlocked" by simp
  moreover have "timed_held ?w = (\<lambda>_. False)" using held by blast
  ultimately show ?thesis unfolding timed_inv_def by (auto simp del: timed_go)
qed

section \<open>Steps keep the invariant\<close>

lemma timed_inv_begin:
  assumes I: "timed_inv w" and g: "w_mode w t = Going" and b: "timed_begin t op (w_pc w t) (w_fields w) = Inr pf"
  shows "timed_inv (go t pf w)"
proof -
  note D = timed_invD [OF I]
  consider (start) pc' where "w_pc w t = T_Outside" "pf = (pc', w_fields w)" "pc' \<in> {T_Exchange, T_TryCas, D_Exchange}"
    | (unlock) "w_pc w t = T_Inside" "pf = (T_Store, None)"
    using b D(3) [of t] by (cases op) (auto simp: owner_Unlock_def Own_def bindE_eq_Inr split: if_splits)
  then show ?thesis
  proof cases
    case (start pc')
    then show ?thesis unfolding start(2)
      by (intro timed_inv_neutral [OF I]) (use g in \<open>auto simp: timed_held_def timed_pending_def\<close>)
  next
    case unlock
    let ?w = "go t (T_Store, None) w"
    have held: "timed_held ?w = timed_held w" using unlock by (auto simp: fun_eq_iff timed_held_def)
    have ht: "timed_held w t" using unlock by (simp add: timed_held_def)
    have "w_pc w u = T_Inside \<Longrightarrow> u = t" for u using D(1) [OF _ ht, of u] by (simp add: timed_held_def)
    then have "w_fields ?w = Some u \<longleftrightarrow> w_pc ?w u = T_Inside" for u by auto
    moreover have "w_mode ?w u \<noteq> Going \<Longrightarrow> w_pc ?w u \<in> {T_Wait, D_Wait} \<and> (w_mode ?w u = Back \<or> w_mode ?w u = Waiting locked_var)" for u
      using D(4) [of u] by (auto split: if_splits)
    moreover have "w_value ?w locked_var = (if \<exists>u. timed_held w u then Locked else Unlocked)" using D(2) by simp
    ultimately have "timed_inv ?w" unfolding timed_inv_def held using D(1) ht by blast
    then show ?thesis using unlock by simp
  qed
qed

lemma timed_call_loc:
  "timed_call t pc = Some (Call_Sync l op) \<Longrightarrow> l = locked_var" "timed_call t pc = Some (Call_Wake l n) \<Longrightarrow> l = locked_var \<and> pc = T_Wake"
  "timed_call t pc = Some (Call_Wait l old k timed) \<Longrightarrow> l = locked_var \<and> old = Locked \<and> pc \<in> {T_Wait, D_Wait} \<and> \<not> timed"
  "timed_call t pc = Some Call_Expired \<Longrightarrow> pc = D_Expired"
  by (cases pc; simp)+

lemma timed_inv_sync:
  assumes I: "timed_inv w" and g: "w_mode w t = Going" and c: "timed_call t (w_pc w t) = Some (Call_Sync l op)"
    and s: "sync_spec spurious op (w_value w l) = (a, v)" and r: "timed_resume t a (w_pc w t) (w_fields w) = Inr pf"
  shows "timed_inv (go t pf (w\<lparr>w_value := (w_value w)(l := v)\<rparr>))"
proof -
  note D = timed_invD [OF I]
  have l: "l = locked_var" by (rule timed_call_loc(1) [OF c])
  let ?v = "w_value w locked_var"
  have taken: "?v = Locked \<Longrightarrow> \<exists>u. timed_held w u" using D(2) by (auto split: if_splits)
  consider (got) "v = Locked" "?v \<noteq> Locked" "pf = (T_Inside, owner_Lock t)"
    | (failed) pc' where "v = ?v" "?v = Locked \<or> w_pc w t = T_TryCas" "pf = (pc', w_fields w)" "pc' \<in> {T_Wait, D_Expired, T_Outside}"
        "\<not> timed_held w t"
    | (release) "v = Unlocked" "w_pc w t = T_Store" "pf = (T_Wake, w_fields w)"
    using c s r l by (cases "w_pc w t") (auto simp: timed_held_def split: if_splits)
  then show ?thesis
  proof cases
    case got
    then show ?thesis using timed_inv_got [OF I, of t] l by simp
  next
    case (failed pc')
    then have "w\<lparr>w_value := (w_value w)(l := v)\<rparr> = w" using l by simp
    moreover have "timed_inv (go t (pc', w_fields w) w)"
      by (rule timed_inv_neutral [OF I]) (use failed g taken in \<open>auto simp: timed_pending_def\<close>)
    ultimately show ?thesis using failed(3) by simp
  next
    case release
    then show ?thesis using timed_inv_release [OF I] l by simp
  qed
qed

lemma timed_inv_modes:
  assumes I: "timed_inv w"
    and m: "\<And>u. m u \<noteq> Going \<Longrightarrow> w_pc w u \<in> {T_Wait, D_Wait} \<and> (m u = Back \<or> m u = Waiting locked_var)"
    and e: "\<exists>u. m u = Waiting locked_var \<Longrightarrow> (\<exists>u. timed_held w u) \<or> (\<exists>u. w_pc w u \<in> {T_Wait, D_Wait} \<and> m u \<noteq> Waiting locked_var)"
  shows "timed_inv (w\<lparr>w_mode := m\<rparr>)"
proof -
  note D = timed_invD [OF I]
  let ?w = "w\<lparr>w_mode := m\<rparr>"
  have held: "timed_held ?w = timed_held w" by (simp add: fun_eq_iff timed_held_def)
  have "(\<exists>u. m u = Waiting locked_var) \<longrightarrow> (\<exists>u. timed_held w u) \<or> (\<exists>u. timed_pending ?w u)"
    using e by (force simp: timed_pending_def)
  then show ?thesis unfolding timed_inv_def held using D(1,2,3) m by simp
qed

lemma timed_inv_wake:
  assumes I: "timed_inv w" and g: "w_mode w t = Going" and c: "timed_call t (w_pc w t) = Some (Call_Wake l n)"
    and m: "\<forall>u. w_mode w u = Waiting l \<longrightarrow> m u = Waiting l \<or> m u = Back" "\<forall>u. w_mode w u \<noteq> Waiting l \<longrightarrow> m u = w_mode w u"
      "(\<exists>u. w_mode w u = Waiting l) \<longrightarrow> (\<exists>u. w_mode w u = Waiting l \<and> m u = Back)"
    and r: "timed_resume t No_Answer (w_pc w t) (w_fields w) = Inr pf"
  shows "timed_inv (go t pf (w\<lparr>w_mode := m\<rparr>))"
proof -
  note D = timed_invD [OF I]
  have l: "l = locked_var" and pc: "w_pc w t = T_Wake" using timed_call_loc(2) [OF c] by simp_all
  have pf: "pf = (T_Outside, w_fields w)" using r pc by simp
  let ?w = "go t (T_Outside, w_fields w) (w\<lparr>w_mode := m\<rparr>)"
  have held: "timed_held ?w = timed_held w" using pc by (auto simp: fun_eq_iff timed_held_def)
  have "(\<exists>x. w_mode ?w x = Waiting locked_var) \<longrightarrow> (\<exists>x. timed_pending ?w x)"
  proof (intro impI)
    assume "\<exists>x. w_mode ?w x = Waiting locked_var"
    then obtain x where "m x = Waiting l" using l by (auto split: if_splits)
    then have "w_mode w x = Waiting l" using m(2) by metis
    then obtain u where u: "w_mode w u = Waiting l" "m u = Back" using m(3) by blast
    then have "w_pc w u \<in> {T_Wait, D_Wait}" using D(4) [of u] by simp
    moreover have "u \<noteq> t" using u g by auto
    ultimately have "timed_pending ?w u" using u by (simp add: timed_pending_def)
    then show "\<exists>x. timed_pending ?w x" by blast
  qed
  moreover have "w_fields ?w = Some x \<longleftrightarrow> w_pc ?w x = T_Inside" for x using D(3) [of x] pc by auto
  moreover have "w_pc ?w x \<in> {T_Wait, D_Wait} \<and> (w_mode ?w x = Back \<or> w_mode ?w x = Waiting locked_var)" if "w_mode ?w x \<noteq> Going" for x
    using that m(1,2) D(4) [of x] l by (cases "x = t"; cases "w_mode w x = Waiting l") auto
  moreover have "w_value ?w locked_var = (if \<exists>x. timed_held w x then Locked else Unlocked)" using D(2) by simp
  ultimately have "timed_inv ?w" unfolding timed_inv_def held using D(1) by blast
  then show ?thesis using pf by simp
qed

lemma timed_inv_mode:
  assumes I: "timed_inv w" and c: "timed_call t (w_pc w t) = Some (Call_Wait l old k timed)"
    and x: "x = Back \<or> x = Waiting l \<and> w_value w l = old"
  shows "timed_inv (set_mode t x w)"
proof -
  note D = timed_invD [OF I]
  have l: "l = locked_var" "old = Locked" and pc: "w_pc w t \<in> {T_Wait, D_Wait}" using timed_call_loc(3) [OF c] by simp_all
  have eq: "set_mode t x w = w\<lparr>w_mode := (w_mode w)(t := x)\<rparr>" by (simp add: set_mode_def)
  show ?thesis unfolding eq
  proof (rule timed_inv_modes [OF I])
    show "w_pc w u \<in> {T_Wait, D_Wait} \<and> (((w_mode w)(t := x)) u = Back \<or> ((w_mode w)(t := x)) u = Waiting locked_var)"
      if "((w_mode w)(t := x)) u \<noteq> Going" for u
      using that D(4) [of u] pc x l by (cases "u = t") auto
    have "x \<noteq> Back \<Longrightarrow> \<exists>u. timed_held w u" using x l D(2) by (auto split: if_splits)
    then show "(\<exists>u. timed_held w u) \<or> (\<exists>u. w_pc w u \<in> {T_Wait, D_Wait} \<and> ((w_mode w)(t := x)) u \<noteq> Waiting locked_var)"
      using pc by (cases "x = Back") force+
  qed
qed

lemma timed_inv_back:
  assumes I: "timed_inv w" and g: "w_mode w t = Back" and r: "timed_resume t No_Answer (w_pc w t) (w_fields w) = Inr pf"
  shows "timed_inv (go t pf w)"
proof -
  have pc: "w_pc w t \<in> {T_Wait, D_Wait}" using timed_invD(4) [OF I, of t] g by simp
  then obtain pc' where pf: "pf = (pc', w_fields w)" "pc' \<in> {T_Exchange, D_Exchange}" using r by auto
  show ?thesis unfolding pf(1)
    by (rule timed_inv_neutral [OF I]) (use pc pf(2) g in \<open>auto simp: timed_held_def\<close>)
qed

lemma timed_inv_expired:
  assumes I: "timed_inv w" and g: "w_mode w t = Going" and c: "timed_call t (w_pc w t) = Some Call_Expired"
    and r: "timed_resume t (Ans_Bool b) (w_pc w t) (w_fields w) = Inr pf"
  shows "timed_inv (go t pf w)"
proof -
  have pc: "w_pc w t = D_Expired" by (rule timed_call_loc(4) [OF c])
  then have pf: "pf = (if b then T_Outside else D_Wait, w_fields w)" using r by simp
  show ?thesis unfolding pf
    by (rule timed_inv_neutral [OF I]) (use pc g in \<open>auto simp: timed_held_def timed_pending_def\<close>)
qed

interpretation timed_mutex_class: lib_class timed_object timed_world timed_inv
proof (unfold_locales, goal_cases)
  case 1
  then show ?case by (simp add: timed_inv_def timed_world_def new_world_def timed_held_def)
next
  case (2 w t op pf)
  then show ?case by (simp add: timed_object_def timed_inv_begin)
next
  case (3 w t l sop spurious a v pf)
  then show ?case by (simp add: timed_object_def timed_inv_sync)
next
  case (4 w t b pf)
  then show ?case by (simp add: timed_object_def timed_inv_expired)
next
  case (5 w t l n m pf)
  then show ?case by (simp add: timed_object_def timed_inv_wake)
next
  case (6 w t l old k timed)
  then show ?case by (intro timed_inv_mode [where old = old and k = k and timed = timed and l = l]) (simp_all add: timed_object_def)
next
  case (7 w t l old k timed)
  then show ?case by (intro timed_inv_mode [where old = old and k = k and timed = timed and l = l]) (simp_all add: timed_object_def)
next
  case (8 w t pf)
  then show ?case by (simp add: timed_object_def timed_inv_back)
qed

section \<open>Theorems\<close>


text \<open>
  C25: the deadline of \<open>try_lock_for\<close> and \<open>try_lock_until\<close> is looked at only between two attempts. A thread that
  is parked in them waits without a timer, and no step but the wake of an \<open>unlock\<close> brings it back: when the
  owner does not unlock, the deadline passes unnoticed.
\<close>

theorem timed_lock_waits_past_deadline:
  assumes "lib_run timed_object timed_world w" and p: "w_pc w t = D_Wait" "w_mode w t = Waiting locked_var"
    and st: "lib_step timed_object w w1" and n: "w_mode w1 t \<noteq> Waiting locked_var"
  shows "\<exists>u. w_pc w u = T_Wake \<and> w_pc w1 u = T_Outside"
  using st
proof cases
  case (lib_wake_one u l x pf)
  then have "w_pc w u = T_Wake" using timed_call_loc(2) [of u "w_pc w u" l 1] by (simp add: timed_object_def)
  then show ?thesis using lib_wake_one by (intro exI [of _ u]) (auto simp: timed_object_def set_mode_def)
next
  case (lib_wake_all u l pf)
  then have "w_pc w u = T_Wake" using timed_call_loc(2) [of u "w_pc w u" l 0] by (simp add: timed_object_def)
  then show ?thesis using lib_wake_all by (simp add: timed_object_def)
qed (use p n in \<open>auto simp: timed_object_def set_mode_def split: if_splits\<close>)

text \<open>Thread 1 has the mutex and thread 2 is parked in a timed lock; then thread 1 unlocks.\<close>

definition timed_parked :: "(timed_pc, mutex_owner) world" where
  "timed_parked = \<lparr>w_value = (\<lambda>_. Unlocked)(0 := Locked), w_fields = Some 1,
     w_pc = (\<lambda>_. T_Outside)(1 := T_Inside, 2 := D_Wait), w_mode = (\<lambda>_. Going)(2 := Waiting 0)\<rparr>"

definition timed_released :: "(timed_pc, mutex_owner) world" where
  "timed_released = \<lparr>w_value = (\<lambda>_. Unlocked), w_fields = None,
     w_pc = (\<lambda>_. T_Outside)(1 := T_Wake, 2 := D_Wait), w_mode = (\<lambda>_. Going)(2 := Waiting 0)\<rparr>"

lemmas timed_run_defs = go_def set_mode_def timed_object_def timed_world_def new_world_def owner_Lock_def owner_Unlock_def Own_def verify_def
  locked_var_def

lemma timed_parked_run: "lib_run timed_object timed_world timed_parked"
proof -
  let ?w1 = "go 1 (T_TryCas, None) timed_world"
  let ?w2 = "go 1 (T_Inside, Some 1) (?w1\<lparr>w_value := (w_value ?w1)(locked_var := Locked)\<rparr>)"
  let ?w3 = "go 2 (D_Exchange, Some 1) ?w2"
  let ?w4 = "go 2 (D_Expired, Some 1) (?w3\<lparr>w_value := (w_value ?w3)(locked_var := Locked)\<rparr>)"
  let ?w5 = "go 2 (D_Wait, Some 1) ?w4"
  have s1: "lib_step timed_object timed_world ?w1"
    by (rule lib_begin [where op = Tm_try_lock]) (simp_all add: timed_run_defs kMaxThreads_def)
  have s2: "lib_step timed_object ?w1 ?w2"
    by (rule lib_sync [where op = "Op_Cas Weak Unlocked Locked acquire relaxed" and a = "Ans_Cas True Unlocked" and spurious = False])
      (simp_all add: timed_run_defs)
  have s3: "lib_step timed_object ?w2 ?w3"
    by (rule lib_begin [where op = Tm_try_lock_timed]) (simp_all add: timed_run_defs kMaxThreads_def)
  have s4: "lib_step timed_object ?w3 ?w4"
    by (rule lib_sync [where op = "Op_Exchange Locked acquire" and a = "Ans_Value Locked" and spurious = False]) (simp_all add: timed_run_defs)
  have s5: "lib_step timed_object ?w4 ?w5" by (rule lib_expired [where b = False]) (simp_all add: timed_run_defs)
  have s6: "lib_step timed_object ?w5 (set_mode 2 (Waiting locked_var) ?w5)"
    by (rule lib_park [where old = Locked and k = FtMutexTryLock and timed = False]) (simp_all add: timed_run_defs)
  have "set_mode 2 (Waiting locked_var) ?w5 = timed_parked"
    by (simp add: timed_run_defs timed_parked_def fun_upd_twist fun_upd_idem)
  then show ?thesis
    using run_step [OF run_step [OF run_step [OF run_step [OF run_step [OF run_step [OF run_start s1] s2] s3] s4] s5] s6] by simp
qed

lemma timed_released_run: "lib_run timed_object timed_world timed_released"
proof -
  let ?w1 = "go 1 (T_Store, None) timed_parked"
  let ?w2 = "go 1 (T_Wake, None) (?w1\<lparr>w_value := (w_value ?w1)(locked_var := Unlocked)\<rparr>)"
  note defs = timed_run_defs timed_parked_def
  have s1: "lib_step timed_object timed_parked ?w1" by (rule lib_begin [where op = Tm_unlock]) (simp_all add: defs kMaxThreads_def)
  have s2: "lib_step timed_object ?w1 ?w2"
    by (rule lib_sync [where op = "Op_Store Unlocked release" and a = No_Answer and spurious = False]) (simp_all add: defs)
  have "?w2 = timed_released" by (simp add: defs timed_released_def fun_upd_twist fun_upd_idem)
  then show ?thesis using run_step [OF run_step [OF timed_parked_run s1] s2] by simp
qed


theorem timed_lock_waits_past_deadline_witness:
  "\<exists>w1 u. lib_step timed_object timed_released w1 \<and> w_mode w1 2 = Back \<and> w_pc timed_released u = T_Wake \<and> w_pc w1 u = T_Outside"
proof -
  let ?w1 = "go 1 (T_Outside, None) (set_mode 2 Back timed_released)"
  have s: "lib_step timed_object timed_released ?w1"
    by (rule lib_wake_one [where l = locked_var]) (simp_all add: timed_run_defs timed_released_def)
  have b: "w_mode ?w1 2 = Back" "w_mode ?w1 2 \<noteq> Waiting locked_var" by (simp_all add: set_mode_def)
  have "w_pc timed_released 2 = D_Wait" "w_mode timed_released 2 = Waiting locked_var" by (simp_all add: timed_released_def locked_var_def)
  from timed_lock_waits_past_deadline [OF timed_released_run this s b(2)] show ?thesis using s b(1) by blast
qed

end
