(* ===== verification/Condvar_Lib.thy ===== *)
theory Condvar_Lib
  imports Mutex_Lib
begin

text \<open>
  \<open>std::condition_variable\<close> of the user library (\<open>rt/sim/user/library/std_like/condition_variable.hpp\<close>) with the
  \<open>std::mutex\<close> of its waiters. Its proof: seen from the mutex, the condition variable is one more program
  that locks and unlocks (a refinement), and releasing the mutex and waiting is atomic for notifications.
\<close>

section \<open>The code\<close>

text \<open>The member \<open>count_\<close>. The mutex has the other atomic.\<close>

definition count_var :: addr where "count_var = 1"

lemma vars_distinct [simp]: "count_var \<noteq> locked_var" "locked_var \<noteq> count_var"
  by (simp_all add: count_var_def locked_var_def)

text \<open>
  A thread in the code of the mutex goes on with nothing, with the wait that released the mutex (the count it
  has seen, and whether it is timed), or with the return from a wait.
\<close>

datatype cv_after = Then_Nothing | Then_Wait word32 bool | Then_Return bool

datatype cv_pc =
  In_Mutex mutex_pc cv_after
| Cw_Load bool | Cw_Wait word32 bool | Cw_Expired
| Notify_FetchAdd nat mutex_pc | Notify_Wake nat mutex_pc

datatype cv_op = Mutex_op lock_op | Cv_wait | Cv_wait_until | Cv_notify_one | Cv_notify_all

fun cv_call :: "tid \<Rightarrow> cv_pc \<Rightarrow> lib_call option" where
  "cv_call t (In_Mutex m k) = mutex_call t m"
| "cv_call t (Cw_Load timed) = Some (Call_Sync count_var (Op_Load relaxed))"
| "cv_call t (Cw_Wait old_count timed) = Some (Call_Wait count_var old_count FtCondVar timed)"
| "cv_call t Cw_Expired = Some Call_Expired"
| "cv_call t (Notify_FetchAdd n m) = Some (Call_Sync count_var (Op_FetchAdd 1 relaxed))"
| "cv_call t (Notify_Wake n m) = Some (Call_Wake count_var n)"

text \<open>Where a thread goes when its step in the mutex has taken it to \<open>m\<close>.\<close>

fun cv_go_on :: "cv_after \<Rightarrow> mutex_pc \<Rightarrow> cv_pc" where
  "cv_go_on Then_Nothing m = In_Mutex m Then_Nothing"
| "cv_go_on (Then_Wait old_count timed) m = (if m = Outside then Cw_Wait old_count timed else In_Mutex m (Then_Wait old_count timed))"
| "cv_go_on (Then_Return timed) m =
     (if m = Inside then if timed then Cw_Expired else In_Mutex Inside Then_Nothing else In_Mutex m (Then_Return timed))"

definition in_mutex :: "cv_after \<Rightarrow> fault + mutex_pc \<times> mutex \<Rightarrow> fault + cv_pc \<times> mutex" where
  "in_mutex k r = bindE r (\<lambda>(m, f). Inr (cv_go_on k m, f))"

text \<open>\<open>Wait\<close> and \<open>WaitTimed\<close>; the status that a timed wait returns is left out.\<close>

fun cv_resume :: "tid \<Rightarrow> answer \<Rightarrow> cv_pc \<Rightarrow> mutex \<Rightarrow> fault + cv_pc \<times> mutex" where
  "cv_resume t a (In_Mutex m k) f = in_mutex k (mutex_resume t a m f)"
| "cv_resume t a (Cw_Load timed) f = on_value a (\<lambda>old_count. in_mutex (Then_Wait old_count timed) (mutex_begin t Do_unlock Inside f))"
| "cv_resume t a (Cw_Wait old_count timed) f = on_return a (in_mutex (Then_Return timed) (mutex_begin t Do_lock Outside f))"
| "cv_resume t a Cw_Expired f = on_bool a (\<lambda>expired. Inr (In_Mutex Inside Then_Nothing, f))"
| "cv_resume t a (Notify_FetchAdd n m) f = on_value a (\<lambda>_. Inr (Notify_Wake n m, f))"
| "cv_resume t a (Notify_Wake n m) f = on_return a (Inr (In_Mutex m Then_Nothing, f))"

text \<open>Waiting without the mutex is undefined in C++; notifying is allowed with and without it.\<close>

definition cv_enter :: "bool \<Rightarrow> cv_pc \<times> mutex \<Rightarrow> fault + cv_pc \<times> mutex" where
  "cv_enter ok r = (if ok then Inr r else Inl (Panic ''undefined behaviour''))"

fun cv_begin :: "tid \<Rightarrow> cv_op \<Rightarrow> cv_pc \<Rightarrow> mutex \<Rightarrow> fault + cv_pc \<times> mutex" where
  "cv_begin t op (In_Mutex m Then_Nothing) f = (case op of
     Mutex_op lop \<Rightarrow> in_mutex Then_Nothing (mutex_begin t lop m f)
   | Cv_wait \<Rightarrow> cv_enter (m = Inside) (Cw_Load False, f)
   | Cv_wait_until \<Rightarrow> cv_enter (m = Inside) (Cw_Load True, f)
   | Cv_notify_one \<Rightarrow> Inr (Notify_FetchAdd 1 m, f)
   | Cv_notify_all \<Rightarrow> Inr (Notify_FetchAdd 0 m, f))"
| "cv_begin t op pc f = Inl (Panic ''unreachable'')"

definition cv_object :: "(cv_pc, mutex, cv_op) object" where
  "cv_object = \<lparr>ob_call = cv_call, ob_resume = cv_resume, ob_begin = cv_begin\<rparr>"

definition cv_world :: "(cv_pc, mutex) world" where
  "cv_world = new_world (\<lambda>_. 0) new_mutex (In_Mutex Outside Then_Nothing)"

section \<open>The mutex of the waiters\<close>

fun mutex_place :: "cv_pc \<Rightarrow> mutex_pc" where
  "mutex_place (In_Mutex m k) = m"
| "mutex_place (Cw_Load timed) = Inside"
| "mutex_place (Cw_Wait old_count timed) = Outside"
| "mutex_place Cw_Expired = Inside"
| "mutex_place (Notify_FetchAdd n m) = m"
| "mutex_place (Notify_Wake n m) = m"

definition cv_waits :: "cv_pc \<Rightarrow> bool" where
  "cv_waits pc \<longleftrightarrow> (case pc of Cw_Wait old_count timed \<Rightarrow> True | _ \<Rightarrow> False)"

definition mutex_of :: "(cv_pc, mutex) world \<Rightarrow> (mutex_pc, mutex) world" where
  "mutex_of w = \<lparr>w_value = (\<lambda>_. Unlocked)(locked_var := w_value w locked_var), w_fields = w_fields w,
     w_pc = (\<lambda>t. mutex_place (w_pc w t)), w_mode = (\<lambda>t. if cv_waits (w_pc w t) then Going else w_mode w t)\<rparr>"

lemma mutex_of_simps [simp]:
  "w_value (mutex_of w) locked_var = w_value w locked_var" "w_fields (mutex_of w) = w_fields w"
  "w_pc (mutex_of w) t = mutex_place (w_pc w t)" "w_mode (mutex_of w) t = (if cv_waits (w_pc w t) then Going else w_mode w t)"
  by (simp_all add: mutex_of_def)

lemma mutex_of_go: "mutex_of (go t (pc', f) w) = go t (mutex_place pc', f) (mutex_of w)"
  by (auto simp: mutex_of_def go_def)

lemma mutex_of_count: "mutex_of (w\<lparr>w_value := (w_value w)(count_var := v)\<rparr>) = mutex_of w"
  by (simp add: mutex_of_def cong: if_cong)

lemma mutex_of_locked:
  "mutex_of (w\<lparr>w_value := (w_value w)(locked_var := v)\<rparr>) = (mutex_of w)\<lparr>w_value := (w_value (mutex_of w))(locked_var := v)\<rparr>"
  by (simp add: mutex_of_def cong: if_cong)

lemma mutex_of_mode:
  "mutex_of (set_mode t x w) = (if cv_waits (w_pc w t) then mutex_of w else set_mode t x (mutex_of w))"
  by (auto simp: mutex_of_def set_mode_def)

lemma mutex_of_modes:
  "(\<And>t. \<not> cv_waits (w_pc w t) \<Longrightarrow> m t = w_mode w t) \<Longrightarrow> mutex_of (w\<lparr>w_mode := m\<rparr>) = mutex_of w"
  by (auto simp: mutex_of_def)

lemma mutex_of_wake_all:
  "(\<And>t. w_mode w t = Waiting l \<Longrightarrow> \<not> cv_waits (w_pc w t)) \<Longrightarrow>
     mutex_of (w\<lparr>w_mode := \<lambda>u. if w_mode w u = Waiting l then Back else w_mode w u\<rparr>) =
     (mutex_of w)\<lparr>w_mode := \<lambda>u. if w_mode (mutex_of w) u = Waiting l then Back else w_mode (mutex_of w) u\<rparr>"
  by (auto simp: mutex_of_def)

lemma place_go_on [simp]: "mutex_place (cv_go_on k m) = m"
  by (cases k) auto

lemma go_idle: "w_pc w t = pc \<Longrightarrow> w_mode w t = Going \<Longrightarrow> w_fields w = f \<Longrightarrow> go t (pc, f) w = w"
  by (simp add: go_def fun_upd_idem)

section \<open>Steps of the mutex\<close>

text \<open>A call that is the mutex's, and one that is the condition variable's.\<close>

lemma mutex_call_loc:
  "mutex_call t m = Some (Call_Sync l op) \<Longrightarrow> l = locked_var" "mutex_call t m = Some (Call_Wait l old k timed) \<Longrightarrow> l = locked_var"
  "mutex_call t m = Some (Call_Wake l n) \<Longrightarrow> l = locked_var" "mutex_call t m \<noteq> Some Call_Expired"
  by (cases m; simp)+

lemma in_mutex_Inr: "in_mutex k r = Inr pf \<longleftrightarrow> (\<exists>m f. r = Inr (m, f) \<and> pf = (cv_go_on k m, f))"
  by (auto simp: in_mutex_def bindE_eq_Inr)

text \<open>What the mutex sees of a step.\<close>

definition seen :: "(cv_pc, mutex) world \<Rightarrow> (cv_pc, mutex) world \<Rightarrow> bool" where
  "seen w w1 \<longleftrightarrow> mutex_of w1 = mutex_of w \<or> lib_step mutex_object (mutex_of w) (mutex_of w1)"

lemma seen_same: "mutex_of w1 = mutex_of w \<Longrightarrow> seen w w1"
  by (simp add: seen_def)

lemma seen_stays:
  assumes "w_mode w t = Going" and "mutex_place pc' = mutex_place (w_pc w t)" and "\<not> cv_waits (w_pc w t)"
  shows "seen w (go t (pc', w_fields w) w)"
  by (rule seen_same, unfold mutex_of_go, rule go_idle) (use assms in simp_all)

lemma seen_begin:
  assumes t: "1 \<le> t" "t \<le> kMaxThreads" and g: "w_mode w t = Going \<or> cv_waits (w_pc w t)"
    and p: "mutex_call t (mutex_place (w_pc w t)) = None"
    and b: "mutex_begin t op (mutex_place (w_pc w t)) (w_fields w) = Inr (m, f)" and pc': "mutex_place pc' = m"
  shows "seen w (go t (pc', f) w)"
proof -
  have "lib_step mutex_object (mutex_of w) (go t (m, f) (mutex_of w))"
    by (rule lib_begin [OF t, where op = op]) (use g p b in \<open>auto simp: mutex_object_def\<close>)
  then show ?thesis by (simp add: seen_def mutex_of_go pc')
qed

lemma in_mutex_place: "w_pc w t = In_Mutex m k \<Longrightarrow> mutex_place (w_pc w t) = m \<and> \<not> cv_waits (w_pc w t)"
  by (simp add: cv_waits_def)

lemma parked_where:
  assumes "at_wait cv_object w" and "w_mode w u = Waiting l"
  shows "if cv_waits (w_pc w u) then l = count_var else l = locked_var"
proof -
  have "w_mode w u \<noteq> Going" using assms(2) by simp
  with assms(1) obtain l' old k timed where "ob_call cv_object u (w_pc w u) = Some (Call_Wait l' old k timed)"
      "w_mode w u = Back \<or> w_mode w u = Waiting l'" by (rule at_waitD)
  then show ?thesis using assms(2) mutex_call_loc(2) by (cases "w_pc w u") (auto simp: cv_object_def cv_waits_def)
qed

lemma seen_sync:
  assumes g: "w_mode w t = Going" and c: "cv_call t (w_pc w t) = Some (Call_Sync l op)" and b: "at_start (In_Mutex Outside Then_Nothing) w"
    and s: "sync_spec spurious op (w_value w l) = (a, v)" and r: "cv_resume t a (w_pc w t) (w_fields w) = Inr pf"
  shows "seen w (go t pf (w\<lparr>w_value := (w_value w)(l := v)\<rparr>))"
proof (cases "w_pc w t")
  case (In_Mutex m k)
  then have mc: "mutex_call t m = Some (Call_Sync l op)" using c by simp
  obtain m' f' where r': "mutex_resume t a m (w_fields w) = Inr (m', f')" "pf = (cv_go_on k m', f')"
    using r In_Mutex by (auto simp: in_mutex_Inr)
  have l: "l = locked_var" by (rule mutex_call_loc(1) [OF mc])
  have "lib_step mutex_object (mutex_of w) (go t (m', f') ((mutex_of w)\<lparr>w_value := (w_value (mutex_of w))(l := v)\<rparr>))"
    by (rule lib_sync [where op = op and a = a and spurious = spurious])
      (use g mc s r' l In_Mutex in \<open>simp_all add: mutex_object_def cv_waits_def\<close>)
  then show ?thesis by (simp add: seen_def r'(2) mutex_of_go l mutex_of_locked)
next
  case (Cw_Load timed)
  let ?w = "w\<lparr>w_value := (w_value w)(count_var := v)\<rparr>"
  have l: "l = count_var" using c Cw_Load by simp
  obtain m f where m: "mutex_begin t Do_unlock Inside (w_fields w) = Inr (m, f)" "pf = (cv_go_on (Then_Wait (w_value w l) timed) m, f)"
    using r s c Cw_Load by (auto simp: in_mutex_Inr)
  have "1 \<le> t" "t \<le> kMaxThreads" using b Cw_Load unfolding at_start_def by force+
  then have "seen ?w (go t pf ?w)" unfolding m(2)
    by (rule seen_begin [where op = Do_unlock]) (use g Cw_Load m(1) in \<open>simp_all del: cv_go_on.simps\<close>)
  then show ?thesis by (simp add: seen_def mutex_of_count l)
next
  case (Notify_FetchAdd n m)
  let ?w = "w\<lparr>w_value := (w_value w)(count_var := v)\<rparr>"
  have l: "l = count_var" and pf: "pf = (Notify_Wake n m, w_fields w)" using c s r Notify_FetchAdd by auto
  have "seen ?w (go t (Notify_Wake n m, w_fields ?w) ?w)"
    by (rule seen_stays) (use g Notify_FetchAdd in \<open>simp_all add: cv_waits_def\<close>)
  then show ?thesis by (simp add: seen_def mutex_of_count l pf)
qed (use c in simp_all)

lemma seen_wake:
  assumes g: "w_mode w t = Going" and c: "cv_call t (w_pc w t) = Some (Call_Wake l n)" and W: "at_wait cv_object w"
    and m: "\<And>u. w_mode w u \<noteq> Waiting l \<Longrightarrow> m u = w_mode w u"
    and st: "\<And>m1 f1. mutex_call t (mutex_place (w_pc w t)) = Some (Call_Wake l n) \<Longrightarrow> \<not> cv_waits (w_pc w t) \<Longrightarrow>
       mutex_resume t No_Answer (mutex_place (w_pc w t)) (w_fields w) = Inr (m1, f1) \<Longrightarrow>
       lib_step mutex_object (mutex_of w) (go t (m1, f1) ((mutex_of w)\<lparr>w_mode := (\<lambda>u. if cv_waits (w_pc w u) then Going else m u)\<rparr>))"
    and r: "cv_resume t No_Answer (w_pc w t) (w_fields w) = Inr pf"
  shows "seen w (go t pf (w\<lparr>w_mode := m\<rparr>))"
proof (cases "w_pc w t")
  case (In_Mutex m' k)
  obtain m1 f1 where r': "mutex_resume t No_Answer m' (w_fields w) = Inr (m1, f1)" "pf = (cv_go_on k m1, f1)"
    using r In_Mutex by (auto simp: in_mutex_Inr)
  have "lib_step mutex_object (mutex_of w) (go t (m1, f1) ((mutex_of w)\<lparr>w_mode := (\<lambda>u. if cv_waits (w_pc w u) then Going else m u)\<rparr>))"
    by (rule st) (use r'(1) c In_Mutex in \<open>simp_all add: cv_waits_def\<close>)
  moreover have "mutex_of (w\<lparr>w_mode := m\<rparr>) = (mutex_of w)\<lparr>w_mode := (\<lambda>u. if cv_waits (w_pc w u) then Going else m u)\<rparr>"
    by (simp add: mutex_of_def cong: if_cong)
  ultimately show ?thesis by (simp add: seen_def r'(2) mutex_of_go)
next
  case (Notify_Wake n' m')
  let ?w = "w\<lparr>w_mode := m\<rparr>"
  have l: "l = count_var" and pf: "pf = (In_Mutex m' Then_Nothing, w_fields w)" using c r Notify_Wake by simp_all
  have "mutex_of ?w = mutex_of w"
  proof (rule mutex_of_modes)
    fix u assume "\<not> cv_waits (w_pc w u)"
    then have "w_mode w u \<noteq> Waiting l" using parked_where [OF W, of u l] l by auto
    then show "m u = w_mode w u" by (rule m)
  qed
  moreover have "seen ?w (go t (In_Mutex m' Then_Nothing, w_fields ?w) ?w)"
    by (rule seen_stays) (use g Notify_Wake m [of t] in \<open>simp_all add: cv_waits_def\<close>)
  ultimately show ?thesis by (simp add: seen_def pf)
qed (use c in simp_all)

lemma seen_mode:
  assumes g: "w_mode w t \<noteq> Back" and c: "cv_call t (w_pc w t) = Some (Call_Wait l old k timed)"
    and st: "\<not> cv_waits (w_pc w t) \<Longrightarrow> lib_step mutex_object (mutex_of w) (set_mode t x (mutex_of w))"
  shows "seen w (set_mode t x w)"
  using st by (cases "cv_waits (w_pc w t)") (simp_all add: seen_def mutex_of_mode)

text \<open>Every step.\<close>

lemma seen_step:
  assumes st: "lib_step cv_object w w1" and W: "at_wait cv_object w" and S: "at_start (In_Mutex Outside Then_Nothing) w"
  shows "seen w w1"
  using st
proof cases
  case (lib_begin t op pf)
  have "\<exists>m. w_pc w t = In_Mutex m Then_Nothing \<and> mutex_call t m = None"
  proof (cases "w_pc w t")
    case (In_Mutex m k)
    then show ?thesis using lib_begin by (cases k) (auto simp: cv_object_def)
  qed (use lib_begin in \<open>simp_all add: cv_object_def\<close>)
  then obtain m where pc: "w_pc w t = In_Mutex m Then_Nothing" and mc: "mutex_call t m = None" by blast
  have b: "cv_begin t op (In_Mutex m Then_Nothing) (w_fields w) = Inr pf" using lib_begin pc by (simp add: cv_object_def)
  note stay = seen_stays [OF lib_begin(4), unfolded pc]
  show ?thesis
  proof (cases op)
    case (Mutex_op lop)
    then obtain m1 f1 where "mutex_begin t lop m (w_fields w) = Inr (m1, f1)" "pf = (cv_go_on Then_Nothing m1, f1)"
      using b by (auto simp: in_mutex_Inr)
    then show ?thesis unfolding lib_begin(1)
      using seen_begin [OF lib_begin(2,3), of w lop m1 f1 "cv_go_on Then_Nothing m1"] lib_begin(4) pc mc by simp
  qed (use b stay lib_begin(1) in \<open>auto simp: cv_enter_def cv_waits_def split: if_splits\<close>)
next
  case (lib_sync t l op spurious a v pf)
  then show ?thesis using seen_sync [of w t l op spurious a v pf] S by (simp add: cv_object_def)
next
  case (lib_expired t b pf)
  then have pc: "w_pc w t = Cw_Expired" using mutex_call_loc(4) by (cases "w_pc w t") (auto simp: cv_object_def)
  then have "pf = (In_Mutex Inside Then_Nothing, w_fields w)" using lib_expired by (simp add: cv_object_def)
  then show ?thesis unfolding lib_expired(1) using seen_stays [OF lib_expired(2), of "In_Mutex Inside Then_Nothing"] pc by (simp add: cv_waits_def)
next
  case (lib_wake_none t l n pf)
  have "seen w (go t pf (w\<lparr>w_mode := w_mode w\<rparr>))"
  proof (rule seen_wake [OF lib_wake_none(2) _ W])
    fix m1 f1
    assume p: "mutex_call t (mutex_place (w_pc w t)) = Some (Call_Wake l n)" "\<not> cv_waits (w_pc w t)"
      "mutex_resume t No_Answer (mutex_place (w_pc w t)) (w_fields w) = Inr (m1, f1)"
    have "lib_step mutex_object (mutex_of w) (go t (m1, f1) (mutex_of w))"
      by (rule lib_step.lib_wake_none [where l = l and n = n]) (use p lib_wake_none in \<open>simp_all add: mutex_object_def\<close>)
    then show "lib_step mutex_object (mutex_of w)
        (go t (m1, f1) ((mutex_of w)\<lparr>w_mode := (\<lambda>u. if cv_waits (w_pc w u) then Going else w_mode w u)\<rparr>))" by (simp add: mutex_of_def)
  qed (use lib_wake_none in \<open>simp_all add: cv_object_def\<close>)
  then show ?thesis unfolding lib_wake_none(1) by simp
next
  case (lib_wake_one t l u pf)
  have "seen w (go t pf (w\<lparr>w_mode := (w_mode w)(u := Back)\<rparr>))"
  proof (rule seen_wake [OF lib_wake_one(2) _ W, where l = l and n = 1])
    fix m1 f1
    assume p: "mutex_call t (mutex_place (w_pc w t)) = Some (Call_Wake l 1)" "\<not> cv_waits (w_pc w t)"
      "mutex_resume t No_Answer (mutex_place (w_pc w t)) (w_fields w) = Inr (m1, f1)"
    have l: "l = locked_var" by (rule mutex_call_loc(3) [OF p(1)])
    then have u: "\<not> cv_waits (w_pc w u)" using parked_where [OF W lib_wake_one(4)] by (auto split: if_splits)
    have "lib_step mutex_object (mutex_of w) (go t (m1, f1) (set_mode u Back (mutex_of w)))"
      by (rule lib_step.lib_wake_one [where l = l]) (use p u lib_wake_one in \<open>simp_all add: mutex_object_def\<close>)
    moreover have "set_mode u Back (mutex_of w) =
        (mutex_of w)\<lparr>w_mode := (\<lambda>x. if cv_waits (w_pc w x) then Going else ((w_mode w)(u := Back)) x)\<rparr>"
      using u by (auto simp: mutex_of_def set_mode_def)
    ultimately show "lib_step mutex_object (mutex_of w)
        (go t (m1, f1) ((mutex_of w)\<lparr>w_mode := (\<lambda>x. if cv_waits (w_pc w x) then Going else ((w_mode w)(u := Back)) x)\<rparr>))" by simp
  qed (use lib_wake_one in \<open>auto simp: cv_object_def\<close>)
  then show ?thesis unfolding lib_wake_one(1) by (simp add: set_mode_def)
next
  case (lib_wake_all t l pf)
  let ?m = "\<lambda>u. if w_mode w u = Waiting l then Back else w_mode w u"
  have "seen w (go t pf (w\<lparr>w_mode := ?m\<rparr>))"
  proof (rule seen_wake [OF lib_wake_all(2) _ W, where l = l and n = 0])
    fix m1 f1
    assume p: "mutex_call t (mutex_place (w_pc w t)) = Some (Call_Wake l 0)" "\<not> cv_waits (w_pc w t)"
      "mutex_resume t No_Answer (mutex_place (w_pc w t)) (w_fields w) = Inr (m1, f1)"
    have "lib_step mutex_object (mutex_of w)
        (go t (m1, f1) ((mutex_of w)\<lparr>w_mode := \<lambda>u. if w_mode (mutex_of w) u = Waiting l then Back else w_mode (mutex_of w) u\<rparr>))"
      by (rule lib_step.lib_wake_all [where l = l]) (use p lib_wake_all in \<open>simp_all add: mutex_object_def\<close>)
    moreover have "(\<lambda>u. if w_mode (mutex_of w) u = Waiting l then Back else w_mode (mutex_of w) u) = (\<lambda>u. if cv_waits (w_pc w u) then Going else ?m u)"
      by auto
    ultimately show "lib_step mutex_object (mutex_of w)
        (go t (m1, f1) ((mutex_of w)\<lparr>w_mode := (\<lambda>u. if cv_waits (w_pc w u) then Going else ?m u)\<rparr>))" by (simp only:)
  qed (use lib_wake_all in \<open>auto simp: cv_object_def\<close>)
  then show ?thesis unfolding lib_wake_all(1) .
next
  case (lib_park t l old k timed)
  show ?thesis unfolding lib_park(1)
  proof (rule seen_mode)
    assume n: "\<not> cv_waits (w_pc w t)"
    then obtain m k' where pc: "w_pc w t = In_Mutex m k'" using lib_park by (cases "w_pc w t") (auto simp: cv_object_def cv_waits_def)
    then have c: "mutex_call t m = Some (Call_Wait l old k timed)" using lib_park by (simp add: cv_object_def)
    show "lib_step mutex_object (mutex_of w) (set_mode t (Waiting l) (mutex_of w))"
      by (rule lib_step.lib_park [where old = old and k = k and timed = timed])
        (use n c pc lib_park mutex_call_loc(2) [OF c] in \<open>simp_all add: mutex_object_def\<close>)
  qed (use lib_park in \<open>simp_all add: cv_object_def\<close>)
next
  case (lib_pass t l old k timed)
  show ?thesis unfolding lib_pass(1)
  proof (rule seen_mode)
    assume n: "\<not> cv_waits (w_pc w t)"
    then obtain m k' where pc: "w_pc w t = In_Mutex m k'" using lib_pass by (cases "w_pc w t") (auto simp: cv_object_def cv_waits_def)
    then have c: "mutex_call t m = Some (Call_Wait l old k timed)" using lib_pass by (simp add: cv_object_def)
    show "lib_step mutex_object (mutex_of w) (set_mode t Back (mutex_of w))"
      by (rule lib_step.lib_pass [where l = l and old = old and k = k and timed = timed])
        (use n c pc lib_pass mutex_call_loc(2) [OF c] in \<open>simp_all add: mutex_object_def\<close>)
  qed (use lib_pass in \<open>simp_all add: cv_object_def\<close>)
next
  case (lib_timer t l' l old k)
  have "cv_waits (w_pc w t)"
  proof (cases "w_pc w t")
    case (In_Mutex m k')
    then have "mutex_call t m = Some (Call_Wait l old k True)" using lib_timer by (simp add: cv_object_def)
    then show ?thesis by (cases m) simp_all
  qed (use lib_timer in \<open>simp_all add: cv_object_def cv_waits_def\<close>)
  then show ?thesis unfolding lib_timer(1) by (simp add: seen_def mutex_of_mode)
next
  case (lib_back t pf)
  obtain l old k timed where "cv_call t (w_pc w t) = Some (Call_Wait l old k timed)"
    using at_waitD [OF W] lib_back(2) by (metis cv_object_def mode.distinct(3) object.select_convs(1))
  then show ?thesis
  proof (cases "w_pc w t")
    case (In_Mutex m k')
    obtain m1 f1 where r: "mutex_resume t No_Answer m (w_fields w) = Inr (m1, f1)" "pf = (cv_go_on k' m1, f1)"
      using lib_back In_Mutex by (auto simp: cv_object_def in_mutex_Inr)
    have "lib_step mutex_object (mutex_of w) (go t (m1, f1) (mutex_of w))"
      by (rule lib_step.lib_back) (use lib_back r In_Mutex in \<open>simp_all add: mutex_object_def cv_waits_def\<close>)
    then show ?thesis unfolding lib_back(1) by (simp add: seen_def r(2) mutex_of_go)
  next
    case (Cw_Wait old_count timed')
    obtain m1 f1 where r: "mutex_begin t Do_lock Outside (w_fields w) = Inr (m1, f1)" "pf = (cv_go_on (Then_Return timed') m1, f1)"
      using lib_back Cw_Wait by (auto simp: cv_object_def in_mutex_Inr simp del: mutex_begin.simps)
    have "1 \<le> t" "t \<le> kMaxThreads" using S Cw_Wait unfolding at_start_def by force+
    then show ?thesis unfolding lib_back(1) r(2)
      by (rule seen_begin [where op = Do_lock]) (use Cw_Wait r(1) in \<open>simp_all add: cv_waits_def del: mutex_begin.simps\<close>)
  qed simp_all
qed

interpretation cv_refines: lib_refines cv_object cv_world mutex_object mutex_world mutex_of
proof unfold_locales
  show "mutex_of cv_world = mutex_world"
    by (auto simp: mutex_of_def cv_world_def mutex_world_def new_world_def cv_waits_def Unlocked_def)
next
  fix w w1
  assume r: "lib_run cv_object cv_world w" and st: "lib_step cv_object w w1"
  have "ob_call cv_object t (In_Mutex Outside Then_Nothing) = None" for t by (simp add: cv_object_def)
  then have "at_wait cv_object w" "at_start (In_Mutex Outside Then_Nothing) w"
    using run_everywhere [OF r [unfolded cv_world_def]] by simp_all
  from seen_step [OF st this] show "mutex_of w1 = mutex_of w \<or> lib_step mutex_object (mutex_of w) (mutex_of w1)"
    by (simp add: seen_def)
qed

section \<open>Notifications\<close>

text \<open>The count that a waiter has seen, until it returns from the futex.\<close>

fun seen_count :: "cv_pc \<Rightarrow> word32 option" where
  "seen_count (In_Mutex m (Then_Wait old_count timed)) = Some old_count"
| "seen_count (Cw_Wait old_count timed) = Some old_count"
| "seen_count _ = None"

text \<open>In \<open>w\<close> thread \<open>t\<close> waits, and \<open>n\<close> notifications have begun since it has looked at the count.\<close>

inductive since :: "tid \<Rightarrow> (cv_pc, mutex) world \<Rightarrow> nat \<Rightarrow> bool" for t where
  since_load: "lib_run cv_object cv_world w \<Longrightarrow> w_pc w t = Cw_Load timed \<Longrightarrow> lib_step cv_object w w1 \<Longrightarrow> w_pc w1 t \<noteq> Cw_Load timed \<Longrightarrow>
     since t w1 0"
| since_step: "since t w n \<Longrightarrow> lib_step cv_object w w1 \<Longrightarrow> seen_count (w_pc w1 t) \<noteq> None \<Longrightarrow>
     since t w1 (if w_value w1 count_var = w_value w count_var then n else n + 1)"

lemma count_step:
  assumes "lib_step cv_object w w1"
  shows "w_value w1 count_var = w_value w count_var \<or> w_value w1 count_var = w_value w count_var + 1"
  using assms
proof cases
  case (lib_sync t l op spurious a v pf)
  then show ?thesis
  proof (cases "w_pc w t")
    case (In_Mutex m k)
    then have "l = locked_var" using lib_sync mutex_call_loc(1) [of t m l op] by (simp add: cv_object_def)
    then show ?thesis using lib_sync(1) by (simp add: go_def)
  qed (auto simp: cv_object_def go_def)
qed (simp_all add: go_def set_mode_def)

lemma pc_step:
  assumes "lib_step ob w w1"
  shows "w_pc w1 t = w_pc w t \<or> (\<exists>a. ob_resume ob t a (w_pc w t) (w_fields w) = Inr (w_pc w1 t, w_fields w1)) \<or>
    (\<exists>op. ob_begin ob t op (w_pc w t) (w_fields w) = Inr (w_pc w1 t, w_fields w1))"
  using assms
proof cases
  case (lib_begin u op pf)
  then show ?thesis by (cases "u = t") (auto simp: go_def)
next
  case (lib_sync u l op spurious a v pf)
  then show ?thesis by (cases "u = t") (auto simp: go_def)
next
  case (lib_expired u b pf)
  then show ?thesis by (cases "u = t") (auto simp: go_def)
next
  case (lib_wake_none u l n pf)
  then show ?thesis by (cases "u = t") (auto simp: go_def)
next
  case (lib_wake_one u l x pf)
  then show ?thesis by (cases "u = t") (auto simp: go_def set_mode_def)
next
  case (lib_wake_all u l pf)
  then show ?thesis by (cases "u = t") (auto simp: go_def)
next
  case (lib_back u pf)
  then show ?thesis by (cases "u = t") (auto simp: go_def)
qed (simp_all add: set_mode_def)

lemma seen_count_go_on: "seen_count (cv_go_on k m) = Some c \<Longrightarrow> \<exists>timed. k = Then_Wait c timed"
  by (cases k) (auto split: if_splits)

lemma seen_count_resume:
  "cv_resume t a pc f = Inr (pc', f') \<Longrightarrow> seen_count pc = Some c \<Longrightarrow> seen_count pc' = None \<or> seen_count pc' = Some c"
  by (cases pc rule: seen_count.cases) (auto simp: in_mutex_Inr on_return_def split: answer.splits if_splits)

lemma seen_count_step:
  assumes "lib_step cv_object w w1" and "seen_count (w_pc w t) = Some c" and "seen_count (w_pc w1 t) \<noteq> None"
  shows "seen_count (w_pc w1 t) = Some c"
proof -
  have "cv_begin t op (w_pc w t) f \<noteq> Inr r" for op f r
    using assms(2) by (cases "w_pc w t" rule: seen_count.cases) auto
  then show ?thesis using pc_step [OF assms(1), of t] assms(2,3) seen_count_resume by (fastforce simp: cv_object_def)
qed

lemma load_step:
  assumes "lib_step cv_object w w1" and "w_pc w t = Cw_Load timed" and "w_pc w1 t \<noteq> Cw_Load timed"
  shows "seen_count (w_pc w1 t) = Some (w_value w count_var) \<and> w_value w1 count_var = w_value w count_var"
  using assms(1)
proof cases
  case (lib_sync u l op spurious a v pf)
  then have "u = t" using assms(2,3) by (auto simp: go_def split: if_splits)
  then show ?thesis using lib_sync assms(2) by (auto simp: cv_object_def go_def in_mutex_Inr bindE_eq_Inr)
qed (use assms(2,3) in \<open>auto simp: go_def set_mode_def cv_object_def on_value_def split: if_splits\<close>)

lemma since_count:
  "since t w n \<Longrightarrow> \<exists>c. seen_count (w_pc w t) = Some c \<and> w_value w count_var = c + word_of_nat n"
proof (induction rule: since.induct)
  case (since_load w timed w1)
  then show ?case using load_step by fastforce
next
  case (since_step w n w1)
  then obtain c where c: "seen_count (w_pc w t) = Some c" "w_value w count_var = c + word_of_nat n" by blast
  have "seen_count (w_pc w1 t) = Some c" by (rule seen_count_step [OF since_step(2) c(1) since_step(3)])
  then show ?case using count_step [OF since_step(2)] c(2) by (auto simp: algebra_simps)
qed

section \<open>Theorems\<close>



text \<open>Thread 1 takes the mutex and waits; thread 2 notifies before thread 1 is parked.\<close>

definition notified :: "(cv_pc, mutex) world" where
  "notified = \<lparr>w_value = (\<lambda>_. 0)(1 := 1), w_fields = new_mutex,
     w_pc = (\<lambda>_. In_Mutex Outside Then_Nothing)(1 := Cw_Wait 0 False, 2 := Notify_Wake 1 Outside), w_mode = \<lambda>_. Going\<rparr>"

lemma notified_run: "lib_run cv_object cv_world notified \<and> since 1 notified 1"
proof -
  let ?o = "\<lparr>mx_contention = 0, mx_owner = Some 1\<rparr>"
  let ?w1 = "go 1 (In_Mutex LockExchange Then_Nothing, new_mutex) cv_world"
  let ?w2 = "go 1 (In_Mutex Inside Then_Nothing, ?o) (?w1\<lparr>w_value := (w_value ?w1)(locked_var := Locked)\<rparr>)"
  let ?w3 = "go 1 (Cw_Load False, ?o) ?w2"
  let ?w4 = "go 1 (In_Mutex UnlockStore (Then_Wait 0 False), new_mutex) (?w3\<lparr>w_value := (w_value ?w3)(count_var := 0)\<rparr>)"
  let ?w5 = "go 1 (Cw_Wait 0 False, new_mutex) (?w4\<lparr>w_value := (w_value ?w4)(locked_var := Unlocked)\<rparr>)"
  let ?w6 = "go 2 (Notify_FetchAdd 1 Outside, new_mutex) ?w5"
  let ?w7 = "go 2 (Notify_Wake 1 Outside, new_mutex) (?w6\<lparr>w_value := (w_value ?w6)(count_var := 1)\<rparr>)"
  note defs = go_def cv_object_def cv_world_def new_world_def new_mutex_def mutex_acquired_def owner_Lock_def in_mutex_def owner_Unlock_def
    Own_def verify_def cv_enter_def
  note nums = Locked_def Unlocked_def locked_var_def count_var_def
  have s1: "lib_step cv_object cv_world ?w1" by (rule lib_begin [where op = "Mutex_op Do_lock"]) (simp_all add: defs kMaxThreads_def)
  have s2: "lib_step cv_object ?w1 ?w2"
    by (rule lib_sync [where op = "Op_Exchange Locked acquire" and a = "Ans_Value 0" and spurious = False]) (simp_all add: defs nums)
  have s3: "lib_step cv_object ?w2 ?w3" by (rule lib_begin [where op = Cv_wait]) (simp_all add: defs kMaxThreads_def)
  have s4: "lib_step cv_object ?w3 ?w4"
    by (rule lib_sync [where op = "Op_Load relaxed" and a = "Ans_Value 0" and spurious = False]) (simp_all add: defs nums)
  have s5: "lib_step cv_object ?w4 ?w5"
    by (rule lib_sync [where op = "Op_Store Unlocked release" and a = No_Answer and spurious = False]) (simp_all add: defs nums)
  have s6: "lib_step cv_object ?w5 ?w6" by (rule lib_begin [where op = Cv_notify_one]) (simp_all add: defs kMaxThreads_def)
  have s7: "lib_step cv_object ?w6 ?w7"
    by (rule lib_sync [where op = "Op_FetchAdd 1 relaxed" and a = "Ans_Value 0" and spurious = False]) (simp_all add: defs nums)
  have e: "?w7 = notified" by (simp add: defs nums notified_def fun_upd_twist fun_upd_idem)
  have r3: "lib_run cv_object cv_world ?w3" using run_step [OF run_step [OF run_step [OF run_start s1] s2] s3] .
  have "since 1 ?w4 0" by (rule since_load [OF r3 _ s4, where timed = False]) (simp_all add: defs)
  from since_step [OF this s5] have "since 1 ?w5 0" by (simp add: defs nums)
  from since_step [OF this s6] have "since 1 ?w6 0" by (simp add: defs nums)
  from since_step [OF this s7] have "since 1 ?w7 1" by (simp add: defs nums)
  moreover have "lib_run cv_object cv_world ?w7" using run_step [OF run_step [OF run_step [OF run_step [OF r3 s4] s5] s6] s7] .
  ultimately show ?thesis unfolding e by simp
qed



end
