(* ===== verification/Thread_Lib.thy ===== *)
theory Thread_Lib
  imports Lib_Machine
begin

text \<open>
  \<open>std::thread\<close> of the user library (\<open>rt/sim/user/library/std_like/thread.hpp\<close>, \<open>thread.cpp\<close>): the state that a
  thread shares with the owner of its handle, and its destruction by whichever of the two is last. Its
  proof: the state is destroyed exactly once and not used afterwards, and \<open>join\<close> waits for the thread.
\<close>

section \<open>The code\<close>

text \<open>The member \<open>sync\<close> of the state.\<close>

definition sync_of_thread :: addr where "sync_of_thread = 0"

text \<open>
  The handle has a state or not; the state has the identifier of the thread, and is destroyed by
  \<open>DestroySelf\<close>, which is counted here. Nothing else runs while it destroys (\<open>Destroy\<close> holds a preemption guard).
\<close>

record thread_object =
  th_state :: bool
  th_id :: "tid option"
  th_destroyed :: nat

definition no_thread :: thread_object where
  "no_thread = \<lparr>th_state = False, th_id = None, th_destroyed = 0\<rparr>"

definition HasState :: "thread_object \<Rightarrow> bool" where
  "HasState ob = th_state ob"

definition ReleaseState :: "thread_object \<Rightarrow> thread_object" where
  "ReleaseState ob = ob\<lparr>th_state := False\<rparr>"

definition DestroySelf :: "thread_object \<Rightarrow> thread_object" where
  "DestroySelf ob = ob\<lparr>th_destroyed := th_destroyed ob + 1\<rparr>"

datatype thread_pc =
  Elsewhere | Join_Load | Join_Wait | Joined | Detach_FetchSub | Detached
| Running | Exit_FetchSub | Exit_Wake | Exited

text \<open>
  The constructor spawns the thread with the identifier that the simulator gives it; the thread starts,
  runs user code and exits (\<open>AtThreadExit\<close>). The owner of the handle joins, detaches or destroys it.
\<close>

datatype thread_op = Th_construct tid | Th_start | Th_exit | Th_join | Th_detach | Th_destruct

fun thread_call :: "tid \<Rightarrow> thread_pc \<Rightarrow> lib_call option" where
  "thread_call t Join_Load = Some (Call_Sync sync_of_thread (Op_Load acquire))"
| "thread_call t Join_Wait = Some (Call_Wait sync_of_thread 2 FtThread False)"
| "thread_call t Detach_FetchSub = Some (Call_Sync sync_of_thread (Op_FetchSub 1 acq_rel))"
| "thread_call t Exit_FetchSub = Some (Call_Sync sync_of_thread (Op_FetchSub 1 acq_rel))"
| "thread_call t Exit_Wake = Some (Call_Wake sync_of_thread 1)"
| "thread_call t Elsewhere = None"
| "thread_call t Joined = None"
| "thread_call t Detached = None"
| "thread_call t Running = None"
| "thread_call t Exited = None"

fun thread_resume :: "tid \<Rightarrow> answer \<Rightarrow> thread_pc \<Rightarrow> thread_object \<Rightarrow> fault + thread_pc \<times> thread_object" where
  "thread_resume t a Join_Load ob = on_value a (\<lambda>v. Inr (if v = 2 then (Join_Wait, ob) else (Joined, DestroySelf ob)))"
| "thread_resume t a Join_Wait ob = on_return a (Inr (Join_Load, ob))"
| "thread_resume t a Detach_FetchSub ob = on_value a (\<lambda>v. Inr (Detached, if v = 1 then DestroySelf ob else ob))"
| "thread_resume t a Exit_FetchSub ob = on_value a (\<lambda>v. Inr (if v = 1 then (Exited, DestroySelf ob) else (Exit_Wake, ob)))"
| "thread_resume t a Exit_Wake ob = on_return a (Inr (Exited, ob))"
| "thread_resume t a Elsewhere ob = Inl (Panic ''unreachable'')"
| "thread_resume t a Joined ob = Inl (Panic ''unreachable'')"
| "thread_resume t a Detached ob = Inl (Panic ''unreachable'')"
| "thread_resume t a Running ob = Inl (Panic ''unreachable'')"
| "thread_resume t a Exited ob = Inl (Panic ''unreachable'')"

text \<open>
  Any thread but the one behind the handle may hold the handle: it may be moved. A handle is constructed
  once here; the constructor, \<open>join\<close> and \<open>detach\<close> run up to their first call without a switch.
\<close>

fun thread_begin :: "tid \<Rightarrow> thread_op \<Rightarrow> thread_pc \<Rightarrow> thread_object \<Rightarrow> fault + thread_pc \<times> thread_object" where
  "thread_begin t (Th_construct c) pc ob =
     (if th_id ob = None \<and> c \<noteq> t then Inr (pc, ob\<lparr>th_state := True, th_id := Some c\<rparr>) else Inl (Panic ''no such call''))"
| "thread_begin t Th_start pc ob = (if th_id ob = Some t \<and> pc = Elsewhere then Inr (Running, ob) else Inl (Panic ''no such call''))"
| "thread_begin t Th_exit pc ob = (if pc = Running then Inr (Exit_FetchSub, ob) else Inl (Panic ''no such call''))"
| "thread_begin t Th_join pc ob =
     bindE (verify (HasState ob) (SysAbortEx LibraryAssert)) (\<lambda>_.
     if th_id ob = Some t then Inl (Panic ''undefined behaviour'') else Inr (Join_Load, ReleaseState ob))"
| "thread_begin t Th_detach pc ob =
     bindE (verify (HasState ob) (SysAbortEx LibraryAssert)) (\<lambda>_.
     if th_id ob = Some t then Inl (Panic ''undefined behaviour'') else Inr (Detach_FetchSub, ReleaseState ob))"
| "thread_begin t Th_destruct pc ob = bindE (verify (\<not> HasState ob) (SysAbortEx LibraryAssert)) (\<lambda>_. Inr (pc, ob))"

definition thread_lib :: "(thread_pc, thread_object, thread_op) object" where
  "thread_lib = \<lparr>ob_call = thread_call, ob_resume = thread_resume, ob_begin = thread_begin\<rparr>"

definition thread_world :: "(thread_pc, thread_object) world" where
  "thread_world = new_world (\<lambda>_. 2) no_thread Elsewhere"

section \<open>The invariant\<close>

text \<open>The places of the one that has taken the state from the handle, and those of the thread itself.\<close>

definition owner_side :: "thread_pc \<Rightarrow> bool" where
  "owner_side pc \<longleftrightarrow> pc \<in> {Join_Load, Join_Wait, Joined, Detach_FetchSub, Detached}"

definition thread_side :: "thread_pc \<Rightarrow> bool" where
  "thread_side pc \<longleftrightarrow> pc \<in> {Running, Exit_FetchSub, Exit_Wake, Exited}"

definition over :: "thread_pc \<Rightarrow> bool" where
  "over pc \<longleftrightarrow> pc = Exit_Wake \<or> pc = Exited"

definition thread_inv_of :: "tid \<Rightarrow> (thread_pc, thread_object) world \<Rightarrow> bool" where
  "thread_inv_of c w \<longleftrightarrow>
     (\<forall>t. thread_side (w_pc w t) \<longrightarrow> t = c) \<and> \<not> owner_side (w_pc w c) \<and>
     (\<forall>t u. owner_side (w_pc w t) \<longrightarrow> owner_side (w_pc w u) \<longrightarrow> t = u) \<and>
     (th_state (w_fields w) \<longleftrightarrow> (\<forall>t. \<not> owner_side (w_pc w t))) \<and>
     w_value w sync_of_thread = (if \<exists>t. w_pc w t = Detached then 1 else 2) - (if over (w_pc w c) then 1 else 0) \<and>
     th_destroyed (w_fields w) = (if (\<exists>t. w_pc w t = Joined) \<or> (\<exists>t. w_pc w t = Detached) \<and> over (w_pc w c) then 1 else 0) \<and>
     ((\<exists>t. w_pc w t = Joined) \<longrightarrow> over (w_pc w c)) \<and>
     (\<forall>t. w_mode w t \<noteq> Going \<longrightarrow> w_pc w t = Join_Wait \<and> (w_mode w t = Back \<or> w_mode w t = Waiting sync_of_thread)) \<and>
     ((\<exists>t. w_mode w t = Waiting sync_of_thread) \<longrightarrow> w_pc w c \<noteq> Exited)"

definition thread_inv :: "(thread_pc, thread_object) world \<Rightarrow> bool" where
  "thread_inv w \<longleftrightarrow> (case th_id (w_fields w) of
     None \<Rightarrow> w_pc w = (\<lambda>_. Elsewhere) \<and> w_mode w = (\<lambda>_. Going) \<and> w_value w sync_of_thread = 2 \<and> w_fields w = no_thread
   | Some c \<Rightarrow> thread_inv_of c w)"

lemma thread_invD:
  assumes "thread_inv_of c w"
  shows "thread_side (w_pc w t) \<Longrightarrow> t = c" and "\<not> owner_side (w_pc w c)"
    and "owner_side (w_pc w t) \<Longrightarrow> owner_side (w_pc w u) \<Longrightarrow> t = u"
    and "th_state (w_fields w) \<longleftrightarrow> (\<forall>t. \<not> owner_side (w_pc w t))"
    and "w_value w sync_of_thread = (if \<exists>t. w_pc w t = Detached then 1 else 2) - (if over (w_pc w c) then 1 else 0)"
    and "th_destroyed (w_fields w) = (if (\<exists>t. w_pc w t = Joined) \<or> (\<exists>t. w_pc w t = Detached) \<and> over (w_pc w c) then 1 else 0)"
    and "(\<exists>t. w_pc w t = Joined) \<Longrightarrow> over (w_pc w c)"
    and "w_mode w t \<noteq> Going \<Longrightarrow> w_pc w t = Join_Wait \<and> (w_mode w t = Back \<or> w_mode w t = Waiting sync_of_thread)"
    and "w_mode w t = Waiting sync_of_thread \<Longrightarrow> w_pc w c \<noteq> Exited"
  using assms unfolding thread_inv_of_def by blast+

lemma thread_invI:
  assumes "\<And>t. thread_side (w_pc w t) \<Longrightarrow> t = c" and "\<not> owner_side (w_pc w c)"
    and "\<And>t u. owner_side (w_pc w t) \<Longrightarrow> owner_side (w_pc w u) \<Longrightarrow> t = u"
    and "th_state (w_fields w) \<longleftrightarrow> (\<forall>t. \<not> owner_side (w_pc w t))"
    and "w_value w sync_of_thread = (if \<exists>t. w_pc w t = Detached then 1 else 2) - (if over (w_pc w c) then 1 else 0)"
    and "th_destroyed (w_fields w) = (if (\<exists>t. w_pc w t = Joined) \<or> (\<exists>t. w_pc w t = Detached) \<and> over (w_pc w c) then 1 else 0)"
    and "\<exists>t. w_pc w t = Joined \<Longrightarrow> over (w_pc w c)"
    and "\<And>t. w_mode w t \<noteq> Going \<Longrightarrow> w_pc w t = Join_Wait \<and> (w_mode w t = Back \<or> w_mode w t = Waiting sync_of_thread)"
    and "\<exists>t. w_mode w t = Waiting sync_of_thread \<Longrightarrow> w_pc w c \<noteq> Exited"
  shows "thread_inv_of c w"
  using assms unfolding thread_inv_of_def by blast

lemmas side_defs = owner_side_def thread_side_def over_def

section \<open>Steps keep the invariant\<close>

lemma go_fields [simp]:
  "w_value (go t pf w) = w_value w" "w_fields (go t pf w) = snd pf" "w_pc (go t pf w) = (w_pc w)(t := fst pf)"
  "w_mode (go t pf w) = (w_mode w)(t := Going)"
  by (simp_all add: go_def)

lemma ex_upd: "f t \<noteq> x \<Longrightarrow> y \<noteq> x \<Longrightarrow> (\<exists>u. (f(t := y)) u = x) \<longleftrightarrow> (\<exists>u. f u = x)"
  by (metis fun_upd_apply)

text \<open>A step of the thread itself.\<close>

lemma thread_inv_self:
  assumes I: "thread_inv_of c w" and g: "w_mode w c = Going" and pc': "thread_side pc'" and mono: "over (w_pc w c) \<Longrightarrow> over pc'"
    and v: "v = w_value w sync_of_thread - (if over pc' \<and> \<not> over (w_pc w c) then 1 else 0)"
    and d: "ob = (if over pc' \<and> \<not> over (w_pc w c) \<and> (\<exists>t. w_pc w t = Detached) then DestroySelf (w_fields w) else w_fields w)"
    and e: "pc' = Exited \<Longrightarrow> \<forall>t. w_mode w t \<noteq> Waiting sync_of_thread"
  shows "thread_inv_of c (go c (pc', ob) (w\<lparr>w_value := (w_value w)(sync_of_thread := v)\<rparr>))"
proof -
  note D = thread_invD [OF I]
  let ?w = "go c (pc', ob) (w\<lparr>w_value := (w_value w)(sync_of_thread := v)\<rparr>)"
  have no: "\<not> owner_side pc'" using pc' by (auto simp: side_defs)
  have own: "owner_side (w_pc ?w t) \<longleftrightarrow> owner_side (w_pc w t)" for t using D(2) no by simp
  have cj: "w_pc w c \<noteq> Joined" "w_pc w c \<noteq> Detached" "pc' \<noteq> Joined" "pc' \<noteq> Detached" using D(2) no by (auto simp: side_defs)
  have ex: "(\<exists>t. w_pc ?w t = Joined) \<longleftrightarrow> (\<exists>t. w_pc w t = Joined)" "(\<exists>t. w_pc ?w t = Detached) \<longleftrightarrow> (\<exists>t. w_pc w t = Detached)"
    using ex_upd [of "w_pc w" c] cj by simp_all
  have jd: "\<not> ((\<exists>t. w_pc w t = Joined) \<and> (\<exists>t. w_pc w t = Detached))"
  proof clarify
    fix t u
    assume p: "w_pc w t = Joined" "w_pc w u = Detached"
    then have "t = u" by (intro D(3)) (simp_all add: side_defs)
    then show False using p by simp
  qed
  define J where "J \<longleftrightarrow> (\<exists>t. w_pc w t = Joined)"
  define N where "N \<longleftrightarrow> (\<exists>t. w_pc w t = Detached)"
  note ex = ex [folded J_def N_def]
  have pcc: "w_pc ?w c = pc'" by simp
  show ?thesis
  proof (rule thread_invI)
    show "th_destroyed (w_fields ?w) = (if (\<exists>t. w_pc ?w t = Joined) \<or> (\<exists>t. w_pc ?w t = Detached) \<and> over (w_pc ?w c) then 1 else 0)"
      unfolding ex pcc using D(6,7) d mono jd unfolding J_def [symmetric] N_def [symmetric] DestroySelf_def
      by (cases "over pc'"; cases "over (w_pc w c)"; cases J; cases N) simp_all
    show "w_value ?w sync_of_thread = (if \<exists>t. w_pc ?w t = Detached then 1 else 2) - (if over (w_pc ?w c) then 1 else 0)"
      unfolding ex pcc using D(5) v mono unfolding N_def [symmetric] by (cases "over pc'"; cases "over (w_pc w c)"; cases N) simp_all
    show "\<exists>t. w_pc ?w t = Joined \<Longrightarrow> over (w_pc ?w c)" unfolding ex pcc using D(7) mono unfolding J_def [symmetric] by blast
    have "th_state (w_fields ?w) = th_state (w_fields w)" using d by (simp add: DestroySelf_def)
    then show "th_state (w_fields ?w) \<longleftrightarrow> (\<forall>t. \<not> owner_side (w_pc ?w t))" unfolding own D(4) .
    show "w_mode ?w t \<noteq> Going \<Longrightarrow> w_pc ?w t = Join_Wait \<and> (w_mode ?w t = Back \<or> w_mode ?w t = Waiting sync_of_thread)" for t
      using D(8) [of t] by (auto split: if_splits)
    show "\<exists>t. w_mode ?w t = Waiting sync_of_thread \<Longrightarrow> w_pc ?w c \<noteq> Exited" using e by (auto split: if_splits)
    show "thread_side (w_pc ?w t) \<Longrightarrow> t = c" for t using D(1) [of t] by (cases "t = c") auto
    show "\<not> owner_side (w_pc ?w c)" unfolding pcc by (rule no)
    show "owner_side (w_pc ?w t) \<Longrightarrow> owner_side (w_pc ?w u) \<Longrightarrow> t = u" for t u unfolding own by (rule D(3))
  qed
qed

text \<open>A step of the one that has taken the state from the handle, or takes it now.\<close>

lemma thread_inv_owner:
  assumes I: "thread_inv_of c w" and t: "t \<noteq> c" "\<And>u. owner_side (w_pc w u) \<Longrightarrow> u = t" and m: "w_mode w t \<noteq> Waiting sync_of_thread"
    and pc': "owner_side pc'" and pc: "w_pc w t \<noteq> Joined" "w_pc w t \<noteq> Detached"
    and v: "v = w_value w sync_of_thread - (if pc' = Detached then 1 else 0)"
    and j: "pc' = Joined \<Longrightarrow> over (w_pc w c)" and st: "\<not> th_state ob"
    and d: "th_destroyed ob = th_destroyed (w_fields w) + (if pc' = Joined \<or> pc' = Detached \<and> over (w_pc w c) then 1 else 0)"
  shows "thread_inv_of c (go t (pc', ob) (w\<lparr>w_value := (w_value w)(sync_of_thread := v)\<rparr>))"
proof -
  note D = thread_invD [OF I]
  let ?w = "go t (pc', ob) (w\<lparr>w_value := (w_value w)(sync_of_thread := v)\<rparr>)"
  have own: "owner_side (w_pc ?w u) \<longleftrightarrow> u = t" for u using t(2) pc' by auto
  have n: "\<not> (\<exists>u. w_pc w u = Joined)" "\<not> (\<exists>u. w_pc w u = Detached)" using t(2) pc by (force simp: side_defs)+
  have ex: "(\<exists>u. w_pc ?w u = Joined) \<longleftrightarrow> pc' = Joined" "(\<exists>u. w_pc ?w u = Detached) \<longleftrightarrow> pc' = Detached" using n by auto
  have pcc: "w_pc ?w c = w_pc w c" using t(1) by simp
  show ?thesis
  proof (rule thread_invI)
    have "\<not> thread_side pc'" using pc' by (auto simp: side_defs)
    then show "thread_side (w_pc ?w u) \<Longrightarrow> u = c" for u using D(1) [of u] by (auto split: if_splits)
    show "w_mode ?w u \<noteq> Going \<Longrightarrow> w_pc ?w u = Join_Wait \<and> (w_mode ?w u = Back \<or> w_mode ?w u = Waiting sync_of_thread)" for u
      using D(8) [of u] by (auto split: if_splits)
    show "\<exists>u. w_mode ?w u = Waiting sync_of_thread \<Longrightarrow> w_pc ?w c \<noteq> Exited"
    proof -
      assume "\<exists>u. w_mode ?w u = Waiting sync_of_thread"
      then obtain u where "u \<noteq> t" "w_mode w u = Waiting sync_of_thread" by (auto split: if_splits)
      then show ?thesis using D(8) [of u] t(2) [of u] by (simp add: side_defs)
    qed
    show "w_value ?w sync_of_thread = (if \<exists>u. w_pc ?w u = Detached then 1 else 2) - (if over (w_pc ?w c) then 1 else 0)"
      unfolding ex pcc using D(5) n v by (cases "over (w_pc w c)"; cases "pc' = Detached") simp_all
    show "th_destroyed (w_fields ?w) = (if (\<exists>u. w_pc ?w u = Joined) \<or> (\<exists>u. w_pc ?w u = Detached) \<and> over (w_pc ?w c) then 1 else 0)"
      unfolding ex pcc using D(6) n d by simp
    show "\<exists>u. w_pc ?w u = Joined \<Longrightarrow> over (w_pc ?w c)" unfolding ex pcc by (rule j)
    show "th_state (w_fields ?w) \<longleftrightarrow> (\<forall>u. \<not> owner_side (w_pc ?w u))" unfolding own using st by simp
    show "\<not> owner_side (w_pc ?w c)" unfolding own using t(1) by simp
    show "owner_side (w_pc ?w x) \<Longrightarrow> owner_side (w_pc ?w y) \<Longrightarrow> x = y" for x y unfolding own by simp
  qed
qed

lemma same_value [simp]: "w\<lparr>w_value := (w_value w)(l := w_value w l)\<rparr> = w"
  by simp

text \<open>The cases of the invariant.\<close>

lemma thread_inv_cases:
  assumes "thread_inv w"
  obtains (fresh) "th_id (w_fields w) = None" "w_pc w = (\<lambda>_. Elsewhere)" "w_mode w = (\<lambda>_. Going)" "w_value w sync_of_thread = 2"
      "w_fields w = no_thread"
  | (there) c where "th_id (w_fields w) = Some c" "thread_inv_of c w"
  using assms unfolding thread_inv_def by (cases "th_id (w_fields w)") auto

lemma thread_inv_there: "th_id (w_fields w) = Some c \<Longrightarrow> thread_inv w \<longleftrightarrow> thread_inv_of c w"
  by (simp add: thread_inv_def)

lemma thread_inv_begin:
  assumes I: "thread_inv w" and g: "w_mode w t = Going" and c: "thread_call t (w_pc w t) = None"
    and b: "thread_begin t op (w_pc w t) (w_fields w) = Inr pf"
  shows "thread_inv (go t pf w)"
  using I
proof (cases rule: thread_inv_cases)
  case fresh
  have pc: "w_pc w u = Elsewhere" and md: "w_mode w u = Going" for u using fresh by simp_all
  from b consider (new) d where "pf = (Elsewhere, \<lparr>th_state = True, th_id = Some d, th_destroyed = 0\<rparr>)" | (idle) "pf = (Elsewhere, no_thread)"
    using fresh by (cases op) (auto simp: no_thread_def HasState_def bindE_eq_Inr split: if_splits)
  then show ?thesis
  proof cases
    case (new d)
    have "thread_inv_of d (go t pf w)" by (rule thread_invI) (auto simp: new pc md fresh side_defs)
    then show ?thesis by (simp add: new thread_inv_def)
  next
    case idle
    then show ?thesis using fresh by (auto simp: thread_inv_def no_thread_def)
  qed
next
  case (there d)
  note D = thread_invD [OF there(2)]
  let ?v = "w_value w sync_of_thread"
  from b consider (start) "t = d" "w_pc w t = Elsewhere" "pf = (Running, w_fields w)" | (exit) "w_pc w t = Running" "pf = (Exit_FetchSub, w_fields w)"
    | (own) pc' where "t \<noteq> d" "th_state (w_fields w)" "pf = (pc', ReleaseState (w_fields w))" "pc' = Join_Load \<or> pc' = Detach_FetchSub"
    | (idle) "pf = (w_pc w t, w_fields w)"
    using there(1) by (cases op) (auto simp: HasState_def bindE_eq_Inr split: if_splits)
  then have "thread_inv_of d (go t pf w)"
  proof cases
    case start
    have "thread_inv_of d (go d (Running, w_fields w) (w\<lparr>w_value := (w_value w)(sync_of_thread := ?v)\<rparr>))"
      by (rule thread_inv_self [OF there(2)]) (use start g in \<open>simp_all add: side_defs\<close>)
    then show ?thesis using start by simp
  next
    case exit
    then have "t = d" using D(1) [of t] by (simp add: side_defs)
    have "thread_inv_of d (go d (Exit_FetchSub, w_fields w) (w\<lparr>w_value := (w_value w)(sync_of_thread := ?v)\<rparr>))"
      by (rule thread_inv_self [OF there(2)]) (use exit g \<open>t = d\<close> in \<open>simp_all add: side_defs\<close>)
    then show ?thesis using exit \<open>t = d\<close> by simp
  next
    case (own pc')
    have n: "\<not> owner_side (w_pc w u)" for u using own(2) D(4) by blast
    then have "w_pc w t \<noteq> Joined" "w_pc w t \<noteq> Detached" using n [of t] by (auto simp: owner_side_def)
    then have "thread_inv_of d (go t (pc', ReleaseState (w_fields w)) (w\<lparr>w_value := (w_value w)(sync_of_thread := ?v)\<rparr>))"
      using n own g by (intro thread_inv_owner [OF there(2)]) (auto simp: owner_side_def ReleaseState_def)
    then show ?thesis using own by simp
  next
    case idle
    have "go t (w_pc w t, w_fields w) w = w" using g by (simp add: go_def fun_upd_idem)
    then show ?thesis using idle there(2) by simp
  qed
  moreover have "th_id (w_fields (go t pf w)) = Some d"
    using b there(1) by (cases op) (auto simp: bindE_eq_Inr ReleaseState_def split: if_splits)
  ultimately show ?thesis by (simp add: thread_inv_there)
qed

lemma thread_inv_sync:
  assumes I: "thread_inv w" and g: "w_mode w t = Going" and c: "thread_call t (w_pc w t) = Some (Call_Sync l op)"
    and s: "sync_spec spurious op (w_value w l) = (a, v)" and r: "thread_resume t a (w_pc w t) (w_fields w) = Inr pf"
  shows "thread_inv (go t pf (w\<lparr>w_value := (w_value w)(l := v)\<rparr>))"
  using I
proof (cases rule: thread_inv_cases)
  case fresh
  then show ?thesis using c by simp
next
  case (there d)
  note D = thread_invD [OF there(2)]
  let ?v = "w_value w sync_of_thread"
  let ?D = "\<exists>u. w_pc w u = Detached"
  have l: "l = sync_of_thread" using c by (cases "w_pc w t") auto
  consider (join) "w_pc w t = Join_Load" "v = ?v" "pf = (if ?v = 2 then (Join_Wait, w_fields w) else (Joined, DestroySelf (w_fields w)))"
    | (detach) "w_pc w t = Detach_FetchSub" "v = ?v - 1" "pf = (Detached, if ?v = 1 then DestroySelf (w_fields w) else w_fields w)"
    | (exit) "w_pc w t = Exit_FetchSub" "v = ?v - 1" "pf = (if ?v = 1 then (Exited, DestroySelf (w_fields w)) else (Exit_Wake, w_fields w))"
    using c s r l by (cases "w_pc w t") auto
  then have "thread_inv_of d (go t pf (w\<lparr>w_value := (w_value w)(sync_of_thread := v)\<rparr>)) \<and> th_id (snd pf) = Some d"
  proof cases
    case join
    have os: "owner_side (w_pc w t)" using join by (simp add: side_defs)
    have only: "owner_side (w_pc w u) \<Longrightarrow> u = t" for u using D(3) [OF _ os] .
    have nd: "\<not> ?D"
    proof
      assume ?D
      then obtain u where u: "w_pc w u = Detached" by blast
      then have "u = t" by (intro only) (simp add: side_defs)
      then show False using u join by simp
    qed
    have "\<not> th_state (w_fields w)" using D(4) os by blast
    moreover have "t \<noteq> d" using os D(2) by blast
    moreover have "?v \<noteq> 2 \<Longrightarrow> over (w_pc w d)" using D(5) nd by (auto split: if_splits)
    ultimately have "thread_inv_of d (go t (fst pf, snd pf) (w\<lparr>w_value := (w_value w)(sync_of_thread := v)\<rparr>))"
      by (intro thread_inv_owner [OF there(2)]) (use only join g in \<open>auto simp: owner_side_def DestroySelf_def split: if_splits\<close>)
    then show ?thesis using join there(1) by (auto simp: DestroySelf_def)
  next
    case detach
    have os: "owner_side (w_pc w t)" using detach by (simp add: side_defs)
    have only: "owner_side (w_pc w u) \<Longrightarrow> u = t" for u using D(3) [OF _ os] .
    have nd: "\<not> ?D"
    proof
      assume ?D
      then obtain u where u: "w_pc w u = Detached" by blast
      then have "u = t" by (intro only) (simp add: side_defs)
      then show False using u detach by simp
    qed
    have "\<not> th_state (w_fields w)" using D(4) os by blast
    moreover have "t \<noteq> d" using os D(2) by blast
    moreover have "?v = 1 \<longleftrightarrow> over (w_pc w d)" using D(5) nd by auto
    ultimately have "thread_inv_of d (go t (fst pf, snd pf) (w\<lparr>w_value := (w_value w)(sync_of_thread := v)\<rparr>))"
      by (intro thread_inv_owner [OF there(2)]) (use only detach g in \<open>auto simp: owner_side_def DestroySelf_def\<close>)
    then show ?thesis using detach there(1) by (auto simp: DestroySelf_def)
  next
    case exit
    then have td: "t = d" using D(1) [of t] by (simp add: side_defs)
    have no: "\<not> over (w_pc w d)" using exit td by (simp add: side_defs)
    have one: "?v = 1 \<longleftrightarrow> ?D" using D(5) no by auto
    have nw: "w_mode w u \<noteq> Waiting sync_of_thread" if "?D" for u
    proof
      assume m: "w_mode w u = Waiting sync_of_thread"
      from that obtain x where x: "w_pc w x = Detached" by blast
      have "w_pc w u = Join_Wait" using D(8) [of u] m by simp
      then have "u = x" using x by (intro D(3)) (simp_all add: side_defs)
      then show False using x \<open>w_pc w u = Join_Wait\<close> by simp
    qed
    have "thread_inv_of d (go d pf (w\<lparr>w_value := (w_value w)(sync_of_thread := v)\<rparr>))"
    proof (cases ?D)
      case True
      then have pf: "pf = (Exited, DestroySelf (w_fields w))" using exit one by simp
      show ?thesis unfolding pf
        by (rule thread_inv_self [OF there(2)]) (use True nw no exit g td in \<open>simp_all add: over_def thread_side_def\<close>)
    next
      case False
      then have pf: "pf = (Exit_Wake, w_fields w)" using exit one by simp
      show ?thesis unfolding pf
        by (rule thread_inv_self [OF there(2)]) (use False no exit g td in \<open>simp_all add: over_def thread_side_def\<close>)
    qed
    moreover have "th_id (snd pf) = Some d" using exit there(1) by (simp add: DestroySelf_def)
    ultimately show ?thesis using td by simp
  qed
  then show ?thesis unfolding l by (simp add: thread_inv_there)
qed

text \<open>Changing modes.\<close>

lemma thread_inv_modes:
  assumes I: "thread_inv_of c w"
    and m: "\<And>u. m u \<noteq> Going \<Longrightarrow> w_pc w u = Join_Wait \<and> (m u = Back \<or> m u = Waiting sync_of_thread)"
    and e: "\<exists>u. m u = Waiting sync_of_thread \<Longrightarrow> w_pc w c \<noteq> Exited"
  shows "thread_inv_of c (w\<lparr>w_mode := m\<rparr>)"
  using I m e unfolding thread_inv_of_def by simp

lemma set_mode_eq: "set_mode t x w = w\<lparr>w_mode := (w_mode w)(t := x)\<rparr>"
  by (simp add: set_mode_def)

lemma thread_inv_wake:
  assumes I: "thread_inv w" and g: "w_mode w t = Going" and c: "thread_call t (w_pc w t) = Some (Call_Wake l n)"
    and m: "\<forall>u. w_mode w u = Waiting l \<longrightarrow> m u = Waiting l \<or> m u = Back" "\<forall>u. w_mode w u \<noteq> Waiting l \<longrightarrow> m u = w_mode w u"
      "(\<exists>u. w_mode w u = Waiting l) \<longrightarrow> (\<exists>u. w_mode w u = Waiting l \<and> m u = Back)"
    and r: "thread_resume t No_Answer (w_pc w t) (w_fields w) = Inr pf"
  shows "thread_inv (go t pf (w\<lparr>w_mode := m\<rparr>))"
  using I
proof (cases rule: thread_inv_cases)
  case fresh
  then show ?thesis using c by simp
next
  case (there d)
  note D = thread_invD [OF there(2)]
  have pc: "w_pc w t = Exit_Wake" and l: "l = sync_of_thread" using c by (cases "w_pc w t"; auto)+
  have pf: "pf = (Exited, w_fields w)" using r pc by simp
  have td: "t = d" using D(1) [of t] pc by (simp add: side_defs)
  have none: "m u \<noteq> Waiting sync_of_thread" for u
  proof
    assume u: "m u = Waiting sync_of_thread"
    then have wu: "w_mode w u = Waiting l" using m(2) l by metis
    then obtain x where x: "w_mode w x = Waiting l" "m x = Back" using m(3) by blast
    have "w_pc w u = Join_Wait" "w_pc w x = Join_Wait" using D(8) [of u] D(8) [of x] wu x(1) by simp_all
    then have "u = x" by (intro D(3)) (simp_all add: side_defs)
    then show False using u x(2) by simp
  qed
  have "thread_inv_of d (w\<lparr>w_mode := m\<rparr>)"
  proof (rule thread_inv_modes [OF there(2)])
    show "w_pc w u = Join_Wait \<and> (m u = Back \<or> m u = Waiting sync_of_thread)" if "m u \<noteq> Going" for u
      using that m(1,2) D(8) [of u] l by (cases "w_mode w u = Waiting l") auto
  qed (use none in blast)
  moreover have "m d = Going" using m(2) g td by simp
  ultimately have "thread_inv_of d (go d (Exited, w_fields w)
      (w\<lparr>w_mode := m, w_value := (w_value w)(sync_of_thread := w_value w sync_of_thread)\<rparr>))"
    using thread_inv_self [of d "w\<lparr>w_mode := m\<rparr>" Exited "w_value w sync_of_thread" "w_fields w"] none pc td
    by (simp add: over_def thread_side_def)
  then show ?thesis using pf td there(1) by (simp add: thread_inv_there)
qed

lemma thread_inv_mode:
  assumes I: "thread_inv w" and c: "thread_call t (w_pc w t) = Some (Call_Wait l old k timed)"
    and x: "x = Back \<or> x = Waiting l \<and> w_value w l = old"
  shows "thread_inv (set_mode t x w)"
  using I
proof (cases rule: thread_inv_cases)
  case fresh
  then show ?thesis using c by simp
next
  case (there d)
  note D = thread_invD [OF there(2)]
  have pc: "w_pc w t = Join_Wait" and l: "l = sync_of_thread" "old = 2" using c by (cases "w_pc w t"; auto)+
  have "thread_inv_of d (set_mode t x w)" unfolding set_mode_eq
  proof (rule thread_inv_modes [OF there(2)])
    show "w_pc w u = Join_Wait \<and> (((w_mode w)(t := x)) u = Back \<or> ((w_mode w)(t := x)) u = Waiting sync_of_thread)"
      if "((w_mode w)(t := x)) u \<noteq> Going" for u
      using that D(8) [of u] pc x l by (cases "u = t") auto
    assume "\<exists>u. ((w_mode w)(t := x)) u = Waiting sync_of_thread"
    then consider (new) "w_value w sync_of_thread = 2" | (old) u where "w_mode w u = Waiting sync_of_thread"
      using x l by (auto split: if_splits)
    then show "w_pc w d \<noteq> Exited"
    proof cases
      case new
      then have "\<not> over (w_pc w d)" using D(5) by (auto split: if_splits)
      then show ?thesis by (auto simp: over_def)
    next
      case (old u)
      then show ?thesis by (rule D(9))
    qed
  qed
  then show ?thesis using there(1) by (simp add: thread_inv_there set_mode_eq)
qed

lemma thread_inv_back:
  assumes I: "thread_inv w" and g: "w_mode w t = Back" and r: "thread_resume t No_Answer (w_pc w t) (w_fields w) = Inr pf"
  shows "thread_inv (go t pf w)"
  using I
proof (cases rule: thread_inv_cases)
  case fresh
  then show ?thesis using g by simp
next
  case (there d)
  note D = thread_invD [OF there(2)]
  have pc: "w_pc w t = Join_Wait" using D(8) [of t] g by simp
  then have pf: "pf = (Join_Load, w_fields w)" using r by simp
  have os: "owner_side (w_pc w t)" using pc by (simp add: side_defs)
  have "t \<noteq> d" using os D(2) by blast
  moreover have "\<not> th_state (w_fields w)" using D(4) os by blast
  ultimately have "thread_inv_of d (go t (Join_Load, w_fields w) (w\<lparr>w_value := (w_value w)(sync_of_thread := w_value w sync_of_thread)\<rparr>))"
    by (intro thread_inv_owner [OF there(2)]) (use pc g D(3) [OF _ os] in \<open>auto simp: owner_side_def\<close>)
  then show ?thesis using pf there(1) by (simp add: thread_inv_there)
qed

interpretation thread_class: lib_class thread_lib thread_world thread_inv
proof (unfold_locales, goal_cases)
  case 1
  then show ?case by (simp add: thread_inv_def thread_world_def new_world_def no_thread_def)
next
  case (2 w t op pf)
  then show ?case by (simp add: thread_lib_def thread_inv_begin)
next
  case (3 w t l sop spurious a v pf)
  then show ?case by (simp add: thread_lib_def thread_inv_sync)
next
  case (4 w t b pf)
  then show ?case by (cases "w_pc w t") (simp_all add: thread_lib_def)
next
  case (5 w t l n m pf)
  then show ?case by (simp add: thread_lib_def thread_inv_wake)
next
  case (6 w t l old k timed)
  then show ?case by (intro thread_inv_mode [where old = old and k = k and timed = timed and l = l]) (simp_all add: thread_lib_def)
next
  case (7 w t l old k timed)
  then show ?case by (intro thread_inv_mode [where old = old and k = k and timed = timed and l = l]) (simp_all add: thread_lib_def)
next
  case (8 w t pf)
  then show ?case by (simp add: thread_lib_def thread_inv_back)
qed

section \<open>Theorems\<close>

text \<open>
  C26: the state that a thread shares with the owner of its handle is destroyed at most once; no operation
  reads or writes it after that, whatever the interleaving of \<open>join\<close> or \<open>detach\<close> with the exit of the thread;
  and it is destroyed when the thread has exited and its handle has been joined or detached.
\<close>

theorem thread_state_destroyed_once:
  assumes "lib_run thread_lib thread_world w"
  shows "th_destroyed (w_fields w) \<le> 1 \<and>
    (\<forall>t l op. thread_call t (w_pc w t) = Some (Call_Sync l op) \<longrightarrow> th_destroyed (w_fields w) = 0) \<and>
    (\<forall>t l old k timed. thread_call t (w_pc w t) = Some (Call_Wait l old k timed) \<longrightarrow> th_destroyed (w_fields w) = 0) \<and>
    (\<forall>c u. th_id (w_fields w) = Some c \<and> w_pc w c = Exited \<and> w_pc w u \<in> {Joined, Detached} \<longrightarrow> th_destroyed (w_fields w) = 1)"
  using thread_class.inv_run [OF assms]
proof (cases rule: thread_inv_cases)
  case fresh
  then show ?thesis by (simp add: no_thread_def)
next
  case (there d)
  note D = thread_invD [OF there(2)]
  have alive: "th_destroyed (w_fields w) = 0" if "w_pc w t \<in> {Join_Load, Join_Wait, Detach_FetchSub, Exit_FetchSub}" for t
  proof (cases "w_pc w t = Exit_FetchSub")
    case True
    then have "t = d" using D(1) [of t] by (simp add: side_defs)
    then have "\<not> over (w_pc w d)" using True by (simp add: over_def)
    then show ?thesis using D(6,7) by (auto split: if_splits)
  next
    case False
    then have os: "owner_side (w_pc w t)" using that by (auto simp: side_defs)
    have "w_pc w u \<noteq> Joined \<and> w_pc w u \<noteq> Detached" for u
      using D(3) [OF _ os, of u] that by (auto simp: owner_side_def)
    then show ?thesis using D(6) by simp
  qed
  have "th_destroyed (w_fields w) \<le> 1" using D(6) by simp
  moreover have "th_destroyed (w_fields w) = 0" if "thread_call t (w_pc w t) = Some (Call_Sync l op)" for t l op
    by (rule alive [of t]) (use that in \<open>cases "w_pc w t"; simp\<close>)
  moreover have "th_destroyed (w_fields w) = 0" if "thread_call t (w_pc w t) = Some (Call_Wait l old k timed)" for t l old k timed
    by (rule alive [of t]) (use that in \<open>cases "w_pc w t"; simp\<close>)
  moreover have "th_destroyed (w_fields w) = 1"
    if "th_id (w_fields w) = Some c" "w_pc w c = Exited" "w_pc w u \<in> {Joined, Detached}" for c u
  proof -
    have "over (w_pc w d)" using that there(1) by (simp add: over_def)
    then show ?thesis using D(6) that(3) by auto
  qed
  ultimately show ?thesis by blast
qed

text \<open>
  C27: \<open>join\<close> returns only after the code of the thread is over, and no thread is parked in \<open>join\<close> once the
  thread has exited: the wake of its exit is not lost. A second \<open>join\<close> or \<open>detach\<close>, and the destruction of a
  handle that was neither joined nor detached, end the run with the status of a failed library assertion.
\<close>

theorem join_waits_for_thread:
  assumes "lib_run thread_lib thread_world w"
  shows "(\<forall>u. w_pc w u = Joined \<longrightarrow> (\<exists>c. th_id (w_fields w) = Some c \<and> w_pc w c \<in> {Exit_Wake, Exited})) \<and>
    (\<forall>u. w_mode w u = Waiting sync_of_thread \<longrightarrow> (\<exists>c. th_id (w_fields w) = Some c \<and> w_pc w c \<noteq> Exited)) \<and>
    (\<forall>u. owner_side (w_pc w u) \<longrightarrow> (\<forall>t. thread_begin t Th_join (w_pc w t) (w_fields w) = Inl (SysAbortEx LibraryAssert) \<and>
      thread_begin t Th_detach (w_pc w t) (w_fields w) = Inl (SysAbortEx LibraryAssert))) \<and>
    (\<forall>t. th_state (w_fields w) \<longrightarrow> thread_begin t Th_destruct (w_pc w t) (w_fields w) = Inl (SysAbortEx LibraryAssert))"
  using thread_class.inv_run [OF assms]
proof (cases rule: thread_inv_cases)
  case fresh
  then show ?thesis by (simp add: no_thread_def owner_side_def)
next
  case (there d)
  note D = thread_invD [OF there(2)]
  have "over (w_pc w d)" if "w_pc w u = Joined" for u using D(7) that by blast
  moreover have "w_pc w d \<noteq> Exited" if "w_mode w u = Waiting sync_of_thread" for u by (rule D(9) [OF that])
  moreover have "\<not> th_state (w_fields w)" if "owner_side (w_pc w u)" for u using D(4) that by blast
  ultimately show ?thesis using there(1) by (auto simp: HasState_def over_def)
qed

text \<open>Thread 1 has started thread 2 and waits for it, and then has joined it.\<close>

definition join_parked :: "(thread_pc, thread_object) world" where
  "join_parked = \<lparr>w_value = \<lambda>_. 2, w_fields = \<lparr>th_state = False, th_id = Some 2, th_destroyed = 0\<rparr>,
     w_pc = (\<lambda>_. Elsewhere)(1 := Join_Wait, 2 := Running), w_mode = (\<lambda>_. Going)(1 := Waiting 0)\<rparr>"

definition join_over :: "(thread_pc, thread_object) world" where
  "join_over = \<lparr>w_value = (\<lambda>_. 2)(0 := 1), w_fields = \<lparr>th_state = False, th_id = Some 2, th_destroyed = 1\<rparr>,
     w_pc = (\<lambda>_. Elsewhere)(1 := Joined, 2 := Exited), w_mode = \<lambda>_. Going\<rparr>"

lemmas thread_run_defs = go_def set_mode_def thread_lib_def thread_world_def new_world_def no_thread_def sync_of_thread_def HasState_def
  ReleaseState_def DestroySelf_def

lemma join_parked_run: "lib_run thread_lib thread_world join_parked"
proof -
  let ?o = "\<lparr>th_state = True, th_id = Some 2, th_destroyed = 0\<rparr>" and ?r = "\<lparr>th_state = False, th_id = Some 2, th_destroyed = 0\<rparr>"
  let ?w1 = "go 1 (Elsewhere, ?o) thread_world"
  let ?w2 = "go 2 (Running, ?o) ?w1"
  let ?w3 = "go 1 (Join_Load, ?r) ?w2"
  let ?w4 = "go 1 (Join_Wait, ?r) (?w3\<lparr>w_value := (w_value ?w3)(sync_of_thread := 2)\<rparr>)"
  have s1: "lib_step thread_lib thread_world ?w1"
    by (rule lib_begin [where op = "Th_construct 2"]) (simp_all add: thread_run_defs kMaxThreads_def)
  have s2: "lib_step thread_lib ?w1 ?w2" by (rule lib_begin [where op = Th_start]) (simp_all add: thread_run_defs kMaxThreads_def)
  have s3: "lib_step thread_lib ?w2 ?w3" by (rule lib_begin [where op = Th_join]) (simp_all add: thread_run_defs kMaxThreads_def verify_def)
  have s4: "lib_step thread_lib ?w3 ?w4"
    by (rule lib_sync [where op = "Op_Load acquire" and a = "Ans_Value 2" and spurious = False]) (simp_all add: thread_run_defs)
  have s5: "lib_step thread_lib ?w4 (set_mode 1 (Waiting sync_of_thread) ?w4)"
    by (rule lib_park [where old = 2 and k = FtThread and timed = False]) (simp_all add: thread_run_defs)
  have "set_mode 1 (Waiting sync_of_thread) ?w4 = join_parked"
    by (simp add: thread_run_defs join_parked_def fun_upd_twist fun_upd_idem)
  then show ?thesis using run_step [OF run_step [OF run_step [OF run_step [OF run_step [OF run_start s1] s2] s3] s4] s5] by simp
qed

lemma join_over_run: "lib_run thread_lib thread_world join_over"
proof -
  let ?r = "\<lparr>th_state = False, th_id = Some 2, th_destroyed = 0\<rparr>"
  let ?w1 = "go 2 (Exit_FetchSub, ?r) join_parked"
  let ?w2 = "go 2 (Exit_Wake, ?r) (?w1\<lparr>w_value := (w_value ?w1)(sync_of_thread := 1)\<rparr>)"
  let ?w3 = "go 2 (Exited, ?r) (set_mode 1 Back ?w2)"
  let ?w4 = "go 1 (Join_Load, ?r) ?w3"
  let ?w5 = "go 1 (Joined, DestroySelf ?r) (?w4\<lparr>w_value := (w_value ?w4)(sync_of_thread := 1)\<rparr>)"
  note defs = thread_run_defs join_parked_def
  have s1: "lib_step thread_lib join_parked ?w1" by (rule lib_begin [where op = Th_exit]) (simp_all add: defs kMaxThreads_def)
  have s2: "lib_step thread_lib ?w1 ?w2"
    by (rule lib_sync [where op = "Op_FetchSub 1 acq_rel" and a = "Ans_Value 2" and spurious = False]) (simp_all add: defs)
  have s3: "lib_step thread_lib ?w2 ?w3" by (rule lib_wake_one [where l = sync_of_thread]) (simp_all add: defs)
  have s4: "lib_step thread_lib ?w3 ?w4" by (rule lib_back) (simp_all add: defs)
  have s5: "lib_step thread_lib ?w4 ?w5"
    by (rule lib_sync [where op = "Op_Load acquire" and a = "Ans_Value 1" and spurious = False]) (simp_all add: defs)
  have "?w5 = join_over" by (simp add: defs join_over_def fun_upd_twist fun_upd_idem)
  then show ?thesis
    using run_step [OF run_step [OF run_step [OF run_step [OF run_step [OF join_parked_run s1] s2] s3] s4] s5] by simp
qed

theorem thread_state_destroyed_once_witness:
  "th_destroyed (w_fields join_parked) = 0 \<and> th_destroyed (w_fields join_over) = 1"
proof -
  have "thread_call 1 (w_pc join_parked 1) = Some (Call_Wait sync_of_thread 2 FtThread False)" by (simp add: join_parked_def)
  moreover have "th_id (w_fields join_over) = Some 2" "w_pc join_over 2 = Exited" "w_pc join_over 1 \<in> {Joined, Detached}"
    by (simp_all add: join_over_def)
  ultimately show ?thesis
    using thread_state_destroyed_once [OF join_parked_run] thread_state_destroyed_once [OF join_over_run] by blast
qed

theorem join_waits_for_thread_witness:
  "\<exists>c. th_id (w_fields join_parked) = Some c \<and> w_pc join_parked c \<noteq> Exited"
proof -
  have "w_mode join_parked 1 = Waiting sync_of_thread" by (simp add: join_parked_def sync_of_thread_def)
  then show ?thesis using join_waits_for_thread [OF join_parked_run] by blast
qed

end
