(* ===== verification/Unique_Lock.thy ===== *)
theory Unique_Lock
  imports Mutex_Lib
begin

text \<open>
  \<open>std::unique_lock\<close> and \<open>std::lock_guard\<close> of the user library (\<open>rt/sim/user/library/std_like/unique_lock.hpp\<close>,
  \<open>lock_guard.hpp\<close>), over any mutex of the library (the template's argument, the locale \<open>lockable\<close>), and on
  \<open>std::mutex\<close>, whose code \<open>Mutex_Lib\<close> has. The places in the source that a lock remembers only name its
  operations in the log and are left out. The variants for mutexes that are not of the library delegate to
  the standard library and are not modelled.
\<close>

section \<open>Mutexes\<close>

text \<open>
  The operations of a mutex as a lock calls them, whole: what they do when the thread runs them to their
  end. \<open>None\<close>: the thread has to wait, so that the call returns from a later state, if at all.
\<close>

type_synonym 'a outcome = "(fault + 'a) option"

record 's lockable_ops =
  lk_lock :: "tid \<Rightarrow> addr \<Rightarrow> 's \<Rightarrow> 's outcome"
  lk_try_lock :: "bool \<Rightarrow> tid \<Rightarrow> addr \<Rightarrow> 's \<Rightarrow> (bool \<times> 's) outcome"
  lk_unlock :: "tid \<Rightarrow> addr \<Rightarrow> 's \<Rightarrow> 's outcome"

definition bindO :: "'a outcome \<Rightarrow> ('a \<Rightarrow> 'b outcome) \<Rightarrow> 'b outcome" where
  "bindO x f = (case x of None \<Rightarrow> None | Some (Inl e) \<Rightarrow> Some (Inl e) | Some (Inr a) \<Rightarrow> f a)"

lemma bindO_simps [simp]: "bindO None f = None" "bindO (Some (Inl e)) f = Some (Inl e)" "bindO (Some (Inr a)) f = f a"
  by (simp_all add: bindO_def)

lemma bindO_eq_Inr: "bindO x f = Some (Inr b) \<longleftrightarrow> (\<exists>a. x = Some (Inr a) \<and> f a = Some (Inr b))"
  by (auto simp: bindO_def split: option.splits sum.splits)

lemma bindO_eq_Inl: "bindO x f = Some (Inl e) \<longleftrightarrow> x = Some (Inl e) \<or> (\<exists>a. x = Some (Inr a) \<and> f a = Some (Inl e))"
  by (auto simp: bindO_def split: option.splits sum.splits)

section \<open>The code of \<open>unique_lock\<close>\<close>

record unique_lock =
  ul_mutex :: "addr option"
  ul_owns :: bool

text \<open>What a lock is after it has been moved from, and what is left of one that has been destroyed.\<close>

definition no_lock :: unique_lock where
  "no_lock = \<lparr>ul_mutex = None, ul_owns = False\<rparr>"

text \<open>A call through \<open>mutex_\<close>. The null pointer is undefined behaviour.\<close>

definition through :: "unique_lock \<Rightarrow> (addr \<Rightarrow> 'a outcome) \<Rightarrow> 'a outcome" where
  "through u f = (case ul_mutex u of None \<Rightarrow> Some (Inl (Panic ''undefined behaviour'')) | Some m \<Rightarrow> f m)"

lemma through_Some [simp]: "ul_mutex u = Some m \<Longrightarrow> through u f = f m"
  by (simp add: through_def)

text \<open>The constructors.\<close>

definition ctor_lock :: "'s lockable_ops \<Rightarrow> tid \<Rightarrow> addr \<Rightarrow> 's \<Rightarrow> (unique_lock \<times> 's) outcome" where
  "ctor_lock L t m s = bindO (lk_lock L t m s) (\<lambda>s1. Some (Inr (\<lparr>ul_mutex = Some m, ul_owns = True\<rparr>, s1)))"

definition ctor_defer_lock :: "addr \<Rightarrow> unique_lock" where
  "ctor_defer_lock m = \<lparr>ul_mutex = Some m, ul_owns = False\<rparr>"

definition ctor_adopt_lock :: "addr \<Rightarrow> unique_lock" where
  "ctor_adopt_lock m = \<lparr>ul_mutex = Some m, ul_owns = True\<rparr>"

definition ctor_try_to_lock :: "'s lockable_ops \<Rightarrow> bool \<Rightarrow> tid \<Rightarrow> addr \<Rightarrow> 's \<Rightarrow> (unique_lock \<times> 's) outcome" where
  "ctor_try_to_lock L spurious t m s =
     bindO (lk_try_lock L spurious t m s) (\<lambda>(b, s1). Some (Inr (\<lparr>ul_mutex = Some m, ul_owns = b\<rparr>, s1)))"

text \<open>The destructor, which the assignment also begins with.\<close>

definition unlock_owned :: "'s lockable_ops \<Rightarrow> tid \<Rightarrow> unique_lock \<Rightarrow> 's \<Rightarrow> 's outcome" where
  "unlock_owned L t u s = (if ul_owns u then through u (\<lambda>m. lk_unlock L t m s) else Some (Inr s))"

definition dtor_unique_lock :: "'s lockable_ops \<Rightarrow> tid \<Rightarrow> unique_lock \<Rightarrow> 's \<Rightarrow> 's outcome" where
  "dtor_unique_lock = unlock_owned"

text \<open>
  Moving works on two locks of the program, which are the same in a self-assignment: the locks are a store,
  \<open>i\<close> is \<open>this\<close> and \<open>j\<close> is \<open>that\<close>.
\<close>

definition move_ctor :: "nat \<Rightarrow> nat \<Rightarrow> (nat \<Rightarrow> unique_lock) \<Rightarrow> nat \<Rightarrow> unique_lock" where
  "move_ctor i j \<sigma> = (let \<sigma>1 = \<sigma>(i := \<lparr>ul_mutex = ul_mutex (\<sigma> j), ul_owns = ul_owns (\<sigma> j)\<rparr>)
     in \<sigma>1(j := (\<sigma>1 j)\<lparr>ul_mutex := None, ul_owns := False\<rparr>))"

definition move_assign :: "'s lockable_ops \<Rightarrow> tid \<Rightarrow> nat \<Rightarrow> nat \<Rightarrow> (nat \<Rightarrow> unique_lock) \<Rightarrow> 's \<Rightarrow> ((nat \<Rightarrow> unique_lock) \<times> 's) outcome" where
  "move_assign L t i j \<sigma> s = bindO (unlock_owned L t (\<sigma> i) s) (\<lambda>s1.
     let \<sigma>1 = \<sigma>(i := (\<sigma> i)\<lparr>ul_mutex := ul_mutex (\<sigma> j)\<rparr>);
         \<sigma>2 = \<sigma>1(i := (\<sigma>1 i)\<lparr>ul_owns := ul_owns (\<sigma>1 j)\<rparr>)
     in Some (Inr (\<sigma>2(j := (\<sigma>2 j)\<lparr>ul_mutex := None, ul_owns := False\<rparr>), s1)))"

definition ul_Lock :: "'s lockable_ops \<Rightarrow> tid \<Rightarrow> unique_lock \<Rightarrow> 's \<Rightarrow> (unique_lock \<times> 's) outcome" where
  "ul_Lock L t u s = bindO (through u (\<lambda>m. lk_lock L t m s)) (\<lambda>s1. Some (Inr (u\<lparr>ul_owns := True\<rparr>, s1)))"

definition ul_TryLock :: "'s lockable_ops \<Rightarrow> bool \<Rightarrow> tid \<Rightarrow> unique_lock \<Rightarrow> 's \<Rightarrow> (bool \<times> unique_lock \<times> 's) outcome" where
  "ul_TryLock L spurious t u s =
     bindO (through u (\<lambda>m. lk_try_lock L spurious t m s)) (\<lambda>(b, s1). Some (Inr (b, u\<lparr>ul_owns := b\<rparr>, s1)))"

definition ul_Unlock :: "'s lockable_ops \<Rightarrow> tid \<Rightarrow> unique_lock \<Rightarrow> 's \<Rightarrow> (unique_lock \<times> 's) outcome" where
  "ul_Unlock L t u s = bindO (through u (\<lambda>m. lk_unlock L t m s)) (\<lambda>s1. Some (Inr (u\<lparr>ul_owns := False\<rparr>, s1)))"

definition ul_Release :: "unique_lock \<Rightarrow> addr option \<times> unique_lock" where
  "ul_Release u = (ul_mutex u, u\<lparr>ul_mutex := None, ul_owns := False\<rparr>)"

definition ul_Swap :: "nat \<Rightarrow> nat \<Rightarrow> (nat \<Rightarrow> unique_lock) \<Rightarrow> nat \<Rightarrow> unique_lock" where
  "ul_Swap i j \<sigma> = (let \<sigma>1 = \<sigma>(i := (\<sigma> i)\<lparr>ul_mutex := ul_mutex (\<sigma> j)\<rparr>, j := (\<sigma> j)\<lparr>ul_mutex := ul_mutex (\<sigma> i)\<rparr>)
     in \<sigma>1(i := (\<sigma>1 i)\<lparr>ul_owns := ul_owns (\<sigma>1 j)\<rparr>, j := (\<sigma>1 j)\<lparr>ul_owns := ul_owns (\<sigma>1 i)\<rparr>))"

text \<open>\<open>lock_guard\<close> keeps the mutex alone.\<close>

definition ctor_lock_guard :: "'s lockable_ops \<Rightarrow> tid \<Rightarrow> addr \<Rightarrow> 's \<Rightarrow> (addr \<times> 's) outcome" where
  "ctor_lock_guard L t m s = bindO (lk_lock L t m s) (\<lambda>s1. Some (Inr (m, s1)))"

definition dtor_lock_guard :: "'s lockable_ops \<Rightarrow> tid \<Rightarrow> addr \<Rightarrow> 's \<Rightarrow> 's outcome" where
  "dtor_lock_guard L t m s = lk_unlock L t m s"

section \<open>Programs with locks\<close>

text \<open>
  The locks and guards of all threads (each is a variable of one thread), and, as a ghost, the mutexes that
  a thread holds without a lock object: it locked them itself or released them from a lock.
\<close>

record 's lock_world =
  lw_mutexes :: 's
  lw_locks :: "nat \<Rightarrow> unique_lock"
  lw_thread :: "nat \<Rightarrow> tid option"
  lw_guards :: "nat \<Rightarrow> (tid \<times> addr) option"
  lw_bare :: "addr \<Rightarrow> tid option"

datatype lock_use =
  New_lock nat addr
| New_deferred nat addr
| New_adopted nat addr
| New_try nat addr
| New_moved nat nat
| Move_assign nat nat
| Destroy nat
| Use_lock nat
| Use_try_lock nat
| Use_unlock nat
| Use_release nat
| Use_swap nat nat
| New_guard nat addr
| Destroy_guard nat
| Bare_lock addr
| Bare_unlock addr

definition new_lock :: "nat \<Rightarrow> tid \<Rightarrow> 's lock_world \<Rightarrow> unique_lock \<times> 's \<Rightarrow> 's lock_world" where
  "new_lock i t w us = w\<lparr>lw_mutexes := snd us, lw_locks := (lw_locks w)(i := fst us), lw_thread := (lw_thread w)(i := Some t)\<rparr>"

definition set_lock :: "nat \<Rightarrow> 's lock_world \<Rightarrow> unique_lock \<times> 's \<Rightarrow> 's lock_world" where
  "set_lock i w us = w\<lparr>lw_mutexes := snd us, lw_locks := (lw_locks w)(i := fst us)\<rparr>"

fun lock_exec :: "'s lockable_ops \<Rightarrow> bool \<Rightarrow> tid \<Rightarrow> lock_use \<Rightarrow> 's lock_world \<Rightarrow> 's lock_world outcome" where
  "lock_exec L sp t (New_lock i m) w = bindO (ctor_lock L t m (lw_mutexes w)) (\<lambda>us. Some (Inr (new_lock i t w us)))"
| "lock_exec L sp t (New_deferred i m) w = Some (Inr (new_lock i t w (ctor_defer_lock m, lw_mutexes w)))"
| "lock_exec L sp t (New_adopted i m) w =
     Some (Inr ((new_lock i t w (ctor_adopt_lock m, lw_mutexes w))\<lparr>lw_bare := (lw_bare w)(m := None)\<rparr>))"
| "lock_exec L sp t (New_try i m) w = bindO (ctor_try_to_lock L sp t m (lw_mutexes w)) (\<lambda>us. Some (Inr (new_lock i t w us)))"
| "lock_exec L sp t (New_moved i j) w =
     Some (Inr (w\<lparr>lw_locks := move_ctor i j (lw_locks w), lw_thread := (lw_thread w)(i := Some t)\<rparr>))"
| "lock_exec L sp t (Move_assign i j) w = bindO (move_assign L t i j (lw_locks w) (lw_mutexes w))
     (\<lambda>(\<sigma>, s). Some (Inr (w\<lparr>lw_mutexes := s, lw_locks := \<sigma>\<rparr>)))"
| "lock_exec L sp t (Destroy i) w = bindO (dtor_unique_lock L t (lw_locks w i) (lw_mutexes w))
     (\<lambda>s. Some (Inr (w\<lparr>lw_mutexes := s, lw_locks := (lw_locks w)(i := no_lock), lw_thread := (lw_thread w)(i := None)\<rparr>)))"
| "lock_exec L sp t (Use_lock i) w = bindO (ul_Lock L t (lw_locks w i) (lw_mutexes w)) (\<lambda>us. Some (Inr (set_lock i w us)))"
| "lock_exec L sp t (Use_try_lock i) w =
     bindO (ul_TryLock L sp t (lw_locks w i) (lw_mutexes w)) (\<lambda>(b, us). Some (Inr (set_lock i w us)))"
| "lock_exec L sp t (Use_unlock i) w = bindO (ul_Unlock L t (lw_locks w i) (lw_mutexes w)) (\<lambda>us. Some (Inr (set_lock i w us)))"
| "lock_exec L sp t (Use_release i) w = (case ul_Release (lw_locks w i) of (m, u) \<Rightarrow>
     Some (Inr (w\<lparr>lw_locks := (lw_locks w)(i := u),
       lw_bare := (if ul_owns (lw_locks w i) then (lw_bare w)(the m := Some t) else lw_bare w)\<rparr>)))"
| "lock_exec L sp t (Use_swap i j) w = Some (Inr (w\<lparr>lw_locks := ul_Swap i j (lw_locks w)\<rparr>))"
| "lock_exec L sp t (New_guard g m) w = bindO (ctor_lock_guard L t m (lw_mutexes w))
     (\<lambda>(m', s). Some (Inr (w\<lparr>lw_mutexes := s, lw_guards := (lw_guards w)(g := Some (t, m'))\<rparr>)))"
| "lock_exec L sp t (Destroy_guard g) w = bindO (dtor_lock_guard L t (snd (the (lw_guards w g))) (lw_mutexes w))
     (\<lambda>s. Some (Inr (w\<lparr>lw_mutexes := s, lw_guards := (lw_guards w)(g := None)\<rparr>)))"
| "lock_exec L sp t (Bare_lock m) w = bindO (lk_lock L t m (lw_mutexes w))
     (\<lambda>s. Some (Inr (w\<lparr>lw_mutexes := s, lw_bare := (lw_bare w)(m := Some t)\<rparr>)))"
| "lock_exec L sp t (Bare_unlock m) w = bindO (lk_unlock L t m (lw_mutexes w))
     (\<lambda>s. Some (Inr (w\<lparr>lw_mutexes := s, lw_bare := (lw_bare w)(m := None)\<rparr>)))"

text \<open>
  What C++ asks of the program: it uses its own locks and guards while they live, locks no mutex that the
  thread holds already, unlocks through a lock only when the lock owns, adopts a mutex that the thread holds
  without a lock. \<open>held m\<close>: the thread that holds \<open>m\<close>.
\<close>

definition may_lock :: "(addr \<Rightarrow> tid option) \<Rightarrow> tid \<Rightarrow> unique_lock \<Rightarrow> bool" where
  "may_lock held t u \<longleftrightarrow> (case ul_mutex u of None \<Rightarrow> False | Some m \<Rightarrow> held m \<noteq> Some t)"

fun lock_allowed :: "(addr \<Rightarrow> tid option) \<Rightarrow> tid \<Rightarrow> lock_use \<Rightarrow> 's lock_world \<Rightarrow> bool" where
  "lock_allowed held t (New_lock i m) w \<longleftrightarrow> lw_thread w i = None \<and> held m \<noteq> Some t"
| "lock_allowed held t (New_deferred i m) w \<longleftrightarrow> lw_thread w i = None"
| "lock_allowed held t (New_adopted i m) w \<longleftrightarrow> lw_thread w i = None \<and> lw_bare w m = Some t"
| "lock_allowed held t (New_try i m) w \<longleftrightarrow> lw_thread w i = None \<and> held m \<noteq> Some t"
| "lock_allowed held t (New_moved i j) w \<longleftrightarrow> lw_thread w i = None \<and> lw_thread w j = Some t"
| "lock_allowed held t (Move_assign i j) w \<longleftrightarrow> lw_thread w i = Some t \<and> lw_thread w j = Some t"
| "lock_allowed held t (Destroy i) w \<longleftrightarrow> lw_thread w i = Some t"
| "lock_allowed held t (Use_lock i) w \<longleftrightarrow> lw_thread w i = Some t \<and> may_lock held t (lw_locks w i)"
| "lock_allowed held t (Use_try_lock i) w \<longleftrightarrow> lw_thread w i = Some t \<and> may_lock held t (lw_locks w i)"
| "lock_allowed held t (Use_unlock i) w \<longleftrightarrow> lw_thread w i = Some t \<and> ul_owns (lw_locks w i)"
| "lock_allowed held t (Use_release i) w \<longleftrightarrow> lw_thread w i = Some t"
| "lock_allowed held t (Use_swap i j) w \<longleftrightarrow> lw_thread w i = Some t \<and> lw_thread w j = Some t"
| "lock_allowed held t (New_guard g m) w \<longleftrightarrow> lw_guards w g = None \<and> held m \<noteq> Some t"
| "lock_allowed held t (Destroy_guard g) w \<longleftrightarrow> (case lw_guards w g of None \<Rightarrow> False | Some (u, m) \<Rightarrow> u = t)"
| "lock_allowed held t (Bare_lock m) w \<longleftrightarrow> held m \<noteq> Some t"
| "lock_allowed held t (Bare_unlock m) w \<longleftrightarrow> lw_bare w m = Some t"

definition new_lock_world :: "'s \<Rightarrow> 's lock_world" where
  "new_lock_world s = \<lparr>lw_mutexes = s, lw_locks = (\<lambda>_. no_lock), lw_thread = (\<lambda>_. None), lw_guards = (\<lambda>_. None), lw_bare = (\<lambda>_. None)\<rparr>"

text \<open>Runs of such programs: any thread takes the next step.\<close>

inductive lock_run :: "'s lockable_ops \<Rightarrow> ('s \<Rightarrow> addr \<Rightarrow> tid option) \<Rightarrow> 's lock_world \<Rightarrow> 's lock_world \<Rightarrow> bool" for L owner w0 where
  lock_run_start: "lock_run L owner w0 w0"
| lock_run_step: "lock_run L owner w0 w \<Longrightarrow> 1 \<le> t \<Longrightarrow> t \<le> kMaxThreads \<Longrightarrow> lock_allowed (owner (lw_mutexes w)) t op w \<Longrightarrow>
     lock_exec L sp t op w = Some (Inr w') \<Longrightarrow> lock_run L owner w0 w'"

section \<open>Who holds what\<close>

datatype holder = By_lock nat | By_guard nat | By_hand

fun holds_by :: "'s lock_world \<Rightarrow> tid \<Rightarrow> addr \<Rightarrow> holder \<Rightarrow> bool" where
  "holds_by w t m (By_lock i) \<longleftrightarrow> lw_thread w i = Some t \<and> ul_owns (lw_locks w i) \<and> ul_mutex (lw_locks w i) = Some m"
| "holds_by w t m (By_guard g) \<longleftrightarrow> lw_guards w g = Some (t, m)"
| "holds_by w t m By_hand \<longleftrightarrow> lw_bare w m = Some t"

text \<open>Each mutex that a thread holds is held by exactly one of its locks or guards, or by hand.\<close>

definition accounted :: "(addr \<Rightarrow> tid option) \<Rightarrow> 's lock_world \<Rightarrow> bool" where
  "accounted held w \<longleftrightarrow> (\<forall>m t. held m = Some t \<longleftrightarrow> (\<exists>h. holds_by w t m h)) \<and>
     (\<forall>m t t' h h'. holds_by w t m h \<longrightarrow> holds_by w t' m h' \<longrightarrow> h = h')"

definition owners_set :: "'s lock_world \<Rightarrow> bool" where
  "owners_set w \<longleftrightarrow> (\<forall>i. ul_owns (lw_locks w i) \<longrightarrow> ul_mutex (lw_locks w i) \<noteq> None)"


definition lock_good :: "('s \<Rightarrow> bool) \<Rightarrow> ('s \<Rightarrow> addr \<Rightarrow> tid option) \<Rightarrow> 's lock_world \<Rightarrow> bool" where
  "lock_good ok owner w \<longleftrightarrow> ok (lw_mutexes w) \<and> accounted (owner (lw_mutexes w)) w \<and> owners_set w"

text \<open>The mutex that an operation waits for.\<close>

fun waits_for :: "lock_use \<Rightarrow> 's lock_world \<Rightarrow> addr option" where
  "waits_for (New_lock i m) w = Some m"
| "waits_for (Use_lock i) w = ul_mutex (lw_locks w i)"
| "waits_for (New_guard g m) w = Some m"
| "waits_for (Bare_lock m) w = Some m"
| "waits_for _ w = None"

lemma accounted_held: "accounted held w \<Longrightarrow> holds_by w t m h \<Longrightarrow> held m = Some t"
  unfolding accounted_def by blast

lemma accounted_one: "accounted held w \<Longrightarrow> holds_by w t m h \<Longrightarrow> holds_by w t' m h' \<Longrightarrow> h' = h"
  unfolding accounted_def by blast

text \<open>A mutex that changes hands between holders of one thread, one that is taken, one that is given back.\<close>

lemma accounted_moved:
  assumes "accounted held w" and "\<And>t m h. holds_by w' t m h \<longleftrightarrow> holds_by w t m (\<pi> m h)" and "\<And>m h. \<pi> m (\<pi> m h) = h"
  shows "accounted held w'"
  unfolding accounted_def
proof (intro conjI allI impI)
  show "held m = Some t \<longleftrightarrow> (\<exists>h. holds_by w' t m h)" for m t
    using assms unfolding accounted_def by metis
  show "h = h'" if "holds_by w' t m h" "holds_by w' t' m h'" for m t t' h h'
    using accounted_one [OF assms(1), of t m "\<pi> m h" t' "\<pi> m h'"] that assms(2,3) by metis
qed

lemma accounted_taken:
  assumes "accounted held w" and "held m = None"
    and "\<And>t' m' h. holds_by w' t' m' h \<longleftrightarrow> holds_by w t' m' h \<or> t' = t \<and> m' = m \<and> h = new"
  shows "accounted (held(m := Some t)) w'"
proof -
  have "\<not> holds_by w t' m h" for t' h using accounted_held [OF assms(1)] assms(2) by fastforce
  then show ?thesis using assms(1,3) unfolding accounted_def by auto
qed

lemma accounted_given:
  assumes "accounted held w" and "\<And>t' m' h. holds_by w' t' m' h \<longleftrightarrow> holds_by w t' m' h \<and> m' \<noteq> m"
  shows "accounted (held(m := None)) w'"
  using assms unfolding accounted_def by auto

lemma accounted_same: "accounted held w \<Longrightarrow> (\<And>t m h. holds_by w' t m h \<longleftrightarrow> holds_by w t m h) \<Longrightarrow> accounted held w'"
  by (erule accounted_moved [where \<pi> = "\<lambda>m h. h"]) simp_all

text \<open>Two holders that change places.\<close>

definition change :: "holder \<Rightarrow> holder \<Rightarrow> holder \<Rightarrow> holder" where
  "change a b h = (if h = a then b else if h = b then a else h)"

lemma change_change [simp]: "change a b (change a b h) = h"
  by (simp add: change_def)

section \<open>Any mutex\<close>

text \<open>
  What a lock relies on. \<open>owner\<close> says which thread has a mutex, \<open>ok\<close> is an invariant of the mutexes.
\<close>

locale lockable =
  fixes L :: "'s lockable_ops" and ok :: "'s \<Rightarrow> bool" and owner :: "'s \<Rightarrow> addr \<Rightarrow> tid option"
  assumes lock_free: "ok s \<Longrightarrow> 1 \<le> t \<and> t \<le> kMaxThreads \<Longrightarrow> owner s m = None \<Longrightarrow>
      \<exists>s'. lk_lock L t m s = Some (Inr s') \<and> ok s' \<and> owner s' = (owner s)(m := Some t)"
    and lock_taken: "ok s \<Longrightarrow> 1 \<le> t \<and> t \<le> kMaxThreads \<Longrightarrow> owner s m = Some u \<Longrightarrow> u \<noteq> t \<Longrightarrow> lk_lock L t m s = None"
    and try_lock: "ok s \<Longrightarrow> 1 \<le> t \<and> t \<le> kMaxThreads \<Longrightarrow> owner s m \<noteq> Some t \<Longrightarrow>
      \<exists>b s'. lk_try_lock L sp t m s = Some (Inr (b, s')) \<and> ok s' \<and> (b \<longleftrightarrow> owner s m = None \<and> \<not> sp) \<and>
        owner s' = (if b then (owner s)(m := Some t) else owner s)"
    and unlock: "ok s \<Longrightarrow> 1 \<le> t \<and> t \<le> kMaxThreads \<Longrightarrow> owner s m = Some t \<Longrightarrow>
      \<exists>s'. lk_unlock L t m s = Some (Inr s') \<and> ok s' \<and> owner s' = (owner s)(m := None)"
begin

lemma lock_outcome:
  assumes "ok s" and "1 \<le> t \<and> t \<le> kMaxThreads" and "owner s m \<noteq> Some t"
  obtains (waits) u where "owner s m = Some u" "u \<noteq> t" "lk_lock L t m s = None"
    | (locks) s' where "owner s m = None" "lk_lock L t m s = Some (Inr s')" "ok s'" "owner s' = (owner s)(m := Some t)"
proof (cases "owner s m")
  case None
  then show ?thesis using lock_free [OF assms(1,2)] that(2) by blast
next
  case (Some u)
  then show ?thesis using lock_taken [OF assms(1,2)] assms(3) that(1) by simp
qed

abbreviation safe :: "tid \<Rightarrow> lock_use \<Rightarrow> 's lock_world \<Rightarrow> 's lock_world outcome \<Rightarrow> bool" where
  "safe t op w r \<equiv> (case r of None \<Rightarrow> (\<exists>m u. waits_for op w = Some m \<and> owner (lw_mutexes w) m = Some u \<and> u \<noteq> t)
     | Some (Inl e) \<Rightarrow> False | Some (Inr w') \<Rightarrow> lock_good ok owner w')"

lemma unlock_owned_safe:
  assumes G: "lock_good ok owner w" and t: "1 \<le> t \<and> t \<le> kMaxThreads" and o: "lw_thread w i = Some t"
  obtains (free) "\<not> ul_owns (lw_locks w i)" "unlock_owned L t (lw_locks w i) (lw_mutexes w) = Some (Inr (lw_mutexes w))"
    | (owned) m s' where "ul_owns (lw_locks w i)" "ul_mutex (lw_locks w i) = Some m" "holds_by w t m (By_lock i)"
        "unlock_owned L t (lw_locks w i) (lw_mutexes w) = Some (Inr s')" "lk_unlock L t m (lw_mutexes w) = Some (Inr s')"
        "ok s'" "owner s' = (owner (lw_mutexes w))(m := None)"
proof (cases "ul_owns (lw_locks w i)")
  case False
  then show ?thesis by (intro free) (simp_all add: unlock_owned_def)
next
  case True
  then obtain m where m: "ul_mutex (lw_locks w i) = Some m" using G by (auto simp: lock_good_def owners_set_def)
  then have h: "holds_by w t m (By_lock i)" using o True by simp
  then have "owner (lw_mutexes w) m = Some t" using G accounted_held [of "owner (lw_mutexes w)" w t m] unfolding lock_good_def by blast
  then obtain s' where "lk_unlock L t m (lw_mutexes w) = Some (Inr s')" "ok s'" "owner s' = (owner (lw_mutexes w))(m := None)"
    using unlock [OF _ t] G by (auto simp: lock_good_def)
  then show ?thesis using owned [of m s'] m h True by (simp add: unlock_owned_def)
qed


lemma good_taken:
  assumes "lock_good ok owner w" and "owner (lw_mutexes w) m = None" and "ok (lw_mutexes w')"
    and "owner (lw_mutexes w') = (owner (lw_mutexes w))(m := Some t)" and "owners_set w'"
    and "\<And>t' m' h. holds_by w' t' m' h \<longleftrightarrow> holds_by w t' m' h \<or> t' = t \<and> m' = m \<and> h = new"
  shows "lock_good ok owner w'"
  using assms accounted_taken [of "owner (lw_mutexes w)" w m w' t new] by (simp add: lock_good_def)

lemma good_given:
  assumes "lock_good ok owner w" and "ok (lw_mutexes w')"
    and "owner (lw_mutexes w') = (owner (lw_mutexes w))(m := None)" and "owners_set w'"
    and "\<And>t' m' h. holds_by w' t' m' h \<longleftrightarrow> holds_by w t' m' h \<and> m' \<noteq> m"
  shows "lock_good ok owner w'"
  using assms accounted_given [of "owner (lw_mutexes w)" w w' m] by (simp add: lock_good_def)

lemma good_moved:
  assumes "lock_good ok owner w" and "lw_mutexes w' = lw_mutexes w" and "owners_set w'"
    and "\<And>t m h. holds_by w' t m h \<longleftrightarrow> holds_by w t m (\<pi> m h)" and "\<And>m h. \<pi> m (\<pi> m h) = h"
  shows "lock_good ok owner w'"
  using assms accounted_moved [of "owner (lw_mutexes w)" w w' \<pi>] by (simp add: lock_good_def)

lemma good_same:
  assumes "lock_good ok owner w" and "ok (lw_mutexes w')" and "owner (lw_mutexes w') = owner (lw_mutexes w)" and "owners_set w'"
    and "\<And>t m h. holds_by w' t m h \<longleftrightarrow> holds_by w t m h"
  shows "lock_good ok owner w'"
  using assms accounted_same [of "owner (lw_mutexes w)" w w'] by (simp add: lock_good_def)

lemma holds_eqI:
  assumes "\<And>i. P (By_lock i)" and "\<And>g. P (By_guard g)" and "P By_hand"
  shows "P h"
  using assms by (cases h) auto

lemma good_sets: "lock_good ok owner w \<Longrightarrow> ul_owns (lw_locks w i) \<Longrightarrow> ul_mutex (lw_locks w i) \<noteq> None"
  by (simp add: lock_good_def owners_set_def)

lemma good_ok: "lock_good ok owner w \<Longrightarrow> ok (lw_mutexes w)"
  by (simp add: lock_good_def)

lemma good_held: "lock_good ok owner w \<Longrightarrow> holds_by w t m h \<Longrightarrow> owner (lw_mutexes w) m = Some t"
  unfolding lock_good_def using accounted_held by blast

lemma good_one: "lock_good ok owner w \<Longrightarrow> holds_by w t m h \<Longrightarrow> holds_by w t' m h' \<Longrightarrow> h' = h"
  unfolding lock_good_def using accounted_one by blast

lemma good_given_by:
  assumes G: "lock_good ok owner w" and hold: "holds_by w t m old" and s: "ok (lw_mutexes w')"
    "owner (lw_mutexes w') = (owner (lw_mutexes w))(m := None)" and o: "owners_set w'"
    and h: "\<And>t' m' h. h \<noteq> old \<or> m' \<noteq> m \<Longrightarrow> holds_by w' t' m' h \<longleftrightarrow> holds_by w t' m' h" "\<And>t'. \<not> holds_by w' t' m old"
  shows "lock_good ok owner w'"
proof (rule good_given [OF G s o])
  have "holds_by w t' m h \<Longrightarrow> h = old" for t' h using good_one [OF G hold] .
  then show "holds_by w' t' m' h \<longleftrightarrow> holds_by w t' m' h \<and> m' \<noteq> m" for t' m' h using h by metis
qed

lemma new_taken:
  assumes G: "lock_good ok owner w" and i: "lw_thread w i = None"
    and m: "owner (lw_mutexes w) m = None" "ok s'" "owner s' = (owner (lw_mutexes w))(m := Some t)"
  shows "lock_good ok owner (new_lock i t w (\<lparr>ul_mutex = Some m, ul_owns = True\<rparr>, s'))"
proof (rule good_taken [OF G m(1), where new = "By_lock i" and t = t])
  let ?w = "new_lock i t w (\<lparr>ul_mutex = Some m, ul_owns = True\<rparr>, s')"
  show "holds_by ?w t' m' h \<longleftrightarrow> holds_by w t' m' h \<or> t' = t \<and> m' = m \<and> h = By_lock i" for t' m' h
    using i by (cases h) (auto simp: new_lock_def)
qed (use m good_sets [OF G] in \<open>auto simp: new_lock_def owners_set_def\<close>)

lemma new_idle:
  assumes G: "lock_good ok owner w" and i: "lw_thread w i = None" and s: "ok s'" "owner s' = owner (lw_mutexes w)"
  shows "lock_good ok owner (new_lock i t w (\<lparr>ul_mutex = m, ul_owns = False\<rparr>, s'))"
proof (rule good_same [OF G])
  let ?w = "new_lock i t w (\<lparr>ul_mutex = m, ul_owns = False\<rparr>, s')"
  show "holds_by ?w t' m' h \<longleftrightarrow> holds_by w t' m' h" for t' m' h using i by (cases h) (auto simp: new_lock_def)
qed (use s good_sets [OF G] in \<open>auto simp: new_lock_def owners_set_def\<close>)

lemma set_taken:
  assumes G: "lock_good ok owner w" and i: "lw_thread w i = Some t" "ul_mutex (lw_locks w i) = Some m"
    and m: "owner (lw_mutexes w) m = None" "ok s'" "owner s' = (owner (lw_mutexes w))(m := Some t)"
  shows "lock_good ok owner (set_lock i w ((lw_locks w i)\<lparr>ul_owns := True\<rparr>, s'))"
proof (rule good_taken [OF G m(1), where new = "By_lock i" and t = t])
  let ?w = "set_lock i w ((lw_locks w i)\<lparr>ul_owns := True\<rparr>, s')"
  show "holds_by ?w t' m' h \<longleftrightarrow> holds_by w t' m' h \<or> t' = t \<and> m' = m \<and> h = By_lock i" for t' m' h
    using i by (cases h) (auto simp: set_lock_def)
qed (use m i good_sets [OF G] in \<open>auto simp: set_lock_def owners_set_def\<close>)

lemma set_idle:
  assumes G: "lock_good ok owner w" and i: "\<not> ul_owns (lw_locks w i)" and s: "ok s'" "owner s' = owner (lw_mutexes w)"
  shows "lock_good ok owner (set_lock i w ((lw_locks w i)\<lparr>ul_owns := False\<rparr>, s'))"
proof (rule good_same [OF G])
  let ?w = "set_lock i w ((lw_locks w i)\<lparr>ul_owns := False\<rparr>, s')"
  show "holds_by ?w t' m' h \<longleftrightarrow> holds_by w t' m' h" for t' m' h using i by (cases h) (auto simp: set_lock_def)
qed (use s good_sets [OF G] in \<open>auto simp: set_lock_def owners_set_def\<close>)

lemma not_owning:
  assumes G: "lock_good ok owner w" and i: "lw_thread w i = Some t" and a: "may_lock (owner (lw_mutexes w)) t (lw_locks w i)"
  obtains m where "ul_mutex (lw_locks w i) = Some m" "owner (lw_mutexes w) m \<noteq> Some t" "\<not> ul_owns (lw_locks w i)"
proof -
  obtain m where m: "ul_mutex (lw_locks w i) = Some m" "owner (lw_mutexes w) m \<noteq> Some t"
    using a by (auto simp: may_lock_def split: option.splits)
  then have "\<not> ul_owns (lw_locks w i)" using good_held [OF G, of t m "By_lock i"] i by auto
  then show ?thesis using that m by blast
qed

text \<open>The operations, one by one.\<close>

lemma emptied:
  assumes G: "lock_good ok owner w" and t: "1 \<le> t \<and> t \<le> kMaxThreads" and i: "lw_thread w i = Some t"
  obtains s1 where "unlock_owned L t (lw_locks w i) (lw_mutexes w) = Some (Inr s1)"
    "lock_good ok owner (w\<lparr>lw_mutexes := s1, lw_locks := (lw_locks w)(i := no_lock)\<rparr>)"
proof (cases rule: unlock_owned_safe [OF assms])
  case 1
  let ?w = "w\<lparr>lw_mutexes := lw_mutexes w, lw_locks := (lw_locks w)(i := no_lock)\<rparr>"
  have "holds_by ?w t' m' h \<longleftrightarrow> holds_by w t' m' h" for t' m' h using 1 by (cases h) (auto simp: no_lock_def)
  then have "lock_good ok owner ?w"
    by (intro good_same [OF G]) (use good_ok [OF G] good_sets [OF G] in \<open>auto simp: owners_set_def no_lock_def\<close>)
  then show ?thesis using 1 that by blast
next
  case (2 m s')
  let ?w = "w\<lparr>lw_mutexes := s', lw_locks := (lw_locks w)(i := no_lock)\<rparr>"
  have same: "holds_by ?w t' m' h \<longleftrightarrow> holds_by w t' m' h" if "h \<noteq> By_lock i \<or> m' \<noteq> m" for t' m' h
    using that 2(2) by (cases h) (auto simp: no_lock_def)
  have "lock_good ok owner ?w"
    by (rule good_given_by [OF G 2(3) _ _ _ same]) (use 2 good_sets [OF G] in \<open>auto simp: owners_set_def no_lock_def\<close>)
  then show ?thesis using 2 that by blast
qed

lemma safe_Destroy:
  assumes "lock_good ok owner w" and "1 \<le> t \<and> t \<le> kMaxThreads" and "lw_thread w i = Some t"
  shows "safe t (Destroy i) w (lock_exec L sp t (Destroy i) w)"
proof (cases rule: emptied [OF assms])
  case (1 s1)
  let ?w1 = "w\<lparr>lw_mutexes := s1, lw_locks := (lw_locks w)(i := no_lock)\<rparr>"
  let ?w = "?w1\<lparr>lw_thread := (lw_thread w)(i := None)\<rparr>"
  have h: "holds_by ?w t' m' h \<longleftrightarrow> holds_by ?w1 t' m' h" for t' m' h by (cases h) (auto simp: no_lock_def)
  have "lock_good ok owner ?w"
    by (rule good_same [OF 1(2) _ _ _ h]) (use good_ok [OF 1(2)] good_sets [OF 1(2)] in \<open>auto simp: owners_set_def\<close>)
  then show ?thesis using 1(1) by (simp add: dtor_unique_lock_def)
qed

lemma move_assign_eq:
  "move_assign L t i j \<sigma> s = bindO (unlock_owned L t (\<sigma> i) s) (\<lambda>s1. Some (Inr (move_ctor i j (\<sigma>(i := no_lock, j := if i = j then no_lock else \<sigma> j)), s1)))"
  by (auto simp: move_assign_def move_ctor_def no_lock_def Let_def fun_eq_iff intro!: arg_cong2 [where f = bindO])

lemma good_move:
  assumes G: "lock_good ok owner w" and i: "lw_thread w i = None \<or> lw_locks w i = no_lock" and j: "lw_thread w j = Some t"
  shows "lock_good ok owner (w\<lparr>lw_locks := move_ctor i j (lw_locks w), lw_thread := (lw_thread w)(i := Some t)\<rparr>)"
proof (rule good_moved [OF G, where \<pi> = "\<lambda>m. change (By_lock i) (By_lock j)"])
  let ?w = "w\<lparr>lw_locks := move_ctor i j (lw_locks w), lw_thread := (lw_thread w)(i := Some t)\<rparr>"
  show "holds_by ?w t' m h \<longleftrightarrow> holds_by w t' m (change (By_lock i) (By_lock j) h)" for t' m h
    using i j by (cases h) (auto simp: change_def move_ctor_def Let_def no_lock_def)
qed (use good_sets [OF G] in \<open>auto simp: owners_set_def move_ctor_def Let_def\<close>)

lemma safe_Move_assign:
  assumes "lock_good ok owner w" and "1 \<le> t \<and> t \<le> kMaxThreads" and "lw_thread w i = Some t" and j: "lw_thread w j = Some t"
  shows "safe t (Move_assign i j) w (lock_exec L sp t (Move_assign i j) w)"
proof (cases rule: emptied [OF assms(1-3)])
  case (1 s1)
  let ?w1 = "w\<lparr>lw_mutexes := s1, lw_locks := (lw_locks w)(i := no_lock)\<rparr>"
  have "lock_good ok owner (?w1\<lparr>lw_locks := move_ctor i j (lw_locks ?w1), lw_thread := (lw_thread ?w1)(i := Some t)\<rparr>)"
    by (rule good_move [OF 1(2)]) (use j in auto)
  moreover have "(lw_thread w)(i := Some t) = lw_thread w" using assms(3) by auto
  moreover have "(lw_locks w)(i := no_lock, j := if i = j then no_lock else lw_locks w j) = (lw_locks w)(i := no_lock)" by auto
  ultimately show ?thesis using 1(1) by (simp add: move_assign_eq)
qed

lemma safe_Use_swap:
  assumes G: "lock_good ok owner w" and i: "lw_thread w i = Some t" "lw_thread w j = Some t"
  shows "safe t (Use_swap i j) w (lock_exec L sp t (Use_swap i j) w)"
proof -
  let ?w = "w\<lparr>lw_locks := ul_Swap i j (lw_locks w)\<rparr>"
  have "holds_by ?w t' m h \<longleftrightarrow> holds_by w t' m (change (By_lock i) (By_lock j) h)" for t' m h
    using i by (cases h) (auto simp: change_def ul_Swap_def Let_def)
  then have "lock_good ok owner ?w"
    by (intro good_moved [OF G, where \<pi> = "\<lambda>m. change (By_lock i) (By_lock j)"])
      (use good_sets [OF G] in \<open>auto simp: owners_set_def ul_Swap_def Let_def\<close>)
  then show ?thesis by simp
qed

lemma safe_Use_release:
  assumes G: "lock_good ok owner w" and i: "lw_thread w i = Some t"
  shows "safe t (Use_release i) w (lock_exec L sp t (Use_release i) w)"
proof (cases "ul_owns (lw_locks w i)")
  case True
  then obtain m where m: "ul_mutex (lw_locks w i) = Some m" using good_sets [OF G, of i] by blast
  let ?w = "w\<lparr>lw_locks := (lw_locks w)(i := (lw_locks w i)\<lparr>ul_mutex := None, ul_owns := False\<rparr>), lw_bare := (lw_bare w)(m := Some t)\<rparr>"
  let ?\<pi> = "\<lambda>m' h. if m' = m then change (By_lock i) By_hand h else h"
  have "holds_by w t m (By_lock i)" using i True m by simp
  then have none: "lw_bare w m \<noteq> Some u" for u using good_one [OF G, of t m "By_lock i" u By_hand] by auto
  have "holds_by ?w t' m' h \<longleftrightarrow> holds_by w t' m' (?\<pi> m' h)" for t' m' h
    using none i True m by (cases h) (auto simp: change_def)
  then have "lock_good ok owner ?w"
    by (intro good_moved [OF G, where \<pi> = ?\<pi>]) (use good_sets [OF G] in \<open>auto simp: owners_set_def\<close>)
  then show ?thesis using True m by (simp add: ul_Release_def)
next
  case False
  let ?w = "w\<lparr>lw_locks := (lw_locks w)(i := (lw_locks w i)\<lparr>ul_mutex := None, ul_owns := False\<rparr>)\<rparr>"
  have "holds_by ?w t' m' h \<longleftrightarrow> holds_by w t' m' h" for t' m' h using False by (cases h) auto
  then have "lock_good ok owner ?w"
    by (intro good_same [OF G]) (use good_ok [OF G] good_sets [OF G] in \<open>auto simp: owners_set_def\<close>)
  then show ?thesis using False by (simp add: ul_Release_def)
qed

lemma safe_New_adopted:
  assumes G: "lock_good ok owner w" and i: "lw_thread w i = None" and b: "lw_bare w m = Some t"
  shows "safe t (New_adopted i m) w (lock_exec L sp t (New_adopted i m) w)"
proof -
  let ?w = "(new_lock i t w (ctor_adopt_lock m, lw_mutexes w))\<lparr>lw_bare := (lw_bare w)(m := None)\<rparr>"
  let ?\<pi> = "\<lambda>m' h. if m' = m then change (By_lock i) By_hand h else h"
  have "holds_by ?w t' m' h \<longleftrightarrow> holds_by w t' m' (?\<pi> m' h)" for t' m' h
    using i b by (cases h) (auto simp: change_def new_lock_def ctor_adopt_lock_def)
  then have "lock_good ok owner ?w"
    by (intro good_moved [OF G, where \<pi> = ?\<pi>]) (use good_sets [OF G] in \<open>auto simp: owners_set_def new_lock_def ctor_adopt_lock_def\<close>)
  then show ?thesis by simp
qed

lemma safe_Use_unlock:
  assumes G: "lock_good ok owner w" and t: "1 \<le> t \<and> t \<le> kMaxThreads" and i: "lw_thread w i = Some t" "ul_owns (lw_locks w i)"
  shows "safe t (Use_unlock i) w (lock_exec L sp t (Use_unlock i) w)"
proof (cases rule: unlock_owned_safe [OF G t i(1)])
  case (2 m s')
  let ?w = "set_lock i w ((lw_locks w i)\<lparr>ul_owns := False\<rparr>, s')"
  have same: "holds_by ?w t' m' h \<longleftrightarrow> holds_by w t' m' h" if "h \<noteq> By_lock i \<or> m' \<noteq> m" for t' m' h
    using that 2(2) by (cases h) (auto simp: set_lock_def)
  have "lock_good ok owner ?w"
    by (rule good_given_by [OF G 2(3) _ _ _ same]) (use 2 good_sets [OF G] in \<open>auto simp: owners_set_def set_lock_def\<close>)
  then show ?thesis using 2 by (simp add: ul_Unlock_def)
qed (use i in simp)

lemma safe_Destroy_guard:
  assumes G: "lock_good ok owner w" and t: "1 \<le> t \<and> t \<le> kMaxThreads" and g: "lw_guards w g = Some (t, m)"
  shows "safe t (Destroy_guard g) w (lock_exec L sp t (Destroy_guard g) w)"
proof -
  have hold: "holds_by w t m (By_guard g)" using g by simp
  obtain s' where s': "lk_unlock L t m (lw_mutexes w) = Some (Inr s')" "ok s'" "owner s' = (owner (lw_mutexes w))(m := None)"
    using unlock [OF good_ok [OF G] t good_held [OF G hold]] by blast
  let ?w = "w\<lparr>lw_mutexes := s', lw_guards := (lw_guards w)(g := None)\<rparr>"
  have same: "holds_by ?w t' m' h \<longleftrightarrow> holds_by w t' m' h" if "h \<noteq> By_guard g \<or> m' \<noteq> m" for t' m' h
    using that g by (cases h) auto
  have "lock_good ok owner ?w"
    by (rule good_given_by [OF G hold _ _ _ same]) (use s' good_sets [OF G] in \<open>auto simp: owners_set_def\<close>)
  then show ?thesis using s' g by (simp add: dtor_lock_guard_def)
qed

lemma safe_Bare_unlock:
  assumes G: "lock_good ok owner w" and t: "1 \<le> t \<and> t \<le> kMaxThreads" and g: "lw_bare w m = Some t"
  shows "safe t (Bare_unlock m) w (lock_exec L sp t (Bare_unlock m) w)"
proof -
  have hold: "holds_by w t m By_hand" using g by simp
  obtain s' where s': "lk_unlock L t m (lw_mutexes w) = Some (Inr s')" "ok s'" "owner s' = (owner (lw_mutexes w))(m := None)"
    using unlock [OF good_ok [OF G] t good_held [OF G hold]] by blast
  let ?w = "w\<lparr>lw_mutexes := s', lw_bare := (lw_bare w)(m := None)\<rparr>"
  have same: "holds_by ?w t' m' h \<longleftrightarrow> holds_by w t' m' h" if "h \<noteq> By_hand \<or> m' \<noteq> m" for t' m' h
    using that g by (cases h) auto
  have "lock_good ok owner ?w"
    by (rule good_given_by [OF G hold _ _ _ same]) (use s' good_sets [OF G] in \<open>auto simp: owners_set_def\<close>)
  then show ?thesis using s' by simp
qed

lemma safe_Bare_lock:
  assumes G: "lock_good ok owner w" and t: "1 \<le> t \<and> t \<le> kMaxThreads" and a: "owner (lw_mutexes w) m \<noteq> Some t"
  shows "safe t (Bare_lock m) w (lock_exec L sp t (Bare_lock m) w)"
proof (cases rule: lock_outcome [OF good_ok [OF G] t a])
  case (2 s')
  let ?w = "w\<lparr>lw_mutexes := s', lw_bare := (lw_bare w)(m := Some t)\<rparr>"
  have none: "lw_bare w m = None" using good_held [OF G, of _ m By_hand] 2(1) by (cases "lw_bare w m") auto
  have h: "holds_by ?w t' m' h \<longleftrightarrow> holds_by w t' m' h \<or> t' = t \<and> m' = m \<and> h = By_hand" for t' m' h
    using none by (cases h) auto
  have "lock_good ok owner ?w" by (rule good_taken [OF G 2(1) _ _ _ h]) (use 2 good_sets [OF G] in \<open>auto simp: owners_set_def\<close>)
  then show ?thesis using 2 by simp
qed simp

lemma safe_New_guard:
  assumes G: "lock_good ok owner w" and t: "1 \<le> t \<and> t \<le> kMaxThreads" and a: "owner (lw_mutexes w) m \<noteq> Some t"
    and g: "lw_guards w g = None"
  shows "safe t (New_guard g m) w (lock_exec L sp t (New_guard g m) w)"
proof (cases rule: lock_outcome [OF good_ok [OF G] t a])
  case (2 s')
  let ?w = "w\<lparr>lw_mutexes := s', lw_guards := (lw_guards w)(g := Some (t, m))\<rparr>"
  have h: "holds_by ?w t' m' h \<longleftrightarrow> holds_by w t' m' h \<or> t' = t \<and> m' = m \<and> h = By_guard g" for t' m' h
    using g by (cases h) auto
  have "lock_good ok owner ?w" by (rule good_taken [OF G 2(1) _ _ _ h]) (use 2 good_sets [OF G] in \<open>auto simp: owners_set_def\<close>)
  then show ?thesis using 2 by (simp add: ctor_lock_guard_def)
qed (simp add: ctor_lock_guard_def)

lemma safe_New_try:
  assumes G: "lock_good ok owner w" and t: "1 \<le> t \<and> t \<le> kMaxThreads" and a: "owner (lw_mutexes w) m \<noteq> Some t" and i: "lw_thread w i = None"
  shows "safe t (New_try i m) w (lock_exec L sp t (New_try i m) w)"
proof -
  obtain b s' where b: "lk_try_lock L sp t m (lw_mutexes w) = Some (Inr (b, s'))" "ok s'" "b \<longleftrightarrow> owner (lw_mutexes w) m = None \<and> \<not> sp"
      "owner s' = (if b then (owner (lw_mutexes w))(m := Some t) else owner (lw_mutexes w))"
    using try_lock [OF good_ok [OF G] t a] by blast
  have "lock_good ok owner (new_lock i t w (\<lparr>ul_mutex = Some m, ul_owns = b\<rparr>, s'))"
    using new_taken [OF G i _ b(2)] new_idle [OF G i b(2)] b(3,4) by (cases b) auto
  then show ?thesis using b(1) by (simp add: ctor_try_to_lock_def)
qed

lemma safe_Use_try_lock:
  assumes G: "lock_good ok owner w" and t: "1 \<le> t \<and> t \<le> kMaxThreads" and i: "lw_thread w i = Some t"
    and a: "may_lock (owner (lw_mutexes w)) t (lw_locks w i)"
  shows "safe t (Use_try_lock i) w (lock_exec L sp t (Use_try_lock i) w)"
proof -
  obtain m where m: "ul_mutex (lw_locks w i) = Some m" "owner (lw_mutexes w) m \<noteq> Some t" "\<not> ul_owns (lw_locks w i)"
    using not_owning [OF G i a] by blast
  obtain b s' where b: "lk_try_lock L sp t m (lw_mutexes w) = Some (Inr (b, s'))" "ok s'" "b \<longleftrightarrow> owner (lw_mutexes w) m = None \<and> \<not> sp"
      "owner s' = (if b then (owner (lw_mutexes w))(m := Some t) else owner (lw_mutexes w))"
    using try_lock [OF good_ok [OF G] t m(2)] by blast
  have "lock_good ok owner (set_lock i w ((lw_locks w i)\<lparr>ul_owns := b\<rparr>, s'))"
    using set_taken [OF G i m(1) _ b(2)] set_idle [OF G m(3) b(2)] b(3,4) by (cases b) auto
  then show ?thesis using b(1) m by (simp add: ul_TryLock_def)
qed

lemma exec_safe:
  assumes G: "lock_good ok owner w" and t: "1 \<le> t \<and> t \<le> kMaxThreads" and a: "lock_allowed (owner (lw_mutexes w)) t op w"
  shows "safe t op w (lock_exec L sp t op w)"
proof (cases op)
  case (New_lock i m)
  with a have i: "lw_thread w i = None" and m: "owner (lw_mutexes w) m \<noteq> Some t" by simp_all
  show ?thesis
  proof (cases rule: lock_outcome [OF good_ok [OF G] t m])
    case (2 s')
    then show ?thesis using new_taken [OF G i 2(1,3,4)] New_lock by (simp add: ctor_lock_def)
  qed (use New_lock in \<open>simp add: ctor_lock_def\<close>)
next
  case (New_deferred i m)
  then show ?thesis using new_idle [OF G _ good_ok [OF G]] a by (simp add: ctor_defer_lock_def)
next
  case (New_moved i j)
  then show ?thesis using good_move [OF G] a by simp
next
  case (Use_lock i)
  with a have i: "lw_thread w i = Some t" and l: "may_lock (owner (lw_mutexes w)) t (lw_locks w i)" by simp_all
  obtain m where m: "ul_mutex (lw_locks w i) = Some m" "owner (lw_mutexes w) m \<noteq> Some t" using not_owning [OF G i l] by blast
  show ?thesis
  proof (cases rule: lock_outcome [OF good_ok [OF G] t m(2)])
    case (2 s')
    then show ?thesis using set_taken [OF G i m(1) 2(1,3,4)] Use_lock m by (simp add: ul_Lock_def)
  qed (use Use_lock m in \<open>simp add: ul_Lock_def\<close>)
next
  case (Destroy_guard g)
  then obtain m where "lw_guards w g = Some (t, m)" using a by (auto split: option.splits)
  then show ?thesis unfolding Destroy_guard by (rule safe_Destroy_guard [OF G t])
qed (use a safe_Destroy [OF G t] safe_Move_assign [OF G t] safe_Use_swap [OF G] safe_Use_release [OF G] safe_New_adopted [OF G]
  safe_Use_unlock [OF G t] safe_Bare_lock [OF G t] safe_Bare_unlock [OF G t] safe_New_guard [OF G t] safe_New_try [OF G t]
  safe_Use_try_lock [OF G t] in \<open>(hypsubst, simp del: lock_exec.simps)+\<close>)

lemma run_good:
  assumes "lock_run L owner w0 w" and "lock_good ok owner w0"
  shows "lock_good ok owner w"
  using assms(1)
proof induction
  case (lock_run_step w t op sp w')
  then show ?case using exec_safe [of w t op sp] by simp
qed (use assms(2) in simp)

end

section \<open>\<open>std::mutex\<close>\<close>

text \<open>
  The code of an object, run by one thread alone until it is outside of the operation, \<open>n\<close> calls at most:
  no thread is parked on it, so that waking wakes nobody; \<open>None\<close> when it parks.
\<close>

fun drive :: "('pc, 'f, 'op) object \<Rightarrow> bool \<Rightarrow> tid \<Rightarrow> nat \<Rightarrow> ('pc, 'f) world \<Rightarrow> ('pc, 'f) world outcome" where
  "drive ob sp t 0 w = None"
| "drive ob sp t (Suc n) w = (case ob_call ob t (w_pc w t) of
     None \<Rightarrow> Some (Inr w)
   | Some (Call_Sync l op) \<Rightarrow> (case sync_spec sp op (w_value w l) of (a, v) \<Rightarrow>
       bindO (Some (ob_resume ob t a (w_pc w t) (w_fields w))) (\<lambda>pf. drive ob sp t n (go t pf (w\<lparr>w_value := (w_value w)(l := v)\<rparr>))))
   | Some (Call_Wait l old k timed) \<Rightarrow> if w_value w l = old then None
       else bindO (Some (ob_resume ob t No_Answer (w_pc w t) (w_fields w))) (\<lambda>pf. drive ob sp t n (go t pf w))
   | Some (Call_Wake l k) \<Rightarrow> bindO (Some (ob_resume ob t No_Answer (w_pc w t) (w_fields w))) (\<lambda>pf. drive ob sp t n (go t pf w))
   | Some Call_Expired \<Rightarrow> None)"

definition whole :: "('pc, 'f, 'op) object \<Rightarrow> bool \<Rightarrow> tid \<Rightarrow> 'op \<Rightarrow> ('pc, 'f) world \<Rightarrow> ('pc, 'f) world outcome" where
  "whole ob sp t op w = bindO (Some (ob_begin ob t op (w_pc w t) (w_fields w))) (\<lambda>pf. drive ob sp t 4 (go t pf w))"

definition mutex_lockable :: "(addr \<Rightarrow> (mutex_pc, mutex) world) lockable_ops" where
  "mutex_lockable = \<lparr>
     lk_lock = (\<lambda>t m s. bindO (whole mutex_object False t Do_lock (s m)) (\<lambda>x. Some (Inr (s(m := x))))),
     lk_try_lock = (\<lambda>sp t m s. bindO (whole mutex_object sp t Do_try_lock (s m)) (\<lambda>x. Some (Inr (w_pc x t = Inside, s(m := x))))),
     lk_unlock = (\<lambda>t m s. bindO (whole mutex_object False t Do_unlock (s m)) (\<lambda>x. Some (Inr (s(m := x)))))\<rparr>"

text \<open>Such runs are runs of the object, and every mutex is one that threads have used so.\<close>

lemma drive_run:
  assumes "lib_run ob w0 w" and "\<forall>u. w_mode w u = Going" and "drive ob sp t n w = Some (Inr w')"
  shows "lib_run ob w0 w' \<and> (\<forall>u. w_mode w' u = Going)"
  using assms
proof (induction ob sp t n w rule: drive.induct)
  case (1 ob sp t w)
  then show ?case by simp
next
  case (2 ob sp t n w)
  have g: "\<forall>u. w_mode (go t pf w) u = Going" "\<forall>u. w_mode (go t pf (w\<lparr>w_value := v\<rparr>)) u = Going" for pf v
    using 2(5) by (simp_all add: go_def)
  show ?case
  proof (cases "ob_call ob t (w_pc w t)")
    case None
    then show ?thesis using 2(4-6) by simp
  next
    case (Some c)
    show ?thesis
    proof (cases c)
      case (Call_Sync l op)
      obtain a v where av: "sync_spec sp op (w_value w l) = (a, v)" by fastforce
      then obtain pf where pf: "ob_resume ob t a (w_pc w t) (w_fields w) = Inr pf"
          "drive ob sp t n (go t pf (w\<lparr>w_value := (w_value w)(l := v)\<rparr>)) = Some (Inr w')"
        using 2(6) Some Call_Sync by (auto simp: bindO_eq_Inr)
      have "lib_step ob w (go t pf (w\<lparr>w_value := (w_value w)(l := v)\<rparr>))" using lib_sync [of w t ob l op sp a v pf] 2(5) Some Call_Sync av pf(1) by simp
      then show ?thesis using 2(1) [OF Some Call_Sync av [symmetric] _ g(2) pf(2)] run_step [OF 2(4)] by blast
    next
      case (Call_Wait l old k timed)
      then obtain pf where pf: "w_value w l \<noteq> old" "ob_resume ob t No_Answer (w_pc w t) (w_fields w) = Inr pf" "drive ob sp t n (go t pf w) = Some (Inr w')"
        using 2(6) Some by (auto simp: bindO_eq_Inr split: if_splits)
      have "lib_step ob w (set_mode t Back w)" using lib_pass [of w t ob l old k timed] 2(5) Some Call_Wait pf(1) by simp
      moreover have "lib_step ob (set_mode t Back w) (go t pf w)"
        using lib_back [of "set_mode t Back w" t ob pf] pf(2) by (simp add: set_mode_def go_def)
      ultimately have "lib_run ob w0 (go t pf w)" using 2(4) run_step by blast
      then show ?thesis using 2(2) [OF Some Call_Wait pf(1) _ g(1) pf(3)] by blast
    next
      case (Call_Wake l k)
      then obtain pf where pf: "ob_resume ob t No_Answer (w_pc w t) (w_fields w) = Inr pf" "drive ob sp t n (go t pf w) = Some (Inr w')"
        using 2(6) Some by (auto simp: bindO_eq_Inr)
      have "lib_step ob w (go t pf w)" using lib_wake_none [of w t ob l k pf] 2(5) Some Call_Wake pf(1) by simp
      then show ?thesis using 2(3) [OF Some Call_Wake _ g(1) pf(2)] run_step [OF 2(4)] by blast
    next
      case Call_Expired
      then show ?thesis using 2(6) Some by simp
    qed
  qed
qed

definition mutex_quiet :: "(mutex_pc, mutex) world \<Rightarrow> bool" where
  "mutex_quiet x \<longleftrightarrow> lib_run mutex_object mutex_world x \<and> (\<forall>u. w_mode x u = Going) \<and> (\<forall>u. w_pc x u = Outside \<or> w_pc x u = Inside)"

definition mutexes_quiet :: "(addr \<Rightarrow> (mutex_pc, mutex) world) \<Rightarrow> bool" where
  "mutexes_quiet s \<longleftrightarrow> (\<forall>m. mutex_quiet (s m))"

definition mutex_owners :: "(addr \<Rightarrow> (mutex_pc, mutex) world) \<Rightarrow> addr \<Rightarrow> tid option" where
  "mutex_owners s m = mx_owner (w_fields (s m))"

lemma mutex_quietD:
  assumes "mutex_quiet x"
  shows "w_mode x u = Going" and "mx_owner (w_fields x) = Some u \<longleftrightarrow> w_pc x u = Inside"
    and "w_pc x u \<noteq> Inside \<Longrightarrow> w_pc x u = Outside"
    and "w_value x locked_var = (if mx_owner (w_fields x) = None then Unlocked else Locked)" and "mx_contention (w_fields x) = 0"
proof -
  have I: "mutex_inv x" using assms mutex_class.inv_run by (simp add: mutex_quiet_def)
  show g: "w_mode x u = Going" and o: "w_pc x u \<noteq> Inside \<Longrightarrow> w_pc x u = Outside" using assms by (auto simp: mutex_quiet_def)
  show m: "mx_owner (w_fields x) = Some u \<longleftrightarrow> w_pc x u = Inside" for u using mutex_invD(3) [OF I] .
  have p: "w_pc x v = Outside \<or> w_pc x v = Inside" for v using assms by (simp add: mutex_quiet_def)
  have "mutex_held x v \<longleftrightarrow> mx_owner (w_fields x) = Some v" for v using m [of v] p [of v] by (auto simp: mutex_held_def)
  then show "w_value x locked_var = (if mx_owner (w_fields x) = None then Unlocked else Locked)" using mutex_invD(2) [OF I] by simp
  have "w_pc x v \<noteq> LockFutexWait" for v using p [of v] by auto
  then have "contending x = {}" by (simp add: contending_def)
  then show "mx_contention (w_fields x) = 0" using mutex_invD(6) [OF I] by simp
qed

text \<open>An operation that has run to its end leaves the mutex quiet.\<close>

lemma whole_quiet:
  assumes q: "mutex_quiet x" and t: "1 \<le> t \<and> t \<le> kMaxThreads" and r: "whole mutex_object sp t op x = Some (Inr y)"
    and b: "w_pc x t = Outside \<or> op = Do_unlock" and p: "\<And>u. w_pc y u = Outside \<or> w_pc y u = Inside"
  shows "mutex_quiet y"
proof -
  obtain pf where pf: "ob_begin mutex_object t op (w_pc x t) (w_fields x) = Inr pf" "drive mutex_object sp t 4 (go t pf x) = Some (Inr y)"
    using r by (auto simp: whole_def bindO_eq_Inr)
  have "lib_step mutex_object x (go t pf x)"
    using lib_begin [OF _ _ _ _ pf(1)] t mutex_quietD(1,3) [OF q, of t] by (cases "w_pc x t = Inside") (auto simp: mutex_object_def)
  then have "lib_run mutex_object mutex_world (go t pf x)" using q run_step by (auto simp: mutex_quiet_def)
  moreover have "\<forall>u. w_mode (go t pf x) u = Going" using q by (simp add: mutex_quiet_def go_def)
  ultimately show ?thesis using drive_run [OF _ _ pf(2)] p by (simp add: mutex_quiet_def)
qed

lemmas whole_simps = whole_def mutex_object_def numeral_eq_Suc go_def mutex_acquired_def owner_Lock_def

lemma whole_lock:
  assumes q: "mutex_quiet x" and t: "1 \<le> t \<and> t \<le> kMaxThreads" and n: "mx_owner (w_fields x) = None"
  shows "\<exists>y. whole mutex_object False t Do_lock x = Some (Inr y) \<and> mutex_quiet y \<and> mx_owner (w_fields y) = Some t"
proof -
  have pc: "w_pc x u = Outside" for u using mutex_quietD(2,3) [OF q, of u] n by auto
  have v: "w_value x locked_var = Unlocked" using mutex_quietD(4) [OF q] n by simp
  have "\<exists>y. whole mutex_object False t Do_lock x = Some (Inr y) \<and> w_pc y = (w_pc x)(t := Inside) \<and> mx_owner (w_fields y) = Some t"
    using pc v by (simp add: whole_simps)
  then show ?thesis using whole_quiet [OF q t] pc by fastforce
qed

lemma whole_lock_waits:
  assumes q: "mutex_quiet x" and n: "mx_owner (w_fields x) = Some u" "u \<noteq> t"
  shows "whole mutex_object False t Do_lock x = None"
proof -
  have "w_pc x t = Outside" using mutex_quietD(2,3) [OF q, of t] n by auto
  moreover have "w_value x locked_var = Locked" using mutex_quietD(4) [OF q] n by simp
  ultimately show ?thesis by (simp add: whole_simps)
qed

lemma whole_try_lock:
  assumes q: "mutex_quiet x" and t: "1 \<le> t \<and> t \<le> kMaxThreads" and n: "mx_owner (w_fields x) \<noteq> Some t"
  shows "\<exists>y. whole mutex_object sp t Do_try_lock x = Some (Inr y) \<and> mutex_quiet y \<and>
    (w_pc y t = Inside \<longleftrightarrow> mx_owner (w_fields x) = None \<and> \<not> sp) \<and>
    mx_owner (w_fields y) = (if mx_owner (w_fields x) = None \<and> \<not> sp then Some t else mx_owner (w_fields x))"
proof -
  let ?b = "mx_owner (w_fields x) = None \<and> \<not> sp"
  have pc: "w_pc x t = Outside" using mutex_quietD(2,3) [OF q, of t] n by auto
  have v: "Unlocked = w_value x locked_var \<longleftrightarrow> mx_owner (w_fields x) = None" using mutex_quietD(4) [OF q] by simp
  have "\<exists>y. whole mutex_object sp t Do_try_lock x = Some (Inr y) \<and> w_pc y = (w_pc x)(t := if ?b then Inside else Outside) \<and>
      mx_owner (w_fields y) = (if ?b then Some t else mx_owner (w_fields x))"
    using pc v by (simp add: whole_simps)
  then obtain y where y: "whole mutex_object sp t Do_try_lock x = Some (Inr y)" "w_pc y = (w_pc x)(t := if ?b then Inside else Outside)"
    "mx_owner (w_fields y) = (if ?b then Some t else mx_owner (w_fields x))" by blast
  have "mutex_quiet y" by (rule whole_quiet [OF q t y(1)]) (use pc y(2) mutex_quietD(3) [OF q] in auto)
  then show ?thesis using y by auto
qed

lemma whole_unlock:
  assumes q: "mutex_quiet x" and t: "1 \<le> t \<and> t \<le> kMaxThreads" and n: "mx_owner (w_fields x) = Some t"
  shows "\<exists>y. whole mutex_object False t Do_unlock x = Some (Inr y) \<and> mutex_quiet y \<and> mx_owner (w_fields y) = None"
proof -
  have "\<exists>y. whole mutex_object False t Do_unlock x = Some (Inr y) \<and> w_pc y = (w_pc x)(t := Outside) \<and> mx_owner (w_fields y) = None"
    using n mutex_quietD(5) [OF q] by (simp add: whole_simps owner_Unlock_def Own_def)
  then obtain y where y: "whole mutex_object False t Do_unlock x = Some (Inr y)" "w_pc y = (w_pc x)(t := Outside)" "mx_owner (w_fields y) = None"
    by blast
  have "mutex_quiet y" by (rule whole_quiet [OF q t y(1)]) (use y(2) mutex_quietD(3) [OF q] in auto)
  then show ?thesis using y by blast
qed

lemma mutexes_upd [simp]:
  "mutexes_quiet s \<Longrightarrow> mutex_quiet y \<Longrightarrow> mutexes_quiet (s(m := y))"
  "mutex_owners (s(m := y)) = (mutex_owners s)(m := mx_owner (w_fields y))"
  by (auto simp: mutexes_quiet_def mutex_owners_def)

interpretation mutex_locks: lockable mutex_lockable mutexes_quiet mutex_owners
proof (unfold_locales, goal_cases)
  case (1 s t m)
  then obtain y where "whole mutex_object False t Do_lock (s m) = Some (Inr y)" "mutex_quiet y" "mx_owner (w_fields y) = Some t"
    using whole_lock [of "s m" t] by (auto simp: mutexes_quiet_def mutex_owners_def)
  then show ?case using 1 by (intro exI [of _ "s(m := y)"]) (simp add: mutex_lockable_def)
next
  case (2 s t m u)
  then show ?case using whole_lock_waits [of "s m" u t] by (simp add: mutex_lockable_def mutexes_quiet_def mutex_owners_def)
next
  case (3 s t m sp)
  then obtain y where "whole mutex_object sp t Do_try_lock (s m) = Some (Inr y)" "mutex_quiet y"
      "w_pc y t = Inside \<longleftrightarrow> mutex_owners s m = None \<and> \<not> sp"
      "mx_owner (w_fields y) = (if mutex_owners s m = None \<and> \<not> sp then Some t else mutex_owners s m)"
    using whole_try_lock [of "s m" t sp] unfolding mutexes_quiet_def mutex_owners_def by blast
  then show ?case using 3 by (intro exI [of _ "w_pc y t = Inside"] exI [of _ "s(m := y)"]) (auto simp: mutex_lockable_def)
next
  case (4 s t m)
  then obtain y where "whole mutex_object False t Do_unlock (s m) = Some (Inr y)" "mutex_quiet y" "mx_owner (w_fields y) = None"
    using whole_unlock [of "s m" t] by (auto simp: mutexes_quiet_def mutex_owners_def)
  then show ?case using 4 by (intro exI [of _ "s(m := y)"]) (simp add: mutex_lockable_def)
qed

section \<open>Theorem\<close>

lemma new_locks_good: "lock_good mutexes_quiet mutex_owners (new_lock_world (\<lambda>_. mutex_world))"
proof -
  let ?w = "new_lock_world (\<lambda>_ :: addr. mutex_world)"
  have none: "\<not> holds_by ?w t m h" for t m h by (cases h) (simp_all add: new_lock_world_def)
  have "mutex_quiet mutex_world"
    by (simp add: mutex_quiet_def lib_run.run_start) (simp add: mutex_world_def new_world_def)
  then have "mutexes_quiet (lw_mutexes ?w)" by (simp add: mutexes_quiet_def new_lock_world_def)
  moreover have "mutex_owners (lw_mutexes ?w) m = None" for m
    by (simp add: mutex_owners_def new_lock_world_def mutex_world_def new_world_def new_mutex_def)
  then have "accounted (mutex_owners (lw_mutexes ?w)) ?w" using none unfolding accounted_def by simp
  moreover have "owners_set ?w" by (simp add: owners_set_def new_lock_world_def no_lock_def)
  ultimately show ?thesis by (simp add: lock_good_def)
qed

text \<open>
  C28: \<open>unique_lock\<close> and \<open>lock_guard\<close> account for every mutex. However threads create, move, assign, swap,
  adopt, release, lock, unlock and destroy locks and guards on mutexes, within the rules of C++: a mutex is held
  by a thread exactly when one lock or guard of that thread, and only one of all, says that it owns it, or the
  thread holds it without a lock; so a thread that has none left holds no mutex, and \<open>owns_lock\<close> is never
  wrong. The next operation of a thread does not fail; in particular no destructor or assignment unlocks a mutex that its
  thread does not hold. It waits only when another thread holds the mutex that it locks.
\<close>

theorem locks_account_for_mutexes:
  assumes "lock_run mutex_lockable mutex_owners (new_lock_world (\<lambda>_. mutex_world)) w"
    and "1 \<le> t" and "t \<le> kMaxThreads" and "lock_allowed (mutex_owners (lw_mutexes w)) t op w"
  shows "(\<forall>m u. w_pc (lw_mutexes w m) u = Inside \<longleftrightarrow> (\<exists>h. holds_by w u m h)) \<and>
    (\<forall>m u u' h h'. holds_by w u m h \<longrightarrow> holds_by w u' m h' \<longrightarrow> u = u' \<and> h = h') \<and>
    (case lock_exec mutex_lockable sp t op w of
       None \<Rightarrow> (\<exists>m u. waits_for op w = Some m \<and> u \<noteq> t \<and> w_pc (lw_mutexes w m) u = Inside)
     | Some r \<Rightarrow> (\<exists>w'. r = Inr w'))"
proof -
  have G: "lock_good mutexes_quiet mutex_owners w" using mutex_locks.run_good [OF assms(1) new_locks_good] .
  have pc: "w_pc (lw_mutexes w m) u = Inside \<longleftrightarrow> mutex_owners (lw_mutexes w) m = Some u" for m u
    using G mutex_quietD(2) [of "lw_mutexes w m" u] by (simp add: lock_good_def mutexes_quiet_def mutex_owners_def)
  have acc: "accounted (mutex_owners (lw_mutexes w)) w" using G by (simp add: lock_good_def)
  have "mutex_owners (lw_mutexes w) m = Some u \<longleftrightarrow> (\<exists>h. holds_by w u m h)" for m u using acc unfolding accounted_def by blast
  moreover have "u = u' \<and> h = h'" if "holds_by w u m h" "holds_by w u' m h'" for m u u' h h'
    using accounted_held [OF acc that(1)] accounted_held [OF acc that(2)] accounted_one [OF acc that] by simp
  moreover have "case lock_exec mutex_lockable sp t op w of
       None \<Rightarrow> (\<exists>m u. waits_for op w = Some m \<and> u \<noteq> t \<and> mutex_owners (lw_mutexes w) m = Some u) | Some r \<Rightarrow> (\<exists>w'. r = Inr w')"
    using mutex_locks.exec_safe [OF G _ assms(4), of sp] assms(2,3)
    by (cases "lock_exec mutex_lockable sp t op w") (auto split: sum.splits)
  ultimately show ?thesis unfolding pc by blast
qed

text \<open>A thread takes a mutex with one lock and moves it to another.\<close>

definition locked_mutex :: "(mutex_pc, mutex) world" where
  "locked_mutex = \<lparr>w_value = (\<lambda>_. Unlocked)(0 := Locked), w_fields = \<lparr>mx_contention = 0, mx_owner = Some 1\<rparr>,
     w_pc = (\<lambda>_. Outside)(1 := Inside), w_mode = (\<lambda>_. Going)\<rparr>"

definition moved_lock :: "(addr \<Rightarrow> (mutex_pc, mutex) world) lock_world" where
  "moved_lock = \<lparr>lw_mutexes = (\<lambda>_. mutex_world)(5 := locked_mutex), lw_locks = (\<lambda>_. no_lock)(1 := \<lparr>ul_mutex = Some 5, ul_owns = True\<rparr>),
     lw_thread = (\<lambda>_. None)(0 := Some 1, 1 := Some 1), lw_guards = (\<lambda>_. None), lw_bare = (\<lambda>_. None)\<rparr>"

lemma moved_lock_run: "lock_run mutex_lockable mutex_owners (new_lock_world (\<lambda>_. mutex_world)) moved_lock"
proof -
  let ?w0 = "new_lock_world (\<lambda>_ :: addr. mutex_world)"
  let ?w1 = "new_lock 0 1 ?w0 (\<lparr>ul_mutex = Some 5, ul_owns = True\<rparr>, (\<lambda>_. mutex_world)(5 := locked_mutex))"
  have "whole mutex_object False 1 Do_lock mutex_world = Some (Inr locked_mutex)"
    by (simp add: whole_simps mutex_world_def new_world_def locked_mutex_def new_mutex_def locked_var_def fun_upd_idem)
  then have s1: "lock_exec mutex_lockable False 1 (New_lock 0 5) ?w0 = Some (Inr ?w1)"
    by (simp add: ctor_lock_def mutex_lockable_def new_lock_world_def)
  have s2: "lock_exec mutex_lockable False 1 (New_moved 1 0) ?w1 = Some (Inr moved_lock)"
    by (simp add: new_lock_def new_lock_world_def moved_lock_def move_ctor_def Let_def no_lock_def fun_eq_iff)
  have a1: "lock_allowed (mutex_owners (lw_mutexes ?w0)) 1 (New_lock 0 5) ?w0"
    by (simp add: new_lock_world_def mutex_owners_def mutex_world_def new_world_def new_mutex_def)
  have a2: "lock_allowed (mutex_owners (lw_mutexes ?w1)) 1 (New_moved 1 0) ?w1" by (simp add: new_lock_def new_lock_world_def)
  have k: "1 \<le> (1 :: tid)" "(1 :: tid) \<le> kMaxThreads" by (simp_all add: kMaxThreads_def)
  have "lock_run mutex_lockable mutex_owners ?w0 ?w1" 
    using lock_run_step [of mutex_lockable mutex_owners ?w0 ?w0 1 _ False ?w1, OF lock_run_start k a1 s1] .
  then show ?thesis
    using lock_run_step [of mutex_lockable mutex_owners ?w0 ?w1 1 _ False moved_lock, OF _ k a2 s2] by blast
qed

theorem locks_account_for_mutexes_witness:
  "holds_by moved_lock 1 5 (By_lock 1) \<and> \<not> holds_by moved_lock 1 5 (By_lock 0) \<and> w_pc (lw_mutexes moved_lock 5) 1 = Inside \<and>
     lock_exec mutex_lockable False 2 (New_guard 0 5) moved_lock = None \<and>
     (\<exists>w'. lock_exec mutex_lockable False 1 (Move_assign 0 1) moved_lock = Some (Inr w'))"
proof -
  have a: "lock_allowed (mutex_owners (lw_mutexes moved_lock)) 2 (New_guard 0 5) moved_lock"
      "lock_allowed (mutex_owners (lw_mutexes moved_lock)) 1 (Move_assign 0 1) moved_lock"
    by (simp_all add: moved_lock_def mutex_owners_def locked_mutex_def)
  have h: "holds_by moved_lock 1 5 (By_lock 1)" by (simp add: moved_lock_def)
  have k: "1 \<le> (1 :: tid)" "(1 :: tid) \<le> kMaxThreads" "1 \<le> (2 :: tid)" "(2 :: tid) \<le> kMaxThreads" by (simp_all add: kMaxThreads_def)
  note T1 = locks_account_for_mutexes [OF moved_lock_run k(3,4) a(1), of False]
    and T2 = locks_account_for_mutexes [OF moved_lock_run k(1,2) a(2), of False]
  have "w_pc (lw_mutexes moved_lock 5) 1 = Inside" using T1 [THEN conjunct1] h by blast
  moreover have "holds_by moved_lock 1 5 (By_lock 0) \<Longrightarrow> By_lock 1 = By_lock 0"
    using T1 [THEN conjunct2, THEN conjunct1] h by blast
  then have "\<not> holds_by moved_lock 1 5 (By_lock 0)" by auto
  moreover have "\<exists>w'. lock_exec mutex_lockable False 1 (Move_assign 0 1) moved_lock = Some (Inr w')"
    using T2 [THEN conjunct2, THEN conjunct2]
    by (cases "lock_exec mutex_lockable False 1 (Move_assign 0 1) moved_lock") (simp_all del: lock_exec.simps)
  moreover have "whole mutex_object False 2 Do_lock locked_mutex = None" by (simp add: whole_simps locked_mutex_def locked_var_def)
  then have "lock_exec mutex_lockable False 2 (New_guard 0 5) moved_lock = None"
    by (simp add: ctor_lock_guard_def mutex_lockable_def moved_lock_def)
  ultimately show ?thesis using h by blast
qed

end
