(* ===== verification/Wait_Group.thy ===== *)
theory Wait_Group
  imports Lib_Machine
begin

text \<open>
  \<open>test::WaitGroup\<close> (\<open>rt/sim/user/test/wait_group.hpp\<close>, \<open>wait_group.cpp\<close>): a thread adds functions, starts a
  thread for each and waits for all of them. A step is what a thread does between two points where the
  scheduler may choose another: \<open>Spawn\<close> resumes its caller, and \<open>AtThreadExit\<close> is not preemptive
  (\<open>Nonpreemptive\<close>), so both run within one step. Source locations and the trace are left out.
\<close>

section \<open>The wait group\<close>

text \<open>
  The list of the user states, the last one added first: the index of the thread and its function.
  \<open>left_\<close> and \<open>done_\<close> are atomics.
\<close>

record 'f wait_group =
  wg_head :: "(nat \<times> 'f) list"
  wg_count :: u64
  wg_left :: u64
  wg_done :: word32

definition new_wait_group :: "'f wait_group" where
  "new_wait_group = \<lparr>wg_head = [], wg_count = 0, wg_left = 0, wg_done = 0\<rparr>"

definition wg_Add :: "'f \<Rightarrow> 'f wait_group \<Rightarrow> 'f wait_group" where
  "wg_Add fn wg = wg\<lparr>wg_head := (unat (wg_count wg), fn) # wg_head wg, wg_count := wg_count wg + 1\<rparr>"

fun wg_Add_many :: "nat \<Rightarrow> 'f \<Rightarrow> 'f wait_group \<Rightarrow> 'f wait_group" where
  "wg_Add_many 0 fn wg = wg"
| "wg_Add_many (Suc n) fn wg = wg_Add_many n fn (wg_Add fn wg)"

definition filled :: "'f list \<Rightarrow> 'f wait_group" where
  "filled fns = fold wg_Add fns new_wait_group"

section \<open>Its threads\<close>

text \<open>
  A thread that has exited has deleted its state. The place of the thread in \<open>Join\<close> is before its first
  store, parked on \<open>done_\<close>, or before the load of \<open>done_\<close>.
\<close>

datatype 'f wg_thread = Not_spawned | Spawned 'f | Gone

datatype join_pc = Join_call | Join_store | Join_parked | Join_load | Joined

record 'f wg_world =
  ww_group :: "'f wait_group"
  ww_threads :: "nat \<Rightarrow> 'f wg_thread"
  ww_join :: join_pc

definition wg_start :: "'f list \<Rightarrow> 'f wg_world" where
  "wg_start fns = \<lparr>ww_group = filled fns, ww_threads = (\<lambda>_. Not_spawned), ww_join = Join_call\<rparr>"

text \<open>\<open>Join\<close> up to its store, which it skips when there is nothing to wait for.\<close>

definition join_begin :: "'f wait_group \<Rightarrow> join_pc" where
  "join_begin wg = (if wg_count wg = 0 then Joined else Join_store)"

text \<open>The loop over the states, which reads the next one after the thread of the first has been spawned.\<close>

fun spawn_loop :: "(nat \<times> 'f) list \<Rightarrow> (nat \<Rightarrow> 'f wg_thread) \<Rightarrow> fault + (nat \<Rightarrow> 'f wg_thread)" where
  "spawn_loop [] ts = Inr ts"
| "spawn_loop ((i, fn) # s) ts =
     bindE (verify (ts i \<noteq> Gone) (Panic ''undefined behaviour'')) (\<lambda>_. spawn_loop s (ts(i := Spawned fn)))"

definition join_wait :: "'f wait_group \<Rightarrow> join_pc" where
  "join_wait wg = (if wg_done wg = 0 then Join_parked else Join_load)"

text \<open>After the store: spawn, then the first wait. After a load: leave, or wait again.\<close>

definition join_stored :: "'f wg_world \<Rightarrow> fault + 'f wg_world" where
  "join_stored w = (let wg = (ww_group w)\<lparr>wg_left := wg_count (ww_group w)\<rparr>
     in bindE (spawn_loop (wg_head wg) (ww_threads w)) (\<lambda>ts. Inr \<lparr>ww_group = wg, ww_threads = ts, ww_join = join_wait wg\<rparr>))"

definition join_loaded :: "'f wait_group \<Rightarrow> join_pc" where
  "join_loaded wg = (if wg_done wg \<noteq> 1 then join_wait wg else Joined)"

text \<open>\<open>AtThreadExit\<close>: the last thread reports, and wakes.\<close>

definition AtThreadExit :: "'f wait_group \<Rightarrow> 'f wait_group \<times> bool" where
  "AtThreadExit wg = (let wg1 = wg\<lparr>wg_left := wg_left wg - 1\<rparr>
     in if wg_left wg = 1 then (wg1\<lparr>wg_done := 1\<rparr>, True) else (wg1, False))"

definition thread_exit :: "nat \<Rightarrow> 'f wg_world \<Rightarrow> 'f wg_world" where
  "thread_exit i w = (case AtThreadExit (ww_group w) of (wg, wake) \<Rightarrow>
     w\<lparr>ww_group := wg, ww_threads := (ww_threads w)(i := Gone),
       ww_join := if wake \<and> ww_join w = Join_parked then Join_load else ww_join w\<rparr>)"

inductive wg_step :: "'f wg_world \<Rightarrow> 'f wg_world \<Rightarrow> bool" where
  wg_begin: "ww_join w = Join_call \<Longrightarrow> wg_step w (w\<lparr>ww_join := join_begin (ww_group w)\<rparr>)"
| wg_store: "ww_join w = Join_store \<Longrightarrow> join_stored w = Inr w' \<Longrightarrow> wg_step w w'"
| wg_load: "ww_join w = Join_load \<Longrightarrow> wg_step w (w\<lparr>ww_join := join_loaded (ww_group w)\<rparr>)"
| wg_exit: "ww_threads w i = Spawned fn \<Longrightarrow> wg_step w (thread_exit i w)"

inductive wg_run :: "'f wg_world \<Rightarrow> nat \<Rightarrow> 'f wg_world \<Rightarrow> bool" for w where
  wg_run_start: "wg_run w 0 w"
| wg_run_step: "wg_run w n w1 \<Longrightarrow> wg_step w1 w2 \<Longrightarrow> wg_run w (Suc n) w2"

section \<open>Adding\<close>

lemma Add_many_fold: "wg_Add_many n fn wg = fold wg_Add (replicate n fn) wg"
  by (induction n arbitrary: wg) simp_all

lemma fold_Add_same: "wg_left (fold wg_Add fns wg) = wg_left wg" "wg_done (fold wg_Add fns wg) = wg_done wg"
  "wg_count (fold wg_Add fns wg) = wg_count wg + of_nat (length fns)"
  by (induction fns arbitrary: wg) (simp_all add: wg_Add_def)

lemma filled_simps [simp]: "wg_left (filled fns) = 0" "wg_done (filled fns) = 0" "wg_count (filled fns) = of_nat (length fns)"
  by (simp_all add: filled_def fold_Add_same new_wait_group_def)

lemma filled_head: "length fns < 2 ^ 64 \<Longrightarrow> wg_head (filled fns) = rev (zip [0..<length fns] fns)"
proof (induction fns rule: rev_induct)
  case Nil
  then show ?case by (simp add: filled_def new_wait_group_def)
next
  case (snoc f fns)
  have "unat (of_nat (length fns) :: u64) = length fns" using snoc(2) by (simp add: unat_of_nat)
  then have "wg_head (filled (fns @ [f])) = (length fns, f) # wg_head (filled fns)"
    using filled_simps(3) [of fns] by (simp add: filled_def wg_Add_def)
  then show ?case using snoc by simp
qed

section \<open>The invariant\<close>

lemma spawn_loop_fresh:
  "distinct (map fst s) \<Longrightarrow> \<forall>i \<in> fst ` set s. ts i \<noteq> Gone \<Longrightarrow>
     spawn_loop s ts = Inr (\<lambda>i. case map_of s i of None \<Rightarrow> ts i | Some fn \<Rightarrow> Spawned fn)"
proof (induction s arbitrary: ts)
  case (Cons x s)
  obtain i fn where x: "x = (i, fn)" by fastforce
  have i: "map_of s i = None" using Cons.prems(1) x by (simp add: map_of_eq_None_iff)
  have "spawn_loop s (ts(i := Spawned fn)) = Inr (\<lambda>j. case map_of s j of None \<Rightarrow> (ts(i := Spawned fn)) j | Some fn \<Rightarrow> Spawned fn)"
    by (rule Cons.IH) (use Cons.prems x in auto)
  then show ?case using Cons.prems(2) x i by (auto simp: fun_eq_iff split: option.splits)
qed simp

definition gone :: "'f wg_world \<Rightarrow> nat set" where
  "gone w = {i. ww_threads w i = Gone}"

definition wg_inv :: "'f list \<Rightarrow> 'f wg_world \<Rightarrow> bool" where
  "wg_inv fns w \<longleftrightarrow> wg_head (ww_group w) = rev (zip [0..<length fns] fns) \<and> wg_count (ww_group w) = of_nat (length fns) \<and>
     (if ww_join w = Join_call \<or> ww_join w = Join_store \<or> fns = []
      then ww_threads w = (\<lambda>_. Not_spawned) \<and> wg_done (ww_group w) = 0 \<and>
        (fns = [] \<longrightarrow> ww_join w = Join_call \<or> ww_join w = Joined)
      else (\<forall>i. if i < length fns then ww_threads w i = Gone \<or> ww_threads w i = Spawned (fns ! i) else ww_threads w i = Not_spawned) \<and>
        wg_left (ww_group w) = of_nat (length fns - card (gone w)) \<and>
        wg_done (ww_group w) = (if card (gone w) = length fns then 1 else 0) \<and>
        (ww_join w = Join_parked \<longleftrightarrow> card (gone w) < length fns))"

lemma wg_inv_start: "length fns < 2 ^ 64 \<Longrightarrow> wg_inv fns (wg_start fns)"
  by (simp add: wg_inv_def wg_start_def filled_head)

text \<open>The first slice of \<open>Join\<close> spawns every thread once, with its index and function.\<close>

lemma map_of_indexed: "map_of (rev (zip [0..<length fns] fns)) i = (if i < length fns then Some (fns ! i) else None)"
proof (cases "i < length fns")
  case True
  have d: "distinct (map fst (rev (zip [0..<length fns] fns)))" by (simp flip: rev_map)
  have "(i, fns ! i) \<in> set (rev (zip [0..<length fns] fns))" using True by (auto simp: set_zip intro!: exI [of _ i])
  then show ?thesis using True d by simp
next
  case False
  then show ?thesis by (auto simp: map_of_eq_None_iff set_zip)
qed

lemma join_stored_inv:
  assumes I: "wg_inv fns w" and j: "ww_join w = Join_store"
  shows "\<exists>w'. join_stored w = Inr w' \<and> wg_inv fns w' \<and> ww_join w' = Join_parked \<and> gone w' = {}"
proof -
  have h: "wg_head (ww_group w) = rev (zip [0..<length fns] fns)" "ww_threads w = (\<lambda>_. Not_spawned)" "wg_done (ww_group w) = 0"
      "wg_count (ww_group w) = of_nat (length fns)" "fns \<noteq> []"
    using I j by (auto simp: wg_inv_def)
  have s: "spawn_loop (wg_head (ww_group w)) (ww_threads w) = Inr (\<lambda>i. if i < length fns then Spawned (fns ! i) else Not_spawned)"
    unfolding h(1) by (subst spawn_loop_fresh) (auto simp: h(2) map_of_indexed fun_eq_iff simp flip: rev_map)
  show ?thesis
    using h s by (auto simp: join_stored_def join_wait_def wg_inv_def gone_def Let_def)
qed

lemma gone_thread_exit: "gone (thread_exit i w) = insert i (gone w)"
  by (auto simp: gone_def thread_exit_def split: prod.splits)

lemma thread_exit_inv:
  assumes n: "length fns < 2 ^ 64" and I: "wg_inv fns w" and i: "ww_threads w i = Spawned fn"
  shows "wg_inv fns (thread_exit i w)"
proof -
  have late: "\<not> (ww_join w = Join_call \<or> ww_join w = Join_store \<or> fns = [])" using I i by (auto simp: wg_inv_def split: if_splits)
  then have D: "\<And>i. if i < length fns then ww_threads w i = Gone \<or> ww_threads w i = Spawned (fns ! i) else ww_threads w i = Not_spawned"
      "wg_left (ww_group w) = of_nat (length fns - card (gone w))" "wg_done (ww_group w) = (if card (gone w) = length fns then 1 else 0)"
      "ww_join w = Join_parked \<longleftrightarrow> card (gone w) < length fns"
    using I unfolding wg_inv_def by auto
  have il: "i < length fns" using D(1) [of i] i by (auto split: if_splits)
  have ig: "i \<notin> gone w" using i by (simp add: gone_def)
  have sub: "gone w \<subseteq> {..<length fns}"
  proof
    fix j assume "j \<in> gone w"
    then show "j \<in> {..<length fns}" using D(1) [of j] by (auto simp: gone_def split: if_splits)
  qed
  then have fin: "finite (gone w)" by (rule finite_subset) simp
  have lt: "card (gone w) < length fns" using sub il ig psubset_card_mono [of "{..<length fns}" "gone w"] by auto
  have c: "card (gone (thread_exit i w)) = Suc (card (gone w))" using fin ig by (simp add: gone_thread_exit)
  define k where "k = length fns - card (gone w)"
  have k: "0 < k" "k < 2 ^ 64" "length fns - Suc (card (gone w)) = k - 1" "Suc (card (gone w)) = length fns \<longleftrightarrow> k = 1"
    using lt n by (auto simp: k_def)
  have "unat (of_nat k :: u64) = k" using k(2) by (simp add: unat_of_nat)
  then have one: "(of_nat k :: u64) = 1 \<longleftrightarrow> k = 1" by (metis of_nat_1 unat_1)
  have minus: "(of_nat k - 1 :: u64) = of_nat (k - 1)" using k(1) by (simp add: of_nat_diff)
  have left: "wg_left (ww_group w) = of_nat k" using D(2) by (simp add: k_def)
  show ?thesis
  proof (cases "k = 1")
    case True
    then show ?thesis using D late I lt il i c k left k_def
      by (auto simp: wg_inv_def thread_exit_def AtThreadExit_def Let_def)
  next
    case False
    then show ?thesis using D late I lt il i c k left one minus
      by (auto simp: wg_inv_def thread_exit_def AtThreadExit_def Let_def)
  qed
qed

fun join_phase :: "join_pc \<Rightarrow> nat" where
  "join_phase Join_call = 0"
| "join_phase Join_store = 1"
| "join_phase Joined = 3"
| "join_phase _ = 2"

lemma wg_inv_late:
  assumes "wg_inv fns w" and "ww_join w \<noteq> Join_call" and "ww_join w \<noteq> Join_store" and "fns \<noteq> []"
  shows "ww_join w = Join_parked \<longleftrightarrow> card (gone w) < length fns" and "wg_done (ww_group w) = (if card (gone w) = length fns then 1 else 0)"
    and "i < length fns \<Longrightarrow> ww_threads w i = Gone \<or> ww_threads w i = Spawned (fns ! i)"
  using assms by (simp_all add: wg_inv_def)

lemma wg_inv_nothing: "wg_inv [] w \<Longrightarrow> ww_join w = Join_call \<or> ww_join w = Joined"
  by (simp add: wg_inv_def)

lemma wg_invD:
  assumes "wg_inv fns w"
  shows "ww_threads w i = Spawned fn \<Longrightarrow> i < length fns \<and> fn = fns ! i"
    and "gone w \<subseteq> {..<length fns}"
    and "ww_join w = Join_parked \<Longrightarrow> card (gone w) < length fns"
    and "ww_join w = Join_load \<Longrightarrow> wg_done (ww_group w) = 1"
    and "ww_join w = Joined \<Longrightarrow> gone w = {..<length fns}"
proof -
  have t: "ww_threads w i = Gone \<or> ww_threads w i = Spawned (fns ! i) \<or> ww_threads w i = Not_spawned" "ww_threads w i \<noteq> Not_spawned \<Longrightarrow> i < length fns" for i
    using assms by (auto simp: wg_inv_def split: if_splits)
  show "ww_threads w i = Spawned fn \<Longrightarrow> i < length fns \<and> fn = fns ! i" using t [of i] by auto
  show sub: "gone w \<subseteq> {..<length fns}" using t(2) by (auto simp: gone_def)
  have c: "card (gone w) \<le> length fns" using card_mono [OF _ sub] by simp
  show "ww_join w = Join_parked \<Longrightarrow> card (gone w) < length fns"
    using wg_inv_late(1) [OF assms] wg_inv_nothing [of w] assms by (cases "fns = []") auto
  show "ww_join w = Join_load \<Longrightarrow> wg_done (ww_group w) = 1"
    using wg_inv_late(1,2) [OF assms] wg_inv_nothing [of w] assms c by (cases "fns = []") auto
  show "gone w = {..<length fns}" if "ww_join w = Joined"
  proof (rule card_subset_eq [OF _ sub])
    show "card (gone w) = card {..<length fns}" using wg_inv_late(1) [OF assms] c that by (cases "fns = []") auto
  qed simp
qed

lemma wg_inv_join:
  assumes I: "wg_inv fns w" and n: "length fns < 2 ^ 64"
  shows "ww_join w = Join_call \<Longrightarrow> wg_inv fns (w\<lparr>ww_join := join_begin (ww_group w)\<rparr>)"
    and "ww_join w = Join_load \<Longrightarrow> wg_inv fns (w\<lparr>ww_join := Joined\<rparr>) \<and> join_loaded (ww_group w) = Joined"
proof -
  have "unat (of_nat (length fns) :: u64) = length fns" using n by (simp add: unat_of_nat)
  then have z: "(of_nat (length fns) :: u64) = 0 \<longleftrightarrow> fns = []" using unat_eq_0 [of "of_nat (length fns) :: u64"] by simp
  show "ww_join w = Join_call \<Longrightarrow> wg_inv fns (w\<lparr>ww_join := join_begin (ww_group w)\<rparr>)"
    using I z by (auto simp: wg_inv_def join_begin_def)
  assume j: "ww_join w = Join_load"
  then have "wg_done (ww_group w) = 1" using wg_invD(4) [OF I] by simp
  then have l: "join_loaded (ww_group w) = Joined" by (simp add: join_loaded_def)
  have "gone (w\<lparr>ww_join := Joined\<rparr>) = gone w" by (simp add: gone_def)
  then show "wg_inv fns (w\<lparr>ww_join := Joined\<rparr>) \<and> join_loaded (ww_group w) = Joined"
    using I j l by (auto simp: wg_inv_def)
qed

text \<open>Every step is progress.\<close>

lemma wg_step_inv:
  assumes s: "wg_step w w'" and I: "wg_inv fns w" and n: "length fns < 2 ^ 64"
  shows "wg_inv fns w' \<and> card (gone w) + join_phase (ww_join w) < card (gone w') + join_phase (ww_join w')"
  using s
proof cases
  case wg_begin
  have "gone w' = gone w" using wg_begin by (simp add: gone_def)
  then show ?thesis using wg_begin wg_inv_join(1) [OF I n] by (simp add: join_begin_def)
next
  case wg_store
  then obtain x where "join_stored w = Inr x" "wg_inv fns x" "ww_join x = Join_parked" "gone x = {}" using join_stored_inv [OF I] by blast
  moreover have "gone w = {}" using I wg_store(1) by (auto simp: wg_inv_def gone_def)
  ultimately show ?thesis using wg_store by simp
next
  case wg_load
  have "gone w' = gone w" using wg_load by (simp add: gone_def)
  then show ?thesis using wg_load(1) wg_inv_join(2) [OF I n wg_load(2)] wg_load(2) by simp
next
  case (wg_exit i fn)
  have "finite (gone w)" using wg_invD(2) [OF I] by (rule finite_subset) simp
  moreover have "i \<notin> gone w" using wg_exit by (simp add: gone_def)
  moreover have "join_phase (ww_join w) \<le> join_phase (ww_join w')" using wg_exit(1) by (auto simp: thread_exit_def split: prod.splits)
  ultimately show ?thesis using wg_exit thread_exit_inv [OF n I wg_exit(2)] by (simp add: gone_thread_exit)
qed

lemma wg_run_inv:
  assumes "wg_run (wg_start fns) n w" and "length fns < 2 ^ 64"
  shows "wg_inv fns w \<and> n \<le> card (gone w) + join_phase (ww_join w)"
  using assms(1)
proof induction
  case wg_run_start
  then show ?case using wg_inv_start [OF assms(2)] by simp
next
  case (wg_run_step n w1 w2)
  then show ?case using wg_step_inv [of w1 w2 fns] assms(2) by simp
qed

section \<open>Theorem\<close>

text \<open>
  C29: \<open>WaitGroup::Join\<close> waits for all and returns. Each function that was added runs in a thread of its own, with its
  index; when \<open>Join\<close> returns, all these threads have exited; while it is parked, one of them still runs, so its wakeup is
  not lost although only the last one wakes it; the loop that spawns the threads reads no state that a
  thread has deleted; no run has more steps than there are functions, plus three for \<open>Join\<close>, and a run in which no
  thread can go on has returned from \<open>Join\<close>. It holds for every order in which the threads exit.
\<close>

theorem wait_group_joins:
  assumes "wg_run (wg_start fns) n w" and "length fns < 2 ^ 64"
  shows "(\<forall>i fn. ww_threads w i = Spawned fn \<longrightarrow> i < length fns \<and> fn = fns ! i) \<and>
    (ww_join w = Joined \<longrightarrow> (\<forall>i < length fns. ww_threads w i = Gone)) \<and>
    (ww_join w = Join_parked \<longrightarrow> (\<exists>i < length fns. ww_threads w i = Spawned (fns ! i))) \<and>
    (ww_join w = Join_store \<longrightarrow> (\<exists>w'. join_stored w = Inr w')) \<and>
    n \<le> length fns + 3 \<and> ((\<nexists>w'. wg_step w w') \<longrightarrow> ww_join w = Joined)"
proof -
  have I: "wg_inv fns w" and b: "n \<le> card (gone w) + join_phase (ww_join w)" using wg_run_inv [OF assms] by simp_all
  have c: "card (gone w) \<le> length fns" using card_mono [OF _ wg_invD(2) [OF I]] by simp
  moreover have "join_phase (ww_join w) \<le> 3" by (cases "ww_join w") simp_all
  ultimately have n: "n \<le> length fns + 3" using b by linarith
  have st: "\<exists>w'. join_stored w = Inr w'" if "ww_join w = Join_store" using join_stored_inv [OF I that] by blast
  have parked: "\<exists>i < length fns. ww_threads w i = Spawned (fns ! i)" if p: "ww_join w = Join_parked"
  proof -
    have "card (gone w) \<noteq> card {..<length fns}" using wg_invD(3) [OF I p] by simp
    then have "gone w \<subset> {..<length fns}" using wg_invD(2) [OF I] by (metis psubsetI)
    then obtain i where "i \<in> {..<length fns} - gone w" using psubset_imp_ex_mem by blast
    then have i: "i < length fns" "i \<notin> gone w" by simp_all
    moreover have "ww_threads w i = Gone \<or> ww_threads w i = Spawned (fns ! i)"
      by (rule wg_inv_late(3) [OF I]) (use p i in auto)
    ultimately show ?thesis using i by (auto simp: gone_def)
  qed
  have "ww_join w = Joined" if "\<nexists>w'. wg_step w w'"
  proof (cases "ww_join w")
    case Join_call
    then show ?thesis using that wg_begin by blast
  next
    case Join_store
    then show ?thesis using that st wg_store by blast
  next
    case Join_parked
    then obtain i where "ww_threads w i = Spawned (fns ! i)" using parked by blast
    then have "wg_step w (thread_exit i w)" by (rule wg_exit)
    then show ?thesis using that by blast
  next
    case Join_load
    then show ?thesis using that wg_load by blast
  qed
  moreover have "\<forall>i < length fns. ww_threads w i = Gone" if "ww_join w = Joined" using wg_invD(5) [OF I that] by (auto simp: gone_def)
  moreover have "i < length fns \<and> fn = fns ! i" if "ww_threads w i = Spawned fn" for i fn using wg_invD(1) [OF I that] .
  ultimately show ?thesis using n st parked by blast
qed

text \<open>Two functions; the second thread exits first.\<close>

definition two_joined :: "string wg_world" where
  "two_joined = \<lparr>ww_group = \<lparr>wg_head = [(1, ''b''), (0, ''a'')], wg_count = 2, wg_left = 0, wg_done = 1\<rparr>,
     ww_threads = (\<lambda>_. Not_spawned)(0 := Gone, 1 := Gone), ww_join = Joined\<rparr>"

lemma two_joined_run: "wg_run (wg_start [''a'', ''b'']) 5 two_joined"
proof -
  let ?w0 = "wg_start [''a'', ''b'']"
  let ?w1 = "?w0\<lparr>ww_join := Join_store\<rparr>"
  let ?w2 = "\<lparr>ww_group = (ww_group ?w0)\<lparr>wg_left := 2\<rparr>,
    ww_threads = (\<lambda>_. Not_spawned)(0 := Spawned ''a'', 1 := Spawned ''b''), ww_join = Join_parked\<rparr>"
  let ?w3 = "thread_exit 1 ?w2" and ?w4 = "thread_exit 0 (thread_exit 1 ?w2)"
  note defs = wg_start_def filled_def wg_Add_def new_wait_group_def thread_exit_def AtThreadExit_def Let_def
  have s1: "wg_step ?w0 ?w1" using wg_begin [of ?w0] by (simp add: defs join_begin_def)
  have s2: "wg_step ?w1 ?w2" by (rule wg_store) (simp_all add: defs join_stored_def join_wait_def fun_upd_twist)
  have s3: "wg_step ?w2 ?w3" by (rule wg_exit [where fn = "''b''"]) simp
  have s4: "wg_step ?w3 ?w4" by (rule wg_exit [where fn = "''a''"]) (simp add: defs)
  have s5: "wg_step ?w4 two_joined" using wg_load [of ?w4] by (simp add: defs two_joined_def join_loaded_def fun_upd_twist)
  have "wg_run ?w0 (Suc (Suc (Suc (Suc (Suc 0))))) two_joined"
    by (rule wg_run_step [OF wg_run_step [OF wg_run_step [OF wg_run_step [OF wg_run_step [OF wg_run_start s1] s2] s3] s4] s5])
  then show ?thesis by (simp add: numeral_eq_Suc)
qed

theorem wait_group_joins_witness:
  "ww_join two_joined = Joined \<and> ww_threads two_joined 0 = Gone \<and> ww_threads two_joined 1 = Gone \<and> (5 :: nat) \<le> 2 + 3"
proof -
  have j: "ww_join two_joined = Joined" by (simp add: two_joined_def)
  have "\<forall>i < length [''a'', ''b'']. ww_threads two_joined i = Gone" "5 \<le> length [''a'', ''b''] + 3"
    using wait_group_joins [OF two_joined_run] j by simp_all
  then show ?thesis using j by simp
qed

end
