(* ===== verification/Lock_Races.thy ===== *)
theory Lock_Races
  imports Shared_Mutex_Lib
begin

text \<open>
  Objects of the user library driven on the memory model: each operation on an atomic is carried out by
  \<open>sync_run\<close>, and user code writes plain variables between them. With it, a run in which the memory orders of
  \<open>std::shared_mutex\<close> are not enough for the data that it guards.
\<close>

section \<open>Driving an object\<close>

datatype 'op drive_step = Drive_begin tid 'op | Drive_sync tid | Drive_write tid addr

record ('pc, 'f) driven =
  dr_pc :: "tid \<Rightarrow> 'pc"
  dr_fields :: 'f
  dr_sys :: sync_sys

text \<open>A race aborts the iteration, as in \<open>_SysAccessNonAtomicVar\<close>.\<close>

fun drive1 :: "('pc, 'f, 'op) object \<Rightarrow> 'op drive_step \<Rightarrow> ('pc, 'f) driven \<Rightarrow> fault + ('pc, 'f) driven" where
  "drive1 ob (Drive_begin t op) d =
     bindE (ob_begin ob t op (dr_pc d t) (dr_fields d)) (\<lambda>(pc, f). Inr (d\<lparr>dr_pc := (dr_pc d)(t := pc), dr_fields := f\<rparr>))"
| "drive1 ob (Drive_sync t) d =
     (case ob_call ob t (dr_pc d t) of
        Some (Call_Sync l op) \<Rightarrow>
          bindE (sync_run False op t l (dr_sys d)) (\<lambda>(a, s).
          bindE (ob_resume ob t a (dr_pc d t) (dr_fields d)) (\<lambda>(pc, f).
          Inr (d\<lparr>dr_pc := (dr_pc d)(t := pc), dr_fields := f, dr_sys := s\<rparr>)))
      | _ \<Rightarrow> Inl (Panic ''no such call''))"
| "drive1 ob (Drive_write t l) d =
     bindE (sys_access t \<lparr>acc_loc = l, acc_type = AccWrite, acc_source_loc = []\<rparr> (dr_sys d)) (\<lambda>(race, s).
     if race = None then Inr (d\<lparr>dr_sys := s\<rparr>) else Inl (SysAbortEx DataRace))"

fun drive :: "('pc, 'f, 'op) object \<Rightarrow> 'op drive_step list \<Rightarrow> ('pc, 'f) driven \<Rightarrow> fault + ('pc, 'f) driven" where
  "drive ob [] d = Inr d"
| "drive ob (x # xs) d = bindE (drive1 ob x d) (drive ob xs)"

text \<open>Thread 1 creates the object, whose atomic is at 0, and a plain variable at 32, and spawns thread 2.\<close>

definition two_threads :: "fault + sync_sys" where
  "two_threads =
     bindE (atomic_Init 1 0 (0 :: word32) sync_init) (\<lambda>s1.
     bindE (sys_access 1 \<lparr>acc_loc = 32, acc_type = AccInit, acc_source_loc = []\<rparr> s1) (\<lambda>(_, s2). sys_spawn 1 s2))"

definition drive_two :: "('pc, 'f, 'op) object \<Rightarrow> 'pc \<Rightarrow> 'f \<Rightarrow> 'op drive_step list \<Rightarrow> fault + ('pc, 'f) driven" where
  "drive_two ob pc f xs = bindE two_threads (\<lambda>s. drive ob xs \<lparr>dr_pc = (\<lambda>_. pc), dr_fields = f, dr_sys = s\<rparr>)"

section \<open>A race that is none\<close>

text \<open>
  Thread 1 has loaded the state when thread 2 takes the mutex, writes the variable and releases; then the
  exchange of thread 1 finds the state it has loaded.
\<close>

definition shared_contention :: "shared_op drive_step list" where
  "shared_contention = [Drive_begin 1 Sh_lock, Drive_sync 1, Drive_begin 2 Sh_lock, Drive_sync 2, Drive_sync 2, Drive_write 2 32,
     Drive_begin 2 Sh_unlock, Drive_sync 2, Drive_sync 1]"

definition mutex_contention :: "lock_op drive_step list" where
  "mutex_contention = [Drive_begin 1 Do_lock, Drive_begin 2 Do_lock, Drive_sync 2, Drive_write 2 32,
     Drive_begin 2 Do_unlock, Drive_sync 2, Drive_sync 1]"

text \<open>Where the two threads are, or how the run ended.\<close>

definition places :: "fault + ('pc, 'f) driven \<Rightarrow> fault + 'pc \<times> 'pc" where
  "places r = bindE r (\<lambda>d. Inr (dr_pc d 1, dr_pc d 2))"

lemmas drive_defs = places_def drive_two_def two_threads_def mem_defs sync_defs atomic_Init_def ToRepr_def ToValue_def
  atomic_exchange_def base_store_def atomic_load_def CompareExchangeSimple_def compare_exchange_strong_def BitwiseEqual_def
  CompareExchangeSpuriousFailure_def IsWeak_def mutex_object_def shared_object_def locked_var_def state_var_def mutex_acquired_def
  Locked_def Unlocked_def new_mutex_def owner_Lock_def owner_Unlock_def Own_def verify_def Pack_def Unpack_def

text \<open>
  C23: \<open>shared_mutex\<close> does not order what it guards. \<open>Lock\<close> loads the state with \<open>acquire\<close>, but takes the
  mutex with a relaxed exchange; when another writer has locked and released in between, the exchange
  succeeds without synchronizing with that release. The race detector then reports a data race between two
  critical sections of the same mutex. With \<open>std::mutex\<close>, whose exchange acquires, the same run has no race.
\<close>

theorem shared_mutex_false_race:
  "places (drive_two shared_object S_Outside None shared_contention) = Inr (S_Writer, W_UnlockWake) \<and>
   places (drive_two shared_object S_Outside None (shared_contention @ [Drive_write 1 32])) = Inl (SysAbortEx DataRace) \<and>
   places (drive_two mutex_object Outside new_mutex (mutex_contention @ [Drive_write 1 32])) = Inr (Inside, Outside)"
proof (intro conjI)
  show "places (drive_two shared_object S_Outside None shared_contention) = Inr (S_Writer, W_UnlockWake)"
    by (simp add: drive_defs shared_contention_def upt_rec)
  show "places (drive_two shared_object S_Outside None (shared_contention @ [Drive_write 1 32])) = Inl (SysAbortEx DataRace)"
    by (simp add: drive_defs shared_contention_def upt_rec)
  show "places (drive_two mutex_object Outside new_mutex (mutex_contention @ [Drive_write 1 32])) = Inr (Inside, Outside)"
    by (simp add: drive_defs mutex_contention_def upt_rec)
qed

end
