(* ===== verification/Spec2Isabelle.thy ===== *)
theory Spec2Isabelle
  imports Prelude Sim_Types Timers Sim_Time Random_Base Vector_Clock Memory_Model Happens_Before
    Race_Detector Scheduler Link_Queues Sched_Client Random_Scheduler Pct_Scheduler Coop_Scheduler
    Dfs_Scheduler Replay Dfs_Faults Sim_State Futex Simulator Decision_Tree Dfs_Decisions Explore Dfs_Explore
    Timer_Places Sim_Rules Futex_Queues Sim_Inv Sim_Wake Sim_Handlers Sim_Exit Sim_Calls Sim_Loop Sim_Contract
    Sim_Choices Sim_Theorems Sim_Explore Segments User_Heap Heap_Inv User_Memory Memory_Inv Memory_Theorems
    Nonpreemptive Atomic_Base Atomic_Types Sync_Var Lib_Machine Mutex_Lib Shared_Mutex_Lib Timed_Mutex_Lib Condvar_Lib
    Thread_Lib Unique_Lock Wait_Group Lock_Races
begin

text \<open>
  Twist tests concurrent programs: it runs them, compiled against its own mutexes, atomics and
  threads, on a deterministic simulator of a multi-threaded machine, under a scheduler that decides
  every step, and looks for deadlocks, data races, leaks and failed assertions. This development
  models the simulator under \<open>twist/source/twist/rt/sim/\<close> (paths below are relative to it) and the
  exploration loop on top of it, \<open>mod/sim/sim.cpp\<close>.

  \<^bold>\<open>The program and its model.\<close>

  \<^item> \<open>Prelude\<close>, \<open>Sim_Types\<close>: words, identifiers, failures (\<open>fault\<close>: a failed assertion, an aborted
    simulation, a loop that does not return), and the types the parts exchange: statuses, memory
    orders, actions, accesses, futex locations, the thread object (\<open>system/thread/struct.hpp\<close>).
  \<^item> \<open>Timers\<close>: \<open>TimerHeap\<close> and \<open>TimerQueue\<close>, an array heap whose timers know their slots.
    \<open>Sim_Time\<close>: ticks, instants, \<open>Time::AdvanceTo\<close>, \<open>IdAllocator\<close>.
  \<^item> \<open>Random_Base\<close>: the generator of the schedulers and the digest of a run.
  \<^item> \<open>Vector_Clock\<close>, \<open>Memory_Model\<close>: \<open>sync::Clock\<close> and \<open>SeqCstMemoryModel\<close>, sequentially consistent
    memory with the happens-before order of the memory orders, and the detection of races.
    \<open>Happens_Before\<close> says without clocks what the order is, as sets of events; \<open>Race_Detector\<close> proves
    that the code implements it.
  \<^item> \<open>Scheduler\<close>: \<open>IScheduler\<close> as a record of operations, its contract as the locales \<open>scheduler\<close> and its
    extensions, over the abstract \<open>sched_view\<close> (which threads the scheduler holds, which wait in which
    queue). \<open>Random_Scheduler\<close>, \<open>Pct_Scheduler\<close>, \<open>Coop_Scheduler\<close>, \<open>Dfs_Scheduler\<close> model the four
    schedulers of \<open>scheduler/\<close> and interpret the locales; \<open>Link_Queues\<close> has the queues three of them
    share. \<open>Replay\<close> has \<open>Recorder\<close>, which wraps a scheduler, and the scheduler that replays.
  \<^item> \<open>Sched_Client\<close>: a simulation as its scheduler sees it, a finite tree of calls (\<open>client\<close>), and the
    client's side of the contract (\<open>client_wp\<close>), which every scheduler meets (\<open>client_scheduler\<close>).
  \<^item> \<open>Sim_State\<close>, \<open>Futex\<close>, \<open>Simulator\<close>: \<open>Simulator\<close> itself: its state, the handlers of the system calls,
    futex waiting and waking, timers, the loop, deadlocks, burning, \<open>Run\<close>. Its code is a client of the
    scheduler, and user code is a deterministic function from replies to system calls.
  \<^item> \<open>Decision_Tree\<close>, \<open>Dfs_Decisions\<close>: a simulation under the depth-first scheduler as a walk of a tree of
    decisions. \<open>Explore\<close>, \<open>Dfs_Explore\<close>: \<open>Explore\<close>, \<open>Record\<close>, \<open>DetCheck\<close> and the theorem that exploration is
    exhaustive.
  \<^item> \<open>Sim_Rules\<close>: a logic of weakest preconditions for the simulator's code (\<open>wps\<close>), over the client's side of the
    contract. \<open>Timer_Places\<close>, \<open>Futex_Queues\<close>, \<open>Sim_Inv\<close>: the invariant \<open>sim_ok\<close>, which says that each thread that is
    alive is in exactly one place, with the scheduler, on a futex, on a timer (or both) or in hand, and
    that its object says so. \<open>Sim_Wake\<close>, \<open>Sim_Handlers\<close>, \<open>Sim_Exit\<close>, \<open>Sim_Calls\<close>, \<open>Sim_Loop\<close>, \<open>Sim_Contract\<close>: every
    function of the simulator keeps it. \<open>Sim_Choices\<close>: no choice among nothing. \<open>Sim_Theorems\<close>, \<open>Sim_Explore\<close>,
    \<open>Dfs_Faults\<close>: what follows for system calls, waking, deadlocks, whole simulations and their exploration.
  \<^item> \<open>Segments\<close>, \<open>User_Heap\<close>, \<open>User_Memory\<close>: the isolated memory of the program under test
    (\<open>system/memory/isolated/\<close>): the segment that the heap and the stacks share, size classes, blocks and
    their headers, the index of the blocks, the free lists, static variables, and the object \<open>Memory\<close> that
    the simulator calls. \<open>Heap_Inv\<close>, \<open>Memory_Inv\<close>: their invariants. \<open>Memory_Theorems\<close>: what the memory
    promises, over the map of the blocks that the program holds.
  \<^item> \<open>Atomic_Base\<close>, \<open>Atomic_Types\<close>, \<open>Sync_Var\<close>: the atomics that the program under test uses
    (\<open>user/library/std_like/\<close>), as sequences of system calls on the memory model. \<open>Nonpreemptive\<close>: no other
    thread runs within one of their operations. \<open>Lib_Machine\<close>: objects of the user library as code that is
    between two calls, and their runs, where any thread may take the next step. \<open>Mutex_Lib\<close>, \<open>Shared_Mutex_Lib\<close>,
    \<open>Timed_Mutex_Lib\<close>, \<open>Thread_Lib\<close>: \<open>std::mutex\<close>, \<open>std::shared_mutex\<close>, \<open>std::timed_mutex\<close> and \<open>std::thread\<close> as
    such objects. \<open>Condvar_Lib\<close>: \<open>std::condition_variable\<close>, built on the mutex, which it refines. \<open>Lock_Races\<close>:
    objects driven on the memory model. \<open>Unique_Lock\<close>: \<open>std::unique_lock\<close> and \<open>std::lock_guard\<close> over any mutex that meets the
    locale \<open>lockable\<close>, as \<open>std::mutex\<close> does. \<open>Wait_Group\<close>: \<open>test::WaitGroup\<close> (\<open>user/test/\<close>), with which a test starts its threads.

  \<^bold>\<open>What the lemmas show.\<close> The heap keeps its order and its back references through insertion and
  extraction, fires timers in the order of their deadlines, and loses the order when a timer in the middle
  is cancelled. The memory model implements its specification by sets of events, so that the race
  detector reports a race exactly when there is one. Each scheduler keeps the threads it is given and
  returns what the contract says, with the errors where it does not (\<open>PCT\<close> and the cooperative
  scheduler when a simulation is burnt). A recorded run is replayed with the same outcome. The
  depth-first exploration visits every schedule once. The digest distinguishes runs. The simulator keeps to
  the scheduler's contract whatever the program under test does, none of its internal checks can fail,
  waking wakes exactly the threads it should, and deadlocks are detected exactly. The isolated memory hands
  out aligned blocks that never overlap, finds double frees, decides accesses exactly and counts leaks exactly.
  Atomics compute what their types say; the mutexes exclude, count readers exactly and lose no wakeup; waiting on a
  condition variable misses no notification; \<open>shared_mutex\<close> does not order the data it guards; the
  state of a thread is destroyed once, by whoever is last, and \<open>join\<close> waits for the thread. Scoped locks
  account for every mutex that a thread holds, and a wait group joins exactly when all its threads have exited.

  \<^bold>\<open>Bounds.\<close> Integers are kept at 64 bits where they wrap (ticks, draws, digests, values of atomics);
  identifiers, indices and counters are natural numbers. A loop that may not end has a fuel argument or
  is a partial function, and running out is the failure \<open>NoReturn\<close>. The first argument of \<open>Run\<close> bounds the
  iterations of the main loop together with the steps of a slice, since user code may run forever;
  the other loops of the simulator have bounds that are enough (\<open>PollTimers\<close>: one turn for each
  timer, \<open>SysFutexWake\<close>: one for each thread).

  \<^bold>\<open>Not modelled.\<close> Contexts and stacks (a thread is a function of its replies); logging, traces and the
  texts of reports, which do not come back into a simulation; the contents of user memory, the mapping of the
  arena by the operating system and the shared memory (\<open>system/memory/shared/\<close>), which is \<open>malloc\<close>. The simulator
  takes the addresses that the memory hands out as arguments of its calls and keeps of it the counters that the
  leak check reads. Of the library of user code (\<open>user/library/\<close>): tracing,
  futex loops and statics. The runtime on real threads (\<open>rt/thr/\<close>), the
  facade (\<open>ed/\<close>, \<open>rt/cap/\<close>) and vendored libraries are not modelled either. The objects of the user library
  are proved for every interleaving of their calls, and are not run inside the model of the simulator. The words the schedulers keep in a thread are modelled, but
  the random scheduler's suspension of lock-free threads, which writes the state of threads that the
  simulator reads in its deadlock check, is not fed back into the model of the simulator. When a
  scheduler prunes a simulation the state with the status is the outcome, without the burning of its
  threads.
\<close>

end
